(* ===== verification/Fern_Prelude.thy ===== *)
theory Fern_Prelude imports Main "HOL-Library.Monad_Syntax" "HOL-Library.Word" begin

text \<open>
  Shared vocabulary of the development: the error codes of
  \<^verbatim>\<open>src/src/s_util/include/s_util/err.h\<close>, the view of memory and of
  allocation used by every component, checked array accesses, and the theory of
  doubly linked segments on which the linked list, the ID table, the hash map and
  the heap allocator rest.

  Conventions used throughout:
  \<^item> \<^verbatim>\<open>'a option\<close> as the result of an operation is the C memory model: \<open>None\<close> means
    that the code dereferences NULL, freed or out-of-bounds memory (or, for the
    loops written with \<^theory_text>\<open>partial_function\<close>, that it never returns).  A pointer
    itself is an \<^verbatim>\<open>addr option\<close> whose \<open>None\<close> is NULL.
  \<^item> an \<^verbatim>\<open>allocator\<close> answers an allocation request given the set of live addresses
    of the structure that allocates; \<open>None\<close> is the NULL that
    \<^verbatim>\<open>al_malloc\<close> returns when memory has run out.
\<close>

section \<open>Error codes\<close>

datatype fernos_error =
    FOS_E_SUCCESS | FOS_E_UNKNWON_ERROR | FOS_E_ALIGN_ERROR | FOS_E_INVALID_RANGE
  | FOS_E_BAD_ARGS | FOS_E_NO_MEM | FOS_E_ALREADY_ALLOCATED | FOS_E_IDENTITY_OVERWRITE
  | FOS_E_INVALID_INDEX | FOS_E_EMPTY | FOS_E_STATE_MISMATCH | FOS_E_ABORT_SYSTEM
  | FOS_E_NOT_IMPLEMENTED | FOS_E_IN_USE | FOS_E_NO_SPACE | FOS_E_NOT_PERMITTED
  | FOS_E_FATAL | FOS_E_INACTIVE

fun err_code :: "fernos_error \<Rightarrow> 16 word" where
  "err_code FOS_E_SUCCESS = 0"
| "err_code FOS_E_UNKNWON_ERROR = 1"
| "err_code FOS_E_ALIGN_ERROR = 2"
| "err_code FOS_E_INVALID_RANGE = 3"
| "err_code FOS_E_BAD_ARGS = 4"
| "err_code FOS_E_NO_MEM = 5"
| "err_code FOS_E_ALREADY_ALLOCATED = 6"
| "err_code FOS_E_IDENTITY_OVERWRITE = 7"
| "err_code FOS_E_INVALID_INDEX = 8"
| "err_code FOS_E_EMPTY = 9"
| "err_code FOS_E_STATE_MISMATCH = 10"
| "err_code FOS_E_ABORT_SYSTEM = 11"
| "err_code FOS_E_NOT_IMPLEMENTED = 12"
| "err_code FOS_E_IN_USE = 13"
| "err_code FOS_E_NO_SPACE = 14"
| "err_code FOS_E_NOT_PERMITTED = 15"
| "err_code FOS_E_FATAL = 16"
| "err_code FOS_E_INACTIVE = 17"

lemma err_code_inject: "err_code a = err_code b \<longleftrightarrow> a = b"
  by (cases a; cases b; simp)

section \<open>Addresses and allocation\<close>

type_synonym addr = nat

type_synonym allocator = "addr set \<Rightarrow> addr option"

definition alloc_ok :: "allocator \<Rightarrow> bool" where
  "alloc_ok al \<longleftrightarrow> (\<forall>L p. al L = Some p \<longrightarrow> p \<notin> L)"

text \<open>An allocator that may run out of memory: it refuses some finite set of live blocks.  The
  error branches of the library are only taken with such an allocator.\<close>

definition oom :: "allocator \<Rightarrow> bool" where
  "oom al \<longleftrightarrow> (\<exists>L. finite L \<and> al L = None)"

lemma oomI [intro]: "al L = None \<Longrightarrow> finite L \<Longrightarrow> oom al"
  by (auto simp: oom_def)

lemma alloc_okD: "alloc_ok al \<Longrightarrow> al L = Some p \<Longrightarrow> p \<notin> L"
  by (auto simp: alloc_ok_def)

text \<open>The allocator of the examples: one past the highest live address, never out of memory.\<close>

definition bump_alloc :: allocator where
  "bump_alloc L = (if finite L then Some (Suc (Max (insert 0 L))) else None)"

lemma bump_alloc_ok [simp]: "alloc_ok bump_alloc" "\<not> oom bump_alloc"
proof -
  have "Suc (Max (insert 0 L)) \<notin> L" if "finite L" for L :: "addr set"
  proof
    assume "Suc (Max (insert 0 L)) \<in> L"
    then have "Suc (Max (insert 0 L)) \<le> Max (insert 0 L)"
      by (intro Max_ge) (simp_all add: that)
    then show False by simp
  qed
  then show "alloc_ok bump_alloc" by (auto simp: alloc_ok_def bump_alloc_def)
  show "\<not> oom bump_alloc" by (auto simp: oom_def bump_alloc_def)
qed

lemma alloc_ok_none [simp]: "alloc_ok (\<lambda>L. None)"
  by (simp add: alloc_ok_def)

section \<open>Option as the memory monad\<close>

named_theorems mem_simps \<open>unfolding and splitting of the fault-tracking monad\<close>

lemma bind_Some_simp [mem_simps]:
  "(Option.bind m f = Some y) \<longleftrightarrow> (\<exists>x. m = Some x \<and> f x = Some y)"
  by (rule Option.bind_eq_Some_conv)

lemmas bind_simps [mem_simps] = Option.bind.bind_lzero Option.bind.bind_lunit

definition arr_get :: "'a list \<Rightarrow> nat \<Rightarrow> 'a option" where
  "arr_get xs i = (if i < length xs then Some (xs ! i) else None)"

definition arr_set :: "'a list \<Rightarrow> nat \<Rightarrow> 'a \<Rightarrow> 'a list option" where
  "arr_set xs i v = (if i < length xs then Some (xs[i := v]) else None)"

lemma arr_get_in [simp]: "i < length xs \<Longrightarrow> arr_get xs i = Some (xs ! i)"
  by (simp add: arr_get_def)

lemma arr_set_in [simp]: "i < length xs \<Longrightarrow> arr_set xs i v = Some (xs[i := v])"
  by (simp add: arr_set_def)

lemma arr_get_Some_iff: "arr_get xs i = Some v \<longleftrightarrow> i < length xs \<and> v = xs ! i"
  by (auto simp: arr_get_def)

lemma arr_set_Some_iff: "arr_set xs i v = Some ys \<longleftrightarrow> i < length xs \<and> ys = xs[i := v]"
  by (auto simp: arr_set_def)

lemma removeAll_eq_filter: "removeAll x xs = filter (\<lambda>y. y \<noteq> x) xs"
  by (induction xs) auto

section \<open>Doubly linked segments\<close>

text \<open>
  \<open>lk a = Some (p, n)\<close> says that the cell \<open>a\<close> is live, its \<^verbatim>\<open>prev\<close> field is \<open>p\<close> and its
  \<^verbatim>\<open>next\<close> field is \<open>n\<close>.  A segment \<open>dseg lk p as n\<close> is a chain of cells \<open>as\<close> whose first cell
  points back to \<open>p\<close> and whose last cell points forward to \<open>n\<close>.
\<close>

type_synonym 'a links = "'a \<Rightarrow> ('a option \<times> 'a option) option"

definition fst_or :: "'a option \<Rightarrow> 'a list \<Rightarrow> 'a option" where
  "fst_or n as = (case as of [] \<Rightarrow> n | a # _ \<Rightarrow> Some a)"

definition lst_or :: "'a option \<Rightarrow> 'a list \<Rightarrow> 'a option" where
  "lst_or p as = (if as = [] then p else Some (last as))"

lemma fst_or_simps [simp]: "fst_or n [] = n" "fst_or n (a # as) = Some a"
  by (simp_all add: fst_or_def)

lemma lst_or_simps [simp]:
  "lst_or p [] = p" "lst_or p (as @ [a]) = Some a" "lst_or p [a] = Some a"
  "lst_or p (a # b # as) = lst_or p (b # as)"
  by (simp_all add: lst_or_def)

lemma fst_or_append: "fst_or n (as @ bs) = fst_or (fst_or n bs) as"
  by (cases as) simp_all

lemma lst_or_append: "lst_or p (as @ bs) = lst_or (lst_or p as) bs"
  by (simp add: lst_or_def)

lemma lst_or_Cons: "lst_or p (a # as) = lst_or (Some a) as"
  by (simp add: lst_or_def)

lemma fst_or_None_iff [simp]: "fst_or None as = None \<longleftrightarrow> as = []"
  by (cases as) simp_all

lemma lst_or_None_iff [simp]: "lst_or None as = None \<longleftrightarrow> as = []"
  by (simp add: lst_or_def)

lemma fst_or_eq_Some: "fst_or n as = Some a \<longleftrightarrow> (if as = [] then n = Some a else a = hd as)"
  by (cases as) auto

lemma lst_or_eq_Some: "lst_or p as = Some a \<longleftrightarrow> (if as = [] then p = Some a else a = last as)"
  by (auto simp: lst_or_def)

fun dseg :: "'a links \<Rightarrow> 'a option \<Rightarrow> 'a list \<Rightarrow> 'a option \<Rightarrow> bool" where
  "dseg lk p [] n = True"
| "dseg lk p (a # as) n = (lk a = Some (p, fst_or n as) \<and> dseg lk (Some a) as n)"

lemma dseg_append:
  "dseg lk p (as @ bs) n \<longleftrightarrow> dseg lk p as (fst_or n bs) \<and> dseg lk (lst_or p as) bs n"
  by (induction as arbitrary: p) (auto simp: fst_or_append lst_or_Cons)

lemma dseg_cong:
  "(\<And>a. a \<in> set as \<Longrightarrow> lk' a = lk a) \<Longrightarrow> dseg lk' p as n = dseg lk p as n"
  by (induction as arbitrary: p) auto

lemma dseg_live: "dseg lk p as n \<Longrightarrow> a \<in> set as \<Longrightarrow> lk a \<noteq> None"
  by (induction as arbitrary: p) auto

lemma dseg_nth:
  "dseg lk p as n \<Longrightarrow> i < length as \<Longrightarrow>
   lk (as ! i) = Some (lst_or p (take i as), fst_or n (drop (Suc i) as))"
proof (induction as arbitrary: p i)
  case Nil
  then show ?case by simp
next
  case (Cons a as)
  then show ?case
    by (cases i) (auto simp: lst_or_Cons)
qed

text \<open>Only the end cells of a segment know its neighbours.\<close>

lemma dseg_relink_next:
  assumes "dseg lk p as n" and "distinct as"
    and "\<And>a. a \<in> set as \<Longrightarrow> a \<noteq> last as \<Longrightarrow> lk' a = lk a"
    and "as \<noteq> [] \<Longrightarrow> lk' (last as) = map_option (\<lambda>(u, v). (u, n')) (lk (last as))"
  shows "dseg lk' p as n'"
proof (cases as rule: rev_cases)
  case Nil
  then show ?thesis by simp
next
  case (snoc bs b)
  have "dseg lk' p bs (Some b) = dseg lk p bs (Some b)"
    by (rule dseg_cong) (use assms(2,3) snoc in auto)
  then show ?thesis
    using assms snoc by (auto simp: dseg_append)
qed

lemma dseg_relink_prev:
  assumes "dseg lk p as n" and "distinct as"
    and "\<And>a. a \<in> set as \<Longrightarrow> a \<noteq> hd as \<Longrightarrow> lk' a = lk a"
    and "as \<noteq> [] \<Longrightarrow> lk' (hd as) = map_option (\<lambda>(u, v). (p', v)) (lk (hd as))"
  shows "dseg lk' p' as n"
proof (cases as)
  case Nil
  then show ?thesis by simp
next
  case (Cons b bs)
  have "dseg lk' (Some b) bs n = dseg lk (Some b) bs n"
    by (rule dseg_cong) (use assms(2,3) Cons in auto)
  then show ?thesis
    using assms Cons by auto
qed

lemma hd_not_left: "distinct (as @ bs) \<Longrightarrow> a \<in> set as \<Longrightarrow> bs = [] \<or> a \<noteq> hd bs"
  by (cases bs) auto

lemma last_not_right: "distinct (as @ bs) \<Longrightarrow> a \<in> set bs \<Longrightarrow> as = [] \<or> a \<noteq> last as"
  by (cases as rule: rev_cases) auto

lemma dseg_insert:
  assumes seg: "dseg lk p (as @ bs) n" and dist: "distinct (as @ bs)"
    and new: "lk' x = Some (lst_or p as, fst_or n bs)"
    and left: "as \<noteq> [] \<Longrightarrow> lk' (last as) = map_option (\<lambda>(u, v). (u, Some x)) (lk (last as))"
    and right: "bs \<noteq> [] \<Longrightarrow> lk' (hd bs) = map_option (\<lambda>(u, v). (Some x, v)) (lk (hd bs))"
    and same: "\<And>a. a \<in> set (as @ bs) \<Longrightarrow> (as = [] \<or> a \<noteq> last as) \<Longrightarrow> (bs = [] \<or> a \<noteq> hd bs) \<Longrightarrow>
      lk' a = lk a"
  shows "dseg lk' p (as @ x # bs) n"
proof -
  have "dseg lk p as (fst_or n bs)" and "dseg lk (lst_or p as) bs n"
    using seg by (simp_all add: dseg_append)
  moreover have "dseg lk' p as (Some x)"
    by (rule dseg_relink_next [OF \<open>dseg lk p as (fst_or n bs)\<close>])
      (use dist left same hd_not_left [OF dist] in auto)
  moreover have "dseg lk' (Some x) bs n"
    by (rule dseg_relink_prev [OF \<open>dseg lk (lst_or p as) bs n\<close>])
      (use dist right same last_not_right [OF dist] in auto)
  ultimately show ?thesis
    using new by (simp add: dseg_append)
qed

lemma dseg_remove:
  assumes seg: "dseg lk p (as @ x # bs) n" and dist: "distinct (as @ x # bs)"
    and left: "as \<noteq> [] \<Longrightarrow>
      lk' (last as) = map_option (\<lambda>(u, v). (u, fst_or n bs)) (lk (last as))"
    and right: "bs \<noteq> [] \<Longrightarrow>
      lk' (hd bs) = map_option (\<lambda>(u, v). (lst_or p as, v)) (lk (hd bs))"
    and same: "\<And>a. a \<in> set (as @ bs) \<Longrightarrow> (as = [] \<or> a \<noteq> last as) \<Longrightarrow> (bs = [] \<or> a \<noteq> hd bs) \<Longrightarrow>
      lk' a = lk a"
  shows "dseg lk' p (as @ bs) n"
proof -
  have s: "dseg lk p as (Some x)" "dseg lk (Some x) bs n"
    using seg by (simp_all add: dseg_append)
  have d: "distinct (as @ bs)"
    using dist by simp
  have "dseg lk' p as (fst_or n bs)"
    by (rule dseg_relink_next [OF s(1)])
      (use dist left same hd_not_left [OF d] in auto)
  moreover have "dseg lk' (lst_or p as) bs n"
    by (rule dseg_relink_prev [OF s(2)])
      (use dist right same last_not_right [OF d] in auto)
  ultimately show ?thesis
    by (simp add: dseg_append)
qed

end
