(* ===== verification/List_Interface.thy ===== *)
theory List_Interface imports Fern_Prelude begin

text \<open>
  The list interface of \<^verbatim>\<open>src/src/s_data/include/s_data/list.h\<close>: the table of
  operations that a \<^verbatim>\<open>list_t\<close> carries, the helpers that dispatch through it, the two
  default algorithms of \<^verbatim>\<open>src/src/s_data/src/list.c\<close> that work for every list
  (\<^verbatim>\<open>l_push_back_all\<close>, \<^verbatim>\<open>l_pop_ele\<close>), and the contract \<open>list_contract\<close> that an
  implementation promises its clients.  The clients of the interface are proved
  correct once, inside the contract.
\<close>

section \<open>The operation table\<close>

text \<open>
  A pushed element is the pointer \<^verbatim>\<open>src\<close>: \<open>None\<close> when it is NULL.  A returned pointer
  into the list is the element it points to, or \<open>None\<close> when NULL is returned.
\<close>

record ('l, 'v) list_impl =
  li_clear :: "'l \<Rightarrow> 'l option"
  li_get_cell_size :: "'l \<Rightarrow> nat"
  li_get_len :: "'l \<Rightarrow> nat"
  li_get_ptr :: "'l \<Rightarrow> nat \<Rightarrow> 'v option option"
  li_push :: "allocator \<Rightarrow> 'l \<Rightarrow> nat \<Rightarrow> 'v option \<Rightarrow> (fernos_error \<times> 'l) option"
  li_pop :: "'l \<Rightarrow> nat \<Rightarrow> (fernos_error \<times> 'v option \<times> 'l) option"
  li_reset_iter :: "'l \<Rightarrow> 'l"
  li_get_iter :: "'l \<Rightarrow> 'v option option"
  li_next_iter :: "'l \<Rightarrow> ('v option \<times> 'l) option"
  li_push_before_iter :: "allocator \<Rightarrow> 'l \<Rightarrow> 'v option \<Rightarrow> (fernos_error \<times> 'l) option"
  li_push_after_iter :: "allocator \<Rightarrow> 'l \<Rightarrow> 'v option \<Rightarrow> (fernos_error \<times> 'l) option"
  li_pop_iter :: "'l \<Rightarrow> (fernos_error \<times> 'v option \<times> 'l) option"

definition l_push_front ::
  "('l, 'v) list_impl \<Rightarrow> allocator \<Rightarrow> 'l \<Rightarrow> 'v option \<Rightarrow> (fernos_error \<times> 'l) option" where
  "l_push_front I al l src = li_push I al l 0 src"

definition l_pop_front :: "('l, 'v) list_impl \<Rightarrow> 'l \<Rightarrow> (fernos_error \<times> 'v option \<times> 'l) option" where
  "l_pop_front I l = li_pop I l 0"

definition l_push_back ::
  "('l, 'v) list_impl \<Rightarrow> allocator \<Rightarrow> 'l \<Rightarrow> 'v option \<Rightarrow> (fernos_error \<times> 'l) option" where
  "l_push_back I al l src = li_push I al l (li_get_len I l) src"

text \<open>\<^verbatim>\<open>l_get_len(l) - 1\<close> is unsigned: on an empty list it is the largest \<^verbatim>\<open>size_t\<close>.\<close>

definition l_pop_back :: "('l, 'v) list_impl \<Rightarrow> 'l \<Rightarrow> (fernos_error \<times> 'v option \<times> 'l) option" where
  "l_pop_back I l = li_pop I l ((li_get_len I l + (2 ^ 32 - 1)) mod 2 ^ 32)"

section \<open>The default algorithms\<close>

partial_function (option) l_push_back_all_loop ::
  "('l, 'v) list_impl \<Rightarrow> allocator \<Rightarrow> 'l \<Rightarrow> 'l \<Rightarrow> 'v option \<Rightarrow> (fernos_error \<times> 'l \<times> 'l) option"
where
  "l_push_back_all_loop I al l s iter =
     (case iter of
        None \<Rightarrow> do { s' \<leftarrow> li_clear I s; Some (FOS_E_SUCCESS, l, s') }
      | Some v \<Rightarrow> do {
          (err, l') \<leftarrow> l_push_back I al l (Some v);
          if err \<noteq> FOS_E_SUCCESS then Some (err, l', s)
          else do {
            (iter', s') \<leftarrow> li_next_iter I s;
            l_push_back_all_loop I al l' s' iter' } })"

definition l_push_back_all ::
  "('l, 'v) list_impl \<Rightarrow> allocator \<Rightarrow> 'l \<Rightarrow> 'l option \<Rightarrow> (fernos_error \<times> 'l \<times> 'l option) option"
where
  "l_push_back_all I al l s =
     (case s of
        None \<Rightarrow> Some (FOS_E_BAD_ARGS, l, None)
      | Some s \<Rightarrow> do {
          let s = li_reset_iter I s;
          iter \<leftarrow> li_get_iter I s;
          (err, l', s') \<leftarrow> l_push_back_all_loop I al l s iter;
          Some (err, l', Some s') })"

text \<open>
  The loop of \<^verbatim>\<open>l_pop_ele\<close>; \<open>hit\<close> is \<^verbatim>\<open>cmp(ele, -)\<close>.  The result is the flag
  \<^verbatim>\<open>removed\<close> and the list.
\<close>

partial_function (option) l_pop_ele_loop ::
  "('l, 'v) list_impl \<Rightarrow> ('v \<Rightarrow> bool) \<Rightarrow> bool \<Rightarrow> 'l \<Rightarrow> 'v option \<Rightarrow> bool \<Rightarrow> (bool \<times> 'l) option"
where
  "l_pop_ele_loop I hit all l iter removed =
     (case iter of
        None \<Rightarrow> Some (removed, l)
      | Some v \<Rightarrow>
          (if hit v then do {
             (_, _, l) \<leftarrow> li_pop_iter I l;
             if \<not> all then Some (True, l)
             else do {
               iter \<leftarrow> li_get_iter I l;
               l_pop_ele_loop I hit all l iter True } }
           else do {
             (iter, l) \<leftarrow> li_next_iter I l;
             l_pop_ele_loop I hit all l iter removed }))"

definition l_pop_ele ::
  "('l, 'v) list_impl \<Rightarrow> 'l \<Rightarrow> 'v option \<Rightarrow> ('v \<Rightarrow> 'v \<Rightarrow> bool) option \<Rightarrow> bool \<Rightarrow> (bool \<times> 'l) option"
where
  "l_pop_ele I l ele cmp all =
     (case (ele, cmp) of
        (Some e, Some c) \<Rightarrow> do {
          let l = li_reset_iter I l;
          iter \<leftarrow> li_get_iter I l;
          l_pop_ele_loop I (c e) all l iter False }
      | _ \<Rightarrow> Some (False, l))"

definition l_pop_first_match ::
  "('l, 'v) list_impl \<Rightarrow> 'l \<Rightarrow> 'v option \<Rightarrow> ('v \<Rightarrow> 'v \<Rightarrow> bool) option \<Rightarrow> (bool \<times> 'l) option" where
  "l_pop_first_match I l ele cmp = l_pop_ele I l ele cmp False"

definition l_pop_all_matches ::
  "('l, 'v) list_impl \<Rightarrow> 'l \<Rightarrow> 'v option \<Rightarrow> ('v \<Rightarrow> 'v \<Rightarrow> bool) option \<Rightarrow> (bool \<times> 'l) option" where
  "l_pop_all_matches I l ele cmp = l_pop_ele I l ele cmp True"

section \<open>The contract of a list implementation\<close>

text \<open>
  \<open>inv l xs\<close>: the list object \<open>l\<close> is well formed and holds the elements \<open>xs\<close>.
  \<open>inv_it l xs k\<close>: moreover its iterator stands at position \<open>k\<close> (at \<open>length xs\<close> the
  iterator is NULL).  Popping by index may leave the iterator dangling, so only the
  operations on the iterator keep \<open>inv_it\<close>.
\<close>

definition remove_at :: "nat \<Rightarrow> 'a list \<Rightarrow> 'a list" where
  "remove_at k xs = take k xs @ drop (Suc k) xs"

definition insert_at :: "nat \<Rightarrow> 'a \<Rightarrow> 'a list \<Rightarrow> 'a list" where
  "insert_at k v xs = take k xs @ v # drop k xs"

definition elem_at :: "'a list \<Rightarrow> nat \<Rightarrow> 'a option" where
  "elem_at xs k = (if k < length xs then Some (xs ! k) else None)"

lemma elem_at_simps [simp]:
  "k < length xs \<Longrightarrow> elem_at xs k = Some (xs ! k)"
  "length xs \<le> k \<Longrightarrow> elem_at xs k = None"
  "elem_at (x # xs) 0 = Some x"
  by (simp_all add: elem_at_def)

lemma insert_at_simps [simp]:
  "insert_at 0 v xs = v # xs" "insert_at (length xs) v xs = xs @ [v]"
  "k \<le> length xs \<Longrightarrow> length (insert_at k v xs) = Suc (length xs)"
  by (simp_all add: insert_at_def)

lemma remove_at_simps [simp]:
  "remove_at 0 (x # xs) = xs" "xs \<noteq> [] \<Longrightarrow> remove_at 0 xs = tl xs"
  "k < length xs \<Longrightarrow> length (remove_at k xs) = length xs - 1"
  by (simp_all add: remove_at_def drop_Suc)

locale list_contract =
  fixes I :: "('l, 'v) list_impl"
    and inv :: "'l \<Rightarrow> 'v list \<Rightarrow> bool"
    and inv_it :: "'l \<Rightarrow> 'v list \<Rightarrow> nat \<Rightarrow> bool"
  assumes len: "inv l xs \<Longrightarrow> li_get_len I l = length xs"
    and ptr: "inv l xs \<Longrightarrow> li_get_ptr I l i = Some (elem_at xs i)"
    and clear: "inv l xs \<Longrightarrow> \<exists>l'. li_clear I l = Some l' \<and> inv l' []"
    and push_range: "inv l xs \<Longrightarrow> length xs < i \<Longrightarrow>
      li_push I al l i src = Some (FOS_E_INVALID_INDEX, l)"
    and push_null: "inv l xs \<Longrightarrow> i \<le> length xs \<Longrightarrow>
      li_push I al l i None = Some (FOS_E_BAD_ARGS, l)"
    and push: "inv l xs \<Longrightarrow> alloc_ok al \<Longrightarrow> i \<le> length xs \<Longrightarrow>
      (\<exists>l'. li_push I al l i (Some v) = Some (FOS_E_SUCCESS, l') \<and> inv l' (insert_at i v xs))
      \<or> oom al \<and> li_push I al l i (Some v) = Some (FOS_E_NO_MEM, l)"
    and pop_range: "inv l xs \<Longrightarrow> length xs \<le> i \<Longrightarrow>
      li_pop I l i = Some (FOS_E_INVALID_INDEX, None, l)"
    and pop: "inv l xs \<Longrightarrow> i < length xs \<Longrightarrow>
      \<exists>l'. li_pop I l i = Some (FOS_E_SUCCESS, Some (xs ! i), l') \<and> inv l' (remove_at i xs)"
    and it_inv: "inv_it l xs k \<Longrightarrow> inv l xs \<and> k \<le> length xs"
    and reset: "inv l xs \<Longrightarrow> inv_it (li_reset_iter I l) xs 0"
    and get_iter: "inv_it l xs k \<Longrightarrow> li_get_iter I l = Some (elem_at xs k)"
    and next_iter: "inv_it l xs k \<Longrightarrow>
      \<exists>l'. li_next_iter I l = Some (elem_at xs (Suc k), l') \<and> inv_it l' xs (min (Suc k) (length xs))"
    and before_null: "inv_it l xs k \<Longrightarrow>
      li_push_before_iter I al l None = Some (FOS_E_BAD_ARGS, l)"
    and before_end: "inv_it l xs (length xs) \<Longrightarrow>
      li_push_before_iter I al l (Some v) = Some (FOS_E_INVALID_INDEX, l)"
    and before: "inv_it l xs k \<Longrightarrow> alloc_ok al \<Longrightarrow> k < length xs \<Longrightarrow>
      (\<exists>l'. li_push_before_iter I al l (Some v) = Some (FOS_E_SUCCESS, l')
         \<and> inv_it l' (insert_at k v xs) (Suc k))
      \<or> oom al \<and> li_push_before_iter I al l (Some v) = Some (FOS_E_NO_MEM, l)"
    and after_null: "inv_it l xs k \<Longrightarrow>
      li_push_after_iter I al l None = Some (FOS_E_BAD_ARGS, l)"
    and after_end: "inv_it l xs (length xs) \<Longrightarrow>
      li_push_after_iter I al l (Some v) = Some (FOS_E_INVALID_INDEX, l)"
    and after: "inv_it l xs k \<Longrightarrow> alloc_ok al \<Longrightarrow> k < length xs \<Longrightarrow>
      (\<exists>l'. li_push_after_iter I al l (Some v) = Some (FOS_E_SUCCESS, l')
         \<and> inv_it l' (insert_at (Suc k) v xs) k)
      \<or> oom al \<and> li_push_after_iter I al l (Some v) = Some (FOS_E_NO_MEM, l)"
    and pop_iter_end: "inv_it l xs (length xs) \<Longrightarrow>
      li_pop_iter I l = Some (FOS_E_INVALID_INDEX, None, l)"
    and pop_iter: "inv_it l xs k \<Longrightarrow> k < length xs \<Longrightarrow>
      \<exists>l'. li_pop_iter I l = Some (FOS_E_SUCCESS, Some (xs ! k), l') \<and> inv_it l' (remove_at k xs) k"
begin

lemma push_back_null: "inv l xs \<Longrightarrow> l_push_back I al l None = Some (FOS_E_BAD_ARGS, l)"
  by (simp add: l_push_back_def len push_null)

lemma push_back:
  assumes "inv l xs" and "alloc_ok al"
  shows "(\<exists>l'. l_push_back I al l (Some v) = Some (FOS_E_SUCCESS, l') \<and> inv l' (xs @ [v]))
    \<or> oom al \<and> l_push_back I al l (Some v) = Some (FOS_E_NO_MEM, l)"
  using push [OF assms, of "length xs" v] by (simp add: l_push_back_def len [OF assms(1)])

lemma pop_front_empty: "inv l [] \<Longrightarrow> l_pop_front I l = Some (FOS_E_INVALID_INDEX, None, l)"
  by (simp add: l_pop_front_def pop_range)

lemma pop_front:
  "inv l (x # xs) \<Longrightarrow> \<exists>l'. l_pop_front I l = Some (FOS_E_SUCCESS, Some x, l') \<and> inv l' xs"
  using pop [of l "x # xs" 0] by (simp add: l_pop_front_def)

lemma pop_back:
  assumes "inv l xs" and "xs \<noteq> []" and "length xs \<le> 2 ^ 32"
  shows "\<exists>l'. l_pop_back I l = Some (FOS_E_SUCCESS, Some (last xs), l') \<and> inv l' (butlast xs)"
proof -
  have "(length xs + (2 ^ 32 - 1)) mod 2 ^ 32 = length xs - 1"
  proof -
    obtain m where m: "length xs = Suc m"
      using assms(2) by (cases xs) auto
    then have "(length xs + (2 ^ 32 - 1)) mod 2 ^ 32 = (m + 2 ^ 32) mod 2 ^ 32" by simp
    also have "\<dots> = m" using m assms(3) by simp
    finally show ?thesis using m by simp
  qed
  then show ?thesis
    using pop [OF assms(1), of "length xs - 1"] assms
    by (auto simp: l_pop_back_def len last_conv_nth remove_at_def butlast_conv_take)
qed

lemma push_back_all_loop:
  assumes "inv_it s ys k" and "inv l xs" and "alloc_ok al"
  shows "\<exists>n l' s' e. l_push_back_all_loop I al l s (elem_at ys k) = Some (e, l', s')
    \<and> n \<le> length ys - k \<and> inv l' (xs @ take n (drop k ys))
    \<and> (e = FOS_E_SUCCESS \<and> n = length ys - k \<and> inv s' []
       \<or> e = FOS_E_NO_MEM \<and> oom al \<and> n < length ys - k \<and> inv s' ys)"
  using assms
proof (induction "length ys - k" arbitrary: s k l xs)
  case 0
  then have k: "k = length ys" using it_inv by fastforce
  obtain s' where "li_clear I s = Some s'" "inv s' []"
    using clear it_inv 0 by meson
  then show ?case using k 0
    by (subst l_push_back_all_loop.simps) auto
next
  case (Suc m)
  then have k: "k < length ys" by linarith
  from push_back [OF Suc.prems(2,3), of "ys ! k"] show ?case
  proof
    assume "oom al \<and> l_push_back I al l (Some (ys ! k)) = Some (FOS_E_NO_MEM, l)"
    then show ?thesis
      using k Suc.prems it_inv [OF Suc.prems(1)]
      by (subst l_push_back_all_loop.simps) (auto intro!: exI [of _ "0::nat"])
  next
    assume "\<exists>l'. l_push_back I al l (Some (ys ! k)) = Some (FOS_E_SUCCESS, l') \<and> inv l' (xs @ [ys ! k])"
    then obtain l1 where l1: "l_push_back I al l (Some (ys ! k)) = Some (FOS_E_SUCCESS, l1)"
      "inv l1 (xs @ [ys ! k])" by blast
    obtain s1 where s1: "li_next_iter I s = Some (elem_at ys (Suc k), s1)" "inv_it s1 ys (Suc k)"
      using next_iter [OF Suc.prems(1)] k by (auto simp: min_def Suc_le_eq)
    have "m = length ys - Suc k" using Suc.hyps(2) by simp
    from Suc.hyps(1) [OF this s1(2) l1(2) Suc.prems(3)] obtain n l' s' e where
      ih: "l_push_back_all_loop I al l1 s1 (elem_at ys (Suc k)) = Some (e, l', s')"
      "n \<le> length ys - Suc k" "inv l' ((xs @ [ys ! k]) @ take n (drop (Suc k) ys))"
      "e = FOS_E_SUCCESS \<and> n = length ys - Suc k \<and> inv s' []
       \<or> e = FOS_E_NO_MEM \<and> oom al \<and> n < length ys - Suc k \<and> inv s' ys" by blast
    have "take (Suc n) (drop k ys) = ys ! k # take n (drop (Suc k) ys)"
      using k by (simp add: Cons_nth_drop_Suc [symmetric])
    then show ?thesis
      using k ih l1 s1 by (subst l_push_back_all_loop.simps) (auto intro!: exI [of _ "Suc n"])
  qed
qed

lemma push_back_all:
  assumes "inv l xs" and "inv s ys" and "alloc_ok al"
  shows "\<exists>n l' s' e. l_push_back_all I al l (Some s) = Some (e, l', Some s')
    \<and> inv l' (xs @ take n ys)
    \<and> (e = FOS_E_SUCCESS \<and> n = length ys \<and> inv s' []
       \<or> e = FOS_E_NO_MEM \<and> oom al \<and> n < length ys \<and> inv s' ys)"
  using push_back_all_loop [OF reset [OF assms(2)] assms(1,3)]
  by (fastforce simp: l_push_back_all_def get_iter [OF reset [OF assms(2)]])

lemma pop_ele_loop_all:
  assumes "inv_it l xs k"
  shows "\<exists>l'. l_pop_ele_loop I hit True l (elem_at xs k) r
      = Some (r \<or> (\<exists>x\<in>set (drop k xs). hit x), l')
    \<and> inv l' (take k xs @ filter (\<lambda>x. \<not> hit x) (drop k xs))"
  using assms
proof (induction "length xs - k" arbitrary: l xs k r)
  case 0
  then have "k = length xs" using it_inv by fastforce
  then show ?case using it_inv 0 by (subst l_pop_ele_loop.simps) auto
next
  case (Suc m)
  then have k: "k < length xs" by linarith
  then have d: "drop k xs = xs ! k # drop (Suc k) xs" by (simp add: Cons_nth_drop_Suc)
  show ?case
  proof (cases "hit (xs ! k)")
    case True
    obtain l1 where l1: "li_pop_iter I l = Some (FOS_E_SUCCESS, Some (xs ! k), l1)"
      "inv_it l1 (remove_at k xs) k" using pop_iter [OF Suc.prems k] by blast
    have dr: "drop k (remove_at k xs) = drop (Suc k) xs" "take k (remove_at k xs) = take k xs"
      using k by (simp_all add: remove_at_def)
    have "m = length (remove_at k xs) - k" using k Suc.hyps(2) by simp
    from Suc.hyps(1) [OF this l1(2), of True] obtain l' where
      "l_pop_ele_loop I hit True l1 (elem_at (remove_at k xs) k) True = Some (True, l')"
      "inv l' (take k xs @ filter (\<lambda>x. \<not> hit x) (drop (Suc k) xs))"
      by (auto simp: dr)
    then show ?thesis
      using k True l1 d by (subst l_pop_ele_loop.simps) (simp add: get_iter [OF l1(2)])
  next
    case False
    obtain l1 where l1: "li_next_iter I l = Some (elem_at xs (Suc k), l1)" "inv_it l1 xs (Suc k)"
      using next_iter [OF Suc.prems] k by (auto simp: min_def Suc_le_eq)
    have "m = length xs - Suc k" using Suc.hyps(2) by simp
    from Suc.hyps(1) [OF this l1(2), of r] show ?thesis
      using k False l1 d by (subst l_pop_ele_loop.simps) (auto simp: take_Suc_conv_app_nth)
  qed
qed

lemma pop_ele_loop_first:
  assumes "inv_it l xs k"
  shows "\<exists>l'. l_pop_ele_loop I hit False l (elem_at xs k) r
      = Some (r \<or> (\<exists>x\<in>set (drop k xs). hit x), l')
    \<and> inv l' (take k xs @ takeWhile (\<lambda>x. \<not> hit x) (drop k xs)
        @ tl (dropWhile (\<lambda>x. \<not> hit x) (drop k xs)))"
  using assms
proof (induction "length xs - k" arbitrary: l xs k r)
  case 0
  then have "k = length xs" using it_inv by fastforce
  then show ?case using it_inv 0 by (subst l_pop_ele_loop.simps) auto
next
  case (Suc m)
  then have k: "k < length xs" by linarith
  then have d: "drop k xs = xs ! k # drop (Suc k) xs" by (simp add: Cons_nth_drop_Suc)
  show ?case
  proof (cases "hit (xs ! k)")
    case True
    obtain l1 where l1: "li_pop_iter I l = Some (FOS_E_SUCCESS, Some (xs ! k), l1)"
      "inv_it l1 (remove_at k xs) k" using pop_iter [OF Suc.prems k] by blast
    then show ?thesis
      using k True d it_inv [OF l1(2)]
      by (subst l_pop_ele_loop.simps) (simp add: remove_at_def)
  next
    case False
    obtain l1 where l1: "li_next_iter I l = Some (elem_at xs (Suc k), l1)" "inv_it l1 xs (Suc k)"
      using next_iter [OF Suc.prems] k by (auto simp: min_def Suc_le_eq)
    have "m = length xs - Suc k" using Suc.hyps(2) by simp
    from Suc.hyps(1) [OF this l1(2), of r] show ?thesis
      using k False l1 d by (subst l_pop_ele_loop.simps) (auto simp: take_Suc_conv_app_nth)
  qed
qed

text \<open>\<^verbatim>\<open>l_pop_ele\<close> removes every match, or just the first one, and reports whether it did.\<close>

lemma pop_ele_all:
  assumes "inv l xs"
  shows "\<exists>l'. l_pop_ele I l (Some e) (Some c) True = Some (\<exists>x\<in>set xs. c e x, l')
    \<and> inv l' (filter (\<lambda>x. \<not> c e x) xs)"
  using pop_ele_loop_all [OF reset [OF assms], of "c e" False]
  by (simp add: l_pop_ele_def get_iter [OF reset [OF assms]])

lemma pop_ele_first:
  assumes "inv l xs"
  shows "\<exists>l'. l_pop_ele I l (Some e) (Some c) False = Some (\<exists>x\<in>set xs. c e x, l')
    \<and> inv l' (takeWhile (\<lambda>x. \<not> c e x) xs @ tl (dropWhile (\<lambda>x. \<not> c e x) xs))"
  using pop_ele_loop_first [OF reset [OF assms], of "c e" False]
  by (simp add: l_pop_ele_def get_iter [OF reset [OF assms]])

end

end
