(* ===== verification/Linked_List.thy ===== *)
theory Linked_List imports List_Interface begin

text \<open>
  The doubly linked list of \<^verbatim>\<open>src/src/s_data/src/list.c\<close>, modelled at the level of its
  nodes: the record holds the header fields and the store of its nodes, every operation
  follows the pointers of the code, and a dereference of NULL or of a freed node is
  \<open>None\<close>.  The representation predicate \<open>ll_rep\<close> relates the pointer structure to the
  sequence of elements; the interpretation \<open>ll\<close> at the end shows that the operation
  table \<open>LL_IMPL\<close> of the code satisfies the list contract.
\<close>

section \<open>State\<close>

record 'v ll_node =
  n_next :: "addr option"
  n_prev :: "addr option"
  n_val :: 'v

record 'v linked_list =
  ll_nodes :: "addr \<Rightarrow> 'v ll_node option"
  ll_len :: nat
  ll_cs :: nat
  ll_first :: "addr option"
  ll_last :: "addr option"
  ll_iter :: "addr option"

type_synonym 'v ll_store = "addr \<Rightarrow> 'v ll_node option"

definition set_next :: "'v ll_store \<Rightarrow> addr \<Rightarrow> addr option \<Rightarrow> 'v ll_store option" where
  "set_next h a x = do { nd \<leftarrow> h a; Some (h(a \<mapsto> nd\<lparr>n_next := x\<rparr>)) }"

definition set_prev :: "'v ll_store \<Rightarrow> addr \<Rightarrow> addr option \<Rightarrow> 'v ll_store option" where
  "set_prev h a x = do { nd \<leftarrow> h a; Some (h(a \<mapsto> nd\<lparr>n_prev := x\<rparr>)) }"

section \<open>Operations\<close>

text \<open>
  \<open>al\<close> is \<open>None\<close> when the caller passes a NULL allocator; the request for the header
  itself is made with no live node.
\<close>

definition new_linked_list :: "allocator option \<Rightarrow> nat \<Rightarrow> 'v linked_list option" where
  "new_linked_list al cs =
     (case al of
        None \<Rightarrow> None
      | Some m \<Rightarrow>
          (if cs = 0 then None
           else case m {} of
             None \<Rightarrow> None
           | Some _ \<Rightarrow> Some \<lparr>ll_nodes = Map.empty, ll_len = 0, ll_cs = cs,
                            ll_first = None, ll_last = None, ll_iter = None\<rparr>))"

partial_function (option) ll_clear_loop :: "'v ll_store \<Rightarrow> addr option \<Rightarrow> 'v ll_store option" where
  "ll_clear_loop h node =
     (case node of
        None \<Rightarrow> Some h
      | Some a \<Rightarrow> do { nd \<leftarrow> h a; ll_clear_loop (h(a := None)) (n_next nd) })"

definition ll_clear :: "'v linked_list \<Rightarrow> 'v linked_list option" where
  "ll_clear l = do {
     h \<leftarrow> ll_clear_loop (ll_nodes l) (ll_first l);
     Some (l\<lparr>ll_nodes := h, ll_len := 0, ll_first := None, ll_last := None, ll_iter := None\<rparr>) }"

text \<open>Deleting a list frees its nodes and then its header: what is left is the node store.\<close>

definition delete_linked_list :: "'v linked_list \<Rightarrow> 'v ll_store option" where
  "delete_linked_list l = do { l' \<leftarrow> ll_clear l; Some (ll_nodes l') }"

definition ll_get_cell_size :: "'v linked_list \<Rightarrow> nat" where
  "ll_get_cell_size l = ll_cs l"

definition ll_get_len :: "'v linked_list \<Rightarrow> nat" where
  "ll_get_len l = ll_len l"

text \<open>The two loops of \<^verbatim>\<open>ll_get_node\<close>, counted by the distance from \<^verbatim>\<open>ind\<close> to \<^verbatim>\<open>i\<close>.\<close>

fun ll_forward :: "'v ll_store \<Rightarrow> addr option \<Rightarrow> nat \<Rightarrow> addr option option" where
  "ll_forward h node 0 = Some node"
| "ll_forward h node (Suc d) =
     do { a \<leftarrow> node; nd \<leftarrow> h a; ll_forward h (n_next nd) d }"

fun ll_backward :: "'v ll_store \<Rightarrow> addr option \<Rightarrow> nat \<Rightarrow> addr option option" where
  "ll_backward h node 0 = Some node"
| "ll_backward h node (Suc d) =
     do { a \<leftarrow> node; nd \<leftarrow> h a; ll_backward h (n_prev nd) d }"

definition ll_get_node :: "'v linked_list \<Rightarrow> nat \<Rightarrow> addr option option" where
  "ll_get_node l i =
     (if i \<le> ll_len l div 2 then ll_forward (ll_nodes l) (ll_first l) (i - 0)
      else ll_backward (ll_nodes l) (ll_last l) ((ll_len l - 1) - i))"

definition ll_push_node_at ::
  "allocator \<Rightarrow> 'v linked_list \<Rightarrow> addr option \<Rightarrow> 'v \<Rightarrow> (fernos_error \<times> 'v linked_list) option" where
  "ll_push_node_at al l pos src =
     (case al (dom (ll_nodes l)) of
        None \<Rightarrow> Some (FOS_E_NO_MEM, l)
      | Some new_node \<Rightarrow> do {
          (prv, nxt) \<leftarrow> (case pos of
              None \<Rightarrow> Some (ll_last l, None)
            | Some q \<Rightarrow> do { nd \<leftarrow> ll_nodes l q; Some (n_prev nd, Some q) });
          let h = (ll_nodes l)(new_node \<mapsto> \<lparr>n_next = nxt, n_prev = prv, n_val = src\<rparr>);
          (h, lst) \<leftarrow> (case nxt of
              Some q \<Rightarrow> do { h \<leftarrow> set_prev h q (Some new_node); Some (h, ll_last l) }
            | None \<Rightarrow> Some (h, Some new_node));
          (h, fst) \<leftarrow> (case prv of
              Some q \<Rightarrow> do { h \<leftarrow> set_next h q (Some new_node); Some (h, ll_first l) }
            | None \<Rightarrow> Some (h, Some new_node));
          Some (FOS_E_SUCCESS,
            l\<lparr>ll_nodes := h, ll_first := fst, ll_last := lst, ll_len := ll_len l + 1\<rparr>) })"

text \<open>The element copied to \<^verbatim>\<open>dest\<close> is returned beside the list.\<close>

definition ll_pop_node :: "'v linked_list \<Rightarrow> addr \<Rightarrow> ('v \<times> 'v linked_list) option" where
  "ll_pop_node l node = do {
     nd \<leftarrow> ll_nodes l node;
     (h, lst) \<leftarrow> (case n_next nd of
         Some q \<Rightarrow> do { h \<leftarrow> set_prev (ll_nodes l) q (n_prev nd); Some (h, ll_last l) }
       | None \<Rightarrow> Some (ll_nodes l, n_prev nd));
     (h, fst) \<leftarrow> (case n_prev nd of
         Some q \<Rightarrow> do { h \<leftarrow> set_next h q (n_next nd); Some (h, ll_first l) }
       | None \<Rightarrow> Some (h, n_next nd));
     nd' \<leftarrow> h node;
     Some (n_val nd',
       l\<lparr>ll_nodes := h(node := None), ll_first := fst, ll_last := lst, ll_len := ll_len l - 1\<rparr>) }"

definition ll_get_ptr :: "'v linked_list \<Rightarrow> nat \<Rightarrow> 'v option option" where
  "ll_get_ptr l i =
     (if ll_len l \<le> i then Some None
      else do { node \<leftarrow> ll_get_node l i; a \<leftarrow> node; nd \<leftarrow> ll_nodes l a; Some (Some (n_val nd)) })"

definition ll_push ::
  "allocator \<Rightarrow> 'v linked_list \<Rightarrow> nat \<Rightarrow> 'v option \<Rightarrow> (fernos_error \<times> 'v linked_list) option" where
  "ll_push al l i src =
     (if ll_len l < i then Some (FOS_E_INVALID_INDEX, l)
      else case src of
        None \<Rightarrow> Some (FOS_E_BAD_ARGS, l)
      | Some v \<Rightarrow> do {
          pos \<leftarrow> (if i < ll_len l then ll_get_node l i else Some None);
          ll_push_node_at al l pos v })"

definition ll_pop ::
  "'v linked_list \<Rightarrow> nat \<Rightarrow> (fernos_error \<times> 'v option \<times> 'v linked_list) option" where
  "ll_pop l i =
     (if ll_len l \<le> i then Some (FOS_E_INVALID_INDEX, None, l)
      else do {
        node \<leftarrow> ll_get_node l i;
        a \<leftarrow> node;
        (v, l') \<leftarrow> ll_pop_node l a;
        Some (FOS_E_SUCCESS, Some v, l') })"

definition ll_reset_iter :: "'v linked_list \<Rightarrow> 'v linked_list" where
  "ll_reset_iter l = l\<lparr>ll_iter := ll_first l\<rparr>"

definition ll_get_iter :: "'v linked_list \<Rightarrow> 'v option option" where
  "ll_get_iter l =
     (case ll_iter l of
        None \<Rightarrow> Some None
      | Some a \<Rightarrow> do { nd \<leftarrow> ll_nodes l a; Some (Some (n_val nd)) })"

definition ll_next_iter :: "'v linked_list \<Rightarrow> ('v option \<times> 'v linked_list) option" where
  "ll_next_iter l = do {
     l' \<leftarrow> (case ll_iter l of
         None \<Rightarrow> Some l
       | Some a \<Rightarrow> do { nd \<leftarrow> ll_nodes l a; Some (l\<lparr>ll_iter := n_next nd\<rparr>) });
     v \<leftarrow> ll_get_iter l';
     Some (v, l') }"

definition ll_push_before_iter ::
  "allocator \<Rightarrow> 'v linked_list \<Rightarrow> 'v option \<Rightarrow> (fernos_error \<times> 'v linked_list) option" where
  "ll_push_before_iter al l src =
     (case src of
        None \<Rightarrow> Some (FOS_E_BAD_ARGS, l)
      | Some v \<Rightarrow>
          (case ll_iter l of
             None \<Rightarrow> Some (FOS_E_INVALID_INDEX, l)
           | Some a \<Rightarrow> ll_push_node_at al l (Some a) v))"

definition ll_push_after_iter ::
  "allocator \<Rightarrow> 'v linked_list \<Rightarrow> 'v option \<Rightarrow> (fernos_error \<times> 'v linked_list) option" where
  "ll_push_after_iter al l src =
     (case src of
        None \<Rightarrow> Some (FOS_E_BAD_ARGS, l)
      | Some v \<Rightarrow>
          (case ll_iter l of
             None \<Rightarrow> Some (FOS_E_INVALID_INDEX, l)
           | Some a \<Rightarrow> do { nd \<leftarrow> ll_nodes l a; ll_push_node_at al l (n_next nd) v }))"

definition ll_pop_iter ::
  "'v linked_list \<Rightarrow> (fernos_error \<times> 'v option \<times> 'v linked_list) option" where
  "ll_pop_iter l =
     (case ll_iter l of
        None \<Rightarrow> Some (FOS_E_INVALID_INDEX, None, l)
      | Some a \<Rightarrow> do {
          nd \<leftarrow> ll_nodes l a;
          (v, l') \<leftarrow> ll_pop_node (l\<lparr>ll_iter := n_next nd\<rparr>) a;
          Some (FOS_E_SUCCESS, Some v, l') })"

definition LL_IMPL :: "('v linked_list, 'v) list_impl" where
  "LL_IMPL = \<lparr>li_clear = ll_clear, li_get_cell_size = ll_get_cell_size,
     li_get_len = ll_get_len, li_get_ptr = ll_get_ptr,
     li_push = ll_push, li_pop = ll_pop, li_reset_iter = ll_reset_iter,
     li_get_iter = ll_get_iter, li_next_iter = ll_next_iter,
     li_push_before_iter = ll_push_before_iter, li_push_after_iter = ll_push_after_iter,
     li_pop_iter = ll_pop_iter\<rparr>"

section \<open>Representation\<close>

definition ll_links :: "'v ll_store \<Rightarrow> addr links" where
  "ll_links h a = map_option (\<lambda>nd. (n_prev nd, n_next nd)) (h a)"

definition ll_vals :: "'v ll_store \<Rightarrow> addr list \<Rightarrow> 'v list \<Rightarrow> bool" where
  "ll_vals h as xs \<longleftrightarrow> map (\<lambda>a. map_option n_val (h a)) as = map Some xs"

definition ll_rep :: "'v linked_list \<Rightarrow> addr list \<Rightarrow> 'v list \<Rightarrow> bool" where
  "ll_rep l as xs \<longleftrightarrow>
     dseg (ll_links (ll_nodes l)) None as None \<and> distinct as \<and> dom (ll_nodes l) = set as
     \<and> ll_vals (ll_nodes l) as xs \<and> ll_first l = fst_or None as \<and> ll_last l = lst_or None as
     \<and> ll_len l = length as"

definition ll_inv :: "'v linked_list \<Rightarrow> 'v list \<Rightarrow> bool" where
  "ll_inv l xs \<longleftrightarrow> (\<exists>as. ll_rep l as xs)"

definition ll_inv_it :: "'v linked_list \<Rightarrow> 'v list \<Rightarrow> nat \<Rightarrow> bool" where
  "ll_inv_it l xs k \<longleftrightarrow>
     (\<exists>as. ll_rep l as xs \<and> k \<le> length as \<and> ll_iter l = fst_or None (drop k as))"

lemma ll_vals_length: "ll_vals h as xs \<Longrightarrow> length as = length xs"
  unfolding ll_vals_def by (metis length_map)

lemma ll_rep_length: "ll_rep l as xs \<Longrightarrow> length as = length xs \<and> ll_len l = length xs"
  by (auto simp: ll_rep_def dest: ll_vals_length)

lemma ll_vals_nth: "ll_vals h as xs \<Longrightarrow> i < length as \<Longrightarrow> map_option n_val (h (as ! i)) = Some (xs ! i)"
  unfolding ll_vals_def by (metis length_map nth_map)

lemma ll_vals_append:
  "ll_vals h (as @ bs) xs \<longleftrightarrow>
   (\<exists>us vs. xs = us @ vs \<and> ll_vals h as us \<and> ll_vals h bs vs)"
  by (fastforce simp: ll_vals_def append_eq_map_conv)

lemma ll_vals_append_len:
  "length us = length as \<Longrightarrow>
   ll_vals h (as @ bs) (us @ vs) \<longleftrightarrow> ll_vals h as us \<and> ll_vals h bs vs"
  by (simp add: ll_vals_def append_eq_append_conv)

lemma ll_vals_Cons:
  "ll_vals h (a # as) xs \<longleftrightarrow>
   (\<exists>nd us. h a = Some nd \<and> xs = n_val nd # us \<and> ll_vals h as us)"
  by (cases xs) (auto simp: ll_vals_def)

lemma ll_vals_Nil [simp]: "ll_vals h [] xs \<longleftrightarrow> xs = []"
  by (auto simp: ll_vals_def)

lemma ll_vals_mono:
  assumes "ll_vals h as xs"
    and "\<And>a. a \<in> set as \<Longrightarrow> map_option n_val (h' a) = map_option n_val (h a)"
  shows "ll_vals h' as xs"
proof -
  have "map (\<lambda>a. map_option n_val (h' a)) as = map (\<lambda>a. map_option n_val (h a)) as"
    using assms(2) by (rule map_cong [OF refl])
  then show ?thesis using assms(1) by (simp only: ll_vals_def)
qed

text \<open>The node at position \<open>i\<close>.\<close>

lemma ll_rep_node:
  assumes "ll_rep l as xs" and "i < length as"
  shows "ll_nodes l (as ! i) = Some \<lparr>n_next = fst_or None (drop (Suc i) as),
      n_prev = lst_or None (take i as), n_val = xs ! i\<rparr>"
proof -
  have "ll_links (ll_nodes l) (as ! i) = Some (lst_or None (take i as), fst_or None (drop (Suc i) as))"
    using assms by (intro dseg_nth) (simp_all add: ll_rep_def)
  moreover have "map_option n_val (ll_nodes l (as ! i)) = Some (xs ! i)"
    using assms by (intro ll_vals_nth) (simp_all add: ll_rep_def)
  ultimately show ?thesis
    by (cases "ll_nodes l (as ! i)") (auto simp: ll_links_def)
qed

lemma fst_or_drop: "i < length as \<Longrightarrow> fst_or n (drop i as) = Some (as ! i)"
  by (simp add: Cons_nth_drop_Suc [symmetric])

lemma lst_or_take: "0 < i \<Longrightarrow> i \<le> length as \<Longrightarrow> lst_or p (take i as) = Some (as ! (i - 1))"
  by (cases i) (auto simp: take_Suc_conv_app_nth)

section \<open>Walking to an index\<close>

lemma ll_forward_rep:
  assumes "ll_rep l as xs" and "k + d < length as"
  shows "ll_forward (ll_nodes l) (Some (as ! k)) d = Some (Some (as ! (k + d)))"
  using assms(2)
proof (induction d arbitrary: k)
  case 0
  then show ?case by simp
next
  case (Suc d)
  then have "k < length as" "Suc k < length as" by simp_all
  then show ?case
    using Suc.IH [of "Suc k"] Suc.prems ll_rep_node [OF assms(1), of k] by (simp add: fst_or_drop)
qed

lemma ll_backward_rep:
  assumes "ll_rep l as xs" and "k < length as" and "d \<le> k"
  shows "ll_backward (ll_nodes l) (Some (as ! k)) d = Some (Some (as ! (k - d)))"
  using assms(2,3)
proof (induction d arbitrary: k)
  case 0
  then show ?case by simp
next
  case (Suc d)
  then obtain j where j: "k = Suc j" by (cases k) auto
  then show ?case
    using Suc.IH [of j] Suc.prems ll_rep_node [OF assms(1), of k] by (simp add: lst_or_take)
qed

text \<open>Searching from the nearer end finds the node of that index.\<close>

lemma ll_get_node_rep:
  assumes "ll_rep l as xs" and "i < length as"
  shows "ll_get_node l i = Some (Some (as ! i))"
proof -
  have "as \<noteq> []" using assms(2) by auto
  then have "ll_first l = Some (as ! 0)" "ll_last l = Some (as ! (length as - 1))"
    "ll_len l = length as"
    using assms(1) by (simp_all add: ll_rep_def lst_or_def last_conv_nth fst_or_def split: list.split)
  then show ?thesis
    using ll_forward_rep [OF assms(1), of 0 i] ll_backward_rep [OF assms(1), of "length as - 1" "length as - 1 - i"]
      assms(2) by (simp add: ll_get_node_def)
qed

section \<open>Inserting and removing nodes\<close>

lemma ll_links_simps [simp]:
  "ll_links (h(a \<mapsto> nd)) = (ll_links h)(a := Some (n_prev nd, n_next nd))"
  "ll_links (h(a := None)) = (ll_links h)(a := None)"
  by (auto simp: ll_links_def fun_eq_iff)

lemma ll_links_Some: "h a = Some nd \<Longrightarrow> ll_links h a = Some (n_prev nd, n_next nd)"
  by (simp add: ll_links_def)

lemma ll_rep_last:
  "ll_rep l (as @ bs) xs \<Longrightarrow> as \<noteq> [] \<Longrightarrow>
   \<exists>nd. ll_nodes l (last as) = Some nd \<and> n_next nd = fst_or None bs \<and> last as \<notin> set bs"
  using ll_rep_node [of l "as @ bs" xs "length as - 1"]
  by (cases as rule: rev_cases) (auto simp: nth_append ll_rep_def)

lemma ll_rep_hd:
  "ll_rep l (as @ bs) xs \<Longrightarrow> bs \<noteq> [] \<Longrightarrow>
   \<exists>nd. ll_nodes l (hd bs) = Some nd \<and> n_prev nd = lst_or None as \<and> hd bs \<notin> set as"
  using ll_rep_node [of l "as @ bs" xs "length as"]
  by (cases bs) (auto simp: nth_append ll_rep_def)

text \<open>The two writes that make the neighbours of a gap point to a new cell \<open>x\<close>.\<close>

definition relink_next :: "'v ll_store \<Rightarrow> addr option \<Rightarrow> addr option \<Rightarrow> 'v ll_store" where
  "relink_next h a x = (case a of None \<Rightarrow> h | Some a \<Rightarrow> h(a := map_option (\<lambda>nd. nd\<lparr>n_next := x\<rparr>) (h a)))"

definition relink_prev :: "'v ll_store \<Rightarrow> addr option \<Rightarrow> addr option \<Rightarrow> 'v ll_store" where
  "relink_prev h a x = (case a of None \<Rightarrow> h | Some a \<Rightarrow> h(a := map_option (\<lambda>nd. nd\<lparr>n_prev := x\<rparr>) (h a)))"

lemma relink_vals [simp]:
  "map_option n_val (relink_next h a x b) = map_option n_val (h b)"
  "map_option n_val (relink_prev h a x b) = map_option n_val (h b)"
  by (auto simp: relink_next_def relink_prev_def option.map_comp o_def split: option.splits)

lemma relink_dom [simp]:
  "dom (relink_next h a x) = dom h" "dom (relink_prev h a x) = dom h"
  by (auto simp: relink_next_def relink_prev_def dom_def split: option.splits if_splits)

lemma links_relink:
  "ll_links (relink_next h a x) b =
     (if a = Some b then map_option (\<lambda>(u, v). (u, x)) (ll_links h b) else ll_links h b)"
  "ll_links (relink_prev h a x) b =
     (if a = Some b then map_option (\<lambda>(u, v). (x, v)) (ll_links h b) else ll_links h b)"
  by (auto simp: relink_next_def relink_prev_def ll_links_def option.map_comp o_def split: option.splits)

lemma ll_push_node_at_compute:
  assumes rep: "ll_rep l (as @ bs) xs" and x: "al (dom (ll_nodes l)) = Some x"
    and fresh: "x \<notin> dom (ll_nodes l)"
  shows "ll_push_node_at al l (fst_or None bs) v = Some (FOS_E_SUCCESS,
    l\<lparr>ll_nodes := relink_next (relink_prev ((ll_nodes l)(x \<mapsto>
          \<lparr>n_next = fst_or None bs, n_prev = lst_or None as, n_val = v\<rparr>))
          (fst_or None bs) (Some x)) (lst_or None as) (Some x),
      ll_first := fst_or (Some x) as, ll_last := lst_or (Some x) bs,
      ll_len := ll_len l + 1\<rparr>)"
proof -
  have "ll_first l = fst_or None (as @ bs)" "ll_last l = lst_or None (as @ bs)"
    using rep by (simp_all add: ll_rep_def)
  moreover have "x \<notin> set as" "x \<notin> set bs"
    using rep fresh by (auto simp: ll_rep_def)
  ultimately show ?thesis
    using ll_rep_last [OF rep] ll_rep_hd [OF rep] x
    by (cases as rule: rev_cases; cases bs)
      (auto simp: ll_push_node_at_def set_next_def set_prev_def relink_next_def relink_prev_def
        fst_or_append lst_or_append lst_or_Cons)
qed

lemma ll_push_node_at_rep:
  assumes rep: "ll_rep l (as @ bs) (us @ vs)" and len: "length us = length as"
    and x: "al (dom (ll_nodes l)) = Some x" and ok: "alloc_ok al"
  shows "\<exists>l'. ll_push_node_at al l (fst_or None bs) v = Some (FOS_E_SUCCESS, l')
    \<and> ll_rep l' (as @ x # bs) (us @ v # vs) \<and> ll_iter l' = ll_iter l"
proof -
  have fresh: "x \<notin> dom (ll_nodes l)" using ok x by (rule alloc_okD)
  have notin: "x \<notin> set as" "x \<notin> set bs" and dist: "distinct (as @ bs)"
    using rep fresh by (auto simp: ll_rep_def)
  let ?n = "\<lparr>n_next = fst_or None bs, n_prev = lst_or None as, n_val = v\<rparr>"
  let ?h = "relink_next (relink_prev ((ll_nodes l)(x \<mapsto> ?n)) (fst_or None bs) (Some x)) (lst_or None as) (Some x)"
  have seg: "dseg (ll_links (ll_nodes l)) None (as @ bs) None"
    using rep by (simp add: ll_rep_def)
  have ends: "as \<noteq> [] \<Longrightarrow> last as \<noteq> x" "bs \<noteq> [] \<Longrightarrow> hd bs \<noteq> x"
    "as \<noteq> [] \<Longrightarrow> bs \<noteq> [] \<Longrightarrow> last as \<noteq> hd bs"
    using notin hd_not_left [OF dist, of "last as"] by auto
  have "dseg (ll_links ?h) None (as @ x # bs) None"
    by (rule dseg_insert [OF seg dist])
      (use notin ends in \<open>auto simp: links_relink fst_or_eq_Some lst_or_eq_Some\<close>)
  moreover have "ll_vals ?h (as @ x # bs) (us @ v # vs)"
  proof -
    have "ll_vals (ll_nodes l) as us" "ll_vals (ll_nodes l) bs vs"
      using rep len by (simp_all add: ll_rep_def ll_vals_append_len)
    then have 1: "ll_vals ?h as us" and 2: "ll_vals ?h bs vs"
      using notin by (auto elim!: ll_vals_mono)
    have "map_option n_val (?h x) = Some v"
      by simp
    then obtain nd where "?h x = Some nd" "n_val nd = v"
      by (auto simp del: relink_vals)
    then have "ll_vals ?h (x # bs) (v # vs)"
      using 2 by (auto simp: ll_vals_Cons)
    with 1 show ?thesis by (auto simp: ll_vals_append)
  qed
  moreover have "dom ?h = insert x (set (as @ bs))"
    using rep by (auto simp: ll_rep_def)
  moreover have "length (as @ bs) = ll_len l"
    using rep by (simp add: ll_rep_def)
  ultimately show ?thesis
    using ll_push_node_at_compute [OF rep, of al x v, OF x fresh] notin dist
    by (auto simp: ll_rep_def fst_or_append lst_or_append lst_or_Cons)
qed

lemma ll_push_node_at_fail:
  "al (dom (ll_nodes l)) = None \<Longrightarrow> ll_push_node_at al l pos v = Some (FOS_E_NO_MEM, l)"
  by (simp add: ll_push_node_at_def)

lemma ll_pop_node_compute:
  assumes rep: "ll_rep l (as @ x # bs) (us @ v # vs)" and len: "length us = length as"
  shows "ll_pop_node l x = Some (v,
    l\<lparr>ll_nodes := (relink_next (relink_prev (ll_nodes l) (fst_or None bs) (lst_or None as))
          (lst_or None as) (fst_or None bs))(x := None),
      ll_first := fst_or (fst_or None bs) as, ll_last := lst_or (lst_or None as) bs,
      ll_len := ll_len l - 1\<rparr>)"
proof -
  have nd: "ll_nodes l x = Some \<lparr>n_next = fst_or None bs, n_prev = lst_or None as, n_val = v\<rparr>"
    using ll_rep_node [OF rep, of "length as"] len by (simp add: nth_append)
  have "ll_first l = fst_or None (as @ x # bs)" "ll_last l = lst_or None (as @ x # bs)"
    "distinct (as @ x # bs)"
    using rep by (simp_all add: ll_rep_def)
  then show ?thesis
    using ll_rep_last [OF rep] ll_rep_hd [of l "as @ [x]" bs "us @ v # vs"] rep nd
    by (cases as rule: rev_cases; cases bs)
      (auto simp: ll_pop_node_def set_next_def set_prev_def relink_next_def relink_prev_def
        fst_or_append lst_or_append lst_or_Cons)
qed

lemma ll_pop_node_rep:
  assumes rep: "ll_rep l (as @ x # bs) (us @ v # vs)" and len: "length us = length as"
  shows "\<exists>l'. ll_pop_node l x = Some (v, l') \<and> ll_rep l' (as @ bs) (us @ vs)
    \<and> ll_iter l' = ll_iter l"
proof -
  have dist: "distinct (as @ x # bs)" and notin: "x \<notin> set as" "x \<notin> set bs"
    using rep by (auto simp: ll_rep_def)
  let ?h = "(relink_next (relink_prev (ll_nodes l) (fst_or None bs) (lst_or None as))
          (lst_or None as) (fst_or None bs))(x := None)"
  have seg: "dseg (ll_links (ll_nodes l)) None (as @ x # bs) None"
    using rep by (simp add: ll_rep_def)
  have ends: "as \<noteq> [] \<Longrightarrow> last as \<noteq> x" "bs \<noteq> [] \<Longrightarrow> hd bs \<noteq> x"
    "as \<noteq> [] \<Longrightarrow> bs \<noteq> [] \<Longrightarrow> last as \<noteq> hd bs"
    using notin dist hd_not_left [of as bs "last as"] by auto
  have "dseg (ll_links ?h) None (as @ bs) None"
    by (rule dseg_remove [OF seg dist])
      (use notin ends in \<open>auto simp: links_relink fst_or_eq_Some lst_or_eq_Some\<close>)
  moreover have "ll_vals ?h (as @ bs) (us @ vs)"
  proof -
    have "ll_vals (ll_nodes l) as us" "ll_vals (ll_nodes l) bs vs"
      using rep len by (auto simp: ll_rep_def ll_vals_append_len ll_vals_Cons)
    then have "ll_vals ?h as us" "ll_vals ?h bs vs"
      using notin by (auto elim!: ll_vals_mono)
    then show ?thesis by (auto simp: ll_vals_append)
  qed
  moreover have "dom ?h = set (as @ bs)"
    using rep notin by (auto simp: ll_rep_def)
  moreover have "length (as @ x # bs) = ll_len l"
    using rep by (simp add: ll_rep_def)
  ultimately show ?thesis
    using ll_pop_node_compute [OF rep len] dist
    by (auto simp: ll_rep_def fst_or_append lst_or_append lst_or_Cons)
qed

text \<open>Clearing frees every node, and only those, and always returns.\<close>

lemma ll_clear_loop_rep:
  assumes "dseg (ll_links h) p as None" and "distinct as" and "dom h = set as"
  shows "ll_clear_loop h (fst_or None as) = Some Map.empty"
  using assms
proof (induction as arbitrary: h p)
  case Nil
  then show ?case by (subst ll_clear_loop.simps) auto
next
  case (Cons a as)
  then obtain nd where nd: "h a = Some nd" "n_next nd = fst_or None as"
    by (auto simp: ll_links_def)
  have seg: "dseg (ll_links (h(a := None))) (Some a) as None"
    by (subst dseg_cong [where lk = "ll_links h"]) (use Cons.prems in auto)
  have dom: "dom (h(a := None)) = set as" and dist: "distinct as"
    using Cons.prems by auto
  have "ll_clear_loop (h(a := None)) (fst_or None as) = Some Map.empty"
    by (rule Cons.IH [OF seg dist dom])
  then show ?case using nd by (subst ll_clear_loop.simps) simp
qed

lemma ll_clear_rep:
  assumes "ll_rep l as xs"
  shows "\<exists>l'. ll_clear l = Some l' \<and> ll_rep l' [] [] \<and> ll_nodes l' = Map.empty"
  using assms ll_clear_loop_rep [of "ll_nodes l" None as]
  by (auto simp: ll_clear_def ll_rep_def)

section \<open>The operations refine sequence operations\<close>

lemma ll_rep_split:
  assumes "ll_rep l as xs" and "k \<le> length as"
  shows "ll_rep l (take k as @ drop k as) (take k xs @ drop k xs)"
    and "length (take k xs) = length (take k as)"
  using assms ll_rep_length [OF assms(1)] by simp_all

lemma ll_rep_split_Cons:
  assumes "ll_rep l as xs" and "k < length as"
  shows "ll_rep l (take k as @ as ! k # drop (Suc k) as) (take k xs @ xs ! k # drop (Suc k) xs)"
  using assms ll_rep_length [OF assms(1)] by (simp add: Cons_nth_drop_Suc)

lemma ll_push_at_rep:
  assumes rep: "ll_rep l as xs" and k: "k \<le> length as" and ok: "alloc_ok al"
  shows "(\<exists>x l'. ll_push_node_at al l (fst_or None (drop k as)) v = Some (FOS_E_SUCCESS, l')
      \<and> ll_rep l' (insert_at k x as) (insert_at k v xs) \<and> ll_iter l' = ll_iter l)
    \<or> oom al \<and> ll_push_node_at al l (fst_or None (drop k as)) v = Some (FOS_E_NO_MEM, l)"
proof (cases "al (dom (ll_nodes l))")
  case None
  moreover have "oom al" using oomI [of al "dom (ll_nodes l)"] None rep by (simp add: ll_rep_def)
  ultimately show ?thesis by (simp add: ll_push_node_at_fail)
next
  case (Some x)
  from ll_push_node_at_rep [OF ll_rep_split [OF rep k] Some ok, of v]
  show ?thesis unfolding insert_at_def by blast
qed

lemma ll_pop_at_rep:
  assumes rep: "ll_rep l as xs" and k: "k < length as"
  shows "\<exists>l'. ll_pop_node l (as ! k) = Some (xs ! k, l')
    \<and> ll_rep l' (remove_at k as) (remove_at k xs) \<and> ll_iter l' = ll_iter l"
proof -
  have "length (take k xs) = length (take k as)"
    using rep k by (intro ll_rep_split(2)) simp_all
  from ll_pop_node_rep [OF ll_rep_split_Cons [OF rep k] this]
  show ?thesis unfolding remove_at_def by blast
qed

lemma ll_push_rep:
  assumes "ll_inv l xs" and "alloc_ok al" and "i \<le> length xs"
  shows "(\<exists>l'. ll_push al l i (Some v) = Some (FOS_E_SUCCESS, l') \<and> ll_inv l' (insert_at i v xs))
    \<or> oom al \<and> ll_push al l i (Some v) = Some (FOS_E_NO_MEM, l)"
proof -
  obtain as where rep: "ll_rep l as xs" using assms(1) by (auto simp: ll_inv_def)
  note len = ll_rep_length [OF rep]
  have "ll_push al l i (Some v) = ll_push_node_at al l (fst_or None (drop i as)) v"
    using assms(3) len ll_get_node_rep [OF rep]
    by (cases "i < length as") (simp_all add: ll_push_def fst_or_drop)
  then show ?thesis
    using ll_push_at_rep [OF rep, of i al v] assms len by (auto simp: ll_inv_def)
qed

lemma ll_push_eq:
  assumes rep: "ll_rep l as xs" and i: "i \<le> length xs"
  shows "ll_push al l i (Some v) = ll_push_node_at al l (fst_or None (drop i as)) v"
  using i ll_rep_length [OF rep] ll_get_node_rep [OF rep]
  by (cases "i < length as") (simp_all add: ll_push_def fst_or_drop)

lemma ll_push_full:
  assumes "ll_inv l xs" and "i \<le> length xs" and "al (dom (ll_nodes l)) = None"
  shows "ll_push al l i (Some v) = Some (FOS_E_NO_MEM, l)"
  using assms ll_push_eq ll_push_node_at_fail unfolding ll_inv_def by metis

lemma ll_push_success:
  assumes "ll_inv l xs" and "alloc_ok al" and "i \<le> length xs" and "al (dom (ll_nodes l)) = Some x"
  shows "\<exists>l'. ll_push al l i (Some v) = Some (FOS_E_SUCCESS, l') \<and> ll_inv l' (insert_at i v xs)"
proof -
  obtain as where rep: "ll_rep l as xs" using assms(1) by (auto simp: ll_inv_def)
  have "i \<le> length as" using assms(3) ll_rep_length [OF rep] by simp
  from ll_push_node_at_rep [OF ll_rep_split [OF rep this] assms(4,2), of v] show ?thesis
    using ll_push_eq [OF rep assms(3)] by (auto simp: ll_inv_def insert_at_def)
qed

lemma ll_pop_rep:
  assumes "ll_inv l xs" and "i < length xs"
  shows "\<exists>l'. ll_pop l i = Some (FOS_E_SUCCESS, Some (xs ! i), l') \<and> ll_inv l' (remove_at i xs)"
proof -
  obtain as where rep: "ll_rep l as xs" using assms(1) by (auto simp: ll_inv_def)
  note len = ll_rep_length [OF rep]
  have i: "i < length as" using assms(2) len by simp
  obtain l' where "ll_pop_node l (as ! i) = Some (xs ! i, l')"
    "ll_rep l' (remove_at i as) (remove_at i xs)"
    using ll_pop_at_rep [OF rep i] by blast
  then show ?thesis
    using assms(2) len ll_get_node_rep [OF rep i] by (auto simp: ll_pop_def ll_inv_def)
qed

lemma ll_get_ptr_rep: "ll_inv l xs \<Longrightarrow> ll_get_ptr l i = Some (elem_at xs i)"
proof -
  assume "ll_inv l xs"
  then obtain as where rep: "ll_rep l as xs" by (auto simp: ll_inv_def)
  then show ?thesis
    using ll_get_node_rep [OF rep, of i] ll_rep_node [OF rep, of i] ll_rep_length [OF rep]
    by (simp add: ll_get_ptr_def elem_at_def)
qed

lemma ll_rep_iter [simp]: "ll_rep (l\<lparr>ll_iter := i\<rparr>) as xs = ll_rep l as xs"
  by (simp add: ll_rep_def)

lemma ll_get_iter_rep: "ll_inv_it l xs k \<Longrightarrow> ll_get_iter l = Some (elem_at xs k)"
proof -
  assume "ll_inv_it l xs k"
  then obtain as where rep: "ll_rep l as xs" and k: "k \<le> length as"
    and it: "ll_iter l = fst_or None (drop k as)"
    by (auto simp: ll_inv_it_def)
  then show ?thesis
    using ll_rep_node [OF rep, of k] ll_rep_length [OF rep]
    by (cases "k < length as") (auto simp: ll_get_iter_def fst_or_drop)
qed

lemma ll_next_iter_rep:
  assumes "ll_inv_it l xs k"
  shows "\<exists>l'. ll_next_iter l = Some (elem_at xs (Suc k), l') \<and> ll_inv_it l' xs (min (Suc k) (length xs))"
proof -
  obtain as where rep: "ll_rep l as xs" and k: "k \<le> length as"
    and it: "ll_iter l = fst_or None (drop k as)"
    using assms by (auto simp: ll_inv_it_def)
  note len = ll_rep_length [OF rep]
  show ?thesis
  proof (cases "k < length as")
    case True
    let ?l = "l\<lparr>ll_iter := fst_or None (drop (Suc k) as)\<rparr>"
    have "ll_inv_it ?l xs (Suc k)" using rep True by (auto simp: ll_inv_it_def)
    from ll_get_iter_rep [OF this] this show ?thesis
      using True len it ll_rep_node [OF rep True]
      by (auto simp: ll_next_iter_def fst_or_drop min_def)
  next
    case False
    then show ?thesis
      using k len it assms ll_get_iter_rep [OF assms] by (auto simp: ll_next_iter_def min_def)
  qed
qed

lemma ll_push_before_rep:
  assumes "ll_inv_it l xs k" and "alloc_ok al" and "k < length xs"
  shows "(\<exists>l'. ll_push_before_iter al l (Some v) = Some (FOS_E_SUCCESS, l')
      \<and> ll_inv_it l' (insert_at k v xs) (Suc k))
    \<or> oom al \<and> ll_push_before_iter al l (Some v) = Some (FOS_E_NO_MEM, l)"
proof -
  obtain as where rep: "ll_rep l as xs" and it: "ll_iter l = fst_or None (drop k as)"
    using assms by (auto simp: ll_inv_it_def)
  have k: "k < length as" using assms(3) ll_rep_length [OF rep] by simp
  have eq: "ll_push_before_iter al l (Some v) = ll_push_node_at al l (fst_or None (drop k as)) v"
    using k it by (simp add: ll_push_before_iter_def fst_or_drop)
  have "fst_or None (drop (Suc k) (insert_at k x as)) = fst_or None (drop k as)" for x
    using k by (simp add: insert_at_def)
  then show ?thesis
    using ll_push_at_rep [OF rep less_imp_le [OF k] assms(2), of v] k it
    unfolding eq ll_inv_it_def by (metis Suc_leI insert_at_simps(3) less_imp_le_nat not_less_eq_eq)
qed

lemma ll_push_after_rep:
  assumes "ll_inv_it l xs k" and "alloc_ok al" and "k < length xs"
  shows "(\<exists>l'. ll_push_after_iter al l (Some v) = Some (FOS_E_SUCCESS, l')
      \<and> ll_inv_it l' (insert_at (Suc k) v xs) k)
    \<or> oom al \<and> ll_push_after_iter al l (Some v) = Some (FOS_E_NO_MEM, l)"
proof -
  obtain as where rep: "ll_rep l as xs" and it: "ll_iter l = fst_or None (drop k as)"
    using assms by (auto simp: ll_inv_it_def)
  have k: "k < length as" using assms(3) ll_rep_length [OF rep] by simp
  have eq: "ll_push_after_iter al l (Some v) = ll_push_node_at al l (fst_or None (drop (Suc k) as)) v"
    using k it ll_rep_node [OF rep k] by (simp add: ll_push_after_iter_def fst_or_drop)
  have "fst_or None (drop k (insert_at (Suc k) x as)) = fst_or None (drop k as)"
    "k \<le> length (insert_at (Suc k) x as)" for x
    using k by (simp_all add: insert_at_def fst_or_drop take_Suc_conv_app_nth fst_or_append)
  then show ?thesis
    using ll_push_at_rep [OF rep Suc_leI [OF k] assms(2), of v] it
    unfolding eq ll_inv_it_def by metis
qed

lemma ll_pop_iter_rep:
  assumes "ll_inv_it l xs k" and "k < length xs"
  shows "\<exists>l'. ll_pop_iter l = Some (FOS_E_SUCCESS, Some (xs ! k), l') \<and> ll_inv_it l' (remove_at k xs) k"
proof -
  obtain as where rep: "ll_rep l as xs" and it: "ll_iter l = fst_or None (drop k as)"
    using assms by (auto simp: ll_inv_it_def)
  have k: "k < length as" using assms(2) ll_rep_length [OF rep] by simp
  let ?l = "l\<lparr>ll_iter := fst_or None (drop (Suc k) as)\<rparr>"
  obtain l' where l': "ll_pop_node ?l (as ! k) = Some (xs ! k, l')"
    "ll_rep l' (remove_at k as) (remove_at k xs)" "ll_iter l' = ll_iter ?l"
    using ll_pop_at_rep [of ?l as xs k] rep k by auto
  have "drop k (remove_at k as) = drop (Suc k) as" "k \<le> length (remove_at k as)"
    using k by (simp_all add: remove_at_def)
  then have "ll_inv_it l' (remove_at k xs) k"
    using l' by (auto simp: ll_inv_it_def)
  then show ?thesis
    using l' it k ll_rep_node [OF rep k] by (auto simp: ll_pop_iter_def fst_or_drop)
qed

lemma ll_inv_len: "ll_inv l xs \<Longrightarrow> ll_len l = length xs"
  by (auto simp: ll_inv_def dest: ll_rep_length)

lemma ll_inv_it_inv: "ll_inv_it l xs k \<Longrightarrow> ll_inv l xs \<and> k \<le> length xs"
  by (auto simp: ll_inv_it_def ll_inv_def dest: ll_rep_length)

lemma ll_inv_it_end: "ll_inv_it l xs (length xs) \<Longrightarrow> ll_iter l = None"
  by (auto simp: ll_inv_it_def dest: ll_rep_length)

lemma ll_reset_rep: "ll_inv l xs \<Longrightarrow> ll_inv_it (ll_reset_iter l) xs 0"
  by (auto simp: ll_inv_def ll_inv_it_def ll_reset_iter_def) (auto simp: ll_rep_def)

lemma ll_clear_inv: "ll_inv l xs \<Longrightarrow> \<exists>l'. ll_clear l = Some l' \<and> ll_inv l' []"
  using ll_clear_rep by (fastforce simp: ll_inv_def)

section \<open>The linked list keeps the list contract\<close>

lemma ll_range_errors:
  "ll_inv l xs \<Longrightarrow> length xs < i \<Longrightarrow> ll_push al l i src = Some (FOS_E_INVALID_INDEX, l)"
  "ll_inv l xs \<Longrightarrow> i \<le> length xs \<Longrightarrow> ll_push al l i None = Some (FOS_E_BAD_ARGS, l)"
  "ll_inv l xs \<Longrightarrow> length xs \<le> i \<Longrightarrow> ll_pop l i = Some (FOS_E_INVALID_INDEX, None, l)"
  by (simp_all add: ll_push_def ll_pop_def ll_inv_len)

lemma ll_iter_errors:
  "ll_push_before_iter al l None = Some (FOS_E_BAD_ARGS, l)"
  "ll_push_after_iter al l None = Some (FOS_E_BAD_ARGS, l)"
  "ll_inv_it l xs (length xs) \<Longrightarrow>
     ll_push_before_iter al l (Some v) = Some (FOS_E_INVALID_INDEX, l)"
  "ll_inv_it l xs (length xs) \<Longrightarrow>
     ll_push_after_iter al l (Some v) = Some (FOS_E_INVALID_INDEX, l)"
  "ll_inv_it l xs (length xs) \<Longrightarrow> ll_pop_iter l = Some (FOS_E_INVALID_INDEX, None, l)"
  by (simp_all add: ll_push_before_iter_def ll_push_after_iter_def ll_pop_iter_def ll_inv_it_end)

lemmas ll_contract_facts =
  ll_get_len_def ll_inv_len ll_get_ptr_rep ll_clear_inv ll_push_rep ll_pop_rep
  ll_reset_rep ll_get_iter_rep ll_next_iter_rep ll_push_before_rep ll_push_after_rep
  ll_pop_iter_rep ll_inv_it_inv ll_range_errors ll_iter_errors

interpretation ll: list_contract LL_IMPL ll_inv ll_inv_it
  by unfold_locales (simp_all add: LL_IMPL_def ll_contract_facts)

section \<open>The promises of the linked list\<close>

text \<open>The list of two nodes that the examples start from.\<close>

definition ll_two :: "'v \<Rightarrow> 'v \<Rightarrow> 'v linked_list" where
  "ll_two u v =
     \<lparr>ll_nodes = [1 \<mapsto> \<lparr>n_next = Some 2, n_prev = None, n_val = u\<rparr>,
                  2 \<mapsto> \<lparr>n_next = None, n_prev = Some 1, n_val = v\<rparr>],
      ll_len = 2, ll_cs = 4, ll_first = Some 1, ll_last = Some 2, ll_iter = None\<rparr>"

definition ll_none :: "'v linked_list" where
  "ll_none = \<lparr>ll_nodes = Map.empty, ll_len = 0, ll_cs = 4, ll_first = None, ll_last = None, ll_iter = None\<rparr>"

lemma finite_dom_ll_two [simp]: "finite (dom (ll_nodes (ll_two u v)))"
  by (simp add: ll_two_def)

lemma ll_two_inv: "ll_inv (ll_two u v) [u, v]"
  unfolding ll_inv_def
  by (rule exI [of _ "[1, 2]"]) (auto simp: ll_rep_def ll_two_def ll_links_def ll_vals_def lst_or_def)

lemma ll_none_inv: "ll_inv ll_none []"
  unfolding ll_inv_def by (rule exI [of _ "[]"]) (simp add: ll_rep_def ll_none_def)

lemma new_linked_list_inv:
  "new_linked_list al cs = Some l \<Longrightarrow> ll_inv l [] \<and> ll_cs l = cs \<and> 0 < cs"
  by (auto simp: new_linked_list_def ll_inv_def ll_rep_def split: option.splits if_splits intro: exI [of _ "[]"])

text \<open>Pushing at an index, on every branch: an index past the length and a null source are
  refused, an exhausted allocator leaves the list as it was, and otherwise the element stands at
  the index with the rest of the sequence in order around it.\<close>

theorem ll_push_spec:
  assumes "ll_inv l xs" and "alloc_ok al"
  shows "\<exists>e l'. ll_push al l i src = Some (e, l')
    \<and> (if length xs < i then e = FOS_E_INVALID_INDEX \<and> l' = l
       else if src = None then e = FOS_E_BAD_ARGS \<and> l' = l
       else if al (dom (ll_nodes l)) = None then e = FOS_E_NO_MEM \<and> l' = l
       else e = FOS_E_SUCCESS \<and> ll_inv l' (insert_at i (the src) xs))"
proof (cases src)
  case None
  then show ?thesis using ll_range_errors [OF assms(1)] by (cases "length xs < i") auto
next
  case (Some v)
  consider "length xs < i" | "i \<le> length xs" "al (dom (ll_nodes l)) = None"
    | x where "i \<le> length xs" "al (dom (ll_nodes l)) = Some x" by fastforce
  then show ?thesis
  proof cases
    case 3
    then show ?thesis using ll_push_success [OF assms 3(1)] Some by auto
  qed (use Some ll_range_errors [OF assms(1)] ll_push_full [OF assms(1)] in auto)
qed

theorem ll_push_spec_witness:
  "\<exists>l'. ll_push bump_alloc (ll_two 7 9) 1 (Some 8) = Some (FOS_E_SUCCESS, l') \<and> ll_inv l' [7, 8, 9 :: nat]"
  using ll_push_spec [OF ll_two_inv bump_alloc_ok(1), of "7 :: nat" 9 1 "Some 8"]
  by (simp add: insert_at_def bump_alloc_def finite_dom_ll_two)

text \<open>Popping an index inside the list yields exactly the element there and closes the gap;
  an index past the end is refused and nothing changes.\<close>

theorem ll_pop_spec:
  assumes "ll_inv l xs"
  shows "if length xs \<le> i then ll_pop l i = Some (FOS_E_INVALID_INDEX, None, l)
    else \<exists>l'. ll_pop l i = Some (FOS_E_SUCCESS, Some (xs ! i), l') \<and> ll_inv l' (remove_at i xs)"
  using ll_pop_rep [OF assms] ll_range_errors(3) [OF assms] by simp

theorem ll_pop_spec_witness:
  "\<exists>l'. ll_pop (ll_two 7 9) 1 = Some (FOS_E_SUCCESS, Some 9, l') \<and> ll_inv l' [7 :: nat]"
  using ll_pop_spec [OF ll_two_inv, of 7 9 1] by (simp add: remove_at_def)

text \<open>Clearing a list returns, leaves the empty list, and gives every node back to the allocator:
  no node stays live.\<close>

theorem ll_clear_frees_all:
  assumes "ll_inv l xs"
  shows "\<exists>l'. ll_clear l = Some l' \<and> ll_inv l' [] \<and> ll_nodes l' = Map.empty
    \<and> delete_linked_list l = Some Map.empty"
  using assms ll_clear_rep by (fastforce simp: ll_inv_def delete_linked_list_def)

theorem ll_clear_frees_all_witness: "delete_linked_list (ll_two (7 :: nat) 9) = Some Map.empty"
  using ll_clear_frees_all [OF ll_two_inv, of 7 9] by blast

text \<open>Appending one list to another: the destination receives a prefix of the source in order;
  it is the whole source, which ends empty, unless memory runs out, and then the source is
  untouched.\<close>

theorem l_push_back_all_spec:
  assumes "ll_inv l xs" and "ll_inv s ys" and "alloc_ok al"
  shows "\<exists>n l' s' e. l_push_back_all LL_IMPL al l (Some s) = Some (e, l', Some s')
    \<and> ll_inv l' (xs @ take n ys)
    \<and> (e = FOS_E_SUCCESS \<and> n = length ys \<and> ll_inv s' []
       \<or> e = FOS_E_NO_MEM \<and> oom al \<and> n < length ys \<and> ll_inv s' ys)"
  by (rule ll.push_back_all [OF assms])

theorem l_push_back_all_spec_witness:
  "\<exists>l' s'. l_push_back_all LL_IMPL bump_alloc (ll_two 1 2) (Some (ll_two 3 4)) = Some (FOS_E_SUCCESS, l', Some s')
    \<and> ll_inv l' [1, 2, 3, 4 :: nat] \<and> ll_inv s' []"
  using l_push_back_all_spec [OF ll_two_inv ll_two_inv bump_alloc_ok(1), of "1 :: nat" 2 3 4] by fastforce

end
