(* ===== verification/Basic_Wait_Queue.thy ===== *)
theory Basic_Wait_Queue imports Linked_List begin

text \<open>
  The basic wait queue of \<^verbatim>\<open>src/src/s_data/src/wait_queue.c\<close>, written over the list
  interface: a queue of waiting items and a queue of items that were notified.  It also
  holds what the three kinds of wait queue share: the removal loop and the contract of a
  pair of lists.  \<open>IW\<close> and \<open>IR\<close> are the operation tables of the waiting and of the
  ready list.
\<close>

section \<open>Common to all wait queues\<close>

text \<open>
  The loop \<^verbatim>\<open>while (iter) { if (*iter == item) l_pop_iter ... else l_next_iter }\<close>, which
  the code repeats for every list; \<open>hit\<close> is the comparison with the item.
\<close>

partial_function (option) wq_remove_loop ::
  "('l, 'v) list_impl \<Rightarrow> ('v \<Rightarrow> bool) \<Rightarrow> 'l \<Rightarrow> 'v option \<Rightarrow> 'l option"
where
  "wq_remove_loop I hit l iter =
     (case iter of
        None \<Rightarrow> Some l
      | Some v \<Rightarrow>
          (if hit v then do {
             (_, _, l) \<leftarrow> li_pop_iter I l;
             iter \<leftarrow> li_get_iter I l;
             wq_remove_loop I hit l iter }
           else do {
             (iter, l) \<leftarrow> li_next_iter I l;
             wq_remove_loop I hit l iter }))"

definition wq_l_remove :: "('l, 'v) list_impl \<Rightarrow> ('v \<Rightarrow> bool) \<Rightarrow> 'l \<Rightarrow> 'l option" where
  "wq_l_remove I hit l = do {
     let l = li_reset_iter I l;
     iter \<leftarrow> li_get_iter I l;
     wq_remove_loop I hit l iter }"

context list_contract begin

lemma wq_remove_loop_inv:
  assumes "inv_it l xs k"
  shows "\<exists>l'. wq_remove_loop I hit l (elem_at xs k) = Some l'
    \<and> inv l' (take k xs @ filter (\<lambda>x. \<not> hit x) (drop k xs))"
  using assms
proof (induction "length xs - k" arbitrary: l xs k)
  case 0
  then have "k = length xs" using it_inv by fastforce
  then show ?case using it_inv 0 by (subst wq_remove_loop.simps) auto
next
  case (Suc m)
  then have k: "k < length xs" by linarith
  then have d: "drop k xs = xs ! k # drop (Suc k) xs" by (simp add: Cons_nth_drop_Suc)
  show ?case
  proof (cases "hit (xs ! k)")
    case True
    obtain l1 where l1: "li_pop_iter I l = Some (FOS_E_SUCCESS, Some (xs ! k), l1)"
      "inv_it l1 (remove_at k xs) k" using pop_iter [OF Suc.prems k] by blast
    have dr: "drop k (remove_at k xs) = drop (Suc k) xs" "take k (remove_at k xs) = take k xs"
      using k by (simp_all add: remove_at_def)
    have "m = length (remove_at k xs) - k" using k Suc.hyps(2) by simp
    from Suc.hyps(1) [OF this l1(2)] show ?thesis
      using k True l1 d dr by (subst wq_remove_loop.simps) (simp add: get_iter [OF l1(2)])
  next
    case False
    obtain l1 where l1: "li_next_iter I l = Some (elem_at xs (Suc k), l1)" "inv_it l1 xs (Suc k)"
      using next_iter [OF Suc.prems] k by (auto simp: min_def Suc_le_eq)
    have "m = length xs - Suc k" using Suc.hyps(2) by simp
    from Suc.hyps(1) [OF this l1(2)] show ?thesis
      using k False l1 d by (subst wq_remove_loop.simps) (auto simp: take_Suc_conv_app_nth)
  qed
qed

lemma wq_l_remove_inv:
  "inv l xs \<Longrightarrow> \<exists>l'. wq_l_remove I hit l = Some l' \<and> inv l' (filter (\<lambda>x. \<not> hit x) xs)"
  using wq_remove_loop_inv [OF reset, of l xs hit]
  by (simp add: wq_l_remove_def get_iter [OF reset])

end

text \<open>A wait queue owns two lists, each with its own operation table.\<close>

locale queue_pair =
  w: list_contract IW winv wit + r: list_contract IR rinv rit
  for IW :: "('lw, 'w) list_impl" and winv and wit
    and IR :: "('lr, 'r) list_impl" and rinv and rit

section \<open>The basic wait queue\<close>

record ('lw, 'lr) bwq =
  bwq_wait_q :: 'lw
  bwq_ready_q :: 'lr

abbreviation (input) "BWQ_NOTIFY_NEXT \<equiv> (0::nat)"
abbreviation (input) "BWQ_NOTIFY_LAST \<equiv> (1::nat)"
abbreviation (input) "BWQ_NOTIFY_ALL \<equiv> (2::nat)"

text \<open>
  The three allocations of the constructor: \<open>hdr\<close> says whether the header was allocated,
  \<open>wq\<close> and \<open>rq\<close> are the two calls of \<^verbatim>\<open>new_linked_list\<close>.
\<close>

definition new_basic_wait_queue :: "bool \<Rightarrow> 'lw option \<Rightarrow> 'lr option \<Rightarrow> ('lw, 'lr) bwq option" where
  "new_basic_wait_queue hdr wq rq =
     (case (hdr, wq, rq) of
        (True, Some w, Some r) \<Rightarrow> Some \<lparr>bwq_wait_q = w, bwq_ready_q = r\<rparr>
      | _ \<Rightarrow> None)"

definition bwq_enqueue ::
  "('lw, 'i) list_impl \<Rightarrow> allocator \<Rightarrow> ('lw, 'lr) bwq \<Rightarrow> 'i \<Rightarrow> (fernos_error \<times> ('lw, 'lr) bwq) option"
where
  "bwq_enqueue IW al q item = do {
     (err, w) \<leftarrow> l_push_back IW al (bwq_wait_q q) (Some item);
     Some (err, q\<lparr>bwq_wait_q := w\<rparr>) }"

text \<open>One transfer from the front of the waiting list to the back of the ready list.\<close>

definition bwq_move_front ::
  "('lw, 'i) list_impl \<Rightarrow> ('lr, 'i) list_impl \<Rightarrow> allocator \<Rightarrow> ('lw, 'lr) bwq \<Rightarrow>
   (fernos_error \<times> ('lw, 'lr) bwq) option"
where
  "bwq_move_front IW IR al q = do {
     ptr \<leftarrow> li_get_ptr IW (bwq_wait_q q) 0;
     item \<leftarrow> ptr;
     (res, r) \<leftarrow> l_push_back IR al (bwq_ready_q q) (Some item);
     if res = FOS_E_SUCCESS then do {
       (_, _, w) \<leftarrow> l_pop_front IW (bwq_wait_q q);
       Some (res, \<lparr>bwq_wait_q = w, bwq_ready_q = r\<rparr>) }
     else Some (res, q\<lparr>bwq_ready_q := r\<rparr>) }"

definition bwq_move_back ::
  "('lw, 'i) list_impl \<Rightarrow> ('lr, 'i) list_impl \<Rightarrow> allocator \<Rightarrow> ('lw, 'lr) bwq \<Rightarrow>
   (fernos_error \<times> ('lw, 'lr) bwq) option"
where
  "bwq_move_back IW IR al q = do {
     ptr \<leftarrow> li_get_ptr IW (bwq_wait_q q) (li_get_len IW (bwq_wait_q q) - 1);
     item \<leftarrow> ptr;
     (res, r) \<leftarrow> l_push_back IR al (bwq_ready_q q) (Some item);
     if res = FOS_E_SUCCESS then do {
       (_, _, w) \<leftarrow> l_pop_back IW (bwq_wait_q q);
       Some (res, \<lparr>bwq_wait_q = w, bwq_ready_q = r\<rparr>) }
     else Some (res, q\<lparr>bwq_ready_q := r\<rparr>) }"

partial_function (option) bwq_notify_all_loop ::
  "('lw, 'i) list_impl \<Rightarrow> ('lr, 'i) list_impl \<Rightarrow> allocator \<Rightarrow> ('lw, 'lr) bwq \<Rightarrow> fernos_error \<Rightarrow>
   (fernos_error \<times> ('lw, 'lr) bwq) option"
where
  "bwq_notify_all_loop IW IR al q res =
     (if res = FOS_E_SUCCESS \<and> 0 < li_get_len IW (bwq_wait_q q) then do {
        (res', q') \<leftarrow> bwq_move_front IW IR al q;
        bwq_notify_all_loop IW IR al q' res' }
      else Some (res, q))"

definition bwq_notify ::
  "('lw, 'i) list_impl \<Rightarrow> ('lr, 'i) list_impl \<Rightarrow> allocator \<Rightarrow> ('lw, 'lr) bwq \<Rightarrow> nat \<Rightarrow>
   (fernos_error \<times> ('lw, 'lr) bwq) option"
where
  "bwq_notify IW IR al q mode =
     (if mode = BWQ_NOTIFY_NEXT then
        (if 0 < li_get_len IW (bwq_wait_q q) then bwq_move_front IW IR al q
         else Some (FOS_E_SUCCESS, q))
      else if mode = BWQ_NOTIFY_LAST then
        (if 0 < li_get_len IW (bwq_wait_q q) then bwq_move_back IW IR al q
         else Some (FOS_E_SUCCESS, q))
      else if mode = BWQ_NOTIFY_ALL then bwq_notify_all_loop IW IR al q FOS_E_SUCCESS
      else Some (FOS_E_SUCCESS, q))"

text \<open>The middle component of the result is what \<^verbatim>\<open>*item\<close> holds after the call.\<close>

definition bwq_pop ::
  "('lr, 'i) list_impl \<Rightarrow> ('lw, 'lr) bwq \<Rightarrow> (fernos_error \<times> 'i option \<times> ('lw, 'lr) bwq) option"
where
  "bwq_pop IR q =
     (if li_get_len IR (bwq_ready_q q) = 0 then Some (FOS_E_EMPTY, None, q)
      else do {
        (err, item, r) \<leftarrow> l_pop_front IR (bwq_ready_q q);
        Some (err, item, q\<lparr>bwq_ready_q := r\<rparr>) })"

definition bwq_remove ::
  "('lw, 'i) list_impl \<Rightarrow> ('lr, 'i) list_impl \<Rightarrow> ('lw, 'lr) bwq \<Rightarrow> 'i \<Rightarrow> ('lw, 'lr) bwq option"
where
  "bwq_remove IW IR q item = do {
     w \<leftarrow> wq_l_remove IW (\<lambda>i. i = item) (bwq_wait_q q);
     r \<leftarrow> wq_l_remove IR (\<lambda>i. i = item) (bwq_ready_q q);
     Some \<lparr>bwq_wait_q = w, bwq_ready_q = r\<rparr> }"

section \<open>Correctness over any pair of lists\<close>

definition bwq_rep ::
  "('lw \<Rightarrow> 'i list \<Rightarrow> bool) \<Rightarrow> ('lr \<Rightarrow> 'i list \<Rightarrow> bool) \<Rightarrow> ('lw, 'lr) bwq \<Rightarrow> 'i list \<Rightarrow> 'i list \<Rightarrow> bool"
where
  "bwq_rep winv rinv q ws rs \<longleftrightarrow> winv (bwq_wait_q q) ws \<and> rinv (bwq_ready_q q) rs"

locale basic_queue_pair = queue_pair IW winv wit IR rinv rit
  for IW :: "('lw, 'i) list_impl" and winv and wit
    and IR :: "('lr, 'i) list_impl" and rinv and rit
begin

lemma bwq_enqueue_rep:
  assumes "bwq_rep winv rinv q ws rs" and "alloc_ok al"
  shows "(\<exists>q'. bwq_enqueue IW al q x = Some (FOS_E_SUCCESS, q') \<and> bwq_rep winv rinv q' (ws @ [x]) rs)
    \<or> oom al \<and> bwq_enqueue IW al q x = Some (FOS_E_NO_MEM, q)"
  using w.push_back [of "bwq_wait_q q" ws al x] assms
  by (fastforce simp: bwq_rep_def bwq_enqueue_def)

lemma bwq_move_front_rep:
  assumes "bwq_rep winv rinv q (x # ws) rs" and "alloc_ok al"
  shows "(\<exists>q'. bwq_move_front IW IR al q = Some (FOS_E_SUCCESS, q')
      \<and> bwq_rep winv rinv q' ws (rs @ [x]))
    \<or> oom al \<and> bwq_move_front IW IR al q = Some (FOS_E_NO_MEM, q)"
  using r.push_back [of "bwq_ready_q q" rs al x] w.pop_front [of "bwq_wait_q q" x ws]
    w.ptr [of "bwq_wait_q q" "x # ws" 0] assms
  by (auto simp: bwq_rep_def bwq_move_front_def)

lemma bwq_move_back_rep:
  assumes "bwq_rep winv rinv q ws rs" and "ws \<noteq> []" and "length ws \<le> 2 ^ 32" and "alloc_ok al"
  shows "(\<exists>q'. bwq_move_back IW IR al q = Some (FOS_E_SUCCESS, q')
      \<and> bwq_rep winv rinv q' (butlast ws) (rs @ [last ws]))
    \<or> oom al \<and> bwq_move_back IW IR al q = Some (FOS_E_NO_MEM, q)"
  using r.push_back [of "bwq_ready_q q" rs al "last ws"] w.pop_back [of "bwq_wait_q q" ws]
    w.ptr [of "bwq_wait_q q" ws "length ws - 1"] w.len [of "bwq_wait_q q" ws] assms
  by (auto simp: bwq_rep_def bwq_move_back_def last_conv_nth)

lemma bwq_notify_all_loop_rep:
  assumes "bwq_rep winv rinv q ws rs" and "alloc_ok al"
  shows "\<exists>n e q'. bwq_notify_all_loop IW IR al q FOS_E_SUCCESS = Some (e, q')
    \<and> bwq_rep winv rinv q' (drop n ws) (rs @ take n ws)
    \<and> (e = FOS_E_SUCCESS \<and> n = length ws \<or> e = FOS_E_NO_MEM \<and> oom al \<and> n < length ws)"
  using assms
proof (induction ws arbitrary: q rs)
  case Nil
  then have "li_get_len IW (bwq_wait_q q) = 0" using w.len by (fastforce simp: bwq_rep_def)
  then show ?case using Nil by (subst bwq_notify_all_loop.simps) simp
next
  case (Cons x ws)
  then have len: "0 < li_get_len IW (bwq_wait_q q)" using w.len by (fastforce simp: bwq_rep_def)
  from bwq_move_front_rep [OF Cons.prems] show ?case
  proof
    assume "oom al \<and> bwq_move_front IW IR al q = Some (FOS_E_NO_MEM, q)"
    then show ?thesis using len Cons.prems
      by (subst bwq_notify_all_loop.simps) (auto intro!: exI [of _ "0::nat"] simp: bwq_notify_all_loop.simps)
  next
    assume "\<exists>q'. bwq_move_front IW IR al q = Some (FOS_E_SUCCESS, q') \<and> bwq_rep winv rinv q' ws (rs @ [x])"
    then obtain q1 where q1: "bwq_move_front IW IR al q = Some (FOS_E_SUCCESS, q1)"
      "bwq_rep winv rinv q1 ws (rs @ [x])" by blast
    from Cons.IH [OF q1(2) Cons.prems(2)] obtain n e q' where
      "bwq_notify_all_loop IW IR al q1 FOS_E_SUCCESS = Some (e, q')"
      "bwq_rep winv rinv q' (drop n ws) ((rs @ [x]) @ take n ws)"
      "e = FOS_E_SUCCESS \<and> n = length ws \<or> e = FOS_E_NO_MEM \<and> oom al \<and> n < length ws" by blast
    then show ?thesis
      using len q1(1)
      by (subst bwq_notify_all_loop.simps) (auto intro!: exI [of _ "Suc n"])
  qed
qed

text \<open>Notifying moves items in FIFO order; when memory runs out a prefix has been moved.\<close>

lemma bwq_notify_all_rep:
  assumes "bwq_rep winv rinv q ws rs" and "alloc_ok al"
  shows "\<exists>n e q'. bwq_notify IW IR al q BWQ_NOTIFY_ALL = Some (e, q')
    \<and> bwq_rep winv rinv q' (drop n ws) (rs @ take n ws)
    \<and> (e = FOS_E_SUCCESS \<and> n = length ws \<or> e = FOS_E_NO_MEM \<and> oom al \<and> n < length ws)"
  using bwq_notify_all_loop_rep [OF assms] by (simp add: bwq_notify_def)

lemma bwq_notify_next_rep:
  assumes "bwq_rep winv rinv q ws rs" and "alloc_ok al"
  shows "(\<exists>q'. bwq_notify IW IR al q BWQ_NOTIFY_NEXT = Some (FOS_E_SUCCESS, q')
      \<and> bwq_rep winv rinv q' (drop 1 ws) (rs @ take 1 ws))
    \<or> oom al \<and> bwq_notify IW IR al q BWQ_NOTIFY_NEXT = Some (FOS_E_NO_MEM, q)"
  using assms bwq_move_front_rep [OF _ assms(2)] w.len [of "bwq_wait_q q" ws]
  by (cases ws) (auto simp: bwq_notify_def bwq_rep_def)

lemma bwq_notify_last_rep:
  assumes "bwq_rep winv rinv q ws rs" and "alloc_ok al" and "length ws \<le> 2 ^ 32"
  shows "(\<exists>q'. bwq_notify IW IR al q BWQ_NOTIFY_LAST = Some (FOS_E_SUCCESS, q')
      \<and> bwq_rep winv rinv q' (butlast ws) (rs @ (if ws = [] then [] else [last ws])))
    \<or> oom al \<and> bwq_notify IW IR al q BWQ_NOTIFY_LAST = Some (FOS_E_NO_MEM, q)"
  using assms bwq_move_back_rep [OF assms(1) _ assms(3,2)] w.len [of "bwq_wait_q q" ws]
  by (cases "ws = []") (auto simp: bwq_notify_def bwq_rep_def)

lemma bwq_pop_rep:
  assumes "bwq_rep winv rinv q ws rs"
  shows "case rs of
      [] \<Rightarrow> bwq_pop IR q = Some (FOS_E_EMPTY, None, q)
    | x # rs' \<Rightarrow> \<exists>q'. bwq_pop IR q = Some (FOS_E_SUCCESS, Some x, q') \<and> bwq_rep winv rinv q' ws rs'"
  using assms r.pop_front [of "bwq_ready_q q" "hd rs" "tl rs"] r.len [of "bwq_ready_q q" rs]
  by (auto simp: bwq_rep_def bwq_pop_def split: list.split)

lemma bwq_remove_rep:
  assumes "bwq_rep winv rinv q ws rs"
  shows "\<exists>q'. bwq_remove IW IR q x = Some q'
    \<and> bwq_rep winv rinv q' (removeAll x ws) (removeAll x rs)"
  using assms w.wq_l_remove_inv [of "bwq_wait_q q" ws "\<lambda>i. i = x"]
    r.wq_l_remove_inv [of "bwq_ready_q q" rs "\<lambda>i. i = x"]
  by (auto simp: bwq_rep_def bwq_remove_def removeAll_eq_filter)

end

section \<open>On the linked list\<close>

interpretation ll_pair: queue_pair LL_IMPL ll_inv ll_inv_it LL_IMPL ll_inv ll_inv_it ..

interpretation ll_basic: basic_queue_pair LL_IMPL ll_inv ll_inv_it LL_IMPL ll_inv ll_inv_it ..

section \<open>The promises of the basic wait queue\<close>

text \<open>Notifying, in each of its modes: the next mode moves the oldest waiter to the back of the
  ready list, the last mode the newest one, the all mode moves every waiter in arrival order (a
  prefix when memory runs out), and an unknown mode does nothing.\<close>

theorem bwq_notify_spec:
  assumes q: "bwq_rep ll_inv ll_inv q ws rs" and al: "alloc_ok al" and len: "length ws \<le> 2 ^ 32"
  shows "\<exists>e q'. bwq_notify LL_IMPL LL_IMPL al q mode = Some (e, q')
    \<and> (if mode = BWQ_NOTIFY_NEXT then
         e = FOS_E_SUCCESS \<and> bwq_rep ll_inv ll_inv q' (drop 1 ws) (rs @ take 1 ws)
         \<or> e = FOS_E_NO_MEM \<and> oom al \<and> q' = q
       else if mode = BWQ_NOTIFY_LAST then
         e = FOS_E_SUCCESS \<and> bwq_rep ll_inv ll_inv q' (butlast ws) (rs @ (if ws = [] then [] else [last ws]))
         \<or> e = FOS_E_NO_MEM \<and> oom al \<and> q' = q
       else if mode = BWQ_NOTIFY_ALL then
         (\<exists>n. bwq_rep ll_inv ll_inv q' (drop n ws) (rs @ take n ws)
           \<and> (e = FOS_E_SUCCESS \<and> n = length ws \<or> e = FOS_E_NO_MEM \<and> oom al \<and> n < length ws))
       else e = FOS_E_SUCCESS \<and> q' = q)"
proof -
  consider "mode = BWQ_NOTIFY_NEXT" | "mode = BWQ_NOTIFY_LAST" | "mode = BWQ_NOTIFY_ALL" | "2 < mode" by linarith
  then show ?thesis
  proof cases
    case 1
    then show ?thesis using ll_basic.bwq_notify_next_rep [OF q al] by auto
  next
    case 2
    then show ?thesis using ll_basic.bwq_notify_last_rep [OF q al len] by auto
  next
    case 3
    then show ?thesis using ll_basic.bwq_notify_all_rep [OF q al] by fastforce
  qed (simp add: bwq_notify_def)
qed

theorem bwq_notify_spec_witness:
  "\<exists>q'. bwq_notify LL_IMPL LL_IMPL bump_alloc \<lparr>bwq_wait_q = ll_two 5 6, bwq_ready_q = ll_none\<rparr> BWQ_NOTIFY_LAST
      = Some (FOS_E_SUCCESS, q') \<and> bwq_rep ll_inv ll_inv q' [5] [6 :: nat]"
  using bwq_notify_spec [of "\<lparr>bwq_wait_q = ll_two 5 6, bwq_ready_q = ll_none\<rparr>" "[5, 6 :: nat]" "[]" bump_alloc 1]
  by (simp add: bwq_rep_def ll_two_inv ll_none_inv)

text \<open>A thread removed from a wait queue waits nowhere in it any more, neither among the waiting
  nor among the ready, and the order of all others is kept.\<close>

theorem bwq_remove_spec:
  assumes "bwq_rep ll_inv ll_inv q ws rs"
  shows "\<exists>q'. bwq_remove LL_IMPL LL_IMPL q x = Some q'
    \<and> bwq_rep ll_inv ll_inv q' (removeAll x ws) (removeAll x rs)"
  by (rule ll_basic.bwq_remove_rep [OF assms])

theorem bwq_remove_spec_witness:
  "\<exists>q'. bwq_remove LL_IMPL LL_IMPL \<lparr>bwq_wait_q = ll_two 5 6, bwq_ready_q = ll_two 6 5\<rparr> 5 = Some q'
    \<and> bwq_rep ll_inv ll_inv q' [6] [6 :: nat]"
  using bwq_remove_spec [of "\<lparr>bwq_wait_q = ll_two 5 6, bwq_ready_q = ll_two 6 5\<rparr>" "[5, 6 :: nat]" "[6, 5]" 5]
  by (simp add: bwq_rep_def ll_two_inv)

end
