(* ===== verification/Vector_Wait_Queue.thy ===== *)
theory Vector_Wait_Queue imports Basic_Wait_Queue begin

unbundle bit_operations_syntax

text \<open>
  The vector wait queue of \<^verbatim>\<open>src/src/s_data/src/wait_queue.c\<close>: every waiting item carries
  a 32-bit mask of the events that may wake it.  Event identifiers are the \<^verbatim>\<open>uint8_t\<close>
  ready ids, modelled as numbers below 256.
\<close>

section \<open>State and operations\<close>

record 'i vwq_wait_pair =
  vw_item :: 'i
  vw_mask :: "32 word"

record 'i vwq_ready_pair =
  vr_item :: 'i
  vr_id :: nat

record ('lw, 'lr) vwq =
  vwq_wait_q :: 'lw
  vwq_ready_q :: 'lr

abbreviation (input) "VWQ_NOTIFY_FIRST \<equiv> (0::nat)"
abbreviation (input) "VWQ_NOTIFY_ALL \<equiv> (1::nat)"
abbreviation (input) "VWQ_NULL_READY_ID \<equiv> (32::nat)"

definition new_vector_wait_queue :: "bool \<Rightarrow> 'lw option \<Rightarrow> 'lr option \<Rightarrow> ('lw, 'lr) vwq option" where
  "new_vector_wait_queue hdr wq rq =
     (case (hdr, wq, rq) of
        (True, Some w, Some r) \<Rightarrow> Some \<lparr>vwq_wait_q = w, vwq_ready_q = r\<rparr>
      | _ \<Rightarrow> None)"

definition vwq_enqueue ::
  "('lw, 'i vwq_wait_pair) list_impl \<Rightarrow> allocator \<Rightarrow> ('lw, 'lr) vwq \<Rightarrow> 'i \<Rightarrow> 32 word \<Rightarrow>
   (fernos_error \<times> ('lw, 'lr) vwq) option"
where
  "vwq_enqueue IW al q item ready_mask =
     (if ready_mask = 0 then Some (FOS_E_BAD_ARGS, q)
      else do {
        (err, w) \<leftarrow> l_push_back IW al (vwq_wait_q q) (Some \<lparr>vw_item = item, vw_mask = ready_mask\<rparr>);
        Some (err, q\<lparr>vwq_wait_q := w\<rparr>) })"

text \<open>\<^verbatim>\<open>iter->ready_mask & (1 << ready_id)\<close>\<close>

definition vwq_accepts :: "nat \<Rightarrow> 'i vwq_wait_pair \<Rightarrow> bool" where
  "vwq_accepts ready_id p \<longleftrightarrow> vw_mask p AND push_bit ready_id 1 \<noteq> 0"

partial_function (option) vwq_first_loop ::
  "('lw, 'i vwq_wait_pair) list_impl \<Rightarrow> ('lr, 'i vwq_ready_pair) list_impl \<Rightarrow> allocator \<Rightarrow> nat \<Rightarrow>
   'lw \<Rightarrow> 'lr \<Rightarrow> 'i vwq_wait_pair option \<Rightarrow> (fernos_error \<times> ('lw, 'lr) vwq) option"
where
  "vwq_first_loop IW IR al ready_id w r iter =
     (case iter of
        None \<Rightarrow> Some (FOS_E_SUCCESS, \<lparr>vwq_wait_q = w, vwq_ready_q = r\<rparr>)
      | Some p \<Rightarrow>
          (if vwq_accepts ready_id p then do {
             (err, r) \<leftarrow> l_push_back IR al r (Some \<lparr>vr_item = vw_item p, vr_id = ready_id\<rparr>);
             if err = FOS_E_SUCCESS then do {
               (_, _, w) \<leftarrow> li_pop_iter IW w;
               Some (err, \<lparr>vwq_wait_q = w, vwq_ready_q = r\<rparr>) }
             else Some (err, \<lparr>vwq_wait_q = w, vwq_ready_q = r\<rparr>) }
           else do {
             (iter, w) \<leftarrow> li_next_iter IW w;
             vwq_first_loop IW IR al ready_id w r iter }))"

partial_function (option) vwq_all_loop ::
  "('lw, 'i vwq_wait_pair) list_impl \<Rightarrow> ('lr, 'i vwq_ready_pair) list_impl \<Rightarrow> allocator \<Rightarrow> nat \<Rightarrow>
   'lw \<Rightarrow> 'lr \<Rightarrow> 'i vwq_wait_pair option \<Rightarrow> (fernos_error \<times> ('lw, 'lr) vwq) option"
where
  "vwq_all_loop IW IR al ready_id w r iter =
     (case iter of
        None \<Rightarrow> Some (FOS_E_SUCCESS, \<lparr>vwq_wait_q = w, vwq_ready_q = r\<rparr>)
      | Some p \<Rightarrow>
          (if vwq_accepts ready_id p then do {
             (err, r) \<leftarrow> l_push_back IR al r (Some \<lparr>vr_item = vw_item p, vr_id = ready_id\<rparr>);
             if err = FOS_E_SUCCESS then do {
               (_, _, w) \<leftarrow> li_pop_iter IW w;
               iter \<leftarrow> li_get_iter IW w;
               vwq_all_loop IW IR al ready_id w r iter }
             else Some (err, \<lparr>vwq_wait_q = w, vwq_ready_q = r\<rparr>) }
           else do {
             (iter, w) \<leftarrow> li_next_iter IW w;
             vwq_all_loop IW IR al ready_id w r iter }))"

definition vwq_notify ::
  "('lw, 'i vwq_wait_pair) list_impl \<Rightarrow> ('lr, 'i vwq_ready_pair) list_impl \<Rightarrow> allocator \<Rightarrow>
   ('lw, 'lr) vwq \<Rightarrow> nat \<Rightarrow> nat \<Rightarrow> (fernos_error \<times> ('lw, 'lr) vwq) option"
where
  "vwq_notify IW IR al q ready_id mode =
     (if 32 \<le> ready_id then Some (FOS_E_BAD_ARGS, q)
      else if mode = VWQ_NOTIFY_FIRST then do {
        let w = li_reset_iter IW (vwq_wait_q q);
        iter \<leftarrow> li_get_iter IW w;
        vwq_first_loop IW IR al ready_id w (vwq_ready_q q) iter }
      else if mode = VWQ_NOTIFY_ALL then do {
        let w = li_reset_iter IW (vwq_wait_q q);
        iter \<leftarrow> li_get_iter IW w;
        vwq_all_loop IW IR al ready_id w (vwq_ready_q q) iter }
      else Some (FOS_E_SUCCESS, q))"

text \<open>The result holds what \<^verbatim>\<open>*item\<close> and \<^verbatim>\<open>*ready_id\<close> contain after the call.\<close>

definition vwq_pop ::
  "('lr, 'i vwq_ready_pair) list_impl \<Rightarrow> ('lw, 'lr) vwq \<Rightarrow>
   (fernos_error \<times> 'i option \<times> nat \<times> ('lw, 'lr) vwq) option"
where
  "vwq_pop IR q =
     (if 0 < li_get_len IR (vwq_ready_q q) then do {
        (_, rp, r) \<leftarrow> l_pop_front IR (vwq_ready_q q);
        Some (FOS_E_SUCCESS, map_option vr_item rp,
          case rp of None \<Rightarrow> VWQ_NULL_READY_ID | Some p \<Rightarrow> vr_id p, q\<lparr>vwq_ready_q := r\<rparr>) }
      else Some (FOS_E_EMPTY, None, VWQ_NULL_READY_ID, q))"

definition vwq_remove ::
  "('lw, 'i vwq_wait_pair) list_impl \<Rightarrow> ('lr, 'i vwq_ready_pair) list_impl \<Rightarrow>
   ('lw, 'lr) vwq \<Rightarrow> 'i \<Rightarrow> ('lw, 'lr) vwq option"
where
  "vwq_remove IW IR q item = do {
     w \<leftarrow> wq_l_remove IW (\<lambda>p. vw_item p = item) (vwq_wait_q q);
     r \<leftarrow> wq_l_remove IR (\<lambda>p. vr_item p = item) (vwq_ready_q q);
     Some \<lparr>vwq_wait_q = w, vwq_ready_q = r\<rparr> }"

section \<open>Correctness over any pair of lists\<close>

lemma vwq_accepts_bit: "ready_id < 32 \<Longrightarrow> vwq_accepts ready_id p \<longleftrightarrow> bit (vw_mask p) ready_id"
  by (simp add: vwq_accepts_def push_bit_of_1 and_exp_eq_0_iff_not_bit)

text \<open>The ready entries that an event produces, and what stays waiting.\<close>

definition vwq_ready :: "nat \<Rightarrow> 'i vwq_wait_pair \<Rightarrow> 'i vwq_ready_pair" where
  "vwq_ready ready_id p = \<lparr>vr_item = vw_item p, vr_id = ready_id\<rparr>"

definition vwq_rep ::
  "('lw \<Rightarrow> 'i vwq_wait_pair list \<Rightarrow> bool) \<Rightarrow> ('lr \<Rightarrow> 'i vwq_ready_pair list \<Rightarrow> bool) \<Rightarrow>
   ('lw, 'lr) vwq \<Rightarrow> 'i vwq_wait_pair list \<Rightarrow> 'i vwq_ready_pair list \<Rightarrow> bool"
where
  "vwq_rep winv rinv q ws rs \<longleftrightarrow> winv (vwq_wait_q q) ws \<and> rinv (vwq_ready_q q) rs"

locale vector_queue_pair = queue_pair IW winv wit IR rinv rit
  for IW :: "('lw, 'i vwq_wait_pair) list_impl" and winv and wit
    and IR :: "('lr, 'i vwq_ready_pair) list_impl" and rinv and rit
begin

lemma vwq_enqueue_rep:
  assumes "vwq_rep winv rinv q ws rs" and "alloc_ok al" and "m \<noteq> 0"
  shows "(\<exists>q'. vwq_enqueue IW al q x m = Some (FOS_E_SUCCESS, q')
      \<and> vwq_rep winv rinv q' (ws @ [\<lparr>vw_item = x, vw_mask = m\<rparr>]) rs)
    \<or> oom al \<and> vwq_enqueue IW al q x m = Some (FOS_E_NO_MEM, q)"
  using w.push_back [of "vwq_wait_q q" ws al "\<lparr>vw_item = x, vw_mask = m\<rparr>"] assms
  by (fastforce simp: vwq_rep_def vwq_enqueue_def)

lemma vwq_first_loop_rep:
  fixes i :: nat
  assumes "wit w ws k" and "rinv r rs" and "alloc_ok al"
  defines "a \<equiv> vwq_accepts i"
  shows "\<exists>e q'. vwq_first_loop IW IR al i w r (elem_at ws k) = Some (e, q')
    \<and> (e = FOS_E_SUCCESS
        \<and> vwq_rep winv rinv q'
            (take k ws @ takeWhile (\<lambda>p. \<not> a p) (drop k ws) @ tl (dropWhile (\<lambda>p. \<not> a p) (drop k ws)))
            (rs @ map (vwq_ready i) (take 1 (filter a (drop k ws))))
       \<or> e = FOS_E_NO_MEM \<and> oom al \<and> (\<exists>p\<in>set (drop k ws). a p) \<and> vwq_rep winv rinv q' ws rs)"
  using assms(1-3)
proof (induction "length ws - k" arbitrary: w k)
  case 0
  then have "k = length ws" using w.it_inv by fastforce
  then show ?case using w.it_inv 0 by (subst vwq_first_loop.simps) (auto simp: vwq_rep_def)
next
  case (Suc m)
  then have k: "k < length ws" by linarith
  then have d: "drop k ws = ws ! k # drop (Suc k) ws" by (simp add: Cons_nth_drop_Suc)
  show ?case
  proof (cases "a (ws ! k)")
    case True
    let ?p = "\<lparr>vr_item = vw_item (ws ! k), vr_id = i\<rparr>"
    obtain w1 where w1: "li_pop_iter IW w = Some (FOS_E_SUCCESS, Some (ws ! k), w1)"
      "wit w1 (remove_at k ws) k" using w.pop_iter [OF Suc.prems(1) k] by blast
    from r.push_back [OF Suc.prems(2,3), of ?p] show ?thesis
    proof
      assume "oom al \<and> l_push_back IR al r (Some ?p) = Some (FOS_E_NO_MEM, r)"
      then show ?thesis using k True d w.it_inv [OF Suc.prems(1)] Suc.prems(2)
        by (subst vwq_first_loop.simps) (auto simp: a_def vwq_rep_def)
    next
      assume "\<exists>r'. l_push_back IR al r (Some ?p) = Some (FOS_E_SUCCESS, r') \<and> rinv r' (rs @ [?p])"
      then show ?thesis using k True d w1 w.it_inv [OF w1(2)]
        by (subst vwq_first_loop.simps) (auto simp: a_def vwq_rep_def vwq_ready_def remove_at_def)
    qed
  next
    case False
    obtain w1 where w1: "li_next_iter IW w = Some (elem_at ws (Suc k), w1)" "wit w1 ws (Suc k)"
      using w.next_iter [OF Suc.prems(1)] k by (auto simp: min_def Suc_le_eq)
    have "m = length ws - Suc k" using Suc.hyps(2) by simp
    from Suc.hyps(1) [OF this w1(2) Suc.prems(2,3)] show ?thesis
      using k False w1 d
      by (subst vwq_first_loop.simps) (simp add: a_def take_Suc_conv_app_nth)
  qed
qed

lemma vwq_all_loop_rep:
  fixes i :: nat
  assumes "wit w ws k" and "rinv r rs" and "alloc_ok al"
  defines "a \<equiv> vwq_accepts i"
  shows "\<exists>n e q'. vwq_all_loop IW IR al i w r (elem_at ws k) = Some (e, q')
    \<and> vwq_rep winv rinv q'
        (take k ws @ filter (\<lambda>p. \<not> a p) (take n (drop k ws)) @ drop n (drop k ws))
        (rs @ map (vwq_ready i) (filter a (take n (drop k ws))))
    \<and> (e = FOS_E_SUCCESS \<and> n = length ws - k
       \<or> e = FOS_E_NO_MEM \<and> oom al \<and> n < length ws - k \<and> a (drop k ws ! n))"
  using assms(1-3)
proof (induction "length ws - k" arbitrary: w ws k r rs)
  case 0
  then have "k = length ws" using w.it_inv by fastforce
  then show ?case using w.it_inv 0 by (subst vwq_all_loop.simps) (auto simp: vwq_rep_def)
next
  case (Suc m)
  then have k: "k < length ws" by linarith
  then have d: "drop k ws = ws ! k # drop (Suc k) ws" by (simp add: Cons_nth_drop_Suc)
  show ?case
  proof (cases "a (ws ! k)")
    case True
    let ?p = "\<lparr>vr_item = vw_item (ws ! k), vr_id = i\<rparr>"
    let ?ws = "remove_at k ws"
    obtain w1 where w1: "li_pop_iter IW w = Some (FOS_E_SUCCESS, Some (ws ! k), w1)"
      "wit w1 ?ws k" using w.pop_iter [OF Suc.prems(1) k] by blast
    have dr: "drop k ?ws = drop (Suc k) ws" "take k ?ws = take k ws" "length ?ws = length ws - 1"
      using k by (simp_all add: remove_at_def)
    from r.push_back [OF Suc.prems(2,3), of ?p] show ?thesis
    proof
      assume "oom al \<and> l_push_back IR al r (Some ?p) = Some (FOS_E_NO_MEM, r)"
      then show ?thesis using k True d w.it_inv [OF Suc.prems(1)] Suc.prems(2)
        by (subst vwq_all_loop.simps)
          (auto simp: a_def vwq_rep_def id_take_nth_drop [symmetric] intro!: exI [of _ "0::nat"])
    next
      assume "\<exists>r'. l_push_back IR al r (Some ?p) = Some (FOS_E_SUCCESS, r') \<and> rinv r' (rs @ [?p])"
      then obtain r1 where r1: "l_push_back IR al r (Some ?p) = Some (FOS_E_SUCCESS, r1)"
        "rinv r1 (rs @ [?p])" by blast
      have "m = length ?ws - k" using Suc.hyps(2) dr by simp
      from Suc.hyps(1) [OF this w1(2) r1(2) Suc.prems(3)] obtain n e q' where
        "vwq_all_loop IW IR al i w1 r1 (elem_at ?ws k) = Some (e, q')"
        "vwq_rep winv rinv q'
          (take k ws @ filter (\<lambda>p. \<not> a p) (take n (drop (Suc k) ws)) @ drop n (drop (Suc k) ws))
          (rs @ ?p # map (vwq_ready i) (filter a (take n (drop (Suc k) ws))))"
        "e = FOS_E_SUCCESS \<and> n = length ws - Suc k
         \<or> e = FOS_E_NO_MEM \<and> oom al \<and> n < length ws - Suc k \<and> a (drop (Suc k) ws ! n)"
        unfolding dr by auto
      then show ?thesis
        using k True w1 r1(1) d
        by (subst vwq_all_loop.simps)
          (auto simp: a_def vwq_ready_def w.get_iter [OF w1(2)] intro!: exI [of _ "Suc n"])
    qed
  next
    case False
    obtain w1 where w1: "li_next_iter IW w = Some (elem_at ws (Suc k), w1)" "wit w1 ws (Suc k)"
      using w.next_iter [OF Suc.prems(1)] k by (auto simp: min_def Suc_le_eq)
    have "m = length ws - Suc k" using Suc.hyps(2) by simp
    from Suc.hyps(1) [OF this w1(2) Suc.prems(2,3)] obtain n e q' where
      "vwq_all_loop IW IR al i w1 r (elem_at ws (Suc k)) = Some (e, q')"
      "vwq_rep winv rinv q'
        (take (Suc k) ws @ filter (\<lambda>p. \<not> a p) (take n (drop (Suc k) ws)) @ drop n (drop (Suc k) ws))
        (rs @ map (vwq_ready i) (filter a (take n (drop (Suc k) ws))))"
      "e = FOS_E_SUCCESS \<and> n = length ws - Suc k
       \<or> e = FOS_E_NO_MEM \<and> oom al \<and> n < length ws - Suc k \<and> a (drop (Suc k) ws ! n)" by blast
    then show ?thesis
      using k False w1(1) d
      by (subst vwq_all_loop.simps)
        (auto simp: a_def take_Suc_conv_app_nth intro!: exI [of _ "Suc n"])
  qed
qed

text \<open>Notify-first wakes the oldest item that accepts the event, and touches no other.\<close>

lemma vwq_notify_first_rep:
  fixes i :: nat
  assumes "vwq_rep winv rinv q ws rs" and "alloc_ok al" and "i < 32"
  defines "a \<equiv> vwq_accepts i"
  shows "\<exists>e q'. vwq_notify IW IR al q i VWQ_NOTIFY_FIRST = Some (e, q')
    \<and> (e = FOS_E_SUCCESS
        \<and> vwq_rep winv rinv q' (takeWhile (\<lambda>p. \<not> a p) ws @ tl (dropWhile (\<lambda>p. \<not> a p) ws))
            (rs @ map (vwq_ready i) (take 1 (filter a ws)))
       \<or> e = FOS_E_NO_MEM \<and> oom al \<and> (\<exists>p\<in>set ws. a p) \<and> vwq_rep winv rinv q' ws rs)"
  using vwq_first_loop_rep [OF w.reset, of "vwq_wait_q q" ws "vwq_ready_q q" rs al i] assms
    w.get_iter [OF w.reset, of "vwq_wait_q q" ws]
  by (simp add: vwq_notify_def vwq_rep_def Let_def)

text \<open>Notify-all wakes every item that accepts the event, oldest first.\<close>

lemma vwq_notify_all_rep:
  fixes i :: nat
  assumes "vwq_rep winv rinv q ws rs" and "alloc_ok al" and "i < 32"
  defines "a \<equiv> vwq_accepts i"
  shows "\<exists>n e q'. vwq_notify IW IR al q i VWQ_NOTIFY_ALL = Some (e, q')
    \<and> vwq_rep winv rinv q' (filter (\<lambda>p. \<not> a p) (take n ws) @ drop n ws)
        (rs @ map (vwq_ready i) (filter a (take n ws)))
    \<and> (e = FOS_E_SUCCESS \<and> n = length ws \<or> e = FOS_E_NO_MEM \<and> oom al \<and> n < length ws \<and> a (ws ! n))"
  using vwq_all_loop_rep [OF w.reset, of "vwq_wait_q q" ws "vwq_ready_q q" rs al i] assms
    w.get_iter [OF w.reset, of "vwq_wait_q q" ws]
  by (simp add: vwq_notify_def vwq_rep_def Let_def)

lemma vwq_pop_rep:
  assumes "vwq_rep winv rinv q ws rs"
  shows "case rs of
      [] \<Rightarrow> vwq_pop IR q = Some (FOS_E_EMPTY, None, VWQ_NULL_READY_ID, q)
    | p # rs' \<Rightarrow> \<exists>q'. vwq_pop IR q = Some (FOS_E_SUCCESS, Some (vr_item p), vr_id p, q')
        \<and> vwq_rep winv rinv q' ws rs'"
  using assms r.pop_front [of "vwq_ready_q q" "hd rs" "tl rs"] r.len [of "vwq_ready_q q" rs]
  by (auto simp: vwq_rep_def vwq_pop_def split: list.split)

lemma vwq_remove_rep:
  assumes "vwq_rep winv rinv q ws rs"
  shows "\<exists>q'. vwq_remove IW IR q x = Some q'
    \<and> vwq_rep winv rinv q' (filter (\<lambda>p. vw_item p \<noteq> x) ws) (filter (\<lambda>p. vr_item p \<noteq> x) rs)"
  using assms w.wq_l_remove_inv [of "vwq_wait_q q" ws "\<lambda>p. vw_item p = x"]
    r.wq_l_remove_inv [of "vwq_ready_q q" rs "\<lambda>p. vr_item p = x"]
  by (auto simp: vwq_rep_def vwq_remove_def)

end

section \<open>On the linked list\<close>

interpretation ll_vector: vector_queue_pair LL_IMPL ll_inv ll_inv_it LL_IMPL ll_inv ll_inv_it ..

lemma vwq_accepts_fun: "i < 32 \<Longrightarrow> vwq_accepts i = (\<lambda>p. bit (vw_mask p) i)"
  by (rule ext) (rule vwq_accepts_bit)

section \<open>The promises of the vector wait queue\<close>

text \<open>C30. An event wakes exactly the waiters whose mask has its bit: with notify-all each of them
  moves to the ready list in arrival order, tagged with the event, and no other waiter moves; when
  memory runs out this holds up to the waiter that could not be moved.\<close>

theorem vwq_notify_all_spec:
  fixes i :: nat
  assumes "vwq_rep ll_inv ll_inv q ws rs" and "alloc_ok al" and "i < 32"
  shows "\<exists>n e q'. vwq_notify LL_IMPL LL_IMPL al q i VWQ_NOTIFY_ALL = Some (e, q')
    \<and> vwq_rep ll_inv ll_inv q' (filter (\<lambda>p. \<not> bit (vw_mask p) i) (take n ws) @ drop n ws)
        (rs @ map (vwq_ready i) (filter (\<lambda>p. bit (vw_mask p) i) (take n ws)))
    \<and> (e = FOS_E_SUCCESS \<and> n = length ws
       \<or> e = FOS_E_NO_MEM \<and> oom al \<and> n < length ws \<and> bit (vw_mask (ws ! n)) i)"
  using ll_vector.vwq_notify_all_rep [OF assms] by (simp only: vwq_accepts_fun [OF assms(3)])

theorem vwq_notify_all_spec_witness:
  "\<exists>q'. vwq_notify LL_IMPL LL_IMPL bump_alloc
      \<lparr>vwq_wait_q = ll_two \<lparr>vw_item = 5, vw_mask = 1\<rparr> \<lparr>vw_item = 6, vw_mask = 2\<rparr>, vwq_ready_q = ll_none\<rparr>
      1 VWQ_NOTIFY_ALL = Some (FOS_E_SUCCESS, q')
    \<and> vwq_rep ll_inv ll_inv q' [\<lparr>vw_item = 5, vw_mask = 1\<rparr>] [\<lparr>vr_item = 6 :: nat, vr_id = 1\<rparr>]"
  using vwq_notify_all_spec [of "\<lparr>vwq_wait_q = ll_two \<lparr>vw_item = 5, vw_mask = 1\<rparr> \<lparr>vw_item = 6, vw_mask = 2\<rparr>,
      vwq_ready_q = ll_none\<rparr>" "[\<lparr>vw_item = 5 :: nat, vw_mask = 1\<rparr>, \<lparr>vw_item = 6, vw_mask = 2\<rparr>]" "[]" bump_alloc 1]
  by (auto simp: vwq_rep_def ll_two_inv ll_none_inv vwq_ready_def bit_simps)

text \<open>Notify-first wakes only the oldest waiter that accepts the event.\<close>

theorem vwq_notify_first_spec:
  fixes i :: nat
  assumes "vwq_rep ll_inv ll_inv q ws rs" and "alloc_ok al" and "i < 32"
  shows "\<exists>e q'. vwq_notify LL_IMPL LL_IMPL al q i VWQ_NOTIFY_FIRST = Some (e, q')
    \<and> (e = FOS_E_SUCCESS
        \<and> vwq_rep ll_inv ll_inv q'
            (takeWhile (\<lambda>p. \<not> bit (vw_mask p) i) ws @ tl (dropWhile (\<lambda>p. \<not> bit (vw_mask p) i) ws))
            (rs @ map (vwq_ready i) (take 1 (filter (\<lambda>p. bit (vw_mask p) i) ws)))
       \<or> e = FOS_E_NO_MEM \<and> oom al \<and> (\<exists>p\<in>set ws. bit (vw_mask p) i) \<and> vwq_rep ll_inv ll_inv q' ws rs)"
  using ll_vector.vwq_notify_first_rep [OF assms] by (simp only: vwq_accepts_fun [OF assms(3)])

theorem vwq_notify_first_spec_witness:
  "\<exists>q'. vwq_notify LL_IMPL LL_IMPL bump_alloc
      \<lparr>vwq_wait_q = ll_two \<lparr>vw_item = 5, vw_mask = 2\<rparr> \<lparr>vw_item = 6, vw_mask = 2\<rparr>, vwq_ready_q = ll_none\<rparr>
      1 VWQ_NOTIFY_FIRST = Some (FOS_E_SUCCESS, q')
    \<and> vwq_rep ll_inv ll_inv q' [\<lparr>vw_item = 6, vw_mask = 2\<rparr>] [\<lparr>vr_item = 5 :: nat, vr_id = 1\<rparr>]"
  using vwq_notify_first_spec [of "\<lparr>vwq_wait_q = ll_two \<lparr>vw_item = 5, vw_mask = 2\<rparr> \<lparr>vw_item = 6, vw_mask = 2\<rparr>,
      vwq_ready_q = ll_none\<rparr>" "[\<lparr>vw_item = 5 :: nat, vw_mask = 2\<rparr>, \<lparr>vw_item = 6, vw_mask = 2\<rparr>]" "[]" bump_alloc 1]
  by (auto simp: vwq_rep_def ll_two_inv ll_none_inv vwq_ready_def bit_simps)

end
