(* ===== verification/Timed_Wait_Queue.thy ===== *)
theory Timed_Wait_Queue imports Basic_Wait_Queue begin

text \<open>
  The timed wait queue of \<^verbatim>\<open>src/src/s_data/src/wait_queue.c\<close>, which holds the sleeping
  threads of the kernel.  Times are 32-bit words that wrap around; the waiting list is
  kept in the order in which the items will wake up, counted from the queue's own time.
\<close>

section \<open>State and operations\<close>

record 'i twq_wait_pair =
  tw_item :: 'i
  tw_wake_time :: "32 word"

record ('lw, 'lr) twq =
  twq_time :: "32 word"
  twq_wait_q :: 'lw
  twq_ready_q :: 'lr

definition new_timed_wait_queue :: "bool \<Rightarrow> 'lw option \<Rightarrow> 'lr option \<Rightarrow> ('lw, 'lr) twq option" where
  "new_timed_wait_queue hdr wq rq =
     (case (hdr, wq, rq) of
        (True, Some w, Some r) \<Rightarrow> Some \<lparr>twq_time = 0, twq_wait_q = w, twq_ready_q = r\<rparr>
      | _ \<Rightarrow> None)"

definition abs_wait_time :: "32 word \<Rightarrow> 32 word \<Rightarrow> 32 word" where
  "abs_wait_time curr_time wake_time =
     (if curr_time \<le> wake_time then wake_time - curr_time
      else (0xFFFFFFFF - curr_time) + 1 + wake_time)"

partial_function (option) twq_insert_loop ::
  "('lw, 'i twq_wait_pair) list_impl \<Rightarrow> allocator \<Rightarrow> 32 word \<Rightarrow> 'i twq_wait_pair \<Rightarrow> 'lw \<Rightarrow>
   'i twq_wait_pair option \<Rightarrow> (fernos_error \<times> 'lw) option"
where
  "twq_insert_loop IW al now np w iter =
     (case iter of
        None \<Rightarrow> l_push_back IW al w (Some np)
      | Some p \<Rightarrow>
          (if abs_wait_time now (tw_wake_time np) < abs_wait_time now (tw_wake_time p)
           then li_push_before_iter IW al w (Some np)
           else do {
             (iter, w) \<leftarrow> li_next_iter IW w;
             twq_insert_loop IW al now np w iter }))"

definition twq_enqueue ::
  "('lw, 'i twq_wait_pair) list_impl \<Rightarrow> ('lr, 'i) list_impl \<Rightarrow> allocator \<Rightarrow> ('lw, 'lr) twq \<Rightarrow> 'i \<Rightarrow>
   32 word \<Rightarrow> (fernos_error \<times> ('lw, 'lr) twq) option"
where
  "twq_enqueue IW IR al q item wt =
     (if wt = twq_time q then do {
        (err, r) \<leftarrow> l_push_back IR al (twq_ready_q q) (Some item);
        Some (err, q\<lparr>twq_ready_q := r\<rparr>) }
      else do {
        let w = li_reset_iter IW (twq_wait_q q);
        iter \<leftarrow> li_get_iter IW w;
        (err, w) \<leftarrow> twq_insert_loop IW al (twq_time q) \<lparr>tw_item = item, tw_wake_time = wt\<rparr> w iter;
        Some (err, q\<lparr>twq_wait_q := w\<rparr>) })"

partial_function (option) twq_notify_loop ::
  "('lw, 'i twq_wait_pair) list_impl \<Rightarrow> ('lr, 'i) list_impl \<Rightarrow> allocator \<Rightarrow> 32 word \<Rightarrow> 32 word \<Rightarrow>
   'lw \<Rightarrow> 'lr \<Rightarrow> (fernos_error \<times> 'lw \<times> 'lr) option"
where
  "twq_notify_loop IW IR al now ticks_passed w r =
     (if 0 < li_get_len IW w then do {
        ptr \<leftarrow> li_get_ptr IW w 0;
        head \<leftarrow> ptr;
        if abs_wait_time now (tw_wake_time head) \<le> ticks_passed then do {
          (err, r) \<leftarrow> l_push_back IR al r (Some (tw_item head));
          if err \<noteq> FOS_E_SUCCESS then Some (err, w, r)
          else do {
            (_, _, w) \<leftarrow> l_pop_front IW w;
            twq_notify_loop IW IR al now ticks_passed w r } }
        else Some (FOS_E_SUCCESS, w, r) }
      else Some (FOS_E_SUCCESS, w, r))"

definition twq_notify ::
  "('lw, 'i twq_wait_pair) list_impl \<Rightarrow> ('lr, 'i) list_impl \<Rightarrow> allocator \<Rightarrow> ('lw, 'lr) twq \<Rightarrow>
   32 word \<Rightarrow> (fernos_error \<times> ('lw, 'lr) twq) option"
where
  "twq_notify IW IR al q curr_time = do {
     let ticks_passed = abs_wait_time (twq_time q) curr_time;
     (err, w, r) \<leftarrow> twq_notify_loop IW IR al (twq_time q) ticks_passed (twq_wait_q q) (twq_ready_q q);
     Some (err, \<lparr>twq_time = curr_time, twq_wait_q = w, twq_ready_q = r\<rparr>) }"

text \<open>
  \<open>old\<close> is what \<^verbatim>\<open>*item\<close> holds before the call, the middle component of the result what
  it holds afterwards.
\<close>

definition twq_pop ::
  "('lr, 'i) list_impl \<Rightarrow> ('lw, 'lr) twq \<Rightarrow> 'i option \<Rightarrow>
   (fernos_error \<times> 'i option \<times> ('lw, 'lr) twq) option"
where
  "twq_pop IR q old =
     (if li_get_len IR (twq_ready_q q) = 0 then Some (FOS_E_EMPTY, old, q)
      else do {
        (_, item, r) \<leftarrow> l_pop_front IR (twq_ready_q q);
        Some (FOS_E_SUCCESS, item, q\<lparr>twq_ready_q := r\<rparr>) })"

definition twq_remove ::
  "('lw, 'i twq_wait_pair) list_impl \<Rightarrow> ('lr, 'i) list_impl \<Rightarrow> ('lw, 'lr) twq \<Rightarrow> 'i \<Rightarrow>
   ('lw, 'lr) twq option"
where
  "twq_remove IW IR q item = do {
     w \<leftarrow> wq_l_remove IW (\<lambda>p. tw_item p = item) (twq_wait_q q);
     r \<leftarrow> wq_l_remove IR (\<lambda>i. i = item) (twq_ready_q q);
     Some (q\<lparr>twq_wait_q := w, twq_ready_q := r\<rparr>) }"

section \<open>Time that wraps around\<close>

lemma abs_wait_time_eq: "abs_wait_time c w = w - c"
proof -
  have "(0xFFFFFFFF :: 32 word) = - 1" by simp
  then show ?thesis by (simp add: abs_wait_time_def)
qed

text \<open>The ticks an item still has to wait, as a number.\<close>

definition ticks_left :: "32 word \<Rightarrow> 'i twq_wait_pair \<Rightarrow> nat" where
  "ticks_left now p = unat (tw_wake_time p - now)"

lemma ticks_left_later:
  assumes "unat (t - now) \<le> ticks_left now p"
  shows "ticks_left t p = ticks_left now p - unat (t - now)"
proof -
  have "tw_wake_time p - t = (tw_wake_time p - now) - (t - now)" by simp
  moreover have "t - now \<le> tw_wake_time p - now"
    using assms by (simp add: word_le_nat_alt ticks_left_def)
  ultimately show ?thesis
    by (simp only: ticks_left_def unat_sub)
qed

text \<open>The order of the waiting list: soonest first, and nobody is due already.\<close>

definition twq_ordered :: "32 word \<Rightarrow> 'i twq_wait_pair list \<Rightarrow> bool" where
  "twq_ordered now ws \<longleftrightarrow> sorted (map (ticks_left now) ws) \<and> (\<forall>p\<in>set ws. 0 < ticks_left now p)"

definition due :: "32 word \<Rightarrow> 32 word \<Rightarrow> 'i twq_wait_pair \<Rightarrow> bool" where
  "due now t p \<longleftrightarrow> ticks_left now p \<le> unat (t - now)"

lemma abs_wait_due: "abs_wait_time now (tw_wake_time p) \<le> abs_wait_time now t \<longleftrightarrow> due now t p"
  by (simp add: abs_wait_time_eq due_def ticks_left_def word_le_nat_alt)

lemma abs_wait_less:
  "abs_wait_time now (tw_wake_time p) < abs_wait_time now (tw_wake_time p') \<longleftrightarrow>
   ticks_left now p < ticks_left now p'"
  by (simp add: abs_wait_time_eq ticks_left_def word_less_nat_alt)

lemma sorted_map_split_le:
  assumes "sorted (map f xs)"
  shows "takeWhile (\<lambda>x. f x \<le> (b::nat)) xs = filter (\<lambda>x. f x \<le> b) xs"
    and "dropWhile (\<lambda>x. f x \<le> b) xs = filter (\<lambda>x. b < f x) xs"
proof -
  have "takeWhile (\<lambda>x. f x \<le> b) xs = filter (\<lambda>x. f x \<le> b) xs
    \<and> dropWhile (\<lambda>x. f x \<le> b) xs = filter (\<lambda>x. b < f x) xs"
    using assms
  proof (induction xs)
    case (Cons x xs)
    show ?case
    proof (cases "f x \<le> b")
      case True
      then show ?thesis using Cons by (simp add: not_less)
    next
      case False
      then have "\<forall>y\<in>set xs. b < f y" using Cons.prems by auto
      then have "filter (\<lambda>x. f x \<le> b) xs = []" "filter (\<lambda>x. b < f x) xs = xs"
        by (simp_all add: not_le filter_id_conv)
      then show ?thesis using False by simp
    qed
  qed simp
  then show "takeWhile (\<lambda>x. f x \<le> b) xs = filter (\<lambda>x. f x \<le> b) xs"
    and "dropWhile (\<lambda>x. f x \<le> b) xs = filter (\<lambda>x. b < f x) xs" by simp_all
qed

lemma ticks_left_positive: "0 < ticks_left now p \<longleftrightarrow> tw_wake_time p \<noteq> now"
  by (simp add: ticks_left_def unat_gt_0)

text \<open>What is left after a notify is ordered from the new time on.\<close>

lemma twq_ordered_later:
  assumes "twq_ordered now ws"
  shows "twq_ordered t (filter (\<lambda>p. \<not> due now t p) ws)"
proof -
  let ?ws = "filter (\<lambda>p. \<not> due now t p) ws"
  have later: "ticks_left t p = ticks_left now p - unat (t - now)" "0 < ticks_left t p"
    if "p \<in> set ?ws" for p
    using that ticks_left_later [of t now p] by (auto simp: due_def)
  have "sorted (map (ticks_left now) ?ws)"
    using assms by (simp add: twq_ordered_def sorted_filter)
  then have "sorted (map (\<lambda>p. ticks_left now p - unat (t - now)) ?ws)"
    by (auto simp: sorted_map intro: sorted_wrt_mono_rel [rotated])
  moreover have "map (ticks_left t) ?ws = map (\<lambda>p. ticks_left now p - unat (t - now)) ?ws"
    using later(1) by (rule map_cong [OF refl])
  ultimately show ?thesis
    using later(2) by (simp only: twq_ordered_def)  blast
qed

lemma twq_ordered_insert:
  assumes "twq_ordered now ws" and "tw_wake_time np \<noteq> now"
  shows "twq_ordered now (takeWhile (\<lambda>p. ticks_left now p \<le> ticks_left now np) ws @ np #
    dropWhile (\<lambda>p. ticks_left now p \<le> ticks_left now np) ws)"
  using assms
  by (auto simp: twq_ordered_def sorted_map_split_le sorted_append
      sorted_filter ticks_left_positive)

section \<open>Correctness over any pair of lists\<close>

definition twq_rep ::
  "('lw \<Rightarrow> 'i twq_wait_pair list \<Rightarrow> bool) \<Rightarrow> ('lr \<Rightarrow> 'i list \<Rightarrow> bool) \<Rightarrow>
   ('lw, 'lr) twq \<Rightarrow> 'i twq_wait_pair list \<Rightarrow> 'i list \<Rightarrow> bool"
where
  "twq_rep winv rinv q ws rs \<longleftrightarrow>
     winv (twq_wait_q q) ws \<and> rinv (twq_ready_q q) rs \<and> twq_ordered (twq_time q) ws"

locale timed_queue_pair = queue_pair IW winv wit IR rinv rit
  for IW :: "('lw, 'i twq_wait_pair) list_impl" and winv and wit
    and IR :: "('lr, 'i) list_impl" and rinv and rit
begin

lemma twq_insert_loop_inv:
  fixes now :: "32 word" and np :: "'i twq_wait_pair"
  assumes "wit w ws k" and "alloc_ok al"
  defines "le \<equiv> \<lambda>p. ticks_left now p \<le> ticks_left now np"
  shows "(\<exists>w'. twq_insert_loop IW al now np w (elem_at ws k) = Some (FOS_E_SUCCESS, w')
      \<and> winv w' (take k ws @ takeWhile le (drop k ws) @ np # dropWhile le (drop k ws)))
    \<or> oom al \<and> (\<exists>w'. twq_insert_loop IW al now np w (elem_at ws k) = Some (FOS_E_NO_MEM, w') \<and> winv w' ws)"
  using assms(1-2)
proof (induction "length ws - k" arbitrary: w k)
  case 0
  then have "k = length ws" and "winv w ws" using w.it_inv by fastforce+
  then show ?case
    using w.push_back [of w ws al np] 0 by (subst (1 2) twq_insert_loop.simps) auto
next
  case (Suc m)
  then have k: "k < length ws" by linarith
  then have d: "drop k ws = ws ! k # drop (Suc k) ws" by (simp add: Cons_nth_drop_Suc)
  show ?case
  proof (cases "le (ws ! k)")
    case False
    then have lt: "abs_wait_time now (tw_wake_time np) < abs_wait_time now (tw_wake_time (ws ! k))"
      by (simp add: le_def abs_wait_less)
    then show ?thesis
      using w.before [OF Suc.prems k, of np] k d False w.it_inv [OF Suc.prems(1)] w.it_inv
      by (subst (1 2) twq_insert_loop.simps) (auto simp: insert_at_def)
  next
    case True
    then have ge: "\<not> abs_wait_time now (tw_wake_time np) < abs_wait_time now (tw_wake_time (ws ! k))"
      by (simp add: le_def abs_wait_less)
    obtain w1 where w1: "li_next_iter IW w = Some (elem_at ws (Suc k), w1)" "wit w1 ws (Suc k)"
      using w.next_iter [OF Suc.prems(1)] k by (auto simp: min_def Suc_le_eq)
    have "m = length ws - Suc k" using Suc.hyps(2) by simp
    from Suc.hyps(1) [OF this w1(2) Suc.prems(2)] show ?thesis
      using k True ge w1 d
      by (subst (1 2) twq_insert_loop.simps) (simp add: take_Suc_conv_app_nth)
  qed
qed

text \<open>Enqueueing keeps the order; items with the same wake time keep their arrival order.\<close>

lemma twq_enqueue_rep:
  fixes x :: 'i and wt :: "32 word" and q :: "('lw, 'lr) twq"
  assumes "twq_rep winv rinv q ws rs" and "alloc_ok al"
  defines "np \<equiv> \<lparr>tw_item = x, tw_wake_time = wt\<rparr>"
  defines "le \<equiv> \<lambda>p. ticks_left (twq_time q) p \<le> ticks_left (twq_time q) np"
  shows "\<exists>e q'. twq_enqueue IW IR al q x wt = Some (e, q') \<and> twq_time q' = twq_time q
    \<and> (e = FOS_E_SUCCESS
        \<and> (if wt = twq_time q then twq_rep winv rinv q' ws (rs @ [x])
           else twq_rep winv rinv q' (takeWhile le ws @ np # dropWhile le ws) rs)
       \<or> e = FOS_E_NO_MEM \<and> oom al \<and> twq_rep winv rinv q' ws rs)"
proof (cases "wt = twq_time q")
  case True
  then show ?thesis
    using assms(1) r.push_back [OF _ assms(2), of "twq_ready_q q" rs x]
    by (auto simp: twq_enqueue_def twq_rep_def)
next
  case False
  have ord: "twq_ordered (twq_time q) (takeWhile le ws @ np # dropWhile le ws)"
    unfolding le_def
    by (rule twq_ordered_insert) (use assms(1) False in \<open>simp_all add: twq_rep_def np_def\<close>)
  have inv: "winv (twq_wait_q q) ws" using assms(1) by (simp add: twq_rep_def)
  show ?thesis
    using twq_insert_loop_inv [OF w.reset [OF inv] assms(2), of "twq_time q" np] False assms(1) ord
      w.get_iter [OF w.reset [OF inv]]
    unfolding le_def by (auto simp: twq_enqueue_def twq_rep_def np_def)
qed

lemma twq_notify_loop_inv:
  assumes "winv w ws" and "rinv r rs" and "alloc_ok al"
  shows "\<exists>n e w' r'. twq_notify_loop IW IR al now (abs_wait_time now t) w r = Some (e, w', r')
    \<and> winv w' (drop n ws) \<and> rinv r' (rs @ map tw_item (take n ws))
    \<and> (e = FOS_E_SUCCESS \<and> n = length (takeWhile (due now t) ws)
       \<or> e = FOS_E_NO_MEM \<and> oom al \<and> n < length (takeWhile (due now t) ws))"
  using assms
proof (induction ws arbitrary: w r rs)
  case Nil
  then show ?case using w.len [OF Nil(1)] by (subst twq_notify_loop.simps) simp
next
  case (Cons p ws)
  note len = w.len [OF Cons.prems(1)] and ptr = w.ptr [OF Cons.prems(1), of 0]
  show ?case
  proof (cases "due now t p")
    case False
    then show ?thesis
      using len ptr Cons.prems by (subst twq_notify_loop.simps) (simp add: abs_wait_due)
  next
    case True
    from r.push_back [OF Cons.prems(2,3), of "tw_item p"] show ?thesis
    proof
      assume "oom al \<and> l_push_back IR al r (Some (tw_item p)) = Some (FOS_E_NO_MEM, r)"
      then show ?thesis
        using True len ptr Cons.prems
        by (subst twq_notify_loop.simps) (auto simp: abs_wait_due intro!: exI [of _ "0::nat"])
    next
      assume "\<exists>r'. l_push_back IR al r (Some (tw_item p)) = Some (FOS_E_SUCCESS, r')
        \<and> rinv r' (rs @ [tw_item p])"
      then obtain r1 where r1: "l_push_back IR al r (Some (tw_item p)) = Some (FOS_E_SUCCESS, r1)"
        "rinv r1 (rs @ [tw_item p])" by blast
      obtain w1 where w1: "l_pop_front IW w = Some (FOS_E_SUCCESS, Some p, w1)" "winv w1 ws"
        using w.pop_front [OF Cons.prems(1)] by blast
      from Cons.IH [OF w1(2) r1(2) Cons.prems(3)] obtain n e w' r' where
        "twq_notify_loop IW IR al now (abs_wait_time now t) w1 r1 = Some (e, w', r')"
        "winv w' (drop n ws)" "rinv r' ((rs @ [tw_item p]) @ map tw_item (take n ws))"
        "e = FOS_E_SUCCESS \<and> n = length (takeWhile (due now t) ws)
         \<or> e = FOS_E_NO_MEM \<and> oom al \<and> n < length (takeWhile (due now t) ws)" by blast
      then show ?thesis
        using True len ptr w1(1) r1(1)
        by (subst twq_notify_loop.simps) (auto simp: abs_wait_due intro!: exI [of _ "Suc n"])
    qed
  qed
qed

text \<open>
  A notify at time \<open>t\<close> readies exactly the due items, soonest first, and leaves a queue
  that is ordered from the new time on.
\<close>

lemma twq_notify_rep:
  fixes t :: "32 word" and q :: "('lw, 'lr) twq"
  assumes "twq_rep winv rinv q ws rs" and "alloc_ok al"
  defines "d \<equiv> due (twq_time q) t"
  shows "\<exists>e q'. twq_notify IW IR al q t = Some (e, q') \<and> twq_time q' = t
    \<and> (e = FOS_E_SUCCESS
        \<and> twq_rep winv rinv q' (filter (\<lambda>p. \<not> d p) ws) (rs @ map tw_item (filter d ws))
       \<or> e = FOS_E_NO_MEM \<and> oom al \<and> (\<exists>n < length (filter d ws). winv (twq_wait_q q') (drop n ws)
           \<and> rinv (twq_ready_q q') (rs @ map tw_item (take n ws))))"
proof -
  have s: "sorted (map (ticks_left (twq_time q)) ws)" and ord: "twq_ordered (twq_time q) ws"
    and inv: "winv (twq_wait_q q) ws" "rinv (twq_ready_q q) rs"
    using assms(1) by (simp_all add: twq_rep_def twq_ordered_def)
  have tk: "takeWhile d ws = filter d ws" and dr: "dropWhile d ws = filter (\<lambda>p. \<not> d p) ws"
    using sorted_map_split_le [OF s]
    by (simp_all add: d_def due_def [abs_def] not_le)
  obtain n e w' r' where loop:
    "twq_notify_loop IW IR al (twq_time q) (abs_wait_time (twq_time q) t) (twq_wait_q q) (twq_ready_q q)
      = Some (e, w', r')"
    "winv w' (drop n ws)" "rinv r' (rs @ map tw_item (take n ws))"
    "e = FOS_E_SUCCESS \<and> n = length (takeWhile d ws) \<or> e = FOS_E_NO_MEM \<and> oom al \<and> n < length (takeWhile d ws)"
    using twq_notify_loop_inv [OF inv assms(2), of "twq_time q" t] unfolding d_def by blast
  have "drop (length (takeWhile d ws)) ws = filter (\<lambda>p. \<not> d p) ws"
    "take (length (takeWhile d ws)) ws = filter d ws"
    using dropWhile_eq_drop [of d ws] takeWhile_eq_take [of d ws] by (simp_all add: dr tk)
  moreover have "twq_ordered t (filter (\<lambda>p. \<not> d p) ws)"
    using twq_ordered_later [OF ord] by (simp add: d_def)
  ultimately show ?thesis
    using loop by (auto simp: twq_notify_def twq_rep_def tk)
qed

lemma twq_pop_rep:
  assumes "twq_rep winv rinv q ws rs"
  shows "case rs of
      [] \<Rightarrow> twq_pop IR q old = Some (FOS_E_EMPTY, old, q)
    | x # rs' \<Rightarrow> \<exists>q'. twq_pop IR q old = Some (FOS_E_SUCCESS, Some x, q') \<and> twq_rep winv rinv q' ws rs'"
  using assms r.pop_front [of "twq_ready_q q" "hd rs" "tl rs"] r.len [of "twq_ready_q q" rs]
  by (auto simp: twq_rep_def twq_pop_def split: list.split)

lemma twq_remove_rep:
  assumes "twq_rep winv rinv q ws rs"
  shows "\<exists>q'. twq_remove IW IR q x = Some q'
    \<and> twq_rep winv rinv q' (filter (\<lambda>p. tw_item p \<noteq> x) ws) (removeAll x rs)"
  using assms w.wq_l_remove_inv [of "twq_wait_q q" ws "\<lambda>p. tw_item p = x"]
    r.wq_l_remove_inv [of "twq_ready_q q" rs "\<lambda>i. i = x"]
  by (auto simp: twq_rep_def twq_remove_def removeAll_eq_filter twq_ordered_def sorted_filter)

end

section \<open>On the linked list\<close>

interpretation ll_timed: timed_queue_pair LL_IMPL ll_inv ll_inv_it LL_IMPL ll_inv ll_inv_it ..

section \<open>The promises of the timed wait queue\<close>

text \<open>Two waiters, one on each side of the wrap-around of the clock.\<close>

lemma twq_sample:
  "twq_rep ll_inv ll_inv \<lparr>twq_time = 0xFFFFFFFE,
      twq_wait_q = ll_two \<lparr>tw_item = 5 :: nat, tw_wake_time = 0xFFFFFFFF\<rparr> \<lparr>tw_item = 6, tw_wake_time = 9\<rparr>,
      twq_ready_q = ll_none :: nat linked_list\<rparr>
    [\<lparr>tw_item = 5, tw_wake_time = 0xFFFFFFFF\<rparr>, \<lparr>tw_item = 6, tw_wake_time = 9\<rparr>] []"
  by (simp add: twq_rep_def ll_two_inv ll_none_inv twq_ordered_def ticks_left_def)

text \<open>Enqueueing keeps the waiters sorted by the ticks they have left, counted with the wrap-around of
  the 32-bit clock; a waiter already due goes straight to the ready list, and among equal wake times the
  later arrival stays behind.\<close>

theorem twq_enqueue_spec:
  fixes x :: 'i and wt :: "32 word" and q :: "('i twq_wait_pair linked_list, 'i linked_list) twq"
  assumes "twq_rep ll_inv ll_inv q ws rs" and "alloc_ok al"
  shows "\<exists>e q'. twq_enqueue LL_IMPL LL_IMPL al q x wt = Some (e, q') \<and> twq_time q' = twq_time q
    \<and> (let np = \<lparr>tw_item = x, tw_wake_time = wt\<rparr>;
           le = (\<lambda>p. ticks_left (twq_time q) p \<le> ticks_left (twq_time q) np)
       in e = FOS_E_SUCCESS
        \<and> (if wt = twq_time q then twq_rep ll_inv ll_inv q' ws (rs @ [x])
           else twq_rep ll_inv ll_inv q' (takeWhile le ws @ np # dropWhile le ws) rs)
       \<or> e = FOS_E_NO_MEM \<and> oom al \<and> twq_rep ll_inv ll_inv q' ws rs)"
  unfolding Let_def by (rule ll_timed.twq_enqueue_rep [OF assms])

theorem twq_enqueue_spec_witness:
  "\<exists>q'. twq_enqueue LL_IMPL LL_IMPL bump_alloc
      \<lparr>twq_time = 0xFFFFFFFE, twq_wait_q = ll_two \<lparr>tw_item = 5, tw_wake_time = 0xFFFFFFFF\<rparr> \<lparr>tw_item = 6, tw_wake_time = 9\<rparr>,
        twq_ready_q = ll_none\<rparr> 7 3 = Some (FOS_E_SUCCESS, q')
    \<and> twq_rep ll_inv ll_inv q' [\<lparr>tw_item = 5, tw_wake_time = 0xFFFFFFFF\<rparr>, \<lparr>tw_item = 7, tw_wake_time = 3\<rparr>,
        \<lparr>tw_item = 6 :: nat, tw_wake_time = 9\<rparr>] []"
  using twq_enqueue_spec [OF twq_sample bump_alloc_ok(1), of 7 3] by (auto simp: ticks_left_def)

text \<open>C31. Moving the clock, across the wrap-around too, moves exactly the waiters that came due to the ready
  list, in the order of their wake times, and keeps the others sorted for the new time.\<close>

theorem twq_notify_spec:
  fixes t :: "32 word" and q :: "('i twq_wait_pair linked_list, 'i linked_list) twq"
  assumes "twq_rep ll_inv ll_inv q ws rs" and "alloc_ok al"
  shows "\<exists>e q'. twq_notify LL_IMPL LL_IMPL al q t = Some (e, q') \<and> twq_time q' = t
    \<and> (e = FOS_E_SUCCESS
        \<and> twq_rep ll_inv ll_inv q' (filter (\<lambda>p. \<not> due (twq_time q) t p) ws)
            (rs @ map tw_item (filter (due (twq_time q) t) ws))
       \<or> e = FOS_E_NO_MEM \<and> oom al \<and> (\<exists>n < length (filter (due (twq_time q) t) ws).
           ll_inv (twq_wait_q q') (drop n ws) \<and> ll_inv (twq_ready_q q') (rs @ map tw_item (take n ws))))"
  by (rule ll_timed.twq_notify_rep [OF assms])

theorem twq_notify_spec_witness:
  "\<exists>q'. twq_notify LL_IMPL LL_IMPL bump_alloc
      \<lparr>twq_time = 0xFFFFFFFE, twq_wait_q = ll_two \<lparr>tw_item = 5, tw_wake_time = 0xFFFFFFFF\<rparr> \<lparr>tw_item = 6, tw_wake_time = 9\<rparr>,
        twq_ready_q = ll_none\<rparr> 2 = Some (FOS_E_SUCCESS, q')
    \<and> twq_rep ll_inv ll_inv q' [\<lparr>tw_item = 6, tw_wake_time = 9\<rparr>] [5 :: nat]"
  using twq_notify_spec [OF twq_sample bump_alloc_ok(1), of 2] by (auto simp: due_def ticks_left_def)

end
