(* ===== verification/Id_Table.thy ===== *)
theory Id_Table imports Fern_Prelude begin

text \<open>
  The ID table of \<^verbatim>\<open>src/src/s_data/src/id_table.c\<close>: an array of entries threaded by two
  doubly linked lists of indices, the free and the allocated entries, with the maximum
  capacity standing for NULL.  Processes, threads and handles are numbered by such
  tables.  Ids and capacities are 32-bit unsigned numbers whose wrap-around is written
  out; every access to the array is checked.
\<close>

section \<open>State\<close>

record 'd idtb_entry =
  ie_allocated :: bool
  ie_next :: nat
  ie_prev :: nat
  ie_data :: "'d option"

record 'd id_table =
  idtb_max :: nat
  idtb_cap :: nat
  idtb_al_head :: nat
  idtb_fl_head :: nat
  idtb_tbl :: "'d idtb_entry list"
  idtb_iter :: nat

definition IDTB_STARTING_CAP :: nat where "IDTB_STARTING_CAP = 4"

text \<open>\<^verbatim>\<open>sizeof(id_table_t)\<close> and \<^verbatim>\<open>sizeof(id_table_entry_t)\<close> on the 32-bit target.\<close>

abbreviation (input) "idtb_sizeof \<equiv> (28::nat)"
abbreviation (input) "idtb_entry_sizeof \<equiv> (16::nat)"

definition idtb_null_id :: "'d id_table \<Rightarrow> nat" where
  "idtb_null_id t = idtb_max t"

definition idtb_max_cap :: "'d id_table \<Rightarrow> nat" where
  "idtb_max_cap t = idtb_max t"

definition arr_upd :: "'a list \<Rightarrow> nat \<Rightarrow> ('a \<Rightarrow> 'a) \<Rightarrow> 'a list option" where
  "arr_upd xs i f = do { e \<leftarrow> arr_get xs i; arr_set xs i (f e) }"

lemma arr_upd_in [simp]: "i < length xs \<Longrightarrow> arr_upd xs i f = Some (xs[i := f (xs ! i)])"
  by (simp add: arr_upd_def)

section \<open>Operations\<close>

text \<open>
  \<open>mem b\<close> says whether the allocator can supply \<open>b\<close> bytes; \<open>junk\<close> is the content of
  fresh memory.  Byte counts are computed modulo \<open>2 ^ 32\<close>, as \<^verbatim>\<open>size_t\<close> is.
\<close>

fun idtb_init_entries :: "nat \<Rightarrow> nat \<Rightarrow> 'd idtb_entry list \<Rightarrow> 'd idtb_entry list option" where
  "idtb_init_entries 0 idx tbl = Some tbl"
| "idtb_init_entries (Suc n) idx tbl = do {
     tbl \<leftarrow> arr_set tbl idx \<lparr>ie_allocated = False, ie_next = (idx + 1) mod 2 ^ 32,
       ie_prev = (idx + (2 ^ 32 - 1)) mod 2 ^ 32, ie_data = None\<rparr>;
     idtb_init_entries n (idx + 1) tbl }"

definition new_id_table ::
  "bool \<Rightarrow> (nat \<Rightarrow> bool) \<Rightarrow> 'd idtb_entry \<Rightarrow> nat \<Rightarrow> nat \<Rightarrow> 'd id_table option option"
where
  "new_id_table al_nonnull mem junk junk_iter mc =
     (if mc = 0 \<or> \<not> al_nonnull then Some None
      else if \<not> mem idtb_sizeof then Some None
      else
        let starting_cap = (if mc < IDTB_STARTING_CAP then mc else IDTB_STARTING_CAP) in
        if \<not> mem (idtb_entry_sizeof * starting_cap mod 2 ^ 32) then Some None
        else do {
          tbl \<leftarrow> idtb_init_entries starting_cap 0
            (replicate (idtb_entry_sizeof * starting_cap mod 2 ^ 32 div idtb_entry_sizeof) junk);
          tbl \<leftarrow> arr_upd tbl 0 (\<lambda>e. e\<lparr>ie_prev := mc\<rparr>);
          tbl \<leftarrow> arr_upd tbl (starting_cap - 1) (\<lambda>e. e\<lparr>ie_next := mc\<rparr>);
          Some (Some \<lparr>idtb_max = mc, idtb_cap = starting_cap, idtb_al_head = mc, idtb_fl_head = 0,
            idtb_tbl = tbl, idtb_iter = junk_iter\<rparr>) })"

text \<open>\<^verbatim>\<open>al_realloc\<close> of the table keeps the entries that fit.\<close>

definition idtb_realloc :: "'d idtb_entry \<Rightarrow> nat \<Rightarrow> 'd idtb_entry list \<Rightarrow> 'd idtb_entry list" where
  "idtb_realloc junk bytes tbl =
     take (bytes div idtb_entry_sizeof) tbl
     @ replicate (bytes div idtb_entry_sizeof - length tbl) junk"

definition idtb_resize ::
  "(nat \<Rightarrow> bool) \<Rightarrow> 'd idtb_entry \<Rightarrow> 'd id_table \<Rightarrow> nat \<Rightarrow> (fernos_error \<times> 'd id_table) option"
where
  "idtb_resize mem junk t new_cap =
     (if new_cap \<le> idtb_cap t then Some (FOS_E_SUCCESS, t)
      else if idtb_max t < new_cap then Some (FOS_E_BAD_ARGS, t)
      else if \<not> mem (new_cap * idtb_entry_sizeof mod 2 ^ 32) then Some (FOS_E_NO_MEM, t)
      else do {
        let new_tbl = idtb_realloc junk (new_cap * idtb_entry_sizeof mod 2 ^ 32) (idtb_tbl t);
        new_tbl \<leftarrow> idtb_init_entries (new_cap - idtb_cap t) (idtb_cap t) new_tbl;
        new_tbl \<leftarrow> arr_upd new_tbl (idtb_cap t) (\<lambda>e. e\<lparr>ie_prev := idtb_max t\<rparr>);
        new_tbl \<leftarrow> arr_upd new_tbl (new_cap - 1) (\<lambda>e. e\<lparr>ie_next := idtb_fl_head t\<rparr>);
        new_tbl \<leftarrow> (if idtb_fl_head t \<noteq> idtb_max t
          then arr_upd new_tbl (idtb_fl_head t) (\<lambda>e. e\<lparr>ie_prev := new_cap - 1\<rparr>)
          else Some new_tbl);
        Some (FOS_E_SUCCESS, t\<lparr>idtb_fl_head := idtb_cap t, idtb_cap := new_cap, idtb_tbl := new_tbl\<rparr>) })"

text \<open>
  Taking an entry out of the list with head \<open>h\<close>: the sequence that both
  \<^verbatim>\<open>idtb_request_id\<close> and \<^verbatim>\<open>idtb_push_id\<close> start with; the result holds the new head.
\<close>

definition idtb_unlink ::
  "nat \<Rightarrow> 'd idtb_entry list \<Rightarrow> nat \<Rightarrow> nat \<Rightarrow> ('d idtb_entry list \<times> nat) option"
where
  "idtb_unlink null tbl h idx = do {
     e \<leftarrow> arr_get tbl idx;
     let nxt = ie_next e;
     let prv = ie_prev e;
     tbl \<leftarrow> (if nxt \<noteq> null then arr_upd tbl nxt (\<lambda>e. e\<lparr>ie_prev := prv\<rparr>) else Some tbl);
     if prv \<noteq> null then do {
       tbl \<leftarrow> arr_upd tbl prv (\<lambda>e. e\<lparr>ie_next := nxt\<rparr>);
       Some (tbl, h) }
     else Some (tbl, nxt) }"

text \<open>Placing an entry in front of the list with head \<open>h\<close>.\<close>

definition idtb_link_front ::
  "nat \<Rightarrow> 'd idtb_entry list \<Rightarrow> nat \<Rightarrow> nat \<Rightarrow> 'd idtb_entry list option"
where
  "idtb_link_front null tbl h idx = do {
     tbl \<leftarrow> (if h \<noteq> null then arr_upd tbl h (\<lambda>e. e\<lparr>ie_prev := idx\<rparr>) else Some tbl);
     arr_upd tbl idx (\<lambda>e. e\<lparr>ie_prev := null, ie_next := h\<rparr>) }"

definition idtb_new_cap :: "'d id_table \<Rightarrow> nat \<Rightarrow> nat" where
  "idtb_new_cap t idx =
     (let doubled = idtb_cap t * 2 mod 2 ^ 32;
          new_cap = (if doubled \<le> idtb_cap t \<or> idtb_max t < doubled then idtb_max t else doubled)
      in if new_cap \<le> idx then (idx + 1) mod 2 ^ 32 else new_cap)"

definition idtb_request_id ::
  "(nat \<Rightarrow> bool) \<Rightarrow> 'd idtb_entry \<Rightarrow> 'd id_table \<Rightarrow> nat \<Rightarrow> (fernos_error \<times> 'd id_table) option"
where
  "idtb_request_id mem junk t idx =
     (if idtb_max t \<le> idx then Some (FOS_E_INVALID_INDEX, t)
      else do {
        (err, t) \<leftarrow> (if idtb_cap t \<le> idx then idtb_resize mem junk t (idtb_new_cap t idx)
                    else Some (FOS_E_SUCCESS, t));
        if err \<noteq> FOS_E_SUCCESS then Some (err, t)
        else do {
          e \<leftarrow> arr_get (idtb_tbl t) idx;
          if ie_allocated e then Some (FOS_E_ALREADY_ALLOCATED, t)
          else do {
            (tbl, fl) \<leftarrow> idtb_unlink (idtb_max t) (idtb_tbl t) (idtb_fl_head t) idx;
            tbl \<leftarrow> idtb_link_front (idtb_max t) tbl (idtb_al_head t) idx;
            tbl \<leftarrow> arr_upd tbl idx (\<lambda>e. e\<lparr>ie_allocated := True\<rparr>);
            Some (FOS_E_SUCCESS, t\<lparr>idtb_tbl := tbl, idtb_fl_head := fl, idtb_al_head := idx\<rparr>) } } })"

text \<open>The popped id (the null id on failure) and the table.\<close>

definition idtb_pop_id ::
  "(nat \<Rightarrow> bool) \<Rightarrow> 'd idtb_entry \<Rightarrow> 'd id_table \<Rightarrow> (nat \<times> 'd id_table) option"
where
  "idtb_pop_id mem junk t = do {
     let idx = (if idtb_fl_head t \<noteq> idtb_null_id t then idtb_fl_head t else idtb_cap t);
     (err, t') \<leftarrow> idtb_request_id mem junk t idx;
     if err \<noteq> FOS_E_SUCCESS then Some (idtb_null_id t, t') else Some (idx, t') }"

definition idtb_push_id :: "'d id_table \<Rightarrow> nat \<Rightarrow> 'd id_table option" where
  "idtb_push_id t idx =
     (if idtb_cap t \<le> idx then Some t
      else do {
        e \<leftarrow> arr_get (idtb_tbl t) idx;
        if \<not> ie_allocated e then Some t
        else do {
          (tbl, al) \<leftarrow> idtb_unlink (idtb_max t) (idtb_tbl t) (idtb_al_head t) idx;
          tbl \<leftarrow> arr_upd tbl idx (\<lambda>e. e\<lparr>ie_allocated := False\<rparr>);
          tbl \<leftarrow> idtb_link_front (idtb_max t) tbl (idtb_fl_head t) idx;
          tbl \<leftarrow> arr_upd tbl idx (\<lambda>e. e\<lparr>ie_data := None\<rparr>);
          Some (t\<lparr>idtb_tbl := tbl, idtb_al_head := al, idtb_fl_head := idx\<rparr>) } })"

definition idtb_get :: "'d id_table \<Rightarrow> nat \<Rightarrow> 'd option option" where
  "idtb_get t idx =
     (if idtb_cap t \<le> idx then Some None
      else do { e \<leftarrow> arr_get (idtb_tbl t) idx; Some (if ie_allocated e then ie_data e else None) })"

definition idtb_set :: "'d id_table \<Rightarrow> nat \<Rightarrow> 'd option \<Rightarrow> 'd id_table option" where
  "idtb_set t idx dp =
     (if idx < idtb_cap t then do {
        e \<leftarrow> arr_get (idtb_tbl t) idx;
        if ie_allocated e then do {
          tbl \<leftarrow> arr_upd (idtb_tbl t) idx (\<lambda>e. e\<lparr>ie_data := dp\<rparr>);
          Some (t\<lparr>idtb_tbl := tbl\<rparr>) }
        else Some t }
      else Some t)"

definition idtb_reset_iterator :: "'d id_table \<Rightarrow> 'd id_table" where
  "idtb_reset_iterator t = t\<lparr>idtb_iter := idtb_al_head t\<rparr>"

definition idtb_get_iter :: "'d id_table \<Rightarrow> nat" where
  "idtb_get_iter t = idtb_iter t"

definition idtb_next :: "'d id_table \<Rightarrow> (nat \<times> 'd id_table) option" where
  "idtb_next t =
     (if idtb_iter t \<noteq> idtb_null_id t then do {
        e \<leftarrow> arr_get (idtb_tbl t) (idtb_iter t);
        Some (ie_next e, t\<lparr>idtb_iter := ie_next e\<rparr>) }
      else Some (idtb_iter t, t))"

text \<open>
  The loop idiom with which the kernel visits a table
  (\<^verbatim>\<open>for (id = idtb_get_iter(t); id != NULL_ID; id = idtb_next(t))\<close>, as in
  \<^verbatim>\<open>delete_process\<close>), here collecting the ids it meets.
\<close>

partial_function (option) idtb_visit_loop :: "'d id_table \<Rightarrow> nat \<Rightarrow> nat list \<Rightarrow> (nat list \<times> 'd id_table) option"
where
  "idtb_visit_loop t idx acc =
     (if idx = idtb_null_id t then Some (acc, t)
      else do {
        (id', t') \<leftarrow> idtb_next t;
        idtb_visit_loop t' id' (acc @ [idx]) })"

definition idtb_visit :: "'d id_table \<Rightarrow> (nat list \<times> 'd id_table) option" where
  "idtb_visit t =
     (let t = idtb_reset_iterator t in idtb_visit_loop t (idtb_get_iter t) [])"

section \<open>Representation\<close>

definition dec_id :: "nat \<Rightarrow> nat \<Rightarrow> nat option" where
  "dec_id null x = (if x = null then None else Some x)"

definition enc_id :: "nat \<Rightarrow> nat option \<Rightarrow> nat" where
  "enc_id null x = (case x of None \<Rightarrow> null | Some i \<Rightarrow> i)"

definition tbl_links :: "nat \<Rightarrow> 'd idtb_entry list \<Rightarrow> nat links" where
  "tbl_links null tbl i =
     (if i < length tbl then Some (dec_id null (ie_prev (tbl ! i)), dec_id null (ie_next (tbl ! i)))
      else None)"

text \<open>\<open>fs\<close> and \<open>as\<close> are the free and the allocated ids, in list order.\<close>

definition idtb_rep :: "'d id_table \<Rightarrow> nat list \<Rightarrow> nat list \<Rightarrow> bool" where
  "idtb_rep t fs as \<longleftrightarrow>
     0 < idtb_cap t \<and> idtb_cap t \<le> idtb_max t \<and> idtb_max t < 2 ^ 28
     \<and> length (idtb_tbl t) = idtb_cap t
     \<and> distinct (fs @ as) \<and> set (fs @ as) = {..<idtb_cap t}
     \<and> dseg (tbl_links (idtb_max t) (idtb_tbl t)) None fs None
     \<and> dseg (tbl_links (idtb_max t) (idtb_tbl t)) None as None
     \<and> idtb_fl_head t = enc_id (idtb_max t) (fst_or None fs)
     \<and> idtb_al_head t = enc_id (idtb_max t) (fst_or None as)
     \<and> (\<forall>i<idtb_cap t. ie_allocated (idtb_tbl t ! i) \<longleftrightarrow> i \<in> set as)
     \<and> (\<forall>i\<in>set fs. ie_data (idtb_tbl t ! i) = None)"

text \<open>What a client sees: which ids are allocated, and the pointer stored under each.\<close>

definition idtb_view :: "'d id_table \<Rightarrow> nat \<Rightarrow> 'd option option" where
  "idtb_view t i =
     (if i < idtb_cap t \<and> ie_allocated (idtb_tbl t ! i) then Some (ie_data (idtb_tbl t ! i)) else None)"

lemma enc_id_simps [simp]: "enc_id null None = null" "enc_id null (Some i) = i"
  by (simp_all add: enc_id_def)

lemma dec_id_simps [simp]: "dec_id null null = None" "i \<noteq> null \<Longrightarrow> dec_id null i = Some i"
  by (simp_all add: dec_id_def)

lemma dec_id_eq_iff: "dec_id null x = y \<longleftrightarrow> (x = enc_id null y \<and> y \<noteq> Some null)"
  by (cases y) (auto simp: dec_id_def)

lemma tbl_links_update:
  "i < length tbl \<Longrightarrow> tbl_links null (tbl[i := e]) =
     (tbl_links null tbl)(i := Some (dec_id null (ie_prev e), dec_id null (ie_next e)))"
  by (auto simp: tbl_links_def fun_eq_iff)

lemma tbl_links_Some:
  "i < length tbl \<Longrightarrow>
   tbl_links null tbl i = Some (dec_id null (ie_prev (tbl ! i)), dec_id null (ie_next (tbl ! i)))"
  by (simp add: tbl_links_def)

section \<open>Unlinking and linking entries\<close>

lemma idtb_unlink_rep:
  assumes seg: "dseg (tbl_links null tbl) None (xs @ idx # ys) None"
    and dist: "distinct (xs @ idx # ys)" and sub: "set (xs @ idx # ys) \<subseteq> {..<length tbl}"
    and null: "length tbl \<le> null" and h: "h = enc_id null (fst_or None (xs @ idx # ys))"
  shows "\<exists>tbl'. idtb_unlink null tbl h idx = Some (tbl', enc_id null (fst_or None (xs @ ys)))
    \<and> length tbl' = length tbl
    \<and> dseg (tbl_links null tbl') None (xs @ ys) None
    \<and> (\<forall>i. i \<notin> set (xs @ ys) \<longrightarrow> tbl' ! i = tbl ! i)
    \<and> (\<forall>i. ie_allocated (tbl' ! i) = ie_allocated (tbl ! i) \<and> ie_data (tbl' ! i) = ie_data (tbl ! i))"
proof -
  have idx: "idx < length tbl" using sub by simp
  have "tbl_links null tbl idx = Some (lst_or None xs, fst_or None ys)"
    using seg by (simp add: dseg_append)
  then have e: "ie_prev (tbl ! idx) = enc_id null (lst_or None xs)"
    "ie_next (tbl ! idx) = enc_id null (fst_or None ys)"
    using idx by (simp_all add: tbl_links_def dec_id_eq_iff)
  have bnd: "xs \<noteq> [] \<Longrightarrow> last xs < length tbl" "ys \<noteq> [] \<Longrightarrow> hd ys < length tbl"
    using subsetD [OF sub, of "last xs"] subsetD [OF sub, of "hd ys"] by auto
  have ends: "xs \<noteq> [] \<Longrightarrow> last xs \<noteq> idx" "ys \<noteq> [] \<Longrightarrow> hd ys \<noteq> idx"
    "xs \<noteq> [] \<Longrightarrow> ys \<noteq> [] \<Longrightarrow> last xs \<noteq> hd ys"
    using dist hd_not_left [of xs ys "last xs"] by auto
  define t1 where "t1 = (if ys = [] then tbl
    else tbl[hd ys := (tbl ! hd ys)\<lparr>ie_prev := enc_id null (lst_or None xs)\<rparr>])"
  define t2 where "t2 = (if xs = [] then t1
    else t1[last xs := (t1 ! last xs)\<lparr>ie_next := enc_id null (fst_or None ys)\<rparr>])"
  have len: "length t1 = length tbl" "length t2 = length tbl"
    by (simp_all add: t1_def t2_def)
  have run: "idtb_unlink null tbl h idx = Some (t2, enc_id null (fst_or None (xs @ ys)))"
    using idx e bnd null h
    by (cases xs rule: rev_cases; cases ys)
      (auto simp: idtb_unlink_def t1_def t2_def fst_or_append)
  have l1: "tbl_links null t1 = (if ys = [] then tbl_links null tbl else (tbl_links null tbl)(hd ys :=
      map_option (\<lambda>(u, v). (lst_or None xs, v)) (tbl_links null tbl (hd ys))))"
    using bnd null by (auto simp: t1_def tbl_links_update tbl_links_Some dec_id_eq_iff lst_or_def)
  have l2: "tbl_links null t2 = (if xs = [] then tbl_links null t1 else (tbl_links null t1)(last xs :=
      map_option (\<lambda>(u, v). (u, fst_or None ys)) (tbl_links null t1 (last xs))))"
    using bnd null len by (auto simp: t2_def tbl_links_update tbl_links_Some dec_id_eq_iff fst_or_def
        split: list.split)
  have "dseg (tbl_links null t2) None (xs @ ys) None"
  proof (rule dseg_remove [OF seg dist])
    show "tbl_links null t2 (last xs)
        = map_option (\<lambda>(u, v). (u, fst_or None ys)) (tbl_links null tbl (last xs))" if "xs \<noteq> []"
      using that ends(3) by (cases "ys = []") (simp_all add: l1 l2)
    show "tbl_links null t2 (hd ys)
        = map_option (\<lambda>(u, v). (lst_or None xs, v)) (tbl_links null tbl (hd ys))" if "ys \<noteq> []"
      using that ends(3) [THEN not_sym] by (cases "xs = []") (simp_all add: l1 l2)
    show "tbl_links null t2 a = tbl_links null tbl a"
      if "xs = [] \<or> a \<noteq> last xs" and "ys = [] \<or> a \<noteq> hd ys" for a
      using that unfolding l1 l2 by (simp only: fun_upd_apply split: if_splits) blast
  qed
  moreover have "i \<notin> set (xs @ ys) \<longrightarrow> t2 ! i = tbl ! i" for i
  proof
    assume "i \<notin> set (xs @ ys)"
    then have "xs \<noteq> [] \<Longrightarrow> last xs \<noteq> i" "ys \<noteq> [] \<Longrightarrow> hd ys \<noteq> i"
      by auto
    then show "t2 ! i = tbl ! i"
      by (simp add: t1_def t2_def)
  qed
  moreover have "ie_allocated (t2 ! i) = ie_allocated (tbl ! i) \<and> ie_data (t2 ! i) = ie_data (tbl ! i)" for i
    using bnd len by (auto simp: t1_def t2_def nth_list_update)
  ultimately show ?thesis using run len by blast
qed

lemma idtb_link_front_rep:
  assumes seg: "dseg (tbl_links null tbl) None ys None"
    and dist: "distinct (idx # ys)" and sub: "set (idx # ys) \<subseteq> {..<length tbl}"
    and null: "length tbl \<le> null" and h: "h = enc_id null (fst_or None ys)"
  shows "\<exists>tbl'. idtb_link_front null tbl h idx = Some tbl' \<and> length tbl' = length tbl
    \<and> dseg (tbl_links null tbl') None (idx # ys) None
    \<and> (\<forall>i. i \<notin> set (idx # ys) \<longrightarrow> tbl' ! i = tbl ! i)
    \<and> (\<forall>i. ie_allocated (tbl' ! i) = ie_allocated (tbl ! i) \<and> ie_data (tbl' ! i) = ie_data (tbl ! i))"
proof -
  have idx: "idx < length tbl" and bnd: "ys \<noteq> [] \<Longrightarrow> hd ys < length tbl"
    and ne: "ys \<noteq> [] \<Longrightarrow> hd ys \<noteq> idx"
    using subsetD [OF sub, of "hd ys"] subsetD [OF sub, of idx] dist by auto
  define t1 where "t1 = (if ys = [] then tbl else tbl[hd ys := (tbl ! hd ys)\<lparr>ie_prev := idx\<rparr>])"
  define t2 where "t2 = t1[idx := (t1 ! idx)\<lparr>ie_prev := null, ie_next := h\<rparr>]"
  have len: "length t1 = length tbl" "length t2 = length tbl"
    by (simp_all add: t1_def t2_def)
  have run: "idtb_link_front null tbl h idx = Some t2"
    using idx bnd null h by (cases ys) (auto simp: idtb_link_front_def t1_def t2_def)
  have l1: "tbl_links null t1 = (if ys = [] then tbl_links null tbl else (tbl_links null tbl)(hd ys :=
      map_option (\<lambda>(u, v). (Some idx, v)) (tbl_links null tbl (hd ys))))"
    using bnd null idx by (auto simp: t1_def tbl_links_update tbl_links_Some)
  have l2: "tbl_links null t2 = (tbl_links null t1)(idx := Some (None, fst_or None ys))"
    using bnd idx null len h
    by (cases ys) (auto simp: t2_def tbl_links_update)
  have "dseg (tbl_links null t2) None ([] @ idx # ys) None"
    by (rule dseg_insert [where lk = "tbl_links null tbl"])
      (use seg dist ne in \<open>auto simp: l1 l2\<close>)
  moreover have "i \<notin> set (idx # ys) \<longrightarrow> t2 ! i = tbl ! i" for i
    by (cases "i = hd ys") (auto simp: t1_def t2_def)
  moreover have "ie_allocated (t2 ! i) = ie_allocated (tbl ! i) \<and> ie_data (t2 ! i) = ie_data (tbl ! i)" for i
    using bnd idx len by (auto simp: t1_def t2_def nth_list_update)
  ultimately show ?thesis using run len by auto
qed

section \<open>Creating and growing the table\<close>

lemma idtb_init_entries_ok:
  assumes "idx + n \<le> length tbl"
  shows "\<exists>tbl'. idtb_init_entries n idx tbl = Some tbl' \<and> length tbl' = length tbl
    \<and> (\<forall>i. tbl' ! i = (if idx \<le> i \<and> i < idx + n
        then \<lparr>ie_allocated = False, ie_next = (i + 1) mod 2 ^ 32,
               ie_prev = (i + (2 ^ 32 - 1)) mod 2 ^ 32, ie_data = None\<rparr>
        else tbl ! i))"
  using assms
proof (induction n arbitrary: idx tbl)
  case 0
  then show ?case by auto
next
  case (Suc n)
  let ?e = "\<lambda>i. \<lparr>ie_allocated = False, ie_next = (i + 1) mod 2 ^ 32,
    ie_prev = (i + (2 ^ 32 - 1)) mod 2 ^ 32, ie_data = None\<rparr>"
  have "Suc idx + n \<le> length (tbl[idx := ?e idx])"
    using Suc.prems by simp
  from Suc.IH [OF this] obtain tbl' where t: "idtb_init_entries n (Suc idx) (tbl[idx := ?e idx]) = Some tbl'"
    "length tbl' = length tbl"
    "\<And>i. tbl' ! i = (if Suc idx \<le> i \<and> i < Suc idx + n then ?e i else tbl[idx := ?e idx] ! i)"
    by auto
  have "tbl' ! i = (if idx \<le> i \<and> i < idx + Suc n then ?e i else tbl ! i)" for i
    using t(3) [of i] Suc.prems by (cases "i = idx") auto
  then show ?case
    using t(1,2) Suc.prems by simp
qed

lemma dseg_range:
  assumes "\<And>i. a \<le> i \<Longrightarrow> i < b \<Longrightarrow>
    lk i = Some (if i = a then p else Some (i - 1), if i + 1 = b then n else Some (i + 1))"
  shows "dseg lk p [a..<b] n"
  using assms
proof (induction "b - a" arbitrary: a p)
  case 0
  then show ?case by simp
next
  case (Suc k)
  then have ab: "a < b" by simp
  have "dseg lk (Some a) [Suc a..<b] n"
    by (rule Suc.hyps(1)) (use Suc.hyps(2) Suc.prems in auto)
  moreover have "fst_or n [Suc a..<b] = (if Suc a = b then n else Some (Suc a))"
    using ab by (simp add: fst_or_def upt_rec)
  ultimately show ?case
    using ab Suc.prems [of a] by (simp add: upt_conv_Cons)
qed

text \<open>The index arithmetic of the initialisation loops, at ids below \<open>2 ^ 28\<close>.\<close>

lemma id_succ: "i < 2 ^ 28 \<Longrightarrow> (i + 1) mod 2 ^ 32 = (i::nat) + 1"
  by simp

lemma id_pred: "0 < i \<Longrightarrow> i < 2 ^ 28 \<Longrightarrow> (i + (2 ^ 32 - 1)) mod 2 ^ 32 = (i::nat) - 1"
proof -
  assume i: "0 < i" "i < 2 ^ 28"
  have "i + (2 ^ 32 - 1) = (i - 1) + 2 ^ 32" using i by simp
  then have "(i + (2 ^ 32 - 1)) mod 2 ^ 32 = (i - 1) mod 2 ^ 32" by (metis mod_add_self2)
  then show ?thesis using i by simp
qed

theorem new_id_table_rep:
  assumes "0 < mc" and "mc < 2 ^ 28" and "mem idtb_sizeof"
    and "mem (idtb_entry_sizeof * min mc IDTB_STARTING_CAP)"
  shows "\<exists>t. new_id_table True mem junk junk_iter mc = Some (Some t)
    \<and> idtb_rep t [0..<min mc IDTB_STARTING_CAP] [] \<and> idtb_max t = mc
    \<and> idtb_cap t = min mc IDTB_STARTING_CAP \<and> idtb_view t = Map.empty"
proof -
  define cap where "cap = min mc IDTB_STARTING_CAP"
  have cap: "0 < cap" "cap \<le> mc" "cap \<le> 4" using assms(1) by (simp_all add: cap_def IDTB_STARTING_CAP_def)
  have sz: "idtb_entry_sizeof * cap mod 2 ^ 32 = idtb_entry_sizeof * cap" using cap by simp
  have sc: "(if mc < IDTB_STARTING_CAP then mc else IDTB_STARTING_CAP) = cap"
    by (simp add: cap_def min_def)
  have "0 + cap \<le> length (replicate cap junk)" by simp
  from idtb_init_entries_ok [OF this] obtain t0 where t0:
    "idtb_init_entries cap 0 (replicate cap junk) = Some t0" "length t0 = cap"
    "\<And>i. i < cap \<Longrightarrow> t0 ! i = \<lparr>ie_allocated = False, ie_next = (i + 1) mod 2 ^ 32,
      ie_prev = (i + (2 ^ 32 - 1)) mod 2 ^ 32, ie_data = None\<rparr>"
    by auto
  define t1 where "t1 = t0[0 := (t0 ! 0)\<lparr>ie_prev := mc\<rparr>]"
  define t2 where "t2 = t1[cap - 1 := (t1 ! (cap - 1))\<lparr>ie_next := mc\<rparr>]"
  define t where "t = \<lparr>idtb_max = mc, idtb_cap = cap, idtb_al_head = mc, idtb_fl_head = 0,
    idtb_tbl = t2, idtb_iter = junk_iter\<rparr>"
  have len: "length t1 = cap" "length t2 = cap" by (simp_all add: t1_def t2_def t0)
  have run: "new_id_table True mem junk junk_iter mc = Some (Some t)"
    using assms(1,3,4) cap t0(1,2) len
    by (simp add: new_id_table_def sc sz flip: cap_def) (simp add: t_def t1_def t2_def)
  have ent: "\<not> ie_allocated (t2 ! i)" "ie_data (t2 ! i) = None"
    "ie_prev (t2 ! i) = (if i = 0 then mc else i - 1)"
    "ie_next (t2 ! i) = (if i = cap - 1 then mc else i + 1)" if "i < cap" for i
    using that cap t0(2,3) len id_pred [of i]
    by (auto simp: t2_def t1_def nth_list_update)
  have "dseg (tbl_links mc t2) None [0..<cap] None"
    by (rule dseg_range) (use ent len cap in \<open>auto simp: tbl_links_def\<close>)
  then have "idtb_rep t [0..<cap] []"
    using cap assms(2) len ent by (auto simp: idtb_rep_def t_def upt_conv_Cons)
  moreover have "idtb_view t = Map.empty"
    using ent by (auto simp: idtb_view_def t_def fun_eq_iff)
  ultimately show ?thesis using run by (auto simp: t_def cap_def)
qed

lemma idtb_resize_rep:
  assumes rep: "idtb_rep t fs as" and grow: "idtb_cap t < new_cap" "new_cap \<le> idtb_max t"
    and mem: "mem (new_cap * idtb_entry_sizeof)"
  shows "\<exists>t'. idtb_resize mem junk t new_cap = Some (FOS_E_SUCCESS, t')
    \<and> idtb_rep t' ([idtb_cap t..<new_cap] @ fs) as
    \<and> idtb_cap t' = new_cap \<and> idtb_max t' = idtb_max t \<and> idtb_view t' = idtb_view t"
proof -
  define c where "c = idtb_cap t"
  define mx where "mx = idtb_max t"
  define tbl where "tbl = idtb_tbl t"
  have bnd: "0 < c" "c < new_cap" "new_cap \<le> mx" "mx < 2 ^ 28" "length tbl = c"
    and dist: "distinct (fs @ as)" and st: "set (fs @ as) = {..<c}"
    and seg: "dseg (tbl_links mx tbl) None fs None" "dseg (tbl_links mx tbl) None as None"
    and hd: "idtb_fl_head t = enc_id mx (fst_or None fs)" "idtb_al_head t = enc_id mx (fst_or None as)"
    and al: "\<And>i. i < c \<Longrightarrow> ie_allocated (tbl ! i) \<longleftrightarrow> i \<in> set as"
    and fd: "\<And>i. i \<in> set fs \<Longrightarrow> ie_data (tbl ! i) = None"
    using rep grow by (auto simp: idtb_rep_def c_def mx_def tbl_def)
  have sz: "new_cap * idtb_entry_sizeof mod 2 ^ 32 = new_cap * idtb_entry_sizeof" using bnd by simp
  define n0 where "n0 = idtb_realloc junk (new_cap * idtb_entry_sizeof) tbl"
  have n0: "length n0 = new_cap" "\<And>i. i < c \<Longrightarrow> n0 ! i = tbl ! i"
    using bnd by (auto simp: n0_def idtb_realloc_def nth_append)
  have "c + (new_cap - c) \<le> length n0" using bnd n0 by simp
  from idtb_init_entries_ok [OF this] obtain n1 where n1:
    "idtb_init_entries (new_cap - c) c n0 = Some n1" "length n1 = new_cap"
    "\<And>i. n1 ! i = (if c \<le> i \<and> i < new_cap then \<lparr>ie_allocated = False, ie_next = (i + 1) mod 2 ^ 32,
      ie_prev = (i + (2 ^ 32 - 1)) mod 2 ^ 32, ie_data = None\<rparr> else n0 ! i)"
    using n0 bnd by auto
  define h where "h = enc_id mx (fst_or None fs)"
  define n2 where "n2 = n1[c := (n1 ! c)\<lparr>ie_prev := mx\<rparr>]"
  define n3 where "n3 = n2[new_cap - 1 := (n2 ! (new_cap - 1))\<lparr>ie_next := h\<rparr>]"
  define n4 where "n4 = (if fs = [] then n3 else n3[hd fs := (n3 ! hd fs)\<lparr>ie_prev := new_cap - 1\<rparr>])"
  define t' where "t' = t\<lparr>idtb_fl_head := c, idtb_cap := new_cap, idtb_tbl := n4\<rparr>"
  have len: "length n2 = new_cap" "length n3 = new_cap" "length n4 = new_cap"
    by (simp_all add: n2_def n3_def n4_def n1)
  have fsb: "i \<in> set fs \<Longrightarrow> i < c" and asb: "i \<in> set as \<Longrightarrow> i < c" for i
    using st by auto
  have hfs: "fs \<noteq> [] \<Longrightarrow> hd fs < c \<and> h = hd fs \<and> hd fs \<noteq> mx"
    using fsb [of "hd fs"] bnd by (cases fs) (auto simp: h_def)
  have hnil: "fs = [] \<Longrightarrow> h = mx" by (simp add: h_def)
  have run: "idtb_resize mem junk t new_cap = Some (FOS_E_SUCCESS, t')"
    using bnd mem n1(1,2) len hfs hnil sz
    unfolding idtb_resize_def hd h_def [symmetric] c_def [symmetric] mx_def [symmetric] tbl_def [symmetric] sz
      n0_def [symmetric]
    by (cases "fs = []") (simp_all add: t'_def n2_def n3_def n4_def)
  have n43: "n4 ! i = n3 ! i" if "c \<le> i" for i
    using that hfs by (cases "fs = []") (auto simp: n4_def)
  have new: "\<not> ie_allocated (n4 ! i)" "ie_data (n4 ! i) = None"
    "ie_prev (n4 ! i) = (if i = c then mx else i - 1)"
    "ie_next (n4 ! i) = (if i = new_cap - 1 then h else i + 1)" if "c \<le> i" "i < new_cap" for i
    using that bnd n1 len id_pred [of i]
    by (auto simp: n43 n3_def n2_def nth_list_update)
  have old: "n4 ! i = (if fs \<noteq> [] \<and> i = hd fs then (tbl ! i)\<lparr>ie_prev := new_cap - 1\<rparr> else tbl ! i)"
    if "i < c" for i
  proof -
    have "n3 ! i = tbl ! i" using that bnd n0(2) n1(3) by (simp add: n3_def n2_def)
    then show ?thesis using that bnd len hfs by (auto simp: n4_def nth_list_update)
  qed
  have lnew: "tbl_links mx n4 i = Some (if i = c then None else Some (i - 1),
      if i + 1 = new_cap then fst_or None fs else Some (i + 1))" if "c \<le> i" "i < new_cap" for i
  proof -
    have "dec_id mx h = fst_or None fs" using hfs hnil by (cases fs) auto
    moreover have "i + 1 = new_cap \<longleftrightarrow> i = new_cap - 1" "i - 1 \<noteq> mx" "i + 1 < new_cap \<longrightarrow> i + 1 \<noteq> mx"
      using that bnd by auto
    ultimately show ?thesis using that new(3,4) [OF that] len by (auto simp: tbl_links_def)
  qed
  have lold: "tbl_links mx n4 i = tbl_links mx tbl i" if "i < c" "fs = [] \<or> i \<noteq> hd fs" for i
    using that old [OF that(1)] bnd len by (auto simp: tbl_links_def)
  have lhd: "tbl_links mx n4 (hd fs) = map_option (\<lambda>(u, v). (Some (new_cap - 1), v)) (tbl_links mx tbl (hd fs))"
    if "fs \<noteq> []"
    using hfs [OF that] old [of "hd fs"] that bnd len by (simp add: tbl_links_def)
  have "dseg (tbl_links mx n4) None [c..<new_cap] (fst_or None fs)"
    by (rule dseg_range) (simp only: lnew)
  moreover have "dseg (tbl_links mx n4) (Some (new_cap - 1)) fs None"
    by (rule dseg_relink_prev [OF seg(1)]) (use dist lold lhd fsb in auto)
  moreover have "lst_or None [c..<new_cap] = Some (new_cap - 1)"
    using bnd by (simp add: lst_or_def)
  ultimately have s1: "dseg (tbl_links mx n4) None ([c..<new_cap] @ fs) None"
    by (simp add: dseg_append)
  have "dseg (tbl_links mx n4) None as None = dseg (tbl_links mx tbl) None as None"
  proof (rule dseg_cong)
    fix a assume "a \<in> set as"
    moreover from this have "fs = [] \<or> a \<noteq> hd fs"
      using dist by (cases fs) auto
    ultimately show "tbl_links mx n4 a = tbl_links mx tbl a"
      using lold asb by blast
  qed
  with seg have s2: "dseg (tbl_links mx n4) None as None" by simp
  have al': "ie_allocated (n4 ! i) \<longleftrightarrow> i \<in> set as" if "i < new_cap" for i
  proof (cases "i < c")
    case True
    then show ?thesis by (simp add: old al)
  next
    case False
    then have "c \<le> i" "i \<notin> set as" using asb by auto
    then show ?thesis using new(1) that by blast
  qed
  have fd': "ie_data (n4 ! i) = None" if "i \<in> set ([c..<new_cap] @ fs)" for i
  proof (cases "i < c")
    case True
    then show ?thesis using that by (simp add: old fd)
  next
    case False
    then have "c \<le> i" "i < new_cap" using fsb that by auto
    then show ?thesis by (rule new(2))
  qed
  have "set (([c..<new_cap] @ fs) @ as) = {..<new_cap}" "distinct (([c..<new_cap] @ fs) @ as)"
    using st dist bnd by (auto dest: fsb asb)
  then have "idtb_rep t' ([c..<new_cap] @ fs) as"
    using s1 s2 al' fd' bnd len hd by (simp add: idtb_rep_def t'_def upt_conv_Cons flip: mx_def)
  moreover have "idtb_view t' i = idtb_view t i" for i
  proof (cases "i < c")
    case True
    then have "ie_allocated (n4 ! i) = ie_allocated (tbl ! i)" "ie_data (n4 ! i) = ie_data (tbl ! i)"
      using old by simp_all
    then show ?thesis using True bnd by (simp add: idtb_view_def t'_def flip: c_def tbl_def)
  next
    case False
    then show ?thesis using new(1) by (simp add: idtb_view_def t'_def flip: c_def tbl_def)
  qed
  then have "idtb_view t' = idtb_view t" by blast
  ultimately show ?thesis using run by (auto simp: t'_def c_def mx_def)
qed

section \<open>Requesting, returning and reading ids\<close>

text \<open>Both id-moving operations take an entry out of one list and put it in front of the other.\<close>

lemma idtb_move_rep:
  assumes seg: "dseg (tbl_links mx tbl) None (xs @ idx # ys) None"
    and seg2: "dseg (tbl_links mx tbl) None zs None"
    and dist: "distinct ((xs @ idx # ys) @ zs)" and st: "set ((xs @ idx # ys) @ zs) = {..<length tbl}"
    and null: "length tbl \<le> mx" and h: "h = enc_id mx (fst_or None (xs @ idx # ys))"
    and h2: "h2 = enc_id mx (fst_or None zs)"
  shows "\<exists>t1 t2. idtb_unlink mx tbl h idx = Some (t1, enc_id mx (fst_or None (xs @ ys)))
    \<and> idtb_link_front mx t1 h2 idx = Some t2 \<and> length t1 = length tbl \<and> length t2 = length tbl
    \<and> dseg (tbl_links mx t2) None (xs @ ys) None \<and> dseg (tbl_links mx t2) None (idx # zs) None
    \<and> (\<forall>i. ie_allocated (t2 ! i) = ie_allocated (tbl ! i) \<and> ie_data (t2 ! i) = ie_data (tbl ! i))"
proof -
  have sub: "set (xs @ idx # ys) \<subseteq> {..<length tbl}" "set (idx # zs) \<subseteq> {..<length tbl}"
    using st by auto
  have d: "distinct (xs @ idx # ys)" "distinct (idx # zs)"
    using dist by auto
  obtain t1 where t1: "idtb_unlink mx tbl h idx = Some (t1, enc_id mx (fst_or None (xs @ ys)))"
    "length t1 = length tbl" "dseg (tbl_links mx t1) None (xs @ ys) None"
    "\<And>i. i \<notin> set (xs @ ys) \<Longrightarrow> t1 ! i = tbl ! i"
    "\<And>i. ie_allocated (t1 ! i) = ie_allocated (tbl ! i) \<and> ie_data (t1 ! i) = ie_data (tbl ! i)"
    using idtb_unlink_rep [OF seg d(1) sub(1) null h] by blast
  have "dseg (tbl_links mx t1) None zs None = dseg (tbl_links mx tbl) None zs None"
  proof (rule dseg_cong)
    fix a assume "a \<in> set zs"
    then have "a \<notin> set (xs @ ys)" using dist by auto
    then show "tbl_links mx t1 a = tbl_links mx tbl a" using t1(2,4) by (simp add: tbl_links_def)
  qed
  with seg2 have s1: "dseg (tbl_links mx t1) None zs None" by simp
  obtain t2 where t2: "idtb_link_front mx t1 h2 idx = Some t2" "length t2 = length t1"
    "dseg (tbl_links mx t2) None (idx # zs) None"
    "\<And>i. i \<notin> set (idx # zs) \<Longrightarrow> t2 ! i = t1 ! i"
    "\<And>i. ie_allocated (t2 ! i) = ie_allocated (t1 ! i) \<and> ie_data (t2 ! i) = ie_data (t1 ! i)"
    using idtb_link_front_rep [OF s1 d(2) _ _ h2] sub(2) null t1(2) by auto
  have "dseg (tbl_links mx t2) None (xs @ ys) None = dseg (tbl_links mx t1) None (xs @ ys) None"
  proof (rule dseg_cong)
    fix a assume "a \<in> set (xs @ ys)"
    then have "a \<notin> set (idx # zs)" using dist by auto
    then show "tbl_links mx t2 a = tbl_links mx t1 a" using t2(2,4) by (simp add: tbl_links_def)
  qed
  then show ?thesis using t1 t2 by simp
qed

lemma nth_update: "xs[i := e] ! x = (if x = i \<and> i < length xs then e else xs ! x)"
  by (cases "i < length xs") (simp_all add: nth_list_update list_update_beyond)

lemma tbl_links_upd_allocated [simp]:
  "tbl_links mx (tbl[i := (tbl ! i)\<lparr>ie_allocated := b\<rparr>]) = tbl_links mx tbl"
  "tbl_links mx (tbl[i := (tbl ! i)\<lparr>ie_data := d\<rparr>]) = tbl_links mx tbl"
  by (simp_all add: tbl_links_def fun_eq_iff nth_update)

lemma list_update_mask: "h \<noteq> i \<Longrightarrow> xs[i := a, h := b, i := c] = xs[h := b, i := c]"
  by (metis list_update_swap list_update_overwrite)

lemma idtb_entry_commute:
  "e\<lparr>ie_allocated := b, ie_prev := p, ie_next := n\<rparr>
   = (e :: 'd idtb_entry)\<lparr>ie_prev := p, ie_next := n, ie_allocated := b\<rparr>"
  by (cases e) simp

lemma idtb_request_free:
  assumes rep: "idtb_rep t (xs @ idx # ys) as"
  shows "\<exists>t'. idtb_request_id mem junk t idx = Some (FOS_E_SUCCESS, t')
    \<and> idtb_rep t' (xs @ ys) (idx # as) \<and> idtb_cap t' = idtb_cap t \<and> idtb_max t' = idtb_max t
    \<and> idtb_view t' = (idtb_view t)(idx \<mapsto> None)"
proof -
  define tbl where "tbl = idtb_tbl t"
  define mx where "mx = idtb_max t"
  have b: "idtb_cap t \<le> mx" "length tbl = idtb_cap t" "idx < idtb_cap t" "\<not> ie_allocated (tbl ! idx)"
    "ie_data (tbl ! idx) = None"
    using rep by (auto simp: idtb_rep_def tbl_def mx_def)
  obtain t1 t2 where m:
    "idtb_unlink mx tbl (idtb_fl_head t) idx = Some (t1, enc_id mx (fst_or None (xs @ ys)))"
    "idtb_link_front mx t1 (idtb_al_head t) idx = Some t2" "length t1 = length tbl" "length t2 = length tbl"
    "dseg (tbl_links mx t2) None (xs @ ys) None" "dseg (tbl_links mx t2) None (idx # as) None"
    "\<And>i. ie_allocated (t2 ! i) = ie_allocated (tbl ! i)" "\<And>i. ie_data (t2 ! i) = ie_data (tbl ! i)"
    using idtb_move_rep [of mx tbl xs idx ys as "idtb_fl_head t" "idtb_al_head t"] rep b(1,2)
    by (auto simp: idtb_rep_def tbl_def mx_def)
  define t3 where "t3 = t2[idx := (t2 ! idx)\<lparr>ie_allocated := True\<rparr>]"
  define t' where "t' = t\<lparr>idtb_tbl := t3, idtb_fl_head := enc_id mx (fst_or None (xs @ ys)), idtb_al_head := idx\<rparr>"
  have "idtb_request_id mem junk t idx = Some (FOS_E_SUCCESS, t')"
    using b m by (simp add: idtb_request_id_def t'_def t3_def flip: tbl_def mx_def)
  moreover have "idtb_rep t' (xs @ ys) (idx # as)"
    using rep b m unfolding idtb_rep_def t'_def t3_def
    by (auto simp: nth_list_update simp flip: mx_def tbl_def)
  moreover have "idtb_view t' = (idtb_view t)(idx \<mapsto> None)"
    using b m by (auto simp: idtb_view_def t'_def t3_def nth_list_update fun_eq_iff simp flip: tbl_def)
  ultimately show ?thesis by (auto simp: t'_def)
qed

lemma idtb_request_taken:
  assumes "idtb_rep t fs as" and "idx \<in> set as"
  shows "idtb_request_id mem junk t idx = Some (FOS_E_ALREADY_ALLOCATED, t)"
  using assms by (auto simp: idtb_rep_def idtb_request_id_def)

lemma idtb_request_too_big:
  "idtb_max t \<le> idx \<Longrightarrow> idtb_request_id mem junk t idx = Some (FOS_E_INVALID_INDEX, t)"
  by (simp add: idtb_request_id_def)

lemma idtb_new_cap_bounds:
  assumes "idtb_rep t fs as" and "idtb_cap t \<le> idx" and "idx < idtb_max t"
  shows "idx < idtb_new_cap t idx" "idtb_new_cap t idx \<le> idtb_max t" "idtb_cap t < idtb_new_cap t idx"
  using assms by (auto simp: idtb_rep_def idtb_new_cap_def Let_def)

lemma idtb_request_grow:
  assumes rep: "idtb_rep t fs as" and idx: "idtb_cap t \<le> idx" "idx < idtb_max t"
    and mem: "mem (idtb_new_cap t idx * idtb_entry_sizeof)"
  shows "\<exists>t' fs'. idtb_request_id mem junk t idx = Some (FOS_E_SUCCESS, t')
    \<and> idtb_rep t' fs' (idx # as) \<and> idtb_cap t' = idtb_new_cap t idx \<and> idtb_max t' = idtb_max t
    \<and> idtb_view t' = (idtb_view t)(idx \<mapsto> None)"
proof -
  let ?n = "idtb_new_cap t idx"
  note nc = idtb_new_cap_bounds [OF rep idx]
  obtain t1 where t1: "idtb_resize mem junk t ?n = Some (FOS_E_SUCCESS, t1)"
    "idtb_rep t1 ([idtb_cap t..<?n] @ fs) as" "idtb_cap t1 = ?n" "idtb_max t1 = idtb_max t"
    "idtb_view t1 = idtb_view t"
    using idtb_resize_rep [where junk = junk and mem = mem, OF rep nc(3,2) mem] by blast
  have "[idtb_cap t..<?n] = [idtb_cap t..<idx] @ idx # [Suc idx..<?n]"
    using nc(1) idx(1) by (metis le_add_diff_inverse less_imp_le_nat upt_add_eq_append upt_conv_Cons)
  with t1(2) have "idtb_rep t1 ([idtb_cap t..<idx] @ idx # ([Suc idx..<?n] @ fs)) as" by simp
  from idtb_request_free [OF this] obtain t' where t':
    "idtb_request_id mem junk t1 idx = Some (FOS_E_SUCCESS, t')"
    "idtb_rep t' ([idtb_cap t..<idx] @ ([Suc idx..<?n] @ fs)) (idx # as)"
    "idtb_cap t' = ?n" "idtb_max t' = idtb_max t" "idtb_view t' = (idtb_view t)(idx \<mapsto> None)"
    using t1 by metis
  have "idtb_request_id mem junk t idx = idtb_request_id mem junk t1 idx"
    using idx nc t1 by (simp add: idtb_request_id_def)
  then show ?thesis using t' by metis
qed

lemma idtb_request_no_mem:
  assumes rep: "idtb_rep t fs as" and idx: "idtb_cap t \<le> idx" "idx < idtb_max t"
    and mem: "\<not> mem (idtb_new_cap t idx * idtb_entry_sizeof)"
  shows "idtb_request_id mem junk t idx = Some (FOS_E_NO_MEM, t)"
proof -
  have "idtb_new_cap t idx * idtb_entry_sizeof < 2 ^ 32"
    using idtb_new_cap_bounds(2) [OF rep idx] rep by (simp add: idtb_rep_def)
  then have m: "\<not> mem (idtb_new_cap t idx * idtb_entry_sizeof mod 2 ^ 32)"
    using mem by simp
  have r: "idtb_resize mem junk t (idtb_new_cap t idx) = Some (FOS_E_NO_MEM, t)"
    using idtb_new_cap_bounds [OF rep idx] m by (simp add: idtb_resize_def)
  show ?thesis using idx r by (simp add: idtb_request_id_def)
qed

lemma idtb_push_rep:
  assumes rep: "idtb_rep t fs (xs @ idx # ys)"
  shows "\<exists>t'. idtb_push_id t idx = Some t' \<and> idtb_rep t' (idx # fs) (xs @ ys)
    \<and> idtb_cap t' = idtb_cap t \<and> idtb_max t' = idtb_max t \<and> idtb_view t' = (idtb_view t)(idx := None)"
proof -
  define tbl where "tbl = idtb_tbl t"
  define mx where "mx = idtb_max t"
  have b: "idtb_cap t \<le> mx" "length tbl = idtb_cap t" "idx < idtb_cap t" "ie_allocated (tbl ! idx)"
    using rep by (auto simp: idtb_rep_def tbl_def mx_def)
  obtain t1 t2 where m:
    "idtb_unlink mx tbl (idtb_al_head t) idx = Some (t1, enc_id mx (fst_or None (xs @ ys)))"
    "idtb_link_front mx t1 (idtb_fl_head t) idx = Some t2" "length t1 = length tbl" "length t2 = length tbl"
    "dseg (tbl_links mx t2) None (xs @ ys) None" "dseg (tbl_links mx t2) None (idx # fs) None"
    "\<And>i. ie_allocated (t2 ! i) = ie_allocated (tbl ! i)" "\<And>i. ie_data (t2 ! i) = ie_data (tbl ! i)"
  proof -
    have "distinct ((xs @ idx # ys) @ fs)" "set ((xs @ idx # ys) @ fs) = {..<length tbl}"
      using rep b(2) unfolding idtb_rep_def by auto
    then show ?thesis
      using that idtb_move_rep [of mx tbl xs idx ys fs "idtb_al_head t" "idtb_fl_head t"] rep b(1,2)
      unfolding idtb_rep_def tbl_def [symmetric] mx_def [symmetric] by metis
  qed
  text \<open>The code clears the flag before it links the entry; the two updates commute.\<close>
  have swap: "idtb_link_front mx (t1[idx := (t1 ! idx)\<lparr>ie_allocated := False\<rparr>]) (idtb_fl_head t) idx
      = Some (t2[idx := (t2 ! idx)\<lparr>ie_allocated := False\<rparr>])"
  proof -
    have "idtb_fl_head t = mx \<or> (idtb_fl_head t \<noteq> idx \<and> idtb_fl_head t < length tbl)"
      using rep by (cases fs) (auto simp: idtb_rep_def mx_def tbl_def)
    then show ?thesis
      using m(2,3) b(2,3) by (auto simp: idtb_link_front_def list_update_mask idtb_entry_commute)
  qed
  define t3 where "t3 = t2[idx := (t2 ! idx)\<lparr>ie_allocated := False, ie_data := None\<rparr>]"
  define t' where "t' = t\<lparr>idtb_tbl := t3, idtb_al_head := enc_id mx (fst_or None (xs @ ys)), idtb_fl_head := idx\<rparr>"
  have "idtb_push_id t idx = Some t'"
    using b m swap by (simp add: idtb_push_id_def t'_def t3_def flip: tbl_def mx_def)
  moreover have "tbl_links mx t3 = tbl_links mx t2"
    by (simp add: t3_def tbl_links_def fun_eq_iff nth_update)
  then have "idtb_rep t' (idx # fs) (xs @ ys)"
    using rep b m unfolding idtb_rep_def t'_def
    by (auto simp: t3_def nth_list_update simp flip: mx_def tbl_def)
  moreover have "idtb_view t' = (idtb_view t)(idx := None)"
    using b m by (auto simp: idtb_view_def t'_def t3_def nth_list_update fun_eq_iff simp flip: tbl_def)
  ultimately show ?thesis by (auto simp: t'_def)
qed

lemma idtb_push_ignored:
  assumes "idtb_rep t fs as" and "idx \<notin> set as"
  shows "idtb_push_id t idx = Some t"
  using assms by (auto simp: idtb_rep_def idtb_push_id_def)

lemma idtb_get_view:
  "idtb_rep t fs as \<Longrightarrow> idtb_get t idx = Some (case idtb_view t idx of None \<Rightarrow> None | Some d \<Rightarrow> d)"
  by (auto simp: idtb_rep_def idtb_get_def idtb_view_def)

lemma idtb_set_rep:
  assumes rep: "idtb_rep t fs as"
  shows "\<exists>t'. idtb_set t idx dp = Some t' \<and> idtb_rep t' fs as \<and> idtb_cap t' = idtb_cap t
    \<and> idtb_max t' = idtb_max t
    \<and> idtb_view t' = (if idx \<in> set as then (idtb_view t)(idx \<mapsto> dp) else idtb_view t)"
proof (cases "idx \<in> set as")
  case True
  then have b: "idx < idtb_cap t" "length (idtb_tbl t) = idtb_cap t" "ie_allocated (idtb_tbl t ! idx)"
    using rep by (auto simp: idtb_rep_def)
  let ?t = "t\<lparr>idtb_tbl := (idtb_tbl t)[idx := (idtb_tbl t ! idx)\<lparr>ie_data := dp\<rparr>]\<rparr>"
  have "idtb_set t idx dp = Some ?t" using b by (simp add: idtb_set_def)
  moreover have "idtb_rep ?t fs as"
    using rep b True by (auto simp: idtb_rep_def nth_list_update)
  moreover have "idtb_view ?t = (idtb_view t)(idx \<mapsto> dp)"
    using b by (auto simp: idtb_view_def fun_eq_iff nth_list_update)
  ultimately show ?thesis using True by auto
next
  case False
  then show ?thesis using rep by (auto simp: idtb_rep_def idtb_set_def)
qed

text \<open>The allocated ids, most recently requested first, are what an iteration meets.\<close>

lemma idtb_visit_loop_ok:
  "dseg (tbl_links (idtb_max t) (idtb_tbl t)) p as None \<Longrightarrow> set as \<subseteq> {..<idtb_max t} \<Longrightarrow>
   idtb_iter t = enc_id (idtb_max t) (fst_or None as) \<Longrightarrow>
   idtb_visit_loop t (idtb_iter t) acc = Some (acc @ as, t\<lparr>idtb_iter := idtb_max t\<rparr>)"
proof (induction as arbitrary: t p acc)
  case Nil
  then show ?case by (simp add: idtb_visit_loop.simps idtb_null_id_def)
next
  case (Cons a as)
  have it: "idtb_iter t = a" "a < length (idtb_tbl t)" "a < idtb_max t"
    and nx: "ie_next (idtb_tbl t ! a) = enc_id (idtb_max t) (fst_or None as)"
    using Cons.prems by (auto simp: tbl_links_def dec_id_eq_iff split: if_splits)
  have "idtb_visit_loop (t\<lparr>idtb_iter := ie_next (idtb_tbl t ! a)\<rparr>) (ie_next (idtb_tbl t ! a)) (acc @ [a])
      = Some ((acc @ [a]) @ as, t\<lparr>idtb_iter := idtb_max t\<rparr>)"
    using Cons.IH [of "t\<lparr>idtb_iter := ie_next (idtb_tbl t ! a)\<rparr>" "Some a" "acc @ [a]"] Cons.prems nx
    by simp
  then show ?case
    using it by (subst idtb_visit_loop.simps) (simp add: idtb_null_id_def idtb_next_def)
qed

lemma idtb_visit_rep:
  assumes "idtb_rep t fs as"
  shows "idtb_visit t = Some (as, t\<lparr>idtb_iter := idtb_max t\<rparr>)"
proof -
  have "set as \<subseteq> {..<idtb_max t}" using assms by (auto simp: idtb_rep_def)
  then show ?thesis
    using assms idtb_visit_loop_ok [of "idtb_reset_iterator t" None as "[]"]
    by (simp add: idtb_visit_def idtb_get_iter_def idtb_reset_iterator_def idtb_rep_def)
qed

lemma idtb_rep_dom:
  "idtb_rep t fs as \<Longrightarrow> dom (idtb_view t) = set as"
  by (auto simp: idtb_rep_def idtb_view_def split: if_splits)

section \<open>The promises of the id table\<close>

text \<open>
  The abstract value of a table is the partial map \<open>idtb_view\<close> from the allocated ids to
  their data; the lists of a well-formed table stay hidden.
\<close>

definition idtb_ok :: "'d id_table \<Rightarrow> bool" where
  "idtb_ok t \<longleftrightarrow> (\<exists>fs as. idtb_rep t fs as)"

lemma idtb_get_ok:
  "idtb_ok t \<Longrightarrow> idtb_get t idx = Some (case idtb_view t idx of None \<Rightarrow> None | Some d \<Rightarrow> d)"
  using idtb_get_view unfolding idtb_ok_def by blast

lemma idtb_set_ok:
  assumes "idtb_ok t"
  shows "\<exists>t'. idtb_set t idx dp = Some t' \<and> idtb_ok t' \<and> idtb_max t' = idtb_max t
    \<and> idtb_view t' = (if idx \<in> dom (idtb_view t) then (idtb_view t)(idx \<mapsto> dp) else idtb_view t)"
proof -
  obtain fs as where rep: "idtb_rep t fs as" using assms unfolding idtb_ok_def by blast
  obtain t' where t': "idtb_set t idx dp = Some t'" "idtb_rep t' fs as" "idtb_max t' = idtb_max t"
    "idtb_view t' = (if idx \<in> set as then (idtb_view t)(idx \<mapsto> dp) else idtb_view t)"
    using idtb_set_rep [OF rep, of idx dp] by blast
  then have "idtb_ok t'" unfolding idtb_ok_def by blast
  then show ?thesis using t' idtb_rep_dom [OF rep] by simp
qed

lemma idtb_ok_cases:
  assumes "idtb_ok t"
  obtains fs as where "idtb_rep t fs as" "dom (idtb_view t) = set as" "set fs \<union> set as = {..<idtb_cap t}"
    "idtb_cap t \<le> idtb_max t"
  using assms idtb_rep_dom that unfolding idtb_ok_def idtb_rep_def by (metis set_append)

lemma idtb_ok_bound: "idtb_ok t \<Longrightarrow> i \<in> dom (idtb_view t) \<Longrightarrow> i < idtb_max t"
  by (auto simp: idtb_ok_def idtb_rep_def idtb_view_def split: if_splits)

lemma lt_cap:
  assumes "set fs \<union> set as = {..<n :: nat}"
  shows "i \<in> set fs \<Longrightarrow> i < n" "i \<in> set as \<Longrightarrow> i < n" "i < n \<Longrightarrow> i \<in> set fs \<or> i \<in> set as"
  using assms by (metis UnCI UnE lessThan_iff)+

text \<open>The table of the examples, with one id of three handed out, and the content of fresh memory.\<close>

definition idtb_garbage :: "nat idtb_entry" where
  "idtb_garbage = \<lparr>ie_allocated = True, ie_next = 9, ie_prev = 9, ie_data = Some 9\<rparr>"

definition idtb_sample :: "nat id_table" where
  "idtb_sample = \<lparr>idtb_max = 3, idtb_cap = 2, idtb_al_head = 0, idtb_fl_head = 1,
     idtb_tbl = [\<lparr>ie_allocated = True, ie_next = 3, ie_prev = 3, ie_data = Some 7\<rparr>,
       \<lparr>ie_allocated = False, ie_next = 3, ie_prev = 3, ie_data = None\<rparr>], idtb_iter = 3\<rparr>"

lemma idtb_sample_ok: "idtb_ok idtb_sample" "idtb_max idtb_sample = 3" "idtb_cap idtb_sample = 2"
  "idtb_view idtb_sample = [0 \<mapsto> Some 7]"
proof -
  have "idtb_rep idtb_sample [1] [0]"
    by (auto simp: idtb_rep_def idtb_sample_def tbl_links_def dec_id_def enc_id_def less_2_cases_iff)
  then show "idtb_ok idtb_sample" by (auto simp: idtb_ok_def)
  show "idtb_max idtb_sample = 3" "idtb_cap idtb_sample = 2" by (simp_all add: idtb_sample_def)
  show "idtb_view idtb_sample = [0 \<mapsto> Some 7]"
    by (rule ext) (auto simp: idtb_view_def idtb_sample_def less_Suc_eq numeral_2_eq_2)
qed

lemma idtb_request_ok:
  assumes "idtb_ok t"
  shows "\<exists>e t'. idtb_request_id mem junk t idx = Some (e, t') \<and> idtb_ok t' \<and> idtb_max t' = idtb_max t
    \<and> (if idtb_max t \<le> idx then e = FOS_E_INVALID_INDEX \<and> t' = t
       else if idx \<in> dom (idtb_view t) then e = FOS_E_ALREADY_ALLOCATED \<and> t' = t
       else if idtb_cap t \<le> idx \<and> \<not> mem (idtb_new_cap t idx * idtb_entry_sizeof) then e = FOS_E_NO_MEM \<and> t' = t
       else e = FOS_E_SUCCESS \<and> idtb_view t' = (idtb_view t)(idx \<mapsto> None))"
proof -
  from assms obtain fs as where rep: "idtb_rep t fs as" and d: "dom (idtb_view t) = set as"
    and u: "set fs \<union> set as = {..<idtb_cap t}" by (rule idtb_ok_cases)
  consider "idtb_max t \<le> idx" | "idx \<in> set as" "idx < idtb_max t" | "idx \<notin> set as" "idx < idtb_cap t" "idx < idtb_max t"
    | "idtb_cap t \<le> idx" "idx < idtb_max t" by linarith
  then show ?thesis
  proof cases
    case 1
    then show ?thesis using assms by (simp add: idtb_request_too_big)
  next
    case 2
    then show ?thesis using assms idtb_request_taken [OF rep 2(1)] d by simp
  next
    case 3
    then have "idx \<in> set fs" using lt_cap(3) [OF u] by blast
    then obtain xs ys where "fs = xs @ idx # ys" by (auto simp: in_set_conv_decomp)
    with rep have "idtb_rep t (xs @ idx # ys) as" by simp
    from idtb_request_free [OF this] show ?thesis using 3 d unfolding idtb_ok_def by fastforce
  next
    case 4
    then have "idx \<notin> set as" using lt_cap [OF u] by (meson not_le)
    then have nin: "idx \<notin> dom (idtb_view t)" using d by simp
    show ?thesis
    proof (cases "mem (idtb_new_cap t idx * idtb_entry_sizeof)")
      case True
      from idtb_request_grow [OF rep 4, of mem junk] True obtain t' fs' where
        "idtb_request_id mem junk t idx = Some (FOS_E_SUCCESS, t')" "idtb_rep t' fs' (idx # as)"
        "idtb_max t' = idtb_max t" "idtb_view t' = (idtb_view t)(idx \<mapsto> None)" by blast
      then show ?thesis using 4 nin True by (auto simp: idtb_ok_def)
    next
      case False
      then show ?thesis using idtb_request_no_mem [OF rep 4, of mem junk] False 4 nin assms by simp
    qed
  qed
qed

text \<open>C32. Requesting an id, on every branch: an id past the maximum, an id in use and a table that cannot
  grow are refused with their own error and change nothing; otherwise exactly this id becomes
  allocated, with no data, and every other id keeps its own.\<close>

theorem idtb_request_spec:
  assumes "idtb_ok t"
  shows "\<exists>e t'. idtb_request_id mem junk t idx = Some (e, t') \<and> idtb_ok t' \<and> idtb_max t' = idtb_max t
    \<and> (if idtb_max t \<le> idx then e = FOS_E_INVALID_INDEX \<and> t' = t
       else if idx \<in> dom (idtb_view t) then e = FOS_E_ALREADY_ALLOCATED \<and> t' = t
       else if idtb_cap t \<le> idx \<and> \<not> mem (idtb_new_cap t idx * idtb_entry_sizeof) then e = FOS_E_NO_MEM \<and> t' = t
       else e = FOS_E_SUCCESS \<and> idtb_view t' = (idtb_view t)(idx \<mapsto> None))"
  by (rule idtb_request_ok [OF assms])

theorem idtb_request_spec_witness:
  "(\<exists>t'. idtb_request_id (\<lambda>_. True) idtb_garbage idtb_sample 2 = Some (FOS_E_SUCCESS, t') \<and> idtb_ok t'
    \<and> idtb_view t' = [0 \<mapsto> Some 7, 2 \<mapsto> None])
   \<and> idtb_request_id (\<lambda>_. True) idtb_garbage idtb_sample 0 = Some (FOS_E_ALREADY_ALLOCATED, idtb_sample)"
  using idtb_request_spec [OF idtb_sample_ok(1), of "\<lambda>_. True" idtb_garbage 2]
    idtb_request_spec [OF idtb_sample_ok(1), of "\<lambda>_. True" idtb_garbage 0]
  by (auto simp: idtb_sample_ok(2-4))

lemma idtb_pop_ok:
  assumes "idtb_ok t"
  shows "\<exists>idx t'. idtb_pop_id mem junk t = Some (idx, t') \<and> idtb_ok t' \<and> idtb_max t' = idtb_max t
    \<and> (if dom (idtb_view t) = {..<idtb_max t}
         \<or> dom (idtb_view t) = {..<idtb_cap t} \<and> \<not> mem (idtb_new_cap t (idtb_cap t) * idtb_entry_sizeof)
       then idx = idtb_null_id t \<and> t' = t
       else idx < idtb_max t \<and> idx \<notin> dom (idtb_view t) \<and> idtb_view t' = (idtb_view t)(idx \<mapsto> None))"
proof -
  from assms obtain fs as where rep: "idtb_rep t fs as" and d: "dom (idtb_view t) = set as"
    and u: "set fs \<union> set as = {..<idtb_cap t}" and cap: "idtb_cap t \<le> idtb_max t" by (rule idtb_ok_cases)
  have dj: "set fs \<inter> set as = {}" using rep by (auto simp: idtb_rep_def)
  define idx where "idx = (if fs = [] then idtb_cap t else hd fs)"
  have head: "idtb_fl_head t = (if fs = [] then idtb_max t else hd fs)"
    using rep by (cases fs) (auto simp: idtb_rep_def enc_id_def)
  have lt: "fs \<noteq> [] \<Longrightarrow> hd fs < idtb_cap t" by (rule lt_cap(1) [OF u hd_in_set])
  have idx: "(if idtb_fl_head t \<noteq> idtb_null_id t then idtb_fl_head t else idtb_cap t) = idx"
    using head lt cap by (auto simp: idx_def idtb_null_id_def)
  have new: "idx \<notin> set as"
  proof (cases "fs = []")
    case True
    then show ?thesis using lt_cap(2) [OF u] by (auto simp: idx_def)
  next
    case False
    then show ?thesis using dj hd_in_set by (simp add: idx_def) blast
  qed
  have ful: "fs = [] \<longleftrightarrow> set as = {..<idtb_cap t}"
  proof
    assume "set as = {..<idtb_cap t}"
    then have "set fs \<subseteq> set as" using u by (metis Un_upper1)
    then show "fs = []" using dj by (cases fs) auto
  qed (use u in simp_all)
  have mx: "set as = {..<idtb_max t} \<longleftrightarrow> fs = [] \<and> idtb_cap t = idtb_max t"
    using ful u cap by (metis Un_upper2 lessThan_subset_iff order_antisym)
  from idtb_request_spec [OF assms, of mem junk idx] obtain e t' where r:
    "idtb_request_id mem junk t idx = Some (e, t')" "idtb_ok t'" "idtb_max t' = idtb_max t"
    "if idtb_max t \<le> idx then e = FOS_E_INVALID_INDEX \<and> t' = t
     else if idx \<in> dom (idtb_view t) then e = FOS_E_ALREADY_ALLOCATED \<and> t' = t
     else if idtb_cap t \<le> idx \<and> \<not> mem (idtb_new_cap t idx * idtb_entry_sizeof) then e = FOS_E_NO_MEM \<and> t' = t
     else e = FOS_E_SUCCESS \<and> idtb_view t' = (idtb_view t)(idx \<mapsto> None)" by blast
  have pop: "idtb_pop_id mem junk t = Some (if e \<noteq> FOS_E_SUCCESS then idtb_null_id t else idx, t')"
    using r(1) by (simp add: idtb_pop_id_def idx)
  show ?thesis
  proof (cases "fs = []")
    case True
    then have i: "idx = idtb_cap t" by (simp add: idx_def)
    show ?thesis using r pop new d ful mx True cap unfolding i by (auto split: if_splits)
  next
    case False
    then have "idx < idtb_cap t" using lt by (simp add: idx_def)
    then show ?thesis using r pop new d ful mx False cap by (auto split: if_splits)
  qed
qed

text \<open>Popping an id yields an id that was not allocated and allocates it; the null id is the answer only
  when every id up to the maximum is in use or the table cannot grow, and then nothing changes.\<close>

theorem idtb_pop_spec:
  assumes "idtb_ok t"
  shows "\<exists>idx t'. idtb_pop_id mem junk t = Some (idx, t') \<and> idtb_ok t' \<and> idtb_max t' = idtb_max t
    \<and> (if dom (idtb_view t) = {..<idtb_max t}
         \<or> dom (idtb_view t) = {..<idtb_cap t} \<and> \<not> mem (idtb_new_cap t (idtb_cap t) * idtb_entry_sizeof)
       then idx = idtb_null_id t \<and> t' = t
       else idx < idtb_max t \<and> idx \<notin> dom (idtb_view t) \<and> idtb_view t' = (idtb_view t)(idx \<mapsto> None))"
  by (rule idtb_pop_ok [OF assms])

theorem idtb_pop_spec_witness:
  "\<exists>idx t'. idtb_pop_id (\<lambda>_. True) idtb_garbage idtb_sample = Some (idx, t') \<and> idx < 3 \<and> idx \<noteq> 0
    \<and> idtb_view t' = [0 \<mapsto> Some 7, idx \<mapsto> None]"
proof -
  have "1 \<notin> dom (idtb_view idtb_sample)" "1 \<in> {..<idtb_max idtb_sample}" by (simp_all add: idtb_sample_ok(2,4))
  then have "dom (idtb_view idtb_sample) \<noteq> {..<idtb_max idtb_sample}" by metis
  moreover have "idtb_max idtb_sample = 3" by (rule idtb_sample_ok(2))
  ultimately obtain idx t' where
    "idtb_pop_id (\<lambda>_. True) idtb_garbage idtb_sample = Some (idx, t')" "idx < 3" "idx \<notin> dom (idtb_view idtb_sample)"
    "idtb_view t' = (idtb_view idtb_sample)(idx \<mapsto> None)"
    using idtb_pop_spec [OF idtb_sample_ok(1), of "\<lambda>_. True" idtb_garbage] by auto
  then show ?thesis by (simp add: idtb_sample_ok(4) dom_def split: if_splits)
qed

lemma idtb_push_ok:
  assumes "idtb_ok t"
  shows "\<exists>t'. idtb_push_id t idx = Some t' \<and> idtb_ok t' \<and> idtb_max t' = idtb_max t
    \<and> idtb_view t' = (idtb_view t)(idx := None)"
proof -
  from assms obtain fs as where rep: "idtb_rep t fs as" and d: "dom (idtb_view t) = set as"
    by (rule idtb_ok_cases)
  show ?thesis
  proof (cases "idx \<in> set as")
    case True
    then obtain xs ys where "as = xs @ idx # ys" by (auto simp: in_set_conv_decomp)
    with rep have "idtb_rep t fs (xs @ idx # ys)" by simp
    from idtb_push_rep [OF this] show ?thesis unfolding idtb_ok_def by blast
  next
    case False
    then have "(idtb_view t)(idx := None) = idtb_view t" using d by (auto simp: fun_upd_idem_iff)
    then show ?thesis using idtb_push_ignored [OF rep False] assms by simp
  qed
qed

text \<open>Giving an id back makes it free and drops its data, whether or not it was allocated, and leaves every
  other id as it was.\<close>

theorem idtb_push_spec:
  assumes "idtb_ok t"
  shows "\<exists>t'. idtb_push_id t idx = Some t' \<and> idtb_ok t' \<and> idtb_max t' = idtb_max t
    \<and> idtb_view t' = (idtb_view t)(idx := None)"
  by (rule idtb_push_ok [OF assms])

theorem idtb_push_spec_witness:
  "\<exists>t'. idtb_push_id idtb_sample 0 = Some t' \<and> idtb_ok t' \<and> idtb_view t' = Map.empty"
  using idtb_push_spec [OF idtb_sample_ok(1), of 0] by (simp add: idtb_sample_ok(4)) blast

text \<open>An iteration over the table ends and meets every allocated id exactly once.\<close>

theorem idtb_visit_spec:
  assumes "idtb_ok t"
  shows "\<exists>as t'. idtb_visit t = Some (as, t') \<and> distinct as \<and> set as = dom (idtb_view t) \<and> idtb_view t' = idtb_view t"
proof -
  from assms obtain fs as where rep: "idtb_rep t fs as" and d: "dom (idtb_view t) = set as"
    by (rule idtb_ok_cases)
  have "distinct as" using rep by (auto simp: idtb_rep_def)
  then show ?thesis using idtb_visit_rep [OF rep] d by (simp add: idtb_view_def fun_eq_iff)
qed

theorem idtb_visit_spec_witness: "\<exists>as t'. idtb_visit idtb_sample = Some (as, t') \<and> distinct as \<and> set as = {0}"
  using idtb_visit_spec [OF idtb_sample_ok(1)] unfolding idtb_sample_ok(4) by (metis dom_empty dom_fun_upd option.distinct(1) insert_absorb)

lemma new_id_table_ok:
  assumes new: "new_id_table True mem junk ji mc = Some (Some t)" and mc: "0 < mc" "mc < 2 ^ 28"
  shows "idtb_ok t \<and> idtb_view t = Map.empty"
proof -
  have min: "(if mc < IDTB_STARTING_CAP then mc else IDTB_STARTING_CAP) = min mc IDTB_STARTING_CAP"
    by (simp add: min_def)
  have small: "idtb_entry_sizeof * min mc IDTB_STARTING_CAP mod 2 ^ 32 = idtb_entry_sizeof * min mc IDTB_STARTING_CAP"
    by (simp add: min_def IDTB_STARTING_CAP_def)
  have m1: "mem idtb_sizeof" using new mc by (simp add: new_id_table_def split: if_splits)
  have m2: "mem (idtb_entry_sizeof * min mc IDTB_STARTING_CAP)"
  proof (rule ccontr)
    assume "\<not> ?thesis"
    then show False using new mc m1 by (simp add: new_id_table_def Let_def min small)
  qed
  show ?thesis using new_id_table_rep [OF mc m1 m2, of junk ji] new unfolding idtb_ok_def by auto
qed

end
