(* ===== verification/Ring.thy ===== *)
theory Ring imports Fern_Prelude begin

text \<open>
  The intrusive cyclic lists of \<^verbatim>\<open>src/src/s_data/src/ring.c\<close>, which carry the schedule of
  the kernel.  Rings and ring elements live in a store and refer to each other by
  address, so that one element can migrate between rings.
\<close>

section \<open>State and operations\<close>

record ring =
  r_len :: nat
  r_head :: "addr option"

record ring_element =
  re_r :: "addr option"
  re_next :: "addr option"
  re_prev :: "addr option"

record ring_store =
  rings :: "addr \<Rightarrow> ring option"
  relems :: "addr \<Rightarrow> ring_element option"

definition ring_at :: "ring_store \<Rightarrow> addr option \<Rightarrow> ring option" where
  "ring_at st p = Option.bind p (rings st)"

definition elem_of :: "ring_store \<Rightarrow> addr option \<Rightarrow> ring_element option" where
  "elem_of st p = Option.bind p (relems st)"

definition upd_ring :: "ring_store \<Rightarrow> addr option \<Rightarrow> (ring \<Rightarrow> ring) \<Rightarrow> ring_store option" where
  "upd_ring st p f = do {
     a \<leftarrow> p;
     x \<leftarrow> rings st a;
     Some (st\<lparr>rings := (rings st)(a \<mapsto> f x)\<rparr>) }"

definition upd_elem :: "ring_store \<Rightarrow> addr option \<Rightarrow> (ring_element \<Rightarrow> ring_element) \<Rightarrow> ring_store option" where
  "upd_elem st p f = do {
     a \<leftarrow> p;
     x \<leftarrow> relems st a;
     Some (st\<lparr>relems := (relems st)(a \<mapsto> f x)\<rparr>) }"

definition init_ring :: "ring_store \<Rightarrow> addr \<Rightarrow> ring_store" where
  "init_ring st r = st\<lparr>rings := (rings st)(r \<mapsto> \<lparr>r_len = 0, r_head = None\<rparr>)\<rparr>"

definition init_ring_element :: "ring_store \<Rightarrow> addr \<Rightarrow> ring_store" where
  "init_ring_element st re =
     st\<lparr>relems := (relems st)(re \<mapsto> \<lparr>re_r = None, re_next = None, re_prev = None\<rparr>)\<rparr>"

definition ring_advance :: "ring_store \<Rightarrow> addr \<Rightarrow> ring_store option" where
  "ring_advance st r = do {
     x \<leftarrow> rings st r;
     if r_head x \<noteq> None then do {
       h \<leftarrow> elem_of st (r_head x);
       upd_ring st (Some r) (\<lambda>x. x\<lparr>r_head := re_next h\<rparr>) }
     else Some st }"

definition ring_element_detach :: "ring_store \<Rightarrow> addr \<Rightarrow> ring_store option" where
  "ring_element_detach st re = do {
     e \<leftarrow> relems st re;
     if re_r e \<noteq> None then do {
       x \<leftarrow> ring_at st (re_r e);
       st \<leftarrow> (if r_len x = 1 then upd_ring st (re_r e) (\<lambda>x. x\<lparr>r_head := None\<rparr>)
             else do {
               st \<leftarrow> (if r_head x = Some re
                     then upd_ring st (re_r e) (\<lambda>x. x\<lparr>r_head := re_next e\<rparr>) else Some st);
               st \<leftarrow> upd_elem st (re_next e) (\<lambda>n. n\<lparr>re_prev := re_prev e\<rparr>);
               e \<leftarrow> relems st re;
               upd_elem st (re_prev e) (\<lambda>p. p\<lparr>re_next := re_next e\<rparr>) });
       st \<leftarrow> upd_ring st (re_r e) (\<lambda>x. x\<lparr>r_len := (r_len x + (2 ^ 32 - 1)) mod 2 ^ 32\<rparr>);
       upd_elem st (Some re) (\<lambda>e. e\<lparr>re_r := None, re_next := None, re_prev := None\<rparr>) }
     else Some st }"

definition ring_element_attach :: "ring_store \<Rightarrow> addr \<Rightarrow> addr \<Rightarrow> ring_store option" where
  "ring_element_attach st re r = do {
     e \<leftarrow> relems st re;
     st \<leftarrow> (if re_r e \<noteq> None then ring_element_detach st re else Some st);
     x \<leftarrow> rings st r;
     st \<leftarrow> (if r_len x = 0 then do {
             st \<leftarrow> upd_ring st (Some r) (\<lambda>x. x\<lparr>r_head := Some re\<rparr>);
             upd_elem st (Some re) (\<lambda>e. e\<lparr>re_next := Some re, re_prev := Some re\<rparr>) }
           else do {
             st \<leftarrow> upd_elem st (Some re) (\<lambda>e. e\<lparr>re_next := r_head x\<rparr>);
             h \<leftarrow> elem_of st (r_head x);
             st \<leftarrow> upd_elem st (Some re) (\<lambda>e. e\<lparr>re_prev := re_prev h\<rparr>);
             h \<leftarrow> elem_of st (r_head x);
             st \<leftarrow> upd_elem st (re_prev h) (\<lambda>l. l\<lparr>re_next := Some re\<rparr>);
             upd_elem st (r_head x) (\<lambda>h. h\<lparr>re_prev := Some re\<rparr>) });
     st \<leftarrow> upd_elem st (Some re) (\<lambda>e. e\<lparr>re_r := Some r\<rparr>);
     upd_ring st (Some r) (\<lambda>x. x\<lparr>r_len := (r_len x + 1) mod 2 ^ 32\<rparr>) }"

section \<open>Representation\<close>

text \<open>
  \<open>ring_rep st R\<close>: every ring \<open>r\<close> of the store holds the elements \<open>R r\<close>, head first, and
  every element that points to a ring is in that ring's list.
\<close>

definition ring_links :: "ring_store \<Rightarrow> addr links" where
  "ring_links st a = map_option (\<lambda>e. (re_prev e, re_next e)) (relems st a)"

definition ring_is :: "ring_store \<Rightarrow> addr \<Rightarrow> addr list \<Rightarrow> bool" where
  "ring_is st r as \<longleftrightarrow>
     rings st r = Some \<lparr>r_len = length as, r_head = fst_or None as\<rparr>
     \<and> length as < 2 ^ 32 \<and> distinct as
     \<and> (\<forall>a\<in>set as. map_option re_r (relems st a) = Some (Some r))
     \<and> dseg (ring_links st) (lst_or None as) as (fst_or None as)"

definition ring_rep :: "ring_store \<Rightarrow> (addr \<Rightarrow> addr list option) \<Rightarrow> bool" where
  "ring_rep st R \<longleftrightarrow>
     dom R = dom (rings st)
     \<and> (\<forall>r as. R r = Some as \<longrightarrow> ring_is st r as)
     \<and> (\<forall>a e r. relems st a = Some e \<longrightarrow> re_r e = Some r \<longrightarrow> (\<exists>as. R r = Some as \<and> a \<in> set as))"

section \<open>Cyclic segments\<close>

definition cyc :: "'a links \<Rightarrow> 'a list \<Rightarrow> bool" where
  "cyc lk as \<longleftrightarrow> dseg lk (lst_or None as) as (fst_or None as)"

lemma cyc_rotate: "cyc lk (as @ bs) \<longleftrightarrow> cyc lk (bs @ as)"
  by (cases as; cases bs) (auto simp: cyc_def dseg_append fst_or_append lst_or_append lst_or_Cons)

lemma cyc_cong: "(\<And>a. a \<in> set as \<Longrightarrow> lk' a = lk a) \<Longrightarrow> cyc lk' as = cyc lk as"
  unfolding cyc_def by (rule dseg_cong)

text \<open>The neighbours of a cell that leaves are made to point to each other.\<close>

lemma cyc_remove:
  assumes "cyc lk (x # bs)" and dist: "distinct (x # bs)" and ne: "bs \<noteq> []"
  defines "lk1 \<equiv> lk(hd bs := map_option (\<lambda>(u, v). (Some (last bs), v)) (lk (hd bs)))"
  defines "lk2 \<equiv> lk1(last bs := map_option (\<lambda>(u, v). (u, Some (hd bs))) (lk1 (last bs)))"
  shows "cyc lk2 bs"
proof -
  have "dseg lk (Some x) bs (Some x)"
    using assms(1) by (simp add: cyc_def)
  then have "dseg lk1 (Some (last bs)) bs (Some x)"
    by (rule dseg_relink_prev) (use dist in \<open>simp_all add: lk1_def\<close>)
  then have "dseg lk2 (Some (last bs)) bs (Some (hd bs))"
    by (rule dseg_relink_next) (use dist in \<open>simp_all add: lk2_def\<close>)
  then show ?thesis
    using ne by (cases bs) (simp_all add: cyc_def lst_or_def)
qed

text \<open>A cell that joins does so behind the last one, which is just before the head.\<close>

lemma cyc_add_last:
  assumes "cyc lk bs" and dist: "distinct (bs @ [x])" and ne: "bs \<noteq> []"
  defines "lk1 \<equiv> lk(last bs := map_option (\<lambda>(u, v). (u, Some x)) (lk (last bs)))"
  defines "lk2 \<equiv> lk1(hd bs := map_option (\<lambda>(u, v). (Some x, v)) (lk1 (hd bs)))"
  assumes new: "lk x = Some (Some (last bs), Some (hd bs))"
  shows "cyc lk2 (bs @ [x])"
proof -
  have b: "hd bs \<noteq> x" "last bs \<noteq> x" using dist ne by auto
  have "dseg lk (Some (last bs)) bs (Some (hd bs))"
    using assms(1) ne by (cases bs) (simp_all add: cyc_def lst_or_def)
  then have "dseg lk1 (Some (last bs)) bs (Some x)"
    by (rule dseg_relink_next) (use dist in \<open>simp_all add: lk1_def\<close>)
  then have "dseg lk2 (Some x) bs (Some x)"
    by (rule dseg_relink_prev) (use dist in \<open>simp_all add: lk2_def\<close>)
  moreover have "lk2 x = Some (Some (last bs), Some (hd bs))"
    using b new by (simp add: lk1_def lk2_def)
  ultimately show ?thesis
    using ne by (cases bs) (simp_all add: cyc_def dseg_append lst_or_def fst_or_append)
qed

lemma ring_is_cyc:
  "ring_is st r as \<longleftrightarrow>
     rings st r = Some \<lparr>r_len = length as, r_head = fst_or None as\<rparr>
     \<and> length as < 2 ^ 32 \<and> distinct as
     \<and> (\<forall>a\<in>set as. map_option re_r (relems st a) = Some (Some r)) \<and> cyc (ring_links st) as"
  by (simp add: ring_is_def cyc_def)

section \<open>Detaching, attaching and advancing\<close>

lemma upd_ring_ok [simp]:
  "rings st r = Some x \<Longrightarrow> upd_ring st (Some r) f = Some (st\<lparr>rings := (rings st)(r \<mapsto> f x)\<rparr>)"
  by (simp add: upd_ring_def)

lemma upd_elem_ok [simp]:
  "relems st a = Some e \<Longrightarrow> upd_elem st (Some a) f = Some (st\<lparr>relems := (relems st)(a \<mapsto> f e)\<rparr>)"
  by (simp add: upd_elem_def)

lemma at_simps [simp]: "ring_at st (Some r) = rings st r" "elem_of st (Some a) = relems st a"
  by (simp_all add: ring_at_def elem_of_def)

lemma ring_rep_cong_other:
  assumes "ring_is st r as" and "rings st' r = rings st r"
    and "\<And>a. a \<in> set as \<Longrightarrow> relems st' a = relems st a"
  shows "ring_is st' r as"
proof -
  have "cyc (ring_links st') as = cyc (ring_links st) as"
    by (rule cyc_cong) (simp add: ring_links_def assms(3))
  then show ?thesis using assms by (simp add: ring_is_cyc)
qed

lemma ring_rep_disjoint:
  assumes "ring_rep st R" and "R r = Some as" and "R r' = Some as'" and "r \<noteq> r'"
  shows "set as \<inter> set as' = {}"
proof -
  have "\<forall>a\<in>set as. map_option re_r (relems st a) = Some (Some r)"
    "\<forall>a\<in>set as'. map_option re_r (relems st a) = Some (Some r')"
    using assms(1-3) unfolding ring_rep_def ring_is_def by blast+
  then show ?thesis using assms(4) by fastforce
qed

text \<open>
  The effect of either operation: ring \<open>r\<close> changes its list to \<open>as'\<close>, the element \<open>re\<close>
  may change, other elements only as far as they belong to ring \<open>r\<close>.
\<close>

lemma ring_rep_update:
  assumes rep: "ring_rep st R" and R: "R r = Some as" and ris: "ring_is st' r as'"
    and other: "\<And>r'. r' \<noteq> r \<Longrightarrow> rings st' r' = rings st r'"
    and elems: "\<And>a. a \<notin> set as \<Longrightarrow> a \<noteq> re \<Longrightarrow> relems st' a = relems st a"
    and keep: "\<And>a. a \<in> set as \<Longrightarrow> a \<noteq> re \<Longrightarrow> a \<in> set as'"
    and re: "re \<in> set as' \<or> map_option re_r (relems st' re) = Some None"
    and home: "re \<in> set as \<or> map_option re_r (relems st re) = Some None"
  shows "ring_rep st' (R(r \<mapsto> as'))"
proof -
  have "dom (R(r \<mapsto> as')) = dom (rings st')"
  proof -
    have "dom R = dom (rings st)" "rings st' r \<noteq> None"
      using rep ris by (auto simp: ring_rep_def ring_is_def)
    then show ?thesis using other by (auto simp: dom_def set_eq_iff)
  qed
  moreover have "ring_is st' r' bs" if "(R(r \<mapsto> as')) r' = Some bs" for r' bs
  proof (cases "r' = r")
    case True
    then show ?thesis using that ris by simp
  next
    case False
    then have R': "R r' = Some bs" using that by simp
    then have b: "ring_is st r' bs" using rep by (auto simp: ring_rep_def)
    have "set as \<inter> set bs = {}" using ring_rep_disjoint [OF rep R R'] False by auto
    moreover have "re \<notin> set bs"
    proof
      assume "re \<in> set bs"
      then have "map_option re_r (relems st re) = Some (Some r')" using b by (auto simp: ring_is_def)
      then show False using home \<open>re \<in> set bs\<close> \<open>set as \<inter> set bs = {}\<close> by auto
    qed
    ultimately show ?thesis
      using elems other [OF False] by (intro ring_rep_cong_other [OF b]) blast+
  qed
  moreover have "\<exists>bs. (R(r \<mapsto> as')) q = Some bs \<and> a \<in> set bs"
    if ae: "relems st' a = Some e" "re_r e = Some q" for a e q
  proof (cases "a \<in> set as' ")
    case True
    then have "map_option re_r (relems st' a) = Some (Some r)" using ris by (auto simp: ring_is_def)
    then show ?thesis using ae True by simp
  next
    case False
    then have "a \<noteq> re" using re ae by auto
    then have "a \<notin> set as" using False keep by blast
    then have "relems st a = Some e" using \<open>a \<noteq> re\<close> elems ae(1) by simp
    then obtain bs where "R q = Some bs" "a \<in> set bs" using rep ae(2) unfolding ring_rep_def by blast
    then show ?thesis using R \<open>a \<notin> set as\<close> by (cases "q = r") auto
  qed
  ultimately show ?thesis by (simp add: ring_rep_def)
qed

definition detached :: ring_element where
  "detached = \<lparr>re_r = None, re_next = None, re_prev = None\<rparr>"

lemma detached_eq [simp]: "e\<lparr>re_r := None, re_next := None, re_prev := None\<rparr> = detached"
  by (cases e) (simp add: detached_def)

lemma ring_element_detach_free:
  "relems st re = Some e \<Longrightarrow> re_r e = None \<Longrightarrow> ring_element_detach st re = Some st"
  by (simp add: ring_element_detach_def)

lemma ring_element_detach_rep:
  assumes rep: "ring_rep st R" and R: "R r = Some as" and re: "re \<in> set as"
  shows "\<exists>st'. ring_element_detach st re = Some st' \<and> ring_rep st' (R(r \<mapsto> removeAll re as))
    \<and> relems st' re = Some detached \<and> dom (relems st') = dom (relems st)
    \<and> (\<forall>a. a \<notin> set as \<longrightarrow> relems st' a = relems st a)"
proof -
  have ris: "ring_is st r as" using rep R by (simp add: ring_rep_def)
  obtain xs ys where as: "as = xs @ re # ys" using re by (auto dest: split_list)
  define bs where "bs = ys @ xs"
  have dist: "distinct (re # bs)" and rm: "removeAll re as = xs @ ys"
    using ris as by (auto simp: ring_is_def bs_def removeAll_id)
  have cyc: "cyc (ring_links st) (re # bs)"
    using ris cyc_rotate [of "ring_links st" xs "re # ys"] by (simp add: ring_is_cyc as bs_def)
  have head: "rings st r = Some \<lparr>r_len = length as, r_head = fst_or None as\<rparr>" and len: "length as < 2 ^ 32"
    using ris by (simp_all add: ring_is_def)
  obtain e where e: "relems st re = Some e" "re_r e = Some r"
    using ris re by (fastforce simp: ring_is_def)
  show ?thesis
  proof (cases "bs = []")
    case True
    then have as1: "as = [re]" "xs = []" "ys = []" by (simp_all add: as bs_def)
    let ?st = "st\<lparr>rings := (rings st)(r \<mapsto> \<lparr>r_len = 0, r_head = None\<rparr>), relems := (relems st)(re \<mapsto> detached)\<rparr>"
    have "ring_element_detach st re = Some ?st"
      using e head as1 by (simp add: ring_element_detach_def)
    moreover have "ring_rep ?st (R(r \<mapsto> removeAll re as))"
      by (rule ring_rep_update [OF rep R, where re = re])
        (use re as1 in \<open>auto simp: ring_is_cyc cyc_def detached_def\<close>)
    ultimately show ?thesis using as1 e by auto
  next
    case ne: False
    let ?n = "hd bs" and ?p = "last bs"
    have np: "?n \<in> set as" "?p \<in> set as" "?n \<noteq> re" "?p \<noteq> re"
      using ne dist hd_in_set [OF ne] last_in_set [OF ne] by (auto simp: as bs_def)
    have "ring_links st re = Some (Some ?p, Some ?n)"
      using cyc ne by (cases bs) (auto simp: cyc_def lst_or_def)
    then have pn: "re_prev e = Some ?p" "re_next e = Some ?n"
      using e by (auto simp: ring_links_def)
    obtain en ep where en: "relems st ?n = Some en" "re_r en = Some r" "relems st ?p = Some ep" "re_r ep = Some r"
    proof -
      have "map_option re_r (relems st ?n) = Some (Some r)" "map_option re_r (relems st ?p) = Some (Some r)"
        using ris np by (simp_all add: ring_is_def)
      then show ?thesis using that by auto
    qed
    define m1 where "m1 = (relems st)(?n \<mapsto> en\<lparr>re_prev := Some ?p\<rparr>)"
    obtain ep1 where ep1: "m1 ?p = Some ep1" "re_r ep1 = Some r"
      using en that by (cases "?p = ?n") (simp_all add: m1_def)
    define m2 where "m2 = m1(?p \<mapsto> ep1\<lparr>re_next := Some ?n\<rparr>)"
    have h': "(if fst_or None as = Some re then Some ?n else fst_or None as) = fst_or None (xs @ ys)"
      using dist ne by (cases xs) (auto simp: as bs_def fst_or_def split: list.split)
    let ?st = "st\<lparr>rings := (rings st)(r \<mapsto> \<lparr>r_len = length (xs @ ys), r_head = fst_or None (xs @ ys)\<rparr>),
      relems := m2(re \<mapsto> detached)\<rparr>"
    have l: "length as \<noteq> 1" "(length as + (2 ^ 32 - 1)) mod 2 ^ 32 = length (xs @ ys)"
    proof -
      have "length as = length (xs @ ys) + 1" using ne by (simp add: as)
      moreover have "length (xs @ ys) + 1 + (2 ^ 32 - 1) = length (xs @ ys) + 2 ^ 32" by simp
      ultimately show "(length as + (2 ^ 32 - 1)) mod 2 ^ 32 = length (xs @ ys)"
        using len by (simp only: mod_add_self2) simp
      show "length as \<noteq> 1" using ne by (auto simp: as bs_def)
    qed
    have m1re: "m1 re = Some e" "m2 re = Some e" using np e by (simp_all add: m1_def m2_def)
    have "ring_element_detach st re = Some ?st"
      using e pn head l(1) en ep1 m1re h' [symmetric] l(2) [simplified]
      by (simp add: ring_element_detach_def m1_def [symmetric] m2_def [symmetric])
    moreover have "ring_is ?st r (xs @ ys)"
    proof -
      define lk1 where "lk1 = (ring_links st)(?n := map_option (\<lambda>(u, v). (Some ?p, v)) (ring_links st ?n))"
      define lk2 where "lk2 = lk1(?p := map_option (\<lambda>(u, v). (u, Some ?n)) (lk1 ?p))"
      have k1: "lk1 = (\<lambda>a. map_option (\<lambda>e. (re_prev e, re_next e)) (m1 a))"
        using en by (auto simp: lk1_def m1_def ring_links_def fun_eq_iff)
      have "lk2 a = ring_links ?st a" if "a \<noteq> re" for a
        using that ep1 by (auto simp: lk2_def k1 m2_def ring_links_def)
      moreover have "cyc lk2 bs"
        using cyc_remove [OF cyc dist ne] by (simp add: lk1_def lk2_def)
      ultimately have "cyc (ring_links ?st) bs"
        using dist cyc_cong [of bs "ring_links ?st" lk2] by force
      then have "cyc (ring_links ?st) (xs @ ys)"
        using cyc_rotate [of _ ys xs] by (simp add: bs_def)
      moreover have "map_option re_r ((m2(re \<mapsto> detached)) a) = Some (Some r)" if "a \<in> set (xs @ ys)" for a
        using that dist ris ep1 en by (auto simp: m2_def m1_def bs_def ring_is_def as)
      ultimately show ?thesis
        using ris len by (simp add: ring_is_cyc as)
    qed
    then have "ring_rep ?st (R(r \<mapsto> xs @ ys))"
      by (rule ring_rep_update [OF rep R, where re = re])
        (use np re in \<open>auto simp: m1_def m2_def detached_def as\<close>)
    moreover have "dom (relems ?st) = dom (relems st)"
      using e en by (auto simp: m2_def m1_def)
    moreover have "\<forall>a. a \<notin> set as \<longrightarrow> relems ?st a = relems st a"
      using np re by (auto simp: m1_def m2_def)
    ultimately show ?thesis using rm by auto
  qed
qed

text \<open>Taking an element out of whichever ring holds it.\<close>

definition without :: "addr \<Rightarrow> (addr \<Rightarrow> addr list option) \<Rightarrow> addr \<Rightarrow> addr list option" where
  "without re R r = map_option (removeAll re) (R r)"

lemma without_member:
  assumes rep: "ring_rep st R" and R: "R r = Some as" and re: "re \<in> set as"
  shows "without re R = R(r \<mapsto> removeAll re as)"
proof
  fix q
  show "without re R q = (R(r \<mapsto> removeAll re as)) q"
  proof (cases "q = r \<or> R q = None")
    case True
    then show ?thesis using R by (auto simp: without_def)
  next
    case False
    then obtain bs where bs: "R q = Some bs" "q \<noteq> r" by auto
    then have "re \<notin> set bs" using ring_rep_disjoint [OF rep R] re by blast
    then show ?thesis using bs by (simp add: without_def removeAll_id)
  qed
qed

lemma without_free:
  assumes rep: "ring_rep st R" and free: "relems st re = Some e" "re_r e = None"
  shows "without re R = R"
proof
  fix q
  show "without re R q = R q"
  proof (cases "R q")
    case (Some bs)
    then have "\<forall>a\<in>set bs. map_option re_r (relems st a) = Some (Some q)"
      using rep by (auto simp: ring_rep_def ring_is_def)
    then have "re \<notin> set bs" using free by fastforce
    then show ?thesis using Some by (simp add: without_def removeAll_id)
  qed (simp add: without_def)
qed

lemma ring_detach:
  assumes rep: "ring_rep st R" and e: "relems st re = Some e"
  shows "\<exists>st' e'. ring_element_detach st re = Some st' \<and> ring_rep st' (without re R)
    \<and> relems st' re = Some e' \<and> re_r e' = None \<and> dom (relems st') = dom (relems st)"
proof (cases "re_r e")
  case None
  then show ?thesis using ring_element_detach_free [OF e] without_free [OF rep e] rep e by auto
next
  case (Some r)
  then obtain as where R: "R r = Some as" "re \<in> set as"
    using rep e unfolding ring_rep_def by blast
  show ?thesis
    using ring_element_detach_rep [OF rep R] without_member [OF rep R] by (auto simp: detached_def)
qed

lemma ring_attach_free:
  assumes rep: "ring_rep st R" and R: "R r = Some as" and len: "length as + 1 < 2 ^ 32"
    and e: "relems st re = Some e" "re_r e = None"
  shows "\<exists>st'. ring_element_attach st re r = Some st' \<and> ring_rep st' (R(r \<mapsto> as @ [re]))
    \<and> dom (relems st') = dom (relems st)"
proof -
  have ris: "ring_is st r as" using rep R by (simp add: ring_rep_def)
  have head: "rings st r = Some \<lparr>r_len = length as, r_head = fst_or None as\<rparr>"
    using ris by (simp add: ring_is_def)
  have nin: "re \<notin> set as"
    using ris e by (fastforce simp: ring_is_def)
  have mod: "(length as + 1) mod 2 ^ 32 = length as + 1" using len by simp
  show ?thesis
  proof (cases "as = []")
    case True
    let ?e = "e\<lparr>re_next := Some re, re_prev := Some re, re_r := Some r\<rparr>"
    let ?st = "st\<lparr>rings := (rings st)(r \<mapsto> \<lparr>r_len = 1, r_head = Some re\<rparr>), relems := (relems st)(re \<mapsto> ?e)\<rparr>"
    have "ring_element_attach st re r = Some ?st"
      using e head True by (simp add: ring_element_attach_def)
    moreover have "ring_rep ?st (R(r \<mapsto> [re]))"
      by (rule ring_rep_update [OF rep R, where re = re])
        (use e True in \<open>auto simp: ring_is_cyc cyc_def ring_links_def\<close>)
    ultimately show ?thesis using True e by auto
  next
    case ne: False
    let ?h = "hd as" and ?l = "last as"
    have hl: "?h \<in> set as" "?l \<in> set as" "?h \<noteq> re" "?l \<noteq> re"
      using ne nin hd_in_set [OF ne] last_in_set [OF ne] by auto
    have hd: "fst_or None as = Some ?h" using ne by (cases as) auto
    obtain eh el where eh: "relems st ?h = Some eh" "re_r eh = Some r"
      and el: "relems st ?l = Some el" "re_r el = Some r"
    proof -
      have "map_option re_r (relems st ?h) = Some (Some r)" "map_option re_r (relems st ?l) = Some (Some r)"
        using ris hl by (simp_all add: ring_is_def)
      then show ?thesis using that by auto
    qed
    have cyc: "cyc (ring_links st) as" using ris by (simp add: ring_is_cyc)
    then have pv: "re_prev eh = Some ?l"
      using eh ne by (cases as) (auto simp: cyc_def ring_links_def lst_or_def)
    define m0 where "m0 = (relems st)(re \<mapsto> e\<lparr>re_next := Some ?h, re_prev := Some ?l\<rparr>)"
    define m1 where "m1 = m0(?l \<mapsto> el\<lparr>re_next := Some re\<rparr>)"
    obtain eh1 where eh1: "m1 ?h = Some eh1" "re_r eh1 = Some r"
      using eh el hl that by (cases "?h = ?l") (simp_all add: m1_def m0_def)
    define m2 where "m2 = m1(?h \<mapsto> eh1\<lparr>re_prev := Some re\<rparr>)"
    let ?e = "e\<lparr>re_next := Some ?h, re_prev := Some ?l, re_r := Some r\<rparr>"
    let ?st = "st\<lparr>rings := (rings st)(r \<mapsto> \<lparr>r_len = length as + 1, r_head = Some ?h\<rparr>),
      relems := m2(re \<mapsto> ?e)\<rparr>"
    have m0: "m0 ?l = Some el" "m0 ?h = Some eh" using hl eh el by (simp_all add: m0_def)
    have mre: "m2 re = Some (e\<lparr>re_next := Some ?h, re_prev := Some ?l\<rparr>)"
      using hl by (simp add: m2_def m1_def m0_def)
    have "ring_element_attach st re r = Some ?st"
      using e ne head hd hl eh el pv m0 eh1 mre mod [simplified]
      by (simp add: ring_element_attach_def m0_def [symmetric] m1_def [symmetric] m2_def [symmetric])
    moreover have "ring_is ?st r (as @ [re])"
    proof -
      define lk where "lk = (\<lambda>a. map_option (\<lambda>e. (re_prev e, re_next e)) (m0 a))"
      define lk1 where "lk1 = lk(?l := map_option (\<lambda>(u, v). (u, Some re)) (lk ?l))"
      define lk2 where "lk2 = lk1(?h := map_option (\<lambda>(u, v). (Some re, v)) (lk1 ?h))"
      have k1: "lk1 = (\<lambda>a. map_option (\<lambda>e. (re_prev e, re_next e)) (m1 a))"
        using m0 by (auto simp: lk1_def m1_def lk_def fun_eq_iff)
      have k2: "lk2 a = ring_links ?st a" for a
        using eh1 hl by (auto simp: lk2_def k1 m2_def m1_def m0_def ring_links_def)
      have "cyc lk as"
        using cyc_cong [of as lk "ring_links st"] cyc nin by (force simp: lk_def m0_def ring_links_def)
      then have "cyc lk2 (as @ [re])"
        using cyc_add_last [of lk as re] ris nin ne hl
        by (simp add: lk1_def lk2_def ring_is_def lk_def m0_def)
      moreover have "lk2 = ring_links ?st" using k2 by blast
      moreover have "map_option re_r ((m2(re \<mapsto> ?e)) a) = Some (Some r)" if "a \<in> set (as @ [re])" for a
        using that ris eh1 el by (auto simp: m2_def m1_def m0_def ring_is_def)
      ultimately show ?thesis
        using ris len nin ne by (cases as) (simp_all add: ring_is_cyc)
    qed
    then have "ring_rep ?st (R(r \<mapsto> as @ [re]))"
      by (rule ring_rep_update [OF rep R, where re = re])
        (use hl e in \<open>auto simp: m0_def m1_def m2_def\<close>)
    moreover have "dom (relems ?st) = dom (relems st)"
      using e eh el by (auto simp: m2_def m1_def m0_def)
    ultimately show ?thesis by blast
  qed
qed

lemma ring_attach:
  assumes rep: "ring_rep st R" and R: "R r = Some as" and len: "length as + 1 < 2 ^ 32"
    and e: "relems st re = Some e"
  shows "\<exists>st'. ring_element_attach st re r = Some st'
    \<and> ring_rep st' ((without re R)(r \<mapsto> removeAll re as @ [re])) \<and> dom (relems st') = dom (relems st)"
proof (cases "re_r e")
  case None
  have "removeAll re as = as"
    using without_free [OF rep e None] R by (auto simp: without_def dest: fun_cong [of _ _ r])
  then show ?thesis using ring_attach_free [OF rep R len e None] without_free [OF rep e None] by simp
next
  case (Some q)
  obtain st1 e1 where st1: "ring_element_detach st re = Some st1" "ring_rep st1 (without re R)"
    "relems st1 re = Some e1" "re_r e1 = None" "dom (relems st1) = dom (relems st)"
    using ring_detach [OF rep e] by blast
  have "without re R r = Some (removeAll re as)" using R by (simp add: without_def)
  moreover have "length (removeAll re as) + 1 < 2 ^ 32"
    using len length_removeAll_less_eq [of re as] by linarith
  ultimately obtain st2 where st2: "ring_element_attach st1 re r = Some st2"
    "ring_rep st2 ((without re R)(r \<mapsto> removeAll re as @ [re]))" "dom (relems st2) = dom (relems st1)"
    using ring_attach_free [OF st1(2) _ _ st1(3,4)] by blast
  have "ring_element_attach st re r = ring_element_attach st1 re r"
    using e Some st1 by (simp add: ring_element_attach_def)
  then show ?thesis using st1(5) st2 by simp
qed

lemma ring_advance_rep:
  assumes rep: "ring_rep st R" and R: "R r = Some as"
  shows "\<exists>st'. ring_advance st r = Some st' \<and> ring_rep st' (R(r \<mapsto> rotate1 as)) \<and> relems st' = relems st"
proof (cases as)
  case Nil
  have "rings st r = Some \<lparr>r_len = 0, r_head = None\<rparr>"
    using rep R Nil by (auto simp: ring_rep_def ring_is_def)
  moreover have "R(r \<mapsto> []) = R" using R Nil by auto
  ultimately show ?thesis using rep Nil by (simp add: ring_advance_def)
next
  case (Cons a bs)
  have ris: "ring_is st r as" using rep R by (simp add: ring_rep_def)
  then obtain e where e: "relems st a = Some e"
    using Cons by (auto simp: ring_is_def)
  have cyc: "cyc (ring_links st) (a # bs)" using ris Cons by (simp add: ring_is_cyc)
  then have cyc': "cyc (ring_links st) (bs @ [a])"
    using cyc_rotate [of _ "[a]" bs] by simp
  have nx: "re_next e = fst_or None (bs @ [a])"
    using cyc e by (simp add: cyc_def ring_links_def fst_or_append)
  let ?st = "st\<lparr>rings := (rings st)(r \<mapsto> \<lparr>r_len = length as, r_head = fst_or None (bs @ [a])\<rparr>)\<rparr>"
  have run: "ring_advance st r = Some ?st"
    using ris Cons e nx by (simp add: ring_advance_def ring_is_def)
  have "ring_rep ?st (R(r \<mapsto> bs @ [a]))"
  proof (rule ring_rep_update [OF rep R, where re = a])
    have "cyc (ring_links ?st) (bs @ [a]) = cyc (ring_links st) (bs @ [a])"
      by (rule cyc_cong) (simp add: ring_links_def)
    then show "ring_is ?st r (bs @ [a])"
      using ris cyc' Cons by (auto simp: ring_is_cyc)
  qed (use Cons in auto)
  then show ?thesis using run Cons by auto
qed

lemma init_ring_rep:
  assumes "ring_rep st R" and "rings st r = None"
  shows "ring_rep (init_ring st r) (R(r \<mapsto> []))"
proof -
  have "R r = None" using assms by (metis domIff ring_rep_def)
  have 1: "ring_is (init_ring st r) q bs" if "ring_is st q bs" "q \<noteq> r" for q bs
    using that by (intro ring_rep_cong_other [OF that(1)]) (simp_all add: init_ring_def)
  have 2: "ring_is (init_ring st r) r []" by (simp add: ring_is_def init_ring_def)
  have 3: "\<exists>bs. R q = Some bs \<and> a \<in> set bs" if "relems st a = Some e" "re_r e = Some q" for a e q
    using assms(1) that by (auto simp: ring_rep_def)
  have 4: "dom (R(r \<mapsto> [])) = dom (rings (init_ring st r))"
    using assms(1) by (auto simp: ring_rep_def init_ring_def)
  show ?thesis
    unfolding ring_rep_def using assms(1) 1 2 3 4 \<open>R r = None\<close>
    by (auto simp: ring_rep_def init_ring_def split: if_splits) (metis option.distinct(1))+
qed

section \<open>The promises of the ring\<close>

text \<open>The store of the examples: a ring at 10 with the elements 1 and 2, an empty ring at 20, and the
  element 3, which is in no ring.\<close>

definition ring_sample :: ring_store where
  "ring_sample = \<lparr>rings = [10 \<mapsto> \<lparr>r_len = 2, r_head = Some 1\<rparr>, 20 \<mapsto> \<lparr>r_len = 0, r_head = None\<rparr>],
     relems = [1 \<mapsto> \<lparr>re_r = Some 10, re_next = Some 2, re_prev = Some 2\<rparr>,
       2 \<mapsto> \<lparr>re_r = Some 10, re_next = Some 1, re_prev = Some 1\<rparr>, 3 \<mapsto> detached]\<rparr>"

lemma ring_sample_rep: "ring_rep ring_sample [10 \<mapsto> [1, 2], 20 \<mapsto> []]"
  by (auto simp: ring_rep_def ring_is_def ring_sample_def ring_links_def lst_or_def detached_def split: if_splits)

lemma ring_sample_elems: "relems ring_sample 1 = Some \<lparr>re_r = Some 10, re_next = Some 2, re_prev = Some 2\<rparr>"
  "relems ring_sample 3 = Some detached"
  by (simp_all add: ring_sample_def)

text \<open>Attaching an element puts it at the end of the ring and takes it out of whatever ring held it
  before, this one included; all other elements keep their ring and their order.\<close>

theorem ring_attach_spec:
  assumes "ring_rep st R" and "R r = Some as" and "length as + 1 < 2 ^ 32" and "relems st re \<noteq> None"
  shows "\<exists>st'. ring_element_attach st re r = Some st'
    \<and> ring_rep st' ((without re R)(r \<mapsto> removeAll re as @ [re])) \<and> dom (relems st') = dom (relems st)"
  using ring_attach [OF assms(1-3)] assms(4) by blast

theorem ring_attach_spec_witness:
  "\<exists>st'. ring_element_attach ring_sample 1 20 = Some st'
    \<and> ring_rep st' ((without 1 [10 \<mapsto> [1, 2], 20 \<mapsto> []])(20 \<mapsto> [1]))"
  using ring_attach_spec [OF ring_sample_rep, of 20 "[]" 1] ring_sample_elems by auto

text \<open>Detaching is total and idempotent in effect: the element is in no ring afterwards, and every ring
  keeps its other elements in order.\<close>

theorem ring_detach_spec:
  assumes "ring_rep st R" and "relems st re \<noteq> None"
  shows "\<exists>st' e'. ring_element_detach st re = Some st' \<and> ring_rep st' (without re R)
    \<and> relems st' re = Some e' \<and> re_r e' = None \<and> ring_element_detach st' re = Some st'"
proof -
  obtain e where "relems st re = Some e" using assms(2) by blast
  from ring_detach [OF assms(1) this] obtain st' e' where
    "ring_element_detach st re = Some st'" "ring_rep st' (without re R)" "relems st' re = Some e'" "re_r e' = None"
    by blast
  then show ?thesis using ring_element_detach_free [of st' re e'] by blast
qed

theorem ring_detach_spec_witness:
  "\<exists>st'. ring_element_detach ring_sample 1 = Some st' \<and> ring_rep st' (without 1 [10 \<mapsto> [1, 2], 20 \<mapsto> []])"
  using ring_detach_spec [OF ring_sample_rep, of 1] ring_sample_elems by auto

text \<open>Repeated advancing, as the scheduler does at every tick.\<close>

fun ring_advance_n :: "nat \<Rightarrow> ring_store \<Rightarrow> addr \<Rightarrow> ring_store option" where
  "ring_advance_n 0 st r = Some st"
| "ring_advance_n (Suc n) st r = do { st \<leftarrow> ring_advance st r; ring_advance_n n st r }"

lemma ring_advance_n_rep:
  "ring_rep st R \<Longrightarrow> R r = Some as \<Longrightarrow>
   \<exists>st'. ring_advance_n n st r = Some st' \<and> ring_rep st' (R(r \<mapsto> rotate n as))"
proof (induction n arbitrary: st R as)
  case 0
  then show ?case by (auto simp: fun_upd_idem)
next
  case (Suc n)
  obtain st1 where st1: "ring_advance st r = Some st1" "ring_rep st1 (R(r \<mapsto> rotate1 as))"
    using ring_advance_rep [OF Suc.prems] by blast
  from Suc.IH [OF st1(2), of "rotate1 as"] show ?case
    using st1(1) by (simp add: rotate1_rotate_swap flip: fun_upd_def)
qed

text \<open>C33. Round robin: after \<open>n\<close> advances the head of a non-empty ring is the element \<open>n\<close> places after the old
  head, so that \<open>length\<close> advances give every element its turn exactly once and restore the ring.\<close>

theorem ring_round_robin:
  assumes "ring_rep st R" and "R r = Some as" and "as \<noteq> []"
  shows "\<exists>st' l. ring_advance_n n st r = Some st' \<and> rings st' r = Some \<lparr>r_len = l, r_head = Some (as ! (n mod length as))\<rparr>
    \<and> l = length as \<and> (n = length as \<longrightarrow> ring_rep st' R)"
proof -
  from ring_advance_n_rep [OF assms(1,2), of n] obtain st' where
    st': "ring_advance_n n st r = Some st'" "ring_rep st' (R(r \<mapsto> rotate n as))" by blast
  then have "ring_is st' r (rotate n as)" by (auto simp: ring_rep_def)
  moreover have "fst_or None (rotate n as) = Some (as ! (n mod length as))"
    using assms(3) by (simp add: fst_or_eq_Some hd_rotate_conv_nth)
  ultimately have "rings st' r = Some \<lparr>r_len = length as, r_head = Some (as ! (n mod length as))\<rparr>"
    by (simp add: ring_is_def)
  then show ?thesis using st' assms(2) by (auto simp: fun_upd_idem)
qed

theorem ring_round_robin_witness:
  "\<exists>st'. ring_advance_n 1 ring_sample 10 = Some st' \<and> rings st' 10 = Some \<lparr>r_len = 2, r_head = Some 2\<rparr>"
  using ring_round_robin [OF ring_sample_rep, of 10 "[1, 2]" 1] by auto

end
