(* ===== verification/Byte_Cells.thy ===== *)
theory Byte_Cells imports Fern_Prelude begin

text \<open>
  Byte buffers divided into cells, the storage of the fixed queue and of the heap: a cell
  is copied with \<^verbatim>\<open>mem_cpy\<close> from or to the offset \<open>cell_size * i\<close>, computed in \<^verbatim>\<open>size_t\<close>.
  A copy that leaves the buffer is a fault.  \<open>cells\<close> reads a buffer as a list of cells;
  the lemmas turn the copies into list accesses.
\<close>

type_synonym bytes = "8 word list"

definition buf_read :: "bytes \<Rightarrow> nat \<Rightarrow> nat \<Rightarrow> bytes option" where
  "buf_read buf off n = (if off + n \<le> length buf then Some (take n (drop off buf)) else None)"

definition buf_write :: "bytes \<Rightarrow> nat \<Rightarrow> bytes \<Rightarrow> bytes option" where
  "buf_write buf off v =
     (if off + length v \<le> length buf then Some (take off buf @ v @ drop (off + length v) buf) else None)"

definition cell_read :: "nat \<Rightarrow> bytes \<Rightarrow> nat \<Rightarrow> bytes option" where
  "cell_read cs buf i = buf_read buf (cs * i mod 2 ^ 32) cs"

text \<open>\<^verbatim>\<open>mem_cpy(buf + cs * i, src, cs)\<close>: \<open>cs\<close> bytes are read from the source.\<close>

definition cell_write :: "nat \<Rightarrow> bytes \<Rightarrow> nat \<Rightarrow> bytes \<Rightarrow> bytes option" where
  "cell_write cs buf i v = do {
     w \<leftarrow> buf_read v 0 cs;
     buf_write buf (cs * i mod 2 ^ 32) w }"

definition cells :: "nat \<Rightarrow> nat \<Rightarrow> bytes \<Rightarrow> bytes list" where
  "cells cs n buf = map (\<lambda>i. take cs (drop (cs * i) buf)) [0..<n]"

text \<open>A buffer that holds \<open>n\<close> cells of \<open>cs\<close> bytes and whose size \<^verbatim>\<open>size_t\<close> can express.\<close>

definition cells_ok :: "nat \<Rightarrow> nat \<Rightarrow> bytes \<Rightarrow> bool" where
  "cells_ok cs n buf \<longleftrightarrow> cs * n \<le> length buf \<and> length buf < 2 ^ 32"

lemma length_cells [simp]: "length (cells cs n buf) = n"
  by (simp add: cells_def)

lemma cell_end: "i < n \<Longrightarrow> cs * i + cs \<le> cs * (n :: nat)"
  using mult_le_mono2 [of "Suc i" n cs] by simp

lemma cells_okD:
  assumes "cells_ok cs n buf" and "i < n"
  shows "cs * i + cs \<le> length buf" and "cs * i mod 2 ^ 32 = cs * i"
proof -
  show *: "cs * i + cs \<le> length buf"
    using cell_end [OF assms(2), of cs] assms(1) by (simp add: cells_ok_def)
  then have "cs * i < 2 ^ 32" using assms(1) by (simp add: cells_ok_def)
  then show "cs * i mod 2 ^ 32 = cs * i" by simp
qed

lemma cell_read_cells:
  "cells_ok cs n buf \<Longrightarrow> i < n \<Longrightarrow> cell_read cs buf i = Some (cells cs n buf ! i)"
  using cells_okD [of cs n buf i] by (simp add: cell_read_def buf_read_def cells_def)

lemma cell_disjoint: "i \<noteq> j \<Longrightarrow> cs * i + cs \<le> cs * j \<or> cs * j + cs \<le> cs * (i :: nat)"
  using cell_end [of i j cs] cell_end [of j i cs] by (cases i j rule: linorder_cases) simp_all

lemma take_drop_mid:
  assumes "length v = n" and "off + n \<le> length xs" and "j + n \<le> off \<or> off + n \<le> j"
  shows "take n (drop j (take off xs @ v @ drop (off + n) xs)) = take n (drop j xs)"
proof (cases "j + n \<le> off")
  case True
  then show ?thesis using assms by (simp add: min_def take_drop)
next
  case False
  then have "off + n \<le> j" using assms(3) by simp
  then show ?thesis using assms by simp
qed

lemma cell_write_cells:
  assumes ok: "cells_ok cs n buf" and i: "i < n" and v: "length v = cs"
  shows "\<exists>buf'. cell_write cs buf i v = Some buf' \<and> cells_ok cs n buf' \<and> length buf' = length buf
    \<and> cells cs n buf' = (cells cs n buf)[i := v]"
proof -
  note b = cells_okD [OF ok i]
  let ?b = "take (cs * i) buf @ v @ drop (cs * i + cs) buf"
  have "cell_write cs buf i v = Some ?b"
    using b v by (simp add: cell_write_def buf_read_def buf_write_def)
  moreover have len: "length ?b = length buf" using b v by simp
  moreover have "cells cs n ?b ! j = (cells cs n buf)[i := v] ! j" if "j < n" for j
  proof (cases "j = i")
    case True
    then show ?thesis using b v i by (simp add: cells_def)
  next
    case False
    then have "cs * j + cs \<le> cs * i \<or> cs * i + cs \<le> cs * j" using cell_disjoint by blast
    then have "take cs (drop (cs * j) ?b) = take cs (drop (cs * j) buf)"
      by (rule take_drop_mid [OF v b(1)])
    then show ?thesis using that False by (simp add: cells_def)
  qed
  then have "cells cs n ?b = (cells cs n buf)[i := v]"
    by (intro nth_equalityI) simp_all
  ultimately show ?thesis using ok by (auto simp: cells_ok_def)
qed

lemma cells_length: "cells_ok cs n buf \<Longrightarrow> c \<in> set (cells cs n buf) \<Longrightarrow> length c = cs"
  using cells_okD(1) by (fastforce simp: cells_def)

lemma cells_nth_length: "cells_ok cs n buf \<Longrightarrow> i < n \<Longrightarrow> length (cells cs n buf ! i) = cs"
  by (rule cells_length [OF _ nth_mem]) simp_all

end
