(* ===== verification/Fixed_Queue.thy ===== *)
theory Fixed_Queue imports Byte_Cells begin

text \<open>
  The bounded queue of \<^verbatim>\<open>src/src/s_data/src/fixed_queue.c\<close>: a cyclic buffer with the
  indices of the first and the last occupied cell and a flag for emptiness, which the
  two indices alone cannot tell from one element.
\<close>

section \<open>State and operations\<close>

record fixed_queue =
  fq_cell_size :: nat
  fq_capacity :: nat
  fq_buffer :: bytes
  fq_start :: nat
  fq_end :: nat
  fq_empty :: bool

text \<open>
  \<open>fq_ok\<close> and \<open>mem\<close> are the allocator's answers for the structure and for the buffer,
  whose size \<^verbatim>\<open>cs * cap\<close> is computed modulo \<open>2 ^ 32\<close>; \<open>junk\<close> is the content of fresh memory.
\<close>

definition new_fixed_queue ::
  "bool \<Rightarrow> bool \<Rightarrow> (nat \<Rightarrow> bool) \<Rightarrow> 8 word \<Rightarrow> nat \<Rightarrow> nat \<Rightarrow> fixed_queue option"
where
  "new_fixed_queue al_nonnull fq_ok mem junk cs cap =
     (if \<not> al_nonnull \<or> cs = 0 \<or> cap = 0 then None
      else if \<not> fq_ok \<or> \<not> mem (cs * cap mod 2 ^ 32) then None
      else Some \<lparr>fq_cell_size = cs, fq_capacity = cap, fq_buffer = replicate (cs * cap mod 2 ^ 32) junk,
        fq_start = 0, fq_end = 0, fq_empty = True\<rparr>)"

definition fq_is_empty :: "fixed_queue \<Rightarrow> bool" where
  "fq_is_empty q = fq_empty q"

definition fq_enqueue :: "fixed_queue \<Rightarrow> bytes option \<Rightarrow> bool \<Rightarrow> (bool \<times> fixed_queue) option" where
  "fq_enqueue q ele writeover =
     (case ele of
        None \<Rightarrow> Some (False, q)
      | Some v \<Rightarrow>
          (if fq_empty q then do {
             b \<leftarrow> cell_write (fq_cell_size q) (fq_buffer q) (fq_end q) v;
             Some (True, q\<lparr>fq_buffer := b, fq_empty := False\<rparr>) }
           else
             let new_end = (fq_end q + 1) mod 2 ^ 32 mod fq_capacity q in
             if new_end = fq_start q then
               (if \<not> writeover then Some (False, q)
                else do {
                  b \<leftarrow> cell_write (fq_cell_size q) (fq_buffer q) new_end v;
                  Some (True, q\<lparr>fq_buffer := b, fq_end := new_end,
                    fq_start := (fq_start q + 1) mod 2 ^ 32 mod fq_capacity q\<rparr>) })
             else do {
               b \<leftarrow> cell_write (fq_cell_size q) (fq_buffer q) new_end v;
               Some (True, q\<lparr>fq_buffer := b, fq_end := new_end\<rparr>) }))"

text \<open>Whether something was polled, what \<^verbatim>\<open>dest\<close> received, and the queue.\<close>

definition fq_poll :: "fixed_queue \<Rightarrow> bool \<Rightarrow> (bool \<times> bytes option \<times> fixed_queue) option" where
  "fq_poll q dest_nonnull =
     (if \<not> dest_nonnull \<or> fq_empty q then Some (False, None, q)
      else do {
        v \<leftarrow> cell_read (fq_cell_size q) (fq_buffer q) (fq_start q);
        Some (True, Some v,
          if fq_start q = fq_end q then q\<lparr>fq_empty := True\<rparr>
          else q\<lparr>fq_start := (fq_start q + 1) mod 2 ^ 32 mod fq_capacity q\<rparr>) })"

section \<open>The queue that the buffer represents\<close>

definition fq_cells :: "fixed_queue \<Rightarrow> bytes list" where
  "fq_cells q = cells (fq_cell_size q) (fq_capacity q) (fq_buffer q)"

text \<open>The cells from \<open>s\<close> on, \<open>n\<close> of them, going round the end of the buffer.\<close>

definition cyclic_slice :: "'a list \<Rightarrow> nat \<Rightarrow> nat \<Rightarrow> 'a list" where
  "cyclic_slice cs s n = map (\<lambda>k. cs ! ((s + k) mod length cs)) [0..<n]"

definition fq_len :: "fixed_queue \<Rightarrow> nat" where
  "fq_len q = (if fq_empty q then 0
     else (fq_end q + fq_capacity q - fq_start q) mod fq_capacity q + 1)"

definition fq_abs :: "fixed_queue \<Rightarrow> bytes list" where
  "fq_abs q = cyclic_slice (fq_cells q) (fq_start q) (fq_len q)"

definition fq_inv :: "fixed_queue \<Rightarrow> bool" where
  "fq_inv q \<longleftrightarrow> 0 < fq_cell_size q \<and> 0 < fq_capacity q \<and> fq_start q < fq_capacity q
     \<and> fq_end q < fq_capacity q \<and> (fq_empty q \<longrightarrow> fq_start q = fq_end q)
     \<and> cells_ok (fq_cell_size q) (fq_capacity q) (fq_buffer q)"

lemma fq_capacity_bound: "fq_inv q \<Longrightarrow> fq_capacity q < 2 ^ 32"
proof -
  assume i: "fq_inv q"
  then have "1 * fq_capacity q \<le> fq_cell_size q * fq_capacity q"
    by (intro mult_le_mono1) (simp add: fq_inv_def)
  then show ?thesis using i unfolding fq_inv_def cells_ok_def by linarith
qed

lemma fq_step_mod: "fq_inv q \<Longrightarrow> i < fq_capacity q \<Longrightarrow>
  (i + 1) mod 2 ^ 32 mod fq_capacity q = (if i + 1 = fq_capacity q then 0 else i + 1)"
  using fq_capacity_bound [of q] by auto

text \<open>Distances on the cycle, without \<^verbatim>\<open>mod\<close>.\<close>

lemma cyc_dist: "s < c \<Longrightarrow> e < c \<Longrightarrow> (e + c - s) mod c = (if s \<le> e then e - s else e + c - (s :: nat))"
proof -
  assume se: "s < c" "e < c"
  show ?thesis
  proof (cases "s \<le> e")
    case True
    then have "e + c - s = (e - s) + c" by simp
    then show ?thesis using True se by (metis less_imp_diff_less mod_add_self2 mod_less)
  qed (use se in simp)
qed

lemma cyc_pos: "s < c \<Longrightarrow> k < c \<Longrightarrow> (s + k) mod c = (if s + k < c then s + k else s + k - (c :: nat))"
  by (simp add: mod_if)

lemma length_cyclic_slice [simp]: "length (cyclic_slice cs s n) = n"
  by (simp add: cyclic_slice_def)

lemma cyclic_slice_Suc: "cyclic_slice cs s (Suc n) = cyclic_slice cs s n @ [cs ! ((s + n) mod length cs)]"
  by (simp add: cyclic_slice_def)

lemma cyclic_slice_Cons:
  "cyclic_slice cs s (Suc n) = cs ! (s mod length cs) # cyclic_slice cs ((s + 1) mod length cs) n"
  by (simp add: cyclic_slice_def upt_conv_Cons map_Suc_upt [symmetric] mod_add_left_eq
      del: upt_Suc)

lemma cyclic_slice_update:
  assumes "s < length cs" and "n \<le> length cs" and "i < length cs"
    and "\<And>k. k < n \<Longrightarrow> (s + k) mod length cs \<noteq> i"
  shows "cyclic_slice (cs[i := v]) s n = cyclic_slice cs s n"
  unfolding cyclic_slice_def
proof (rule map_cong [OF refl])
  fix k assume "k \<in> set [0..<n]"
  then have "i \<noteq> (s + k) mod length cs" using assms(4) by fastforce
  then show "cs[i := v] ! ((s + k) mod length (cs[i := v])) = cs ! ((s + k) mod length cs)" by simp
qed

lemma fq_len_eq: "fq_inv q \<Longrightarrow> fq_len q = (if fq_empty q then 0
    else if fq_start q \<le> fq_end q then fq_end q - fq_start q + 1
    else fq_end q + fq_capacity q - fq_start q + 1)"
  using cyc_dist [of "fq_start q" "fq_capacity q" "fq_end q"] by (auto simp: fq_inv_def fq_len_def)

lemma fq_len_le: "fq_inv q \<Longrightarrow> fq_len q \<le> fq_capacity q"
  using fq_len_eq [of q] by (auto simp: fq_inv_def)

lemma length_fq_abs [simp]: "length (fq_abs q) = fq_len q"
  by (simp add: fq_abs_def)

lemma fq_abs_empty: "fq_inv q \<Longrightarrow> fq_abs q = [] \<longleftrightarrow> fq_empty q"
  using fq_len_eq [of q] by (auto simp: length_0_conv [symmetric] simp del: length_0_conv)

lemma length_fq_cells [simp]: "length (fq_cells q) = fq_capacity q"
  by (simp add: fq_cells_def)

lemma fq_write:
  assumes inv: "fq_inv q" and i: "i < fq_capacity q" and v: "length v = fq_cell_size q"
  shows "\<exists>b. cell_write (fq_cell_size q) (fq_buffer q) i v = Some b
    \<and> cells_ok (fq_cell_size q) (fq_capacity q) b
    \<and> cells (fq_cell_size q) (fq_capacity q) b = (fq_cells q)[i := v]"
  using cell_write_cells [OF _ i v, of "fq_buffer q"] inv by (auto simp: fq_inv_def fq_cells_def)

lemma new_fixed_queue_inv:
  assumes "new_fixed_queue al fq_ok mem junk cs cap = Some q" and "cs * cap < 2 ^ 32"
  shows "fq_inv q \<and> fq_abs q = [] \<and> fq_capacity q = cap \<and> fq_cell_size q = cs"
  using assms
  by (auto simp: new_fixed_queue_def fq_inv_def cells_ok_def fq_abs_def fq_len_def cyclic_slice_def
      split: if_splits)

section \<open>Enqueueing and polling\<close>

lemma fq_next_pos:
  assumes inv: "fq_inv q" and ne: "\<not> fq_empty q"
  defines "n \<equiv> (fq_end q + 1) mod 2 ^ 32 mod fq_capacity q"
  shows "n < fq_capacity q" and "n = (fq_start q + fq_len q) mod fq_capacity q"
    and "n = fq_start q \<longleftrightarrow> fq_len q = fq_capacity q"
proof -
  have b: "fq_start q < fq_capacity q" "fq_end q < fq_capacity q" using inv by (simp_all add: fq_inv_def)
  have n: "n = (if fq_end q + 1 = fq_capacity q then 0 else fq_end q + 1)"
    unfolding n_def by (rule fq_step_mod [OF inv b(2)])
  show "n < fq_capacity q" using n b by simp
  show "n = fq_start q \<longleftrightarrow> fq_len q = fq_capacity q"
    using n b ne fq_len_eq [OF inv] by auto
  show "n = (fq_start q + fq_len q) mod fq_capacity q"
    using n b ne fq_len_eq [OF inv] by (auto simp: mod_if)
qed

lemma cyc_pos_distinct:
  "s < c \<Longrightarrow> n < (c :: nat) \<Longrightarrow> k < n \<Longrightarrow> (s + k) mod c \<noteq> (s + n) mod c"
  by (simp add: cyc_pos) linarith

lemma fq_enqueue_null: "fq_enqueue q None w = Some (False, q)"
  by (simp add: fq_enqueue_def)

lemma fq_enqueue_room:
  assumes inv: "fq_inv q" and v: "length v = fq_cell_size q" and room: "fq_len q < fq_capacity q"
  shows "\<exists>q'. fq_enqueue q (Some v) w = Some (True, q') \<and> fq_inv q' \<and> fq_abs q' = fq_abs q @ [v]
    \<and> fq_capacity q' = fq_capacity q \<and> fq_cell_size q' = fq_cell_size q"
proof (cases "fq_empty q")
  case True
  have e: "fq_end q < fq_capacity q" "fq_start q = fq_end q" using inv True by (auto simp: fq_inv_def)
  obtain b where b: "cell_write (fq_cell_size q) (fq_buffer q) (fq_end q) v = Some b"
    "cells_ok (fq_cell_size q) (fq_capacity q) b"
    "cells (fq_cell_size q) (fq_capacity q) b = (fq_cells q)[fq_end q := v]"
    using fq_write [OF inv e(1) v] by blast
  show ?thesis
    using inv b e True
    by (auto simp: fq_enqueue_def fq_inv_def fq_abs_def fq_len_def cyclic_slice_def fq_cells_def)
next
  case False
  let ?n = "(fq_end q + 1) mod 2 ^ 32 mod fq_capacity q"
  note n = fq_next_pos [OF inv False]
  obtain b where b: "cell_write (fq_cell_size q) (fq_buffer q) ?n v = Some b"
    "cells_ok (fq_cell_size q) (fq_capacity q) b"
    "cells (fq_cell_size q) (fq_capacity q) b = (fq_cells q)[?n := v]"
    using fq_write [OF inv n(1) v] by blast
  let ?q = "q\<lparr>fq_buffer := b, fq_end := ?n\<rparr>"
  have run: "fq_enqueue q (Some v) w = Some (True, ?q)"
    using False b n(3) room by (simp add: fq_enqueue_def Let_def)
  have s: "fq_start q < fq_capacity q" and e: "fq_end q < fq_capacity q" using inv by (simp_all add: fq_inv_def)
  have inv': "fq_inv ?q" using inv b(2) n(1) False by (simp add: fq_inv_def)
  have len: "fq_len ?q = Suc (fq_len q)"
    using fq_len_eq [OF inv'] fq_len_eq [OF inv] False room e s fq_step_mod [OF inv e] by auto
  have "(fq_start q + k) mod fq_capacity q \<noteq> ?n" if "k < fq_len q" for k
    using cyc_pos_distinct [OF s room that] n(2) by simp
  then have "cyclic_slice ((fq_cells q)[?n := v]) (fq_start q) (fq_len q)
      = cyclic_slice (fq_cells q) (fq_start q) (fq_len q)"
    using s n(1) room by (intro cyclic_slice_update) simp_all
  moreover have "fq_cells ?q = (fq_cells q)[?n := v]" using b(3) by (simp add: fq_cells_def)
  moreover have "(fq_start q + fq_len q) mod fq_capacity q = ?n" using n(2) by simp
  ultimately have "fq_abs ?q = fq_abs q @ [v]"
    using n(1) unfolding fq_abs_def len cyclic_slice_Suc by simp
  then show ?thesis using run inv' by auto
qed

lemma fq_full_nonempty: "fq_inv q \<Longrightarrow> fq_len q = fq_capacity q \<Longrightarrow> \<not> fq_empty q"
  using fq_len_eq [of q] by (auto simp: fq_inv_def)

lemma fq_enqueue_full:
  assumes inv: "fq_inv q" and full: "fq_len q = fq_capacity q"
  shows "fq_enqueue q (Some v) False = Some (False, q)"
  using fq_next_pos(3) [OF inv fq_full_nonempty [OF inv full]] full fq_full_nonempty [OF inv full]
  by (simp add: fq_enqueue_def Let_def)

lemma fq_enqueue_writeover:
  assumes inv: "fq_inv q" and v: "length v = fq_cell_size q" and full: "fq_len q = fq_capacity q"
  shows "\<exists>q'. fq_enqueue q (Some v) True = Some (True, q') \<and> fq_inv q' \<and> fq_abs q' = tl (fq_abs q) @ [v]
    \<and> fq_capacity q' = fq_capacity q \<and> fq_cell_size q' = fq_cell_size q"
proof -
  let ?c = "fq_capacity q" and ?s = "fq_start q"
  note ne = fq_full_nonempty [OF inv full]
  have s: "?s < ?c" using inv by (simp add: fq_inv_def)
  have n: "(fq_end q + 1) mod 2 ^ 32 mod ?c = ?s" using fq_next_pos(3) [OF inv ne] full by simp
  obtain b where b: "cell_write (fq_cell_size q) (fq_buffer q) ?s v = Some b"
    "cells_ok (fq_cell_size q) ?c b" "cells (fq_cell_size q) ?c b = (fq_cells q)[?s := v]"
    using fq_write [OF inv s v] by blast
  let ?s' = "(?s + 1) mod 2 ^ 32 mod ?c"
  let ?q = "q\<lparr>fq_buffer := b, fq_end := ?s, fq_start := ?s'\<rparr>"
  have s': "?s' = (?s + 1) mod ?c" "?s' < ?c"
    using fq_step_mod [OF inv s] s by (auto simp: mod_if)
  have run: "fq_enqueue q (Some v) True = Some (True, ?q)"
    using ne b n by (simp add: fq_enqueue_def Let_def)
  have inv': "fq_inv ?q" using inv b(2) ne s s'(2) by (simp add: fq_inv_def)
  obtain m where m: "?c = Suc m" using s by (cases ?c) auto
  have len: "fq_len ?q = Suc m"
    using fq_len_eq [OF inv'] ne s fq_step_mod [OF inv s] m by auto
  have pos: "(?s' + m) mod ?c = ?s"
  proof -
    have "((?s + 1) mod ?c + m) mod ?c = (?s + 1 + m) mod ?c" by (rule mod_add_left_eq)
    also have "?s + 1 + m = ?s + ?c" by (simp add: m)
    finally show ?thesis using s by (simp only: s'(1)) simp
  qed
  have "(?s' + k) mod ?c \<noteq> ?s" if "k < m" for k
    using cyc_pos_distinct [OF s'(2), of m k] that m pos by simp
  then have "cyclic_slice ((fq_cells q)[?s := v]) ?s' m = cyclic_slice (fq_cells q) ?s' m"
    using s s' m by (intro cyclic_slice_update) simp_all
  moreover have "fq_cells ?q = (fq_cells q)[?s := v]" using b(3) by (simp add: fq_cells_def)
  moreover have "tl (fq_abs q) = cyclic_slice (fq_cells q) ?s' m"
    using s'(1) [simplified] by (simp add: fq_abs_def full cyclic_slice_Cons m)
  ultimately have "fq_abs ?q = tl (fq_abs q) @ [v]"
    using pos s unfolding fq_abs_def [of ?q] len cyclic_slice_Suc by simp
  then show ?thesis using run inv' by auto
qed

lemma fq_poll_empty: "fq_empty q \<Longrightarrow> fq_poll q d = Some (False, None, q)"
  by (simp add: fq_poll_def)

lemma fq_poll_cons:
  assumes inv: "fq_inv q" and abs: "fq_abs q = v # vs"
  shows "\<exists>q'. fq_poll q True = Some (True, Some v, q') \<and> fq_inv q' \<and> fq_abs q' = vs
    \<and> fq_capacity q' = fq_capacity q \<and> fq_cell_size q' = fq_cell_size q"
proof -
  let ?c = "fq_capacity q" and ?s = "fq_start q"
  have ne: "\<not> fq_empty q" using fq_abs_empty [OF inv] abs by simp
  have s: "?s < ?c" "fq_end q < ?c" using inv by (simp_all add: fq_inv_def)
  obtain m where m: "fq_len q = Suc m" using abs by (metis length_Cons length_fq_abs)
  have vv: "v = fq_cells q ! ?s" "vs = cyclic_slice (fq_cells q) ((?s + 1) mod ?c) m"
    using abs m s by (simp_all add: fq_abs_def cyclic_slice_Cons)
  have rd: "cell_read (fq_cell_size q) (fq_buffer q) ?s = Some v"
    using cell_read_cells [of _ ?c _ ?s] inv s(1) by (simp add: vv fq_inv_def fq_cells_def)
  let ?q = "if ?s = fq_end q then q\<lparr>fq_empty := True\<rparr>
      else q\<lparr>fq_start := (?s + 1) mod 2 ^ 32 mod ?c\<rparr>"
  have run: "fq_poll q True = Some (True, Some v, ?q)"
    using ne rd by (simp add: fq_poll_def)
  show ?thesis
  proof (cases "?s = fq_end q")
    case True
    then have "m = 0" using m fq_len_eq [OF inv] ne by simp
    then have "fq_abs ?q = vs" using True by (simp add: vv fq_abs_def fq_len_def cyclic_slice_def)
    moreover have "fq_inv ?q" using True inv by (simp add: fq_inv_def)
    ultimately show ?thesis using run True by auto
  next
    case False
    let ?q = "q\<lparr>fq_start := (?s + 1) mod 2 ^ 32 mod ?c\<rparr>"
    have st: "(?s + 1) mod 2 ^ 32 mod ?c = (?s + 1) mod ?c" "(?s + 1) mod ?c < ?c"
      using fq_step_mod [OF inv s(1)] s by (auto simp: mod_if)
    have inv': "fq_inv ?q" using inv ne st by (simp add: fq_inv_def)
    have "fq_len ?q = m"
      using fq_len_eq [OF inv'] fq_len_eq [OF inv] ne m False s fq_step_mod [OF inv s(1)] by auto
    then have "fq_abs ?q = vs" using st(1) [simplified] by (simp add: vv fq_abs_def fq_cells_def)
    then show ?thesis using run inv' False by auto
  qed
qed

section \<open>The promises of the fixed queue\<close>

text \<open>A queue of two one-byte cells, full, whose content wraps around the end of the buffer.\<close>

definition fq_sample :: fixed_queue where
  "fq_sample = \<lparr>fq_cell_size = 1, fq_capacity = 2, fq_buffer = [8, 7], fq_start = 1, fq_end = 0, fq_empty = False\<rparr>"

lemma fq_sample_inv: "fq_inv fq_sample" "fq_abs fq_sample = [[7], [8]]" "fq_cell_size fq_sample = 1"
  "fq_capacity fq_sample = 2"
  by (simp_all add: fq_sample_def fq_inv_def cells_ok_def fq_abs_def cyclic_slice_def fq_cells_def cells_def fq_len_def
      nth_Cons' upt_rec [of _ "2 :: nat"])

text \<open>Enqueueing against the abstract queue: a null element changes nothing; with room the element joins
  the back; a full queue refuses it, or, when overwriting is asked for, drops its oldest element for it.\<close>

theorem fq_enqueue_spec:
  assumes inv: "fq_inv q" and v: "\<And>v. ele = Some v \<Longrightarrow> length v = fq_cell_size q"
  shows "\<exists>b q'. fq_enqueue q ele writeover = Some (b, q') \<and> fq_inv q' \<and> fq_capacity q' = fq_capacity q
    \<and> (b, fq_abs q') = (case ele of
         None \<Rightarrow> (False, fq_abs q)
       | Some v \<Rightarrow> if length (fq_abs q) < fq_capacity q then (True, fq_abs q @ [v])
           else if writeover then (True, tl (fq_abs q) @ [v]) else (False, fq_abs q))"
proof (cases ele)
  case None
  then show ?thesis using inv by (auto simp: fq_enqueue_null)
next
  case (Some v)
  then have len: "length v = fq_cell_size q" using v by simp
  consider "fq_len q < fq_capacity q" | "fq_len q = fq_capacity q" "writeover"
    | "fq_len q = fq_capacity q" "\<not> writeover"
    using fq_len_le [OF inv] by linarith
  then show ?thesis
  proof cases
    case 1
    then show ?thesis using fq_enqueue_room [OF inv len 1, of writeover] Some by auto
  next
    case 2
    then show ?thesis using fq_enqueue_writeover [OF inv len 2(1)] Some by auto
  next
    case 3
    then show ?thesis using fq_enqueue_full [OF inv 3(1), of v] Some inv by auto
  qed
qed

theorem fq_enqueue_spec_witness:
  "\<exists>q'. fq_enqueue fq_sample (Some [9]) True = Some (True, q') \<and> fq_abs q' = [[8], [9]]"
  using fq_enqueue_spec [OF fq_sample_inv(1), of "Some [9]" True] by (auto simp: fq_sample_inv)

text \<open>Polling returns the oldest element and removes it; an empty queue answers false, and so does a call
  with no destination, and neither changes the queue.\<close>

theorem fq_poll_spec:
  assumes inv: "fq_inv q"
  shows "\<exists>b out q'. fq_poll q dest_nonnull = Some (b, out, q') \<and> fq_inv q'
    \<and> (b, out, fq_abs q') = (if dest_nonnull \<and> fq_abs q \<noteq> []
         then (True, Some (hd (fq_abs q)), tl (fq_abs q)) else (False, None, fq_abs q))"
proof (cases "dest_nonnull \<and> fq_abs q \<noteq> []")
  case True
  then obtain v vs where "fq_abs q = v # vs" by (cases "fq_abs q") auto
  from fq_poll_cons [OF inv this] show ?thesis using True \<open>fq_abs q = v # vs\<close> by auto
next
  case False
  then show ?thesis using inv fq_abs_empty [OF inv] by (auto simp: fq_poll_def)
qed

theorem fq_poll_spec_witness: "\<exists>q'. fq_poll fq_sample True = Some (True, Some [7], q') \<and> fq_abs q' = [[8]]"
  using fq_poll_spec [OF fq_sample_inv(1), of True] by (auto simp: fq_sample_inv)

end
