(* ===== verification/Max_Heap.thy ===== *)
theory Max_Heap imports Byte_Cells "HOL-Library.Multiset" begin

text \<open>
  The array heap of \<^verbatim>\<open>src/src/s_data/src/heap.c\<close>.  The comparator is a parameter; the
  proofs assume the contract of \<^verbatim>\<open>comparator_ft\<close>, that it orders all cells
  (\<open>cmp_ok\<close>).  Positions and byte counts are 32-bit numbers.
\<close>

section \<open>State and operations\<close>

type_synonym comparator = "bytes \<Rightarrow> bytes \<Rightarrow> int"

record heap =
  hp_buf :: bytes
  hp_cell_size :: nat
  hp_buf_cap :: nat
  hp_tree_len :: nat

definition HP_STARTING_CAP :: nat where "HP_STARTING_CAP = 1"

text \<open>
  The heap, if it could be created, and the number of blocks that stay allocated although
  nobody refers to them.  \<open>hp_ok\<close> and \<open>mem\<close> are the answers of the allocator.
\<close>

definition new_heap ::
  "bool \<Rightarrow> bool \<Rightarrow> bool \<Rightarrow> (nat \<Rightarrow> bool) \<Rightarrow> 8 word \<Rightarrow> nat \<Rightarrow> heap option \<times> nat"
where
  "new_heap al_nonnull cmp_nonnull hp_ok mem junk cs =
     (if \<not> al_nonnull \<or> cs = 0 \<or> \<not> cmp_nonnull then (None, 0)
      else
        let bytes = HP_STARTING_CAP * cs mod 2 ^ 32; buf_ok = mem bytes in
        if \<not> hp_ok \<or> \<not> buf_ok then (None, (if hp_ok then 1 else 0) + (if buf_ok then 1 else 0))
        else (Some \<lparr>hp_buf = replicate bytes junk, hp_cell_size = cs, hp_buf_cap = HP_STARTING_CAP,
          hp_tree_len = 0\<rparr>, 0))"

definition hp_is_empty :: "heap \<Rightarrow> bool" where
  "hp_is_empty hp \<longleftrightarrow> hp_tree_len hp = 0"

text \<open>The child that the loop of \<^verbatim>\<open>hp_pop_max\<close> compares the substitute with, if any.\<close>

definition hp_next_pos :: "comparator \<Rightarrow> nat \<Rightarrow> nat \<Rightarrow> bytes \<Rightarrow> nat \<Rightarrow> nat option option" where
  "hp_next_pos cmp cs len buf pos = (
     let left_pos = (pos * 2 + 1) mod 2 ^ 32; right_pos = (left_pos + 1) mod 2 ^ 32 in
     if right_pos < len - 1 then do {
       l \<leftarrow> (if left_pos < len - 1 then cell_read cs buf left_pos else None);
       r \<leftarrow> cell_read cs buf right_pos;
       Some (Some (if cmp l r < 0 then right_pos else left_pos)) }
     else if left_pos < len - 1 then Some (Some left_pos)
     else Some None)"

partial_function (option) hp_down_loop ::
  "comparator \<Rightarrow> nat \<Rightarrow> nat \<Rightarrow> bytes \<Rightarrow> nat \<Rightarrow> (bytes \<times> nat) option"
where
  "hp_down_loop cmp cs len buf pos = do {
     nx \<leftarrow> hp_next_pos cmp cs len buf pos;
     if nx = None then Some (buf, pos)
     else do {
       sub \<leftarrow> cell_read cs buf (len - 1);
       v \<leftarrow> cell_read cs buf (the nx);
       if 0 \<le> cmp sub v then Some (buf, pos)
       else do {
         buf \<leftarrow> cell_write cs buf pos v;
         hp_down_loop cmp cs len buf (the nx) } } }"

text \<open>Whether there was a maximum, what was copied to \<^verbatim>\<open>out\<close>, and the heap.\<close>

definition hp_pop_max :: "comparator \<Rightarrow> heap \<Rightarrow> bool \<Rightarrow> (bool \<times> bytes option \<times> heap) option" where
  "hp_pop_max cmp hp out_nonnull =
     (if hp_tree_len hp = 0 then Some (False, None, hp)
      else do {
        let cs = hp_cell_size hp;
        out \<leftarrow> (if out_nonnull then map_option Some (cell_read cs (hp_buf hp) 0) else Some None);
        buf \<leftarrow> (if 1 < hp_tree_len hp then do {
                 (buf, pos) \<leftarrow> hp_down_loop cmp cs (hp_tree_len hp) (hp_buf hp) 0;
                 sub \<leftarrow> cell_read cs buf (hp_tree_len hp - 1);
                 cell_write cs buf pos sub }
               else Some (hp_buf hp));
        Some (True, out, hp\<lparr>hp_buf := buf, hp_tree_len := hp_tree_len hp - 1\<rparr>) })"

partial_function (option) hp_up_loop ::
  "comparator \<Rightarrow> nat \<Rightarrow> bytes \<Rightarrow> nat \<Rightarrow> bytes \<Rightarrow> (bytes \<times> nat) option"
where
  "hp_up_loop cmp cs val pos buf =
     (if 0 < pos then do {
        let parent_pos = (pos - 1) div 2;
        p \<leftarrow> cell_read cs buf parent_pos;
        if 0 \<le> cmp p val then Some (buf, pos)
        else do {
          buf \<leftarrow> cell_write cs buf pos p;
          hp_up_loop cmp cs val parent_pos buf } }
      else Some (buf, pos))"

definition hp_realloc :: "8 word \<Rightarrow> nat \<Rightarrow> bytes \<Rightarrow> bytes" where
  "hp_realloc junk n buf = take n buf @ replicate (n - length buf) junk"

definition hp_push ::
  "comparator \<Rightarrow> (nat \<Rightarrow> bool) \<Rightarrow> 8 word \<Rightarrow> heap \<Rightarrow> bytes option \<Rightarrow> (fernos_error \<times> heap) option"
where
  "hp_push cmp mem junk hp val =
     (case val of
        None \<Rightarrow> Some (FOS_E_BAD_ARGS, hp)
      | Some v \<Rightarrow>
          let cs = hp_cell_size hp; full = (hp_tree_len hp = hp_buf_cap hp);
              new_cap = hp_buf_cap hp * 2 mod 2 ^ 32 in
          if full \<and> \<not> mem (new_cap * cs mod 2 ^ 32) then Some (FOS_E_NO_MEM, hp)
          else do {
            let hp = (if full then hp\<lparr>hp_buf := hp_realloc junk (new_cap * cs mod 2 ^ 32) (hp_buf hp),
                        hp_buf_cap := new_cap\<rparr> else hp);
            (buf, pos) \<leftarrow> hp_up_loop cmp cs v (hp_tree_len hp) (hp_buf hp);
            buf \<leftarrow> cell_write cs buf pos v;
            Some (FOS_E_SUCCESS, hp\<lparr>hp_buf := buf, hp_tree_len := (hp_tree_len hp + 1) mod 2 ^ 32\<rparr>) })"

section \<open>Heap order\<close>

definition cmp_ok :: "comparator \<Rightarrow> bool" where
  "cmp_ok cmp \<longleftrightarrow> (\<forall>a b. 0 \<le> cmp a b \<or> 0 \<le> cmp b a)
     \<and> (\<forall>a b c. 0 \<le> cmp a b \<longrightarrow> 0 \<le> cmp b c \<longrightarrow> 0 \<le> cmp a c)"

lemma cmp_okD:
  assumes "cmp_ok cmp"
  shows "\<not> 0 \<le> cmp a b \<Longrightarrow> 0 \<le> cmp b a" and "0 \<le> cmp a b \<Longrightarrow> 0 \<le> cmp b c \<Longrightarrow> 0 \<le> cmp a c"
    and "0 \<le> cmp a a"
  using assms unfolding cmp_ok_def by (blast, blast, blast)

definition parent :: "nat \<Rightarrow> nat" where "parent i = (i - 1) div 2"

lemma parent_less: "0 < i \<Longrightarrow> parent i < i"
  by (simp add: parent_def)

text \<open>Every cell but the root is at most its parent.\<close>

definition heap_ordered :: "comparator \<Rightarrow> bytes list \<Rightarrow> bool" where
  "heap_ordered cmp ys \<longleftrightarrow> (\<forall>i. 0 < i \<longrightarrow> i < length ys \<longrightarrow> 0 \<le> cmp (ys ! parent i) (ys ! i))"

lemma heap_orderedD:
  "heap_ordered cmp ys \<Longrightarrow> 0 < i \<Longrightarrow> i < length ys \<Longrightarrow> 0 \<le> cmp (ys ! parent i) (ys ! i)"
  by (simp add: heap_ordered_def)

text \<open>Ordered but for the cell at \<open>c\<close>, which may exceed its parent, or be below its children.\<close>

definition around :: "comparator \<Rightarrow> bytes list \<Rightarrow> nat \<Rightarrow> bool" where
  "around cmp ys c \<longleftrightarrow>
     (\<forall>i. 0 < i \<longrightarrow> i < length ys \<longrightarrow> parent i = c \<longrightarrow> 0 < c \<longrightarrow> 0 \<le> cmp (ys ! parent c) (ys ! i))"

definition up_heap :: "comparator \<Rightarrow> bytes list \<Rightarrow> nat \<Rightarrow> bool" where
  "up_heap cmp ys c \<longleftrightarrow> around cmp ys c
     \<and> (\<forall>i. 0 < i \<longrightarrow> i < length ys \<longrightarrow> i \<noteq> c \<longrightarrow> 0 \<le> cmp (ys ! parent i) (ys ! i))"

definition down_heap :: "comparator \<Rightarrow> bytes list \<Rightarrow> nat \<Rightarrow> bool" where
  "down_heap cmp ys c \<longleftrightarrow> around cmp ys c
     \<and> (\<forall>i. 0 < i \<longrightarrow> i < length ys \<longrightarrow> parent i \<noteq> c \<longrightarrow> 0 \<le> cmp (ys ! parent i) (ys ! i))"

definition swap :: "nat \<Rightarrow> nat \<Rightarrow> 'a list \<Rightarrow> 'a list" where
  "swap i j ys = ys[i := ys ! j, j := ys ! i]"

lemma swap_nth: "i < length ys \<Longrightarrow> j < length ys \<Longrightarrow>
  swap i j ys ! k = (if k = j then ys ! i else if k = i then ys ! j else ys ! k)"
  by (auto simp: swap_def)

lemma length_swap [simp]: "length (swap i j ys) = length ys"
  by (simp add: swap_def)

lemma mset_swap': "i < length ys \<Longrightarrow> j < length ys \<Longrightarrow> mset (swap i j ys) = mset ys"
  unfolding swap_def by (rule mset_swap)

lemma heap_orderedI: "up_heap cmp ys c \<Longrightarrow> c = 0 \<or> 0 \<le> cmp (ys ! parent c) (ys ! c) \<Longrightarrow> heap_ordered cmp ys"
  unfolding heap_ordered_def up_heap_def by blast

lemma heap_ordered_downI:
  "down_heap cmp ys c \<Longrightarrow> (\<And>i. 0 < i \<Longrightarrow> i < length ys \<Longrightarrow> parent i = c \<Longrightarrow> 0 \<le> cmp (ys ! c) (ys ! i)) \<Longrightarrow>
   heap_ordered cmp ys"
  unfolding heap_ordered_def down_heap_def by blast

lemma up_heap_step:
  assumes ok: "cmp_ok cmp" and up: "up_heap cmp ys c" and c: "0 < c" "c < length ys"
    and less: "\<not> 0 \<le> cmp (ys ! parent c) (ys ! c)"
  shows "up_heap cmp (swap c (parent c) ys) (parent c)"
proof -
  let ?p = "parent c"
  let ?zs = "swap c ?p ys"
  have p: "?p < length ys" "?p \<noteq> c" "?p < c" using c parent_less [of c] by auto
  have z: "?zs ! k = (if k = ?p then ys ! c else if k = c then ys ! ?p else ys ! k)" for k
    using swap_nth [of c ys ?p k] c p by simp
  have ge: "0 \<le> cmp (ys ! c) (ys ! ?p)" using cmp_okD(1) [OF ok less] .
  have ord: "0 \<le> cmp (ys ! parent i) (ys ! i)" if "0 < i" "i < length ys" "i \<noteq> c" for i
    using up that by (simp add: up_heap_def)
  have kids: "0 \<le> cmp (ys ! ?p) (ys ! i)" if "0 < i" "i < length ys" "parent i = c" for i
    using up that c(1) by (simp add: up_heap_def around_def)
  have "0 \<le> cmp (?zs ! parent i) (?zs ! i)" if i: "0 < i" "i < length ys" "i \<noteq> ?p" for i
  proof (cases "i = c")
    case True
    then show ?thesis using z ge p by simp
  next
    case False
    consider "parent i = c" | "parent i = ?p" "parent i \<noteq> c" | "parent i \<noteq> c" "parent i \<noteq> ?p" by blast
    then show ?thesis
    proof cases
      case 1
      then show ?thesis using kids [OF i(1,2) 1] False i p by (simp add: z)
    next
      case 2
      then have "0 \<le> cmp (ys ! ?p) (ys ! i)" using ord [OF i(1,2) False] by simp
      then show ?thesis using 2 False i cmp_okD(2) [OF ok ge] by (simp add: z)
    next
      case 3
      then show ?thesis using False i ord [OF i(1,2) False] by (simp add: z)
    qed
  qed
  moreover have "around cmp ?zs ?p"
    unfolding around_def
  proof (intro allI impI)
    fix i assume i: "0 < i" "i < length ?zs" "parent i = ?p" "0 < ?p"
    let ?g = "parent ?p"
    have g: "?g \<noteq> ?p" "?g \<noteq> c" using parent_less [OF i(4)] p by auto
    have gp: "0 \<le> cmp (ys ! ?g) (ys ! ?p)" using ord [OF i(4)] p by simp
    show "0 \<le> cmp (?zs ! ?g) (?zs ! i)"
    proof (cases "i = c")
      case True
      then show ?thesis using g gp p by (simp add: z)
    next
      case False
      then have "0 \<le> cmp (ys ! ?p) (ys ! i)" using ord [of i] i by simp
      then have "0 \<le> cmp (ys ! ?g) (ys ! i)" using cmp_okD(2) [OF ok gp] by simp
      moreover have "i \<noteq> ?p" using parent_less [OF i(1)] i(3) by auto
      ultimately show ?thesis using g False by (simp add: z)
    qed
  qed
  ultimately show ?thesis by (simp add: up_heap_def)
qed

lemma down_heap_step:
  assumes ok: "cmp_ok cmp" and dn: "down_heap cmp ys c" and d: "0 < d" "d < length ys" "parent d = c"
    and best: "\<And>i. 0 < i \<Longrightarrow> i < length ys \<Longrightarrow> parent i = c \<Longrightarrow> 0 \<le> cmp (ys ! d) (ys ! i)"
    and less: "\<not> 0 \<le> cmp (ys ! c) (ys ! d)"
  shows "down_heap cmp (swap c d ys) d"
proof -
  let ?zs = "swap c d ys"
  have c: "c < length ys" "c < d" using d parent_less [of d] by auto
  have z: "?zs ! k = (if k = d then ys ! c else if k = c then ys ! d else ys ! k)" for k
    using swap_nth [of c ys d k] c d by simp
  have ord: "0 \<le> cmp (ys ! parent i) (ys ! i)" if "0 < i" "i < length ys" "parent i \<noteq> c" for i
    using dn that by (simp add: down_heap_def)
  have kids: "0 \<le> cmp (ys ! parent c) (ys ! i)" if "0 < i" "i < length ys" "parent i = c" "0 < c" for i
    using dn that by (simp add: down_heap_def around_def)
  have "0 \<le> cmp (?zs ! parent i) (?zs ! i)" if i: "0 < i" "i < length ys" "parent i \<noteq> d" for i
  proof -
    consider "parent i = c" | "i = c" | "i \<noteq> c" "parent i \<noteq> c" by blast
    then show ?thesis
    proof cases
      case 1
      then have "i \<noteq> c" using parent_less [OF i(1)] by auto
      moreover have "0 \<le> cmp (ys ! d) (ys ! c)" using cmp_okD(1) [OF ok less] .
      ultimately show ?thesis using 1 c best [OF i(1,2) 1] by (auto simp: z)
    next
      case 2
      then have "parent i \<noteq> c" "parent i \<noteq> d" using parent_less [OF i(1)] c by auto
      then show ?thesis using 2 c kids [OF d] i by (simp add: z)
    next
      case 3
      then have "i \<noteq> d" using d by auto
      then show ?thesis using 3 i ord [OF i(1,2) 3(2)] by (simp add: z)
    qed
  qed
  moreover have "around cmp ?zs d"
    unfolding around_def
  proof (intro allI impI)
    fix i assume i: "0 < i" "i < length ?zs" "parent i = d" "0 < d"
    have "i \<noteq> d" "i \<noteq> c" using parent_less [OF i(1)] i(3) c by auto
    moreover have "0 \<le> cmp (ys ! d) (ys ! i)" using ord [of i] i c by simp
    ultimately show "0 \<le> cmp (?zs ! parent d) (?zs ! i)" using d c by (simp add: z)
  qed
  ultimately show ?thesis by (simp add: down_heap_def)
qed

lemma heap_max: "cmp_ok cmp \<Longrightarrow> heap_ordered cmp ys \<Longrightarrow> i < length ys \<Longrightarrow> 0 \<le> cmp (ys ! 0) (ys ! i)"
proof (induction i rule: less_induct)
  case (less i)
  show ?case
  proof (cases "i = 0")
    case True
    then show ?thesis using cmp_okD(3) less.prems by simp
  next
    case False
    then have "0 \<le> cmp (ys ! 0) (ys ! parent i)"
      using less.IH [of "parent i"] less.prems parent_less [of i] by simp
    moreover have "0 \<le> cmp (ys ! parent i) (ys ! i)" using less.prems False by (simp add: heap_ordered_def)
    ultimately show ?thesis using cmp_okD(2) less.prems(1) by blast
  qed
qed

section \<open>The loops on the array\<close>

text \<open>The first \<open>m\<close> cells, with \<open>v\<close> imagined in the hole at \<open>pos\<close>.\<close>

definition plugged :: "nat \<Rightarrow> bytes list \<Rightarrow> nat \<Rightarrow> bytes \<Rightarrow> bytes list" where
  "plugged m xs pos v = (take m xs)[pos := v]"

lemma length_plugged [simp]: "m \<le> length xs \<Longrightarrow> length (plugged m xs pos v) = m"
  by (simp add: plugged_def)

lemma plugged_nth: "m \<le> length xs \<Longrightarrow> i < m \<Longrightarrow> plugged m xs pos v ! i = (if i = pos then v else xs ! i)"
  by (simp add: plugged_def nth_list_update)

lemma plugged_root:
  assumes "0 < m" and "m < length xs"
  shows "mset (take (m + 1) xs) = add_mset (xs ! 0) (mset (plugged m xs 0 (xs ! m)))"
proof -
  obtain x zs k where "xs = x # zs" "m = Suc k"
    using assms by (cases xs; cases m) auto
  then show ?thesis using assms by (simp add: plugged_def take_Suc_conv_app_nth)
qed

lemma plugged_move:
  "m \<le> length xs \<Longrightarrow> pos < m \<Longrightarrow> d < m \<Longrightarrow> d \<noteq> pos \<Longrightarrow>
   plugged m (xs[pos := xs ! d]) d v = swap pos d (plugged m xs pos v)"
  by (simp add: plugged_def swap_def take_update_swap)

lemma is_child: "0 < i \<Longrightarrow> parent i = c \<longleftrightarrow> (i = 2 * c + 1 \<or> i = 2 * c + 2)"
  unfolding parent_def by presburger

lemma hp_next_pos_ok:
  assumes ok: "cmp_ok cmp" and c: "cells_ok cs n buf" and pos: "pos < m" "m < n" "n \<le> 2 ^ 31"
  defines "xs \<equiv> cells cs n buf"
  shows "\<exists>nx. hp_next_pos cmp cs (m + 1) buf pos = Some nx
    \<and> (case nx of None \<Rightarrow> \<forall>i. 0 < i \<longrightarrow> i < m \<longrightarrow> parent i \<noteq> pos
       | Some d \<Rightarrow> 0 < d \<and> d < m \<and> parent d = pos
           \<and> (\<forall>i. 0 < i \<longrightarrow> i < m \<longrightarrow> parent i = pos \<longrightarrow> 0 \<le> cmp (xs ! d) (xs ! i)))"
proof -
  have w: "(pos * 2 + 1) mod 2 ^ 32 = 2 * pos + 1" "(2 * pos + 1 + 1) mod 2 ^ 32 = 2 * pos + 2"
    using pos by simp_all
  have rd: "cell_read cs buf i = Some (xs ! i)" if "i < m" for i
    using cell_read_cells [OF c] that pos by (simp add: xs_def)
  consider "2 * pos + 2 < m" | "2 * pos + 2 = m" | "m < 2 * pos + 2" by linarith
  then show ?thesis
  proof cases
    case 1
    let ?l = "2 * pos + 1" and ?r = "2 * pos + 2"
    let ?d = "if cmp (xs ! ?l) (xs ! ?r) < 0 then ?r else ?l"
    have "hp_next_pos cmp cs (m + 1) buf pos = Some (Some ?d)"
      using 1 unfolding hp_next_pos_def Let_def w by (simp add: rd)
    moreover have "0 < ?d \<and> ?d < m \<and> parent ?d = pos" using 1 by (auto simp: is_child)
    moreover have "0 \<le> cmp (xs ! ?d) (xs ! i)" if "0 < i" "parent i = pos" for i
      using is_child [OF that(1), of pos] that(2) cmp_okD(3) [OF ok] cmp_okD(1) [OF ok, of "xs ! ?l" "xs ! ?r"]
      by auto
    ultimately show ?thesis by fastforce
  next
    case 2
    let ?l = "2 * pos + 1"
    have "hp_next_pos cmp cs (m + 1) buf pos = Some (Some ?l)"
      using 2 unfolding hp_next_pos_def Let_def w by simp
    moreover have "0 < ?l \<and> ?l < m \<and> parent ?l = pos" using 2 by (simp add: is_child)
    moreover have "0 \<le> cmp (xs ! ?l) (xs ! i)" if "0 < i" "i < m" "parent i = pos" for i
      using is_child [OF that(1), of pos] that 2 cmp_okD(3) [OF ok] by auto
    ultimately show ?thesis by fastforce
  next
    case 3
    have "hp_next_pos cmp cs (m + 1) buf pos = Some None"
      using 3 unfolding hp_next_pos_def Let_def w by simp
    moreover have "parent i \<noteq> pos" if "0 < i" "i < m" for i
      using is_child [OF that(1), of pos] that 3 by auto
    ultimately show ?thesis by auto
  qed
qed

lemma hp_down_loop_ok:
  assumes ok: "cmp_ok cmp"
  shows "cells_ok cs n buf \<Longrightarrow> pos < m \<Longrightarrow> m < n \<Longrightarrow> n \<le> 2 ^ 31 \<Longrightarrow>
    cells cs n buf ! m = v \<Longrightarrow> down_heap cmp (plugged m (cells cs n buf) pos v) pos \<Longrightarrow>
    \<exists>buf' pos'. hp_down_loop cmp cs (m + 1) buf pos = Some (buf', pos') \<and> cells_ok cs n buf'
      \<and> pos' < m \<and> cells cs n buf' ! m = v
      \<and> heap_ordered cmp (plugged m (cells cs n buf') pos' v)
      \<and> mset (plugged m (cells cs n buf') pos' v) = mset (plugged m (cells cs n buf) pos v)"
proof (induction "m - pos" arbitrary: buf pos rule: less_induct)
  case less
  note c = less.prems(1) and b = less.prems(2-4) and v = less.prems(5) and dn = less.prems(6)
  let ?xs = "cells cs n buf"
  let ?ys = "plugged m ?xs pos v"
  have nth: "?ys ! i = (if i = pos then v else ?xs ! i)" if "i < m" for i
    using that b by (simp add: plugged_nth)
  obtain nx where nx: "hp_next_pos cmp cs (m + 1) buf pos = Some nx"
    "case nx of None \<Rightarrow> \<forall>i. 0 < i \<longrightarrow> i < m \<longrightarrow> parent i \<noteq> pos
       | Some d \<Rightarrow> 0 < d \<and> d < m \<and> parent d = pos
           \<and> (\<forall>i. 0 < i \<longrightarrow> i < m \<longrightarrow> parent i = pos \<longrightarrow> 0 \<le> cmp (?xs ! d) (?xs ! i))"
    using hp_next_pos_ok [OF ok c b] by blast
  have rdm: "cell_read cs buf m = Some v" using cell_read_cells [OF c b(2)] v by simp
  show ?case
  proof (cases nx)
    case None
    then have "hp_down_loop cmp cs (m + 1) buf pos = Some (buf, pos)"
      using nx(1) by (subst hp_down_loop.simps) simp
    moreover have "heap_ordered cmp ?ys"
      by (rule heap_ordered_downI [OF dn]) (use nx(2) None b in auto)
    ultimately show ?thesis using c b v by auto
  next
    case (Some d)
    have d: "0 < d" "d < m" "parent d = pos"
      "\<And>i. 0 < i \<Longrightarrow> i < m \<Longrightarrow> parent i = pos \<Longrightarrow> 0 \<le> cmp (?xs ! d) (?xs ! i)"
      using nx(2) Some by auto
    have dp: "pos < d" using parent_less [OF d(1)] d(3) by simp
    have rdd: "cell_read cs buf d = Some (?xs ! d)" using cell_read_cells [OF c] d(2) b by simp
    have best: "0 \<le> cmp (?ys ! d) (?ys ! i)" if "0 < i" "i < length ?ys" "parent i = pos" for i
      using d(4) [OF that(1) _ that(3)] that parent_less [OF that(1)] d(2) dp b by (auto simp: nth)
    show ?thesis
    proof (cases "0 \<le> cmp v (?xs ! d)")
      case True
      then have "hp_down_loop cmp cs (m + 1) buf pos = Some (buf, pos)"
        using nx(1) Some rdm rdd by (subst hp_down_loop.simps) simp
      moreover have "heap_ordered cmp ?ys"
      proof (rule heap_ordered_downI [OF dn])
        fix i assume i: "0 < i" "i < length ?ys" "parent i = pos"
        have "0 \<le> cmp (?ys ! pos) (?ys ! d)" using True d(2) dp b by (simp add: nth)
        then show "0 \<le> cmp (?ys ! pos) (?ys ! i)" using best [OF i] cmp_okD(2) [OF ok] by blast
      qed
      ultimately show ?thesis using c b v by auto
    next
      case False
      obtain buf1 where w: "cell_write cs buf pos (?xs ! d) = Some buf1" "cells_ok cs n buf1"
        "cells cs n buf1 = ?xs[pos := ?xs ! d]"
        using cell_write_cells [OF c _ cells_nth_length [OF c]] d(2) b by (meson less_trans)
      have sw: "plugged m (cells cs n buf1) d v = swap pos d ?ys"
        using plugged_move [of m ?xs pos d v] d(2) dp b w(3) by simp
      have lys: "length ?ys = m" using b by simp
      have ypos: "?ys ! pos = v" "?ys ! d = ?xs ! d" using nth d(2) dp b by simp_all
      have "down_heap cmp (swap pos d ?ys) d"
        by (rule down_heap_step [OF ok dn d(1) _ d(3) best]) (use d(2) False ypos lys in simp_all)
      then have "\<exists>buf' pos'. hp_down_loop cmp cs (m + 1) buf1 d = Some (buf', pos') \<and> cells_ok cs n buf'
        \<and> pos' < m \<and> cells cs n buf' ! m = v
        \<and> heap_ordered cmp (plugged m (cells cs n buf') pos' v)
        \<and> mset (plugged m (cells cs n buf') pos' v) = mset (plugged m (cells cs n buf1) d v)"
        using less.hyps [of d buf1] w dp d(2) b v sw by simp
      moreover have "mset (plugged m (cells cs n buf1) d v) = mset ?ys"
        using sw mset_swap' [of pos ?ys d] lys d(2) b by simp
      moreover have "hp_down_loop cmp cs (m + 1) buf pos = hp_down_loop cmp cs (m + 1) buf1 d"
        using nx(1) Some rdm rdd False w(1) by (subst hp_down_loop.simps) simp
      ultimately show ?thesis by simp
    qed
  qed
qed

lemma hp_up_loop_ok:
  assumes ok: "cmp_ok cmp"
  shows "cells_ok cs n buf \<Longrightarrow> pos < m \<Longrightarrow> m \<le> n \<Longrightarrow>
    up_heap cmp (plugged m (cells cs n buf) pos v) pos \<Longrightarrow>
    \<exists>buf' pos'. hp_up_loop cmp cs v pos buf = Some (buf', pos') \<and> cells_ok cs n buf'
      \<and> pos' < m
      \<and> heap_ordered cmp (plugged m (cells cs n buf') pos' v)
      \<and> mset (plugged m (cells cs n buf') pos' v) = mset (plugged m (cells cs n buf) pos v)"
proof (induction pos arbitrary: buf rule: less_induct)
  case (less pos)
  note c = less.prems(1) and b = less.prems(2,3) and up = less.prems(4)
  let ?xs = "cells cs n buf"
  let ?ys = "plugged m ?xs pos v"
  let ?p = "parent pos"
  have lys: "length ?ys = m" using b by simp
  show ?case
  proof (cases "pos = 0")
    case True
    then have "hp_up_loop cmp cs v pos buf = Some (buf, pos)" by (subst hp_up_loop.simps) simp
    then show ?thesis using c b heap_orderedI [OF up] True by auto
  next
    case False
    then have p: "?p < pos" using parent_less by simp
    have rd: "cell_read cs buf ?p = Some (?xs ! ?p)" using cell_read_cells [OF c] p b by simp
    have yp: "?ys ! ?p = ?xs ! ?p" "?ys ! pos = v" using p b by (simp_all add: plugged_nth)
    show ?thesis
    proof (cases "0 \<le> cmp (?xs ! ?p) v")
      case True
      then have "hp_up_loop cmp cs v pos buf = Some (buf, pos)"
        using False rd by (subst hp_up_loop.simps) (simp add: parent_def)
      moreover have "heap_ordered cmp ?ys" using heap_orderedI [OF up] True yp by simp
      ultimately show ?thesis using c b by auto
    next
      case less': False
      obtain buf1 where w: "cell_write cs buf pos (?xs ! ?p) = Some buf1" "cells_ok cs n buf1"
        "cells cs n buf1 = ?xs[pos := ?xs ! ?p]"
        using cell_write_cells [OF c _ cells_nth_length [OF c]] p b by (meson less_le_trans less_trans)
      have sw: "plugged m (cells cs n buf1) ?p v = swap pos ?p ?ys"
        using plugged_move [of m ?xs pos ?p v] p b w(3) by simp
      have "up_heap cmp (swap pos ?p ?ys) ?p"
        by (rule up_heap_step [OF ok up]) (use False b lys less' yp in simp_all)
      then have "\<exists>buf' pos'. hp_up_loop cmp cs v ?p buf1 = Some (buf', pos') \<and> cells_ok cs n buf'
        \<and> pos' < m \<and> heap_ordered cmp (plugged m (cells cs n buf') pos' v)
        \<and> mset (plugged m (cells cs n buf') pos' v) = mset (plugged m (cells cs n buf1) ?p v)"
        using less.IH [OF p w(2)] p b sw by simp
      moreover have "mset (plugged m (cells cs n buf1) ?p v) = mset ?ys"
        using sw mset_swap' [of pos ?ys ?p] lys p b by simp
      moreover have "hp_up_loop cmp cs v pos buf = hp_up_loop cmp cs v ?p buf1"
        using False rd less' w(1) by (subst hp_up_loop.simps) (simp add: parent_def)
      ultimately show ?thesis by simp
    qed
  qed
qed

section \<open>Push and pop\<close>

definition hp_items :: "heap \<Rightarrow> bytes list" where
  "hp_items hp = take (hp_tree_len hp) (cells (hp_cell_size hp) (hp_buf_cap hp) (hp_buf hp))"

definition hp_inv :: "comparator \<Rightarrow> heap \<Rightarrow> bool" where
  "hp_inv cmp hp \<longleftrightarrow> 0 < hp_cell_size hp \<and> 0 < hp_buf_cap hp \<and> hp_buf_cap hp \<le> 2 ^ 31
     \<and> hp_tree_len hp \<le> hp_buf_cap hp
     \<and> cells_ok (hp_cell_size hp) (hp_buf_cap hp) (hp_buf hp) \<and> heap_ordered cmp (hp_items hp)"

lemma length_hp_items: "hp_inv cmp hp \<Longrightarrow> length (hp_items hp) = hp_tree_len hp"
  by (simp add: hp_inv_def hp_items_def)

lemma new_heap_inv:
  "new_heap al c hp_ok mem junk cs = (Some hp, k) \<Longrightarrow> cs < 2 ^ 32 \<Longrightarrow>
   hp_inv cmp hp \<and> hp_items hp = [] \<and> k = 0"
  by (auto simp: new_heap_def Let_def HP_STARTING_CAP_def hp_inv_def hp_items_def cells_ok_def heap_ordered_def
      split: if_splits)

lemma plugged_take: "m < length xs \<Longrightarrow> plugged (Suc m) xs m v = take m xs @ [v]"
  by (simp add: plugged_def take_Suc_conv_app_nth list_update_append)

lemma cells_grow: "n \<le> n' \<Longrightarrow> length buf' \<ge> cs * n \<Longrightarrow> take (cs * n) buf' = take (cs * n) buf \<Longrightarrow>
  take n (cells cs n' buf') = cells cs n buf"
proof -
  assume n: "n \<le> n'" and t: "take (cs * n) buf' = take (cs * n) buf"
  have "take cs (drop (cs * i) buf') = take cs (drop (cs * i) buf)" if "i < n" for i
  proof -
    have "take cs (drop (cs * i) b) = take cs (drop (cs * i) (take (cs * n) b))" for b :: bytes
      using cell_end [OF that, of cs] by (simp add: take_drop min_def)
    then show ?thesis using t by metis
  qed
  then show ?thesis using n by (auto simp: cells_def take_map intro: nth_equalityI)
qed

lemma hp_push_place:
  assumes ok: "cmp_ok cmp" and inv: "hp_inv cmp hp" and room: "hp_tree_len hp < hp_buf_cap hp"
    and v: "length v = hp_cell_size hp"
  shows "\<exists>buf pos buf'. hp_up_loop cmp (hp_cell_size hp) v (hp_tree_len hp) (hp_buf hp) = Some (buf, pos)
    \<and> cell_write (hp_cell_size hp) buf pos v = Some buf'
    \<and> hp_inv cmp (hp\<lparr>hp_buf := buf', hp_tree_len := hp_tree_len hp + 1\<rparr>)
    \<and> mset (hp_items (hp\<lparr>hp_buf := buf', hp_tree_len := hp_tree_len hp + 1\<rparr>)) = add_mset v (mset (hp_items hp))"
proof -
  let ?cs = "hp_cell_size hp" and ?n = "hp_buf_cap hp" and ?len = "hp_tree_len hp"
  let ?xs = "cells ?cs ?n (hp_buf hp)"
  have c: "cells_ok ?cs ?n (hp_buf hp)" and ho: "heap_ordered cmp (take ?len ?xs)"
    using inv by (simp_all add: hp_inv_def hp_items_def)
  have pl: "plugged (Suc ?len) ?xs ?len v = take ?len ?xs @ [v]"
    using room by (simp add: plugged_take)
  have "up_heap cmp (take ?len ?xs @ [v]) ?len"
    unfolding up_heap_def around_def
  proof (intro conjI allI impI)
    fix i assume "0 < i" "i < length (take ?len ?xs @ [v])" "parent i = ?len"
    then show "0 \<le> cmp ((take ?len ?xs @ [v]) ! parent ?len) ((take ?len ?xs @ [v]) ! i)"
      using parent_less [of i] room by simp
  next
    fix i assume i: "0 < i" "i < length (take ?len ?xs @ [v])" "i \<noteq> ?len"
    then have "i < ?len" "parent i < ?len" using room parent_less [of i] by simp_all
    then show "0 \<le> cmp ((take ?len ?xs @ [v]) ! parent i) ((take ?len ?xs @ [v]) ! i)"
      using heap_orderedD [OF ho i(1)] room by (simp add: nth_append)
  qed
  then obtain buf pos where l: "hp_up_loop cmp ?cs v ?len (hp_buf hp) = Some (buf, pos)"
    "cells_ok ?cs ?n buf" "pos < Suc ?len" "heap_ordered cmp (plugged (Suc ?len) (cells ?cs ?n buf) pos v)"
    "mset (plugged (Suc ?len) (cells ?cs ?n buf) pos v) = mset (take ?len ?xs @ [v])"
    using hp_up_loop_ok [OF ok c, of ?len "Suc ?len" v] room pl by auto
  have "pos < ?n" using l(3) room by simp
  then obtain buf' where w: "cell_write ?cs buf pos v = Some buf'" "cells_ok ?cs ?n buf'"
    "cells ?cs ?n buf' = (cells ?cs ?n buf)[pos := v]"
    using cell_write_cells [OF l(2) _ v] by blast
  let ?hp = "hp\<lparr>hp_buf := buf', hp_tree_len := ?len + 1\<rparr>"
  have "hp_items ?hp = plugged (Suc ?len) (cells ?cs ?n buf) pos v"
    using w(3) by (simp add: hp_items_def plugged_def take_update_swap)
  then show ?thesis
    using l w inv room by (auto simp: hp_inv_def hp_items_def)
qed

lemma hp_push_ok:
  assumes ok: "cmp_ok cmp" and inv: "hp_inv cmp hp" and v: "length v = hp_cell_size hp"
    and grow: "hp_tree_len hp = hp_buf_cap hp \<Longrightarrow>
      hp_buf_cap hp \<le> 2 ^ 30 \<and> hp_buf_cap hp * 2 * hp_cell_size hp < 2 ^ 32 \<and> mem (hp_buf_cap hp * 2 * hp_cell_size hp)"
  shows "\<exists>hp'. hp_push cmp mem junk hp (Some v) = Some (FOS_E_SUCCESS, hp') \<and> hp_inv cmp hp'
    \<and> mset (hp_items hp') = add_mset v (mset (hp_items hp)) \<and> hp_cell_size hp' = hp_cell_size hp"
proof -
  let ?cs = "hp_cell_size hp" and ?n = "hp_buf_cap hp" and ?len = "hp_tree_len hp"
  have i: "0 < ?cs" "0 < ?n" "?n \<le> 2 ^ 31" "?len \<le> ?n" "cells_ok ?cs ?n (hp_buf hp)"
    using inv by (simp_all add: hp_inv_def)
  show ?thesis
  proof (cases "?len = ?n")
    case False
    then obtain buf pos buf' where p: "hp_up_loop cmp ?cs v ?len (hp_buf hp) = Some (buf, pos)"
      "cell_write ?cs buf pos v = Some buf'" "hp_inv cmp (hp\<lparr>hp_buf := buf', hp_tree_len := ?len + 1\<rparr>)"
      "mset (hp_items (hp\<lparr>hp_buf := buf', hp_tree_len := ?len + 1\<rparr>)) = add_mset v (mset (hp_items hp))"
      using hp_push_place [OF ok inv _ v] i by fastforce
    moreover have "(?len + 1) mod 2 ^ 32 = ?len + 1" using i False by simp
    ultimately show ?thesis
      using False by (simp add: hp_push_def Let_def)
  next
    case True
    note g = grow [OF True]
    have n31: "?n * 2 \<le> 2 ^ 31" using g by simp
    have wrap: "?n * 2 mod 2 ^ 32 = ?n * 2" "?n * 2 * ?cs mod 2 ^ 32 = ?n * 2 * ?cs"
      using n31 g by simp_all
    let ?b = "hp_realloc junk (?n * 2 * ?cs) (hp_buf hp)"
    let ?hp = "hp\<lparr>hp_buf := ?b, hp_buf_cap := ?n * 2\<rparr>"
    have lb: "length ?b = ?n * 2 * ?cs" by (simp add: hp_realloc_def)
    have "cells_ok ?cs (?n * 2) ?b" using lb g by (simp add: cells_ok_def mult.commute)
    moreover have "take ?n (cells ?cs (?n * 2) ?b) = cells ?cs ?n (hp_buf hp)"
    proof (rule cells_grow)
      have "?cs * ?n \<le> length (hp_buf hp)" using i(5) by (simp add: cells_ok_def)
      then show "take (?cs * ?n) ?b = take (?cs * ?n) (hp_buf hp)"
        by (simp add: hp_realloc_def mult.commute min_def)
    qed (use lb in \<open>simp_all add: mult.commute\<close>)
    then have it: "hp_items ?hp = hp_items hp" using True by (simp add: hp_items_def)
    ultimately have inv': "hp_inv cmp ?hp" using inv n31 by (simp add: hp_inv_def)
    have "\<exists>buf pos buf'. hp_up_loop cmp ?cs v ?len ?b = Some (buf, pos)
      \<and> cell_write ?cs buf pos v = Some buf' \<and> hp_inv cmp (?hp\<lparr>hp_buf := buf', hp_tree_len := ?len + 1\<rparr>)
      \<and> mset (hp_items (?hp\<lparr>hp_buf := buf', hp_tree_len := ?len + 1\<rparr>)) = add_mset v (mset (hp_items hp))"
      using hp_push_place [OF ok inv', of v] True v i it by simp
    moreover have "(?len + 1) mod 2 ^ 32 = ?len + 1" using i True by simp
    ultimately show ?thesis
      using True g wrap by (auto simp: hp_push_def Let_def)
  qed
qed

lemma hp_push_no_mem:
  "hp_tree_len hp = hp_buf_cap hp \<Longrightarrow> \<not> mem (hp_buf_cap hp * 2 mod 2 ^ 32 * hp_cell_size hp mod 2 ^ 32) \<Longrightarrow>
   hp_push cmp mem junk hp (Some v) = Some (FOS_E_NO_MEM, hp)"
  by (simp add: hp_push_def Let_def)

lemma hp_pop_max_ok:
  assumes ok: "cmp_ok cmp" and inv: "hp_inv cmp hp" and ne: "0 < hp_tree_len hp"
  shows "\<exists>hp' v. hp_pop_max cmp hp True = Some (True, Some v, hp') \<and> hp_inv cmp hp'
    \<and> mset (hp_items hp) = add_mset v (mset (hp_items hp')) \<and> (\<forall>w\<in>set (hp_items hp). 0 \<le> cmp v w)
    \<and> hp_cell_size hp' = hp_cell_size hp"
proof -
  let ?cs = "hp_cell_size hp" and ?n = "hp_buf_cap hp" and ?len = "hp_tree_len hp"
  let ?xs = "cells ?cs ?n (hp_buf hp)"
  have i: "?n \<le> 2 ^ 31" "?len \<le> ?n" "cells_ok ?cs ?n (hp_buf hp)" and ho: "heap_ordered cmp (take ?len ?xs)"
    using inv by (simp_all add: hp_inv_def hp_items_def)
  have rd0: "cell_read ?cs (hp_buf hp) 0 = Some (?xs ! 0)" using cell_read_cells [OF i(3)] i ne by simp
  have max: "\<forall>w\<in>set (hp_items hp). 0 \<le> cmp (?xs ! 0) w"
  proof
    fix w assume "w \<in> set (hp_items hp)"
    then obtain k where "k < ?len" "w = hp_items hp ! k"
      using length_hp_items [OF inv] by (auto simp: in_set_conv_nth)
    then show "0 \<le> cmp (?xs ! 0) w"
      using heap_max [OF ok ho, of k] i ne by (simp add: hp_items_def)
  qed
  show ?thesis
  proof (cases "?len = 1")
    case True
    let ?hp = "hp\<lparr>hp_tree_len := 0\<rparr>"
    have "hp_pop_max cmp hp True = Some (True, Some (?xs ! 0), ?hp)"
      using True rd0 by (simp add: hp_pop_max_def)
    moreover have "hp_items hp = [?xs ! 0]" using True i
      take_Suc_conv_app_nth [of 0 ?xs] by (simp add: hp_items_def)
    moreover have "hp_inv cmp ?hp" "hp_items ?hp = []"
      using inv by (simp_all add: hp_inv_def hp_items_def heap_ordered_def)
    ultimately show ?thesis using max by auto
  next
    case False
    then obtain m where m: "?len = m + 1" "0 < m" using ne by (cases ?len) auto
    let ?v = "?xs ! m"
    have "down_heap cmp (plugged m ?xs 0 ?v) 0"
      unfolding down_heap_def around_def
    proof (intro conjI allI impI)
      fix k assume k: "0 < k" "k < length (plugged m ?xs 0 ?v)" "parent k \<noteq> 0"
      have "k < m" "parent k < m" using k(1,2) parent_less [OF k(1)] m i by simp_all
      then show "0 \<le> cmp (plugged m ?xs 0 ?v ! parent k) (plugged m ?xs 0 ?v ! k)"
        using heap_orderedD [OF ho k(1)] k(1,3) m i by (simp add: plugged_nth)
    qed simp
    then obtain buf pos where l: "hp_down_loop cmp ?cs ?len (hp_buf hp) 0 = Some (buf, pos)"
      "cells_ok ?cs ?n buf" "pos < m" "cells ?cs ?n buf ! m = ?v"
      "heap_ordered cmp (plugged m (cells ?cs ?n buf) pos ?v)"
      "mset (plugged m (cells ?cs ?n buf) pos ?v) = mset (plugged m ?xs 0 ?v)"
      using hp_down_loop_ok [OF ok i(3), of 0 m ?v] m i by auto
    have rd: "cell_read ?cs buf m = Some ?v" using cell_read_cells [OF l(2), of m] m i l(4) by simp
    have pn: "pos < ?n" using l(3) m i by simp
    obtain buf' where w: "cell_write ?cs buf pos ?v = Some buf'" "cells_ok ?cs ?n buf'"
      "cells ?cs ?n buf' = (cells ?cs ?n buf)[pos := ?v]"
      using cell_write_cells [OF l(2) pn cells_nth_length [OF i(3)], of m] m i by auto
    let ?hp = "hp\<lparr>hp_buf := buf', hp_tree_len := m\<rparr>"
    have it: "hp_items ?hp = plugged m (cells ?cs ?n buf) pos ?v"
      using w(3) by (simp add: hp_items_def plugged_def take_update_swap)
    have run: "hp_pop_max cmp hp True = Some (True, Some (?xs ! 0), ?hp)"
      using m l(1) rd0 rd w(1) by (simp add: hp_pop_max_def)
    have inv': "hp_inv cmp ?hp" using inv it l(5) w(2) m by (simp add: hp_inv_def)
    have "mset (take (m + 1) ?xs) = add_mset (?xs ! 0) (mset (plugged m ?xs 0 ?v))"
      using m i by (intro plugged_root) simp_all
    then have "mset (hp_items hp) = add_mset (?xs ! 0) (mset (hp_items ?hp))"
      using it l(6) m by (simp add: hp_items_def)
    then show ?thesis using run inv' max by auto
  qed
qed

section \<open>The promises of the heap\<close>

text \<open>One-byte cells compared as unsigned numbers, and a heap that holds the byte 5.\<close>

definition byte_cmp :: comparator where
  "byte_cmp a b = (case (a, b) of (x # _, y # _) \<Rightarrow> uint x - uint y | ([], []) \<Rightarrow> 0 | ([], _) \<Rightarrow> - 1 | (_, []) \<Rightarrow> 1)"

definition hp_sample :: heap where
  "hp_sample = \<lparr>hp_buf = [5], hp_cell_size = 1, hp_buf_cap = 1, hp_tree_len = 1\<rparr>"

lemma byte_cmp_ok: "cmp_ok byte_cmp"
  by (auto simp: cmp_ok_def byte_cmp_def split: list.splits)

lemma hp_sample_inv: "hp_inv byte_cmp hp_sample" "hp_items hp_sample = [[5]]" "hp_cell_size hp_sample = 1"
  "hp_tree_len hp_sample = 1" "hp_buf_cap hp_sample = 1"
  by (simp_all add: hp_inv_def hp_items_def hp_sample_def cells_ok_def cells_def heap_ordered_def)

text \<open>Pushing keeps the heap order and adds exactly the pushed value to the stored multiset, growing the
  buffer when it is full; if it cannot grow the call fails and the heap is as it was.\<close>

theorem hp_push_spec:
  assumes ok: "cmp_ok cmp" and inv: "hp_inv cmp hp" and v: "length v = hp_cell_size hp"
    and room: "hp_tree_len hp = hp_buf_cap hp \<Longrightarrow>
      hp_buf_cap hp \<le> 2 ^ 30 \<and> hp_buf_cap hp * 2 * hp_cell_size hp < 2 ^ 32"
  shows "\<exists>e hp'. hp_push cmp mem junk hp (Some v) = Some (e, hp') \<and> hp_inv cmp hp'
    \<and> (if hp_tree_len hp = hp_buf_cap hp \<and> \<not> mem (hp_buf_cap hp * 2 * hp_cell_size hp)
       then e = FOS_E_NO_MEM \<and> hp' = hp
       else e = FOS_E_SUCCESS \<and> mset (hp_items hp') = add_mset v (mset (hp_items hp)))"
proof (cases "hp_tree_len hp = hp_buf_cap hp \<and> \<not> mem (hp_buf_cap hp * 2 * hp_cell_size hp)")
  case True
  then have "hp_buf_cap hp * 2 mod 2 ^ 32 * hp_cell_size hp mod 2 ^ 32 = hp_buf_cap hp * 2 * hp_cell_size hp"
    using room by simp
  then show ?thesis using hp_push_no_mem [of hp mem cmp junk v] True inv by auto
next
  case False
  then show ?thesis using hp_push_ok [OF ok inv v, of mem junk] room by auto
qed

theorem hp_push_spec_witness:
  "\<exists>hp'. hp_push byte_cmp (\<lambda>_. True) 0 hp_sample (Some [9]) = Some (FOS_E_SUCCESS, hp')
    \<and> mset (hp_items hp') = {#[9], [5]#}"
  using hp_push_spec [OF byte_cmp_ok hp_sample_inv(1), of "[9]" "\<lambda>_. True" 0] by (auto simp: hp_sample_inv)

text \<open>C34. Popping returns a value that no stored value exceeds, removes exactly one copy of it and keeps the heap
  order; an empty heap answers false and stays empty.\<close>

theorem hp_pop_max_spec:
  assumes ok: "cmp_ok cmp" and inv: "hp_inv cmp hp"
  shows "\<exists>b out hp'. hp_pop_max cmp hp True = Some (b, out, hp') \<and> hp_inv cmp hp'
    \<and> (if hp_items hp = [] then \<not> b \<and> out = None \<and> hp' = hp
       else \<exists>v. b \<and> out = Some v \<and> (\<forall>w\<in>set (hp_items hp). 0 \<le> cmp v w)
         \<and> mset (hp_items hp) = add_mset v (mset (hp_items hp')))"
proof (cases "hp_tree_len hp = 0")
  case True
  then show ?thesis using inv length_hp_items [OF inv] by (auto simp: hp_pop_max_def)
next
  case False
  then show ?thesis using hp_pop_max_ok [OF ok inv] length_hp_items [OF inv] by fastforce
qed

definition hp_three :: heap where
  "hp_three = \<lparr>hp_buf = [9, 5, 7], hp_cell_size = 1, hp_buf_cap = 3, hp_tree_len = 3\<rparr>"

lemma hp_three_inv: "hp_inv byte_cmp hp_three" "hp_items hp_three = [[9], [5], [7]]"
  by (auto simp: hp_inv_def hp_items_def hp_three_def cells_ok_def cells_def heap_ordered_def upt_rec byte_cmp_def
      numeral_3_eq_3 less_Suc_eq parent_def)

theorem hp_pop_max_spec_witness:
  "\<exists>v hp'. hp_pop_max byte_cmp hp_three True = Some (True, Some v, hp') \<and> hp_inv byte_cmp hp'
    \<and> (\<forall>w\<in>{[9], [5], [7]}. 0 \<le> byte_cmp v w) \<and> add_mset v (mset (hp_items hp')) = {#[9], [5], [7]#}"
proof -
  obtain b out hp' where "hp_pop_max byte_cmp hp_three True = Some (b, out, hp')" "hp_inv byte_cmp hp'"
    "\<exists>v. b \<and> out = Some v \<and> (\<forall>w\<in>set [[9], [5], [7]]. 0 \<le> byte_cmp v w) \<and> mset [[9], [5], [7]] = add_mset v (mset (hp_items hp'))"
    using hp_pop_max_spec [OF byte_cmp_ok hp_three_inv(1)] unfolding hp_three_inv(2) by auto
  then show ?thesis by (elim exE conjE) (intro exI conjI; (assumption | simp))
qed

text \<open>Creating a heap that fails after one of its two allocations succeeded gives nothing back: exactly one
  block stays allocated with no owner.\<close>

theorem new_heap_leaks:
  assumes "0 < cs" and "hp_ok \<noteq> mem (HP_STARTING_CAP * cs mod 2 ^ 32)"
  shows "new_heap True True hp_ok mem junk cs = (None, 1)"
  using assms by (auto simp: new_heap_def Let_def)

theorem new_heap_leaks_witness: "new_heap True True True (\<lambda>b. b \<le> 24) 0xAA 100 = (None, 1)"
  using new_heap_leaks [of 100 True "\<lambda>b. b \<le> 24" "0xAA"] by (simp add: HP_STARTING_CAP_def)

end
