(* ===== verification/Map_Interface.thy ===== *)
theory Map_Interface imports Fern_Prelude "HOL-Library.Multiset" begin

text \<open>
  The map interface of \<^verbatim>\<open>src/src/s_data/include/s_data/map.h\<close>: the table of operations a
  \<^verbatim>\<open>map_t\<close> carries, the helper \<^verbatim>\<open>mp_get\<close> that is written against it, and the contract
  \<open>map_contract\<close>.  The abstract state is the list of key/value pairs, whose order is not
  specified and whose keys are pairwise different under the map's equator.
\<close>

section \<open>The operation table\<close>

text \<open>
  Keys and values are passed as pointers (\<open>None\<close> is NULL).  A boolean argument says whether
  the caller passes an output pointer; the outputs are the cells pointed to.
\<close>

record ('m, 'k, 'v) map_impl =
  mi_val_size :: "'m \<Rightarrow> nat"
  mi_get_kvp :: "'m \<Rightarrow> 'k option \<Rightarrow> bool \<Rightarrow> (fernos_error \<times> ('k \<times> 'v) option) option"
  mi_put :: "allocator \<Rightarrow> (nat \<Rightarrow> bool) \<Rightarrow> 'm \<Rightarrow> 'k option \<Rightarrow> 'v option \<Rightarrow> (fernos_error \<times> 'm) option"
  mi_remove :: "'m \<Rightarrow> 'k option \<Rightarrow> (bool \<times> 'm) option"
  mi_clear :: "'m \<Rightarrow> 'm option"
  mi_len :: "'m \<Rightarrow> nat"
  mi_reset_iter :: "'m \<Rightarrow> 'm option"
  mi_get_iter :: "'m \<Rightarrow> bool \<Rightarrow> (fernos_error \<times> ('k \<times> 'v) option) option"
  mi_next_iter :: "'m \<Rightarrow> bool \<Rightarrow> (fernos_error \<times> ('k \<times> 'v) option \<times> 'm) option"

definition mp_get :: "('m, 'k, 'v) map_impl \<Rightarrow> 'm \<Rightarrow> 'k option \<Rightarrow> 'v option option" where
  "mp_get I m key =
     (if mi_val_size I m = 0 then Some None
      else do {
        (err, kv) \<leftarrow> mi_get_kvp I m key True;
        Some (if err = FOS_E_SUCCESS then map_option snd kv else None) })"

text \<open>
  The loop with which clients visit a map: \<^verbatim>\<open>mp_reset_iter\<close>, then \<^verbatim>\<open>mp_get_iter\<close> and
  \<^verbatim>\<open>mp_next_iter\<close> while they succeed (as in \<^verbatim>\<open>delete_process\<close> and the plugins), here
  collecting the pairs.
\<close>

partial_function (option) mp_visit_loop ::
  "('m, 'k, 'v) map_impl \<Rightarrow> bool \<Rightarrow> 'm \<Rightarrow> fernos_error \<Rightarrow> ('k \<times> 'v) option \<Rightarrow> ('k \<times> 'v) list
   \<Rightarrow> (('k \<times> 'v) list \<times> 'm) option"
where
  "mp_visit_loop I want m err kv acc =
     (if err \<noteq> FOS_E_SUCCESS then Some (acc, m)
      else do {
        x \<leftarrow> kv;
        (err', kv', m') \<leftarrow> mi_next_iter I m want;
        mp_visit_loop I want m' err' kv' (acc @ [x]) })"

definition mp_visit :: "('m, 'k, 'v) map_impl \<Rightarrow> bool \<Rightarrow> 'm \<Rightarrow> (('k \<times> 'v) list \<times> 'm) option" where
  "mp_visit I want m = do {
     m \<leftarrow> mi_reset_iter I m;
     (err, kv) \<leftarrow> mi_get_iter I m want;
     mp_visit_loop I want m err kv [] }"

section \<open>Association lists up to an equator\<close>

definition kv_find :: "('k \<Rightarrow> 'k \<Rightarrow> bool) \<Rightarrow> ('k \<times> 'v) list \<Rightarrow> 'k \<Rightarrow> ('k \<times> 'v) option" where
  "kv_find eq kvs k = find (\<lambda>(k', v). eq k' k) kvs"

definition kv_update :: "('k \<Rightarrow> 'k \<Rightarrow> bool) \<Rightarrow> 'k \<Rightarrow> 'v \<Rightarrow> ('k \<times> 'v) list \<Rightarrow> ('k \<times> 'v) list" where
  "kv_update eq k v kvs = map (\<lambda>(k', w). if eq k' k then (k', v) else (k', w)) kvs"

definition kv_remove :: "('k \<Rightarrow> 'k \<Rightarrow> bool) \<Rightarrow> 'k \<Rightarrow> ('k \<times> 'v) list \<Rightarrow> ('k \<times> 'v) list" where
  "kv_remove eq k kvs = filter (\<lambda>(k', w). \<not> eq k' k) kvs"

text \<open>No two entries with keys that the equator identifies.\<close>

fun kv_distinct :: "('k \<Rightarrow> 'k \<Rightarrow> bool) \<Rightarrow> ('k \<times> 'v) list \<Rightarrow> bool" where
  "kv_distinct eq [] = True"
| "kv_distinct eq ((k, v) # kvs) = ((\<forall>(k', w)\<in>set kvs. \<not> eq k' k \<and> \<not> eq k k') \<and> kv_distinct eq kvs)"

lemma kv_find_simps [simp]:
  "kv_find eq [] k = None"
  "kv_find eq ((k', v) # kvs) k = (if eq k' k then Some (k', v) else kv_find eq kvs k)"
  by (simp_all add: kv_find_def)

lemma kv_find_Some: "kv_find eq kvs k = Some (k', v) \<Longrightarrow> (k', v) \<in> set kvs \<and> eq k' k"
  by (induction kvs) (auto split: if_splits)

lemma kv_find_None: "kv_find eq kvs k = None \<longleftrightarrow> (\<forall>(k', v)\<in>set kvs. \<not> eq k' k)"
  by (induction kvs) (auto split: if_splits)

text \<open>What a lookup finds after each change.\<close>

lemma kv_find_update:
  "kv_find eq (kv_update eq k v kvs) j =
     map_option (\<lambda>(k', w). (k', if eq k' k then v else w)) (kv_find eq kvs j)"
  by (induction kvs) (auto simp: kv_update_def)

lemma eqv_cong:
  assumes "equivp e"
  shows "e a a" and "e a b \<Longrightarrow> e b a" and "e a b \<Longrightarrow> e a c \<longleftrightarrow> e b c" and "e a b \<Longrightarrow> e c a \<longleftrightarrow> e c b"
  using assms by (auto elim: equivpE dest: sympD transpD reflpD)

lemma kv_find_remove:
  assumes "equivp eq"
  shows "kv_find eq (kv_remove eq k kvs) j = (if eq k j then None else kv_find eq kvs j)"
proof (induction kvs)
  case (Cons x kvs)
  obtain k' w where x: "x = (k', w)" by (cases x)
  have "eq k j \<Longrightarrow> eq k' j \<longleftrightarrow> eq k' k" "eq k' k \<Longrightarrow> eq k' j \<longleftrightarrow> eq k j"
    using eqv_cong [OF assms] by blast+
  then show ?case using Cons by (auto simp: kv_remove_def x)
qed (simp add: kv_remove_def)

section \<open>Permutations of association lists\<close>

lemma kv_distinct_iff:
  assumes "equivp eq"
  shows "kv_distinct eq xs \<longleftrightarrow> distinct xs \<and> (\<forall>x\<in>set xs. \<forall>y\<in>set xs. x \<noteq> y \<longrightarrow> \<not> eq (fst x) (fst y))"
proof (induction xs)
  case (Cons x xs)
  have "kv_distinct eq (x # xs) \<longleftrightarrow>
      (\<forall>y\<in>set xs. \<not> eq (fst y) (fst x) \<and> \<not> eq (fst x) (fst y)) \<and> kv_distinct eq xs"
    by (cases x) (simp add: case_prod_beta)
  also have "\<dots> \<longleftrightarrow> (x \<notin> set xs \<and> (\<forall>y\<in>set xs. \<not> eq (fst y) (fst x) \<and> \<not> eq (fst x) (fst y)))
      \<and> kv_distinct eq xs"
    using eqv_cong(1) [OF assms] by blast
  finally show ?case unfolding Cons by auto
qed simp

lemma kv_distinct_perm:
  assumes "equivp eq" and "mset xs = mset ys"
  shows "kv_distinct eq xs = kv_distinct eq ys"
  unfolding kv_distinct_iff [OF assms(1)] mset_eq_setD [OF assms(2)] mset_eq_imp_distinct_iff [OF assms(2)] ..

lemma kv_find_iff:
  assumes "equivp eq" and "kv_distinct eq xs"
  shows "kv_find eq xs k = Some x \<longleftrightarrow> x \<in> set xs \<and> eq (fst x) k"
proof
  assume "kv_find eq xs k = Some x"
  then show "x \<in> set xs \<and> eq (fst x) k" using kv_find_Some [of eq xs k "fst x" "snd x"] by simp
next
  assume x: "x \<in> set xs \<and> eq (fst x) k"
  then have "kv_find eq xs k \<noteq> None" unfolding kv_find_None by (cases x) auto
  then obtain y where y: "kv_find eq xs k = Some y" by auto
  then have "y \<in> set xs" "eq (fst y) k" using kv_find_Some [of eq xs k "fst y" "snd y"] by simp_all
  moreover have "eq (fst x) (fst y)"
    using x \<open>eq (fst y) k\<close> eqv_cong(4) [OF assms(1), of "fst y" k "fst x"] by blast
  moreover have "\<forall>u\<in>set xs. \<forall>w\<in>set xs. u \<noteq> w \<longrightarrow> \<not> eq (fst u) (fst w)"
    using assms(2) unfolding kv_distinct_iff [OF assms(1)] by (rule conjunct2)
  ultimately have "y = x" using x by metis
  then show "kv_find eq xs k = Some x" using y by simp
qed

lemma option_ext: "(\<And>x. a = Some x \<longleftrightarrow> b = Some x) \<Longrightarrow> a = b"
  by (cases a) (metis not_Some_eq)+

lemma kv_find_perm:
  assumes "equivp eq" and "kv_distinct eq xs" and "mset xs = mset ys"
  shows "kv_find eq ys k = kv_find eq xs k"
proof -
  have d: "kv_distinct eq ys" using kv_distinct_perm [OF assms(1,3)] assms(2) by simp
  have "kv_find eq ys k = Some x \<longleftrightarrow> kv_find eq xs k = Some x" for x
    unfolding kv_find_iff [OF assms(1,2)] kv_find_iff [OF assms(1) d] using mset_eq_setD [OF assms(3)] by simp
  then show ?thesis by (rule option_ext)
qed

lemma kv_distinct_filter: "kv_distinct eq xs \<Longrightarrow> kv_distinct eq (filter P xs)"
proof (induction xs)
  case (Cons x xs)
  then show ?case by (cases x) auto
qed simp

lemma kv_distinct_keys:
  "map fst xs = map fst ys \<Longrightarrow> kv_distinct eq xs = kv_distinct eq ys"
proof (induction xs arbitrary: ys)
  case (Cons x xs)
  then obtain y zs where y: "ys = y # zs" "fst x = fst y" "map fst xs = map fst zs" by auto
  have "(\<forall>z\<in>set xs. \<not> eq (fst z) (fst x) \<and> \<not> eq (fst x) (fst z))
      = (\<forall>k\<in>set (map fst xs). \<not> eq k (fst x) \<and> \<not> eq (fst x) k)" by simp
  also have "\<dots> = (\<forall>z\<in>set zs. \<not> eq (fst z) (fst y) \<and> \<not> eq (fst y) (fst z))"
    using y(2,3) by simp
  finally show ?case
    using Cons.IH [OF y(3)] by (cases x; cases y) (simp add: y(1) case_prod_beta)
qed simp

section \<open>The contract\<close>

locale map_contract =
  fixes I :: "('m, 'k, 'v) map_impl" and eq :: "'m \<Rightarrow> 'k \<Rightarrow> 'k \<Rightarrow> bool"
    and inv :: "'m \<Rightarrow> ('k \<times> 'v) list \<Rightarrow> bool"
    and inv_it :: "'m \<Rightarrow> ('k \<times> 'v) list \<Rightarrow> ('k \<times> 'v) list \<Rightarrow> bool"
  assumes inv_distinct: "inv m kvs \<Longrightarrow> equivp (eq m) \<and> kv_distinct (eq m) kvs"
    and get_ok: "inv m kvs \<Longrightarrow> want \<longrightarrow> 0 < mi_val_size I m \<Longrightarrow>
      mi_get_kvp I m (Some k) want = Some (case kv_find (eq m) kvs k of
          None \<Rightarrow> (FOS_E_EMPTY, None) | Some kv \<Rightarrow> (FOS_E_SUCCESS, Some kv))"
    and put_old: "inv m kvs \<Longrightarrow> 0 < mi_val_size I m \<Longrightarrow> kv_find (eq m) kvs k \<noteq> None \<Longrightarrow>
      \<exists>m'. mi_put I al mem m (Some k) (Some v) = Some (FOS_E_SUCCESS, m') \<and> inv m' (kv_update (eq m) k v kvs)
        \<and> eq m' = eq m \<and> mi_val_size I m' = mi_val_size I m"
    and put_new: "inv m kvs \<Longrightarrow> alloc_ok al \<Longrightarrow> \<not> mem 0 \<Longrightarrow> 0 < mi_val_size I m \<Longrightarrow> kv_find (eq m) kvs k = None \<Longrightarrow>
      length kvs + 1 < 2 ^ 32 \<Longrightarrow>
      \<exists>err m'. mi_put I al mem m (Some k) (Some v) = Some (err, m') \<and> eq m' = eq m
        \<and> mi_val_size I m' = mi_val_size I m
        \<and> (err = FOS_E_SUCCESS \<and> inv m' ((k, v) # kvs) \<or> err = FOS_E_NO_MEM \<and> oom al \<and> m' = m)"
    and remove_ok: "inv m kvs \<Longrightarrow>
      \<exists>m'. mi_remove I m (Some k) = Some (kv_find (eq m) kvs k \<noteq> None, m') \<and> inv m' (kv_remove (eq m) k kvs)
        \<and> eq m' = eq m \<and> mi_val_size I m' = mi_val_size I m"
    and clear_ok: "inv m kvs \<Longrightarrow> \<exists>m'. mi_clear I m = Some m' \<and> inv m' [] \<and> eq m' = eq m"
    and len_ok: "inv m kvs \<Longrightarrow> mi_len I m = length kvs"
    and reset_ok: "inv m kvs \<Longrightarrow> \<exists>m' xs. mi_reset_iter I m = Some m' \<and> inv_it m' kvs xs \<and> mset xs = mset kvs
      \<and> mi_val_size I m' = mi_val_size I m"
    and iter_inv: "inv_it m kvs xs \<Longrightarrow> inv m kvs"
    and iter_get: "inv_it m kvs xs \<Longrightarrow> want \<longrightarrow> 0 < mi_val_size I m \<Longrightarrow>
      mi_get_iter I m want = Some (case xs of [] \<Rightarrow> (FOS_E_EMPTY, None) | x # _ \<Rightarrow> (FOS_E_SUCCESS, Some x))"
    and iter_next: "inv_it m kvs (x # xs) \<Longrightarrow> want \<longrightarrow> 0 < mi_val_size I m \<Longrightarrow>
      \<exists>m'. mi_next_iter I m want =
          Some (case xs of [] \<Rightarrow> (FOS_E_EMPTY, None, m') | y # _ \<Rightarrow> (FOS_E_SUCCESS, Some y, m'))
        \<and> inv_it m' kvs xs \<and> mi_val_size I m' = mi_val_size I m"
begin

lemma get_value:
  assumes "inv m kvs" and "0 < mi_val_size I m"
  shows "mp_get I m (Some k) = Some (map_option snd (kv_find (eq m) kvs k))"
  using get_ok [OF assms(1), of True k] assms(2) by (simp add: mp_get_def split: option.splits)

text \<open>A value that was put is the one that is found.\<close>

lemma get_after_put:
  assumes inv: "inv m kvs" and al: "alloc_ok al" and mem0: "\<not> mem 0" and vs: "0 < mi_val_size I m"
    and len: "length kvs + 1 < 2 ^ 32"
    and put: "mi_put I al mem m (Some k) (Some v) = Some (FOS_E_SUCCESS, m')"
  shows "mp_get I m' (Some j) = (if eq m k j then Some (Some v) else mp_get I m (Some j))"
proof (cases "kv_find (eq m) kvs k")
  case None
  then have i': "inv m' ((k, v) # kvs)" and "eq m' = eq m" "mi_val_size I m' = mi_val_size I m"
    using put_new [where mem = mem and v = v, OF inv al mem0 vs None len] put by auto
  then show ?thesis
    using get_value [OF i'] get_value [OF inv vs] vs by simp
next
  case (Some kv)
  then have i': "inv m' (kv_update (eq m) k v kvs)" and e: "eq m' = eq m" "mi_val_size I m' = mi_val_size I m"
    using put_old [OF inv vs, of k al mem v] put by auto
  obtain k0 v0 where kv: "kv = (k0, v0)" by (cases kv)
  have k0: "(k0, v0) \<in> set kvs" "eq m k0 k" using kv_find_Some Some kv by fast+
  have eqv: "equivp (eq m)" using inv_distinct [OF inv] by simp
  note tr = eqv_cong [OF eqv]
  show ?thesis
  proof (cases "eq m k j")
    case True
    then have "eq m k0 j" using k0(2) tr(3) [OF k0(2)] by blast
    then have "kv_find (eq m) kvs j \<noteq> None" using k0(1) kv_find_None [of "eq m" kvs j] by blast
    then obtain k1 v1 where k1: "kv_find (eq m) kvs j = Some (k1, v1)" by auto
    then have "eq m k1 j" using kv_find_Some by fast
    then have "eq m k1 k" using tr(4) [OF True] by blast
    then show ?thesis
      using True k1 get_value [OF i'] vs e by (simp add: kv_find_update)
  next
    case False
    have "eq m k1 j \<Longrightarrow> \<not> eq m k1 k" for k1 using False tr(3) [of k1 k j] by blast
    then show ?thesis
      using False get_value [OF i'] get_value [OF inv vs] vs e kv_find_Some [of "eq m" kvs j]
      by (cases "kv_find (eq m) kvs j") (auto simp: kv_find_update)
  qed
qed

lemma get_after_remove:
  assumes inv: "inv m kvs" and vs: "0 < mi_val_size I m"
    and rem: "mi_remove I m (Some k) = Some (b, m')"
  shows "mp_get I m' (Some j) = (if eq m k j then Some None else mp_get I m (Some j))"
proof -
  have i': "inv m' (kv_remove (eq m) k kvs)" and e: "eq m' = eq m" "mi_val_size I m' = mi_val_size I m"
    using remove_ok [OF inv, of k] rem by auto
  show ?thesis
    using get_value [OF i'] get_value [OF inv vs] vs e inv_distinct [OF inv]
    by (simp add: kv_find_remove)
qed

lemma visit_loop:
  assumes "inv_it m kvs xs" and "want \<longrightarrow> 0 < mi_val_size I m"
  shows "\<exists>m'. mp_visit_loop I want m (if xs = [] then FOS_E_EMPTY else FOS_E_SUCCESS)
      (if xs = [] then None else Some (hd xs)) acc = Some (acc @ xs, m') \<and> inv m' kvs"
  using assms
proof (induction xs arbitrary: m acc)
  case Nil
  then show ?case using iter_inv by (auto simp: mp_visit_loop.simps)
next
  case (Cons x xs)
  obtain m1 where m1: "mi_next_iter I m want =
      Some (case xs of [] \<Rightarrow> (FOS_E_EMPTY, None, m1) | y # _ \<Rightarrow> (FOS_E_SUCCESS, Some y, m1))"
    "inv_it m1 kvs xs" "mi_val_size I m1 = mi_val_size I m"
    using iter_next [OF Cons.prems] by blast
  show ?case
    using Cons.IH [OF m1(2), of "acc @ [x]"] m1 Cons.prems(2)
    by (subst mp_visit_loop.simps) (auto split: list.splits)
qed

text \<open>An iteration meets every pair once and returns the map as it was.\<close>

lemma visit_all:
  assumes "inv m kvs" and "want \<longrightarrow> 0 < mi_val_size I m"
  shows "\<exists>xs m'. mp_visit I want m = Some (xs, m') \<and> mset xs = mset kvs \<and> inv m' kvs"
proof -
  obtain m1 xs where m1: "mi_reset_iter I m = Some m1" "inv_it m1 kvs xs" "mset xs = mset kvs"
    "mi_val_size I m1 = mi_val_size I m"
    using reset_ok [OF assms(1)] by blast
  have w: "want \<longrightarrow> 0 < mi_val_size I m1" using assms(2) m1(4) by simp
  show ?thesis
    using visit_loop [OF m1(2) w, of "[]"] iter_get [OF m1(2) w] m1
    by (cases xs) (auto simp: mp_visit_def)
qed

end

end
