(* ===== verification/Hash_Map.thy ===== *)
theory Hash_Map imports Map_Interface begin

text \<open>
  The chained hash map of \<^verbatim>\<open>src/src/s_data/src/map.c\<close>: a table of doubly linked chains of
  nodes that doubles when it becomes too full.  The nodes are cells of an explicit
  store; the equator and the hasher are fields of the map, as in the code, and every
  lemma assumes what \<^verbatim>\<open>hash.h\<close> asks of them.
\<close>

section \<open>State\<close>

record ('k, 'v) chm_node =
  hn_next :: "addr option"
  hn_prev :: "addr option"
  hn_hash :: nat
  hn_key :: 'k
  hn_val :: 'v

record ('k, 'v) chm =
  chm_key_size :: nat
  chm_val_size :: nat
  chm_ratio_index :: nat
  chm_key_eq :: "'k \<Rightarrow> 'k \<Rightarrow> bool"
  chm_key_hash :: "'k \<Rightarrow> nat"
  chm_cap :: nat
  chm_len :: nat
  chm_table :: "addr option list"
  chm_nodes :: "addr \<Rightarrow> ('k, 'v) chm_node option"
  chm_iter :: "addr option"

type_synonym ('k, 'v) nodes = "addr \<Rightarrow> ('k, 'v) chm_node option"

definition node_at :: "('k, 'v) nodes \<Rightarrow> addr option \<Rightarrow> ('k, 'v) chm_node option" where
  "node_at nd p = Option.bind p nd"

definition upd_node ::
  "('k, 'v) nodes \<Rightarrow> addr option \<Rightarrow> (('k, 'v) chm_node \<Rightarrow> ('k, 'v) chm_node) \<Rightarrow> ('k, 'v) nodes option"
where
  "upd_node nd p f = do {
     a \<leftarrow> p;
     n \<leftarrow> nd a;
     Some (nd(a \<mapsto> f n)) }"

section \<open>Operations\<close>

text \<open>\<open>chm_ok\<close> and \<open>tbl_ok\<close> are the answers of the allocator for the structure and the table.\<close>

definition new_chained_hash_map ::
  "bool \<Rightarrow> bool \<Rightarrow> nat \<Rightarrow> nat \<Rightarrow> nat \<Rightarrow> ('k \<Rightarrow> 'k \<Rightarrow> bool) option \<Rightarrow> ('k \<Rightarrow> nat) option \<Rightarrow> ('k, 'v) chm option"
where
  "new_chained_hash_map chm_ok tbl_ok key_size val_size rat_ind k_eq k_hash =
     (if key_size = 0 \<or> k_eq = None \<or> k_hash = None \<or> rat_ind < 2 then None
      else if \<not> chm_ok \<or> \<not> tbl_ok then None
      else Some \<lparr>chm_key_size = key_size, chm_val_size = val_size, chm_ratio_index = rat_ind,
        chm_key_eq = the k_eq, chm_key_hash = the k_hash, chm_cap = 1, chm_len = 0,
        chm_table = [None], chm_nodes = Map.empty, chm_iter = None\<rparr>)"

fun chm_null_loop :: "nat \<Rightarrow> nat \<Rightarrow> addr option list \<Rightarrow> addr option list option" where
  "chm_null_loop 0 i tbl = Some tbl"
| "chm_null_loop (Suc n) i tbl = do { tbl \<leftarrow> arr_set tbl i None; chm_null_loop n (i + 1) tbl }"

text \<open>Moving the nodes of one old chain to the front of their new chains.\<close>

partial_function (option) chm_move_loop ::
  "nat \<Rightarrow> addr option \<Rightarrow> ('k, 'v) nodes \<Rightarrow> addr option list \<Rightarrow> (('k, 'v) nodes \<times> addr option list) option"
where
  "chm_move_loop new_cap iter nd new_tbl =
     (if iter = None then Some (nd, new_tbl)
      else do {
        n \<leftarrow> node_at nd iter;
        let next_iter = hn_next n;
        let new_ind = hn_hash n mod new_cap;
        head \<leftarrow> arr_get new_tbl new_ind;
        nd \<leftarrow> (if head \<noteq> None then upd_node nd head (\<lambda>h. h\<lparr>hn_prev := iter\<rparr>) else Some nd);
        nd \<leftarrow> upd_node nd iter (\<lambda>n. n\<lparr>hn_prev := None, hn_next := head\<rparr>);
        new_tbl \<leftarrow> arr_set new_tbl new_ind iter;
        chm_move_loop new_cap next_iter nd new_tbl })"

fun chm_rehash_loop ::
  "nat \<Rightarrow> nat \<Rightarrow> nat \<Rightarrow> addr option list \<Rightarrow> ('k, 'v) nodes \<Rightarrow> addr option list
   \<Rightarrow> (('k, 'v) nodes \<times> addr option list) option"
where
  "chm_rehash_loop 0 i new_cap tbl nd new_tbl = Some (nd, new_tbl)"
| "chm_rehash_loop (Suc n) i new_cap tbl nd new_tbl = do {
     iter \<leftarrow> arr_get tbl i;
     (nd, new_tbl) \<leftarrow> chm_move_loop new_cap iter nd new_tbl;
     chm_rehash_loop n (i + 1) new_cap tbl nd new_tbl }"

text \<open>
  \<open>mem b\<close> says whether \<open>b\<close> bytes can be allocated for the new table (4 bytes per pointer);
  fresh memory is arbitrary, here \<open>Some 0\<close> in every entry until it is cleared.
\<close>

definition chm_try_resize :: "(nat \<Rightarrow> bool) \<Rightarrow> ('k, 'v) chm \<Rightarrow> ('k, 'v) chm option" where
  "chm_try_resize mem m = (
     let bound = (chm_cap m * (chm_ratio_index m - 1) mod 2 ^ 32) div chm_ratio_index m in
     if chm_len m \<le> bound then Some m
     else
       let new_cap = chm_cap m * 2 mod 2 ^ 32 in
       if new_cap \<le> chm_cap m then Some m
       else if \<not> mem (4 * new_cap mod 2 ^ 32) then Some m
       else do {
         new_tbl \<leftarrow> chm_null_loop new_cap 0 (replicate (4 * new_cap mod 2 ^ 32 div 4) (Some 0));
         (nd, new_tbl) \<leftarrow> chm_rehash_loop (chm_cap m) 0 new_cap (chm_table m) (chm_nodes m) new_tbl;
         Some (m\<lparr>chm_table := new_tbl, chm_nodes := nd, chm_cap := new_cap\<rparr>) })"

partial_function (option) chm_get_node_loop ::
  "('k, 'v) chm \<Rightarrow> 'k \<Rightarrow> nat \<Rightarrow> addr option \<Rightarrow> addr option option"
where
  "chm_get_node_loop m key h iter =
     (if iter = None then Some None
      else do {
        n \<leftarrow> node_at (chm_nodes m) iter;
        if hn_hash n = h \<and> chm_key_eq m (hn_key n) key then Some iter
        else chm_get_node_loop m key h (hn_next n) })"

text \<open>A NULL key is passed on to the hasher, which reads through it.\<close>

definition chm_get_node :: "('k, 'v) chm \<Rightarrow> 'k option \<Rightarrow> addr option option" where
  "chm_get_node m key = do {
     k \<leftarrow> key;
     let h = chm_key_hash m k;
     iter \<leftarrow> arr_get (chm_table m) (h mod chm_cap m);
     chm_get_node_loop m k h iter }"

definition chm_get_kvp :: "('k, 'v) chm \<Rightarrow> 'k option \<Rightarrow> bool \<Rightarrow> (fernos_error \<times> ('k \<times> 'v) option) option" where
  "chm_get_kvp m key want_val =
     (if want_val \<and> chm_val_size m = 0 then Some (FOS_E_BAD_ARGS, None)
      else do {
        node \<leftarrow> chm_get_node m key;
        if node = None then Some (FOS_E_EMPTY, None)
        else do {
          n \<leftarrow> node_at (chm_nodes m) node;
          Some (FOS_E_SUCCESS, Some (hn_key n, hn_val n)) } })"

text \<open>\<open>junk\<close> is the value cell of a node that is created without a value.\<close>

definition chm_put ::
  "'v \<Rightarrow> allocator \<Rightarrow> (nat \<Rightarrow> bool) \<Rightarrow> ('k, 'v) chm \<Rightarrow> 'k option \<Rightarrow> 'v option
   \<Rightarrow> (fernos_error \<times> ('k, 'v) chm) option"
where
  "chm_put junk al mem m key val =
     (if chm_val_size m = 0 \<and> val \<noteq> None then Some (FOS_E_BAD_ARGS, m)
      else do {
        node \<leftarrow> chm_get_node m key;
        if node \<noteq> None then
          (case val of
             None \<Rightarrow> Some (FOS_E_SUCCESS, m)
           | Some v \<Rightarrow> do {
               nd \<leftarrow> upd_node (chm_nodes m) node (\<lambda>n. n\<lparr>hn_val := v\<rparr>);
               Some (FOS_E_SUCCESS, m\<lparr>chm_nodes := nd\<rparr>) })
        else
          (case al (dom (chm_nodes m)) of
             None \<Rightarrow> Some (FOS_E_NO_MEM, m)
           | Some a \<Rightarrow> do {
               k \<leftarrow> key;
               let h = chm_key_hash m k;
               let index = h mod chm_cap m;
               old_head \<leftarrow> arr_get (chm_table m) index;
               let nd = (chm_nodes m)(a \<mapsto> \<lparr>hn_next = old_head, hn_prev = None, hn_hash = h, hn_key = k,
                 hn_val = (case val of None \<Rightarrow> junk | Some v \<Rightarrow> v)\<rparr>);
               nd \<leftarrow> (if old_head \<noteq> None then upd_node nd old_head (\<lambda>h. h\<lparr>hn_prev := Some a\<rparr>) else Some nd);
               tbl \<leftarrow> arr_set (chm_table m) index (Some a);
               m \<leftarrow> chm_try_resize mem (m\<lparr>chm_table := tbl, chm_nodes := nd, chm_len := (chm_len m + 1) mod 2 ^ 32\<rparr>);
               Some (FOS_E_SUCCESS, m) }) })"

definition chm_remove :: "('k, 'v) chm \<Rightarrow> 'k option \<Rightarrow> (bool \<times> ('k, 'v) chm) option" where
  "chm_remove m key =
     (if key = None then Some (False, m)
      else do {
        node \<leftarrow> chm_get_node m key;
        case node of
          None \<Rightarrow> Some (False, m)
        | Some a \<Rightarrow> do {
            n \<leftarrow> chm_nodes m a;
            nd \<leftarrow> (if hn_next n \<noteq> None
                  then upd_node (chm_nodes m) (hn_next n) (\<lambda>x. x\<lparr>hn_prev := hn_prev n\<rparr>)
                  else Some (chm_nodes m));
            n \<leftarrow> nd a;
            (nd, tbl) \<leftarrow> (if hn_prev n \<noteq> None
                  then do { nd \<leftarrow> upd_node nd (hn_prev n) (\<lambda>x. x\<lparr>hn_next := hn_next n\<rparr>);
                            Some (nd, chm_table m) }
                  else do { tbl \<leftarrow> arr_set (chm_table m) (hn_hash n mod chm_cap m) (hn_next n);
                            Some (nd, tbl) });
            Some (True, m\<lparr>chm_nodes := nd(a := None), chm_table := tbl,
              chm_len := (chm_len m + (2 ^ 32 - 1)) mod 2 ^ 32\<rparr>) } })"

partial_function (option) chm_clear_chain ::
  "addr option \<Rightarrow> ('k, 'v) nodes \<Rightarrow> ('k, 'v) nodes option"
where
  "chm_clear_chain iter nd =
     (case iter of
        None \<Rightarrow> Some nd
      | Some a \<Rightarrow> do {
          n \<leftarrow> nd a;
          chm_clear_chain (hn_next n) (nd(a := None)) })"

fun chm_clear_loop ::
  "nat \<Rightarrow> nat \<Rightarrow> addr option list \<Rightarrow> ('k, 'v) nodes \<Rightarrow> (addr option list \<times> ('k, 'v) nodes) option"
where
  "chm_clear_loop 0 i tbl nd = Some (tbl, nd)"
| "chm_clear_loop (Suc n) i tbl nd = do {
     iter \<leftarrow> arr_get tbl i;
     nd \<leftarrow> chm_clear_chain iter nd;
     tbl \<leftarrow> arr_set tbl i None;
     chm_clear_loop n (i + 1) tbl nd }"

definition chm_clear :: "('k, 'v) chm \<Rightarrow> ('k, 'v) chm option" where
  "chm_clear m = do {
     (tbl, nd) \<leftarrow> chm_clear_loop (chm_cap m) 0 (chm_table m) (chm_nodes m);
     Some (m\<lparr>chm_table := tbl, chm_nodes := nd, chm_len := 0, chm_iter := None\<rparr>) }"

text \<open>Deleting the map clears it, then frees the table and the structure; the nodes that remain live are returned.\<close>

definition delete_chained_hash_map :: "('k, 'v) chm \<Rightarrow> ('k, 'v) nodes option" where
  "delete_chained_hash_map m = map_option chm_nodes (chm_clear m)"

text \<open>The first chain that is not empty, from index \<open>i\<close> on.\<close>

fun chm_scan_loop :: "nat \<Rightarrow> nat \<Rightarrow> addr option list \<Rightarrow> addr option option" where
  "chm_scan_loop 0 i tbl = Some None"
| "chm_scan_loop (Suc n) i tbl = do {
     h \<leftarrow> arr_get tbl i;
     if h \<noteq> None then Some h else chm_scan_loop n (i + 1) tbl }"

definition chm_reset_iter :: "('k, 'v) chm \<Rightarrow> ('k, 'v) chm option" where
  "chm_reset_iter m = do {
     it \<leftarrow> chm_scan_loop (chm_cap m) 0 (chm_table m);
     Some (m\<lparr>chm_iter := it\<rparr>) }"

definition chm_get_iter :: "('k, 'v) chm \<Rightarrow> bool \<Rightarrow> (fernos_error \<times> ('k \<times> 'v) option) option" where
  "chm_get_iter m want_val =
     (if chm_val_size m = 0 \<and> want_val then Some (FOS_E_BAD_ARGS, None)
      else if chm_iter m = None then Some (FOS_E_EMPTY, None)
      else do {
        n \<leftarrow> node_at (chm_nodes m) (chm_iter m);
        Some (FOS_E_SUCCESS, Some (hn_key n, hn_val n)) })"

definition chm_next_iter ::
  "('k, 'v) chm \<Rightarrow> bool \<Rightarrow> (fernos_error \<times> ('k \<times> 'v) option \<times> ('k, 'v) chm) option"
where
  "chm_next_iter m want_val =
     (if chm_val_size m = 0 \<and> want_val then Some (FOS_E_BAD_ARGS, None, m)
      else do {
        n \<leftarrow> node_at (chm_nodes m) (chm_iter m);
        it \<leftarrow> (if hn_next n \<noteq> None then Some (hn_next n)
              else let i = hn_hash n mod chm_cap m + 1 in chm_scan_loop (chm_cap m - i) i (chm_table m));
        let m = m\<lparr>chm_iter := it\<rparr>;
        (err, kv) \<leftarrow> chm_get_iter m want_val;
        Some (err, kv, m) })"

definition CHM_IMPL :: "'v \<Rightarrow> (('k, 'v) chm, 'k, 'v) map_impl" where
  "CHM_IMPL junk = \<lparr>mi_val_size = chm_val_size, mi_get_kvp = chm_get_kvp, mi_put = chm_put junk,
     mi_remove = chm_remove, mi_clear = chm_clear, mi_len = chm_len, mi_reset_iter = chm_reset_iter,
     mi_get_iter = chm_get_iter, mi_next_iter = chm_next_iter\<rparr>"

section \<open>Representation\<close>

definition nlinks :: "('k, 'v) nodes \<Rightarrow> addr links" where
  "nlinks nd a = map_option (\<lambda>n. (hn_prev n, hn_next n)) (nd a)"

definition payload :: "('k, 'v) nodes \<Rightarrow> addr \<Rightarrow> (nat \<times> 'k \<times> 'v) option" where
  "payload nd a = map_option (\<lambda>n. (hn_hash n, hn_key n, hn_val n)) (nd a)"

definition tab_rep :: "('k, 'v) nodes \<Rightarrow> addr option list \<Rightarrow> addr list list \<Rightarrow> bool" where
  "tab_rep nd tbl bs \<longleftrightarrow> length tbl = length bs \<and> distinct (concat bs)
     \<and> (\<forall>i<length bs. tbl ! i = fst_or None (bs ! i) \<and> dseg (nlinks nd) None (bs ! i) None)"

text \<open>Every node lies in the chain that its hash selects.\<close>

definition homed :: "('k, 'v) nodes \<Rightarrow> addr list list \<Rightarrow> bool" where
  "homed nd bs \<longleftrightarrow> (\<forall>i<length bs. \<forall>a\<in>set (bs ! i). \<exists>n. nd a = Some n \<and> hn_hash n mod length bs = i)"

definition node_kv :: "('k, 'v) nodes \<Rightarrow> addr \<Rightarrow> 'k \<times> 'v" where
  "node_kv nd a = (hn_key (the (nd a)), hn_val (the (nd a)))"

definition chm_items :: "('k, 'v) nodes \<Rightarrow> addr list list \<Rightarrow> ('k \<times> 'v) list" where
  "chm_items nd bs = map (node_kv nd) (concat bs)"

definition chm_wf :: "('k, 'v) chm \<Rightarrow> addr list list \<Rightarrow> bool" where
  "chm_wf m bs \<longleftrightarrow>
     (\<exists>k\<le>29. chm_cap m = 2 ^ k) \<and> length bs = chm_cap m \<and> 2 \<le> chm_ratio_index m
     \<and> tab_rep (chm_nodes m) (chm_table m) bs \<and> homed (chm_nodes m) bs
     \<and> dom (chm_nodes m) = set (concat bs) \<and> chm_len m = length (concat bs) \<and> chm_len m < 2 ^ 32
     \<and> equivp (chm_key_eq m) \<and> (\<forall>a b. chm_key_eq m a b \<longrightarrow> chm_key_hash m a = chm_key_hash m b)
     \<and> (\<forall>a n. chm_nodes m a = Some n \<longrightarrow> hn_hash n = chm_key_hash m (hn_key n))
     \<and> kv_distinct (chm_key_eq m) (chm_items (chm_nodes m) bs)"

definition chm_inv :: "('k, 'v) chm \<Rightarrow> ('k \<times> 'v) list \<Rightarrow> bool" where
  "chm_inv m kvs \<longleftrightarrow> (\<exists>bs. chm_wf m bs \<and> mset kvs = mset (chm_items (chm_nodes m) bs))"

text \<open>The iterator stands before \<open>xs\<close>: the rest of its chain and all later chains.\<close>

definition chm_inv_it :: "('k, 'v) chm \<Rightarrow> ('k \<times> 'v) list \<Rightarrow> ('k \<times> 'v) list \<Rightarrow> bool" where
  "chm_inv_it m kvs xs \<longleftrightarrow> (\<exists>bs pre as. chm_wf m bs \<and> mset kvs = mset (chm_items (chm_nodes m) bs)
     \<and> concat bs = pre @ as \<and> xs = map (node_kv (chm_nodes m)) as \<and> chm_iter m = fst_or None as)"

section \<open>Lists of chains\<close>

lemma concat_nth:
  assumes "i < length bs"
  shows "concat bs = concat (take i bs) @ bs ! i @ concat (drop (Suc i) bs)"
    and "concat (bs[i := x]) = concat (take i bs) @ x @ concat (drop (Suc i) bs)"
proof -
  have "bs = take i bs @ bs ! i # drop (Suc i) bs" by (rule id_take_nth_drop [OF assms])
  then show "concat bs = concat (take i bs) @ bs ! i @ concat (drop (Suc i) bs)"
    by (metis concat.simps(2) concat_append)
  show "concat (bs[i := x]) = concat (take i bs) @ x @ concat (drop (Suc i) bs)"
    by (simp add: upd_conv_take_nth_drop [OF assms])
qed

lemma concat_member: "i < length bs \<Longrightarrow> a \<in> set (bs ! i) \<Longrightarrow> a \<in> set (concat bs)"
  using concat_nth(1) [of i bs] by simp

lemma distinct_mid: "distinct (xs @ ys @ zs) \<Longrightarrow> a \<in> set ys \<Longrightarrow> a \<notin> set xs \<and> a \<notin> set zs"
  by auto

lemma distinct_inner: "distinct (xs @ ys @ zs) \<Longrightarrow> distinct ys"
  by simp

lemma filter_ne: "a \<notin> set xs \<Longrightarrow> filter (\<lambda>c. c \<noteq> a) xs = xs"
  by (induction xs) auto

lemma filter_middle:
  "distinct (us @ (xs @ a # ys) @ zs) \<Longrightarrow> filter (\<lambda>c. c \<noteq> a) (us @ (xs @ a # ys) @ zs) = us @ (xs @ ys) @ zs"
  by (simp add: filter_ne)

lemma concat_disjoint:
  assumes "distinct (concat bs)" and "i < length bs" and "j < length bs" and "i \<noteq> j" and "a \<in> set (bs ! i)"
  shows "a \<notin> set (bs ! j)"
proof -
  have "distinct (concat (take i bs) @ bs ! i @ concat (drop (Suc i) bs))"
    using assms(1) by (simp only: concat_nth(1) [OF assms(2), symmetric])
  then have d: "a \<notin> set (concat (take i bs))" "a \<notin> set (concat (drop (Suc i) bs))"
    using distinct_mid [OF _ assms(5)] by blast+
  show ?thesis
  proof (cases "j < i")
    case True
    then have "bs ! j = take i bs ! j" "j < length (take i bs)" using assms(2) by simp_all
    then show ?thesis using concat_member [of j "take i bs" a] d(1) by metis
  next
    case False
    then have "bs ! j = drop (Suc i) bs ! (j - Suc i)" "j - Suc i < length (drop (Suc i) bs)"
      using assms(3,4) by simp_all
    then show ?thesis using concat_member [of "j - Suc i" "drop (Suc i) bs" a] d(2) by metis
  qed
qed

lemma mset_concat_push:
  "i < length bs \<Longrightarrow> mset (concat (bs[i := a # bs ! i])) = add_mset a (mset (concat bs))"
  using concat_nth(1) [of i bs] concat_nth(2) [of i bs "a # bs ! i"] by simp

lemma fst_or_mem: "fst_or None xs = Some c \<Longrightarrow> c \<in> set xs"
  by (cases xs) auto

lemma find_append: "find P (xs @ ys) = (case find P xs of None \<Rightarrow> find P ys | Some x \<Rightarrow> Some x)"
  by (induction xs) auto

lemma node_at_Some [simp]: "node_at nd (Some a) = nd a"
  by (simp add: node_at_def)

lemma upd_node_ok [simp]: "nd a = Some n \<Longrightarrow> upd_node nd (Some a) f = Some (nd(a \<mapsto> f n))"
  by (simp add: upd_node_def)

lemma payload_kv: "payload nd' a = payload nd a \<Longrightarrow> nd a \<noteq> None \<Longrightarrow> node_kv nd' a = node_kv nd a"
  by (cases "nd a"; cases "nd' a") (auto simp: payload_def node_kv_def)

lemma payload_dom: "payload nd' a = payload nd a \<Longrightarrow> nd' a = None \<longleftrightarrow> nd a = None"
  by (cases "nd a"; cases "nd' a") (auto simp: payload_def)

lemma payload_Some:
  "payload nd' a = payload nd a \<Longrightarrow> nd a = Some n \<Longrightarrow>
   \<exists>n'. nd' a = Some n' \<and> hn_hash n' = hn_hash n \<and> hn_key n' = hn_key n \<and> hn_val n' = hn_val n"
  by (cases "nd' a") (auto simp: payload_def)

lemma tab_rep_live: "tab_rep nd tbl bs \<Longrightarrow> a \<in> set (concat bs) \<Longrightarrow> nd a \<noteq> None"
proof -
  assume t: "tab_rep nd tbl bs" "a \<in> set (concat bs)"
  then obtain b where "b \<in> set bs" "a \<in> set b" by auto
  then obtain i where "i < length bs" "a \<in> set (bs ! i)" by (metis in_set_conv_nth)
  then have "nlinks nd a \<noteq> None" using t(1) dseg_live unfolding tab_rep_def by metis
  then show ?thesis by (simp add: nlinks_def)
qed

section \<open>Pushing a node to the front of a chain\<close>

text \<open>
  The four writes that \<^verbatim>\<open>chm_put\<close> and the loop of \<^verbatim>\<open>chm_try_resize\<close> do, in either order:
  the old head's \<^verbatim>\<open>prev\<close>, the node's two links and the table entry.
\<close>

definition front_nodes :: "addr \<Rightarrow> addr option \<Rightarrow> ('k, 'v) nodes \<Rightarrow> ('k, 'v) nodes" where
  "front_nodes a head nd =
     (let nd1 = nd(a := map_option (\<lambda>n. n\<lparr>hn_prev := None, hn_next := head\<rparr>) (nd a))
      in case head of None \<Rightarrow> nd1 | Some h \<Rightarrow> nd1(h := map_option (\<lambda>n. n\<lparr>hn_prev := Some a\<rparr>) (nd1 h)))"

lemma front_nodes_payload [simp]: "payload (front_nodes a head nd) = payload nd"
  by (auto simp: payload_def front_nodes_def Let_def fun_eq_iff option.map_comp o_def split: option.split)

lemma front_nodes_other: "c \<noteq> a \<Longrightarrow> head \<noteq> Some c \<Longrightarrow> front_nodes a head nd c = nd c"
  by (auto simp: front_nodes_def Let_def split: option.split)

lemma tab_rep_front:
  assumes rep: "tab_rep nd tbl bs" and i: "i < length bs" and a: "a \<notin> set (concat bs)" "nd a \<noteq> None"
  shows "tab_rep (front_nodes a (fst_or None (bs ! i)) nd) (tbl[i := Some a]) (bs[i := a # bs ! i])"
proof -
  let ?h = "fst_or None (bs ! i)"
  let ?nd = "front_nodes a ?h nd"
  have ai: "a \<notin> set (bs ! i)" using a(1) i concat_member by metis
  have seg: "dseg (nlinks nd) None (bs ! j) None" if "j < length bs" for j using rep that by (simp add: tab_rep_def)
  have dist: "distinct (concat bs)" using rep by (simp add: tab_rep_def)
  then have di: "distinct (bs ! i)" using concat_nth(1) [OF i] by simp
  have "dseg (nlinks ?nd) None ([] @ a # bs ! i) None"
  proof (rule dseg_insert [where lk = "nlinks nd"])
    show "dseg (nlinks nd) None ([] @ bs ! i) None" "distinct ([] @ bs ! i)" using seg i di by simp_all
    show "nlinks ?nd a = Some (lst_or None [], fst_or None (bs ! i))"
      using ai a(2) by (cases "bs ! i") (auto simp: nlinks_def front_nodes_def)
    show "nlinks ?nd (hd (bs ! i)) = map_option (\<lambda>(u, v). (Some a, v)) (nlinks nd (hd (bs ! i)))" if "bs ! i \<noteq> []"
      using that ai by (cases "bs ! i")
        (auto simp: nlinks_def front_nodes_def Let_def option.map_comp o_def)
    show "nlinks ?nd c = nlinks nd c"
      if "c \<in> set ([] @ bs ! i)" "[] = [] \<or> c \<noteq> last []" "bs ! i = [] \<or> c \<noteq> hd (bs ! i)" for c
    proof -
      have "c \<noteq> a" "fst_or None (bs ! i) \<noteq> Some c" using that ai by (cases "bs ! i", auto)+
      then show ?thesis by (simp add: nlinks_def front_nodes_other)
    qed
  qed simp_all
  then have si: "dseg (nlinks ?nd) None (a # bs ! i) None" by simp
  have sj: "dseg (nlinks ?nd) None (bs ! j) None" if j: "j < length bs" "j \<noteq> i" for j
  proof -
    have "dseg (nlinks ?nd) None (bs ! j) None = dseg (nlinks nd) None (bs ! j) None"
    proof (rule dseg_cong)
      fix c assume c: "c \<in> set (bs ! j)"
      then have "c \<noteq> a" using a(1) concat_member j(1) by metis
      moreover have "c \<notin> set (bs ! i)" using concat_disjoint [OF dist j(1) i j(2) c] .
      then have "?h \<noteq> Some c" by (cases "bs ! i") auto
      ultimately show "nlinks ?nd c = nlinks nd c" by (simp add: nlinks_def front_nodes_other)
    qed
    then show ?thesis using seg j by simp
  qed
  have "distinct (concat (bs[i := a # bs ! i]))"
    using dist a(1) unfolding concat_nth(1) [OF i] concat_nth(2) [OF i] by auto
  then show ?thesis
    using rep i si sj by (auto simp: tab_rep_def nth_list_update)
qed

lemma homed_front:
  assumes "homed nd bs" and "nd a = Some n" and "hn_hash n mod length bs = i" and "i < length bs"
  shows "homed (front_nodes a h nd) (bs[i := a # bs ! i])"
  unfolding homed_def
proof (intro allI impI ballI)
  fix j c assume j: "j < length (bs[i := a # bs ! i])" and c: "c \<in> set (bs[i := a # bs ! i] ! j)"
  have "\<exists>n. nd c = Some n \<and> hn_hash n mod length bs = j"
    using assms j c by (cases "j = i") (auto simp: homed_def)
  then show "\<exists>n. front_nodes a h nd c = Some n \<and> hn_hash n mod length (bs[i := a # bs ! i]) = j"
    using payload_Some [of "front_nodes a h nd" c nd] by fastforce
qed

section \<open>Growing the table\<close>

lemma chm_null_loop_ok:
  "i + n \<le> length tbl \<Longrightarrow> \<exists>tbl'. chm_null_loop n i tbl = Some tbl' \<and> length tbl' = length tbl
     \<and> (\<forall>j. tbl' ! j = (if i \<le> j \<and> j < i + n then None else tbl ! j))"
proof (induction n arbitrary: i tbl)
  case (Suc n)
  have "Suc i + n \<le> length (tbl[i := None])" using Suc.prems by simp
  then obtain tbl' where t: "chm_null_loop n (Suc i) (tbl[i := None]) = Some tbl'" "length tbl' = length tbl"
    "\<And>j. tbl' ! j = (if Suc i \<le> j \<and> j < Suc i + n then None else tbl[i := None] ! j)"
    using Suc.IH by fastforce
  have "tbl' ! j = (if i \<le> j \<and> j < i + Suc n then None else tbl ! j)" for j
    using t(3) [of j] Suc.prems by (cases "j = i") auto
  then show ?case using t(1,2) Suc.prems by simp
qed auto

lemma front_nodes_late:
  assumes "nd a = Some n" and "head \<noteq> Some a"
  shows "front_nodes a head nd = (case head of None \<Rightarrow> nd | Some h \<Rightarrow> nd(h := map_option (\<lambda>n. n\<lparr>hn_prev := Some a\<rparr>) (nd h)))
    (a \<mapsto> n\<lparr>hn_prev := None, hn_next := head\<rparr>)"
  using assms by (cases head) (auto simp: front_nodes_def Let_def fun_eq_iff)

lemma chm_move_loop_ok:
  assumes "dseg (nlinks nd) p as None" and "tab_rep nd tbl nbs" and "homed nd nbs" and "distinct as"
    and "set as \<inter> set (concat nbs) = {}" and "length nbs = nc" and "0 < nc"
  shows "\<exists>nd' tbl' nbs'. chm_move_loop nc (fst_or None as) nd tbl = Some (nd', tbl') \<and> tab_rep nd' tbl' nbs'
    \<and> homed nd' nbs' \<and> length nbs' = nc \<and> mset (concat nbs') = mset as + mset (concat nbs)
    \<and> payload nd' = payload nd \<and> (\<forall>c. c \<notin> set as \<longrightarrow> c \<notin> set (concat nbs) \<longrightarrow> nd' c = nd c)"
  using assms
proof (induction as arbitrary: p nd tbl nbs)
  case Nil
  then show ?case by (auto simp: chm_move_loop.simps)
next
  case (Cons a as)
  obtain n where n: "nd a = Some n" "hn_next n = fst_or None as"
    using Cons.prems(1) by (auto simp: nlinks_def)
  let ?i = "hn_hash n mod nc"
  have i: "?i < nc" "?i < length nbs" "?i < length tbl"
    using Cons.prems(2,6,7) by (simp_all add: tab_rep_def)
  have a: "a \<notin> set (concat nbs)" using Cons.prems(5) by auto
  let ?h = "fst_or None (nbs ! ?i)"
  have th: "tbl ! ?i = ?h" using Cons.prems(2) i by (simp add: tab_rep_def)
  have hne: "?h \<noteq> Some a" using a concat_member [OF i(2)] by (cases "nbs ! ?i") auto
  have hlive: "\<exists>nh. nd h = Some nh" if "?h = Some h" for h
    using that tab_rep_live [OF Cons.prems(2)] concat_member [OF i(2), of h] by (cases "nbs ! ?i") auto
  let ?nd = "front_nodes a ?h nd" and ?tbl = "tbl[?i := Some a]" and ?nbs = "nbs[?i := a # nbs ! ?i]"
  have step: "chm_move_loop nc (fst_or None (a # as)) nd tbl = chm_move_loop nc (fst_or None as) ?nd ?tbl"
    using n th i hlive hne front_nodes_late [where nd = nd and head = ?h, OF n(1) hne]
    by (subst chm_move_loop.simps) (cases ?h, auto)
  have ms: "mset (concat ?nbs) = add_mset a (mset (concat nbs))" by (rule mset_concat_push [OF i(2)])
  then have st: "set (concat ?nbs) = insert a (set (concat nbs))" by (metis set_mset_mset set_mset_add_mset_insert)
  have rep: "tab_rep ?nd ?tbl ?nbs" using tab_rep_front [OF Cons.prems(2) i(2) a] n by simp
  have hom: "homed ?nd ?nbs" using homed_front [OF Cons.prems(3) n(1)] Cons.prems(6) i by simp
  have same: "?nd c = nd c" if "c \<notin> set (a # as)" "c \<notin> set (concat nbs)" for c
    using that concat_member [OF i(2), of c] fst_or_mem [of "nbs ! ?i" c]
    by (intro front_nodes_other) auto
  have "dseg (nlinks ?nd) (Some a) as None = dseg (nlinks nd) (Some a) as None"
  proof (rule dseg_cong)
    fix c assume c: "c \<in> set as"
    have "?h \<noteq> Some c" using c Cons.prems(5) concat_member [OF i(2)] by (cases "nbs ! ?i") auto
    moreover have "c \<noteq> a" using c Cons.prems(4) by auto
    ultimately show "nlinks ?nd c = nlinks nd c" by (simp add: nlinks_def front_nodes_other)
  qed
  then have "dseg (nlinks ?nd) (Some a) as None" using Cons.prems(1) by simp
  moreover have "set as \<inter> set (concat ?nbs) = {}" using Cons.prems(4,5) st by auto
  ultimately obtain nd' tbl' nbs' where r: "chm_move_loop nc (fst_or None as) ?nd ?tbl = Some (nd', tbl')"
    "tab_rep nd' tbl' nbs'" "homed nd' nbs'" "length nbs' = nc" "mset (concat nbs') = mset as + mset (concat ?nbs)"
    "payload nd' = payload ?nd" "\<forall>c. c \<notin> set as \<longrightarrow> c \<notin> set (concat ?nbs) \<longrightarrow> nd' c = ?nd c"
    using Cons.IH [OF _ rep hom] Cons.prems(4,6,7) by fastforce
  have "mset (concat nbs') = mset (a # as) + mset (concat nbs)" using r(5) ms by simp
  moreover have "\<forall>c. c \<notin> set (a # as) \<longrightarrow> c \<notin> set (concat nbs) \<longrightarrow> nd' c = nd c"
    using r(7) same st by (simp del: set_concat)
  moreover have "payload nd' = payload nd" using r(6) by simp
  ultimately show ?case using step r(1-4) by metis
qed

lemma chm_rehash_loop_ok:
  assumes "i + length rest = length tbl" and "\<And>j. j < length rest \<Longrightarrow> tbl ! (i + j) = fst_or None (rest ! j)"
    and "\<And>b. b \<in> set rest \<Longrightarrow> dseg (nlinks nd) None b None" and "tab_rep nd ntbl nbs" and "homed nd nbs"
    and "distinct (concat rest)" and "set (concat rest) \<inter> set (concat nbs) = {}" and "length nbs = nc" and "0 < nc"
  shows "\<exists>nd' tbl' nbs'. chm_rehash_loop (length rest) i nc tbl nd ntbl = Some (nd', tbl') \<and> tab_rep nd' tbl' nbs'
    \<and> homed nd' nbs' \<and> length nbs' = nc \<and> mset (concat nbs') = mset (concat rest) + mset (concat nbs)
    \<and> payload nd' = payload nd"
  using assms
proof (induction rest arbitrary: i nd ntbl nbs)
  case Nil
  then show ?case by auto
next
  case (Cons b rest)
  have hd: "tbl ! i = fst_or None b" "i < length tbl" using Cons.prems(1) Cons.prems(2) [of 0] by simp_all
  have "distinct b" "set b \<inter> set (concat nbs) = {}" using Cons.prems(6,7) by auto
  then obtain nd1 tbl1 nbs1 where m: "chm_move_loop nc (fst_or None b) nd ntbl = Some (nd1, tbl1)"
    "tab_rep nd1 tbl1 nbs1" "homed nd1 nbs1" "length nbs1 = nc" "mset (concat nbs1) = mset b + mset (concat nbs)"
    "payload nd1 = payload nd" "\<forall>c. c \<notin> set b \<longrightarrow> c \<notin> set (concat nbs) \<longrightarrow> nd1 c = nd c"
    using chm_move_loop_ok [OF Cons.prems(3) [of b] Cons.prems(4,5)] Cons.prems(8,9) by auto
  have s1: "set (concat nbs1) = set b \<union> set (concat nbs)"
    using arg_cong [OF m(5), of set_mset] by simp
  have seg: "dseg (nlinks nd1) None c None" if "c \<in> set rest" for c
  proof -
    have "dseg (nlinks nd1) None c None = dseg (nlinks nd) None c None"
    proof (rule dseg_cong)
      fix x assume "x \<in> set c"
      then have "x \<in> set (concat rest)" using that by auto
      then have "x \<notin> set b" "x \<notin> set (concat nbs)" using Cons.prems(6,7) by auto
      then show "nlinks nd1 x = nlinks nd x" using m(7) by (simp add: nlinks_def)
    qed
    then show ?thesis using Cons.prems(3) that by simp
  qed
  have "set (concat rest) \<inter> set (concat nbs1) = {}" using Cons.prems(6,7) s1 by auto
  moreover have "tbl ! (Suc i + j) = fst_or None (rest ! j)" if "j < length rest" for j
    using Cons.prems(2) [of "Suc j"] that by simp
  ultimately obtain nd' tbl' nbs' where r: "chm_rehash_loop (length rest) (Suc i) nc tbl nd1 tbl1 = Some (nd', tbl')"
    "tab_rep nd' tbl' nbs'" "homed nd' nbs'" "length nbs' = nc"
    "mset (concat nbs') = mset (concat rest) + mset (concat nbs1)" "payload nd' = payload nd1"
    using Cons.IH [of "Suc i" nd1 tbl1 nbs1] seg m(2-4) Cons.prems(1,6,9) by auto
  have "mset (concat nbs') = mset (concat (b # rest)) + mset (concat nbs)" using r(5) m(5) by simp
  moreover have "chm_rehash_loop (length (b # rest)) i nc tbl nd ntbl = Some (nd', tbl')"
    using hd m(1) r(1) by simp
  ultimately show ?case using r(2-4,6) m(6) by metis
qed

lemma chm_items_cong:
  assumes "payload nd' = payload nd" and "\<And>a. a \<in> set (concat bs) \<Longrightarrow> nd a \<noteq> None"
  shows "chm_items nd' bs = chm_items nd bs"
  unfolding chm_items_def using payload_kv [OF fun_cong [OF assms(1)] assms(2)] by (intro map_cong) auto

lemma payload_all:
  assumes "payload nd' = payload nd"
  shows "dom nd' = dom nd"
    and "(\<forall>a n. nd' a = Some n \<longrightarrow> P (hn_hash n) (hn_key n)) \<longleftrightarrow> (\<forall>a n. nd a = Some n \<longrightarrow> P (hn_hash n) (hn_key n))"
proof -
  show "dom nd' = dom nd" using payload_dom [OF fun_cong [OF assms]] by (auto simp: dom_def)
  have "(\<forall>a n. d' a = Some n \<longrightarrow> P (hn_hash n) (hn_key n))"
    if p: "payload d' = payload d" and d: "\<forall>a n. d a = Some n \<longrightarrow> P (hn_hash n) (hn_key n)" for d d' :: "('a, 'b) nodes"
  proof (intro allI impI)
    fix a n assume "d' a = Some n"
    then obtain n' where "d a = Some n'" "hn_hash n' = hn_hash n" "hn_key n' = hn_key n"
      using payload_Some [OF fun_cong [OF p [symmetric]]] by metis
    then show "P (hn_hash n) (hn_key n)" using d by metis
  qed
  then show "(\<forall>a n. nd' a = Some n \<longrightarrow> P (hn_hash n) (hn_key n)) \<longleftrightarrow>
      (\<forall>a n. nd a = Some n \<longrightarrow> P (hn_hash n) (hn_key n))"
    using assms by (metis (no_types, lifting))
qed

text \<open>A resize, whether it happens or not, keeps the represented pairs.\<close>

lemma chm_try_resize_ok:
  assumes wf: "chm_wf m bs" and mem0: "\<not> mem 0"
  shows "\<exists>m' bs'. chm_try_resize mem m = Some m' \<and> chm_wf m' bs'
    \<and> mset (chm_items (chm_nodes m') bs') = mset (chm_items (chm_nodes m) bs)
    \<and> chm_key_eq m' = chm_key_eq m \<and> chm_val_size m' = chm_val_size m"
proof -
  let ?nc = "chm_cap m * 2 mod 2 ^ 32"
  show ?thesis
  proof (cases "chm_len m \<le> (chm_cap m * (chm_ratio_index m - 1) mod 2 ^ 32) div chm_ratio_index m
      \<or> ?nc \<le> chm_cap m \<or> \<not> mem (4 * ?nc mod 2 ^ 32)")
    case True
    then have "chm_try_resize mem m = Some m" by (auto simp: chm_try_resize_def Let_def)
    then show ?thesis using wf by auto
  next
    case grow: False
    obtain k where k: "k \<le> 29" "chm_cap m = 2 ^ k" using wf unfolding chm_wf_def by blast
    have nc: "?nc = 2 ^ Suc k"
    proof -
      have "(2::nat) ^ Suc k < 2 ^ 32" using k(1) by (intro power_strict_increasing) simp_all
      then show ?thesis by (simp add: k(2))
    qed
    have "k \<noteq> 29"
    proof
      assume "k = 29"
      then have "4 * ?nc mod 2 ^ 32 = 0" by (simp add: k(2))
      then show False using grow mem0 by simp
    qed
    then have k29: "Suc k \<le> 29" using k(1) by simp
    then have "(2::nat) ^ Suc k \<le> 2 ^ 29" by (intro power_increasing) simp_all
    then have fits: "4 * ?nc mod 2 ^ 32 div 4 = ?nc" unfolding nc by simp
    have w: "length bs = chm_cap m" "tab_rep (chm_nodes m) (chm_table m) bs"
      "dom (chm_nodes m) = set (concat bs)" "distinct (concat bs)"
      using wf by (simp_all add: chm_wf_def tab_rep_def)
    obtain t0 where t0: "chm_null_loop ?nc 0 (replicate ?nc (Some 0)) = Some t0" "length t0 = ?nc"
      "\<And>j. j < ?nc \<Longrightarrow> t0 ! j = None"
    proof -
      have "\<exists>t. chm_null_loop n 0 (replicate n (Some 0)) = Some t \<and> length t = n \<and> (\<forall>j<n. t ! j = None)" for n
        using chm_null_loop_ok [of 0 n "replicate n (Some 0)"] by auto
      then show ?thesis using that by blast
    qed
    have "tab_rep (chm_nodes m) t0 (replicate ?nc [])" "homed (chm_nodes m) (replicate ?nc [])"
      using t0 by (simp_all add: tab_rep_def homed_def concat_replicate_trivial)
    moreover have "\<And>j. j < length bs \<Longrightarrow> chm_table m ! (0 + j) = fst_or None (bs ! j)"
      "\<And>b. b \<in> set bs \<Longrightarrow> dseg (nlinks (chm_nodes m)) None b None" "0 + length bs = length (chm_table m)"
      using w(2) by (auto simp: tab_rep_def in_set_conv_nth)
    moreover have "0 < ?nc" unfolding nc by simp
    ultimately obtain nd tbl bs' where r:
      "chm_rehash_loop (length bs) 0 ?nc (chm_table m) (chm_nodes m) t0 = Some (nd, tbl)" "tab_rep nd tbl bs'"
      "homed nd bs'" "length bs' = ?nc" "mset (concat bs') = mset (concat bs)" "payload nd = payload (chm_nodes m)"
      using chm_rehash_loop_ok [of 0 bs "chm_table m" "chm_nodes m" t0 "replicate ?nc []" ?nc] w(4)
      by (auto simp: concat_replicate_trivial)
    let ?m = "m\<lparr>chm_table := tbl, chm_nodes := nd, chm_cap := ?nc\<rparr>"
    have "chm_try_resize mem m = Some ?m"
      using grow t0(1) r(1) w(1) unfolding chm_try_resize_def Let_def fits by simp
    have live: "\<And>a. a \<in> set (concat bs) \<Longrightarrow> chm_nodes m a \<noteq> None" using w(3) by auto
    have st: "set (concat bs') = set (concat bs)" by (rule mset_eq_setD [OF r(5)])
    have it: "mset (chm_items nd bs') = mset (chm_items (chm_nodes m) bs)"
    proof -
      have "mset (chm_items nd bs') = image_mset (node_kv nd) (mset (concat bs))"
        unfolding chm_items_def mset_map r(5) ..
      also have "\<dots> = mset (chm_items nd bs)" by (simp add: chm_items_def)
      finally show ?thesis using chm_items_cong [OF r(6) live] by simp
    qed
    have pow: "\<exists>j\<le>29. ?nc = 2 ^ j" using k29 nc by blast
    have "kv_distinct (chm_key_eq m) (chm_items nd bs')"
      using kv_distinct_perm [OF _ it] wf by (simp add: chm_wf_def)
    moreover have "length (concat bs') = length (concat bs)" by (rule mset_eq_length [OF r(5)])
    ultimately have "chm_wf ?m bs'"
      using wf r(2-4) st payload_all(1) [OF r(6)]
        payload_all(2) [OF r(6), of "\<lambda>h k. h = chm_key_hash m k"] pow
      by (simp add: chm_wf_def)
    then show ?thesis using \<open>chm_try_resize mem m = Some ?m\<close> it by auto
  qed
qed

section \<open>Lookup\<close>

definition key_is :: "('k, 'v) chm \<Rightarrow> 'k \<Rightarrow> addr \<Rightarrow> bool" where
  "key_is m k a = (case chm_nodes m a of None \<Rightarrow> False | Some n \<Rightarrow> chm_key_eq m (hn_key n) k)"

lemma chm_wfD:
  assumes "chm_wf m bs"
  shows "0 < chm_cap m" and "length bs = chm_cap m" and "tab_rep (chm_nodes m) (chm_table m) bs"
    and "homed (chm_nodes m) bs" and "dom (chm_nodes m) = set (concat bs)" and "chm_len m = length (concat bs)"
    and "equivp (chm_key_eq m)" and "chm_key_eq m x y \<Longrightarrow> chm_key_hash m x = chm_key_hash m y"
    and "chm_nodes m a = Some n \<Longrightarrow> hn_hash n = chm_key_hash m (hn_key n)"
    and "kv_distinct (chm_key_eq m) (chm_items (chm_nodes m) bs)" and "distinct (concat bs)"
    and "length (chm_table m) = chm_cap m"
  using assms by (auto simp: chm_wf_def tab_rep_def)

lemma chm_get_node_loop_ok:
  "dseg (nlinks (chm_nodes m)) p as None \<Longrightarrow>
   chm_get_node_loop m k h (fst_or None as) =
     Some (find (\<lambda>a. key_is m k a \<and> map_option hn_hash (chm_nodes m a) = Some h) as)"
proof (induction as arbitrary: p)
  case (Cons a as)
  then obtain n where "chm_nodes m a = Some n" "hn_next n = fst_or None as"
    by (auto simp: nlinks_def)
  then show ?case
    using Cons by (subst chm_get_node_loop.simps) (auto simp: key_is_def)
qed (simp add: chm_get_node_loop.simps)

lemma bucket_live:
  assumes wf: "chm_wf m bs" and a: "a \<in> set (concat bs)"
  shows "\<exists>n. chm_nodes m a = Some n \<and> a \<in> set (bs ! (hn_hash n mod chm_cap m))"
proof -
  obtain b where "b \<in> set bs" "a \<in> set b" using a by auto
  then obtain i where i: "i < length bs" "a \<in> set (bs ! i)" by (metis in_set_conv_nth)
  then obtain n where "chm_nodes m a = Some n" "hn_hash n mod length bs = i"
    using chm_wfD(4) [OF wf] by (auto simp: homed_def)
  then show ?thesis using i chm_wfD(2) [OF wf] by auto
qed

lemma chm_get_node_ok:
  assumes wf: "chm_wf m bs"
  shows "chm_get_node m (Some k) = Some (find (key_is m k) (concat bs))"
proof -
  let ?h = "chm_key_hash m k"
  let ?i = "?h mod chm_cap m"
  have i: "?i < length bs" "?i < length (chm_table m)" using chm_wfD(1,2,12) [OF wf] by simp_all
  have hash: "map_option hn_hash (chm_nodes m a) = Some ?h" if "key_is m k a" for a
    using that chm_wfD(8,9) [OF wf] by (auto simp: key_is_def split: option.splits)
  have away: "\<not> key_is m k a" if j: "j < length bs" "j \<noteq> ?i" "a \<in> set (bs ! j)" for j a
  proof
    assume key: "key_is m k a"
    obtain n where "chm_nodes m a = Some n" "hn_hash n mod chm_cap m = j"
      using chm_wfD(4) [OF wf] j unfolding homed_def chm_wfD(2) [OF wf] by blast
    then show False using hash [OF key] j(2) by simp
  qed
  have "\<not> key_is m k a" if mem: "a \<in> set (concat (take ?i bs))" for a
  proof -
    obtain b where "b \<in> set (take ?i bs)" "a \<in> set b" using mem by auto
    then obtain j where j: "j < length (take ?i bs)" "take ?i bs ! j = b"
      by (metis in_set_conv_nth)
    then have "bs ! j = b" "j < length bs" "j \<noteq> ?i" by simp_all
    then show ?thesis using away \<open>a \<in> set b\<close> by blast
  qed
  then have f1: "find (key_is m k) (concat (take ?i bs)) = None" by (auto simp: find_None_iff)
  have "\<not> key_is m k a" if mem: "a \<in> set (concat (drop (Suc ?i) bs))" for a
  proof -
    obtain b where "b \<in> set (drop (Suc ?i) bs)" "a \<in> set b" using mem by auto
    then obtain j where "j < length (drop (Suc ?i) bs)" "drop (Suc ?i) bs ! j = b"
      by (metis in_set_conv_nth)
    then have "bs ! (Suc ?i + j) = b" "Suc ?i + j < length bs" "Suc ?i + j \<noteq> ?i" by simp_all
    then show ?thesis using away \<open>a \<in> set b\<close> by blast
  qed
  then have f2: "find (key_is m k) (concat (drop (Suc ?i) bs)) = None" by (auto simp: find_None_iff)
  have "find (key_is m k) (concat bs) = find (key_is m k) (bs ! ?i)"
    unfolding concat_nth(1) [OF i(1)] find_append f1 f2 by (simp split: option.split)
  moreover have "(\<lambda>a. key_is m k a \<and> map_option hn_hash (chm_nodes m a) = Some ?h) = key_is m k"
    by (rule ext) (metis hash)
  moreover have "dseg (nlinks (chm_nodes m)) None (bs ! ?i) None" "chm_table m ! ?i = fst_or None (bs ! ?i)"
    using chm_wfD(3) [OF wf] i(1) by (simp_all add: tab_rep_def)
  ultimately show ?thesis
    using chm_get_node_loop_ok [of m None "bs ! ?i" k ?h] i(2) by (simp add: chm_get_node_def)
qed

lemma find_items:
  assumes "\<And>a. a \<in> set as \<Longrightarrow> chm_nodes m a \<noteq> None"
  shows "kv_find (chm_key_eq m) (map (node_kv (chm_nodes m)) as) k
    = map_option (node_kv (chm_nodes m)) (find (key_is m k) as)"
  using assms
proof (induction as)
  case (Cons a as)
  then obtain n where "chm_nodes m a = Some n" by fastforce
  then show ?case using Cons by (simp add: key_is_def node_kv_def)
qed simp

lemma chm_find:
  assumes wf: "chm_wf m bs"
  shows "kv_find (chm_key_eq m) (chm_items (chm_nodes m) bs) k
    = map_option (node_kv (chm_nodes m)) (find (key_is m k) (concat bs))"
  unfolding chm_items_def by (rule find_items) (use chm_wfD(5) [OF wf] in auto)

lemma chm_inv_find:
  assumes wf: "chm_wf m bs" and ms: "mset kvs = mset (chm_items (chm_nodes m) bs)"
  shows "kv_find (chm_key_eq m) kvs k = map_option (node_kv (chm_nodes m)) (find (key_is m k) (concat bs))"
  using kv_find_perm [OF chm_wfD(7,10) [OF wf] ms [symmetric]] chm_find [OF wf] by simp

lemma find_key:
  "find (key_is m k) as = Some a \<Longrightarrow> a \<in> set as \<and> (\<exists>n. chm_nodes m a = Some n \<and> chm_key_eq m (hn_key n) k)"
  by (auto simp: find_Some_iff key_is_def split: option.splits)

lemma kv_distinct_map:
  "kv_distinct eq (map f xs) \<Longrightarrow> a \<in> set xs \<Longrightarrow> c \<in> set xs \<Longrightarrow> a \<noteq> c \<Longrightarrow> \<not> eq (fst (f a)) (fst (f c))"
proof (induction xs)
  case (Cons x xs)
  obtain k v where "f x = (k, v)" by (cases "f x")
  then show ?case using Cons by (auto simp: case_prod_beta)
qed simp

lemma key_unique:
  assumes wf: "chm_wf m bs" and "a \<in> set (concat bs)" and "c \<in> set (concat bs)"
    and "key_is m k a" and "key_is m k c"
  shows "a = c"
proof (rule ccontr)
  assume "a \<noteq> c"
  then have "\<not> chm_key_eq m (fst (node_kv (chm_nodes m) a)) (fst (node_kv (chm_nodes m) c))"
    using kv_distinct_map [OF chm_wfD(10) [OF wf, unfolded chm_items_def] assms(2,3)] by blast
  moreover have "chm_key_eq m (fst (node_kv (chm_nodes m) a)) k" "chm_key_eq m (fst (node_kv (chm_nodes m) c)) k"
    using assms(4,5) by (auto simp: key_is_def node_kv_def split: option.splits)
  ultimately show False using eqv_cong(2,4) [OF chm_wfD(7) [OF wf]] by blast
qed

section \<open>Insertion\<close>

lemma nlinks_val [simp]: "nd a = Some n \<Longrightarrow> nlinks (nd(a \<mapsto> n\<lparr>hn_val := v\<rparr>)) = nlinks nd"
  by (auto simp: nlinks_def)

lemma chm_put_old:
  assumes wf: "chm_wf m bs" and find: "find (key_is m k) (concat bs) = Some a" and vs: "0 < chm_val_size m"
  shows "\<exists>m'. chm_put junk al mem m (Some k) (Some v) = Some (FOS_E_SUCCESS, m') \<and> chm_wf m' bs
    \<and> chm_items (chm_nodes m') bs = kv_update (chm_key_eq m) k v (chm_items (chm_nodes m) bs)
    \<and> chm_key_eq m' = chm_key_eq m \<and> chm_val_size m' = chm_val_size m"
proof -
  obtain n where a: "a \<in> set (concat bs)" "chm_nodes m a = Some n" "chm_key_eq m (hn_key n) k"
    using find_key [OF find] by blast
  let ?nd = "(chm_nodes m)(a \<mapsto> n\<lparr>hn_val := v\<rparr>)"
  let ?m = "m\<lparr>chm_nodes := ?nd\<rparr>"
  have run: "chm_put junk al mem m (Some k) (Some v) = Some (FOS_E_SUCCESS, ?m)"
    using chm_get_node_ok [OF wf, of k] find a(2) vs by (simp add: chm_put_def)
  have kv: "node_kv ?nd c = (if key_is m k c then (fst (node_kv (chm_nodes m) c), v) else node_kv (chm_nodes m) c)"
    if "c \<in> set (concat bs)" for c
  proof (cases "c = a")
    case True
    then show ?thesis using a(2,3) by (simp add: node_kv_def key_is_def)
  next
    case False
    have "key_is m k a" using a(2,3) by (simp add: key_is_def)
    then have "\<not> key_is m k c" using False key_unique [OF wf a(1) that] by blast
    then show ?thesis using False by (simp add: node_kv_def)
  qed
  have key: "key_is m k c \<longleftrightarrow> chm_key_eq m (fst (node_kv (chm_nodes m) c)) k" if "c \<in> set (concat bs)" for c
    using bucket_live [OF wf that] by (auto simp: key_is_def node_kv_def)
  have items: "chm_items ?nd bs = kv_update (chm_key_eq m) k v (chm_items (chm_nodes m) bs)"
    unfolding chm_items_def kv_update_def map_map
  proof (rule map_cong [OF refl])
    fix c assume c: "c \<in> set (concat bs)"
    show "node_kv ?nd c = ((\<lambda>(k', w). if chm_key_eq m k' k then (k', v) else (k', w)) \<circ> node_kv (chm_nodes m)) c"
      unfolding kv [OF c] key [OF c] by (simp add: case_prod_beta)
  qed
  have "map fst (chm_items ?nd bs) = map fst (chm_items (chm_nodes m) bs)"
    unfolding items by (simp add: kv_update_def case_prod_beta o_def if_distrib)
  then have "kv_distinct (chm_key_eq m) (chm_items ?nd bs)"
    using kv_distinct_keys chm_wfD(10) [OF wf] by metis
  moreover have "tab_rep ?nd (chm_table m) bs" using chm_wfD(3) [OF wf] a(2) by (simp add: tab_rep_def)
  moreover have "homed ?nd bs" using chm_wfD(4) [OF wf] a(2) by (fastforce simp: homed_def)
  ultimately have "chm_wf ?m bs" using wf a(1,2) by (auto simp: chm_wf_def)
  then show ?thesis using run items by auto
qed

lemma front_nodes_fresh:
  assumes "nd a = Some n" and "hn_prev n = None" and "hn_next n = head"
  shows "front_nodes a head nd = (case head of None \<Rightarrow> nd
    | Some h \<Rightarrow> nd(h := map_option (\<lambda>n. n\<lparr>hn_prev := Some a\<rparr>) (nd h)))"
proof -
  have "n\<lparr>hn_prev := None, hn_next := head\<rparr> = n" using assms(2,3) by (cases n) simp
  then have "nd(a := map_option (\<lambda>n. n\<lparr>hn_prev := None, hn_next := head\<rparr>) (nd a)) = nd"
    using assms(1) by (simp add: fun_upd_idem)
  then show ?thesis by (simp add: front_nodes_def)
qed

lemma chm_put_new:
  assumes wf: "chm_wf m bs" and find: "find (key_is m k) (concat bs) = None" and vs: "0 < chm_val_size m"
    and al: "alloc_ok al" and mem0: "\<not> mem 0" and len: "length (concat bs) + 1 < 2 ^ 32"
  shows "\<exists>err m'. chm_put junk al mem m (Some k) (Some v) = Some (err, m') \<and> chm_key_eq m' = chm_key_eq m
    \<and> chm_val_size m' = chm_val_size m
    \<and> (err = FOS_E_SUCCESS \<and> (\<exists>bs'. chm_wf m' bs' \<and>
          mset (chm_items (chm_nodes m') bs') = add_mset (k, v) (mset (chm_items (chm_nodes m) bs)))
       \<or> err = FOS_E_NO_MEM \<and> oom al \<and> m' = m)"
proof (cases "al (dom (chm_nodes m))")
  case None
  moreover have "finite (dom (chm_nodes m))" by (simp add: chm_wfD(5) [OF wf])
  ultimately have "oom al" by (rule oomI)
  then show ?thesis using chm_get_node_ok [OF wf, of k] find vs None by (simp add: chm_put_def)
next
  case (Some a)
  let ?h = "chm_key_hash m k"
  let ?i = "?h mod chm_cap m"
  have i: "?i < length bs" "?i < length (chm_table m)" using chm_wfD(1,2,12) [OF wf] by simp_all
  have "a \<notin> dom (chm_nodes m)" using alloc_okD [OF al Some] .
  then have a: "a \<notin> set (concat bs)" "chm_nodes m a = None" using chm_wfD(5) [OF wf] by auto
  let ?hd = "fst_or None (bs ! ?i)"
  let ?n = "\<lparr>hn_next = ?hd, hn_prev = None, hn_hash = ?h, hn_key = k, hn_val = v\<rparr>"
  let ?ndx = "(chm_nodes m)(a \<mapsto> ?n)"
  let ?nd = "front_nodes a ?hd ?ndx"
  let ?bs = "bs[?i := a # bs ! ?i]" and ?tbl = "(chm_table m)[?i := Some a]"
  let ?m1 = "m\<lparr>chm_table := ?tbl, chm_nodes := ?nd, chm_len := chm_len m + 1\<rparr>"
  have th: "chm_table m ! ?i = ?hd" using chm_wfD(3) [OF wf] i by (simp add: tab_rep_def)
  have hd: "?hd = Some h \<Longrightarrow> h \<in> set (concat bs)" for h using fst_or_mem concat_member [OF i(1)] by metis
  have front: "(case ?hd of None \<Rightarrow> ?ndx | Some h \<Rightarrow> ?ndx(h := map_option (\<lambda>n. n\<lparr>hn_prev := Some a\<rparr>) (?ndx h))) = ?nd"
    by (rule front_nodes_fresh [of ?ndx a ?n ?hd, symmetric]) simp_all
  have hlive: "?hd = Some h \<Longrightarrow> \<exists>nh. ?ndx h = Some nh" for h
    using bucket_live [OF wf hd] a(2) by auto
  have ll: "(chm_len m + 1) mod 2 ^ 32 = chm_len m + 1" using chm_wfD(6) [OF wf] len by simp
  have run: "chm_put junk al mem m (Some k) (Some v) = do {
      m \<leftarrow> chm_try_resize mem ?m1; Some (FOS_E_SUCCESS, m) }"
  proof -
    have u: "?hd \<noteq> None \<Longrightarrow> upd_node ?ndx ?hd (\<lambda>h. h\<lparr>hn_prev := Some a\<rparr>) = Some ?nd"
      "?hd = None \<Longrightarrow> ?nd = ?ndx"
      using hlive front by (cases ?hd, auto)+
    show ?thesis
      using chm_get_node_ok [OF wf, of k] find vs Some i(2) ll [simplified] u
      by (cases "?hd = None") (simp_all add: chm_put_def th Let_def del: fst_or_None_iff)
  qed
  have rep0: "tab_rep ?ndx (chm_table m) bs"
  proof -
    have "dseg (nlinks ?ndx) None (bs ! j) None" if "j < length bs" for j
    proof -
      have "dseg (nlinks ?ndx) None (bs ! j) None = dseg (nlinks (chm_nodes m)) None (bs ! j) None"
        by (rule dseg_cong) (use a(1) concat_member [OF that] in \<open>auto simp: nlinks_def\<close>)
      then show ?thesis using chm_wfD(3) [OF wf] that by (simp add: tab_rep_def)
    qed
    then show ?thesis using chm_wfD(3) [OF wf] by (simp add: tab_rep_def)
  qed
  have hom0: "homed ?ndx bs"
    using chm_wfD(4) [OF wf] a(1) concat_member by (fastforce simp: homed_def)
  have rep: "tab_rep ?nd ?tbl ?bs" using tab_rep_front [OF rep0 i(1) a(1)] by simp
  have hom: "homed ?nd ?bs" using homed_front [OF hom0, of a ?n ?i ?hd] i chm_wfD(2) [OF wf] by simp
  have ms: "mset (concat ?bs) = add_mset a (mset (concat bs))" by (rule mset_concat_push [OF i(1)])
  have st: "set (concat ?bs) = insert a (set (concat bs))" using arg_cong [OF ms, of set_mset] by simp
  have pl: "payload ?nd = payload ?ndx" by simp
  have items: "mset (chm_items ?nd ?bs) = add_mset (k, v) (mset (chm_items (chm_nodes m) bs))"
  proof -
    have 1: "node_kv ?nd a = (k, v)"
      using payload_kv [OF fun_cong [OF pl], of a] by (simp add: node_kv_def)
    have 2: "node_kv ?nd c = node_kv (chm_nodes m) c" if "c \<in> set (concat bs)" for c
    proof -
      have "c \<noteq> a" using that a(1) by auto
      then show ?thesis
        using payload_kv [OF fun_cong [OF pl], of c] bucket_live [OF wf that] by (auto simp: node_kv_def)
    qed
    have "image_mset (node_kv ?nd) (mset (concat bs)) = image_mset (node_kv (chm_nodes m)) (mset (concat bs))"
      by (rule image_mset_cong) (use 2 in simp)
    then show ?thesis unfolding chm_items_def mset_map ms using 1 by simp
  qed
  have "kv_distinct (chm_key_eq m) ((k, v) # chm_items (chm_nodes m) bs)"
  proof -
    have "kv_find (chm_key_eq m) (chm_items (chm_nodes m) bs) k = None" using chm_find [OF wf] find by simp
    then have "\<forall>(k', w)\<in>set (chm_items (chm_nodes m) bs). \<not> chm_key_eq m k' k" by (simp add: kv_find_None)
    then have "\<forall>(k', w)\<in>set (chm_items (chm_nodes m) bs). \<not> chm_key_eq m k' k \<and> \<not> chm_key_eq m k k'"
      using eqv_cong(2) [OF chm_wfD(7) [OF wf]] by blast
    then show ?thesis using chm_wfD(10) [OF wf] by simp
  qed
  then have "kv_distinct (chm_key_eq m) (chm_items ?nd ?bs)"
    using kv_distinct_perm [OF chm_wfD(7) [OF wf], of "chm_items ?nd ?bs" "(k, v) # chm_items (chm_nodes m) bs"]
      items by simp
  moreover have "\<forall>c n. ?ndx c = Some n \<longrightarrow> hn_hash n = chm_key_hash m (hn_key n)"
    using chm_wfD(9) [OF wf] by auto
  then have "\<forall>c n. ?nd c = Some n \<longrightarrow> hn_hash n = chm_key_hash m (hn_key n)"
    using payload_all(2) [OF pl, of "\<lambda>h k. h = chm_key_hash m k"] by simp
  moreover have "dom ?nd = set (concat ?bs)" using payload_all(1) [OF pl] st chm_wfD(5) [OF wf] by simp
  moreover have "length (concat ?bs) = length (concat bs) + 1" using arg_cong [OF ms, of size] by simp
  ultimately have wf1: "chm_wf ?m1 ?bs"
    using wf rep hom len by (simp add: chm_wf_def del: set_concat)
  obtain m' bs' where "chm_try_resize mem ?m1 = Some m'" "chm_wf m' bs'"
    "mset (chm_items (chm_nodes m') bs') = mset (chm_items (chm_nodes ?m1) ?bs)"
    "chm_key_eq m' = chm_key_eq m" "chm_val_size m' = chm_val_size m"
    using chm_try_resize_ok [where mem = mem, OF wf1 mem0] by auto
  then show ?thesis using run items by auto
qed

section \<open>Removal\<close>

definition opt_upd :: "addr option \<Rightarrow> (('k, 'v) chm_node \<Rightarrow> ('k, 'v) chm_node) \<Rightarrow> ('k, 'v) nodes \<Rightarrow> ('k, 'v) nodes" where
  "opt_upd p f nd = (case p of None \<Rightarrow> nd | Some h \<Rightarrow> nd(h := map_option f (nd h)))"

lemma opt_upd_run:
  "(\<And>h. p = Some h \<Longrightarrow> nd h \<noteq> None) \<Longrightarrow>
   (if p \<noteq> None then upd_node nd p f else Some nd) = Some (opt_upd p f nd)"
  by (cases p) (auto simp: opt_upd_def)

lemma opt_upd_payload [simp]:
  "payload (opt_upd p (\<lambda>n. n\<lparr>hn_prev := x\<rparr>) nd) = payload nd"
  "payload (opt_upd p (\<lambda>n. n\<lparr>hn_next := x\<rparr>) nd) = payload nd"
  by (auto simp: payload_def opt_upd_def fun_eq_iff option.map_comp o_def split: option.split)

lemma opt_upd_other: "p \<noteq> Some c \<Longrightarrow> opt_upd p f nd c = nd c"
  by (auto simp: opt_upd_def split: option.split)

lemma chm_unlink_seg:
  assumes seg: "dseg (nlinks nd) None (xs @ a # ys) None" and dist: "distinct (xs @ a # ys)"
  defines "nd2 \<equiv> opt_upd (lst_or None xs) (\<lambda>n. n\<lparr>hn_next := fst_or None ys\<rparr>)
    (opt_upd (fst_or None ys) (\<lambda>n. n\<lparr>hn_prev := lst_or None xs\<rparr>) nd)"
  shows "dseg (nlinks nd2) None (xs @ ys) None"
proof (rule dseg_remove [OF seg dist])
  have ends: "last xs \<noteq> hd ys" if "xs \<noteq> []" "ys \<noteq> []"
    using hd_not_left [of xs ys "last xs"] dist that by simp
  show "nlinks nd2 (last xs) = map_option (\<lambda>(u, v). (u, fst_or None ys)) (nlinks nd (last xs))" if "xs \<noteq> []"
    using ends that by (cases ys) (auto simp: nd2_def nlinks_def opt_upd_def lst_or_def option.map_comp o_def)
  show "nlinks nd2 (hd ys) = map_option (\<lambda>(u, v). (lst_or None xs, v)) (nlinks nd (hd ys))" if "ys \<noteq> []"
    using ends that by (cases ys) (auto simp: nd2_def nlinks_def opt_upd_def lst_or_def option.map_comp o_def)
  show "nlinks nd2 c = nlinks nd c" if "xs = [] \<or> c \<noteq> last xs" "ys = [] \<or> c \<noteq> hd ys" for c
  proof -
    have "lst_or None xs \<noteq> Some c" "fst_or None ys \<noteq> Some c"
      using that by (auto simp: lst_or_eq_Some fst_or_eq_Some)
    then show ?thesis by (simp add: nd2_def nlinks_def opt_upd_other)
  qed
qed

lemma lst_or_mem: "lst_or None xs = Some c \<Longrightarrow> c \<in> set xs"
  by (auto simp: lst_or_def split: if_splits)

text \<open>The map without the node \<open>a\<close>, whatever led to it.\<close>

lemma chm_remove_node:
  assumes wf: "chm_wf m bs" and find: "find (key_is m k) (concat bs) = Some a"
  shows "\<exists>m' bs'. chm_remove m (Some k) = Some (True, m') \<and> chm_wf m' bs'
    \<and> chm_items (chm_nodes m') bs' = kv_remove (chm_key_eq m) k (chm_items (chm_nodes m) bs)
    \<and> chm_key_eq m' = chm_key_eq m \<and> chm_val_size m' = chm_val_size m"
proof -
  let ?nd = "chm_nodes m"
  have a: "a \<in> set (concat bs)" "key_is m k a" using find_key [OF find] by (simp_all add: key_is_def) force
  obtain n where n: "?nd a = Some n" "a \<in> set (bs ! (hn_hash n mod chm_cap m))"
    using bucket_live [OF wf a(1)] by blast
  define i where "i = hn_hash n mod chm_cap m"
  have i: "i < length bs" "i < length (chm_table m)" using chm_wfD(1,2,12) [OF wf] by (simp_all add: i_def)
  obtain xs ys where b: "bs ! i = xs @ a # ys" using n(2) by (auto simp: i_def dest: split_list)
  have seg: "dseg (nlinks ?nd) None (bs ! j) None" "chm_table m ! j = fst_or None (bs ! j)" if "j < length bs" for j
    using chm_wfD(3) [OF wf] that by (simp_all add: tab_rep_def)
  have dist: "distinct (concat bs)" by (rule chm_wfD(11) [OF wf])
  have db: "distinct (xs @ a # ys)"
    using dist unfolding concat_nth(1) [OF i(1)] b by (rule distinct_inner)
  have segi: "dseg (nlinks ?nd) None (xs @ a # ys) None" using seg(1) [OF i(1)] b by simp
  then have links: "hn_prev n = lst_or None xs" "hn_next n = fst_or None ys"
    using n(1) by (auto simp: dseg_append nlinks_def)
  let ?f = "fst_or None ys" and ?l = "lst_or None xs"
  define nd1 where "nd1 = opt_upd ?f (\<lambda>x. x\<lparr>hn_prev := ?l\<rparr>) ?nd"
  define nd2 where "nd2 = opt_upd ?l (\<lambda>x. x\<lparr>hn_next := ?f\<rparr>) nd1"
  have mem: "?f = Some c \<Longrightarrow> c \<in> set ys" "?l = Some c \<Longrightarrow> c \<in> set xs" for c
    using fst_or_mem [of ys c] lst_or_mem [of xs c] by auto
  have inb: "c \<in> set xs \<union> set ys \<Longrightarrow> c \<in> set (bs ! i) \<and> c \<noteq> a" for c using b db by auto
  have live: "c \<in> set (bs ! i) \<Longrightarrow> ?nd c \<noteq> None" for c
    using bucket_live [OF wf concat_member [OF i(1)]] by blast
  have "?f \<noteq> Some a" using mem(1) inb by blast
  then have n1: "nd1 a = Some n" using n(1) by (simp add: nd1_def opt_upd_other)
  have run1: "(if ?f \<noteq> None then upd_node ?nd ?f (\<lambda>x. x\<lparr>hn_prev := ?l\<rparr>) else Some ?nd) = Some nd1"
    unfolding nd1_def by (rule opt_upd_run) (use mem(1) inb live in blast)
  have pl1: "payload nd1 = payload ?nd" by (simp add: nd1_def)
  have run2: "(if ?l \<noteq> None then upd_node nd1 ?l (\<lambda>x. x\<lparr>hn_next := ?f\<rparr>) else Some nd1) = Some nd2"
    unfolding nd2_def
  proof (rule opt_upd_run)
    fix h assume "?l = Some h"
    then have "?nd h \<noteq> None" using mem(2) inb live by blast
    then show "nd1 h \<noteq> None" using payload_dom [OF fun_cong [OF pl1], of h] by simp
  qed
  let ?tbl = "if ?l = None then (chm_table m)[i := ?f] else chm_table m"
  let ?bs = "bs[i := xs @ ys]"
  let ?len = "chm_len m - 1"
  let ?m = "m\<lparr>chm_nodes := nd2(a := None), chm_table := ?tbl, chm_len := ?len\<rparr>"
  have len: "length (concat bs) = length (concat ?bs) + 1"
    unfolding concat_nth(1) [OF i(1)] concat_nth(2) [OF i(1)] by (simp add: b)
  have ll: "(chm_len m + (2 ^ 32 - 1)) mod 2 ^ 32 = ?len"
  proof -
    have "chm_len m + (2 ^ 32 - 1) = ?len + 2 ^ 32" using chm_wfD(6) [OF wf] len by simp
    moreover have "chm_len m < 2 ^ 32" using wf unfolding chm_wf_def by blast
    then have "?len < 2 ^ 32" by linarith
    ultimately show ?thesis by (metis mod_add_self2 mod_less)
  qed
  have run: "chm_remove m (Some k) = Some (True, ?m)"
  proof -
    have u1: "?f \<noteq> None \<Longrightarrow> upd_node ?nd ?f (\<lambda>x. x\<lparr>hn_prev := ?l\<rparr>) = Some nd1" "?f = None \<Longrightarrow> nd1 = ?nd"
      using run1 by (simp_all split: if_splits)
    have u2: "?l \<noteq> None \<Longrightarrow> upd_node nd1 ?l (\<lambda>x. x\<lparr>hn_next := ?f\<rparr>) = Some nd2" "?l = None \<Longrightarrow> nd2 = nd1"
      using run2 by (simp_all split: if_splits)
    show ?thesis
      using chm_get_node_ok [OF wf, of k] find n(1) links u1 u2 n1 i ll [simplified]
      by (cases "?f = None"; cases "?l = None")
        (simp_all add: chm_remove_def i_def [symmetric] del: fst_or_None_iff lst_or_None_iff not_None_eq)
  qed
  have pl2: "payload nd2 = payload ?nd" by (simp add: nd2_def pl1)
  have other: "nd2 c = ?nd c" if "c \<notin> set (bs ! i)" for c
  proof -
    have "?f \<noteq> Some c" "?l \<noteq> Some c" using that mem inb by blast+
    then show ?thesis by (simp add: nd2_def nd1_def opt_upd_other)
  qed
  have segi': "dseg (nlinks (nd2(a := None))) None (xs @ ys) None"
  proof -
    have "dseg (nlinks nd2) None (xs @ ys) None"
      using chm_unlink_seg [OF segi db] by (simp add: nd2_def nd1_def)
    moreover have "dseg (nlinks (nd2(a := None))) None (xs @ ys) None = dseg (nlinks nd2) None (xs @ ys) None"
      by (rule dseg_cong) (use db in \<open>auto simp: nlinks_def\<close>)
    ultimately show ?thesis by simp
  qed
  have segj: "dseg (nlinks (nd2(a := None))) None (bs ! j) None" if "j < length bs" "j \<noteq> i" for j
  proof -
    have "dseg (nlinks (nd2(a := None))) None (bs ! j) None = dseg (nlinks ?nd) None (bs ! j) None"
    proof (rule dseg_cong)
      fix c assume "c \<in> set (bs ! j)"
      then have "c \<notin> set (bs ! i)" using concat_disjoint [OF dist that(1) i(1) that(2)] by blast
      moreover from this have "c \<noteq> a" using b by auto
      ultimately show "nlinks (nd2(a := None)) c = nlinks ?nd c" using other by (simp add: nlinks_def)
    qed
    then show ?thesis using seg(1) that by simp
  qed
  have cc: "concat ?bs = filter (\<lambda>c. c \<noteq> a) (concat bs)"
  proof -
    have d: "distinct (concat (take i bs) @ (xs @ a # ys) @ concat (drop (Suc i) bs))"
      using dist unfolding concat_nth(1) [OF i(1)] b .
    then have "filter (\<lambda>c. c \<noteq> a) (concat (take i bs) @ (xs @ a # ys) @ concat (drop (Suc i) bs))
        = concat (take i bs) @ (xs @ ys) @ concat (drop (Suc i) bs)"
      by (rule filter_middle)
    then show ?thesis unfolding concat_nth(1) [OF i(1)] concat_nth(2) [OF i(1)] b ..
  qed
  have rep: "tab_rep (nd2(a := None)) ?tbl ?bs"
  proof -
    have "?tbl ! j = fst_or None (?bs ! j)" if "j < length bs" for j
      using that seg(2) [OF that] i b by (cases xs) (auto simp: nth_list_update)
    moreover have "dseg (nlinks (nd2(a := None))) None (?bs ! j) None" if "j < length bs" for j
      using segi' segj that i by (cases "j = i") simp_all
    ultimately show ?thesis
      using chm_wfD(2,12) [OF wf] dist by (simp add: tab_rep_def cc)
  qed
  have hom: "homed (nd2(a := None)) ?bs"
    unfolding homed_def
  proof (intro allI impI ballI)
    fix j c assume j: "j < length ?bs" and c: "c \<in> set (?bs ! j)"
    then have "c \<in> set (concat ?bs)" using concat_member by metis
    then have "c \<noteq> a" by (simp add: cc)
    moreover have "c \<in> set (bs ! j)" using c j b by (cases "j = i") auto
    then obtain n' where "?nd c = Some n'" "hn_hash n' mod length bs = j"
      using chm_wfD(4) [OF wf] j unfolding homed_def by auto
    ultimately show "\<exists>n. (nd2(a := None)) c = Some n \<and> hn_hash n mod length ?bs = j"
      using payload_Some [OF fun_cong [OF pl2], of c n'] by auto
  qed
  have kv: "node_kv (nd2(a := None)) c = node_kv ?nd c" if "c \<in> set (concat ?bs)" for c
  proof -
    have "c \<noteq> a" "c \<in> set (concat bs)" using that by (simp_all add: cc)
    then show ?thesis
      using payload_kv [OF fun_cong [OF pl2], of c] bucket_live [OF wf, of c] by (auto simp: node_kv_def)
  qed
  have items: "chm_items (nd2(a := None)) ?bs = kv_remove (chm_key_eq m) k (chm_items ?nd bs)"
  proof -
    have "c \<noteq> a \<longleftrightarrow> \<not> chm_key_eq m (fst (node_kv ?nd c)) k" if "c \<in> set (concat bs)" for c
      using key_unique [OF wf a(1) that a(2)] a(2) bucket_live [OF wf that]
      by (auto simp: key_is_def node_kv_def n(1))
    then have "filter (\<lambda>c. c \<noteq> a) (concat bs) = filter (\<lambda>c. \<not> chm_key_eq m (fst (node_kv ?nd c)) k) (concat bs)"
      by (intro filter_cong) simp_all
    moreover have "chm_items (nd2(a := None)) ?bs = map (node_kv ?nd) (concat ?bs)"
      unfolding chm_items_def by (rule map_cong [OF refl]) (rule kv)
    ultimately show ?thesis
      unfolding cc by (simp add: chm_items_def kv_remove_def filter_map o_def case_prod_beta)
  qed
  have "kv_distinct (chm_key_eq m) (chm_items (nd2(a := None)) ?bs)"
    unfolding items kv_remove_def by (rule kv_distinct_filter [OF chm_wfD(10) [OF wf]])
  moreover have "\<forall>c x. nd2 c = Some x \<longrightarrow> hn_hash x = chm_key_hash m (hn_key x)"
    using payload_all(2) [OF pl2, of "\<lambda>h k. h = chm_key_hash m k"] chm_wfD(9) [OF wf] by blast
  then have "\<forall>c x. (nd2(a := None)) c = Some x \<longrightarrow> hn_hash x = chm_key_hash m (hn_key x)" by simp
  moreover have "dom (nd2(a := None)) = set (concat ?bs)"
    unfolding cc using payload_all(1) [OF pl2] chm_wfD(5) [OF wf] by auto
  ultimately have "chm_wf ?m ?bs"
    using wf rep hom len by (simp add: chm_wf_def del: set_concat)
  then show ?thesis using run items by auto
qed

section \<open>Clearing and iterating\<close>

lemma chm_clear_chain_ok:
  "dseg (nlinks nd) p as None \<Longrightarrow> distinct as \<Longrightarrow>
   chm_clear_chain (fst_or None as) nd = Some (\<lambda>c. if c \<in> set as then None else nd c)"
proof (induction as arbitrary: p nd)
  case Nil
  then show ?case by (simp add: chm_clear_chain.simps)
next
  case (Cons a as)
  obtain n where n: "nd a = Some n" "hn_next n = fst_or None as" using Cons.prems(1) by (auto simp: nlinks_def)
  have "dseg (nlinks (nd(a := None))) (Some a) as None = dseg (nlinks nd) (Some a) as None"
    by (rule dseg_cong) (use Cons.prems(2) in \<open>auto simp: nlinks_def\<close>)
  then have "chm_clear_chain (fst_or None as) (nd(a := None)) = Some (\<lambda>c. if c \<in> set as then None else (nd(a := None)) c)"
    using Cons by simp
  moreover have "(\<lambda>c. if c \<in> set as then None else (nd(a := None)) c) = (\<lambda>c. if c \<in> set (a # as) then None else nd c)"
    by auto
  ultimately show ?case using n by (subst chm_clear_chain.simps) simp
qed

lemma chm_clear_loop_ok:
  assumes "i + length rest = length tbl" and "\<And>j. j < length rest \<Longrightarrow> tbl ! (i + j) = fst_or None (rest ! j)"
    and "\<And>b. b \<in> set rest \<Longrightarrow> dseg (nlinks nd) None b None" and "distinct (concat rest)"
  shows "chm_clear_loop (length rest) i tbl nd
    = Some (take i tbl @ replicate (length rest) None, \<lambda>c. if c \<in> set (concat rest) then None else nd c)"
  using assms
proof (induction rest arbitrary: i tbl nd)
  case Nil
  then show ?case by simp
next
  case (Cons b rest)
  have hd: "tbl ! i = fst_or None b" "i < length tbl" using Cons.prems(1) Cons.prems(2) [of 0] by simp_all
  let ?nd = "\<lambda>c. if c \<in> set b then None else nd c" and ?tbl = "tbl[i := None]"
  have run: "chm_clear_chain (fst_or None b) nd = Some ?nd"
    using chm_clear_chain_ok [OF Cons.prems(3) [of b]] Cons.prems(4) by simp
  have seg: "dseg (nlinks ?nd) None c None" if "c \<in> set rest" for c
  proof -
    have "dseg (nlinks ?nd) None c None = dseg (nlinks nd) None c None"
      by (rule dseg_cong) (use that Cons.prems(4) in \<open>auto simp: nlinks_def\<close>)
    then show ?thesis using Cons.prems(3) that by simp
  qed
  have nx: "?tbl ! (Suc i + j) = fst_or None (rest ! j)" if "j < length rest" for j
    using Cons.prems(2) [of "Suc j"] that by simp
  have "chm_clear_loop (length rest) (Suc i) ?tbl ?nd
      = Some (take (Suc i) ?tbl @ replicate (length rest) None, \<lambda>c. if c \<in> set (concat rest) then None else ?nd c)"
    by (rule Cons.IH) (use Cons.prems(1,4) seg nx in auto)
  moreover have "take (Suc i) ?tbl = take i tbl @ [None]" using hd(2) by (simp add: take_Suc_conv_app_nth)
  moreover have "(\<lambda>c. if c \<in> set (concat rest) then None else ?nd c)
      = (\<lambda>c. if c \<in> set (concat (b # rest)) then None else nd c)" by auto
  ultimately show ?case using hd run by simp
qed

lemma chm_clear_ok:
  assumes wf: "chm_wf m bs"
  shows "\<exists>m'. chm_clear m = Some m' \<and> chm_wf m' (replicate (chm_cap m) []) \<and> chm_nodes m' = Map.empty
    \<and> chm_key_eq m' = chm_key_eq m \<and> chm_iter m' = None"
proof -
  have "chm_clear_loop (length bs) 0 (chm_table m) (chm_nodes m)
      = Some (take 0 (chm_table m) @ replicate (length bs) None, \<lambda>c. if c \<in> set (concat bs) then None else chm_nodes m c)"
    by (rule chm_clear_loop_ok) (use chm_wfD(2,3,11,12) [OF wf] in \<open>auto simp: tab_rep_def in_set_conv_nth\<close>)
  moreover have "(\<lambda>c. if c \<in> set (concat bs) then None else chm_nodes m c) = Map.empty"
    by (rule ext) (metis chm_wfD(5) [OF wf] domIff)
  ultimately have run: "chm_clear m = Some (m\<lparr>chm_table := replicate (chm_cap m) None, chm_nodes := Map.empty,
      chm_len := 0, chm_iter := None\<rparr>)"
    using chm_wfD(2) [OF wf] by (simp add: chm_clear_def del: set_concat)
  moreover have "chm_wf (m\<lparr>chm_table := replicate (chm_cap m) None, chm_nodes := Map.empty,
      chm_len := 0, chm_iter := None\<rparr>) (replicate (chm_cap m) [])"
    using wf by (auto simp: chm_wf_def tab_rep_def homed_def chm_items_def concat_replicate_trivial)
  ultimately show ?thesis by simp
qed

lemma chm_scan_loop_ok:
  "i + n = length tbl \<Longrightarrow> length tbl = length bs \<Longrightarrow> (\<And>j. j < length bs \<Longrightarrow> tbl ! j = fst_or None (bs ! j)) \<Longrightarrow>
   chm_scan_loop n i tbl = Some (fst_or None (concat (drop i bs)))"
proof (induction n arbitrary: i)
  case (Suc n)
  then have i: "i < length bs" by simp
  then have d: "drop i bs = bs ! i # drop (Suc i) bs" by (simp add: Cons_nth_drop_Suc)
  show ?case
    using Suc.IH [of "Suc i"] Suc.prems i by (cases "bs ! i") (auto simp: d)
qed simp

lemma chm_next_pos:
  assumes wf: "chm_wf m bs" and pos: "concat bs = pre @ a # as" and n: "chm_nodes m a = Some n"
  shows "(if hn_next n \<noteq> None then Some (hn_next n)
     else chm_scan_loop (chm_cap m - (hn_hash n mod chm_cap m + 1)) (hn_hash n mod chm_cap m + 1) (chm_table m))
    = Some (fst_or None as)"
proof -
  define i where "i = hn_hash n mod chm_cap m"
  have i: "i < length bs" using chm_wfD(1,2) [OF wf] by (simp add: i_def)
  have "a \<in> set (bs ! i)" using bucket_live [OF wf, of a] n by (auto simp: pos i_def)
  then obtain xs ys where b: "bs ! i = xs @ a # ys" by (auto dest: split_list)
  have "dseg (nlinks (chm_nodes m)) None (xs @ a # ys) None"
    using chm_wfD(3) [OF wf] i b by (auto simp: tab_rep_def)
  then have nx: "hn_next n = fst_or None ys" using n by (auto simp: dseg_append nlinks_def)
  have eq: "pre @ a # as = (concat (take i bs) @ xs) @ a # (ys @ concat (drop (Suc i) bs))"
    using pos concat_nth(1) [OF i] b by simp
  have "distinct (pre @ a # as)" using chm_wfD(11) [OF wf] pos by simp
  then have as: "as = ys @ concat (drop (Suc i) bs)"
    using eq by (metis append_Cons_eq_iff distinct_append distinct.simps(2) not_distinct_conv_prefix
        in_set_conv_decomp distinct_mid list.set_intros(1) append_Cons append_Nil)
  have "chm_scan_loop (chm_cap m - (i + 1)) (i + 1) (chm_table m) = Some (fst_or None (concat (drop (i + 1) bs)))"
    by (rule chm_scan_loop_ok) (use i chm_wfD(2,3,12) [OF wf] in \<open>auto simp: tab_rep_def\<close>)
  then show ?thesis
    using nx as by (cases ys) (simp_all add: i_def)
qed

section \<open>The hash map implements the map contract\<close>

lemma CHM_IMPL_simps [simp]:
  "mi_val_size (CHM_IMPL junk) = chm_val_size" "mi_get_kvp (CHM_IMPL junk) = chm_get_kvp"
  "mi_put (CHM_IMPL junk) = chm_put junk" "mi_remove (CHM_IMPL junk) = chm_remove"
  "mi_clear (CHM_IMPL junk) = chm_clear" "mi_len (CHM_IMPL junk) = chm_len"
  "mi_reset_iter (CHM_IMPL junk) = chm_reset_iter" "mi_get_iter (CHM_IMPL junk) = chm_get_iter"
  "mi_next_iter (CHM_IMPL junk) = chm_next_iter"
  by (simp_all add: CHM_IMPL_def)

lemma chm_invE:
  assumes "chm_inv m kvs"
  obtains bs where "chm_wf m bs" and "mset kvs = mset (chm_items (chm_nodes m) bs)"
  using assms by (auto simp: chm_inv_def)

lemma chm_get_kvp_law:
  assumes "chm_inv m kvs" and "want \<longrightarrow> 0 < chm_val_size m"
  shows "chm_get_kvp m (Some k) want = Some (case kv_find (chm_key_eq m) kvs k of
    None \<Rightarrow> (FOS_E_EMPTY, None) | Some kv \<Rightarrow> (FOS_E_SUCCESS, Some kv))"
proof -
  obtain bs where wf: "chm_wf m bs" and ms: "mset kvs = mset (chm_items (chm_nodes m) bs)"
    using assms(1) by (rule chm_invE)
  show ?thesis
  proof (cases "find (key_is m k) (concat bs)")
    case None
    then show ?thesis
      using chm_get_node_ok [OF wf, of k] chm_inv_find [OF wf ms, of k] assms(2) by (simp add: chm_get_kvp_def)
  next
    case (Some a)
    then obtain n where "chm_nodes m a = Some n" using find_key [OF Some] by auto
    then show ?thesis
      using Some chm_get_node_ok [OF wf, of k] chm_inv_find [OF wf ms, of k] assms(2)
      by (auto simp: chm_get_kvp_def node_kv_def)
  qed
qed

lemma chm_put_old_law:
  assumes inv: "chm_inv m kvs" and vs: "0 < chm_val_size m" and old: "kv_find (chm_key_eq m) kvs k \<noteq> None"
  shows "\<exists>m'. chm_put junk al mem m (Some k) (Some v) = Some (FOS_E_SUCCESS, m')
    \<and> chm_inv m' (kv_update (chm_key_eq m) k v kvs) \<and> chm_key_eq m' = chm_key_eq m \<and> chm_val_size m' = chm_val_size m"
proof -
  obtain bs where wf: "chm_wf m bs" and ms: "mset kvs = mset (chm_items (chm_nodes m) bs)"
    using inv by (rule chm_invE)
  obtain a where a: "find (key_is m k) (concat bs) = Some a" using chm_inv_find [OF wf ms, of k] old by auto
  obtain m' where m': "chm_put junk al mem m (Some k) (Some v) = Some (FOS_E_SUCCESS, m')" "chm_wf m' bs"
    "chm_items (chm_nodes m') bs = kv_update (chm_key_eq m) k v (chm_items (chm_nodes m) bs)"
    "chm_key_eq m' = chm_key_eq m" "chm_val_size m' = chm_val_size m"
    using chm_put_old [OF wf a vs] by blast
  have "mset (kv_update (chm_key_eq m) k v kvs) = mset (chm_items (chm_nodes m') bs)"
    unfolding m'(3) kv_update_def mset_map ms ..
  then show ?thesis using m' by (auto simp: chm_inv_def)
qed

lemma chm_put_new_law:
  assumes inv: "chm_inv m kvs" and al: "alloc_ok al" and mem0: "\<not> mem 0" and vs: "0 < chm_val_size m"
    and new: "kv_find (chm_key_eq m) kvs k = None" and len: "length kvs + 1 < 2 ^ 32"
  shows "\<exists>err m'. chm_put junk al mem m (Some k) (Some v) = Some (err, m') \<and> chm_key_eq m' = chm_key_eq m
    \<and> chm_val_size m' = chm_val_size m
    \<and> (err = FOS_E_SUCCESS \<and> chm_inv m' ((k, v) # kvs) \<or> err = FOS_E_NO_MEM \<and> oom al \<and> m' = m)"
proof -
  obtain bs where wf: "chm_wf m bs" and ms: "mset kvs = mset (chm_items (chm_nodes m) bs)"
    using inv by (rule chm_invE)
  have f: "find (key_is m k) (concat bs) = None" using chm_inv_find [OF wf ms, of k] new by simp
  have l: "length (concat bs) + 1 < 2 ^ 32" using arg_cong [OF ms, of size] len by (simp add: chm_items_def)
  show ?thesis
    using chm_put_new [where mem = mem and junk = junk and v = v, OF wf f vs al mem0 l] ms
    unfolding chm_inv_def by (metis mset.simps(2))
qed

lemma chm_remove_law:
  assumes inv: "chm_inv m kvs"
  shows "\<exists>m'. chm_remove m (Some k) = Some (kv_find (chm_key_eq m) kvs k \<noteq> None, m')
    \<and> chm_inv m' (kv_remove (chm_key_eq m) k kvs) \<and> chm_key_eq m' = chm_key_eq m \<and> chm_val_size m' = chm_val_size m"
proof -
  obtain bs where wf: "chm_wf m bs" and ms: "mset kvs = mset (chm_items (chm_nodes m) bs)"
    using inv by (rule chm_invE)
  show ?thesis
  proof (cases "find (key_is m k) (concat bs)")
    case None
    then have n: "kv_find (chm_key_eq m) kvs k = None" using chm_inv_find [OF wf ms] by simp
    have "kv_remove (chm_key_eq m) k kvs = kvs"
      unfolding kv_remove_def by (rule filter_True) (use n [unfolded kv_find_None] in auto)
    then show ?thesis
      using None n inv chm_get_node_ok [OF wf, of k] by (simp add: chm_remove_def)
  next
    case (Some a)
    then have n: "kv_find (chm_key_eq m) kvs k \<noteq> None" using chm_inv_find [OF wf ms] by simp
    obtain m' bs' where m': "chm_remove m (Some k) = Some (True, m')" "chm_wf m' bs'"
      "chm_items (chm_nodes m') bs' = kv_remove (chm_key_eq m) k (chm_items (chm_nodes m) bs)"
      "chm_key_eq m' = chm_key_eq m" "chm_val_size m' = chm_val_size m"
      using chm_remove_node [OF wf Some] by blast
    have "mset (kv_remove (chm_key_eq m) k kvs) = mset (chm_items (chm_nodes m') bs')"
      unfolding m'(3) kv_remove_def mset_filter ms ..
    then show ?thesis using m' n by (auto simp: chm_inv_def)
  qed
qed

lemma chm_clear_law:
  assumes "chm_inv m kvs"
  shows "\<exists>m'. chm_clear m = Some m' \<and> chm_inv m' [] \<and> chm_key_eq m' = chm_key_eq m"
proof -
  obtain bs where wf: "chm_wf m bs" using assms by (rule chm_invE)
  obtain m' where m': "chm_clear m = Some m'" "chm_wf m' (replicate (chm_cap m) [])" "chm_key_eq m' = chm_key_eq m"
    using chm_clear_ok [OF wf] by blast
  have "chm_inv m' []" unfolding chm_inv_def
    using m'(2) by (auto simp: chm_items_def concat_replicate_trivial intro!: exI [of _ "replicate (chm_cap m) []"])
  then show ?thesis using m' by blast
qed

lemma chm_wf_iter: "chm_wf (m\<lparr>chm_iter := x\<rparr>) bs \<longleftrightarrow> chm_wf m bs"
  by (simp add: chm_wf_def)

lemma chm_reset_law:
  assumes "chm_inv m kvs"
  shows "\<exists>m' xs. chm_reset_iter m = Some m' \<and> chm_inv_it m' kvs xs \<and> mset xs = mset kvs
    \<and> chm_val_size m' = chm_val_size m"
proof -
  obtain bs where wf: "chm_wf m bs" and ms: "mset kvs = mset (chm_items (chm_nodes m) bs)"
    using assms by (rule chm_invE)
  have "chm_scan_loop (chm_cap m) 0 (chm_table m) = Some (fst_or None (concat (drop 0 bs)))"
    by (rule chm_scan_loop_ok) (use chm_wfD(2,3,12) [OF wf] in \<open>auto simp: tab_rep_def\<close>)
  then have run: "chm_reset_iter m = Some (m\<lparr>chm_iter := fst_or None (concat bs)\<rparr>)" by (simp add: chm_reset_iter_def)
  have "chm_inv_it (m\<lparr>chm_iter := fst_or None (concat bs)\<rparr>) kvs (chm_items (chm_nodes m) bs)"
    unfolding chm_inv_it_def using wf ms
    by (intro exI [of _ bs] exI [of _ "[]"] exI [of _ "concat bs"]) (simp add: chm_wf_iter chm_items_def)
  then show ?thesis using run ms by auto
qed

lemma chm_get_iter_law:
  assumes "chm_inv_it m kvs xs" and "want \<longrightarrow> 0 < chm_val_size m"
  shows "chm_get_iter m want = Some (case xs of [] \<Rightarrow> (FOS_E_EMPTY, None) | x # _ \<Rightarrow> (FOS_E_SUCCESS, Some x))"
proof -
  obtain bs pre as where wf: "chm_wf m bs" and pos: "concat bs = pre @ as" "chm_iter m = fst_or None as"
    and xs: "xs = map (node_kv (chm_nodes m)) as"
    using assms(1) by (auto simp: chm_inv_it_def)
  show ?thesis
  proof (cases as)
    case Nil
    then show ?thesis using assms(2) pos xs by (auto simp: chm_get_iter_def)
  next
    case (Cons a as')
    then obtain n where "chm_nodes m a = Some n" using bucket_live [OF wf, of a] pos by auto
    then show ?thesis using assms(2) pos xs Cons by (auto simp: chm_get_iter_def node_kv_def)
  qed
qed

lemma chm_next_iter_law:
  assumes it: "chm_inv_it m kvs (x # xs)" and want: "want \<longrightarrow> 0 < chm_val_size m"
  shows "\<exists>m'. chm_next_iter m want =
      Some (case xs of [] \<Rightarrow> (FOS_E_EMPTY, None, m') | y # _ \<Rightarrow> (FOS_E_SUCCESS, Some y, m'))
    \<and> chm_inv_it m' kvs xs \<and> chm_val_size m' = chm_val_size m"
proof -
  obtain bs pre as where wf: "chm_wf m bs" and ms: "mset kvs = mset (chm_items (chm_nodes m) bs)"
    and pos: "concat bs = pre @ as" "chm_iter m = fst_or None as" and xs: "x # xs = map (node_kv (chm_nodes m)) as"
    using it by (auto simp: chm_inv_it_def)
  then obtain a as' where as: "as = a # as'" "xs = map (node_kv (chm_nodes m)) as'" by (cases as) auto
  obtain n where n: "chm_nodes m a = Some n" using bucket_live [OF wf, of a] pos as by auto
  let ?m = "m\<lparr>chm_iter := fst_or None as'\<rparr>"
  have it': "chm_inv_it ?m kvs xs"
    unfolding chm_inv_it_def using wf ms pos as
    by (intro exI [of _ bs] exI [of _ "pre @ [a]"] exI [of _ as']) (simp add: chm_wf_iter)
  have "chm_next_iter m want = do { (err, kv) \<leftarrow> chm_get_iter ?m want; Some (err, kv, ?m) }"
  proof -
    have w: "(chm_val_size m = 0 \<and> want) = False" using want by auto
    show ?thesis
      by (simp only: chm_next_iter_def Let_def pos(2) as(1) fst_or_simps node_at_Some n w if_False
          Option.bind.bind_lunit chm_next_pos [OF wf pos(1) [unfolded as(1)] n])
  qed
  also have "chm_get_iter ?m want = Some (case xs of [] \<Rightarrow> (FOS_E_EMPTY, None) | x # _ \<Rightarrow> (FOS_E_SUCCESS, Some x))"
    using chm_get_iter_law [OF it'] want by simp
  finally have "chm_next_iter m want =
      Some (case xs of [] \<Rightarrow> (FOS_E_EMPTY, None, ?m) | y # _ \<Rightarrow> (FOS_E_SUCCESS, Some y, ?m))"
    by (simp split: list.splits)
  then show ?thesis using it' by (intro exI [of _ ?m]) simp
qed

lemma chm_distinct_law: "chm_inv m kvs \<Longrightarrow> equivp (chm_key_eq m) \<and> kv_distinct (chm_key_eq m) kvs"
  using chm_wfD(7,10) kv_distinct_perm unfolding chm_inv_def by metis

lemma chm_len_law: "chm_inv m kvs \<Longrightarrow> chm_len m = length kvs"
  using chm_wfD(6) mset_eq_length unfolding chm_inv_def chm_items_def by fastforce

lemma chm_iter_inv_law: "chm_inv_it m kvs xs \<Longrightarrow> chm_inv m kvs"
  by (auto simp: chm_inv_it_def chm_inv_def)

interpretation chm: map_contract "CHM_IMPL junk" chm_key_eq chm_inv chm_inv_it for junk
  by (unfold_locales; (simp only: CHM_IMPL_simps)?)
    (assumption | rule chm_distinct_law chm_get_kvp_law chm_put_old_law chm_put_new_law chm_remove_law
      chm_clear_law chm_len_law chm_reset_law chm_iter_inv_law chm_get_iter_law chm_next_iter_law)+

lemma new_chained_hash_map_inv:
  assumes "new_chained_hash_map ok tok ks vs r (Some e) (Some h) = Some m"
    and "equivp e" and "\<And>a b. e a b \<Longrightarrow> h a = h b"
  shows "chm_inv m [] \<and> chm_key_eq m = e \<and> chm_val_size m = vs"
proof -
  have m: "m = \<lparr>chm_key_size = ks, chm_val_size = vs, chm_ratio_index = r, chm_key_eq = e, chm_key_hash = h,
      chm_cap = 1, chm_len = 0, chm_table = [None], chm_nodes = Map.empty, chm_iter = None\<rparr>" "2 \<le> r"
    using assms(1) by (auto simp: new_chained_hash_map_def split: if_splits)
  have "chm_wf m [[]]"
    using assms(2,3) m(2) by (auto simp: m(1) chm_wf_def tab_rep_def homed_def chm_items_def intro: exI [of _ 0])
  then show ?thesis using m(1) by (auto simp: chm_inv_def chm_items_def intro!: exI [of _ "[[]]"])
qed

section \<open>The promises of the hash map\<close>

text \<open>The map of the examples: two keys in one chain.\<close>

definition chm_sample :: "(nat, string) chm" where
  "chm_sample = \<lparr>chm_key_size = 4, chm_val_size = 4, chm_ratio_index = 3, chm_key_eq = (=), chm_key_hash = (\<lambda>k. 1),
     chm_cap = 2, chm_len = 2, chm_table = [None, Some 1],
     chm_nodes = [1 \<mapsto> \<lparr>hn_next = Some 2, hn_prev = None, hn_hash = 1, hn_key = 5, hn_val = ''five''\<rparr>,
                  2 \<mapsto> \<lparr>hn_next = None, hn_prev = Some 1, hn_hash = 1, hn_key = 3, hn_val = ''three''\<rparr>],
     chm_iter = None\<rparr>"

lemma chm_sample_inv: "chm_inv chm_sample [(5, ''five''), (3, ''three'')]"
proof -
  have "chm_wf chm_sample [[], [1, 2]]"
    unfolding chm_wf_def
    by (intro conjI exI [of _ 1])
      (auto simp: chm_sample_def tab_rep_def homed_def chm_items_def node_kv_def nlinks_def less_2_cases_iff nth_Cons'
         identity_equivp split: if_splits)
  then show ?thesis by (auto simp: chm_inv_def chm_items_def node_kv_def chm_sample_def intro!: exI [of _ "[[], [1, 2]]"])
qed

lemma chm_sample_fields [simp]: "chm_val_size chm_sample = 4" "chm_key_eq chm_sample = (=)"
  by (simp_all add: chm_sample_def)

lemma chm_sample_get: "mp_get (CHM_IMPL junk) chm_sample (Some k) =
    Some (if k = 5 then Some ''five'' else if k = 3 then Some ''three'' else None)"
  using chm.get_value [OF chm_sample_inv, of junk k] by simp

text \<open>C35. After a successful put the key reads the value put and every other key reads what it read before,
  whether the key was new or not and whether the table was rehashed; a put fails only for want of
  memory and only for a new key, and then the map is as it was.\<close>

theorem chm_put_spec:
  assumes inv: "chm_inv m kvs" and al: "alloc_ok al" and mem0: "\<not> mem 0" and vs: "0 < chm_val_size m"
    and len: "length kvs + 1 < 2 ^ 32"
  shows "\<exists>e m' kvs'. chm_put junk al mem m (Some k) (Some v) = Some (e, m') \<and> chm_inv m' kvs'
    \<and> (e = FOS_E_SUCCESS
         \<and> (\<forall>j. mp_get (CHM_IMPL junk) m' (Some j) =
             (if chm_key_eq m k j then Some (Some v) else mp_get (CHM_IMPL junk) m (Some j)))
       \<or> e = FOS_E_NO_MEM \<and> oom al \<and> m' = m \<and> mp_get (CHM_IMPL junk) m (Some k) = Some None)"
proof (cases "kv_find (chm_key_eq m) kvs k")
  case None
  then have "mp_get (CHM_IMPL junk) m (Some k) = Some None"
    using chm.get_value [OF inv, of junk k] vs by simp
  then show ?thesis
    using chm.put_new [of m kvs al mem junk k v, OF inv al mem0 _ None len]
      chm.get_after_put [of m kvs al mem junk k v, OF inv al mem0 _ len] vs inv by auto
next
  case (Some kv)
  then show ?thesis
    using chm.put_old [of m kvs junk k al mem v, OF inv]
      chm.get_after_put [of m kvs al mem junk k v, OF inv al mem0 _ len] vs by auto
qed

theorem chm_put_spec_witness:
  "\<exists>m'. chm_put [] bump_alloc (\<lambda>b. 0 < b) chm_sample (Some 7) (Some ''seven'') = Some (FOS_E_SUCCESS, m')
    \<and> mp_get (CHM_IMPL []) m' (Some 7) = Some (Some ''seven'') \<and> mp_get (CHM_IMPL []) m' (Some 3) = Some (Some ''three'')"
  using chm_put_spec [OF chm_sample_inv bump_alloc_ok(1), of "\<lambda>b. 0 < b" "[]" 7 "''seven''"]
  by (auto simp: chm_sample_get)

text \<open>C36. Removing reports whether the key was there; afterwards the key is absent and every other key reads
  what it read before.\<close>

theorem chm_remove_spec:
  assumes inv: "chm_inv m kvs" and vs: "0 < chm_val_size m"
  shows "\<exists>b m'. chm_remove m (Some k) = Some (b, m') \<and> (\<exists>kvs'. chm_inv m' kvs')
    \<and> b = (mp_get (CHM_IMPL junk) m (Some k) \<noteq> Some None)
    \<and> (\<forall>j. mp_get (CHM_IMPL junk) m' (Some j) =
         (if chm_key_eq m k j then Some None else mp_get (CHM_IMPL junk) m (Some j)))"
proof -
  obtain m' where m': "chm_remove m (Some k) = Some (kv_find (chm_key_eq m) kvs k \<noteq> None, m')"
    "chm_inv m' (kv_remove (chm_key_eq m) k kvs)"
    using chm.remove_ok [OF inv, of junk k] by auto
  show ?thesis
    using m' chm.get_after_remove [OF inv, of junk k _ m'] chm.get_value [OF inv, of junk k] vs by auto
qed

theorem chm_remove_spec_witness:
  "\<exists>m'. chm_remove chm_sample (Some 5) = Some (True, m') \<and> mp_get (CHM_IMPL []) m' (Some 5) = Some None
    \<and> mp_get (CHM_IMPL []) m' (Some 3) = Some (Some ''three'')"
  using chm_remove_spec [OF chm_sample_inv, of 5 "[]"]
  by (auto simp: chm_sample_get)

text \<open>An iteration over the map ends, meets every stored pair exactly once, and leaves the content as it
  was.\<close>

theorem chm_visit_spec:
  assumes "chm_inv m kvs" and "0 < chm_val_size m"
  shows "\<exists>xs m'. mp_visit (CHM_IMPL junk) True m = Some (xs, m') \<and> mset xs = mset kvs \<and> chm_inv m' kvs"
  using chm.visit_all [OF assms(1), of True junk] assms(2) by simp

theorem chm_visit_spec_witness:
  "\<exists>xs m'. mp_visit (CHM_IMPL []) True chm_sample = Some (xs, m') \<and> mset xs = {#(5, ''five''), (3, ''three'')#}"
  using chm_visit_spec [OF chm_sample_inv, of "[]"] by auto

text \<open>Clearing returns and gives every node back to the allocator.\<close>

theorem chm_clear_spec:
  assumes "chm_inv m kvs"
  shows "\<exists>m'. chm_clear m = Some m' \<and> chm_inv m' [] \<and> chm_nodes m' = Map.empty \<and> chm_len m' = 0
    \<and> delete_chained_hash_map m = Some Map.empty"
proof -
  obtain bs where "chm_wf m bs" using assms by (auto simp: chm_inv_def)
  from chm_clear_ok [OF this] obtain m' where m': "chm_clear m = Some m'" "chm_nodes m' = Map.empty" by blast
  moreover have "chm_inv m' []" using chm_clear_law [OF assms] m'(1) by auto
  ultimately show ?thesis
    using chm_len_law [of m' "[]"] by (simp add: delete_chained_hash_map_def)
qed

theorem chm_clear_spec_witness: "delete_chained_hash_map chm_sample = Some Map.empty"
  using chm_clear_spec [OF chm_sample_inv] by blast

end
