(* ===== verification/Kernel_Heap.thy ===== *)
theory Kernel_Heap
  imports Ring Basic_Wait_Queue Vector_Wait_Queue Timed_Wait_Queue Id_Table
begin

text \<open>
  The objects of the kernel: user contexts, threads, wait queues behind their common interface,
  processes and the kernel state (\<^verbatim>\<open>s_bridge/ctx.h\<close>, \<^verbatim>\<open>k_startup/thread.h\<close>,
  \<^verbatim>\<open>s_data/wait_queue.h\<close>, \<^verbatim>\<open>k_startup/process.h\<close>, \<^verbatim>\<open>k_startup/state.h\<close>).  They point to each
  other, so each kind lives in a store keyed by address; a pointer is an \<open>addr option\<close> and
  reading through a dangling pointer is the fault \<open>None\<close>.  A thread begins with its ring
  element, so both have the same address.
\<close>

record user_ctx =
  c_ds :: "32 word"
  c_cr3 :: "32 word"
  c_edi :: "32 word"
  c_esi :: "32 word"
  c_ebp :: "32 word"
  c_temp_esp :: "32 word"
  c_ebx :: "32 word"
  c_edx :: "32 word"
  c_ecx :: "32 word"
  c_eax :: "32 word"
  c_reserved :: "32 word"
  c_err :: "32 word"
  c_eip :: "32 word"
  c_cs :: "32 word"
  c_eflags :: "32 word"
  c_esp :: "32 word"
  c_ss :: "32 word"

datatype thread_state =
  THREAD_STATE_DETATCHED | THREAD_STATE_SCHEDULED | THREAD_STATE_WAITING | THREAD_STATE_EXITED

record thread =
  th_state :: thread_state
  th_tid :: nat
  th_stack_base :: "32 word"
  th_proc :: addr
  th_wq :: "addr option"
  th_wait_ctx :: "32 word list"
  th_ctx :: user_ctx
  th_exit_ret_val :: "32 word"

text \<open>
  A \<^verbatim>\<open>wait_queue_t\<close> is one of three kinds, told apart by its \<^verbatim>\<open>impl\<close> pointer; the items of
  the kernel's queues are threads.
\<close>

datatype wait_queue =
    WQ_basic "(addr linked_list, addr linked_list) bwq"
  | WQ_vector "(addr vwq_wait_pair linked_list, addr vwq_ready_pair linked_list) vwq"
  | WQ_timed "(addr twq_wait_pair linked_list, addr linked_list) twq"

definition wq_remove :: "wait_queue \<Rightarrow> addr \<Rightarrow> wait_queue option" where
  "wq_remove w item =
     (case w of
        WQ_basic q \<Rightarrow> map_option WQ_basic (bwq_remove LL_IMPL LL_IMPL q item)
      | WQ_vector q \<Rightarrow> map_option WQ_vector (vwq_remove LL_IMPL LL_IMPL q item)
      | WQ_timed q \<Rightarrow> map_option WQ_timed (twq_remove LL_IMPL LL_IMPL q item))"

text \<open>Fields whose type is a handle, a process id or a thread id are id table indices.\<close>

record process =
  pr_exited :: bool
  pr_exit_status :: "32 word"
  pr_pid :: nat
  pr_pd :: "32 word"
  pr_parent :: "addr option"
  pr_children :: "addr linked_list"
  pr_zombie_children :: "addr linked_list"
  pr_thread_table :: "addr id_table"
  pr_join_queue :: addr
  pr_main_thread :: "addr option"
  pr_sig_vec :: "32 word"
  pr_sig_allow :: "32 word"
  pr_signal_queue :: addr
  pr_handle_table :: "addr id_table"
  pr_in_handle :: nat
  pr_out_handle :: nat

text \<open>The base of a \<^verbatim>\<open>handle_state_t\<close>; what an implementation adds to it is in \<open>k_mem\<close>.\<close>

record handle_state =
  hs_proc :: addr
  hs_handle :: nat
  hs_is_terminal :: bool

text \<open>
  \<open>k_mem\<close> is everything the kernel modules modelled here reach only through other modules:
  page directories, user memory, and the own data of handle states and plugins.
\<close>

record 'm kernel =
  k_rings :: ring_store
  k_threads :: "addr \<Rightarrow> thread option"
  k_wqs :: "addr \<Rightarrow> wait_queue option"
  k_procs :: "addr \<Rightarrow> process option"
  k_handles :: "addr \<Rightarrow> handle_state option"
  k_schedule :: addr
  k_proc_table :: "addr id_table"
  k_root_proc :: "addr option"
  k_curr_tick :: "32 word"
  k_sleep_q :: addr
  k_plugins :: "addr option list"
  k_mem :: 'm

abbreviation set_thread :: "addr \<Rightarrow> thread \<Rightarrow> 'm kernel \<Rightarrow> 'm kernel" where
  "set_thread a t K \<equiv> K\<lparr>k_threads := (k_threads K)(a \<mapsto> t)\<rparr>"

abbreviation set_wq :: "addr \<Rightarrow> wait_queue \<Rightarrow> 'm kernel \<Rightarrow> 'm kernel" where
  "set_wq q w K \<equiv> K\<lparr>k_wqs := (k_wqs K)(q \<mapsto> w)\<rparr>"

abbreviation set_proc :: "addr \<Rightarrow> process \<Rightarrow> 'm kernel \<Rightarrow> 'm kernel" where
  "set_proc p r K \<equiv> K\<lparr>k_procs := (k_procs K)(p \<mapsto> r)\<rparr>"

section \<open>What a wait queue holds\<close>

text \<open>The abstract value of a queue, without its list nodes.\<close>

datatype awq =
    AWQ_basic "addr list" "addr list"
  | AWQ_vector "addr vwq_wait_pair list" "addr vwq_ready_pair list"
  | AWQ_timed "32 word" "addr twq_wait_pair list" "addr list"

fun awq_items :: "awq \<Rightarrow> addr list" where
  "awq_items (AWQ_basic ws rs) = ws @ rs"
| "awq_items (AWQ_vector ws rs) = map vw_item ws @ map vr_item rs"
| "awq_items (AWQ_timed now ws rs) = map tw_item ws @ rs"

fun awq_remove :: "addr \<Rightarrow> awq \<Rightarrow> awq" where
  "awq_remove a (AWQ_basic ws rs) = AWQ_basic (removeAll a ws) (removeAll a rs)"
| "awq_remove a (AWQ_vector ws rs) = AWQ_vector (filter (\<lambda>p. vw_item p \<noteq> a) ws) (filter (\<lambda>p. vr_item p \<noteq> a) rs)"
| "awq_remove a (AWQ_timed now ws rs) = AWQ_timed now (filter (\<lambda>p. tw_item p \<noteq> a) ws) (removeAll a rs)"

fun wq_rep :: "wait_queue \<Rightarrow> awq \<Rightarrow> bool" where
  "wq_rep (WQ_basic q) (AWQ_basic ws rs) = bwq_rep ll_inv ll_inv q ws rs"
| "wq_rep (WQ_vector q) (AWQ_vector ws rs) = vwq_rep ll_inv ll_inv q ws rs"
| "wq_rep (WQ_timed q) (AWQ_timed now ws rs) = (now = twq_time q \<and> twq_rep ll_inv ll_inv q ws rs)"
| "wq_rep _ _ = False"

lemma wq_rep_cases:
  assumes "wq_rep w aq"
  obtains q ws rs where "w = WQ_basic q" "aq = AWQ_basic ws rs" "bwq_rep ll_inv ll_inv q ws rs"
    | q ws rs where "w = WQ_vector q" "aq = AWQ_vector ws rs" "vwq_rep ll_inv ll_inv q ws rs"
    | q ws rs where "w = WQ_timed q" "aq = AWQ_timed (twq_time q) ws rs" "twq_rep ll_inv ll_inv q ws rs"
  using assms by (cases w; cases aq) auto

lemma awq_items_remove: "awq_items (awq_remove a aq) = removeAll a (awq_items aq)"
  by (cases aq) (auto simp: removeAll_eq_filter filter_map comp_def)

lemma twq_remove_time: "twq_remove IW IR q x = Some q' \<Longrightarrow> twq_time q' = twq_time q"
  by (auto simp: twq_remove_def bind_Some_simp)

lemma wq_remove_rep:
  assumes "wq_rep w aq"
  shows "\<exists>w'. wq_remove w x = Some w' \<and> wq_rep w' (awq_remove x aq)"
  using assms
proof (cases rule: wq_rep_cases)
  case (1 q ws rs)
  then show ?thesis using ll_basic.bwq_remove_rep [OF 1(3), of x] by (auto simp: wq_remove_def)
next
  case (2 q ws rs)
  then show ?thesis using ll_vector.vwq_remove_rep [OF 2(3), of x] by (auto simp: wq_remove_def)
next
  case (3 q ws rs)
  obtain q' where q': "twq_remove LL_IMPL LL_IMPL q x = Some q'"
    "twq_rep ll_inv ll_inv q' (filter (\<lambda>p. tw_item p \<noteq> x) ws) (removeAll x rs)"
    using ll_timed.twq_remove_rep [OF 3(3), of x] by blast
  then show ?thesis using 3 twq_remove_time [OF q'(1)] by (simp add: wq_remove_def)
qed

section \<open>The rest of the machine\<close>

text \<open>
  What the kernel modules take from elsewhere: the constants of the generated
  \<^verbatim>\<open>c_config.h\<close> (\<open>fc_\<close>), the address of \<^verbatim>\<open>thread_entry_routine\<close> and the flags register,
  the answers of the allocator, the page and user-memory routines of \<^verbatim>\<open>page.c\<close> and
  \<^verbatim>\<open>page_helpers.c\<close>, the loading of user applications, and the function pointers of handle
  states and plugins, which may act on the whole kernel.  \<open>ke_hs\<close> and \<open>ke_plg\<close> gather the optional
  entries of the two tables, one constructor per entry; \<open>None\<close> is an entry that is NULL.
\<close>

datatype hs_call =
    HS_WAIT_WRITE_READY
  | HS_WRITE "32 word" "32 word" "32 word"
  | HS_WAIT_READ_READY
  | HS_READ "32 word" "32 word" "32 word"
  | HS_CMD "16 word" "32 word" "32 word" "32 word" "32 word"

datatype plg_call =
    PLG_KERNEL_CMD "32 word" "32 word" "32 word" "32 word" "32 word"
  | PLG_TICK
  | PLG_CMD "16 word" "32 word" "32 word" "32 word" "32 word"
  | PLG_ON_FORK_PROC nat
  | PLG_ON_RESET_PROC nat
  | PLG_ON_REAP_PROC nat

record 'm kenv =
  fc_max_procs :: nat
  fc_max_threads :: nat
  fc_max_handles :: nat
  fc_kstack_start :: "32 word"
  fc_tstack_size :: "32 word"
  fc_free_start :: "32 word"
  fc_free_end :: "32 word"
  ke_entry_routine :: "32 word"
  ke_eflags :: "32 word"
  ke_al :: allocator
  ke_mem :: "nat \<Rightarrow> bool"
  ke_junk :: "addr idtb_entry"
  ke_copy_pd :: "'m \<Rightarrow> 32 word \<Rightarrow> 32 word \<times> 'm"
  ke_delete_pd :: "'m \<Rightarrow> 32 word \<Rightarrow> 'm"
  ke_alloc_pages :: "'m \<Rightarrow> 32 word \<Rightarrow> 32 word \<Rightarrow> 32 word \<Rightarrow> fernos_error \<times> 32 word \<times> 'm"
  ke_free_pages :: "'m \<Rightarrow> 32 word \<Rightarrow> 32 word \<Rightarrow> 32 word \<Rightarrow> 'm"
  ke_to_user :: "'m \<Rightarrow> 32 word \<Rightarrow> 32 word \<Rightarrow> 32 word list \<Rightarrow> fernos_error \<times> 'm"
  ke_copy_app :: "'m \<Rightarrow> 32 word \<Rightarrow> 32 word \<Rightarrow> 32 word option"
  ke_copy_args :: "'m \<Rightarrow> 32 word \<Rightarrow> 32 word \<Rightarrow> nat \<Rightarrow> 32 word list option"
  ke_app_pd :: "'m \<Rightarrow> 32 word \<Rightarrow> 32 word \<Rightarrow> 32 word list \<Rightarrow> nat \<Rightarrow> fernos_error \<times> 32 word \<times> 'm"
  ke_hs_copy :: "'m kernel \<Rightarrow> addr \<Rightarrow> addr \<Rightarrow> fernos_error \<times> addr \<times> 'm kernel"
  ke_hs_delete :: "'m kernel \<Rightarrow> addr \<Rightarrow> fernos_error \<times> 'm kernel"
  ke_hs :: "'m kernel \<Rightarrow> addr \<Rightarrow> hs_call \<Rightarrow> (fernos_error \<times> 'm kernel) option"
  ke_plg :: "'m kernel \<Rightarrow> addr \<Rightarrow> plg_call \<Rightarrow> (fernos_error \<times> 'm kernel) option"

text \<open>\<^verbatim>\<open>FC_CORE_TSTACK_END\<close> and \<^verbatim>\<open>FC_CORE_TSTACK_START\<close>.\<close>

definition tstack_end :: "'m kenv \<Rightarrow> nat \<Rightarrow> 32 word" where
  "tstack_end E i = fc_kstack_start E - of_nat i * fc_tstack_size E"

definition tstack_start :: "'m kenv \<Rightarrow> nat \<Rightarrow> 32 word" where
  "tstack_start E i = tstack_end E i - fc_tstack_size E"

text \<open>The value of an error code in a register.\<close>

definition err_word :: "fernos_error \<Rightarrow> 32 word" where
  "err_word e = ucast (err_code e)"

end
