(* ===== verification/Threads.thy ===== *)
theory Threads
  imports Kernel_Heap "HOL-Library.Multiset"
begin

text \<open>
  The thread operations of \<^verbatim>\<open>k_startup/src/thread.c\<close>.  A thread is detached, on a schedule
  (a ring), in a wait queue or exited; the invariant \<open>placed\<close> says that its state field, its
  \<^verbatim>\<open>wq\<close> pointer, the rings and the queues always agree.
\<close>

definition USER_CODE_SELECTOR :: "32 word" where "USER_CODE_SELECTOR = 0x1B"
definition USER_DATA_SELECTOR :: "32 word" where "USER_DATA_SELECTOR = 0x23"

definition thread_reset_context ::
  "'m kenv \<Rightarrow> 'm kernel \<Rightarrow> addr \<Rightarrow> 32 word \<Rightarrow> 32 word \<Rightarrow> 32 word \<Rightarrow> 32 word \<Rightarrow> 'm kernel option"
where
  "thread_reset_context E K thr entry arg0 arg1 arg2 = do {
     t \<leftarrow> k_threads K thr;
     p \<leftarrow> k_procs K (th_proc t);
     Some (set_thread thr (t\<lparr>th_ctx := \<lparr>c_ds = USER_DATA_SELECTOR, c_cr3 = pr_pd p, c_edi = 0, c_esi = 0,
       c_ebp = 0, c_temp_esp = 0, c_ebx = arg0, c_edx = arg2, c_ecx = arg1, c_eax = entry, c_reserved = 0,
       c_err = 0, c_eip = ke_entry_routine E, c_cs = USER_CODE_SELECTOR,
       c_eflags = or (ke_eflags E) (push_bit 9 1), c_esp = tstack_end E (th_tid t),
       c_ss = USER_DATA_SELECTOR\<rparr>\<rparr>) K) }"

definition thread_detach :: "'m kernel \<Rightarrow> addr \<Rightarrow> 'm kernel option" where
  "thread_detach K thr = do {
     t \<leftarrow> k_threads K thr;
     if th_state t = THREAD_STATE_WAITING then do {
       q \<leftarrow> th_wq t;
       w \<leftarrow> k_wqs K q;
       w \<leftarrow> wq_remove w thr;
       Some (set_thread thr (t\<lparr>th_wq := None, th_wait_ctx := replicate 6 0, th_state := THREAD_STATE_DETATCHED\<rparr>)
         (set_wq q w K)) }
     else if th_state t = THREAD_STATE_SCHEDULED then do {
       rs \<leftarrow> ring_element_detach (k_rings K) thr;
       Some (set_thread thr (t\<lparr>th_state := THREAD_STATE_DETATCHED\<rparr>) (K\<lparr>k_rings := rs\<rparr>)) }
     else Some K }"

definition thread_schedule :: "'m kernel \<Rightarrow> addr \<Rightarrow> addr \<Rightarrow> 'm kernel option" where
  "thread_schedule K thr r = do {
     t \<leftarrow> k_threads K thr;
     K \<leftarrow> (if th_state t \<noteq> THREAD_STATE_DETATCHED then thread_detach K thr else Some K);
     rs \<leftarrow> ring_element_attach (k_rings K) thr r;
     t \<leftarrow> k_threads K thr;
     Some (set_thread thr (t\<lparr>th_state := THREAD_STATE_SCHEDULED\<rparr>) (K\<lparr>k_rings := rs\<rparr>)) }"

definition thread_reset ::
  "'m kenv \<Rightarrow> 'm kernel \<Rightarrow> addr \<Rightarrow> 32 word \<Rightarrow> 32 word \<Rightarrow> 32 word \<Rightarrow> 32 word \<Rightarrow> 'm kernel option"
where
  "thread_reset E K thr entry arg0 arg1 arg2 = do {
     t \<leftarrow> k_threads K thr;
     K \<leftarrow> (if th_state t \<noteq> THREAD_STATE_DETATCHED then thread_detach K thr else Some K);
     thread_reset_context E K thr entry arg0 arg1 arg2 }"

text \<open>A context whose fields are not yet set.\<close>

definition null_ctx :: user_ctx where
  "null_ctx = \<lparr>c_ds = 0, c_cr3 = 0, c_edi = 0, c_esi = 0, c_ebp = 0, c_temp_esp = 0, c_ebx = 0, c_edx = 0,
     c_ecx = 0, c_eax = 0, c_reserved = 0, c_err = 0, c_eip = 0, c_cs = 0, c_eflags = 0, c_esp = 0, c_ss = 0\<rparr>"

text \<open>The new thread's address, or \<open>None\<close> for NULL, and the kernel.\<close>

definition new_thread ::
  "'m kenv \<Rightarrow> 'm kernel \<Rightarrow> addr option \<Rightarrow> nat \<Rightarrow> 32 word \<Rightarrow> 32 word \<Rightarrow> 32 word \<Rightarrow> 32 word
   \<Rightarrow> (addr option \<times> 'm kernel) option"
where
  "new_thread E K proc tid entry arg0 arg1 arg2 =
     (if fc_max_threads E \<le> tid then Some (None, K)
      else case proc of
        None \<Rightarrow> Some (None, K)
      | Some p \<Rightarrow>
          (case ke_al E (dom (k_threads K)) of
             None \<Rightarrow> Some (None, K)
           | Some thr \<Rightarrow> do {
               let K = K\<lparr>k_rings := init_ring_element (k_rings K) thr\<rparr>;
               let K = set_thread thr \<lparr>th_state = THREAD_STATE_DETATCHED, th_tid = tid,
                 th_stack_base = tstack_end E tid, th_proc = p, th_wq = None, th_wait_ctx = replicate 6 0,
                 th_ctx = null_ctx, th_exit_ret_val = 0\<rparr> K;
               K \<leftarrow> thread_reset_context E K thr entry arg0 arg1 arg2;
               Some (Some thr, K) }))"

definition new_thread_copy ::
  "'m kenv \<Rightarrow> 'm kernel \<Rightarrow> addr option \<Rightarrow> addr option \<Rightarrow> (addr option \<times> 'm kernel) option"
where
  "new_thread_copy E K thr new_proc =
     (case (thr, new_proc) of
        (Some a, Some np) \<Rightarrow>
          (case ke_al E (dom (k_threads K)) of
             None \<Rightarrow> Some (None, K)
           | Some cp \<Rightarrow> do {
               t \<leftarrow> k_threads K a;
               p \<leftarrow> k_procs K np;
               Some (Some cp, set_thread cp \<lparr>th_state = THREAD_STATE_DETATCHED, th_tid = th_tid t,
                 th_stack_base = th_stack_base t, th_proc = np, th_wq = None, th_wait_ctx = replicate 6 0,
                 th_ctx = (th_ctx t)\<lparr>c_cr3 := pr_pd p\<rparr>, th_exit_ret_val = 0\<rparr>
                 (K\<lparr>k_rings := init_ring_element (k_rings K) cp\<rparr>)) })
      | _ \<Rightarrow> Some (None, K))"

text \<open>Freeing a thread frees its ring element with it.\<close>

definition delete_thread :: "'m kernel \<Rightarrow> addr option \<Rightarrow> 'm kernel option" where
  "delete_thread K thr =
     (case thr of
        None \<Rightarrow> Some K
      | Some a \<Rightarrow> do {
          K \<leftarrow> thread_detach K a;
          Some (K\<lparr>k_threads := (k_threads K)(a := None),
            k_rings := (k_rings K)\<lparr>relems := (relems (k_rings K))(a := None)\<rparr>\<rparr>) })"

definition basic_queue :: "wait_queue \<Rightarrow> (addr linked_list, addr linked_list) bwq option" where
  "basic_queue w = (case w of WQ_basic q \<Rightarrow> Some q | _ \<Rightarrow> None)"

partial_function (option) bwq_wake_loop ::
  "'m kernel \<Rightarrow> addr \<Rightarrow> addr \<Rightarrow> 32 word \<Rightarrow> (fernos_error \<times> 'm kernel) option"
where
  "bwq_wake_loop K bwq schedule wake_status = do {
     w \<leftarrow> k_wqs K bwq;
     q \<leftarrow> basic_queue w;
     (err, woken_thread, q) \<leftarrow> bwq_pop LL_IMPL q;
     let K = set_wq bwq (WQ_basic q) K;
     if err \<noteq> FOS_E_SUCCESS then Some (err, K)
     else do {
       thr \<leftarrow> woken_thread;
       t \<leftarrow> k_threads K thr;
       let t = t\<lparr>th_wq := None, th_state := THREAD_STATE_DETATCHED, th_wait_ctx := replicate 6 0,
         th_ctx := (th_ctx t)\<lparr>c_eax := wake_status\<rparr>\<rparr>;
       K \<leftarrow> thread_schedule (set_thread thr t K) thr schedule;
       bwq_wake_loop K bwq schedule wake_status } }"

definition bwq_wake_all_threads ::
  "allocator \<Rightarrow> 'm kernel \<Rightarrow> addr option \<Rightarrow> addr option \<Rightarrow> fernos_error \<Rightarrow> (fernos_error \<times> 'm kernel) option"
where
  "bwq_wake_all_threads al K bwq schedule wake_status =
     (case (bwq, schedule) of
        (Some b, Some r) \<Rightarrow> do {
          w \<leftarrow> k_wqs K b;
          q \<leftarrow> basic_queue w;
          (err, q) \<leftarrow> bwq_notify LL_IMPL LL_IMPL al q BWQ_NOTIFY_ALL;
          let K = set_wq b (WQ_basic q) K;
          if err \<noteq> FOS_E_SUCCESS then Some (err, K)
          else do {
            (err, K) \<leftarrow> bwq_wake_loop K b r (err_word wake_status);
            Some (if err \<noteq> FOS_E_EMPTY then err else FOS_E_SUCCESS, K) } }
      | _ \<Rightarrow> Some (FOS_E_BAD_ARGS, K))"

section \<open>Where a thread is\<close>

text \<open>
  \<open>W\<close> gives the abstract value of every wait queue and \<open>S\<close> the elements of every ring.
  \<open>located\<close> ties the fields of one thread to them.
\<close>

definition on_ring :: "(addr \<Rightarrow> addr list option) \<Rightarrow> addr \<Rightarrow> bool" where
  "on_ring S a \<longleftrightarrow> (\<exists>r as. S r = Some as \<and> a \<in> set as)"

definition located :: "(addr \<Rightarrow> awq option) \<Rightarrow> (addr \<Rightarrow> addr list option) \<Rightarrow> addr \<Rightarrow> thread \<Rightarrow> bool" where
  "located W S a t \<longleftrightarrow>
     (th_state t = THREAD_STATE_WAITING \<longleftrightarrow> th_wq t \<noteq> None)
     \<and> (th_state t = THREAD_STATE_SCHEDULED \<longleftrightarrow> on_ring S a)
     \<and> (\<forall>q. th_wq t = Some q \<longrightarrow> W q \<noteq> None)
     \<and> (\<forall>q aq. W q = Some aq \<longrightarrow> (a \<in> set (awq_items aq) \<longleftrightarrow> th_wq t = Some q))"

definition placed :: "'m kernel \<Rightarrow> (addr \<Rightarrow> awq option) \<Rightarrow> (addr \<Rightarrow> addr list option) \<Rightarrow> bool" where
  "placed K W S \<longleftrightarrow>
     ring_rep (k_rings K) S \<and> dom (relems (k_rings K)) = dom (k_threads K)
     \<and> finite (dom (k_threads K)) \<and> card (dom (k_threads K)) < 2 ^ 31
     \<and> dom W = dom (k_wqs K)
     \<and> (\<forall>q w aq. k_wqs K q = Some w \<longrightarrow> W q = Some aq \<longrightarrow> wq_rep w aq)
     \<and> (\<forall>q aq. W q = Some aq \<longrightarrow> distinct (awq_items aq) \<and> set (awq_items aq) \<subseteq> dom (k_threads K))
     \<and> (\<forall>a t. k_threads K a = Some t \<longrightarrow> located W S a t)"

text \<open>The fields of the kernel that moving threads about does not touch.\<close>

definition same_frame :: "'m kernel \<Rightarrow> 'm kernel \<Rightarrow> bool" where
  "same_frame K K' \<longleftrightarrow> k_procs K' = k_procs K \<and> k_handles K' = k_handles K \<and> k_schedule K' = k_schedule K \<and> k_proc_table K' = k_proc_table K
     \<and> k_root_proc K' = k_root_proc K \<and> k_curr_tick K' = k_curr_tick K \<and> k_sleep_q K' = k_sleep_q K
     \<and> k_plugins K' = k_plugins K \<and> k_mem K' = k_mem K"

lemma same_frame_refl [simp]: "same_frame K K"
  by (simp add: same_frame_def)

lemma same_frame_trans [trans]: "same_frame K K' \<Longrightarrow> same_frame K' K'' \<Longrightarrow> same_frame K K''"
  by (simp add: same_frame_def)

lemma placedD:
  assumes "placed K W S"
  shows "ring_rep (k_rings K) S" and "dom (relems (k_rings K)) = dom (k_threads K)"
    and "finite (dom (k_threads K))" and "card (dom (k_threads K)) < 2 ^ 31" and "dom W = dom (k_wqs K)"
    and "\<And>q w aq. k_wqs K q = Some w \<Longrightarrow> W q = Some aq \<Longrightarrow> wq_rep w aq"
    and "\<And>q aq. W q = Some aq \<Longrightarrow> distinct (awq_items aq) \<and> set (awq_items aq) \<subseteq> dom (k_threads K)"
    and "\<And>a t. k_threads K a = Some t \<Longrightarrow> located W S a t"
  using assms unfolding placed_def by blast+

lemma locatedD:
  assumes "located W S a t"
  shows "th_state t = THREAD_STATE_WAITING \<longleftrightarrow> th_wq t \<noteq> None"
    and "th_state t = THREAD_STATE_SCHEDULED \<longleftrightarrow> on_ring S a"
    and "\<And>q. th_wq t = Some q \<Longrightarrow> W q \<noteq> None"
    and "\<And>q aq. W q = Some aq \<Longrightarrow> a \<in> set (awq_items aq) \<longleftrightarrow> th_wq t = Some q"
  using assms unfolding located_def by blast+

lemma located_other:
  assumes "located W S b t" and "on_ring S' b = on_ring S b" and "dom W' = dom W"
    and "\<And>q aq aq'. W q = Some aq \<Longrightarrow> W' q = Some aq' \<Longrightarrow> b \<in> set (awq_items aq') \<longleftrightarrow> b \<in> set (awq_items aq)"
  shows "located W' S' b t"
  unfolding located_def
proof (intro conjI allI impI)
  fix q aq' assume aq': "W' q = Some aq'"
  then obtain aq where "W q = Some aq" using assms(3) by (metis domD domI)
  then show "b \<in> set (awq_items aq') \<longleftrightarrow> th_wq t = Some q"
    using locatedD(4) [OF assms(1)] assms(4) aq' by simp
next
  fix q assume "th_wq t = Some q"
  then show "W' q \<noteq> None" using locatedD(3) [OF assms(1)] assms(3) by (metis domIff)
qed (use locatedD(1,2) [OF assms(1)] assms(2) in simp_all)

text \<open>Moving the one thread \<open>a\<close>: the others stay where they are.\<close>

lemma placed_move:
  assumes pl: "placed K W S" and t: "k_threads K a = Some t"
    and rs: "ring_rep rs S'" "dom (relems rs) = dom (relems (k_rings K))"
    and ring: "\<And>b. b \<noteq> a \<Longrightarrow> on_ring S' b = on_ring S b"
    and dom: "dom W' = dom W" "dom wqs = dom W"
    and rep: "\<And>q w aq. wqs q = Some w \<Longrightarrow> W' q = Some aq \<Longrightarrow> wq_rep w aq"
    and dist: "\<And>q aq. W' q = Some aq \<Longrightarrow> distinct (awq_items aq)"
    and items: "\<And>q aq aq' b. W q = Some aq \<Longrightarrow> W' q = Some aq' \<Longrightarrow> b \<noteq> a \<Longrightarrow>
      b \<in> set (awq_items aq') \<longleftrightarrow> b \<in> set (awq_items aq)"
    and loc: "located W' S' a t'"
  shows "placed (K\<lparr>k_rings := rs, k_wqs := wqs, k_threads := (k_threads K)(a \<mapsto> t')\<rparr>) W' S'"
proof -
  have dt: "dom ((k_threads K)(a \<mapsto> t')) = dom (k_threads K)" using t by auto
  have sub: "set (awq_items aq') \<subseteq> dom (k_threads K)" if W': "W' q = Some aq'" for q aq'
  proof
    fix b assume b: "b \<in> set (awq_items aq')"
    obtain aq where aq: "W q = Some aq" using dom(1) W' by (metis domD domI)
    show "b \<in> dom (k_threads K)"
    proof (cases "b = a")
      case True
      then show ?thesis using t by blast
    next
      case False
      then have "b \<in> set (awq_items aq)" using items [OF aq W'] b by blast
      then show ?thesis using placedD(7) [OF pl aq] by blast
    qed
  qed
  have "located W' S' b t''" if "((k_threads K)(a \<mapsto> t')) b = Some t''" for b t''
  proof (cases "b = a")
    case False
    then have "located W S b t''" using that placedD(8) [OF pl] by simp
    then show ?thesis by (rule located_other) (use ring dom(1) items False in blast)+
  qed (use that loc in simp)
  then show ?thesis
    using placedD(2,3,4) [OF pl] rs dom rep dist sub by (simp add: placed_def dt del: dom_fun_upd fun_upd_apply)
qed

lemma on_ring_without: "on_ring (without a S) b \<longleftrightarrow> b \<noteq> a \<and> on_ring S b"
  by (fastforce simp: on_ring_def without_def)

lemma ring_member_live:
  assumes "ring_rep st S" and "S r = Some as" and "a \<in> set as"
  shows "\<exists>e. relems st a = Some e \<and> re_r e = Some r"
  using assms unfolding ring_rep_def ring_is_def by (metis (no_types, lifting) map_option_eq_Some)

lemma placed_elem:
  assumes "placed K W S" and "k_threads K a = Some t"
  obtains e where "relems (k_rings K) a = Some e"
  using assms placedD(2) by (metis domD domI)

lemma placed_ring_length:
  assumes pl: "placed K W S" and r: "S r = Some as"
  shows "length as < 2 ^ 31"
proof -
  have "distinct as" using placedD(1) [OF pl] r by (auto simp: ring_rep_def ring_is_def)
  moreover have "set as \<subseteq> dom (k_threads K)"
    using ring_member_live [OF placedD(1) [OF pl] r] placedD(2) [OF pl] by (metis domI subsetI)
  ultimately have "length as \<le> card (dom (k_threads K))"
    using placedD(3) [OF pl] by (metis card_mono distinct_card)
  then show ?thesis using placedD(4) [OF pl] by simp
qed

definition awithout :: "addr \<Rightarrow> (addr \<Rightarrow> awq option) \<Rightarrow> addr \<Rightarrow> awq option" where
  "awithout a W q = map_option (awq_remove a) (W q)"

lemma awq_remove_absent: "a \<notin> set (awq_items aq) \<Longrightarrow> awq_remove a aq = aq"
  by (cases aq) (auto simp: filter_id_conv)

lemma dom_awithout [simp]: "dom (awithout a W) = dom W"
  by (auto simp: awithout_def)

lemma awithout_other: "W q = Some aq \<Longrightarrow> a \<notin> set (awq_items aq) \<Longrightarrow> awithout a W q = Some aq"
  by (simp add: awithout_def awq_remove_absent)

lemma awithout_id:
  assumes "located W S a t" and "th_wq t = None"
  shows "awithout a W = W"
proof
  fix q
  show "awithout a W q = W q"
    using locatedD(4) [OF assms(1), of q] assms(2) by (cases "W q") (simp_all add: awithout_def awq_remove_absent)
qed

text \<open>A thread off the rings and out of the queues is located wherever it says it is nowhere.\<close>

lemma located_nowhere:
  assumes "th_wq t = None" and "th_state t \<noteq> THREAD_STATE_WAITING" and "th_state t \<noteq> THREAD_STATE_SCHEDULED"
    and "\<not> on_ring S a" and "\<And>q aq. W q = Some aq \<Longrightarrow> a \<notin> set (awq_items aq)"
  shows "located W S a t"
  using assms by (auto simp: located_def)

lemma awithout_absent: "awithout a W q = Some aq \<Longrightarrow> a \<notin> set (awq_items aq)"
  by (auto simp: awithout_def awq_items_remove)

lemma on_ring_located: "located W S a t \<Longrightarrow> th_state t \<noteq> THREAD_STATE_SCHEDULED \<Longrightarrow> \<not> on_ring S a"
  using locatedD(2) by blast

lemma without_id: "\<not> on_ring S a \<Longrightarrow> without a S = S"
proof
  fix r assume "\<not> on_ring S a"
  then show "without a S r = S r" by (cases "S r") (auto simp: without_def on_ring_def)
qed

text \<open>Leaving a wait queue, whether by removal or because the thread was popped from it.\<close>

lemma placed_leave:
  assumes pl: "placed K W S" and t: "k_threads K a = Some t" and q: "th_wq t = Some q"
    and W: "W q = Some aq" and rep: "wq_rep w' (awq_remove a aq)"
    and t': "th_wq t' = None" "th_state t' \<noteq> THREAD_STATE_WAITING" "th_state t' \<noteq> THREAD_STATE_SCHEDULED"
  shows "placed (set_thread a t' (set_wq q w' K)) (awithout a W) S"
proof -
  have loc: "located W S a t" by (rule placedD(8) [OF pl t])
  then have "th_state t = THREAD_STATE_WAITING" using q locatedD(1) by blast
  then have off: "\<not> on_ring S a" using on_ring_located [OF loc] by simp
  have other: "awithout a W q' = W q'" if "q' \<noteq> q" for q'
  proof (cases "W q'")
    case (Some aq')
    then have "a \<notin> set (awq_items aq')" using locatedD(4) [OF loc Some] q that by auto
    with Some show ?thesis by (simp add: awithout_other)
  qed (simp add: awithout_def)
  have "placed (K\<lparr>k_rings := k_rings K, k_wqs := (k_wqs K)(q \<mapsto> w'), k_threads := (k_threads K)(a \<mapsto> t')\<rparr>)
      (awithout a W) S"
  proof (rule placed_move [OF pl t placedD(1) [OF pl] refl refl])
    show "dom ((k_wqs K)(q \<mapsto> w')) = dom W" using placedD(5) [OF pl] W by (metis domI dom_fun_upd insert_absorb option.distinct(1))
    fix q' w aq' assume "((k_wqs K)(q \<mapsto> w')) q' = Some w" "awithout a W q' = Some aq'"
    then show "wq_rep w aq'"
      using rep W placedD(6) [OF pl] other [of q'] by (cases "q' = q") (auto simp: awithout_def)
  next
    fix q' aq' assume "awithout a W q' = Some aq'"
    then show "distinct (awq_items aq')"
      using placedD(7) [OF pl] by (auto simp: awithout_def awq_items_remove distinct_removeAll)
  next
    show "located (awithout a W) S a t'"
      by (rule located_nowhere [OF t' off]) (rule awithout_absent)
  qed (auto simp: awithout_def awq_items_remove)
  then show ?thesis by simp
qed

lemma ring_free_off: "relems st a = Some e \<Longrightarrow> re_r e = None \<Longrightarrow> ring_rep st S \<Longrightarrow> \<not> on_ring S a"
  using ring_member_live unfolding on_ring_def by fastforce

text \<open>Leaving the rings.\<close>

lemma placed_unring:
  assumes pl: "placed K W S" and t: "k_threads K a = Some t" and q: "th_wq t = None"
    and rs: "ring_rep rs (without a S)" "dom (relems rs) = dom (relems (k_rings K))"
    and t': "th_wq t' = None" "th_state t' \<noteq> THREAD_STATE_WAITING" "th_state t' \<noteq> THREAD_STATE_SCHEDULED"
  shows "placed (set_thread a t' (K\<lparr>k_rings := rs\<rparr>)) W (without a S)"
proof -
  have loc: "located W S a t" by (rule placedD(8) [OF pl t])
  have "placed (K\<lparr>k_rings := rs, k_wqs := k_wqs K, k_threads := (k_threads K)(a \<mapsto> t')\<rparr>) W (without a S)"
  proof (rule placed_move [OF pl t rs])
    show "located W (without a S) a t'"
      by (rule located_nowhere [OF t']) (use locatedD(4) [OF loc] q in \<open>auto simp: on_ring_without\<close>)
  qed (use placedD(5,6,7) [OF pl] in \<open>auto simp: on_ring_without\<close>)
  then show ?thesis by simp
qed

text \<open>Changing only the data of a thread.\<close>

lemma placed_data:
  assumes pl: "placed K W S" and t: "k_threads K a = Some t" and eq: "th_wq t' = th_wq t" "th_state t' = th_state t"
  shows "placed (set_thread a t' K) W S"
proof -
  have loc: "located W S a t" by (rule placedD(8) [OF pl t])
  have "placed (K\<lparr>k_rings := k_rings K, k_wqs := k_wqs K, k_threads := (k_threads K)(a \<mapsto> t')\<rparr>) W S"
    by (rule placed_move [OF pl t placedD(1) [OF pl] refl refl])
      (use placedD(5,6,7) [OF pl] loc eq in \<open>auto simp: located_def\<close>)
  then show ?thesis by simp
qed

lemma thread_detach_rep:
  assumes pl: "placed K W S" and t: "k_threads K a = Some t"
  shows "\<exists>K' t'. thread_detach K a = Some K' \<and> placed K' (awithout a W) (without a S)
    \<and> k_threads K' = (k_threads K)(a \<mapsto> t') \<and> same_frame K K' \<and> th_wq t' = None
    \<and> th_state t' = (if th_state t = THREAD_STATE_EXITED then THREAD_STATE_EXITED else THREAD_STATE_DETATCHED)
    \<and> th_ctx t' = th_ctx t \<and> th_tid t' = th_tid t \<and> th_proc t' = th_proc t \<and> th_stack_base t' = th_stack_base t
    \<and> th_exit_ret_val t' = th_exit_ret_val t \<and> (th_wait_ctx t' = th_wait_ctx t \<or> th_wait_ctx t' = replicate 6 0)"
proof -
  have loc: "located W S a t" by (rule placedD(8) [OF pl t])
  consider q where "th_state t = THREAD_STATE_WAITING" "th_wq t = Some q"
    | "th_state t = THREAD_STATE_SCHEDULED" "th_wq t = None"
    | "th_state t \<noteq> THREAD_STATE_WAITING" "th_state t \<noteq> THREAD_STATE_SCHEDULED" "th_wq t = None"
    using locatedD(1) [OF loc] by (cases "th_wq t") auto
  then show ?thesis
  proof cases
    case 1
    then obtain aq where W: "W q = Some aq" using locatedD(3) [OF loc] by blast
    then obtain w where w: "k_wqs K q = Some w" using placedD(5) [OF pl] by (metis domD domI)
    obtain w' where w': "wq_remove w a = Some w'" "wq_rep w' (awq_remove a aq)"
      using wq_remove_rep [OF placedD(6) [OF pl w W], of a] by blast
    let ?t = "t\<lparr>th_wq := None, th_wait_ctx := replicate 6 0, th_state := THREAD_STATE_DETATCHED\<rparr>"
    have "placed (set_thread a ?t (set_wq q w' K)) (awithout a W) S"
      by (rule placed_leave [OF pl t 1(2) W w'(2)]) simp_all
    moreover have "without a S = S"
      using on_ring_located [OF loc] 1(1) by (intro without_id) simp
    ultimately show ?thesis using t 1 w w'(1) by (auto simp: thread_detach_def same_frame_def)
  next
    case 2
    obtain e where e: "relems (k_rings K) a = Some e" by (rule placed_elem [OF pl t])
    obtain rs where rs: "ring_element_detach (k_rings K) a = Some rs" "ring_rep rs (without a S)"
      "dom (relems rs) = dom (relems (k_rings K))"
      using ring_detach [OF placedD(1) [OF pl] e] by blast
    let ?t = "t\<lparr>th_state := THREAD_STATE_DETATCHED\<rparr>"
    have "placed (set_thread a ?t (K\<lparr>k_rings := rs\<rparr>)) W (without a S)"
      by (rule placed_unring [OF pl t 2(2) rs(2,3)]) (simp_all add: 2)
    then show ?thesis using t 2 rs(1) awithout_id [OF loc] by (auto simp: thread_detach_def same_frame_def)
  next
    case 3
    have "awithout a W = W" "without a S = S"
      using awithout_id [OF loc 3(3)] without_id on_ring_located [OF loc 3(2)] by simp_all
    moreover have "(k_threads K)(a \<mapsto> t) = k_threads K" using t by (simp add: fun_upd_idem)
    moreover have "th_state t = THREAD_STATE_DETATCHED \<or> th_state t = THREAD_STATE_EXITED"
      using 3 by (cases "th_state t") auto
    ultimately show ?thesis using t 3 pl by (intro exI [of _ K] exI [of _ t]) (auto simp: thread_detach_def)
  qed
qed

definition scheduled :: "(addr \<Rightarrow> addr list option) \<Rightarrow> addr \<Rightarrow> addr \<Rightarrow> addr \<Rightarrow> addr list option" where
  "scheduled S r a = (without a S)(r \<mapsto> the (without a S r) @ [a])"

lemma on_ring_snoc:
  assumes "S r = Some xs"
  shows "on_ring (S(r \<mapsto> xs @ [a])) b \<longleftrightarrow> b = a \<or> on_ring S b"
proof
  assume "on_ring (S(r \<mapsto> xs @ [a])) b"
  then show "b = a \<or> on_ring S b" using assms by (auto simp: on_ring_def split: if_splits)
next
  assume "b = a \<or> on_ring S b"
  then show "on_ring (S(r \<mapsto> xs @ [a])) b"
  proof
    assume "on_ring S b"
    then obtain q ys where "S q = Some ys" "b \<in> set ys" by (auto simp: on_ring_def)
    then show ?thesis using assms by (cases "q = r") (auto simp: on_ring_def)
  qed (auto simp: on_ring_def)
qed

lemma on_ring_scheduled:
  assumes "S r = Some as"
  shows "on_ring (scheduled S r a) b \<longleftrightarrow> b = a \<or> on_ring S b"
proof -
  have "without a S r = Some (removeAll a as)" using assms by (simp add: without_def)
  from on_ring_snoc [of "without a S" r, OF this] show ?thesis
    using \<open>without a S r = _\<close> by (simp add: scheduled_def on_ring_without) blast
qed

lemma scheduled_same: "S r = Some as \<Longrightarrow> scheduled S r a r = Some (removeAll a as @ [a])"
  by (simp add: scheduled_def without_def)

lemma without_idem [simp]: "without a (without a S) = without a S"
  by (rule ext) (simp add: without_def option.map_comp comp_def)

text \<open>Joining a ring, for a thread that is nowhere.\<close>

lemma placed_enring:
  assumes pl: "placed K W S" and t: "k_threads K a = Some t" and q: "th_wq t = None" and off: "\<not> on_ring S a"
    and r: "S r = Some as" and rs: "ring_element_attach (k_rings K) a r = Some rs"
    and t': "th_wq t' = None" "th_state t' = THREAD_STATE_SCHEDULED"
  shows "placed (set_thread a t' (K\<lparr>k_rings := rs\<rparr>)) W (scheduled S r a)"
proof -
  have loc: "located W S a t" by (rule placedD(8) [OF pl t])
  obtain e where e: "relems (k_rings K) a = Some e" by (rule placed_elem [OF pl t])
  have "length as + 1 < 2 ^ 32" using placed_ring_length [OF pl r] by simp
  from ring_attach [OF placedD(1) [OF pl] r this e] rs
  have rs': "ring_rep rs (scheduled S r a)" "dom (relems rs) = dom (relems (k_rings K))"
    using r by (auto simp: scheduled_def without_def)
  have "placed (K\<lparr>k_rings := rs, k_wqs := k_wqs K, k_threads := (k_threads K)(a \<mapsto> t')\<rparr>) W (scheduled S r a)"
  proof (rule placed_move [OF pl t rs'])
    show "located W (scheduled S r a) a t'"
      using t' locatedD(4) [OF loc] q on_ring_scheduled [of S, OF r] by (auto simp: located_def)
  qed (use placedD(5,6,7) [OF pl] on_ring_scheduled [of S, OF r] in auto)
  then show ?thesis by simp
qed

lemma ring_attach_some:
  assumes pl: "placed K W S" and t: "k_threads K a = Some t" and r: "S r = Some as"
  obtains rs where "ring_element_attach (k_rings K) a r = Some rs"
proof -
  obtain e where e: "relems (k_rings K) a = Some e" by (rule placed_elem [OF pl t])
  have "length as + 1 < 2 ^ 32" using placed_ring_length [OF pl r] by simp
  from ring_attach [OF placedD(1) [OF pl] r this e] that show ?thesis by blast
qed

lemma scheduled_without: "S r = Some as \<Longrightarrow> scheduled (without a S) r a = scheduled S r a"
  by (simp add: scheduled_def)

text \<open>Scheduling takes the thread out of wherever it was and appends it to the ring.\<close>

lemma thread_schedule_rep:
  assumes pl: "placed K W S" and t: "k_threads K a = Some t" and r: "S r = Some as"
  shows "\<exists>K' t'. thread_schedule K a r = Some K' \<and> placed K' (awithout a W) (scheduled S r a)
    \<and> k_threads K' = (k_threads K)(a \<mapsto> t') \<and> same_frame K K' \<and> th_wq t' = None
    \<and> th_state t' = THREAD_STATE_SCHEDULED
    \<and> th_ctx t' = th_ctx t \<and> th_tid t' = th_tid t \<and> th_proc t' = th_proc t \<and> th_stack_base t' = th_stack_base t
    \<and> th_exit_ret_val t' = th_exit_ret_val t \<and> (th_wait_ctx t' = th_wait_ctx t \<or> th_wait_ctx t' = replicate 6 0)
    \<and> (th_state t = THREAD_STATE_DETATCHED \<longrightarrow> th_wait_ctx t' = th_wait_ctx t)"
proof -
  let ?D = "if th_state t \<noteq> THREAD_STATE_DETATCHED then thread_detach K a else Some K"
  have "\<exists>K1 t1. ?D = Some K1 \<and> placed K1 (awithout a W) (without a S) \<and> k_threads K1 = (k_threads K)(a \<mapsto> t1)
    \<and> same_frame K K1 \<and> th_wq t1 = None \<and> th_ctx t1 = th_ctx t \<and> th_tid t1 = th_tid t \<and> th_proc t1 = th_proc t
    \<and> th_stack_base t1 = th_stack_base t \<and> th_exit_ret_val t1 = th_exit_ret_val t
    \<and> (th_wait_ctx t1 = th_wait_ctx t \<or> th_wait_ctx t1 = replicate 6 0) \<and> (th_state t = THREAD_STATE_DETATCHED \<longrightarrow> th_wait_ctx t1 = th_wait_ctx t)"
  proof (cases "th_state t = THREAD_STATE_DETATCHED")
    case True
    have loc: "located W S a t" by (rule placedD(8) [OF pl t])
    then have "th_wq t = None" using True locatedD(1) [OF loc] by simp
    then have "awithout a W = W" "without a S = S"
      using awithout_id [OF loc] without_id on_ring_located [OF loc] True by simp_all
    then show ?thesis using True pl t \<open>th_wq t = None\<close> by (intro exI [of _ K] exI [of _ t]) (auto simp: fun_upd_idem)
  next
    case False
    then show ?thesis using thread_detach_rep [OF pl t] by fastforce
  qed
  then obtain K1 t1 where K1: "?D = Some K1" "placed K1 (awithout a W) (without a S)"
    "k_threads K1 = (k_threads K)(a \<mapsto> t1)" "same_frame K K1" "th_wq t1 = None" "th_ctx t1 = th_ctx t"
    "th_tid t1 = th_tid t" "th_proc t1 = th_proc t" "th_stack_base t1 = th_stack_base t"
    "th_exit_ret_val t1 = th_exit_ret_val t" "(th_wait_ctx t1 = th_wait_ctx t \<or> th_wait_ctx t1 = replicate 6 0)" "(th_state t = THREAD_STATE_DETATCHED \<longrightarrow> th_wait_ctx t1 = th_wait_ctx t)" by blast
  have t1: "k_threads K1 a = Some t1" using K1(3) by simp
  have r1: "without a S r = Some (removeAll a as)" using r by (simp add: without_def)
  obtain rs where rs: "ring_element_attach (k_rings K1) a r = Some rs"
    by (rule ring_attach_some [OF K1(2) t1 r1])
  let ?t = "t1\<lparr>th_state := THREAD_STATE_SCHEDULED\<rparr>"
  let ?K = "set_thread a ?t (K1\<lparr>k_rings := rs\<rparr>)"
  have off: "\<not> on_ring (without a S) a" by (simp add: on_ring_without)
  have "placed ?K (awithout a W) (scheduled (without a S) r a)"
    by (rule placed_enring [OF K1(2) t1 K1(5) off r1 rs]) (simp_all add: K1(5))
  then have "placed ?K (awithout a W) (scheduled S r a)" by (simp only: scheduled_without [of S, OF r])
  moreover have "thread_schedule K a r = Some ?K"
    using t K1(1) rs t1 by (simp add: thread_schedule_def)
  ultimately show ?thesis
    using K1 by (intro exI [of _ ?K] exI [of _ ?t]) (auto simp: same_frame_def)
qed

section \<open>Waking threads\<close>

lemma awithout_leave:
  assumes pl: "placed K W S" and t: "k_threads K a = Some t" and q: "th_wq t = Some q" and W: "W q = Some aq"
  shows "awithout a W = W(q \<mapsto> awq_remove a aq)"
proof
  fix q'
  have loc: "located W S a t" by (rule placedD(8) [OF pl t])
  show "awithout a W q' = (W(q \<mapsto> awq_remove a aq)) q'"
  proof (cases "q' = q")
    case True
    then show ?thesis using W by (simp add: awithout_def)
  next
    case False
    then show ?thesis
    proof (cases "W q'")
      case (Some aq')
      then have "a \<notin> set (awq_items aq')" using locatedD(4) [OF loc Some] q False by auto
      with Some False show ?thesis by (simp add: awithout_other)
    qed (simp add: awithout_def)
  qed
qed

lemma awithout_idem: "awithout a (awithout a W) = awithout a W"
proof
  fix q
  show "awithout a (awithout a W) q = awithout a W q"
    by (cases "W q") (simp_all add: awithout_def awq_remove_absent awq_items_remove)
qed

text \<open>
  The step all wake-ups share: a thread popped from a wait queue is marked detached, then put at
  the end of the schedule.
\<close>

lemma placed_wake:
  assumes pl: "placed K W S" and t: "k_threads K a = Some t" and q: "th_wq t = Some q"
    and W: "W q = Some aq" and rep: "wq_rep w' (awq_remove a aq)" and r: "S r = Some as"
    and t1: "th_wq t1 = None" "th_state t1 = THREAD_STATE_DETATCHED"
  shows "\<exists>K' t'. thread_schedule (set_thread a t1 (set_wq q w' K)) a r = Some K'
    \<and> placed K' (W(q \<mapsto> awq_remove a aq)) (S(r \<mapsto> as @ [a]))
    \<and> k_threads K' = (k_threads K)(a \<mapsto> t') \<and> same_frame K K' \<and> th_wq t' = None
    \<and> th_state t' = THREAD_STATE_SCHEDULED
    \<and> th_ctx t' = th_ctx t1 \<and> th_tid t' = th_tid t1 \<and> th_proc t' = th_proc t1 \<and> th_stack_base t' = th_stack_base t1
    \<and> th_exit_ret_val t' = th_exit_ret_val t1 \<and> th_wait_ctx t' = th_wait_ctx t1"
proof -
  let ?K = "set_thread a t1 (set_wq q w' K)"
  have loc: "located W S a t" by (rule placedD(8) [OF pl t])
  have "th_state t = THREAD_STATE_WAITING" using q locatedD(1) [OF loc] by simp
  then have off: "\<not> on_ring S a" using on_ring_located [OF loc] by simp
  have pl1: "placed ?K (awithout a W) S" by (rule placed_leave [OF pl t q W rep]) (simp_all add: t1)
  have "k_threads ?K a = Some t1" by simp
  from thread_schedule_rep [OF pl1 this r] obtain K' t' where K':
    "thread_schedule ?K a r = Some K'" "placed K' (awithout a (awithout a W)) (scheduled S r a)"
    "k_threads K' = (k_threads ?K)(a \<mapsto> t')" "same_frame ?K K'" "th_wq t' = None"
    "th_state t' = THREAD_STATE_SCHEDULED"
    "th_ctx t' = th_ctx t1" "th_tid t' = th_tid t1" "th_proc t' = th_proc t1" "th_stack_base t' = th_stack_base t1"
    "th_exit_ret_val t' = th_exit_ret_val t1" "th_wait_ctx t' = th_wait_ctx t1" using t1(2) by blast
  note awithout_idem [of a W]
  moreover have "awithout a W = W(q \<mapsto> awq_remove a aq)" by (rule awithout_leave [OF pl t q W])
  moreover have "scheduled S r a = S(r \<mapsto> as @ [a])" using r without_id [OF off] by (simp add: scheduled_def)
  moreover have "(k_threads ?K)(a \<mapsto> t') = (k_threads K)(a \<mapsto> t')" by simp
  moreover have "same_frame K K'" using K'(4) by (simp add: same_frame_def)
  ultimately show ?thesis using K' by metis
qed

definition woken :: "32 word \<Rightarrow> thread option \<Rightarrow> thread option \<Rightarrow> bool" where
  "woken st before after \<longleftrightarrow> (\<exists>t t'. before = Some t \<and> after = Some t' \<and> th_state t' = THREAD_STATE_SCHEDULED
     \<and> th_wq t' = None \<and> th_ctx t' = (th_ctx t)\<lparr>c_eax := st\<rparr> \<and> th_tid t' = th_tid t \<and> th_proc t' = th_proc t)"

lemma placed_item:
  assumes pl: "placed K W S" and W: "W q = Some aq" and a: "a \<in> set (awq_items aq)"
  obtains t where "k_threads K a = Some t" "th_wq t = Some q" "th_state t = THREAD_STATE_WAITING"
proof -
  obtain t where t: "k_threads K a = Some t" using placedD(7) [OF pl W] a by blast
  note loc = placedD(8) [OF pl t]
  have "th_wq t = Some q" using locatedD(4) [OF loc W] a by simp
  then show ?thesis using that t locatedD(1) [OF loc] by simp
qed

lemma placed_queue:
  assumes pl: "placed K W S" and W: "W q = Some aq"
  obtains w where "k_wqs K q = Some w" "wq_rep w aq"
proof -
  have "q \<in> dom (k_wqs K)" using placedD(5) [OF pl] W by (metis domI)
  then obtain w where "k_wqs K q = Some w" by auto
  then show ?thesis using that placedD(6) [OF pl _ W] by blast
qed

lemma wq_rep_basic: "wq_rep w (AWQ_basic ws rs) \<Longrightarrow> \<exists>q. w = WQ_basic q \<and> bwq_rep ll_inv ll_inv q ws rs"
  by (cases w) auto

lemma placed_set_wq:
  assumes pl: "placed K W S" and W: "W q = Some aq" and rep: "wq_rep w aq'" and d: "distinct (awq_items aq')"
    and eq: "set (awq_items aq') = set (awq_items aq)"
  shows "placed (set_wq q w K) (W(q \<mapsto> aq')) S"
proof -
  have "located (W(q \<mapsto> aq')) S a t" if t: "k_threads K a = Some t" for a t
  proof -
    have "a \<in> set (awq_items b') \<longleftrightarrow> a \<in> set (awq_items b)" if "W p = Some b" "(W(q \<mapsto> aq')) p = Some b'" for p b b'
      using that W eq by (cases "p = q") auto
    moreover have "dom (W(q \<mapsto> aq')) = dom W" using W by auto
    ultimately show ?thesis using located_other [OF placedD(8) [OF pl t]] by blast
  qed
  moreover have "wq_rep w' a" if "((k_wqs K)(q \<mapsto> w)) p = Some w'" "(W(q \<mapsto> aq')) p = Some a" for p w' a
    using that placedD(6) [OF pl] rep by (auto split: if_splits)
  moreover have "distinct (awq_items a) \<and> set (awq_items a) \<subseteq> dom (k_threads K)" if "(W(q \<mapsto> aq')) p = Some a" for p a
    using that placedD(7) [OF pl] placedD(7) [OF pl W] d eq by (auto split: if_splits)
  ultimately show ?thesis
    using placedD(1-5) [OF pl] unfolding placed_def by simp
qed

lemma bwq_wake_loop_rep:
  assumes "placed K W S" and "W q = Some (AWQ_basic ws rs)" and "S r = Some as"
  shows "\<exists>K'. bwq_wake_loop K q r st = Some (FOS_E_EMPTY, K') \<and> placed K' (W(q \<mapsto> AWQ_basic ws [])) (S(r \<mapsto> as @ rs))
    \<and> same_frame K K' \<and> (\<forall>b. b \<notin> set rs \<longrightarrow> k_threads K' b = k_threads K b)
    \<and> (\<forall>b\<in>set rs. woken st (k_threads K b) (k_threads K' b))"
  using assms
proof (induction rs arbitrary: K W S as)
  case Nil
  from placed_queue [OF Nil(1,2)] obtain w where "k_wqs K q = Some w" "wq_rep w (AWQ_basic ws [])" .
  then obtain bq where w: "k_wqs K q = Some (WQ_basic bq)" "bwq_rep ll_inv ll_inv bq ws []"
    using wq_rep_basic by blast
  have "bwq_pop LL_IMPL bq = Some (FOS_E_EMPTY, None, bq)" using ll_basic.bwq_pop_rep [OF w(2)] by simp
  then have "bwq_wake_loop K q r st = Some (FOS_E_EMPTY, K)"
    using w(1) by (subst bwq_wake_loop.simps) (simp add: basic_queue_def fun_upd_idem)
  then show ?case using Nil by (simp add: fun_upd_idem)
next
  case (Cons a rs)
  from placed_queue [OF Cons.prems(1,2)] obtain w where "k_wqs K q = Some w" "wq_rep w (AWQ_basic ws (a # rs))" .
  then obtain bq where w: "k_wqs K q = Some (WQ_basic bq)" "bwq_rep ll_inv ll_inv bq ws (a # rs)"
    using wq_rep_basic by blast
  from ll_basic.bwq_pop_rep [OF w(2)] obtain bq' where
    bq': "bwq_pop LL_IMPL bq = Some (FOS_E_SUCCESS, Some a, bq')" "bwq_rep ll_inv ll_inv bq' ws rs" by auto
  from placed_item [OF Cons.prems(1,2), of a] obtain t where
    t: "k_threads K a = Some t" "th_wq t = Some q" by auto
  have "distinct (ws @ a # rs)" using placedD(7) [OF Cons.prems(1,2)] by simp
  then have rem: "awq_remove a (AWQ_basic ws (a # rs)) = AWQ_basic ws rs" by simp
  let ?t = "t\<lparr>th_wq := None, th_state := THREAD_STATE_DETATCHED, th_wait_ctx := replicate 6 0,
         th_ctx := (th_ctx t)\<lparr>c_eax := st\<rparr>\<rparr>"
  have "wq_rep (WQ_basic bq') (awq_remove a (AWQ_basic ws (a # rs)))" using bq'(2) rem by simp
  from placed_wake [OF Cons.prems(1) t Cons.prems(2) this Cons.prems(3), of ?t] obtain K1 t1 where K1:
    "thread_schedule (set_thread a ?t (set_wq q (WQ_basic bq') K)) a r = Some K1"
    "placed K1 (W(q \<mapsto> AWQ_basic ws rs)) (S(r \<mapsto> as @ [a]))" "k_threads K1 = (k_threads K)(a \<mapsto> t1)" "same_frame K K1"
    "th_wq t1 = None" "th_state t1 = THREAD_STATE_SCHEDULED" "th_ctx t1 = (th_ctx t)\<lparr>c_eax := st\<rparr>"
    "th_tid t1 = th_tid t" "th_proc t1 = th_proc t" unfolding rem by auto
  from Cons.IH [OF K1(2), of "as @ [a]"] obtain K' where K':
    "bwq_wake_loop K1 q r st = Some (FOS_E_EMPTY, K')" "placed K' (W(q \<mapsto> AWQ_basic ws [])) (S(r \<mapsto> as @ a # rs))"
    "same_frame K1 K'" "\<forall>b. b \<notin> set rs \<longrightarrow> k_threads K' b = k_threads K1 b"
    "\<forall>b\<in>set rs. woken st (k_threads K1 b) (k_threads K' b)"
    by (auto simp only: fun_upd_upd fun_upd_same append_Cons append_assoc append_Nil)
  have "bwq_wake_loop K q r st = Some (FOS_E_EMPTY, K')"
    using w(1) bq'(1) t K1(1) K'(1) by (subst bwq_wake_loop.simps) (simp add: basic_queue_def Let_def)
  moreover have "a \<notin> set rs" using \<open>distinct (ws @ a # rs)\<close> by simp
  moreover have "woken st (k_threads K a) (k_threads K' a)"
    using K'(4) K1 t(1) \<open>a \<notin> set rs\<close> by (auto simp: woken_def)
  moreover have "woken st (k_threads K b) (k_threads K' b)" if "b \<in> set rs" for b
    using that K'(5) K1(3) \<open>a \<notin> set rs\<close> by (cases "b = a") auto
  moreover have "k_threads K' b = k_threads K b" if "b \<notin> set (a # rs)" for b
    using that K'(4) K1(3) by simp
  ultimately show ?case
    using K'(2) same_frame_trans [OF K1(4) K'(3)] by (intro exI [of _ K']) (simp del: fun_upd_apply)
qed

lemma bwq_wake_all_rep:
  assumes pl: "placed K W S" and W: "W q = Some (AWQ_basic ws rs)" and r: "S r = Some as" and al: "alloc_ok al"
  shows "\<exists>e K'. bwq_wake_all_threads al K (Some q) (Some r) status = Some (e, K') \<and> same_frame K K'
    \<and> (e = FOS_E_SUCCESS \<and> placed K' (W(q \<mapsto> AWQ_basic [] [])) (S(r \<mapsto> as @ rs @ ws))
         \<and> (\<forall>b\<in>set (rs @ ws). woken (err_word status) (k_threads K b) (k_threads K' b))
         \<and> (\<forall>b. b \<notin> set (rs @ ws) \<longrightarrow> k_threads K' b = k_threads K b)
       \<or> e = FOS_E_NO_MEM \<and> oom al \<and> k_threads K' = k_threads K
         \<and> (\<exists>n < length ws. placed K' (W(q \<mapsto> AWQ_basic (drop n ws) (rs @ take n ws))) S))"
proof -
  from placed_queue [OF pl W] obtain w where "k_wqs K q = Some w" "wq_rep w (AWQ_basic ws rs)" .
  then obtain bq where w: "k_wqs K q = Some (WQ_basic bq)" "bwq_rep ll_inv ll_inv bq ws rs"
    using wq_rep_basic by blast
  from ll_basic.bwq_notify_all_rep [OF w(2) al] obtain n e bq' where
    n: "bwq_notify LL_IMPL LL_IMPL al bq BWQ_NOTIFY_ALL = Some (e, bq')"
    "bwq_rep ll_inv ll_inv bq' (drop n ws) (rs @ take n ws)"
    "e = FOS_E_SUCCESS \<and> n = length ws \<or> e = FOS_E_NO_MEM \<and> oom al \<and> n < length ws" by blast
  have dw: "distinct (ws @ rs)" using placedD(7) [OF pl W] by simp
  have mem: "mset (drop n ws @ rs @ take n ws) = mset (ws @ rs)"
    by (metis append_take_drop_id mset_append union_assoc union_commute)
  have d: "distinct (awq_items (AWQ_basic (drop n ws) (rs @ take n ws)))"
    using mset_eq_imp_distinct_iff [OF mem] dw by simp
  have s: "set (awq_items (AWQ_basic (drop n ws) (rs @ take n ws))) = set (awq_items (AWQ_basic ws rs))"
    using mset_eq_setD [OF mem] by simp
  have pl1: "placed (set_wq q (WQ_basic bq') K) (W(q \<mapsto> AWQ_basic (drop n ws) (rs @ take n ws))) S"
    by (rule placed_set_wq [OF pl W _ d s]) (simp add: n(2))
  show ?thesis
  proof (cases "e = FOS_E_SUCCESS")
    case True
    then have "n = length ws" using n(3) by auto
    have kt: "k_threads (set_wq q (WQ_basic bq') K) = k_threads K" by simp
    from \<open>n = length ws\<close> pl1 have pl2: "placed (set_wq q (WQ_basic bq') K) (W(q \<mapsto> AWQ_basic [] (rs @ ws))) S" by simp
    from bwq_wake_loop_rep [OF pl2 _ r, of q "[]" "rs @ ws" "err_word status"] obtain K' where K':
      "bwq_wake_loop (set_wq q (WQ_basic bq') K) q r (err_word status) = Some (FOS_E_EMPTY, K')"
      "placed K' (W(q \<mapsto> AWQ_basic [] [])) (S(r \<mapsto> as @ rs @ ws))" "same_frame (set_wq q (WQ_basic bq') K) K'"
      "\<forall>b. b \<notin> set (rs @ ws) \<longrightarrow> k_threads K' b = k_threads K b"
      "\<forall>b\<in>set (rs @ ws). woken (err_word status) (k_threads K b) (k_threads K' b)"
      unfolding kt fun_upd_upd fun_upd_same by blast
    then show ?thesis
      using w(1) n(1) True by (intro exI [of _ FOS_E_SUCCESS] exI [of _ K'])
        (simp add: bwq_wake_all_threads_def basic_queue_def same_frame_def del: fun_upd_apply)
  next
    case False
    then show ?thesis
      using w(1) n(1,3) pl1 by (intro exI [of _ e] exI [of _ "set_wq q (WQ_basic bq') K"])
        (auto simp add: bwq_wake_all_threads_def basic_queue_def same_frame_def simp del: fun_upd_apply)
  qed
qed

end
