(* ===== verification/Processes.thy ===== *)
theory Processes
  imports Threads
begin

text \<open>
  The process operations of \<^verbatim>\<open>k_startup/src/process.c\<close>: creation, fork, deletion, exec, and the
  threads of a process.  A process owns its two child lists and its two id tables; its join and
  signal queues live in the store of wait queues because threads point to them.
\<close>

definition upd_proc :: "'m kernel \<Rightarrow> addr \<Rightarrow> (process \<Rightarrow> process) \<Rightarrow> 'm kernel option" where
  "upd_proc K p f = do { r \<leftarrow> k_procs K p; Some (set_proc p (f r) K) }"

definition upd_thread :: "'m kernel \<Rightarrow> addr \<Rightarrow> (thread \<Rightarrow> thread) \<Rightarrow> 'm kernel option" where
  "upd_thread K a f = do { t \<leftarrow> k_threads K a; Some (set_thread a (f t) K) }"

definition PROC_ES_UNSET :: "32 word" where "PROC_ES_UNSET = 1"
definition NULL_PHYS_ADDR :: "32 word" where "NULL_PHYS_ADDR = 0"

definition new_process ::
  "'m kenv \<Rightarrow> 'm kernel \<Rightarrow> nat \<Rightarrow> 32 word \<Rightarrow> addr option \<Rightarrow> (addr option \<times> 'm kernel) option"
where
  "new_process E K pid pd parent = do {
     let al = ke_al E;
     let proc = al (dom (k_procs K));
     let children = new_linked_list (Some al) 4;
     let zchildren = new_linked_list (Some al) 4;
     thread_table \<leftarrow> new_id_table True (ke_mem E) (ke_junk E) (ie_next (ke_junk E)) (fc_max_threads E);
     let ja = al (dom (k_wqs K));
     let join_queue = new_vector_wait_queue (ja \<noteq> None) (new_linked_list (Some al) 8) (new_linked_list (Some al) 8);
     let sa = al (dom (k_wqs K) \<union> (if join_queue = None then {} else set_option ja));
     let signal_queue = new_vector_wait_queue (sa \<noteq> None) (new_linked_list (Some al) 8) (new_linked_list (Some al) 8);
     handle_table \<leftarrow> new_id_table True (ke_mem E) (ke_junk E) (ie_next (ke_junk E)) (fc_max_handles E);
     (case (proc, children, zchildren, thread_table, ja, join_queue, sa, signal_queue, handle_table) of
        (Some p, Some cs, Some zs, Some tt, Some jqa, Some jq, Some sqa, Some sq, Some ht) \<Rightarrow>
          Some (Some p, set_proc p \<lparr>pr_exited = False, pr_exit_status = PROC_ES_UNSET, pr_pid = pid, pr_pd = pd,
            pr_parent = parent, pr_children = cs, pr_zombie_children = zs, pr_thread_table = tt,
            pr_join_queue = jqa, pr_main_thread = None, pr_sig_vec = 0, pr_sig_allow = 0, pr_signal_queue = sqa,
            pr_handle_table = ht, pr_in_handle = idtb_null_id ht, pr_out_handle = idtb_null_id ht\<rparr>
            (set_wq sqa (WQ_vector sq) (set_wq jqa (WQ_vector jq) K)))
      | _ \<Rightarrow> Some (None, K)) }"

text \<open>The loops of \<^verbatim>\<open>delete_process\<close> over the allocated ids of a table.\<close>

partial_function (option) delete_threads_loop :: "'m kernel \<Rightarrow> addr \<Rightarrow> nat \<Rightarrow> 'm kernel option" where
  "delete_threads_loop K p tid = do {
     r \<leftarrow> k_procs K p;
     if tid = idtb_null_id (pr_thread_table r) then Some K
     else do {
       thr \<leftarrow> idtb_get (pr_thread_table r) tid;
       K \<leftarrow> delete_thread K thr;
       r \<leftarrow> k_procs K p;
       (tid', tt) \<leftarrow> idtb_next (pr_thread_table r);
       delete_threads_loop (set_proc p (r\<lparr>pr_thread_table := tt\<rparr>) K) p tid' } }"

definition delete_handle_state :: "'m kenv \<Rightarrow> 'm kernel \<Rightarrow> addr option \<Rightarrow> fernos_error \<times> 'm kernel" where
  "delete_handle_state E K hs = (case hs of None \<Rightarrow> (FOS_E_SUCCESS, K) | Some h \<Rightarrow> ke_hs_delete E K h)"

partial_function (option) delete_handles_loop ::
  "'m kenv \<Rightarrow> 'm kernel \<Rightarrow> addr \<Rightarrow> nat \<Rightarrow> (fernos_error \<times> 'm kernel) option"
where
  "delete_handles_loop E K p hid = do {
     r \<leftarrow> k_procs K p;
     if hid = idtb_null_id (pr_handle_table r) then Some (FOS_E_SUCCESS, K)
     else do {
       hs \<leftarrow> idtb_get (pr_handle_table r) hid;
       let (err, K) = delete_handle_state E K hs;
       if err \<noteq> FOS_E_SUCCESS then Some (err, K)
       else do {
         r \<leftarrow> k_procs K p;
         (hid', ht) \<leftarrow> idtb_next (pr_handle_table r);
         delete_handles_loop E (set_proc p (r\<lparr>pr_handle_table := ht\<rparr>) K) p hid' } } }"

definition delete_process ::
  "'m kenv \<Rightarrow> 'm kernel \<Rightarrow> addr option \<Rightarrow> (fernos_error \<times> 'm kernel) option"
where
  "delete_process E K proc =
     (case proc of
        None \<Rightarrow> Some (FOS_E_SUCCESS, K)
      | Some p \<Rightarrow> do {
          r \<leftarrow> k_procs K p;
          let K = K\<lparr>k_mem := ke_delete_pd E (k_mem K) (pr_pd r)\<rparr>;
          _ \<leftarrow> delete_linked_list (pr_children r);
          _ \<leftarrow> delete_linked_list (pr_zombie_children r);
          let tt = idtb_reset_iterator (pr_thread_table r);
          K \<leftarrow> delete_threads_loop (set_proc p (r\<lparr>pr_thread_table := tt\<rparr>) K) p (idtb_get_iter tt);
          let K = K\<lparr>k_wqs := (k_wqs K)(pr_join_queue r := None, pr_signal_queue r := None)\<rparr>;
          r \<leftarrow> k_procs K p;
          let ht = idtb_reset_iterator (pr_handle_table r);
          (err, K) \<leftarrow> delete_handles_loop E (set_proc p (r\<lparr>pr_handle_table := ht\<rparr>) K) p (idtb_get_iter ht);
          if err \<noteq> FOS_E_SUCCESS then Some (err, K)
          else Some (FOS_E_SUCCESS, K\<lparr>k_procs := (k_procs K)(p := None)\<rparr>) })"

text \<open>
  The loops of \<^verbatim>\<open>new_process_fork\<close>.  The first releases, in the copy of the address space, the
  stacks of the threads that are not copied.
\<close>

fun fork_stacks_loop ::
  "'m kenv \<Rightarrow> nat \<Rightarrow> nat \<Rightarrow> 'm kernel \<Rightarrow> addr id_table \<Rightarrow> nat \<Rightarrow> 32 word \<Rightarrow> 'm kernel option"
where
  "fork_stacks_loop E 0 tid K tt self new_pd = Some K"
| "fork_stacks_loop E (Suc n) tid K tt self new_pd = do {
     parent_thread \<leftarrow> idtb_get tt tid;
     K \<leftarrow> (case parent_thread of
         Some a \<Rightarrow>
           if tid \<noteq> self then do {
             t \<leftarrow> k_threads K a;
             Some (K\<lparr>k_mem := ke_free_pages E (k_mem K) new_pd (th_stack_base t) (tstack_end E tid)\<rparr>) }
           else Some K
       | None \<Rightarrow> Some K);
     fork_stacks_loop E n (tid + 1) K tt self new_pd }"

fun fork_handles_loop ::
  "'m kenv \<Rightarrow> nat \<Rightarrow> nat \<Rightarrow> 'm kernel \<Rightarrow> addr \<Rightarrow> addr \<Rightarrow> (fernos_error \<times> 'm kernel) option"
where
  "fork_handles_loop E 0 hid K proc child = Some (FOS_E_SUCCESS, K)"
| "fork_handles_loop E (Suc n) hid K proc child = do {
     r \<leftarrow> k_procs K proc;
     hs \<leftarrow> idtb_get (pr_handle_table r) hid;
     case hs of
       None \<Rightarrow> fork_handles_loop E n (hid + 1) K proc child
     | Some h \<Rightarrow> do {
         c \<leftarrow> k_procs K child;
         (err, ht) \<leftarrow> idtb_request_id (ke_mem E) (ke_junk E) (pr_handle_table c) hid;
         (err, hs_copy, K) \<leftarrow>
           (if err = FOS_E_SUCCESS then do {
              ht \<leftarrow> idtb_set ht hid None;
              Some (ke_hs_copy E (set_proc child (c\<lparr>pr_handle_table := ht\<rparr>) K) h child) }
            else Some (err, 0, set_proc child (c\<lparr>pr_handle_table := ht\<rparr>) K));
         if err \<noteq> FOS_E_SUCCESS then
           (if err = FOS_E_ABORT_SYSTEM then Some (FOS_E_ABORT_SYSTEM, K)
            else do {
              (derr, K) \<leftarrow> delete_process E K (Some child);
              Some (if derr \<noteq> FOS_E_SUCCESS then FOS_E_ABORT_SYSTEM else err, K) })
         else do {
           c \<leftarrow> k_procs K child;
           ht \<leftarrow> idtb_set (pr_handle_table c) hid (Some hs_copy);
           fork_handles_loop E n (hid + 1) (set_proc child (c\<lparr>pr_handle_table := ht\<rparr>) K) proc child } } }"

text \<open>The error, what \<^verbatim>\<open>*out\<close> holds afterwards (\<open>old\<close> unless the call succeeds), and the kernel.\<close>

definition new_process_fork ::
  "'m kenv \<Rightarrow> 'm kernel \<Rightarrow> addr option \<Rightarrow> addr option \<Rightarrow> nat \<Rightarrow> addr option
   \<Rightarrow> (fernos_error \<times> addr option \<times> 'm kernel) option"
where
  "new_process_fork E K proc thr cpid old =
     (case (proc, thr) of
        (Some p, Some a) \<Rightarrow> do {
          r \<leftarrow> k_procs K p;
          t \<leftarrow> k_threads K a;
          if th_proc t \<noteq> p then Some (FOS_E_BAD_ARGS, old, K)
          else do {
            let (new_pd, mem) = ke_copy_pd E (k_mem K) (pr_pd r);
            let K = K\<lparr>k_mem := mem\<rparr>;
            if new_pd = NULL_PHYS_ADDR then Some (FOS_E_NO_MEM, old, K)
            else do {
              K \<leftarrow> fork_stacks_loop E (fc_max_threads E) 0 K (pr_thread_table r) (th_tid t) new_pd;
              (child, K) \<leftarrow> new_process E K cpid new_pd (Some p);
              case child of
                None \<Rightarrow> Some (FOS_E_NO_MEM, old, K\<lparr>k_mem := ke_delete_pd E (k_mem K) new_pd\<rparr>)
              | Some ch \<Rightarrow> do {
                  c \<leftarrow> k_procs K ch;
                  (err, tt) \<leftarrow> idtb_request_id (ke_mem E) (ke_junk E) (pr_thread_table c) (th_tid t);
                  (main_thr, K) \<leftarrow>
                    (if err = FOS_E_SUCCESS then do {
                       tt \<leftarrow> idtb_set tt (th_tid t) None;
                       new_thread_copy E (set_proc ch (c\<lparr>pr_thread_table := tt\<rparr>) K) (Some a) (Some ch) }
                     else Some (None, set_proc ch (c\<lparr>pr_thread_table := tt\<rparr>) K));
                  case main_thr of
                    None \<Rightarrow> do {
                      (derr, K) \<leftarrow> delete_process E K (Some ch);
                      Some (if derr \<noteq> FOS_E_SUCCESS then FOS_E_ABORT_SYSTEM else FOS_E_NO_MEM, old, K) }
                  | Some m \<Rightarrow> do {
                      mt \<leftarrow> k_threads K m;
                      c \<leftarrow> k_procs K ch;
                      tt \<leftarrow> idtb_set (pr_thread_table c) (th_tid mt) (Some m);
                      let K = set_proc ch (c\<lparr>pr_thread_table := tt, pr_main_thread := Some m,
                        pr_in_handle := pr_in_handle r, pr_out_handle := pr_out_handle r\<rparr>) K;
                      (err, K) \<leftarrow> fork_handles_loop E (fc_max_handles E) 0 K p ch;
                      Some (err, if err = FOS_E_SUCCESS then Some ch else old, K) } } } } }
      | _ \<Rightarrow> Some (FOS_E_BAD_ARGS, old, K))"

text \<open>The loops of \<^verbatim>\<open>proc_exec\<close>.\<close>

fun exec_threads_loop :: "nat \<Rightarrow> nat \<Rightarrow> 'm kernel \<Rightarrow> addr \<Rightarrow> addr \<Rightarrow> 'm kernel option" where
  "exec_threads_loop 0 tid K p main_thr = Some K"
| "exec_threads_loop (Suc n) tid K p main_thr = do {
     r \<leftarrow> k_procs K p;
     thr \<leftarrow> idtb_get (pr_thread_table r) tid;
     K \<leftarrow> (if thr \<noteq> None \<and> thr \<noteq> Some main_thr then do {
             K \<leftarrow> delete_thread K thr;
             r \<leftarrow> k_procs K p;
             tt \<leftarrow> idtb_push_id (pr_thread_table r) tid;
             Some (set_proc p (r\<lparr>pr_thread_table := tt\<rparr>) K) }
           else Some K);
     exec_threads_loop n (tid + 1) K p main_thr }"

fun exec_handles_loop ::
  "'m kenv \<Rightarrow> nat \<Rightarrow> nat \<Rightarrow> 'm kernel \<Rightarrow> addr \<Rightarrow> (fernos_error \<times> 'm kernel) option"
where
  "exec_handles_loop E 0 h K p = Some (FOS_E_SUCCESS, K)"
| "exec_handles_loop E (Suc n) h K p = do {
     r \<leftarrow> k_procs K p;
     hs \<leftarrow> idtb_get (pr_handle_table r) h;
     if hs \<noteq> None \<and> h \<noteq> pr_in_handle r \<and> h \<noteq> pr_out_handle r then do {
       let (err, K) = delete_handle_state E K hs;
       if err \<noteq> FOS_E_SUCCESS then Some (FOS_E_ABORT_SYSTEM, K)
       else do {
         r \<leftarrow> k_procs K p;
         ht \<leftarrow> idtb_push_id (pr_handle_table r) h;
         exec_handles_loop E n (h + 1) (set_proc p (r\<lparr>pr_handle_table := ht\<rparr>) K) p } }
     else exec_handles_loop E n (h + 1) K p }"

definition proc_exec ::
  "'m kenv \<Rightarrow> 'm kernel \<Rightarrow> addr \<Rightarrow> 32 word \<Rightarrow> 32 word \<Rightarrow> 32 word \<Rightarrow> 32 word \<Rightarrow> 32 word
   \<Rightarrow> (fernos_error \<times> 'm kernel) option"
where
  "proc_exec E K p new_pd entry arg0 arg1 arg2 =
     (if new_pd = NULL_PHYS_ADDR \<or> entry = 0 then Some (FOS_E_BAD_ARGS, K)
      else do {
        r \<leftarrow> k_procs K p;
        case pr_main_thread r of
          None \<Rightarrow> Some (FOS_E_STATE_MISMATCH, K)
        | Some m \<Rightarrow> do {
            let K = K\<lparr>k_mem := ke_delete_pd E (k_mem K) (pr_pd r)\<rparr>;
            K \<leftarrow> upd_proc K p (\<lambda>r. r\<lparr>pr_pd := new_pd\<rparr>);
            K \<leftarrow> exec_threads_loop (fc_max_threads E) 0 K p m;
            K \<leftarrow> thread_reset E K m entry arg0 arg1 arg2;
            K \<leftarrow> upd_thread K m (\<lambda>t. t\<lparr>th_stack_base := tstack_end E (th_tid t)\<rparr>);
            K \<leftarrow> upd_proc K p (\<lambda>r. r\<lparr>pr_sig_vec := 0, pr_sig_allow := 0\<rparr>);
            exec_handles_loop E (fc_max_handles E) 0 K p } })"

definition proc_new_thread ::
  "'m kenv \<Rightarrow> 'm kernel \<Rightarrow> addr option \<Rightarrow> 32 word \<Rightarrow> 32 word \<Rightarrow> 32 word \<Rightarrow> 32 word
   \<Rightarrow> (addr option \<times> 'm kernel) option"
where
  "proc_new_thread E K proc entry arg0 arg1 arg2 =
     (case proc of
        None \<Rightarrow> Some (None, K)
      | Some p \<Rightarrow>
          if entry = 0 then Some (None, K)
          else do {
            r \<leftarrow> k_procs K p;
            (tid, tt) \<leftarrow> idtb_pop_id (ke_mem E) (ke_junk E) (pr_thread_table r);
            let K = set_proc p (r\<lparr>pr_thread_table := tt\<rparr>) K;
            if tid = idtb_null_id (pr_thread_table r) then Some (None, K)
            else do {
              (new_thr, K) \<leftarrow> new_thread E K (Some p) tid entry arg0 arg1 arg2;
              r \<leftarrow> k_procs K p;
              case new_thr of
                None \<Rightarrow> do {
                  tt \<leftarrow> idtb_push_id (pr_thread_table r) tid;
                  Some (None, set_proc p (r\<lparr>pr_thread_table := tt\<rparr>) K) }
              | Some a \<Rightarrow> do {
                  tt \<leftarrow> idtb_set (pr_thread_table r) tid (Some a);
                  Some (Some a, set_proc p (r\<lparr>pr_thread_table := tt,
                    pr_main_thread := (if pr_main_thread r = None then Some a else pr_main_thread r)\<rparr>) K) } } })"

definition proc_delete_thread ::
  "'m kenv \<Rightarrow> 'm kernel \<Rightarrow> addr option \<Rightarrow> addr option \<Rightarrow> bool \<Rightarrow> 'm kernel option"
where
  "proc_delete_thread E K proc thr return_stack =
     (case (proc, thr) of
        (Some p, Some a) \<Rightarrow> do {
          t \<leftarrow> k_threads K a;
          if th_proc t \<noteq> p then Some K
          else do {
            r \<leftarrow> k_procs K p;
            let K = (if return_stack
              then K\<lparr>k_mem := ke_free_pages E (k_mem K) (pr_pd r) (th_stack_base t) (tstack_end E (th_tid t))\<rparr>
              else K);
            K \<leftarrow> delete_thread K (Some a);
            r \<leftarrow> k_procs K p;
            tt \<leftarrow> idtb_push_id (pr_thread_table r) (th_tid t);
            Some (set_proc p (r\<lparr>pr_thread_table := tt\<rparr>) K) } }
      | _ \<Rightarrow> Some K)"

end
