(* ===== verification/Kernel_State.thy ===== *)
theory Kernel_State
  imports Processes
begin

text \<open>
  The kernel state and its system calls (\<^verbatim>\<open>k_startup/src/state.c\<close>), with the plugin loops of
  \<^verbatim>\<open>k_startup/src/plugin.c\<close>.  A call either returns an error code to its caller in the kernel or
  halts the machine (\<^verbatim>\<open>lock_up\<close> never returns).
\<close>

datatype kresult = Returns fernos_error | Halted

definition FSIG_CHLD :: nat where "FSIG_CHLD = 0"
definition PROC_ES_SIGNAL :: "32 word" where "PROC_ES_SIGNAL = 5"

text \<open>The running thread is the head of the schedule.\<close>

definition ks_head :: "'m kernel \<Rightarrow> addr option option" where
  "ks_head K = map_option r_head (rings (k_rings K) (k_schedule K))"

definition set_eax :: "'m kernel \<Rightarrow> addr \<Rightarrow> 32 word \<Rightarrow> 'm kernel option" where
  "set_eax K a v = upd_thread K a (\<lambda>t. t\<lparr>th_ctx := (th_ctx t)\<lparr>c_eax := v\<rparr>\<rparr>)"

text \<open>\<^verbatim>\<open>DUAL_RET\<close>: one value for the user thread, one for the kernel.\<close>

definition dual_ret :: "'m kernel \<Rightarrow> addr \<Rightarrow> 32 word \<Rightarrow> fernos_error \<Rightarrow> (kresult \<times> 'm kernel) option" where
  "dual_ret K thr u_err k_err = do { K \<leftarrow> set_eax K thr u_err; Some (Returns k_err, K) }"

text \<open>\<^verbatim>\<open>mem_cpy_to_user\<close> with its result ignored.\<close>

definition to_user :: "'m kenv \<Rightarrow> 'm kernel \<Rightarrow> 32 word \<Rightarrow> 32 word \<Rightarrow> 32 word list \<Rightarrow> 'm kernel" where
  "to_user E K pd dest ws = K\<lparr>k_mem := snd (ke_to_user E (k_mem K) pd dest ws)\<rparr>"

definition to_user_opt :: "'m kenv \<Rightarrow> 'm kernel \<Rightarrow> 32 word \<Rightarrow> 32 word \<Rightarrow> 32 word list \<Rightarrow> 'm kernel" where
  "to_user_opt E K pd dest ws = (if dest = 0 then K else to_user E K pd dest ws)"

section \<open>Creation, plugins, contexts\<close>

text \<open>
  The kernel state with an empty schedule; \<open>ks\<close> is the answer of the allocator for the structure,
  whose address is also that of the schedule ring.  On failure nothing is kept.
\<close>

definition new_kernel_state :: "'m kenv \<Rightarrow> addr option \<Rightarrow> nat \<Rightarrow> 'm \<Rightarrow> 'm kernel option option" where
  "new_kernel_state E ks max_plugins mem = do {
     let al = ke_al E;
     pt \<leftarrow> new_id_table True (ke_mem E) (ke_junk E) (ie_next (ke_junk E)) (fc_max_procs E);
     let qa = al {};
     let twq = new_timed_wait_queue (qa \<noteq> None) (new_linked_list (Some al) 8) (new_linked_list (Some al) 4);
     Some (case (ks, pt, qa, twq) of
         (Some k, Some pt, Some q, Some tq) \<Rightarrow>
           Some \<lparr>k_rings = init_ring \<lparr>rings = Map.empty, relems = Map.empty\<rparr> k, k_threads = Map.empty,
             k_wqs = [q \<mapsto> WQ_timed tq], k_procs = Map.empty, k_handles = Map.empty, k_schedule = k,
             k_proc_table = pt, k_root_proc = None, k_curr_tick = 0, k_sleep_q = q,
             k_plugins = replicate max_plugins None, k_mem = mem\<rparr>
       | _ \<Rightarrow> None) }"

definition ks_set_plugin :: "'m kernel \<Rightarrow> nat \<Rightarrow> addr option \<Rightarrow> fernos_error \<times> 'm kernel" where
  "ks_set_plugin K plg_id plg =
     (if length (k_plugins K) \<le> plg_id then (FOS_E_INVALID_INDEX, K)
      else if k_plugins K ! plg_id \<noteq> None then (FOS_E_IN_USE, K)
      else (FOS_E_SUCCESS, K\<lparr>k_plugins := (k_plugins K)[plg_id := plg]\<rparr>))"

definition ks_kernel_cmd ::
  "'m kenv \<Rightarrow> 'm kernel \<Rightarrow> nat \<Rightarrow> 32 word \<Rightarrow> 32 word \<Rightarrow> 32 word \<Rightarrow> 32 word \<Rightarrow> 32 word \<Rightarrow> (kresult \<times> 'm kernel) option"
where
  "ks_kernel_cmd E K plg_id kcmd arg0 arg1 arg2 arg3 = do {
     plg \<leftarrow> arr_get (k_plugins K) plg_id;
     Some (case plg of
         None \<Rightarrow> (Returns FOS_E_INVALID_INDEX, K)
       | Some p \<Rightarrow>
           (case ke_plg E K p (PLG_KERNEL_CMD kcmd arg0 arg1 arg2 arg3) of
              None \<Rightarrow> (Returns FOS_E_INVALID_INDEX, K)
            | Some (err, K) \<Rightarrow> (if err = FOS_E_ABORT_SYSTEM then Halted else Returns err, K))) }"

text \<open>
  The loops of \<^verbatim>\<open>plgs_tick\<close>, \<^verbatim>\<open>plgs_on_fork_proc\<close>, \<^verbatim>\<open>plgs_on_reset_proc\<close> and
  \<^verbatim>\<open>plgs_on_reap_proc\<close> differ in the call they make; a plugin without the hook counts as success.
\<close>

fun plgs_loop :: "'m kenv \<Rightarrow> nat \<Rightarrow> nat \<Rightarrow> plg_call \<Rightarrow> 'm kernel \<Rightarrow> (fernos_error \<times> 'm kernel) option" where
  "plgs_loop E 0 i c K = Some (FOS_E_SUCCESS, K)"
| "plgs_loop E (Suc n) i c K = do {
     plg \<leftarrow> arr_get (k_plugins K) i;
     case plg of
       None \<Rightarrow> plgs_loop E n (i + 1) c K
     | Some p \<Rightarrow> do {
         let (err, K) = (case ke_plg E K p c of None \<Rightarrow> (FOS_E_SUCCESS, K) | Some r \<Rightarrow> r);
         if err \<noteq> FOS_E_SUCCESS then Some (err, K) else plgs_loop E n (i + 1) c K } }"

definition plgs_tick :: "'m kenv \<Rightarrow> 'm kernel \<Rightarrow> (fernos_error \<times> 'm kernel) option" where
  "plgs_tick E K = plgs_loop E (length (k_plugins K)) 0 PLG_TICK K"

definition plgs_on_fork_proc :: "'m kenv \<Rightarrow> 'm kernel \<Rightarrow> nat \<Rightarrow> (fernos_error \<times> 'm kernel) option" where
  "plgs_on_fork_proc E K cpid = plgs_loop E (length (k_plugins K)) 0 (PLG_ON_FORK_PROC cpid) K"

definition plgs_on_reset_proc :: "'m kenv \<Rightarrow> 'm kernel \<Rightarrow> nat \<Rightarrow> (fernos_error \<times> 'm kernel) option" where
  "plgs_on_reset_proc E K pid = plgs_loop E (length (k_plugins K)) 0 (PLG_ON_RESET_PROC pid) K"

definition plgs_on_reap_proc :: "'m kenv \<Rightarrow> 'm kernel \<Rightarrow> nat \<Rightarrow> (fernos_error \<times> 'm kernel) option" where
  "plgs_on_reap_proc E K rpid = plgs_loop E (length (k_plugins K)) 0 (PLG_ON_REAP_PROC rpid) K"

definition ks_save_ctx :: "'m kernel \<Rightarrow> user_ctx \<Rightarrow> 'm kernel option" where
  "ks_save_ctx K ctx = do {
     head \<leftarrow> ks_head K;
     case head of None \<Rightarrow> Some K | Some a \<Rightarrow> upd_thread K a (\<lambda>t. t\<lparr>th_ctx := ctx\<rparr>) }"

definition ks_expand_stack :: "'m kenv \<Rightarrow> 'm kernel \<Rightarrow> 32 word \<Rightarrow> (fernos_error \<times> 'm kernel) option" where
  "ks_expand_stack E K new_base = do {
     head \<leftarrow> ks_head K;
     case head of
       None \<Rightarrow> Some (FOS_E_STATE_MISMATCH, K)
     | Some a \<Rightarrow>
         if new_base AND 0xFFF \<noteq> 0 then Some (FOS_E_ALIGN_ERROR, K)
         else do {
           t \<leftarrow> k_threads K a;
           if new_base < tstack_start E (th_tid t) + 0x1000 \<or> tstack_end E (th_tid t) \<le> new_base
           then Some (FOS_E_INVALID_INDEX, K)
           else if th_stack_base t \<le> new_base then Some (FOS_E_SUCCESS, K)
           else do {
             p \<leftarrow> k_procs K (th_proc t);
             let (err, true_e, mem) = ke_alloc_pages E (k_mem K) (pr_pd p) new_base (th_stack_base t);
             let K = K\<lparr>k_mem := mem\<rparr>;
             if err \<noteq> FOS_E_SUCCESS \<and> err \<noteq> FOS_E_ALREADY_ALLOCATED then Some (err, K)
             else Some (FOS_E_SUCCESS, set_thread a (t\<lparr>th_stack_base := new_base\<rparr>) K) } } }"

section \<open>The timer\<close>

definition timed_queue :: "wait_queue \<Rightarrow> (addr twq_wait_pair linked_list, addr linked_list) twq option" where
  "timed_queue w = (case w of WQ_timed q \<Rightarrow> Some q | _ \<Rightarrow> None)"

partial_function (option) tick_wake_loop ::
  "'m kernel \<Rightarrow> addr option \<Rightarrow> (fernos_error \<times> 'm kernel) option"
where
  "tick_wake_loop K woken_thread = do {
     w \<leftarrow> k_wqs K (k_sleep_q K);
     q \<leftarrow> timed_queue w;
     (err, woken_thread, q) \<leftarrow> twq_pop LL_IMPL q woken_thread;
     let K = set_wq (k_sleep_q K) (WQ_timed q) K;
     if err \<noteq> FOS_E_SUCCESS then Some (err, K)
     else do {
       a \<leftarrow> woken_thread;
       t \<leftarrow> k_threads K a;
       K \<leftarrow> thread_schedule (set_thread a (t\<lparr>th_wq := None, th_state := THREAD_STATE_DETATCHED\<rparr>) K) a (k_schedule K);
       tick_wake_loop K woken_thread } }"

definition ks_tick :: "'m kenv \<Rightarrow> 'm kernel \<Rightarrow> (fernos_error \<times> 'm kernel) option" where
  "ks_tick E K = do {
     head \<leftarrow> ks_head K;
     let K = K\<lparr>k_curr_tick := k_curr_tick K + 1\<rparr>;
     w \<leftarrow> k_wqs K (k_sleep_q K);
     q \<leftarrow> timed_queue w;
     (_, q) \<leftarrow> twq_notify LL_IMPL LL_IMPL (ke_al E) q (k_curr_tick K);
     (err, K) \<leftarrow> tick_wake_loop (set_wq (k_sleep_q K) (WQ_timed q) K) None;
     if err \<noteq> FOS_E_EMPTY then Some (err, K)
     else do {
       K \<leftarrow> (if head \<noteq> None then do {
               rs \<leftarrow> ring_advance (k_rings K) (k_schedule K);
               Some (K\<lparr>k_rings := rs\<rparr>) }
             else Some K);
       if k_curr_tick K AND 0xF = 0 then plgs_tick E K else Some (FOS_E_SUCCESS, K) } }"

section \<open>Signals and process exit\<close>

definition vector_queue ::
  "wait_queue \<Rightarrow> (addr vwq_wait_pair linked_list, addr vwq_ready_pair linked_list) vwq option" where
  "vector_queue w = (case w of WQ_vector q \<Rightarrow> Some q | _ \<Rightarrow> None)"

text \<open>Giving the children in a list a new parent.\<close>

partial_function (option) adopt_loop ::
  "'m kernel \<Rightarrow> addr linked_list \<Rightarrow> addr option \<Rightarrow> addr option \<Rightarrow> ('m kernel \<times> addr linked_list) option"
where
  "adopt_loop K l iter parent =
     (case iter of
        None \<Rightarrow> Some (K, l)
      | Some c \<Rightarrow> do {
          K \<leftarrow> upd_proc K c (\<lambda>r. r\<lparr>pr_parent := parent\<rparr>);
          (iter, l) \<leftarrow> li_next_iter LL_IMPL l;
          adopt_loop K l iter parent })"

text \<open>
  \<^verbatim>\<open>ks_signal_p\<close>, \<^verbatim>\<open>ks_abandon_children\<close> and \<^verbatim>\<open>ks_exit_proc_p\<close> call each other; the first
  two are written over the exit function \<open>ex\<close> and tied to it below.
\<close>

definition ks_signal_with ::
  "('m kernel \<Rightarrow> addr \<Rightarrow> 32 word \<Rightarrow> (kresult \<times> 'm kernel) option) \<Rightarrow> 'm kenv \<Rightarrow> 'm kernel \<Rightarrow> addr option \<Rightarrow> nat
   \<Rightarrow> (kresult \<times> 'm kernel) option"
where
  "ks_signal_with ex E K proc sid =
     (case proc of
        None \<Rightarrow> Some (Returns FOS_E_BAD_ARGS, K)
      | Some p \<Rightarrow>
        if 32 \<le> sid then Some (Returns FOS_E_BAD_ARGS, K)
        else do {
          r \<leftarrow> k_procs K p;
          if bit (pr_sig_vec r) sid then Some (Returns FOS_E_SUCCESS, K)
          else do {
            let r = r\<lparr>pr_sig_vec := set_bit sid (pr_sig_vec r)\<rparr>;
            let K = set_proc p r K;
            if \<not> bit (pr_sig_allow r) sid then ex K p PROC_ES_SIGNAL
            else do {
              w \<leftarrow> k_wqs K (pr_signal_queue r);
              q \<leftarrow> vector_queue w;
              (err, q) \<leftarrow> vwq_notify LL_IMPL LL_IMPL (ke_al E) q sid VWQ_NOTIFY_FIRST;
              let K = set_wq (pr_signal_queue r) (WQ_vector q) K;
              if err \<noteq> FOS_E_SUCCESS then Some (Returns err, K)
              else do {
                (err, woken_thread, _, q) \<leftarrow> vwq_pop LL_IMPL q;
                let K = set_wq (pr_signal_queue r) (WQ_vector q) K;
                if err = FOS_E_SUCCESS then do {
                  a \<leftarrow> woken_thread;
                  let K = set_proc p (r\<lparr>pr_sig_vec := unset_bit sid (pr_sig_vec r)\<rparr>) K;
                  t \<leftarrow> k_threads K a;
                  u_sid \<leftarrow> arr_get (th_wait_ctx t) 0;
                  K \<leftarrow> thread_schedule (set_thread a (t\<lparr>th_wait_ctx := (th_wait_ctx t)[0 := 0], th_wq := None,
                    th_state := THREAD_STATE_DETATCHED\<rparr>) K) a (k_schedule K);
                  wp \<leftarrow> k_procs K (th_proc t);
                  let K = to_user_opt E K (pr_pd wp) u_sid [of_nat sid];
                  K \<leftarrow> set_eax K a (err_word FOS_E_SUCCESS);
                  Some (Returns FOS_E_SUCCESS, K) }
                else if err \<noteq> FOS_E_EMPTY then Some (Returns err, K)
                else Some (Returns FOS_E_SUCCESS, K) } } } })"

text \<open>One list of children handed to the root process; \<open>get\<close> and \<open>upd\<close> say which list it is.\<close>

definition ks_adopt_list ::
  "'m kenv \<Rightarrow> 'm kernel \<Rightarrow> addr \<Rightarrow> (process \<Rightarrow> addr linked_list) \<Rightarrow> (addr linked_list \<Rightarrow> process \<Rightarrow> process)
   \<Rightarrow> (fernos_error \<times> 'm kernel) option"
where
  "ks_adopt_list E K p get upd = do {
     r \<leftarrow> k_procs K p;
     let l = li_reset_iter LL_IMPL (get r);
     iter \<leftarrow> li_get_iter LL_IMPL l;
     (K, l) \<leftarrow> adopt_loop K l iter (k_root_proc K);
     root \<leftarrow> k_root_proc K;
     rr \<leftarrow> k_procs K root;
     (err, rl, l) \<leftarrow> l_push_back_all LL_IMPL (ke_al E) (get rr) (Some l);
     l \<leftarrow> l;
     K \<leftarrow> upd_proc K root (upd rl);
     K \<leftarrow> upd_proc K p (upd l);
     Some (err, K) }"

definition ks_abandon_with ::
  "('m kernel \<Rightarrow> addr \<Rightarrow> 32 word \<Rightarrow> (kresult \<times> 'm kernel) option) \<Rightarrow> 'm kenv \<Rightarrow> 'm kernel \<Rightarrow> addr option
   \<Rightarrow> (kresult \<times> 'm kernel) option"
where
  "ks_abandon_with ex E K proc =
     (case proc of
        None \<Rightarrow> Some (Returns FOS_E_BAD_ARGS, K)
      | Some p \<Rightarrow> do {
          r \<leftarrow> k_procs K p;
          if k_root_proc K = Some p then
            (if 0 < li_get_len LL_IMPL (pr_children r) \<or> 0 < li_get_len LL_IMPL (pr_zombie_children r)
             then Some (Returns FOS_E_NOT_PERMITTED, K) else Some (Returns FOS_E_SUCCESS, K))
          else do {
            let signal_root = (0 < li_get_len LL_IMPL (pr_zombie_children r));
            (err, K) \<leftarrow> ks_adopt_list E K p pr_children (\<lambda>l r. r\<lparr>pr_children := l\<rparr>);
            if err \<noteq> FOS_E_SUCCESS then Some (Returns FOS_E_UNKNWON_ERROR, K)
            else do {
              (err, K) \<leftarrow> ks_adopt_list E K p pr_zombie_children (\<lambda>l r. r\<lparr>pr_zombie_children := l\<rparr>);
              if err \<noteq> FOS_E_SUCCESS then Some (Returns FOS_E_UNKNWON_ERROR, K)
              else if signal_root then do {
                (res, K) \<leftarrow> ks_signal_with ex E K (k_root_proc K) FSIG_CHLD;
                Some (case res of Returns err \<Rightarrow>
                    Returns (if err \<noteq> FOS_E_SUCCESS then FOS_E_UNKNWON_ERROR else FOS_E_SUCCESS)
                  | Halted \<Rightarrow> Halted, K) }
              else Some (Returns FOS_E_SUCCESS, K) } } })"

text \<open>The loop of \<^verbatim>\<open>ks_exit_proc_p\<close> over the threads of the process.\<close>

partial_function (option) exit_threads_loop :: "'m kernel \<Rightarrow> addr \<Rightarrow> nat \<Rightarrow> 'm kernel option" where
  "exit_threads_loop K p tid = do {
     r \<leftarrow> k_procs K p;
     if tid = idtb_null_id (pr_thread_table r) then Some K
     else do {
       worker \<leftarrow> idtb_get (pr_thread_table r) tid;
       a \<leftarrow> worker;
       K \<leftarrow> thread_detach K a;
       r \<leftarrow> k_procs K p;
       (tid', tt) \<leftarrow> idtb_next (pr_thread_table r);
       exit_threads_loop (set_proc p (r\<lparr>pr_thread_table := tt\<rparr>) K) p tid' } }"

text \<open>The two calls pass the exit function on monotonically, as the definition of the recursion needs.\<close>

lemma ks_signal_with_mono [partial_function_mono]:
  assumes "\<And>K p st. mono_option (\<lambda>f. ex f K p st)"
  shows "mono_option (\<lambda>f. ks_signal_with (ex f) E K proc sid)"
  unfolding ks_signal_with_def Let_def using assms
  by (cases proc) (auto intro!: partial_function_mono split del: if_split)

lemma ks_abandon_with_mono [partial_function_mono]:
  assumes "\<And>K p st. mono_option (\<lambda>f. ex f K p st)"
  shows "mono_option (\<lambda>f. ks_abandon_with (ex f) E K proc)"
  unfolding ks_abandon_with_def Let_def using assms
  by (cases proc) (auto intro!: partial_function_mono split del: if_split)

partial_function (option) ks_exit_proc_p ::
  "'m kenv \<Rightarrow> 'm kernel \<Rightarrow> addr \<Rightarrow> 32 word \<Rightarrow> (kresult \<times> 'm kernel) option"
where
  "ks_exit_proc_p E K p status =
     (if k_root_proc K = Some p then Some (Halted, K)
      else do {
        r \<leftarrow> k_procs K p;
        let tt = idtb_reset_iterator (pr_thread_table r);
        K \<leftarrow> exit_threads_loop (set_proc p (r\<lparr>pr_thread_table := tt\<rparr>) K) p (idtb_get_iter tt);
        (res, K) \<leftarrow> ks_abandon_with (ks_exit_proc_p E) E K (Some p);
        if res \<noteq> Returns FOS_E_SUCCESS then Some (res, K)
        else do {
          r \<leftarrow> k_procs K p;
          parent \<leftarrow> pr_parent r;
          pr \<leftarrow> k_procs K parent;
          (found, cs) \<leftarrow> l_pop_ele LL_IMPL (pr_children pr) (Some p) (Some (\<lambda>a b. a = b)) False;
          let K = set_proc parent (pr\<lparr>pr_children := cs\<rparr>) K;
          if \<not> found then Some (Returns FOS_E_STATE_MISMATCH, K)
          else do {
            K \<leftarrow> upd_proc K p (\<lambda>r. r\<lparr>pr_exited := True, pr_exit_status := status\<rparr>);
            pr \<leftarrow> k_procs K parent;
            (err, zs) \<leftarrow> l_push_back LL_IMPL (ke_al E) (pr_zombie_children pr) (Some p);
            let K = set_proc parent (pr\<lparr>pr_zombie_children := zs\<rparr>) K;
            if err \<noteq> FOS_E_SUCCESS then Some (Returns err, K)
            else do {
              (res, K) \<leftarrow> ks_signal_with (ks_exit_proc_p E) E K (Some parent) FSIG_CHLD;
              if res \<noteq> Returns FOS_E_SUCCESS then Some (res, K) else Some (Returns FOS_E_SUCCESS, K) } } } })"

definition ks_signal_p :: "'m kenv \<Rightarrow> 'm kernel \<Rightarrow> addr option \<Rightarrow> nat \<Rightarrow> (kresult \<times> 'm kernel) option" where
  "ks_signal_p E = ks_signal_with (ks_exit_proc_p E) E"

definition ks_abandon_children :: "'m kenv \<Rightarrow> 'm kernel \<Rightarrow> addr option \<Rightarrow> (kresult \<times> 'm kernel) option" where
  "ks_abandon_children E = ks_abandon_with (ks_exit_proc_p E) E"

end
