(* ===== verification/Syscalls.thy ===== *)
theory Syscalls
  imports Kernel_State
begin

text \<open>
  The system calls of \<^verbatim>\<open>k_startup/src/state.c\<close>, each acting for the thread at the head of the
  schedule, and their dispatch in \<^verbatim>\<open>k_startup/src/action.c\<close>.
\<close>

text \<open>All of them begin by asking for the current thread.\<close>

definition with_current ::
  "'m kernel \<Rightarrow> (addr \<Rightarrow> thread \<Rightarrow> (kresult \<times> 'm kernel) option) \<Rightarrow> (kresult \<times> 'm kernel) option"
where
  "with_current K f = do {
     head \<leftarrow> ks_head K;
     case head of
       None \<Rightarrow> Some (Returns FOS_E_STATE_MISMATCH, K)
     | Some thr \<Rightarrow> do { t \<leftarrow> k_threads K thr; f thr t } }"

section \<open>Processes\<close>

definition ks_fork_proc :: "'m kenv \<Rightarrow> 'm kernel \<Rightarrow> 32 word \<Rightarrow> (kresult \<times> 'm kernel) option" where
  "ks_fork_proc E K u_cpid = with_current K (\<lambda>thr t. do {
     let proc = th_proc t;
     (cpid, pt) \<leftarrow> idtb_pop_id (ke_mem E) (ke_junk E) (k_proc_table K);
     let K = K\<lparr>k_proc_table := pt\<rparr>;
     (err, child, K) \<leftarrow> (if cpid \<noteq> idtb_null_id pt then new_process_fork E K (Some proc) (Some thr) cpid None
       else Some (FOS_E_UNKNWON_ERROR, None, K));
     if err = FOS_E_ABORT_SYSTEM then Some (Returns FOS_E_ABORT_SYSTEM, K)
     else do {
       (err, K) \<leftarrow> (if err = FOS_E_SUCCESS then do {
           r \<leftarrow> k_procs K proc;
           (err, cs) \<leftarrow> l_push_back LL_IMPL (ke_al E) (pr_children r) child;
           Some (err, set_proc proc (r\<lparr>pr_children := cs\<rparr>) K) }
         else Some (err, K));
       if cpid = idtb_null_id pt \<or> err \<noteq> FOS_E_SUCCESS then do {
         pt \<leftarrow> idtb_push_id (k_proc_table K) cpid;
         (derr, K) \<leftarrow> delete_process E (K\<lparr>k_proc_table := pt\<rparr>) child;
         if derr \<noteq> FOS_E_SUCCESS then Some (Returns FOS_E_ABORT_SYSTEM, K)
         else do {
           r \<leftarrow> k_procs K proc;
           let K = to_user_opt E K (pr_pd r) u_cpid [of_nat (fc_max_procs E)];
           dual_ret K thr (err_word FOS_E_NO_MEM) FOS_E_SUCCESS } }
       else do {
         ch \<leftarrow> child;
         pt \<leftarrow> idtb_set (k_proc_table K) cpid (Some ch);
         let K = K\<lparr>k_proc_table := pt\<rparr>;
         c \<leftarrow> k_procs K ch;
         m \<leftarrow> pr_main_thread c;
         K \<leftarrow> set_eax K m (err_word FOS_E_SUCCESS);
         K \<leftarrow> thread_schedule K m (k_schedule K);
         (err, K) \<leftarrow> plgs_on_fork_proc E K cpid;
         if err \<noteq> FOS_E_SUCCESS then Some (Returns err, K)
         else do {
           r \<leftarrow> k_procs K proc;
           c \<leftarrow> k_procs K ch;
           let K = to_user_opt E K (pr_pd r) u_cpid [of_nat cpid];
           let K = to_user_opt E K (pr_pd c) u_cpid [of_nat (fc_max_procs E)];
           dual_ret K thr (err_word FOS_E_SUCCESS) FOS_E_SUCCESS } } } })"

definition ks_exit_proc :: "'m kenv \<Rightarrow> 'm kernel \<Rightarrow> 32 word \<Rightarrow> (kresult \<times> 'm kernel) option" where
  "ks_exit_proc E K status = with_current K (\<lambda>thr t. ks_exit_proc_p E K (th_proc t) status)"

text \<open>
  The part of \<^verbatim>\<open>ks_reap_proc\<close> that chooses the zombie: the error for the kernel, the error for the
  user, the chosen process.
\<close>

definition reap_choose ::
  "'m kenv \<Rightarrow> 'm kernel \<Rightarrow> addr \<Rightarrow> nat \<Rightarrow> (fernos_error \<times> fernos_error \<times> addr option \<times> 'm kernel) option"
where
  "reap_choose E K proc cpid = do {
     r \<leftarrow> k_procs K proc;
     if cpid = fc_max_procs E then
       (if 0 < li_get_len LL_IMPL (pr_zombie_children r) then do {
          (err, rproc, zs) \<leftarrow> l_pop_front LL_IMPL (pr_zombie_children r);
          Some (err, FOS_E_SUCCESS, rproc, set_proc proc (r\<lparr>pr_zombie_children := zs\<rparr>) K) }
        else Some (FOS_E_SUCCESS, FOS_E_EMPTY, None, K))
     else do {
       rproc \<leftarrow> idtb_get (k_proc_table K) cpid;
       case rproc of
         None \<Rightarrow> Some (FOS_E_SUCCESS, FOS_E_STATE_MISMATCH, None, K)
       | Some c \<Rightarrow> do {
           cr \<leftarrow> k_procs K c;
           if pr_parent cr \<noteq> Some proc then Some (FOS_E_SUCCESS, FOS_E_STATE_MISMATCH, Some c, K)
           else if \<not> pr_exited cr then Some (FOS_E_SUCCESS, FOS_E_EMPTY, Some c, K)
           else do {
             (removed, zs) \<leftarrow> l_pop_ele LL_IMPL (pr_zombie_children r) (Some c) (Some (\<lambda>a b. a = b)) False;
             let K = set_proc proc (r\<lparr>pr_zombie_children := zs\<rparr>) K;
             if \<not> removed then Some (FOS_E_STATE_MISMATCH, FOS_E_EMPTY, Some c, K)
             else Some (FOS_E_SUCCESS, FOS_E_SUCCESS, Some c, K) } } } }"

definition ks_reap_proc ::
  "'m kenv \<Rightarrow> 'm kernel \<Rightarrow> nat \<Rightarrow> 32 word \<Rightarrow> 32 word \<Rightarrow> (kresult \<times> 'm kernel) option"
where
  "ks_reap_proc E K cpid u_rcpid u_rces = with_current K (\<lambda>thr t. do {
     let proc = th_proc t;
     (err, user_err, rproc, K) \<leftarrow> reap_choose E K proc cpid;
     if err \<noteq> FOS_E_SUCCESS then Some (Returns err, K)
     else do {
       (err, rcpid, rces, K) \<leftarrow>
         (if user_err = FOS_E_SUCCESS then do {
            rp \<leftarrow> rproc;
            rr \<leftarrow> k_procs K rp;
            (err, K) \<leftarrow> plgs_on_reap_proc E K (pr_pid rr);
            if err \<noteq> FOS_E_SUCCESS then Some (err, 0, 0, K)
            else do {
              rr \<leftarrow> k_procs K rp;
              (err, K) \<leftarrow> delete_process E K (Some rp);
              if err \<noteq> FOS_E_SUCCESS then Some (err, 0, 0, K)
              else do {
                pt \<leftarrow> idtb_push_id (k_proc_table K) (pr_pid rr);
                Some (FOS_E_SUCCESS, pr_pid rr, pr_exit_status rr, K\<lparr>k_proc_table := pt\<rparr>) } } }
          else Some (FOS_E_SUCCESS, fc_max_procs E, PROC_ES_UNSET, K));
       if err \<noteq> FOS_E_SUCCESS then Some (Returns err, K)
       else do {
         r \<leftarrow> k_procs K proc;
         let K = to_user_opt E K (pr_pd r) u_rcpid [of_nat rcpid];
         let K = to_user_opt E K (pr_pd r) u_rces [rces];
         dual_ret K thr (err_word user_err) FOS_E_SUCCESS } } })"

text \<open>Counting the arguments in front of the first null word of the argument block.\<close>

fun count_args :: "nat \<Rightarrow> 32 word list \<Rightarrow> nat" where
  "count_args 0 ws = 0"
| "count_args (Suc n) [] = 0"
| "count_args (Suc n) (w # ws) = (if w = 0 then 0 else Suc (count_args n ws))"

definition ks_exec ::
  "'m kenv \<Rightarrow> 32 word \<Rightarrow> 'm kernel \<Rightarrow> 32 word \<Rightarrow> 32 word \<Rightarrow> nat \<Rightarrow> (kresult \<times> 'm kernel) option"
where
  "ks_exec E app_args_start K u_ua u_abs_ab u_abs_ab_len = with_current K (\<lambda>thr t. do {
     let proc = th_proc t;
     r \<leftarrow> k_procs K proc;
     if u_ua = 0 then dual_ret K thr (err_word FOS_E_BAD_ARGS) FOS_E_SUCCESS
     else if 0 < u_abs_ab_len \<and> u_abs_ab = 0 then dual_ret K thr (err_word FOS_E_BAD_ARGS) FOS_E_SUCCESS
     else case ke_copy_app E (k_mem K) (pr_pd r) u_ua of
       None \<Rightarrow> dual_ret K thr (err_word FOS_E_UNKNWON_ERROR) FOS_E_SUCCESS
     | Some entry \<Rightarrow>
         (case (if 0 < u_abs_ab_len then ke_copy_args E (k_mem K) (pr_pd r) u_abs_ab u_abs_ab_len else Some []) of
            None \<Rightarrow> dual_ret K thr (err_word FOS_E_UNKNWON_ERROR) FOS_E_SUCCESS
          | Some abs_ab \<Rightarrow> do {
              let num_args = count_args (u_abs_ab_len div 4) abs_ab;
              let (err, new_pd, mem) = ke_app_pd E (k_mem K) (pr_pd r) u_ua abs_ab u_abs_ab_len;
              let K = K\<lparr>k_mem := mem\<rparr>;
              if err \<noteq> FOS_E_SUCCESS then dual_ret K thr (err_word FOS_E_UNKNWON_ERROR) FOS_E_SUCCESS
              else do {
                (err, K) \<leftarrow> plgs_on_reset_proc E K (pr_pid r);
                if err \<noteq> FOS_E_SUCCESS then Some (Returns err, K)
                else do {
                  (res, K) \<leftarrow> ks_abandon_children E K (Some proc);
                  if res \<noteq> Returns FOS_E_SUCCESS then Some (res, K)
                  else do {
                    (err, K) \<leftarrow> proc_exec E K proc new_pd entry app_args_start (of_nat num_args) 0;
                    if err \<noteq> FOS_E_SUCCESS then Some (Returns err, K)
                    else do {
                      r \<leftarrow> k_procs K proc;
                      m \<leftarrow> pr_main_thread r;
                      K \<leftarrow> thread_schedule K m (k_schedule K);
                      Some (Returns FOS_E_SUCCESS, K) } } } } }) })"

section \<open>Signals\<close>

definition ks_signal :: "'m kenv \<Rightarrow> 'm kernel \<Rightarrow> nat \<Rightarrow> nat \<Rightarrow> (kresult \<times> 'm kernel) option" where
  "ks_signal E K pid sid = with_current K (\<lambda>thr t. do {
     recv_proc \<leftarrow> (if pid = fc_max_procs E then do { r \<leftarrow> k_procs K (th_proc t); Some (pr_parent r) }
       else idtb_get (k_proc_table K) pid);
     if recv_proc = None then dual_ret K thr (err_word FOS_E_STATE_MISMATCH) FOS_E_SUCCESS
     else do {
       (res, K) \<leftarrow> ks_signal_p E K recv_proc sid;
       if res \<noteq> Returns FOS_E_SUCCESS then Some (res, K)
       else do {
         r \<leftarrow> k_procs K (th_proc t);
         K \<leftarrow> (if \<not> pr_exited r then set_eax K thr (err_word FOS_E_SUCCESS) else Some K);
         Some (Returns FOS_E_SUCCESS, K) } } })"

definition ks_allow_signal :: "'m kenv \<Rightarrow> 'm kernel \<Rightarrow> 32 word \<Rightarrow> (kresult \<times> 'm kernel) option" where
  "ks_allow_signal E K sv = with_current K (\<lambda>thr t. do {
     let proc = th_proc t;
     r \<leftarrow> k_procs K proc;
     let K = set_proc proc (r\<lparr>pr_sig_allow := sv\<rparr>) K;
     if NOT sv AND pr_sig_vec r \<noteq> 0 then ks_exit_proc_p E K proc PROC_ES_SIGNAL
     else dual_ret K thr (pr_sig_allow r) FOS_E_SUCCESS })"

text \<open>The search of \<^verbatim>\<open>ks_wait_signal\<close> for a pending signal that is waited for.\<close>

fun find_signal :: "nat \<Rightarrow> nat \<Rightarrow> 32 word \<Rightarrow> 32 word \<Rightarrow> nat" where
  "find_signal 0 msid sv vec = msid"
| "find_signal (Suc n) msid sv vec =
     (if bit sv msid \<and> bit vec msid then msid else find_signal n (msid + 1) sv vec)"

definition ks_wait_signal :: "'m kenv \<Rightarrow> 'm kernel \<Rightarrow> 32 word \<Rightarrow> 32 word \<Rightarrow> (kresult \<times> 'm kernel) option" where
  "ks_wait_signal E K sv u_sid = with_current K (\<lambda>thr t. do {
     let proc = th_proc t;
     r \<leftarrow> k_procs K proc;
     if sv = 0 then
       dual_ret (to_user_opt E K (pr_pd r) u_sid [32]) thr (err_word FOS_E_BAD_ARGS) FOS_E_SUCCESS
     else
       let msid = (if sv AND pr_sig_vec r \<noteq> 0 then find_signal 32 0 sv (pr_sig_vec r) else 32) in
       if msid < 32 then
         dual_ret (to_user_opt E (set_proc proc (r\<lparr>pr_sig_vec := unset_bit msid (pr_sig_vec r)\<rparr>) K)
           (pr_pd r) u_sid [of_nat msid]) thr (err_word FOS_E_SUCCESS) FOS_E_SUCCESS
       else do {
         w \<leftarrow> k_wqs K (pr_signal_queue r);
         q \<leftarrow> vector_queue w;
         (err, q) \<leftarrow> vwq_enqueue LL_IMPL (ke_al E) q thr sv;
         let K = set_wq (pr_signal_queue r) (WQ_vector q) K;
         if err \<noteq> FOS_E_SUCCESS then Some (Returns err, K)
         else do {
           K \<leftarrow> thread_detach K thr;
           K \<leftarrow> upd_thread K thr (\<lambda>t. t\<lparr>th_wq := Some (pr_signal_queue r), th_state := THREAD_STATE_WAITING,
             th_wait_ctx := (th_wait_ctx t)[0 := u_sid]\<rparr>);
           Some (Returns FOS_E_SUCCESS, K) } } })"

definition ks_signal_clear :: "'m kernel \<Rightarrow> 32 word \<Rightarrow> (kresult \<times> 'm kernel) option" where
  "ks_signal_clear K sv = with_current K (\<lambda>thr t. do {
     K \<leftarrow> upd_proc K (th_proc t) (\<lambda>r. r\<lparr>pr_sig_vec := pr_sig_vec r AND NOT sv\<rparr>);
     Some (Returns FOS_E_SUCCESS, K) })"

section \<open>Memory\<close>

definition ks_request_mem ::
  "'m kenv \<Rightarrow> 'm kernel \<Rightarrow> 32 word \<Rightarrow> 32 word \<Rightarrow> 32 word \<Rightarrow> (kresult \<times> 'm kernel) option"
where
  "ks_request_mem E K s e u_true_e = with_current K (\<lambda>thr t. do {
     r \<leftarrow> k_procs K (th_proc t);
     if u_true_e = 0 then dual_ret K thr (err_word FOS_E_BAD_ARGS) FOS_E_SUCCESS
     else if s < fc_free_start E \<or> fc_free_end E \<le> s then dual_ret K thr (err_word FOS_E_INVALID_RANGE) FOS_E_SUCCESS
     else if e < fc_free_start E \<or> fc_free_end E < e then dual_ret K thr (err_word FOS_E_INVALID_RANGE) FOS_E_SUCCESS
     else
       let (err, true_e, mem) = ke_alloc_pages E (k_mem K) (pr_pd r) s e in
       dual_ret (to_user E (K\<lparr>k_mem := mem\<rparr>) (pr_pd r) u_true_e [true_e]) thr (err_word err) FOS_E_SUCCESS })"

definition ks_return_mem :: "'m kenv \<Rightarrow> 'm kernel \<Rightarrow> 32 word \<Rightarrow> 32 word \<Rightarrow> (kresult \<times> 'm kernel) option" where
  "ks_return_mem E K s e = with_current K (\<lambda>thr t. do {
     r \<leftarrow> k_procs K (th_proc t);
     if s < fc_free_start E \<or> fc_free_end E \<le> s then Some (Returns FOS_E_SUCCESS, K)
     else if e < fc_free_start E \<or> fc_free_end E < e then Some (Returns FOS_E_SUCCESS, K)
     else Some (Returns FOS_E_SUCCESS, K\<lparr>k_mem := ke_free_pages E (k_mem K) (pr_pd r) s e\<rparr>) })"

section \<open>Threads\<close>

definition ks_sleep_thread :: "'m kenv \<Rightarrow> 'm kernel \<Rightarrow> 32 word \<Rightarrow> (kresult \<times> 'm kernel) option" where
  "ks_sleep_thread E K ticks = with_current K (\<lambda>thr t. do {
     w \<leftarrow> k_wqs K (k_sleep_q K);
     q \<leftarrow> timed_queue w;
     (err, q) \<leftarrow> twq_enqueue LL_IMPL LL_IMPL (ke_al E) q thr (k_curr_tick K + ticks);
     let K = set_wq (k_sleep_q K) (WQ_timed q) K;
     if err \<noteq> FOS_E_SUCCESS then Some (Returns err, K)
     else do {
       K \<leftarrow> thread_detach K thr;
       K \<leftarrow> upd_thread K thr (\<lambda>t. t\<lparr>th_wq := Some (k_sleep_q K), th_state := THREAD_STATE_WAITING\<rparr>);
       Some (Returns FOS_E_SUCCESS, K) } })"

definition ks_spawn_local_thread ::
  "'m kenv \<Rightarrow> 'm kernel \<Rightarrow> 32 word \<Rightarrow> 32 word \<Rightarrow> 32 word \<Rightarrow> (kresult \<times> 'm kernel) option"
where
  "ks_spawn_local_thread E K u_tid entry arg = with_current K (\<lambda>thr t. do {
     let proc = th_proc t;
     r \<leftarrow> k_procs K proc;
     if entry = 0 then dual_ret K thr (err_word FOS_E_BAD_ARGS) FOS_E_SUCCESS
     else do {
       (new_thr, K) \<leftarrow> proc_new_thread E K (Some proc) entry arg 0 0;
       case new_thr of
         None \<Rightarrow> do {
           K \<leftarrow> set_eax K thr (err_word FOS_E_UNKNWON_ERROR);
           Some (Returns FOS_E_SUCCESS,
             to_user_opt E K (pr_pd r) u_tid [of_nat (idtb_null_id (pr_thread_table r))]) }
       | Some n \<Rightarrow> do {
           K \<leftarrow> thread_schedule K n (k_schedule K);
           nt \<leftarrow> k_threads K n;
           let K = to_user_opt E K (pr_pd r) u_tid [of_nat (th_tid nt)];
           dual_ret K thr (err_word FOS_E_SUCCESS) FOS_E_SUCCESS } } })"

definition ks_exit_thread :: "'m kenv \<Rightarrow> 'm kernel \<Rightarrow> 32 word \<Rightarrow> (kresult \<times> 'm kernel) option" where
  "ks_exit_thread E K ret_val = with_current K (\<lambda>thr t. do {
     let proc = th_proc t;
     r \<leftarrow> k_procs K proc;
     if pr_main_thread r = Some thr then ks_exit_proc E K ret_val
     else do {
       K \<leftarrow> thread_detach K thr;
       K \<leftarrow> upd_thread K thr (\<lambda>t. t\<lparr>th_exit_ret_val := ret_val, th_state := THREAD_STATE_EXITED\<rparr>);
       w \<leftarrow> k_wqs K (pr_join_queue r);
       q \<leftarrow> vector_queue w;
       (err, q) \<leftarrow> vwq_notify LL_IMPL LL_IMPL (ke_al E) q (th_tid t mod 256) VWQ_NOTIFY_FIRST;
       let K = set_wq (pr_join_queue r) (WQ_vector q) K;
       if err \<noteq> FOS_E_SUCCESS then Some (Returns err, K)
       else do {
         (err, joining_thread, _, q) \<leftarrow> vwq_pop LL_IMPL q;
         let K = set_wq (pr_join_queue r) (WQ_vector q) K;
         if err = FOS_E_EMPTY then Some (Returns FOS_E_SUCCESS, K)
         else if err \<noteq> FOS_E_SUCCESS then Some (Returns err, K)
         else do {
           j \<leftarrow> joining_thread;
           jt \<leftarrow> k_threads K j;
           u_ret_ptr \<leftarrow> arr_get (th_wait_ctx jt) 0;
           let K = set_thread j (jt\<lparr>th_wq := None, th_wait_ctx := (th_wait_ctx jt)[0 := 0],
             th_state := THREAD_STATE_DETATCHED\<rparr>) K;
           let K = to_user_opt E K (pr_pd r) u_ret_ptr [of_nat (th_tid t), ret_val];
           K \<leftarrow> set_eax K j (err_word FOS_E_SUCCESS);
           K \<leftarrow> thread_schedule K j (k_schedule K);
           K \<leftarrow> proc_delete_thread E K (Some proc) (Some thr) True;
           Some (Returns FOS_E_SUCCESS, K) } } } })"

text \<open>The search of \<^verbatim>\<open>ks_join_local_thread\<close> for an exited thread: its id, 32 if there is none.\<close>

fun find_joinable :: "nat \<Rightarrow> nat \<Rightarrow> 'm kernel \<Rightarrow> addr id_table \<Rightarrow> 32 word \<Rightarrow> (nat \<times> addr option) option" where
  "find_joinable 0 tid K tt jv = Some (tid, None)"
| "find_joinable (Suc n) tid K tt jv = do {
     joinable \<leftarrow> idtb_get tt tid;
     exited \<leftarrow> (case joinable of
         Some a \<Rightarrow> if bit jv tid then do { t \<leftarrow> k_threads K a; Some (th_state t = THREAD_STATE_EXITED) } else Some False
       | None \<Rightarrow> Some False);
     if exited then Some (tid, joinable) else find_joinable n (tid + 1) K tt jv }"

definition ks_join_local_thread :: "'m kenv \<Rightarrow> 'm kernel \<Rightarrow> 32 word \<Rightarrow> 32 word \<Rightarrow> (kresult \<times> 'm kernel) option" where
  "ks_join_local_thread E K jv u_join_ret = with_current K (\<lambda>thr t. do {
     let proc = th_proc t;
     r \<leftarrow> k_procs K proc;
     if jv = 0 \<or> jv = push_bit (th_tid t) 1 then dual_ret K thr (err_word FOS_E_BAD_ARGS) FOS_E_SUCCESS
     else do {
       (ready_tid, joinable) \<leftarrow> find_joinable 32 0 K (pr_thread_table r) jv;
       if ready_tid < 32 then do {
         a \<leftarrow> joinable;
         jt \<leftarrow> k_threads K a;
         K \<leftarrow> proc_delete_thread E K (Some proc) (Some a) True;
         let K = to_user_opt E K (pr_pd r) u_join_ret [of_nat ready_tid, th_exit_ret_val jt];
         dual_ret K thr (err_word FOS_E_SUCCESS) FOS_E_SUCCESS }
       else do {
         w \<leftarrow> k_wqs K (pr_join_queue r);
         q \<leftarrow> vector_queue w;
         (err, q) \<leftarrow> vwq_enqueue LL_IMPL (ke_al E) q thr jv;
         let K = set_wq (pr_join_queue r) (WQ_vector q) K;
         if err \<noteq> FOS_E_SUCCESS then dual_ret K thr (err_word err) FOS_E_SUCCESS
         else do {
           K \<leftarrow> thread_detach K thr;
           K \<leftarrow> upd_thread K thr (\<lambda>t. t\<lparr>th_wq := Some (pr_join_queue r),
             th_wait_ctx := (th_wait_ctx t)[0 := u_join_ret], th_state := THREAD_STATE_WAITING\<rparr>);
           Some (Returns FOS_E_SUCCESS, K) } } } })"

section \<open>Default input and output\<close>

text \<open>
  The wrappers of \<^verbatim>\<open>k_startup/handle.h\<close>: an operation that a handle does not implement answers the
  current thread with an error.
\<close>

definition hs_call ::
  "'m kenv \<Rightarrow> 'm kernel \<Rightarrow> addr \<Rightarrow> hs_call \<Rightarrow> (kresult \<times> 'm kernel) option"
where
  "hs_call E K hs c =
     (case ke_hs E K hs c of
        Some (err, K) \<Rightarrow> Some (Returns err, K)
      | None \<Rightarrow> do {
          head \<leftarrow> ks_head K;
          thr \<leftarrow> head;
          dual_ret K thr (err_word FOS_E_NOT_IMPLEMENTED) FOS_E_SUCCESS })"

definition hs_wait_write_ready where "hs_wait_write_ready E K hs = hs_call E K hs HS_WAIT_WRITE_READY"
definition hs_write where "hs_write E K hs u_src len u_written = hs_call E K hs (HS_WRITE u_src len u_written)"
definition hs_wait_read_ready where "hs_wait_read_ready E K hs = hs_call E K hs HS_WAIT_READ_READY"
definition hs_read where "hs_read E K hs u_dst len u_readden = hs_call E K hs (HS_READ u_dst len u_readden)"
definition hs_cmd where "hs_cmd E K hs cmd a0 a1 a2 a3 = hs_call E K hs (HS_CMD cmd a0 a1 a2 a3)"

text \<open>The process of the handle state is read after the state was deleted: a fault when that freed it.\<close>

definition hs_close :: "'m kenv \<Rightarrow> 'm kernel \<Rightarrow> addr \<Rightarrow> (kresult \<times> 'm kernel) option" where
  "hs_close E K hs = do {
     h \<leftarrow> k_handles K hs;
     let (err, K) = delete_handle_state E K (Some hs);
     if err \<noteq> FOS_E_SUCCESS then Some (Returns FOS_E_ABORT_SYSTEM, K)
     else do {
       freed \<leftarrow> k_handles K hs;
       r \<leftarrow> k_procs K (hs_proc freed);
       ht \<leftarrow> idtb_push_id (pr_handle_table r) (hs_handle h);
       Some (Returns FOS_E_SUCCESS, set_proc (hs_proc freed) (r\<lparr>pr_handle_table := ht\<rparr>) K) } }"

lemma hs_close_after_free:
  "delete_handle_state E K (Some hs) = (FOS_E_SUCCESS, K') \<Longrightarrow> k_handles K' hs = None \<Longrightarrow> hs_close E K hs = None"
  by (cases "k_handles K hs") (simp_all add: hs_close_def)

definition ks_set_in_handle :: "'m kernel \<Rightarrow> nat \<Rightarrow> (kresult \<times> 'm kernel) option" where
  "ks_set_in_handle K h = with_current K (\<lambda>thr t. do {
     r \<leftarrow> k_procs K (th_proc t);
     dual_ret (set_proc (th_proc t) (r\<lparr>pr_in_handle := (if idtb_max_cap (pr_handle_table r) \<le> h
       then idtb_null_id (pr_handle_table r) else h)\<rparr>) K) thr (err_word FOS_E_SUCCESS) FOS_E_SUCCESS })"

definition ks_in_read ::
  "'m kenv \<Rightarrow> 'm kernel \<Rightarrow> 32 word \<Rightarrow> 32 word \<Rightarrow> 32 word \<Rightarrow> (kresult \<times> 'm kernel) option"
where
  "ks_in_read E K u_dest len u_readden = with_current K (\<lambda>thr t. do {
     r \<leftarrow> k_procs K (th_proc t);
     hs \<leftarrow> idtb_get (pr_handle_table r) (pr_in_handle r);
     case hs of
       None \<Rightarrow> dual_ret K thr (err_word (if u_dest = 0 then FOS_E_BAD_ARGS else FOS_E_EMPTY)) FOS_E_SUCCESS
     | Some h \<Rightarrow> hs_read E K h u_dest len u_readden })"

definition ks_in_wait :: "'m kenv \<Rightarrow> 'm kernel \<Rightarrow> (kresult \<times> 'm kernel) option" where
  "ks_in_wait E K = with_current K (\<lambda>thr t. do {
     r \<leftarrow> k_procs K (th_proc t);
     hs \<leftarrow> idtb_get (pr_handle_table r) (pr_in_handle r);
     case hs of
       None \<Rightarrow> dual_ret K thr (err_word FOS_E_EMPTY) FOS_E_SUCCESS
     | Some h \<Rightarrow> hs_wait_read_ready E K h })"

definition ks_set_out_handle :: "'m kernel \<Rightarrow> nat \<Rightarrow> (kresult \<times> 'm kernel) option" where
  "ks_set_out_handle K h = with_current K (\<lambda>thr t. do {
     r \<leftarrow> k_procs K (th_proc t);
     dual_ret (set_proc (th_proc t) (r\<lparr>pr_out_handle := (if idtb_max_cap (pr_handle_table r) \<le> h
       then idtb_null_id (pr_handle_table r) else h)\<rparr>) K) thr (err_word FOS_E_SUCCESS) FOS_E_SUCCESS })"

definition ks_out_write ::
  "'m kenv \<Rightarrow> 'm kernel \<Rightarrow> 32 word \<Rightarrow> 32 word \<Rightarrow> 32 word \<Rightarrow> (kresult \<times> 'm kernel) option"
where
  "ks_out_write E K u_src len u_written = with_current K (\<lambda>thr t. do {
     r \<leftarrow> k_procs K (th_proc t);
     hs \<leftarrow> idtb_get (pr_handle_table r) (pr_out_handle r);
     case hs of
       None \<Rightarrow>
         if u_src = 0 then dual_ret K thr (err_word FOS_E_BAD_ARGS) FOS_E_SUCCESS
         else if u_written = 0 then dual_ret K thr (err_word FOS_E_SUCCESS) FOS_E_SUCCESS
         else
           let (err, mem) = ke_to_user E (k_mem K) (pr_pd r) u_written [len] in
           dual_ret (K\<lparr>k_mem := mem\<rparr>) thr (err_word err) FOS_E_SUCCESS
     | Some h \<Rightarrow> hs_write E K h u_src len u_written })"

definition ks_out_wait :: "'m kenv \<Rightarrow> 'm kernel \<Rightarrow> (kresult \<times> 'm kernel) option" where
  "ks_out_wait E K = with_current K (\<lambda>thr t. do {
     r \<leftarrow> k_procs K (th_proc t);
     hs \<leftarrow> idtb_get (pr_handle_table r) (pr_out_handle r);
     case hs of
       None \<Rightarrow> dual_ret K thr (err_word FOS_E_SUCCESS) FOS_E_SUCCESS
     | Some h \<Rightarrow> hs_wait_write_ready E K h })"

section \<open>Syscall numbers\<close>

definition SYSCALL_ATTRS_MASK :: "32 word" where "SYSCALL_ATTRS_MASK = push_bit 30 3"
definition HANDLE_CMD_PREFIX :: "32 word" where "HANDLE_CMD_PREFIX = push_bit 30 1"
definition PLUGIN_CMD_PREFIX :: "32 word" where "PLUGIN_CMD_PREFIX = push_bit 30 2"

definition scid_is_vanilla :: "32 word \<Rightarrow> bool" where
  "scid_is_vanilla scid \<longleftrightarrow> scid AND SYSCALL_ATTRS_MASK = 0"

definition scid_is_handle_cmd :: "32 word \<Rightarrow> bool" where
  "scid_is_handle_cmd scid \<longleftrightarrow> scid AND SYSCALL_ATTRS_MASK = HANDLE_CMD_PREFIX"

definition handle_cmd_scid :: "32 word \<Rightarrow> 16 word \<Rightarrow> 32 word" where
  "handle_cmd_scid h cmd = HANDLE_CMD_PREFIX OR push_bit 16 (h AND 0xFF) OR ucast cmd"

definition handle_scid_extract :: "32 word \<Rightarrow> 32 word \<times> 16 word" where
  "handle_scid_extract scid = (drop_bit 16 scid AND 0xFF, ucast scid)"

definition scid_is_plugin_cmd :: "32 word \<Rightarrow> bool" where
  "scid_is_plugin_cmd scid \<longleftrightarrow> scid AND SYSCALL_ATTRS_MASK = PLUGIN_CMD_PREFIX"

definition plugin_cmd_scid :: "32 word \<Rightarrow> 16 word \<Rightarrow> 32 word" where
  "plugin_cmd_scid plg_id cmd_id = PLUGIN_CMD_PREFIX OR push_bit 16 (plg_id AND 0xFF) OR ucast cmd_id"

definition plugin_scid_extract :: "32 word \<Rightarrow> 32 word \<times> 16 word" where
  "plugin_scid_extract plg_scid = (drop_bit 16 plg_scid AND 0xFF, ucast plg_scid)"

end
