(* ===== verification/Actions.thy ===== *)
theory Actions
  imports Syscalls
begin

text \<open>
  The interrupt actions of \<^verbatim>\<open>k_startup/src/action.c\<close>: what the processor does next after a
  system call, a timer tick, a page fault or a protection fault.
\<close>

datatype outcome = Resume user_ctx | Idle | Shutdown

definition PROC_ES_GPF :: "32 word" where "PROC_ES_GPF = 3"
definition PROC_ES_PF :: "32 word" where "PROC_ES_PF = 4"

definition return_to_curr_thread :: "'m kernel \<Rightarrow> outcome option" where
  "return_to_curr_thread K = do {
     head \<leftarrow> ks_head K;
     case head of
       None \<Rightarrow> Some Idle
     | Some thr \<Rightarrow> do { t \<leftarrow> k_threads K thr; Some (Resume (th_ctx t)) } }"

definition finish :: "kresult \<times> 'm kernel \<Rightarrow> (outcome \<times> 'm kernel) option" where
  "finish r =
     (case r of
        (Returns err, K) \<Rightarrow>
          if err \<noteq> FOS_E_SUCCESS then Some (Shutdown, K)
          else do { out \<leftarrow> return_to_curr_thread K; Some (out, K) }
      | (Halted, K) \<Rightarrow> Some (Shutdown, K))"

text \<open>
  A result that the action ignores: only a call that never returns ends the action there.
\<close>

definition ignore_error :: "kresult \<times> 'm kernel \<Rightarrow> (outcome \<times> 'm kernel) option" where
  "ignore_error r =
     (case r of
        (Halted, K) \<Rightarrow> Some (Shutdown, K)
      | (Returns err, K) \<Rightarrow> do { out \<leftarrow> return_to_curr_thread K; Some (out, K) })"

definition fos_gpf_action :: "'m kenv \<Rightarrow> 32 word \<Rightarrow> 'm kernel \<Rightarrow> user_ctx \<Rightarrow> (outcome \<times> 'm kernel) option" where
  "fos_gpf_action E kernel_pd K ctx =
     (if c_cr3 ctx = kernel_pd then Some (Shutdown, K)
      else do { r \<leftarrow> ks_exit_proc E K PROC_ES_GPF; ignore_error r })"

definition fos_pf_action ::
  "'m kenv \<Rightarrow> 32 word \<Rightarrow> 'm kernel \<Rightarrow> user_ctx \<Rightarrow> 32 word \<Rightarrow> (outcome \<times> 'm kernel) option"
where
  "fos_pf_action E kernel_pd K ctx cr2 =
     (if c_cr3 ctx = kernel_pd then Some (Shutdown, K)
      else do {
        K \<leftarrow> ks_save_ctx K ctx;
        (err, K) \<leftarrow> ks_expand_stack E K (cr2 AND NOT 0xFFF);
        if err \<noteq> FOS_E_SUCCESS then do { r \<leftarrow> ks_exit_proc E K PROC_ES_PF; ignore_error r }
        else do { out \<leftarrow> return_to_curr_thread K; Some (out, K) } })"

definition fos_timer_action :: "'m kenv \<Rightarrow> 'm kernel \<Rightarrow> user_ctx \<Rightarrow> (outcome \<times> 'm kernel) option" where
  "fos_timer_action E K ctx = do {
     K \<leftarrow> ks_save_ctx K ctx;
     (err, K) \<leftarrow> ks_tick E K;
     finish (Returns err, K) }"

text \<open>A command on a handle of the current process.\<close>

definition handle_cmd ::
  "'m kenv \<Rightarrow> 'm kernel \<Rightarrow> addr \<Rightarrow> 32 word \<Rightarrow> 32 word \<Rightarrow> 32 word \<Rightarrow> 32 word \<Rightarrow> 32 word \<Rightarrow> (kresult \<times> 'm kernel) option"
where
  "handle_cmd E K thr scid a0 a1 a2 a3 = do {
     let (h, h_cmd) = handle_scid_extract scid;
     t \<leftarrow> k_threads K thr;
     r \<leftarrow> k_procs K (th_proc t);
     hs \<leftarrow> idtb_get (pr_handle_table r) (unat h);
     case hs of
       None \<Rightarrow> dual_ret K thr (err_word FOS_E_INVALID_INDEX) FOS_E_SUCCESS
     | Some hs \<Rightarrow>
         if h_cmd = 0 then hs_close E K hs
         else if h_cmd = 2 then hs_write E K hs a0 a1 a2
         else if h_cmd = 1 then hs_wait_write_ready E K hs
         else if h_cmd = 4 then hs_read E K hs a0 a1 a2
         else if h_cmd = 3 then hs_wait_read_ready E K hs
         else if h_cmd = 5 then do {
           s \<leftarrow> k_handles K hs;
           dual_ret K thr (err_word (if hs_is_terminal s then FOS_E_SUCCESS else FOS_E_UNKNWON_ERROR)) FOS_E_SUCCESS }
         else hs_cmd E K hs h_cmd a0 a1 a2 a3 }"

text \<open>The plugin table is read with whatever index the system call number holds.\<close>

definition plugin_cmd ::
  "'m kenv \<Rightarrow> 'm kernel \<Rightarrow> addr \<Rightarrow> 32 word \<Rightarrow> 32 word \<Rightarrow> 32 word \<Rightarrow> 32 word \<Rightarrow> 32 word \<Rightarrow> (kresult \<times> 'm kernel) option"
where
  "plugin_cmd E K thr scid a0 a1 a2 a3 = do {
     let (plg_id, plg_cmd_id) = plugin_scid_extract scid;
     plg \<leftarrow> arr_get (k_plugins K) (unat plg_id);
     case plg of
       None \<Rightarrow> dual_ret K thr (err_word FOS_E_INVALID_INDEX) FOS_E_SUCCESS
     | Some p \<Rightarrow>
         (case ke_plg E K p (PLG_CMD plg_cmd_id a0 a1 a2 a3) of
            Some (err, K) \<Rightarrow> Some (Returns err, K)
          | None \<Rightarrow> dual_ret K thr (err_word FOS_E_NOT_IMPLEMENTED) FOS_E_SUCCESS) }"

definition get_handle :: "'m kenv \<Rightarrow> 'm kernel \<Rightarrow> addr \<Rightarrow> (process \<Rightarrow> nat) \<Rightarrow> (kresult \<times> 'm kernel) option" where
  "get_handle E K thr f = do {
     t \<leftarrow> k_threads K thr;
     r \<leftarrow> k_procs K (th_proc t);
     hs \<leftarrow> idtb_get (pr_handle_table r) (f r);
     dual_ret K thr (of_nat (if hs \<noteq> None then f r else fc_max_handles E)) FOS_E_SUCCESS }"

definition syscall ::
  "'m kenv \<Rightarrow> 32 word \<Rightarrow> 'm kernel \<Rightarrow> 32 word \<Rightarrow> 32 word \<Rightarrow> 32 word \<Rightarrow> 32 word \<Rightarrow> 32 word \<Rightarrow> (kresult \<times> 'm kernel) option"
where
  "syscall E app_args_start K scid a0 a1 a2 a3 =
     (if scid = 0x80 then ks_fork_proc E K a0
      else if scid = 0x81 then ks_exit_proc E K a0
      else if scid = 0x82 then ks_reap_proc E K (unat a0) a1 a2
      else if scid = 0x83 then ks_exec E app_args_start K a0 a1 (unat a2)
      else if scid = 0x90 then ks_signal E K (unat a0) (unat a1)
      else if scid = 0x91 then ks_allow_signal E K a0
      else if scid = 0x92 then ks_wait_signal E K a0 a1
      else if scid = 0x93 then ks_signal_clear K a0
      else if scid = 0xA0 then ks_request_mem E K a0 a1 a2
      else if scid = 0xA1 then ks_return_mem E K a0 a1
      else if scid = 0x100 then ks_exit_thread E K a0
      else if scid = 0x101 then ks_sleep_thread E K a0
      else if scid = 0x102 then ks_spawn_local_thread E K a0 a1 a2
      else if scid = 0x103 then ks_join_local_thread E K a0 a1
      else if scid = 0x300 then ks_set_in_handle K (unat a0)
      else if scid = 0x301 then do { head \<leftarrow> ks_head K; thr \<leftarrow> head; get_handle E K thr pr_in_handle }
      else if scid = 0x302 then ks_in_read E K a0 a1 a2
      else if scid = 0x303 then ks_in_wait E K
      else if scid = 0x304 then ks_set_out_handle K (unat a0)
      else if scid = 0x305 then do { head \<leftarrow> ks_head K; thr \<leftarrow> head; get_handle E K thr pr_out_handle }
      else if scid = 0x306 then ks_out_write E K a0 a1 a2
      else if scid = 0x307 then ks_out_wait E K
      else do {
        head \<leftarrow> ks_head K;
        thr \<leftarrow> head;
        if scid_is_handle_cmd scid then handle_cmd E K thr scid a0 a1 a2 a3
        else if scid_is_plugin_cmd scid then plugin_cmd E K thr scid a0 a1 a2 a3
        else dual_ret K thr (err_word FOS_E_BAD_ARGS) FOS_E_SUCCESS })"

definition fos_syscall_action ::
  "'m kenv \<Rightarrow> 32 word \<Rightarrow> 'm kernel \<Rightarrow> user_ctx \<Rightarrow> 32 word \<Rightarrow> 32 word \<Rightarrow> 32 word \<Rightarrow> 32 word \<Rightarrow> 32 word
   \<Rightarrow> (outcome \<times> 'm kernel) option"
where
  "fos_syscall_action E app_args_start K ctx scid a0 a1 a2 a3 = do {
     K \<leftarrow> ks_save_ctx K ctx;
     r \<leftarrow> syscall E app_args_start K scid a0 a1 a2 a3;
     finish r }"

end
