(* ===== verification/Sample_Kernel.thy ===== *)
theory Sample_Kernel
  imports Threads
begin

text \<open>
  A small kernel on which the theorems of the kernel theories are instantiated: the root process
  50 with the threads 1 (running) and 5 (waiting for thread 0 or 1 of its process to exit), its
  child 51 with the threads 2 (scheduled), 3 (waiting for signal 1) and 6 (in the
  basic queue 40), and the zombie 52, whose
  thread 4 is detached.
\<close>

section \<open>Tables\<close>

definition tbl_one :: "addr option \<Rightarrow> addr id_table" where
  "tbl_one a = \<lparr>idtb_max = 8, idtb_cap = 1, idtb_al_head = 0, idtb_fl_head = 8,
     idtb_tbl = [\<lparr>ie_allocated = True, ie_next = 8, ie_prev = 8, ie_data = a\<rparr>], idtb_iter = 8\<rparr>"

definition tbl_two :: "addr \<Rightarrow> addr \<Rightarrow> addr id_table" where
  "tbl_two a b = \<lparr>idtb_max = 8, idtb_cap = 2, idtb_al_head = 0, idtb_fl_head = 8,
     idtb_tbl = [\<lparr>ie_allocated = True, ie_next = 1, ie_prev = 8, ie_data = Some a\<rparr>,
       \<lparr>ie_allocated = True, ie_next = 8, ie_prev = 0, ie_data = Some b\<rparr>], idtb_iter = 8\<rparr>"

definition tbl_three :: "addr \<Rightarrow> addr \<Rightarrow> addr \<Rightarrow> addr id_table" where
  "tbl_three a b c = \<lparr>idtb_max = 8, idtb_cap = 3, idtb_al_head = 0, idtb_fl_head = 8,
     idtb_tbl = [\<lparr>ie_allocated = True, ie_next = 1, ie_prev = 8, ie_data = Some a\<rparr>,
       \<lparr>ie_allocated = True, ie_next = 2, ie_prev = 0, ie_data = Some b\<rparr>,
       \<lparr>ie_allocated = True, ie_next = 8, ie_prev = 1, ie_data = Some c\<rparr>], idtb_iter = 8\<rparr>"

definition tbl_free :: "addr id_table" where
  "tbl_free = \<lparr>idtb_max = 8, idtb_cap = 1, idtb_al_head = 8, idtb_fl_head = 0,
     idtb_tbl = [\<lparr>ie_allocated = False, ie_next = 8, ie_prev = 8, ie_data = None\<rparr>], idtb_iter = 8\<rparr>"

lemma nat_less_three: "i < (3 :: nat) \<longleftrightarrow> i = 0 \<or> i = 1 \<or> i = 2"
  by auto

lemma tbl_reps:
  "idtb_rep (tbl_one a) [] [0]" "idtb_rep (tbl_two b c) [] [0, 1]" "idtb_rep (tbl_three b c d) [] [0, 1, 2]"
  "idtb_rep tbl_free [0] []"
  by (auto simp: idtb_rep_def tbl_one_def tbl_two_def tbl_three_def tbl_free_def tbl_links_def dec_id_def enc_id_def
      less_2_cases_iff nat_less_three)

lemma tbl_views:
  "idtb_view (tbl_one a) = [0 \<mapsto> a]" "idtb_view (tbl_two b c) = [0 \<mapsto> Some b, 1 \<mapsto> Some c]"
  "idtb_view (tbl_three b c d) = [0 \<mapsto> Some b, 1 \<mapsto> Some c, 2 \<mapsto> Some d]" "idtb_view tbl_free = Map.empty"
  by (auto simp: fun_eq_iff idtb_view_def tbl_one_def tbl_two_def tbl_three_def tbl_free_def less_2_cases_iff
      nat_less_three)

section \<open>Threads, queues and processes\<close>

definition sample_rings :: ring_store where
  "sample_rings = \<lparr>rings = [10 \<mapsto> \<lparr>r_len = 2, r_head = Some 1\<rparr>],
     relems = [1 \<mapsto> \<lparr>re_r = Some 10, re_next = Some 2, re_prev = Some 2\<rparr>,
       2 \<mapsto> \<lparr>re_r = Some 10, re_next = Some 1, re_prev = Some 1\<rparr>, 3 \<mapsto> detached, 4 \<mapsto> detached, 5 \<mapsto> detached, 6 \<mapsto> detached]\<rparr>"

definition sample_thread :: "nat \<Rightarrow> addr \<Rightarrow> thread_state \<Rightarrow> addr option \<Rightarrow> thread" where
  "sample_thread tid p st q = \<lparr>th_state = st, th_tid = tid, th_stack_base = 0xC0000000, th_proc = p, th_wq = q,
     th_wait_ctx = replicate 6 0, th_ctx = null_ctx, th_exit_ret_val = 0\<rparr>"

definition ll_one :: "'v \<Rightarrow> 'v linked_list" where
  "ll_one u = \<lparr>ll_nodes = [1 \<mapsto> \<lparr>n_next = None, n_prev = None, n_val = u\<rparr>],
     ll_len = 1, ll_cs = 4, ll_first = Some 1, ll_last = Some 1, ll_iter = None\<rparr>"

lemma ll_one_inv: "ll_inv (ll_one u) [u]"
  unfolding ll_inv_def
  by (rule exI [of _ "[1]"]) (auto simp: ll_rep_def ll_one_def ll_links_def ll_vals_def lst_or_def)

lemma ll_one_only: "ll_inv (ll_one u) xs \<Longrightarrow> xs = [u]"
  unfolding ll_inv_def ll_rep_def
proof (elim exE conjE)
  fix as assume as: "distinct as" "dom (ll_nodes (ll_one u)) = set as" "ll_vals (ll_nodes (ll_one u)) as xs"
  then have "as = [1]" by (cases as; cases "tl as") (auto simp: ll_one_def)
  then show "xs = [u]" using as(3) by (auto simp: ll_vals_def ll_one_def)
qed

definition sample_proc ::
  "nat \<Rightarrow> addr option \<Rightarrow> addr linked_list \<Rightarrow> addr linked_list \<Rightarrow> addr id_table \<Rightarrow> addr \<Rightarrow> addr \<Rightarrow> bool \<Rightarrow> process"
where
  "sample_proc pid parent cs zs tt m q ex = \<lparr>pr_exited = ex, pr_exit_status = 1, pr_pid = pid,
     pr_pd = of_nat (0x1000 * (pid + 1)), pr_parent = parent, pr_children = cs, pr_zombie_children = zs,
     pr_thread_table = tt, pr_join_queue = q, pr_main_thread = Some m, pr_sig_vec = 0, pr_sig_allow = 3,
     pr_signal_queue = q + 1, pr_handle_table = tbl_free, pr_in_handle = 8, pr_out_handle = 8\<rparr>"

definition sample_kernel :: "unit kernel" where
  "sample_kernel = \<lparr>k_rings = sample_rings,
     k_threads = [1 \<mapsto> sample_thread 0 50 THREAD_STATE_SCHEDULED None, 2 \<mapsto> sample_thread 0 51 THREAD_STATE_SCHEDULED None,
       3 \<mapsto> sample_thread 1 51 THREAD_STATE_WAITING (Some 34), 4 \<mapsto> sample_thread 0 52 THREAD_STATE_DETATCHED None,
       5 \<mapsto> sample_thread 1 50 THREAD_STATE_WAITING (Some 31),
       6 \<mapsto> sample_thread 2 51 THREAD_STATE_WAITING (Some 40)],
     k_wqs = [30 \<mapsto> WQ_timed \<lparr>twq_time = 0xFFFFFFFF, twq_wait_q = ll_none, twq_ready_q = ll_none\<rparr>,
       31 \<mapsto> WQ_vector \<lparr>vwq_wait_q = ll_one \<lparr>vw_item = 5, vw_mask = 5\<rparr>, vwq_ready_q = ll_none\<rparr>,
       32 \<mapsto> WQ_vector \<lparr>vwq_wait_q = ll_none, vwq_ready_q = ll_none\<rparr>,
       33 \<mapsto> WQ_vector \<lparr>vwq_wait_q = ll_none, vwq_ready_q = ll_none\<rparr>,
       34 \<mapsto> WQ_vector \<lparr>vwq_wait_q = ll_one \<lparr>vw_item = 3, vw_mask = 2\<rparr>, vwq_ready_q = ll_none\<rparr>,
       35 \<mapsto> WQ_vector \<lparr>vwq_wait_q = ll_none, vwq_ready_q = ll_none\<rparr>,
       36 \<mapsto> WQ_vector \<lparr>vwq_wait_q = ll_none, vwq_ready_q = ll_none\<rparr>,
       40 \<mapsto> WQ_basic \<lparr>bwq_wait_q = ll_one 6, bwq_ready_q = ll_none\<rparr>],
     k_procs = [50 \<mapsto> sample_proc 0 None (ll_one 51) (ll_one 52) (tbl_two 1 5) 1 31 False,
       51 \<mapsto> sample_proc 1 (Some 50) ll_none ll_none (tbl_three 2 3 6) 2 33 False,
       52 \<mapsto> (sample_proc 2 (Some 50) ll_none ll_none (tbl_one (Some 4)) 4 35 True)\<lparr>pr_sig_allow := 0\<rparr>],
     k_handles = Map.empty, k_schedule = 10, k_proc_table = tbl_three 50 51 52, k_root_proc = Some 50,
     k_curr_tick = 0xFFFFFFFF, k_sleep_q = 30, k_plugins = [None, None], k_mem = ()\<rparr>"

definition sample_queues :: "addr \<Rightarrow> awq option" where
  "sample_queues = [30 \<mapsto> AWQ_timed 0xFFFFFFFF [] [], 31 \<mapsto> AWQ_vector [\<lparr>vw_item = 5, vw_mask = 5\<rparr>] [],
     32 \<mapsto> AWQ_vector [] [], 33 \<mapsto> AWQ_vector [] [], 34 \<mapsto> AWQ_vector [\<lparr>vw_item = 3, vw_mask = 2\<rparr>] [],
     35 \<mapsto> AWQ_vector [] [], 36 \<mapsto> AWQ_vector [] [], 40 \<mapsto> AWQ_basic [6] []]"

definition sample_schedule :: "addr \<Rightarrow> addr list option" where
  "sample_schedule = [10 \<mapsto> [1, 2]]"

definition sample_env :: "unit kenv" where
  "sample_env = \<lparr>fc_max_procs = 8, fc_max_threads = 8, fc_max_handles = 8, fc_kstack_start = 0xF0000000,
     fc_tstack_size = 0x10000, fc_free_start = 0x40000000, fc_free_end = 0x80000000, ke_entry_routine = 0x1000,
     ke_eflags = 2, ke_al = bump_alloc, ke_mem = (\<lambda>_. True),
     ke_junk = \<lparr>ie_allocated = False, ie_next = 0, ie_prev = 0, ie_data = None\<rparr>,
     ke_copy_pd = (\<lambda>m pd. (0x9000, m)), ke_delete_pd = (\<lambda>m pd. m), ke_alloc_pages = (\<lambda>m pd s e. (FOS_E_SUCCESS, e, m)),
     ke_free_pages = (\<lambda>m pd s e. m), ke_to_user = (\<lambda>m pd d ws. (FOS_E_SUCCESS, m)), ke_copy_app = (\<lambda>m pd u. None),
     ke_copy_args = (\<lambda>m pd u n. None), ke_app_pd = (\<lambda>m pd u args n. (FOS_E_NO_MEM, 0, m)),
     ke_hs_copy = (\<lambda>K h p. (FOS_E_NO_MEM, 0, K)), ke_hs_delete = (\<lambda>K h. (FOS_E_SUCCESS, K)),
     ke_hs = (\<lambda>K h c. None), ke_plg = (\<lambda>K p c. None)\<rparr>"

lemma sample_env_al [simp]: "ke_al sample_env = bump_alloc"
  by (simp add: sample_env_def)

lemma sample_rings_rep: "ring_rep sample_rings sample_schedule"
  by (auto simp: ring_rep_def ring_is_def sample_rings_def sample_schedule_def ring_links_def lst_or_def detached_def
      split: if_splits)

lemma sample_on_ring: "on_ring sample_schedule a \<longleftrightarrow> a = 1 \<or> a = 2"
  by (auto simp: on_ring_def sample_schedule_def split: if_splits)

lemma sample_queue_reps:
  "twq_rep ll_inv ll_inv \<lparr>twq_time = 0xFFFFFFFF, twq_wait_q = ll_none, twq_ready_q = ll_none\<rparr> [] []"
  "vwq_rep ll_inv ll_inv \<lparr>vwq_wait_q = ll_none, vwq_ready_q = ll_none\<rparr> [] []"
  "vwq_rep ll_inv ll_inv \<lparr>vwq_wait_q = ll_one p, vwq_ready_q = ll_none\<rparr> [p] []"
  "bwq_rep ll_inv ll_inv \<lparr>bwq_wait_q = ll_one a, bwq_ready_q = ll_none\<rparr> [a] []"
  by (simp_all add: twq_rep_def vwq_rep_def bwq_rep_def ll_none_inv ll_one_inv twq_ordered_def)

lemma sample_queues_dom: "dom sample_queues = {30, 31, 32, 33, 34, 35, 36, 40}"
  by (auto simp: sample_queues_def)

lemma sample_wqs_rep: "k_wqs sample_kernel q = Some w \<Longrightarrow> sample_queues q = Some aq \<Longrightarrow> wq_rep w aq"
  by (auto simp: sample_kernel_def sample_queues_def sample_queue_reps split: if_splits)

lemma sample_threads: "k_threads sample_kernel = [1 \<mapsto> sample_thread 0 50 THREAD_STATE_SCHEDULED None,
  2 \<mapsto> sample_thread 0 51 THREAD_STATE_SCHEDULED None, 3 \<mapsto> sample_thread 1 51 THREAD_STATE_WAITING (Some 34),
  4 \<mapsto> sample_thread 0 52 THREAD_STATE_DETATCHED None, 5 \<mapsto> sample_thread 1 50 THREAD_STATE_WAITING (Some 31),
       6 \<mapsto> sample_thread 2 51 THREAD_STATE_WAITING (Some 40)]"
  by (simp add: sample_kernel_def)

lemma sample_threads_dom: "dom (k_threads sample_kernel) = {1, 2, 3, 4, 5, 6}"
  by (auto simp: sample_threads)

lemma sample_located: "k_threads sample_kernel a = Some t \<Longrightarrow> located sample_queues sample_schedule a t"
  by (auto simp: sample_threads sample_thread_def located_def sample_on_ring sample_queues_def split: if_splits)

lemma sample_items:
  "sample_queues q = Some aq \<Longrightarrow> distinct (awq_items aq) \<and> set (awq_items aq) \<subseteq> {1, 2, 3, 4, 5, 6}"
  by (auto simp: sample_queues_def split: if_splits)

lemma sample_placed: "placed sample_kernel sample_queues sample_schedule"
proof -
  have "dom (relems (k_rings sample_kernel)) = {1, 2, 3, 4, 5, 6}" "k_rings sample_kernel = sample_rings"
    "dom (k_wqs sample_kernel) = {30, 31, 32, 33, 34, 35, 36, 40}"
    by (auto simp: sample_kernel_def sample_rings_def)
  then show ?thesis
    unfolding placed_def sample_threads_dom sample_queues_dom
    using sample_rings_rep sample_wqs_rep sample_located sample_items by simp
qed

end
