(* ===== verification/Scheduling.thy ===== *)
theory Scheduling
  imports Actions Sample_Kernel
begin

text \<open>
  The timer and the sleeping threads.  \<open>clocked\<close> extends the placement of threads by the two
  objects the timer works on: the schedule, and the sleep queue, whose own clock shows the current
  tick.
\<close>

definition clocked ::
  "'m kernel \<Rightarrow> (addr \<Rightarrow> awq option) \<Rightarrow> (addr \<Rightarrow> addr list option) \<Rightarrow> addr list
   \<Rightarrow> addr twq_wait_pair list \<Rightarrow> addr list \<Rightarrow> bool"
where
  "clocked K W S as ws rs \<longleftrightarrow>
     placed K W S \<and> S (k_schedule K) = Some as \<and> W (k_sleep_q K) = Some (AWQ_timed (k_curr_tick K) ws rs)"

lemma clockedD:
  assumes "clocked K W S as ws rs"
  shows "placed K W S" and "S (k_schedule K) = Some as"
    and "W (k_sleep_q K) = Some (AWQ_timed (k_curr_tick K) ws rs)"
  using assms by (simp_all add: clocked_def)

lemma placed_head:
  assumes "placed K W S" and "S (k_schedule K) = Some as"
  shows "ks_head K = Some (fst_or None as)"
  using placedD(1) [OF assms(1)] assms(2) by (auto simp: ks_head_def ring_rep_def ring_is_def)

lemma placed_on_schedule:
  assumes pl: "placed K W S" and r: "S r = Some as" and a: "a \<in> set as"
  obtains t where "k_threads K a = Some t" "th_state t = THREAD_STATE_SCHEDULED" "th_wq t = None"
proof -
  have "a \<in> dom (k_threads K)"
    using ring_member_live [OF placedD(1) [OF pl] r a] placedD(2) [OF pl] by (metis domI)
  then obtain t where t: "k_threads K a = Some t" by blast
  note loc = placedD(8) [OF pl t]
  have "th_state t = THREAD_STATE_SCHEDULED" using locatedD(2) [OF loc] r a by (auto simp: on_ring_def)
  moreover from this have "th_wq t = None" using locatedD(1) [OF loc] by simp
  ultimately show ?thesis using that t by blast
qed

text \<open>A thread that only changed its place: it is now on the schedule.\<close>

definition put_on :: "thread option \<Rightarrow> thread option \<Rightarrow> bool" where
  "put_on before after \<longleftrightarrow> (\<exists>t t'. before = Some t \<and> after = Some t' \<and> th_state t' = THREAD_STATE_SCHEDULED
     \<and> th_wq t' = None \<and> th_ctx t' = th_ctx t \<and> th_tid t' = th_tid t \<and> th_proc t' = th_proc t
     \<and> th_stack_base t' = th_stack_base t \<and> th_exit_ret_val t' = th_exit_ret_val t \<and> th_wait_ctx t' = th_wait_ctx t)"

lemma wq_rep_timed: "wq_rep w (AWQ_timed now ws rs) \<Longrightarrow>
    \<exists>q. w = WQ_timed q \<and> twq_time q = now \<and> twq_rep ll_inv ll_inv q ws rs"
  by (cases w) auto

lemma wq_rep_vector: "wq_rep w (AWQ_vector ws rs) \<Longrightarrow> \<exists>q. w = WQ_vector q \<and> vwq_rep ll_inv ll_inv q ws rs"
  by (cases w) auto

lemma twq_pop_time: "twq_pop IR q old = Some (e, i, q') \<Longrightarrow> twq_time q' = twq_time q"
  by (auto simp: twq_pop_def bind_Some_simp split: if_splits)

lemma tick_wake_loop_rep:
  assumes "clocked K W S as ws rs"
  shows "\<exists>K'. tick_wake_loop K old = Some (FOS_E_EMPTY, K')
    \<and> clocked K' (W(k_sleep_q K \<mapsto> AWQ_timed (k_curr_tick K) ws [])) (S(k_schedule K \<mapsto> as @ rs)) (as @ rs) ws []
    \<and> same_frame K K' \<and> (\<forall>b. b \<notin> set rs \<longrightarrow> k_threads K' b = k_threads K b)
    \<and> (\<forall>b\<in>set rs. put_on (k_threads K b) (k_threads K' b))"
  using assms
proof (induction rs arbitrary: K W S as old)
  case Nil
  note c = clockedD [OF Nil]
  from placed_queue [OF c(1,3)] obtain w where
    "k_wqs K (k_sleep_q K) = Some w" "wq_rep w (AWQ_timed (k_curr_tick K) ws [])" .
  then obtain q where w: "k_wqs K (k_sleep_q K) = Some (WQ_timed q)" "twq_rep ll_inv ll_inv q ws []"
    using wq_rep_timed by blast
  have "twq_pop LL_IMPL q old = Some (FOS_E_EMPTY, old, q)" using ll_timed.twq_pop_rep [OF w(2), of old] by simp
  then have "tick_wake_loop K old = Some (FOS_E_EMPTY, K)"
    using w(1) by (subst tick_wake_loop.simps) (simp add: timed_queue_def fun_upd_idem)
  then show ?case using Nil c by (simp add: fun_upd_idem)
next
  case (Cons a rs)
  note c = clockedD [OF Cons.prems]
  let ?sq = "k_sleep_q K" and ?sch = "k_schedule K"
  from placed_queue [OF c(1,3)] obtain w where
    "k_wqs K ?sq = Some w" "wq_rep w (AWQ_timed (k_curr_tick K) ws (a # rs))" .
  then obtain q where w: "k_wqs K ?sq = Some (WQ_timed q)" "twq_time q = k_curr_tick K"
    "twq_rep ll_inv ll_inv q ws (a # rs)" using wq_rep_timed by blast
  from ll_timed.twq_pop_rep [OF w(3), of old] obtain q' where
    q': "twq_pop LL_IMPL q old = Some (FOS_E_SUCCESS, Some a, q')" "twq_rep ll_inv ll_inv q' ws rs" by auto
  have time: "twq_time q' = k_curr_tick K" using twq_pop_time [OF q'(1)] w(2) by simp
  from placed_item [OF c(1,3), of a] obtain t where t: "k_threads K a = Some t" "th_wq t = Some ?sq" by auto
  have d: "distinct (map tw_item ws @ a # rs)" using placedD(7) [OF c(1,3)] by simp
  then have rem: "awq_remove a (AWQ_timed (k_curr_tick K) ws (a # rs)) = AWQ_timed (k_curr_tick K) ws rs"
    by (auto simp: filter_id_conv)
  have rep: "wq_rep (WQ_timed q') (awq_remove a (AWQ_timed (k_curr_tick K) ws (a # rs)))"
    unfolding rem using q'(2) time by simp
  let ?t = "t\<lparr>th_wq := None, th_state := THREAD_STATE_DETATCHED\<rparr>"
  from placed_wake [OF c(1) t c(3) rep c(2), of ?t] obtain K1 t1 where K1:
    "thread_schedule (set_thread a ?t (set_wq ?sq (WQ_timed q') K)) a ?sch = Some K1"
    "placed K1 (W(?sq \<mapsto> AWQ_timed (k_curr_tick K) ws rs)) (S(?sch \<mapsto> as @ [a]))"
    "k_threads K1 = (k_threads K)(a \<mapsto> t1)" "same_frame K K1"
    "th_wq t1 = None" "th_state t1 = THREAD_STATE_SCHEDULED" "th_ctx t1 = th_ctx t"
    "th_tid t1 = th_tid t" "th_proc t1 = th_proc t" "th_stack_base t1 = th_stack_base t"
    "th_exit_ret_val t1 = th_exit_ret_val t" "th_wait_ctx t1 = th_wait_ctx t" unfolding rem by auto
  have fr: "k_sleep_q K1 = ?sq" "k_schedule K1 = ?sch" "k_curr_tick K1 = k_curr_tick K"
    using K1(4) by (simp_all add: same_frame_def)
  have "clocked K1 (W(?sq \<mapsto> AWQ_timed (k_curr_tick K) ws rs)) (S(?sch \<mapsto> as @ [a])) (as @ [a]) ws rs"
    using K1(2) by (simp add: clocked_def fr)
  from Cons.IH [OF this, of "Some a"] obtain K' where K':
    "tick_wake_loop K1 (Some a) = Some (FOS_E_EMPTY, K')"
    "clocked K' (W(?sq \<mapsto> AWQ_timed (k_curr_tick K) ws [])) (S(?sch \<mapsto> as @ a # rs)) (as @ a # rs) ws []"
    "same_frame K1 K'" "\<forall>b. b \<notin> set rs \<longrightarrow> k_threads K' b = k_threads K1 b"
    "\<forall>b\<in>set rs. put_on (k_threads K1 b) (k_threads K' b)"
    by (auto simp only: fun_upd_upd fr append_Cons append_assoc append_Nil)
  have "tick_wake_loop K old = Some (FOS_E_EMPTY, K')"
    using w(1) q'(1) t K1(1) K'(1) by (subst tick_wake_loop.simps) (simp add: timed_queue_def)
  moreover have na: "a \<notin> set rs" using d by simp
  moreover have "put_on (k_threads K a) (k_threads K' a)" using K'(4) K1 t(1) na by (auto simp: put_on_def)
  moreover have "put_on (k_threads K b) (k_threads K' b)" if "b \<in> set rs" for b
    using that K'(5) K1(3) na by (cases "b = a") auto
  moreover have "k_threads K' b = k_threads K b" if "b \<notin> set (a # rs)" for b
    using that K'(4) K1(3) by simp
  ultimately show ?case
    using K'(2) same_frame_trans [OF K1(4) K'(3)] by (intro exI [of _ K']) (simp del: fun_upd_apply)
qed

text \<open>Of the waiters, those due one tick later are the ones whose wake time it is.\<close>

lemma due_next: "0 < ticks_left now p \<Longrightarrow> due now (now + 1) p \<longleftrightarrow> tw_wake_time p = now + 1"
proof -
  assume "0 < ticks_left now p"
  then have "due now (now + 1) p \<longleftrightarrow> ticks_left now p = 1" by (auto simp: due_def)
  also have "\<dots> \<longleftrightarrow> unat (tw_wake_time p - now) = unat (1 :: 32 word)" by (simp add: ticks_left_def)
  also have "\<dots> \<longleftrightarrow> tw_wake_time p - now = 1" by (simp only: word_unat_eq_iff)
  also have "\<dots> \<longleftrightarrow> tw_wake_time p = now + 1" by (auto simp: algebra_simps)
  finally show ?thesis .
qed

lemma placed_rotate:
  assumes pl: "placed K W S" and r: "S r = Some as"
  shows "\<exists>rs. ring_advance (k_rings K) r = Some rs \<and> placed (K\<lparr>k_rings := rs\<rparr>) W (S(r \<mapsto> rotate1 as))"
proof -
  obtain rs where rs: "ring_advance (k_rings K) r = Some rs" "ring_rep rs (S(r \<mapsto> rotate1 as))"
    "relems rs = relems (k_rings K)" using ring_advance_rep [OF placedD(1) [OF pl] r] by blast
  have on: "on_ring (S(r \<mapsto> rotate1 as)) b = on_ring S b" for b
  proof
    assume "on_ring (S(r \<mapsto> rotate1 as)) b"
    then show "on_ring S b" using r by (auto simp: on_ring_def split: if_splits)
  next
    assume "on_ring S b"
    then obtain q bs where q: "S q = Some bs" "b \<in> set bs" by (auto simp: on_ring_def)
    then show "on_ring (S(r \<mapsto> rotate1 as)) b"
      using r unfolding on_ring_def by (cases "q = r") (auto intro: exI [of _ q])
  qed
  have "located W (S(r \<mapsto> rotate1 as)) b t" if "k_threads K b = Some t" for b t
    by (rule located_other [OF placedD(8) [OF pl that] on refl]) simp
  then have "placed (K\<lparr>k_rings := rs\<rparr>) W (S(r \<mapsto> rotate1 as))"
    using placedD(2-7) [OF pl] rs unfolding placed_def by simp
  then show ?thesis using rs(1) by blast
qed

text \<open>One tick of the clock, up to the hooks of the plugins.\<close>

definition next_schedule :: "addr list \<Rightarrow> addr list \<Rightarrow> addr list" where
  "next_schedule as wk = (if as = [] then wk else rotate1 (as @ wk))"

definition waking :: "32 word \<Rightarrow> addr twq_wait_pair list \<Rightarrow> addr list" where
  "waking t ws = map tw_item (filter (\<lambda>p. tw_wake_time p = t) ws)"

definition asleep :: "32 word \<Rightarrow> addr twq_wait_pair list \<Rightarrow> addr twq_wait_pair list" where
  "asleep t ws = filter (\<lambda>p. tw_wake_time p \<noteq> t) ws"

definition tick_frame :: "'m kernel \<Rightarrow> 'm kernel \<Rightarrow> bool" where
  "tick_frame K K' \<longleftrightarrow> k_procs K' = k_procs K \<and> k_handles K' = k_handles K \<and> k_schedule K' = k_schedule K
     \<and> k_proc_table K' = k_proc_table K \<and> k_root_proc K' = k_root_proc K \<and> k_sleep_q K' = k_sleep_q K
     \<and> k_plugins K' = k_plugins K \<and> k_mem K' = k_mem K"

lemma ks_tick_rep:
  assumes c: "clocked K W S as ws rs" and al: "alloc_ok (ke_al E)" "\<not> oom (ke_al E)"
    and t: "t = k_curr_tick K + 1" and wk: "wk = rs @ waking t ws"
  shows "\<exists>K'. ks_tick E K = (if t AND 0xF = 0 then plgs_tick E K' else Some (FOS_E_SUCCESS, K'))
    \<and> clocked K' (W(k_sleep_q K \<mapsto> AWQ_timed t (asleep t ws) [])) (S(k_schedule K \<mapsto> next_schedule as wk))
        (next_schedule as wk) (asleep t ws) []
    \<and> k_curr_tick K' = t \<and> tick_frame K K'
    \<and> (\<forall>b. b \<notin> set wk \<longrightarrow> k_threads K' b = k_threads K b)
    \<and> (\<forall>b\<in>set wk. put_on (k_threads K b) (k_threads K' b))"
proof -
  let ?sq = "k_sleep_q K" and ?sch = "k_schedule K"
  note c = clockedD [OF c]
  from placed_queue [OF c(1,3)] obtain w where "k_wqs K ?sq = Some w" "wq_rep w (AWQ_timed (k_curr_tick K) ws rs)" .
  then obtain q where w: "k_wqs K ?sq = Some (WQ_timed q)" "twq_time q = k_curr_tick K"
    "twq_rep ll_inv ll_inv q ws rs" using wq_rep_timed by blast
  have ord: "twq_ordered (k_curr_tick K) ws" using w(2,3) by (simp add: twq_rep_def)
  have due: "due (twq_time q) t p \<longleftrightarrow> tw_wake_time p = t" if "p \<in> set ws" for p
    unfolding t w(2) by (rule due_next) (use ord that in \<open>simp add: twq_ordered_def\<close>)
  have f: "filter (due (twq_time q) t) ws = filter (\<lambda>p. tw_wake_time p = t) ws"
    "filter (\<lambda>p. \<not> due (twq_time q) t p) ws = asleep t ws"
    unfolding asleep_def by (simp_all add: due cong: filter_cong)
  from ll_timed.twq_notify_rep [OF w(3) al(1), of t] al(2) obtain q' where
    q': "twq_notify LL_IMPL LL_IMPL (ke_al E) q t = Some (FOS_E_SUCCESS, q')" "twq_time q' = t"
    "twq_rep ll_inv ll_inv q' (asleep t ws) wk" unfolding f wk waking_def by auto
  let ?K = "K\<lparr>k_curr_tick := t\<rparr>" and ?aq = "AWQ_timed t (asleep t ws) wk"
  have pl1: "placed ?K W S" using c(1) by (simp add: placed_def)
  have ms: "mset (map tw_item (asleep t ws) @ wk) = mset (map tw_item ws @ rs)"
    using multiset_partition [of "mset ws" "\<lambda>p. tw_wake_time p = t"] unfolding wk waking_def asleep_def
    by (simp flip: image_mset_union mset_filter) (metis image_mset_union union_commute)
  have d: "distinct (awq_items ?aq)" using mset_eq_imp_distinct_iff [OF ms] placedD(7) [OF c(1,3)] by simp
  have s: "set (awq_items ?aq) = set (awq_items (AWQ_timed (k_curr_tick K) ws rs))" using mset_eq_setD [OF ms] by simp
  have "placed (set_wq ?sq (WQ_timed q') ?K) (W(?sq \<mapsto> ?aq)) S"
    by (rule placed_set_wq [OF pl1 _ _ d s]) (simp_all add: c(3) q'(2,3))
  then have "clocked (set_wq ?sq (WQ_timed q') ?K) (W(?sq \<mapsto> ?aq)) S as (asleep t ws) wk"
    using c(2) by (simp add: clocked_def)
  from tick_wake_loop_rep [OF this, of None] obtain K1 where K1:
    "tick_wake_loop (set_wq ?sq (WQ_timed q') ?K) None = Some (FOS_E_EMPTY, K1)"
    "clocked K1 (W(?sq \<mapsto> AWQ_timed t (asleep t ws) [])) (S(?sch \<mapsto> as @ wk)) (as @ wk) (asleep t ws) []"
    "same_frame (set_wq ?sq (WQ_timed q') ?K) K1"
    "\<forall>b. b \<notin> set wk \<longrightarrow> k_threads K1 b = k_threads K b" "\<forall>b\<in>set wk. put_on (k_threads K b) (k_threads K1 b)"
    by (auto simp del: fun_upd_apply)
  note c1 = clockedD [OF K1(2)]
  have fr: "k_sleep_q K1 = ?sq" "k_schedule K1 = ?sch" "k_curr_tick K1 = t" "tick_frame K K1"
    using K1(3) by (simp_all add: same_frame_def tick_frame_def)
  have head: "ks_head K = Some (fst_or None as)" by (rule placed_head [OF c(1,2)])
  have tick: "ks_tick E K = do {
      K \<leftarrow> (if as \<noteq> [] then do { rs \<leftarrow> ring_advance (k_rings K1) ?sch; Some (K1\<lparr>k_rings := rs\<rparr>) } else Some K1);
      if k_curr_tick K AND 0xF = 0 then plgs_tick E K else Some (FOS_E_SUCCESS, K) }"
    using w(1) q'(1) K1(1) head fr by (cases "as = []") (simp_all add: ks_tick_def timed_queue_def Let_def t [symmetric])
  show ?thesis
  proof (cases "as = []")
    case True
    then show ?thesis using tick K1 fr by (intro exI [of _ K1]) (simp add: next_schedule_def del: fun_upd_apply)
  next
    case False
    obtain rs' where rs': "ring_advance (k_rings K1) ?sch = Some rs'"
      "placed (K1\<lparr>k_rings := rs'\<rparr>) (W(?sq \<mapsto> AWQ_timed t (asleep t ws) [])) (S(?sch \<mapsto> rotate1 (as @ wk)))"
      using placed_rotate [OF c1(1,2)] unfolding fr fun_upd_upd by blast
    then have "clocked (K1\<lparr>k_rings := rs'\<rparr>) (W(?sq \<mapsto> AWQ_timed t (asleep t ws) []))
        (S(?sch \<mapsto> rotate1 (as @ wk))) (rotate1 (as @ wk)) (asleep t ws) []"
      by (simp add: clocked_def fr)
    then show ?thesis using tick rs'(1) False K1(4,5) fr
      by (intro exI [of _ "K1\<lparr>k_rings := rs'\<rparr>"]) (simp add: next_schedule_def tick_frame_def del: fun_upd_apply)
  qed
qed

section \<open>Going to sleep\<close>

text \<open>
  The step all blocking calls share: the running thread has been enqueued, leaves the schedule and
  is marked waiting.
\<close>

lemma placed_wait:
  assumes pl: "placed K W S" and t: "k_threads K a = Some t" and st: "th_state t = THREAD_STATE_SCHEDULED"
    and W: "W q = Some aq" and rep: "wq_rep w' aq'" and d: "distinct (awq_items aq')"
    and items: "set (awq_items aq') = insert a (set (awq_items aq))"
    and f: "\<And>t. th_wq (f t) = Some q" "\<And>t. th_state (f t) = THREAD_STATE_WAITING"
  shows "\<exists>K' K''. thread_detach (set_wq q w' K) a = Some K' \<and> upd_thread K' a f = Some K''
    \<and> placed K'' (W(q \<mapsto> aq')) (without a S) \<and> same_frame K K' \<and> same_frame K K''
    \<and> k_threads K'' = (k_threads K)(a \<mapsto> f (t\<lparr>th_state := THREAD_STATE_DETATCHED\<rparr>))"
proof -
  obtain e where e: "relems (k_rings K) a = Some e" by (rule placed_elem [OF pl t])
  obtain rs where rs: "ring_element_detach (k_rings K) a = Some rs" "ring_rep rs (without a S)"
    "dom (relems rs) = dom (relems (k_rings K))" using ring_detach [OF placedD(1) [OF pl] e] by blast
  let ?t = "t\<lparr>th_state := THREAD_STATE_DETATCHED\<rparr>"
  let ?K' = "set_thread a ?t (K\<lparr>k_rings := rs, k_wqs := (k_wqs K)(q \<mapsto> w')\<rparr>)"
  let ?K'' = "K\<lparr>k_rings := rs, k_wqs := (k_wqs K)(q \<mapsto> w'), k_threads := (k_threads K)(a \<mapsto> f ?t)\<rparr>"
  note loc = placedD(8) [OF pl t]
  have wq: "th_wq t = None" using locatedD(1) [OF loc] st by simp
  have "placed ?K'' (W(q \<mapsto> aq')) (without a S)"
  proof (rule placed_move [OF pl t rs(2,3)])
    show "located (W(q \<mapsto> aq')) (without a S) a (f ?t)"
      using locatedD(4) [OF loc] wq items by (auto simp: located_def f on_ring_without)
    show "dom ((k_wqs K)(q \<mapsto> w')) = dom W" "dom (W(q \<mapsto> aq')) = dom W" using placedD(5) [OF pl] W by auto
  next
    fix q' w aq1 assume "((k_wqs K)(q \<mapsto> w')) q' = Some w" "(W(q \<mapsto> aq')) q' = Some aq1"
    then show "wq_rep w aq1" using rep placedD(6) [OF pl] by (cases "q' = q") auto
  next
    fix q' aq1 assume "(W(q \<mapsto> aq')) q' = Some aq1"
    then show "distinct (awq_items aq1)" using d placedD(7) [OF pl] by (cases "q' = q") auto
  next
    fix q' aq1 aq2 b assume "W q' = Some aq1" "(W(q \<mapsto> aq')) q' = Some aq2" "b \<noteq> a"
    then show "b \<in> set (awq_items aq2) \<longleftrightarrow> b \<in> set (awq_items aq1)" using W items by (cases "q' = q") auto
  qed (auto simp: on_ring_without)
  moreover have "thread_detach (set_wq q w' K) a = Some ?K'" using t st rs(1) by (simp add: thread_detach_def)
  moreover have "upd_thread ?K' a f = Some ?K''" by (simp add: upd_thread_def)
  moreover have "same_frame K ?K'" "same_frame K ?K''" by (simp_all add: same_frame_def)
  ultimately show ?thesis by (intro exI [of _ ?K'] exI [of _ ?K'']) simp
qed

definition sleepers :: "32 word \<Rightarrow> addr \<Rightarrow> 32 word \<Rightarrow> addr twq_wait_pair list \<Rightarrow> addr twq_wait_pair list" where
  "sleepers now a wt ws =
     (let np = \<lparr>tw_item = a, tw_wake_time = wt\<rparr>; le = (\<lambda>p. ticks_left now p \<le> ticks_left now np)
      in takeWhile le ws @ np # dropWhile le ws)"

lemma sleepers_split: "\<exists>us vs. ws = us @ vs \<and> sleepers now a wt ws = us @ \<lparr>tw_item = a, tw_wake_time = wt\<rparr> # vs"
proof -
  let ?le = "\<lambda>p. ticks_left now p \<le> ticks_left now \<lparr>tw_item = a, tw_wake_time = wt\<rparr>"
  have "ws = takeWhile ?le ws @ dropWhile ?le ws" by simp
  then show ?thesis unfolding sleepers_def Let_def by blast
qed

lemma placed_ring_distinct: "placed K W S \<Longrightarrow> S r = Some as \<Longrightarrow> distinct as"
  by (drule placedD(1)) (auto simp: ring_rep_def ring_is_def)

text \<open>The sleep queue after a thread has gone to sleep; zero ticks make it due at once.\<close>

definition sleep_queue :: "32 word \<Rightarrow> addr \<Rightarrow> 32 word \<Rightarrow> addr twq_wait_pair list \<Rightarrow> addr list
  \<Rightarrow> addr twq_wait_pair list \<times> addr list" where
  "sleep_queue now a ticks ws rs = (if ticks = 0 then (ws, rs @ [a]) else (sleepers now a (now + ticks) ws, rs))"

lemma sleep_queue_items:
  assumes "sleep_queue now a ticks ws rs = (ws', rs')" and "distinct (map tw_item ws @ rs)" and "a \<notin> set (map tw_item ws @ rs)"
  shows "distinct (map tw_item ws' @ rs')" and "set (map tw_item ws' @ rs') = insert a (set (map tw_item ws @ rs))"
proof -
  obtain us vs where sp: "ws = us @ vs" "sleepers now a (now + ticks) ws = us @ \<lparr>tw_item = a, tw_wake_time = now + ticks\<rparr> # vs"
    using sleepers_split by blast
  have ms: "mset (map tw_item ws' @ rs') = mset (a # map tw_item ws @ rs)"
  proof (cases "ticks = 0")
    case True
    then show ?thesis using assms(1) by (auto simp: sleep_queue_def)
  next
    case False
    then have "ws' = us @ \<lparr>tw_item = a, tw_wake_time = now + ticks\<rparr> # vs" "rs' = rs"
      using assms(1) sp(2) by (simp_all add: sleep_queue_def)
    then show ?thesis unfolding sp(1) by simp
  qed
  show "distinct (map tw_item ws' @ rs')" using mset_eq_imp_distinct_iff [OF ms] assms(2,3) by simp
  show "set (map tw_item ws' @ rs') = insert a (set (map tw_item ws @ rs))" using mset_eq_setD [OF ms] by simp
qed

lemma ks_sleep_rep:
  assumes c: "clocked K W S (a # as) ws rs" and al: "alloc_ok (ke_al E)" "\<not> oom (ke_al E)"
    and sq: "sleep_queue (k_curr_tick K) a ticks ws rs = (ws', rs')"
  shows "\<exists>K' t t'. ks_sleep_thread E K ticks = Some (Returns FOS_E_SUCCESS, K')
    \<and> clocked K' (W(k_sleep_q K \<mapsto> AWQ_timed (k_curr_tick K) ws' rs')) (without a S) as ws' rs'
    \<and> same_frame K K' \<and> k_threads K a = Some t \<and> k_threads K' = (k_threads K)(a \<mapsto> t')
    \<and> t' = t\<lparr>th_wq := Some (k_sleep_q K), th_state := THREAD_STATE_WAITING\<rparr>"
proof -
  let ?sq = "k_sleep_q K" and ?now = "k_curr_tick K" and ?wt = "k_curr_tick K + ticks"
  note c' = clockedD [OF c]
  obtain t where t: "k_threads K a = Some t" "th_state t = THREAD_STATE_SCHEDULED" "th_wq t = None"
    by (rule placed_on_schedule [OF c'(1,2), of a]) simp
  from placed_queue [OF c'(1,3)] obtain w where "k_wqs K ?sq = Some w" "wq_rep w (AWQ_timed ?now ws rs)" .
  then obtain q where w: "k_wqs K ?sq = Some (WQ_timed q)" "twq_time q = ?now" "twq_rep ll_inv ll_inv q ws rs"
    using wq_rep_timed by blast
  from ll_timed.twq_enqueue_rep [OF w(3) al(1), of a ?wt] al(2) sq obtain q' where
    q': "twq_enqueue LL_IMPL LL_IMPL (ke_al E) q a ?wt = Some (FOS_E_SUCCESS, q')" "twq_time q' = ?now"
    "twq_rep ll_inv ll_inv q' ws' rs'" unfolding w(2) sleep_queue_def sleepers_def Let_def by (auto split: if_splits)
  have "a \<notin> set (map tw_item ws @ rs)"
    using locatedD(4) [OF placedD(8) [OF c'(1) t(1)] c'(3)] t(3) by simp
  from sleep_queue_items [OF sq _ this] placedD(7) [OF c'(1,3)]
  have d: "distinct (awq_items (AWQ_timed ?now ws' rs'))"
    and s: "set (awq_items (AWQ_timed ?now ws' rs')) = insert a (set (awq_items (AWQ_timed ?now ws rs)))" by simp_all
  let ?f = "\<lambda>t. t\<lparr>th_wq := Some ?sq, th_state := THREAD_STATE_WAITING\<rparr>"
  have rep: "wq_rep (WQ_timed q') (AWQ_timed ?now ws' rs')" using q' by simp
  from placed_wait [OF c'(1) t(1,2) c'(3) rep d s, of ?f] obtain K1 K2 where K:
    "thread_detach (set_wq ?sq (WQ_timed q') K) a = Some K1" "upd_thread K1 a ?f = Some K2"
    "placed K2 (W(?sq \<mapsto> AWQ_timed ?now ws' rs')) (without a S)" "same_frame K K1" "same_frame K K2"
    "k_threads K2 = (k_threads K)(a \<mapsto> ?f (t\<lparr>th_state := THREAD_STATE_DETATCHED\<rparr>))" by auto
  have fr: "k_sleep_q K1 = ?sq" "k_sleep_q K2 = ?sq" "k_schedule K2 = k_schedule K" "k_curr_tick K2 = ?now"
    using K(4,5) by (simp_all add: same_frame_def)
  have "ks_sleep_thread E K ticks = Some (Returns FOS_E_SUCCESS, K2)"
    using placed_head [OF c'(1,2)] t(1) w(1) q'(1) K(1,2) fr(1)
    by (simp add: ks_sleep_thread_def with_current_def timed_queue_def Let_def)
  moreover have "removeAll a (a # as) = as" using placed_ring_distinct [OF c'(1,2)] by simp
  then have "clocked K2 (W(?sq \<mapsto> AWQ_timed ?now ws' rs')) (without a S) as ws' rs'"
    using K(3) c'(2) by (simp add: clocked_def fr without_def)
  ultimately show ?thesis using K(5,6) t(1) by (intro exI [of _ K2] exI [of _ t] exI) auto
qed

section \<open>The promises of the scheduler\<close>

lemma sample_clocked: "clocked sample_kernel sample_queues sample_schedule [1, 2] [] []"
  using sample_placed by (simp add: clocked_def) (simp add: sample_kernel_def sample_schedule_def sample_queues_def)

text \<open>Scheduling a thread, wherever it is: it leaves the wait queue or the ring it was in, stands at
  the end of the given ring, and no other thread moves; its registers and identity are kept.\<close>

theorem thread_schedule_spec:
  assumes "placed K W S" and "k_threads K a = Some t" and "S r = Some as"
  shows "\<exists>K' t'. thread_schedule K a r = Some K' \<and> placed K' (awithout a W) ((without a S)(r \<mapsto> removeAll a as @ [a]))
    \<and> k_threads K' = (k_threads K)(a \<mapsto> t') \<and> th_state t' = THREAD_STATE_SCHEDULED \<and> th_wq t' = None
    \<and> th_ctx t' = th_ctx t \<and> th_tid t' = th_tid t \<and> th_proc t' = th_proc t \<and> same_frame K K'"
proof -
  have "scheduled S r a = (without a S)(r \<mapsto> removeAll a as @ [a])"
    using assms(3) by (simp add: scheduled_def without_def)
  then show ?thesis using thread_schedule_rep [OF assms] by (auto simp del: fun_upd_apply)
qed

theorem thread_schedule_spec_witness:
  "\<exists>K'. thread_schedule sample_kernel 3 10 = Some K'
    \<and> placed K' (awithout 3 sample_queues) ((without 3 sample_schedule)(10 \<mapsto> [1, 2, 3]))"
  using thread_schedule_spec [OF sample_placed, of 3 "sample_thread 1 51 THREAD_STATE_WAITING (Some 34)" 10 "[1, 2]"]
  by (auto simp: sample_threads sample_schedule_def)

text \<open>Waking all threads of a basic queue: unless memory runs out, they are moved to the end of the
  schedule in the order of their arrival, each with the wake status in its result register, and no other
  thread changes.\<close>

theorem bwq_wake_all_spec:
  assumes "placed K W S" and "W q = Some (AWQ_basic ws rs)" and "S r = Some as" and "alloc_ok al"
  shows "\<exists>e K'. bwq_wake_all_threads al K (Some q) (Some r) status = Some (e, K') \<and> same_frame K K'
    \<and> (e = FOS_E_SUCCESS \<and> placed K' (W(q \<mapsto> AWQ_basic [] [])) (S(r \<mapsto> as @ rs @ ws))
         \<and> (\<forall>b\<in>set (rs @ ws). woken (err_word status) (k_threads K b) (k_threads K' b))
         \<and> (\<forall>b. b \<notin> set (rs @ ws) \<longrightarrow> k_threads K' b = k_threads K b)
       \<or> e = FOS_E_NO_MEM \<and> oom al \<and> k_threads K' = k_threads K
         \<and> (\<exists>n < length ws. placed K' (W(q \<mapsto> AWQ_basic (drop n ws) (rs @ take n ws))) S))"
  by (rule bwq_wake_all_rep [OF assms])

theorem bwq_wake_all_spec_witness:
  "\<exists>K'. bwq_wake_all_threads bump_alloc sample_kernel (Some 40) (Some 10) FOS_E_EMPTY = Some (FOS_E_SUCCESS, K')
    \<and> placed K' (sample_queues(40 \<mapsto> AWQ_basic [] [])) (sample_schedule(10 \<mapsto> [1, 2, 6]))"
proof -
  have "sample_queues 40 = Some (AWQ_basic [6] [])" "sample_schedule 10 = Some [1, 2]"
    by (simp_all add: sample_queues_def sample_schedule_def)
  from bwq_wake_all_spec [OF sample_placed this bump_alloc_ok(1), of FOS_E_EMPTY] show ?thesis
    by (auto simp del: fun_upd_apply)
qed

text \<open>C7. A timer tick, with an allocator that does not fail: the clock moves by one, across the wrap-around
  too; exactly the sleeping threads whose wake time it shows, and those already due, join the end of the
  schedule; then the processor passes to the next thread in turn, unless nobody was running; the plugins
  get their tick at every sixteenth.\<close>

theorem ks_tick_spec:
  assumes "clocked K W S as ws rs" and "alloc_ok (ke_al E)" and "\<not> oom (ke_al E)"
  shows "\<exists>K'. let t = k_curr_tick K + 1; wk = rs @ map tw_item (filter (\<lambda>p. tw_wake_time p = t) ws);
      as' = (if as = [] then wk else rotate1 (as @ wk)); ws' = filter (\<lambda>p. tw_wake_time p \<noteq> t) ws
    in ks_tick E K = (if t AND 0xF = 0 then plgs_tick E K' else Some (FOS_E_SUCCESS, K'))
    \<and> clocked K' (W(k_sleep_q K \<mapsto> AWQ_timed t ws' [])) (S(k_schedule K \<mapsto> as')) as' ws' []
    \<and> k_curr_tick K' = t \<and> tick_frame K K'
    \<and> (\<forall>b. b \<notin> set wk \<longrightarrow> k_threads K' b = k_threads K b)
    \<and> (\<forall>b\<in>set wk. put_on (k_threads K b) (k_threads K' b))"
  using ks_tick_rep [OF assms refl refl] unfolding Let_def next_schedule_def waking_def asleep_def .

theorem ks_tick_spec_witness:
  "\<exists>K'. ks_tick sample_env sample_kernel = plgs_tick sample_env K' \<and> k_curr_tick K' = 0
    \<and> clocked K' (sample_queues(30 \<mapsto> AWQ_timed 0 [] [])) (sample_schedule(10 \<mapsto> [2, 1])) [2, 1] [] []"
proof -
  have t: "k_curr_tick sample_kernel + 1 = 0" by (simp add: sample_kernel_def)
  have f: "k_sleep_q sample_kernel = 30" "k_schedule sample_kernel = 10" by (simp_all add: sample_kernel_def)
  have r: "rotate1 ([1, 2] @ [] @ map tw_item (filter (\<lambda>p. tw_wake_time p = 0) [])) = [2, 1]" by simp
  from ks_tick_spec [OF sample_clocked, of sample_env] show ?thesis
    unfolding Let_def t f r sample_env_al by (auto simp del: fun_upd_apply One_nat_def)
qed

end
