(* ===== verification/Signals.thy ===== *)
theory Signals
  imports Scheduling
begin

text \<open>
  Signals (\<^verbatim>\<open>ks_signal_p\<close>, \<^verbatim>\<open>ks_wait_signal\<close>, \<^verbatim>\<open>ks_allow_signal\<close> and \<^verbatim>\<open>ks_signal_clear\<close> of
  \<^verbatim>\<open>k_startup/src/state.c\<close>) over the placement of threads: which thread a signal wakes, and that
  a signal is never lost.
\<close>

section \<open>Sending\<close>

lemma placed_procs [simp]: "placed (K\<lparr>k_procs := ps\<rparr>) W S = placed K W S"
  and placed_mem [simp]: "placed (K\<lparr>k_mem := m\<rparr>) W S = placed K W S"
  and placed_tick [simp]: "placed (K\<lparr>k_curr_tick := n\<rparr>) W S = placed K W S"
  and placed_table [simp]: "placed (K\<lparr>k_proc_table := pt\<rparr>) W S = placed K W S"
  by (simp_all add: placed_def)

lemma to_user_opt_mem: "\<exists>m. to_user_opt E K pd dest ws = K\<lparr>k_mem := m\<rparr>"
  unfolding to_user_opt_def to_user_def by (cases "dest = 0") (auto intro: exI [of _ "k_mem K"])

text \<open>The first waiter that accepts an event, and the waiters that remain.\<close>

definition first_waiter :: "nat \<Rightarrow> addr vwq_wait_pair list \<Rightarrow> addr vwq_wait_pair option" where
  "first_waiter i ws = find (\<lambda>p. bit (vw_mask p) i) ws"

definition waiters_after :: "nat \<Rightarrow> addr vwq_wait_pair list \<Rightarrow> addr vwq_wait_pair list" where
  "waiters_after i ws =
     takeWhile (\<lambda>p. \<not> bit (vw_mask p) i) ws @ tl (dropWhile (\<lambda>p. \<not> bit (vw_mask p) i) ws)"

lemma find_filter: "find P xs = (case filter P xs of [] \<Rightarrow> None | x # _ \<Rightarrow> Some x)"
  by (induction xs) auto

lemma first_waiter_None:
  assumes "first_waiter i ws = None"
  shows "waiters_after i ws = ws \<and> filter (\<lambda>p. bit (vw_mask p) i) ws = []"
proof -
  have n: "\<forall>p\<in>set ws. \<not> bit (vw_mask p) i" using assms by (simp add: first_waiter_def find_None_iff)
  then have tw: "takeWhile (\<lambda>p. \<not> bit (vw_mask p) i) ws = ws" "dropWhile (\<lambda>p. \<not> bit (vw_mask p) i) ws = []"
    by (simp_all add: takeWhile_eq_all_conv dropWhile_eq_Nil_conv)
  show ?thesis unfolding waiters_after_def tw using n by (simp add: filter_empty_conv)
qed

lemma first_waiter_Some:
  assumes "first_waiter i ws = Some p"
  obtains us vs where "ws = us @ p # vs" "waiters_after i ws = us @ vs" "bit (vw_mask p) i"
    "take 1 (filter (\<lambda>p. bit (vw_mask p) i) ws) = [p]"
proof -
  let ?a = "\<lambda>p. bit (vw_mask p) i"
  obtain vs where f: "filter ?a ws = p # vs" using assms by (auto simp: first_waiter_def find_filter split: list.splits)
  then obtain us ws' where sp: "ws = us @ p # ws'" "\<forall>u\<in>set us. \<not> ?a u" "?a p"
    by (auto simp: filter_eq_Cons_iff)
  then have "waiters_after i ws = us @ ws'" by (simp add: waiters_after_def takeWhile_append dropWhile_append)
  then show ?thesis using that sp f by simp
qed

text \<open>
  An event on a vector queue with an empty ready list, followed at once by a pop: the pattern of
  signals and joins.  Afterwards the ready list is empty again.
\<close>

lemma notify_pop:
  assumes rep: "vwq_rep ll_inv ll_inv q ws []" and al: "alloc_ok al" and i: "i < 32"
  shows "\<exists>e q1. vwq_notify LL_IMPL LL_IMPL al q i VWQ_NOTIFY_FIRST = Some (e, q1)
    \<and> (e = FOS_E_SUCCESS \<and> (case first_waiter i ws of
           None \<Rightarrow> vwq_pop LL_IMPL q1 = Some (FOS_E_EMPTY, None, VWQ_NULL_READY_ID, q1) \<and> vwq_rep ll_inv ll_inv q1 ws []
         | Some p \<Rightarrow> \<exists>q2. vwq_pop LL_IMPL q1 = Some (FOS_E_SUCCESS, Some (vw_item p), i, q2)
             \<and> vwq_rep ll_inv ll_inv q2 (waiters_after i ws) [])
       \<or> e = FOS_E_NO_MEM \<and> oom al \<and> vwq_rep ll_inv ll_inv q1 ws [])"
proof -
  obtain e q1 where n: "vwq_notify LL_IMPL LL_IMPL al q i VWQ_NOTIFY_FIRST = Some (e, q1)"
    "e = FOS_E_SUCCESS \<and> vwq_rep ll_inv ll_inv q1 (waiters_after i ws)
         (map (vwq_ready i) (take 1 (filter (\<lambda>p. bit (vw_mask p) i) ws)))
     \<or> e = FOS_E_NO_MEM \<and> oom al \<and> vwq_rep ll_inv ll_inv q1 ws []"
    using ll_vector.vwq_notify_first_rep [OF rep al i] unfolding waiters_after_def vwq_accepts_fun [OF i] by auto
  show ?thesis
  proof (cases "e = FOS_E_SUCCESS")
    case True
    then have q1: "vwq_rep ll_inv ll_inv q1 (waiters_after i ws)
        (map (vwq_ready i) (take 1 (filter (\<lambda>p. bit (vw_mask p) i) ws)))" using n(2) by simp
    show ?thesis
    proof (cases "first_waiter i ws")
      case None
      then show ?thesis using n True q1 ll_vector.vwq_pop_rep [OF q1] first_waiter_None [OF None] by simp
    next
      case (Some p)
      from first_waiter_Some [OF Some] have "take 1 (filter (\<lambda>p. bit (vw_mask p) i) ws) = [p]" by metis
      then show ?thesis using n(1) True Some ll_vector.vwq_pop_rep [OF q1] by (auto simp: vwq_ready_def)
    qed
  qed (use n in auto)
qed

text \<open>The thread that a signal wakes.\<close>

definition woken_by_signal :: "thread option \<Rightarrow> thread option \<Rightarrow> bool" where
  "woken_by_signal before after \<longleftrightarrow> (\<exists>t t'. before = Some t \<and> after = Some t' \<and> th_state t' = THREAD_STATE_SCHEDULED
     \<and> th_wq t' = None \<and> th_ctx t' = (th_ctx t)\<lparr>c_eax := 0\<rparr> \<and> th_tid t' = th_tid t \<and> th_proc t' = th_proc t
     \<and> length (th_wait_ctx t') = length (th_wait_ctx t))"

lemma err_word_success [simp]: "err_word FOS_E_SUCCESS = 0"
  by (simp add: err_word_def)

lemma err_word_0 [simp]: "err_word e = 0 \<longleftrightarrow> e = FOS_E_SUCCESS"
  by (cases e) (simp_all add: err_word_def)

lemma awq_remove_first:
  assumes d: "distinct (map vw_item ws)" and f: "first_waiter i ws = Some p"
  shows "awq_remove (vw_item p) (AWQ_vector ws []) = AWQ_vector (waiters_after i ws) []"
proof -
  from first_waiter_Some [OF f] obtain us vs where "ws = us @ p # vs" "waiters_after i ws = us @ vs" by metis
  note sp = this
  have "vw_item p \<notin> vw_item ` (set us \<union> set vs)" using d unfolding sp(1) by auto
  then have "\<forall>x\<in>set us. vw_item x \<noteq> vw_item p" "\<forall>x\<in>set vs. vw_item x \<noteq> vw_item p"
    by (metis UnCI imageI)+
  then have "filter (\<lambda>x. vw_item x \<noteq> vw_item p) us = us" "filter (\<lambda>x. vw_item x \<noteq> vw_item p) vs = vs"
    by (simp_all only: filter_True)
  then have "filter (\<lambda>x. vw_item x \<noteq> vw_item p) ws = us @ vs" unfolding sp(1) by simp
  then show ?thesis using sp(2) by simp
qed

lemma placed_queue_vector:
  assumes "placed K W S" and "W q = Some (AWQ_vector ws rs)"
  obtains v where "k_wqs K q = Some (WQ_vector v)" "vwq_rep ll_inv ll_inv v ws rs"
  using placed_queue [OF assms] wq_rep_vector by metis

text \<open>What a signal does to a process that allows it.\<close>

lemma ks_signal_with_rep:
  assumes pl: "placed K W S" and sch: "S (k_schedule K) = Some as" and p: "k_procs K p = Some r"
    and W: "W (pr_signal_queue r) = Some (AWQ_vector ws [])" and al: "alloc_ok (ke_al E)" "\<not> oom (ke_al E)"
    and sid: "sid < 32" and allow: "bit (pr_sig_allow r) sid" and new: "\<not> bit (pr_sig_vec r) sid"
    and waiters: "\<forall>w\<in>set ws. \<forall>t. k_threads K (vw_item w) = Some t \<longrightarrow>
      th_proc t \<in> dom (k_procs K) \<and> length (th_wait_ctx t) = 6"
  shows "case first_waiter sid ws of
      None \<Rightarrow> \<exists>w. ks_signal_with ex E K (Some p) sid = Some (Returns FOS_E_SUCCESS,
          set_wq (pr_signal_queue r) w (set_proc p (r\<lparr>pr_sig_vec := set_bit sid (pr_sig_vec r)\<rparr>) K))
        \<and> placed (set_wq (pr_signal_queue r) w K) W S
    | Some w \<Rightarrow> \<exists>K'. ks_signal_with ex E K (Some p) sid = Some (Returns FOS_E_SUCCESS, K')
        \<and> placed K' (W(pr_signal_queue r \<mapsto> AWQ_vector (waiters_after sid ws) [])) (S(k_schedule K \<mapsto> as @ [vw_item w]))
        \<and> (\<exists>m. same_frame (K\<lparr>k_mem := m\<rparr>) K')
        \<and> (\<exists>t t'. k_threads K (vw_item w) = Some t \<and> k_threads K' = (k_threads K)(vw_item w \<mapsto> t')
            \<and> woken_by_signal (Some t) (Some t'))"
proof -
  let ?q = "pr_signal_queue r" and ?r = "r\<lparr>pr_sig_vec := set_bit sid (pr_sig_vec r)\<rparr>"
  from placed_queue_vector [OF pl W] obtain v where v: "k_wqs K ?q = Some (WQ_vector v)" "vwq_rep ll_inv ll_inv v ws []" .
  from notify_pop [OF v(2) al(1) sid] al(2) obtain v1 where
    n: "vwq_notify LL_IMPL LL_IMPL (ke_al E) v sid VWQ_NOTIFY_FIRST = Some (FOS_E_SUCCESS, v1)"
    "case first_waiter sid ws of
       None \<Rightarrow> vwq_pop LL_IMPL v1 = Some (FOS_E_EMPTY, None, VWQ_NULL_READY_ID, v1) \<and> vwq_rep ll_inv ll_inv v1 ws []
     | Some p \<Rightarrow> \<exists>q2. vwq_pop LL_IMPL v1 = Some (FOS_E_SUCCESS, Some (vw_item p), sid, q2)
         \<and> vwq_rep ll_inv ll_inv q2 (waiters_after sid ws) []" by blast
  show ?thesis
  proof (cases "first_waiter sid ws")
    case None
    then have pop: "vwq_pop LL_IMPL v1 = Some (FOS_E_EMPTY, None, VWQ_NULL_READY_ID, v1)"
      and rep: "vwq_rep ll_inv ll_inv v1 ws []" using n(2) by auto
    have "placed (set_wq ?q (WQ_vector v1) K) (W(?q \<mapsto> AWQ_vector ws [])) S"
      by (rule placed_set_wq [OF pl W]) (use rep placedD(7) [OF pl W] in auto)
    moreover have "W(?q \<mapsto> AWQ_vector ws []) = W" using W by (simp add: fun_upd_idem)
    moreover have "ks_signal_with ex E K (Some p) sid
        = Some (Returns FOS_E_SUCCESS, set_wq ?q (WQ_vector v1) (set_proc p ?r K))"
      using p v(1) n(1) pop sid new allow by (simp add: ks_signal_with_def Let_def vector_queue_def)
    ultimately show ?thesis unfolding None option.case by (intro exI [of _ "WQ_vector v1"] conjI) simp_all
  next
    case (Some w)
    then obtain v2 where pop: "vwq_pop LL_IMPL v1 = Some (FOS_E_SUCCESS, Some (vw_item w), sid, v2)"
      and rep: "vwq_rep ll_inv ll_inv v2 (waiters_after sid ws) []" using n(2) by auto
    let ?a = "vw_item w"
    from first_waiter_Some [OF Some] obtain us vs where sp: "ws = us @ w # vs" by metis
    have rem: "awq_remove ?a (AWQ_vector ws []) = AWQ_vector (waiters_after sid ws) []"
      by (rule awq_remove_first [OF _ Some]) (use placedD(7) [OF pl W] in simp)
    from placed_item [OF pl W, of ?a] sp obtain t where t: "k_threads K ?a = Some t" "th_wq t = Some ?q" by auto
    have tp: "th_proc t \<in> dom (k_procs K)" "length (th_wait_ctx t) = 6" using waiters sp t by auto
    have unset: "r\<lparr>pr_sig_vec := unset_bit sid (set_bit sid (pr_sig_vec r))\<rparr> = r"
    proof -
      have "unset_bit sid (set_bit sid (pr_sig_vec r)) = pr_sig_vec r"
        using new by (intro bit_eqI) (auto simp: bit_unset_bit_iff bit_set_bit_iff)
      then show ?thesis by simp
    qed
    let ?t = "t\<lparr>th_wait_ctx := (th_wait_ctx t)[0 := 0], th_wq := None, th_state := THREAD_STATE_DETATCHED\<rparr>"
    have "wq_rep (WQ_vector v2) (awq_remove ?a (AWQ_vector ws []))" unfolding rem using rep by simp
    from placed_wake [OF pl t W this sch, of ?t] obtain K1 t1 where K1:
      "thread_schedule (set_thread ?a ?t (set_wq ?q (WQ_vector v2) K)) ?a (k_schedule K) = Some K1"
      "placed K1 (W(?q \<mapsto> AWQ_vector (waiters_after sid ws) [])) (S(k_schedule K \<mapsto> as @ [?a]))"
      "k_threads K1 = (k_threads K)(?a \<mapsto> t1)" "same_frame K K1" "th_wq t1 = None"
      "th_state t1 = THREAD_STATE_SCHEDULED" "th_ctx t1 = th_ctx t" "th_tid t1 = th_tid t" "th_proc t1 = th_proc t"
      "th_wait_ctx t1 = (th_wait_ctx t)[0 := 0]" unfolding rem by auto
    obtain wp where wp: "k_procs K (th_proc t) = Some wp" using tp(1) by blast
    then have wp1: "k_procs K1 (th_proc t) = Some wp" using K1(4) by (simp add: same_frame_def)
    obtain m where m: "to_user_opt E K1 (pr_pd wp) (th_wait_ctx t ! 0) [of_nat sid] = K1\<lparr>k_mem := m\<rparr>"
      using to_user_opt_mem [of E K1 "pr_pd wp" "th_wait_ctx t ! 0" "[of_nat sid]"] by metis
    let ?t1 = "t1\<lparr>th_ctx := (th_ctx t1)\<lparr>c_eax := 0\<rparr>\<rparr>"
    let ?K' = "set_thread ?a ?t1 (K1\<lparr>k_mem := m\<rparr>)"
    have eq: "set_thread ?a ?t (set_proc p r (set_wq ?q (WQ_vector v2) (set_wq ?q (WQ_vector v1) (set_proc p ?r K))))
        = set_thread ?a ?t (set_wq ?q (WQ_vector v2) K)"
      by (rule kernel.equality) (simp_all add: p fun_upd_idem)
    have "ks_signal_with ex E K (Some p) sid = Some (Returns FOS_E_SUCCESS, ?K')"
      using p v(1) n(1) pop sid new allow t(1) tp K1(1,3) wp1 m unset eq
      by (simp add: ks_signal_with_def Let_def vector_queue_def set_eax_def upd_thread_def)
    moreover have "placed (set_thread ?a ?t1 (K1\<lparr>k_mem := m\<rparr>))
        (W(?q \<mapsto> AWQ_vector (waiters_after sid ws) [])) (S(k_schedule K \<mapsto> as @ [?a]))"
      by (rule placed_data [of _ _ _ _ t1]) (use K1 in simp_all)
    moreover have "same_frame (K\<lparr>k_mem := m\<rparr>) ?K'" using K1(4) by (simp add: same_frame_def)
    moreover have "k_threads ?K' = (k_threads K)(?a \<mapsto> ?t1)" using K1(3) by simp
    moreover have "woken_by_signal (Some t) (Some ?t1)" using K1 by (simp add: woken_by_signal_def)
    ultimately show ?thesis using Some t(1) by auto
  qed
qed

section \<open>Waiting\<close>

text \<open>The search finds the lowest signal in both vectors, 32 if there is none.\<close>

lemma find_signal_bounds: "m \<le> find_signal n m sv vec" "find_signal n m sv vec \<le> m + n"
proof -
  show "m \<le> find_signal n m sv vec" by (induction n arbitrary: m) (auto intro: Suc_leD)
  show "find_signal n m sv vec \<le> m + n"
  proof (induction n arbitrary: m)
    case (Suc n)
    then show ?case using Suc [of "m + 1"] by auto
  qed simp
qed

lemma find_signal_found:
  "find_signal n m sv vec < m + n \<Longrightarrow> bit sv (find_signal n m sv vec) \<and> bit vec (find_signal n m sv vec)"
  by (induction n arbitrary: m) auto

lemma find_signal_first: "m \<le> i \<Longrightarrow> i < find_signal n m sv vec \<Longrightarrow> \<not> (bit sv i \<and> bit vec i)"
proof (induction n arbitrary: m)
  case (Suc n)
  then show ?case using Suc.IH [of "m + 1"] by (cases "i = m") (auto split: if_splits)
qed simp

lemma find_signal_none: "find_signal 32 0 sv vec = 32 \<longleftrightarrow> sv AND (vec :: 32 word) = 0"
proof
  assume "find_signal 32 0 sv vec = 32"
  then have "\<not> (bit sv i \<and> bit vec i)" if "i < 32" for i
    using find_signal_first [of 0 i 32 sv vec] that by simp
  then show "sv AND vec = 0" by (intro bit_word_eqI) (auto simp: bit_and_iff)
next
  assume "sv AND vec = 0"
  then have n: "\<not> (bit sv i \<and> bit vec i)" for i by (metis bit_and_iff bit_0_eq bot_apply bot_bool_def)
  show "find_signal 32 0 sv vec = 32"
    using find_signal_found [of 32 0 sv vec] n find_signal_bounds(2) [of 32 0 sv vec] by fastforce
qed

lemma ks_wait_signal_blocks:
  assumes pl: "placed K W S" and sch: "S (k_schedule K) = Some (a # as)" and t: "k_threads K a = Some t"
    and p: "k_procs K (th_proc t) = Some r" and W: "W (pr_signal_queue r) = Some (AWQ_vector ws [])"
    and al: "alloc_ok (ke_al E)" "\<not> oom (ke_al E)" and sv: "sv \<noteq> 0" "sv AND pr_sig_vec r = 0"
  shows "\<exists>K'. ks_wait_signal E K sv u_sid = Some (Returns FOS_E_SUCCESS, K')
    \<and> placed K' (W(pr_signal_queue r \<mapsto> AWQ_vector (ws @ [\<lparr>vw_item = a, vw_mask = sv\<rparr>]) [])) (without a S)
    \<and> same_frame K K' \<and> k_threads K' = (k_threads K)(a \<mapsto> t\<lparr>th_wq := Some (pr_signal_queue r),
        th_state := THREAD_STATE_WAITING, th_wait_ctx := (th_wait_ctx t)[0 := u_sid]\<rparr>)"
proof -
  let ?q = "pr_signal_queue r" and ?ws = "ws @ [\<lparr>vw_item = a, vw_mask = sv\<rparr>]"
  obtain t' where "k_threads K a = Some t'" "th_state t' = THREAD_STATE_SCHEDULED" "th_wq t' = None"
    by (rule placed_on_schedule [OF pl sch, of a]) simp
  then have st: "th_state t = THREAD_STATE_SCHEDULED" "th_wq t = None" using t by simp_all
  from placed_queue_vector [OF pl W] obtain v where v: "k_wqs K ?q = Some (WQ_vector v)" "vwq_rep ll_inv ll_inv v ws []" .
  from ll_vector.vwq_enqueue_rep [OF v(2) al(1) sv(1), of a] al(2) obtain v' where
    v': "vwq_enqueue LL_IMPL (ke_al E) v a sv = Some (FOS_E_SUCCESS, v')" "vwq_rep ll_inv ll_inv v' ?ws []" by blast
  have na: "a \<notin> set (map vw_item ws)" using locatedD(4) [OF placedD(8) [OF pl t] W] st by simp
  have d: "distinct (awq_items (AWQ_vector ?ws []))" using placedD(7) [OF pl W] na by simp
  have s: "set (awq_items (AWQ_vector ?ws [])) = insert a (set (awq_items (AWQ_vector ws [])))" by simp
  have rep: "wq_rep (WQ_vector v') (AWQ_vector ?ws [])" using v' by simp
  let ?f = "\<lambda>t. t\<lparr>th_wq := Some ?q, th_state := THREAD_STATE_WAITING, th_wait_ctx := (th_wait_ctx t)[0 := u_sid]\<rparr>"
  from placed_wait [OF pl t st(1) W rep d s, of ?f] obtain K1 K2 where K:
    "thread_detach (set_wq ?q (WQ_vector v') K) a = Some K1" "upd_thread K1 a ?f = Some K2"
    "placed K2 (W(?q \<mapsto> AWQ_vector ?ws [])) (without a S)" "same_frame K K2"
    "k_threads K2 = (k_threads K)(a \<mapsto> ?f (t\<lparr>th_state := THREAD_STATE_DETATCHED\<rparr>))" by auto
  have "ks_wait_signal E K sv u_sid = Some (Returns FOS_E_SUCCESS, K2)"
    using placed_head [OF pl sch] t p sv v(1) v'(1) K(1,2)
    by (simp add: ks_wait_signal_def with_current_def vector_queue_def Let_def)
  then show ?thesis using K(3,4,5) by (intro exI [of _ K2]) simp
qed

lemma ks_wait_signal_pending:
  assumes pl: "placed K W S" and sch: "S (k_schedule K) = Some (a # as)" and t: "k_threads K a = Some t"
    and p: "k_procs K (th_proc t) = Some r" and sv: "sv AND pr_sig_vec r \<noteq> 0"
    and sid: "sid = find_signal 32 0 sv (pr_sig_vec r)"
  shows "\<exists>m. ks_wait_signal E K sv u_sid = Some (Returns FOS_E_SUCCESS,
      set_thread a (t\<lparr>th_ctx := (th_ctx t)\<lparr>c_eax := 0\<rparr>\<rparr>)
        ((set_proc (th_proc t) (r\<lparr>pr_sig_vec := unset_bit sid (pr_sig_vec r)\<rparr>) K)\<lparr>k_mem := m\<rparr>))"
proof -
  have sid': "sid < 32" using find_signal_bounds(2) [of 32 0 sv "pr_sig_vec r"] find_signal_none [of sv "pr_sig_vec r"] sv sid by simp
  have "sv \<noteq> 0" using sv by auto
  let ?K = "set_proc (th_proc t) (r\<lparr>pr_sig_vec := unset_bit sid (pr_sig_vec r)\<rparr>) K"
  obtain m where "to_user_opt E ?K (pr_pd r) u_sid [of_nat sid] = ?K\<lparr>k_mem := m\<rparr>"
    using to_user_opt_mem [of E ?K "pr_pd r" u_sid "[of_nat sid]"] by metis
  then show ?thesis
    using placed_head [OF pl sch] t p sv sid sid' \<open>sv \<noteq> 0\<close>
    by (intro exI [of _ m]) (simp add: ks_wait_signal_def with_current_def Let_def dual_ret_def set_eax_def upd_thread_def)
qed

end
