(* ===== verification/Kernel_Invariant.thy ===== *)
theory Kernel_Invariant
  imports Signals
begin

text \<open>
  The invariant of the running kernel.  Besides the placement of threads it says that no thread
  waits for something that has already happened: a signal that is pending, or the exit of a thread
  that has exited.
\<close>

section \<open>The invariant\<close>

definition sig_ok :: "(addr \<Rightarrow> awq option) \<Rightarrow> process \<Rightarrow> bool" where
  "sig_ok W r \<longleftrightarrow> (\<exists>ws. W (pr_signal_queue r) = Some (AWQ_vector ws []) \<and> (\<forall>w\<in>set ws. vw_mask w AND pr_sig_vec r = 0))"

definition exited :: "'m kernel \<Rightarrow> addr \<Rightarrow> nat \<Rightarrow> bool" where
  "exited K p i \<longleftrightarrow> (\<exists>a t. k_threads K a = Some t \<and> th_proc t = p \<and> th_tid t = i \<and> th_state t = THREAD_STATE_EXITED)"

definition join_ok :: "'m kernel \<Rightarrow> (addr \<Rightarrow> awq option) \<Rightarrow> addr \<Rightarrow> process \<Rightarrow> bool" where
  "join_ok K W p r \<longleftrightarrow>
     (\<exists>ws. W (pr_join_queue r) = Some (AWQ_vector ws []) \<and> (\<forall>w\<in>set ws. \<forall>i. exited K p i \<longrightarrow> \<not> bit (vw_mask w) i))"

definition tables_ok :: "'m kernel \<Rightarrow> addr \<Rightarrow> process \<Rightarrow> bool" where
  "tables_ok K p r \<longleftrightarrow> idtb_ok (pr_thread_table r) \<and> idtb_max (pr_thread_table r) \<le> 32 \<and> idtb_ok (pr_handle_table r)
     \<and> (\<forall>i a. idtb_view (pr_thread_table r) i = Some (Some a) \<longrightarrow>
          (\<exists>t. k_threads K a = Some t \<and> th_proc t = p \<and> th_tid t = i))"

definition thread_ok :: "'m kernel \<Rightarrow> addr \<Rightarrow> thread \<Rightarrow> bool" where
  "thread_ok K a t \<longleftrightarrow> length (th_wait_ctx t) = 6
     \<and> (\<exists>r. k_procs K (th_proc t) = Some r \<and> idtb_view (pr_thread_table r) (th_tid t) = Some (Some a))"

definition queues_ok :: "'m kernel \<Rightarrow> bool" where
  "queues_ok K \<longleftrightarrow> (\<forall>p p' r r'. k_procs K p = Some r \<longrightarrow> k_procs K p' = Some r' \<longrightarrow>
     pr_signal_queue r \<noteq> pr_join_queue r'
     \<and> (p \<noteq> p' \<longrightarrow> pr_signal_queue r \<noteq> pr_signal_queue r' \<and> pr_join_queue r \<noteq> pr_join_queue r'))"

definition procs_ok :: "'m kernel \<Rightarrow> bool" where
  "procs_ok K \<longleftrightarrow> idtb_ok (k_proc_table K)
     \<and> (\<forall>i a. idtb_view (k_proc_table K) i = Some (Some a) \<longrightarrow> a \<in> dom (k_procs K))
     \<and> (\<forall>p r q. k_procs K p = Some r \<longrightarrow> pr_parent r = Some q \<longrightarrow> q \<in> dom (k_procs K))"

text \<open>\<open>kcore\<close> is the invariant without its promise about joins, which does not hold half-way through
  the exit of a thread.\<close>

definition kcore ::
  "'m kernel \<Rightarrow> (addr \<Rightarrow> awq option) \<Rightarrow> (addr \<Rightarrow> addr list option) \<Rightarrow> addr list
   \<Rightarrow> addr twq_wait_pair list \<Rightarrow> addr list \<Rightarrow> bool"
where
  "kcore K W S as ws rs \<longleftrightarrow> clocked K W S as ws rs \<and> queues_ok K \<and> procs_ok K
     \<and> (\<forall>a t. k_threads K a = Some t \<longrightarrow> thread_ok K a t)
     \<and> (\<forall>p r. k_procs K p = Some r \<longrightarrow> sig_ok W r \<and> tables_ok K p r)"

definition kinv ::
  "'m kernel \<Rightarrow> (addr \<Rightarrow> awq option) \<Rightarrow> (addr \<Rightarrow> addr list option) \<Rightarrow> addr list
   \<Rightarrow> addr twq_wait_pair list \<Rightarrow> addr list \<Rightarrow> bool"
where
  "kinv K W S as ws rs \<longleftrightarrow> kcore K W S as ws rs \<and> (\<forall>p r. k_procs K p = Some r \<longrightarrow> join_ok K W p r)"

definition kernel_inv :: "'m kernel \<Rightarrow> bool" where
  "kernel_inv K \<longleftrightarrow> (\<exists>W S as ws rs. kinv K W S as ws rs)"

lemma kinvI: "kinv K W S as ws rs \<Longrightarrow> kernel_inv K"
  unfolding kernel_inv_def by blast

text \<open>
  What a step other than a tick leaves alone: the clock, and the threads in the sleep queue.  \<open>ws\<close> and \<open>rs\<close>
  are the contents of that queue.
\<close>

definition kernel_at :: "'m kernel \<Rightarrow> addr twq_wait_pair list \<Rightarrow> addr list \<Rightarrow> bool" where
  "kernel_at K ws rs \<longleftrightarrow> (\<exists>W S as. kinv K W S as ws rs)"

definition undisturbed :: "'m kernel \<Rightarrow> 'm kernel \<Rightarrow> bool" where
  "undisturbed K K' \<longleftrightarrow> k_curr_tick K' = k_curr_tick K \<and> k_sleep_q K' = k_sleep_q K
     \<and> (\<forall>a t. k_threads K a = Some t \<longrightarrow> th_wq t = Some (k_sleep_q K) \<longrightarrow> k_threads K' a = Some t)"

definition keeps :: "'m kernel \<Rightarrow> addr twq_wait_pair list \<Rightarrow> addr list \<Rightarrow> 'm kernel \<Rightarrow> bool" where
  "keeps K ws rs K' \<longleftrightarrow> kernel_at K' ws rs \<and> undisturbed K K'"

lemma kernel_inv_at: "kernel_inv K \<longleftrightarrow> (\<exists>ws rs. kernel_at K ws rs)"
  unfolding kernel_inv_def kernel_at_def by blast

lemma keeps_inv: "keeps K ws rs K' \<Longrightarrow> kernel_inv K'"
  unfolding keeps_def kernel_inv_at by blast

lemma keepsI: "kinv K' W S as ws rs \<Longrightarrow> undisturbed K K' \<Longrightarrow> keeps K ws rs K'"
  unfolding keeps_def kernel_at_def by blast

lemma undisturbed_refl [simp]: "undisturbed K K"
  by (simp add: undisturbed_def)

lemma undisturbed_trans: "undisturbed K K1 \<Longrightarrow> undisturbed K1 K2 \<Longrightarrow> undisturbed K K2"
  by (simp add: undisturbed_def)

lemma keeps_trans: "undisturbed K K1 \<Longrightarrow> keeps K1 ws rs K' \<Longrightarrow> keeps K ws rs K'"
  unfolding keeps_def using undisturbed_trans by blast

lemma undisturbed_same:
  "k_curr_tick K' = k_curr_tick K \<Longrightarrow> k_sleep_q K' = k_sleep_q K \<Longrightarrow> k_threads K' = k_threads K \<Longrightarrow> undisturbed K K'"
  by (simp add: undisturbed_def)

lemma undisturbed_upd:
  assumes "k_curr_tick K' = k_curr_tick K" and "k_sleep_q K' = k_sleep_q K" and "k_threads K' = (k_threads K)(a := x)"
    and "\<And>t. k_threads K a = Some t \<Longrightarrow> th_wq t \<noteq> Some (k_sleep_q K)"
  shows "undisturbed K K'"
  using assms by (auto simp: undisturbed_def)

text \<open>The answer of a system call to the kernel: success, if there is a thread to call it.\<close>

definition answer :: "'m kernel \<Rightarrow> kresult" where
  "answer K = Returns (if ks_head K = Some None then FOS_E_STATE_MISMATCH else FOS_E_SUCCESS)"

lemma kcoreD:
  assumes "kcore K W S as ws rs"
  shows "clocked K W S as ws rs" and "queues_ok K" and "procs_ok K"
    and "\<And>a t. k_threads K a = Some t \<Longrightarrow> thread_ok K a t"
    and "\<And>p r. k_procs K p = Some r \<Longrightarrow> sig_ok W r"
    and "\<And>p r. k_procs K p = Some r \<Longrightarrow> tables_ok K p r"
  using assms unfolding kcore_def by blast+

lemma kinvD:
  assumes "kinv K W S as ws rs"
  shows "clocked K W S as ws rs" and "queues_ok K" and "procs_ok K"
    and "\<And>a t. k_threads K a = Some t \<Longrightarrow> thread_ok K a t"
    and "\<And>p r. k_procs K p = Some r \<Longrightarrow> sig_ok W r" and "\<And>p r. k_procs K p = Some r \<Longrightarrow> join_ok K W p r"
    and "\<And>p r. k_procs K p = Some r \<Longrightarrow> tables_ok K p r"
  using assms unfolding kinv_def kcore_def by blast+

lemma kinv_core: "kinv K W S as ws rs \<Longrightarrow> kcore K W S as ws rs"
  by (simp add: kinv_def)

lemma queues_okD:
  assumes "queues_ok K" and "k_procs K p = Some r" and "k_procs K p' = Some r'"
  shows "pr_signal_queue r \<noteq> pr_join_queue r'" and "p \<noteq> p' \<Longrightarrow> pr_signal_queue r \<noteq> pr_signal_queue r'"
    and "p \<noteq> p' \<Longrightarrow> pr_join_queue r \<noteq> pr_join_queue r'"
  using assms unfolding queues_ok_def by blast+

lemma thread_okD:
  assumes "thread_ok K a t"
  obtains r where "length (th_wait_ctx t) = 6" "k_procs K (th_proc t) = Some r"
    "idtb_view (pr_thread_table r) (th_tid t) = Some (Some a)"
  using assms by (auto simp: thread_ok_def)

section \<open>Preservation\<close>

text \<open>What a step must show when it neither creates nor removes threads.\<close>

definition thread_key :: "thread \<Rightarrow> addr \<times> nat \<times> nat" where
  "thread_key t = (th_proc t, th_tid t, length (th_wait_ctx t))"

definition same_threads :: "'m kernel \<Rightarrow> 'm kernel \<Rightarrow> bool" where
  "same_threads K K' \<longleftrightarrow> (\<forall>a. map_option thread_key (k_threads K' a) = map_option thread_key (k_threads K a))"

lemma same_threads_fwd:
  assumes "same_threads K K'" and "k_threads K a = Some t"
  obtains t' where "k_threads K' a = Some t'" "th_proc t' = th_proc t" "th_tid t' = th_tid t"
    "length (th_wait_ctx t') = length (th_wait_ctx t)"
proof -
  have "map_option thread_key (k_threads K' a) = Some (thread_key t)"
    using assms unfolding same_threads_def by simp
  then show ?thesis using that by (auto simp: thread_key_def)
qed

lemma same_threads_bwd:
  assumes "same_threads K K'" and "k_threads K' a = Some t'"
  obtains t where "k_threads K a = Some t" "th_proc t' = th_proc t" "th_tid t' = th_tid t"
    "length (th_wait_ctx t') = length (th_wait_ctx t)"
proof -
  have "map_option thread_key (k_threads K a) = Some (thread_key t')"
    using assms unfolding same_threads_def by (metis option.simps(9))
  then show ?thesis using that by (auto simp: thread_key_def)
qed

definition same_proc :: "process \<Rightarrow> process \<Rightarrow> bool" where
  "same_proc r r' \<longleftrightarrow> pr_signal_queue r' = pr_signal_queue r \<and> pr_join_queue r' = pr_join_queue r
     \<and> idtb_view (pr_thread_table r') = idtb_view (pr_thread_table r)
     \<and> (idtb_ok (pr_thread_table r) \<longrightarrow> idtb_ok (pr_thread_table r'))
     \<and> idtb_max (pr_thread_table r') = idtb_max (pr_thread_table r)
     \<and> pr_handle_table r' = pr_handle_table r \<and> pr_parent r' = pr_parent r"

lemma same_proc_refl [simp]: "same_proc r r"
  by (simp add: same_proc_def)

lemma tables_ok_same:
  assumes "tables_ok K p r" and th: "same_threads K K'" and "same_proc r r'"
  shows "tables_ok K' p r'"
proof -
  have "\<exists>t'. k_threads K' a = Some t' \<and> th_proc t' = p \<and> th_tid t' = i"
    if v: "idtb_view (pr_thread_table r') i = Some (Some a)" for i a
  proof -
    obtain t where t: "k_threads K a = Some t" "th_proc t = p" "th_tid t = i"
      using assms(1,3) v by (auto simp: tables_ok_def same_proc_def)
    obtain t' where "k_threads K' a = Some t'" "th_proc t' = th_proc t" "th_tid t' = th_tid t"
      by (rule same_threads_fwd [OF th t(1)])
    then show ?thesis using t by simp
  qed
  then show ?thesis using assms(1,3) by (simp add: tables_ok_def same_proc_def)
qed

lemma kcore_update:
  assumes inv: "kcore K W S as ws rs" and c: "clocked K' W' S' as' ws' rs'" and th: "same_threads K K'"
    and pt: "k_proc_table K' = k_proc_table K" and dom: "dom (k_procs K') = dom (k_procs K)"
    and pr: "\<And>p r r'. k_procs K p = Some r \<Longrightarrow> k_procs K' p = Some r' \<Longrightarrow>
      same_proc r r' \<and> sig_ok W' r'"
  shows "kcore K' W' S' as' ws' rs'"
proof -
  have old: "\<exists>r. k_procs K p = Some r \<and> same_proc r r' \<and> sig_ok W' r'"
    if r': "k_procs K' p = Some r'" for p r'
  proof -
    have "p \<in> dom (k_procs K)" using r' unfolding dom [symmetric] by blast
    then obtain r where "k_procs K p = Some r" by blast
    then show ?thesis using pr r' by blast
  qed
  have "queues_ok K'"
    unfolding queues_ok_def using kcoreD(2) [OF inv] old unfolding queues_ok_def same_proc_def by metis
  moreover have "procs_ok K'"
    using kcoreD(3) [OF inv] old unfolding procs_ok_def pt dom same_proc_def by metis
  moreover have "thread_ok K' a t'" if t': "k_threads K' a = Some t'" for a t'
  proof -
    obtain t where t: "k_threads K a = Some t" "th_proc t' = th_proc t" "th_tid t' = th_tid t"
      "length (th_wait_ctx t') = length (th_wait_ctx t)" by (rule same_threads_bwd [OF th t'])
    obtain r where r: "length (th_wait_ctx t) = 6" "k_procs K (th_proc t) = Some r"
      "idtb_view (pr_thread_table r) (th_tid t) = Some (Some a)" by (rule thread_okD [OF kcoreD(4) [OF inv t(1)]])
    obtain r' where r': "k_procs K' (th_proc t) = Some r'" using r(2) dom by (metis domD domI)
    have "idtb_view (pr_thread_table r') = idtb_view (pr_thread_table r)" using pr [OF r(2) r'] by (simp add: same_proc_def)
    then show ?thesis using t r r' by (simp add: thread_ok_def)
  qed
  moreover have "tables_ok K' p r'" if "k_procs K' p = Some r'" for p r'
    using old [OF that] tables_ok_same [OF kcoreD(6) [OF inv] th] by blast
  ultimately show ?thesis using c old unfolding kcore_def by blast
qed

lemma kinv_update:
  assumes inv: "kinv K W S as ws rs" and c: "clocked K' W' S' as' ws' rs'" and th: "same_threads K K'"
    and pt: "k_proc_table K' = k_proc_table K" and dom: "dom (k_procs K') = dom (k_procs K)"
    and pr: "\<And>p r r'. k_procs K p = Some r \<Longrightarrow> k_procs K' p = Some r' \<Longrightarrow>
      same_proc r r' \<and> sig_ok W' r' \<and> join_ok K' W' p r'"
  shows "kinv K' W' S' as' ws' rs'"
proof -
  have "kcore K' W' S' as' ws' rs'"
    by (rule kcore_update [OF kinv_core [OF inv] c th pt dom]) (use pr in blast)
  moreover have "join_ok K' W' p r'" if "k_procs K' p = Some r'" for p r'
  proof -
    have "p \<in> dom (k_procs K)" using that unfolding dom [symmetric] by blast
    then obtain r where "k_procs K p = Some r" by blast
    then show ?thesis using pr that by blast
  qed
  ultimately show ?thesis by (simp add: kinv_def)
qed

text \<open>Threads that have exited stay so, and none joins them.\<close>

lemma join_ok_mono:
  assumes "join_ok K W p r" and "pr_join_queue r' = pr_join_queue r" and "W' (pr_join_queue r) = W (pr_join_queue r)"
    and "\<And>i. exited K' p i \<Longrightarrow> exited K p i"
  shows "join_ok K' W' p r'"
  using assms unfolding join_ok_def by metis

lemma exited_same:
  assumes th: "same_threads K K'" and "\<And>a t t'. k_threads K a = Some t \<Longrightarrow> k_threads K' a = Some t' \<Longrightarrow>
      th_state t' = THREAD_STATE_EXITED \<Longrightarrow> th_state t = THREAD_STATE_EXITED"
    and "exited K' p i"
  shows "exited K p i"
proof -
  obtain a t' where t': "k_threads K' a = Some t'" "th_proc t' = p" "th_tid t' = i" "th_state t' = THREAD_STATE_EXITED"
    using assms(3) by (auto simp: exited_def)
  obtain t where t: "k_threads K a = Some t" "th_proc t' = th_proc t" "th_tid t' = th_tid t"
    by (rule same_threads_bwd [OF th t'(1)])
  then show ?thesis using assms(2) [OF t(1) t'(1,4)] t'(2,3) by (auto simp: exited_def)
qed

lemma sig_ok_mono:
  "sig_ok W r \<Longrightarrow> W' (pr_signal_queue r) = W (pr_signal_queue r) \<Longrightarrow> pr_signal_queue r' = pr_signal_queue r \<Longrightarrow>
   pr_sig_vec r' = pr_sig_vec r \<Longrightarrow> sig_ok W' r'"
  unfolding sig_ok_def by metis

section \<open>The timer\<close>

lemma same_threads_upd:
  assumes "k_threads K a = Some t" and "k_threads K' = (k_threads K)(a \<mapsto> t')" and "thread_key t' = thread_key t"
  shows "same_threads K K'"
  using assms by (simp add: same_threads_def)

lemma same_threads_eq: "k_threads K' = k_threads K \<Longrightarrow> same_threads K K'"
  by (simp add: same_threads_def)

text \<open>A step that touches neither the processes nor their queues.\<close>

lemma kinv_other_queue:
  assumes inv: "kinv K W S as ws rs" and c: "clocked K' W' S' as' ws' rs'" and th: "same_threads K K'"
    and fr: "k_proc_table K' = k_proc_table K" "k_procs K' = k_procs K"
    and W': "\<And>q v. W q = Some (AWQ_vector v []) \<Longrightarrow> W' q = W q"
    and ex: "\<And>a t t'. k_threads K a = Some t \<Longrightarrow> k_threads K' a = Some t' \<Longrightarrow>
      th_state t' = THREAD_STATE_EXITED \<Longrightarrow> th_state t = THREAD_STATE_EXITED"
  shows "kinv K' W' S' as' ws' rs'"
proof (rule kinv_update [OF inv c th fr(1)])
  fix p r r' assume r: "k_procs K p = Some r" "k_procs K' p = Some r'"
  then have [simp]: "r' = r" using fr(2) by simp
  have "W' (pr_signal_queue r) = W (pr_signal_queue r)" using kinvD(5) [OF inv r(1)] W' by (auto simp: sig_ok_def)
  then have "sig_ok W' r" by (rule sig_ok_mono [OF kinvD(5) [OF inv r(1)]]) simp_all
  moreover have "W' (pr_join_queue r) = W (pr_join_queue r)" using kinvD(6) [OF inv r(1)] W' by (auto simp: join_ok_def)
  then have "join_ok K' W' p r"
    by (rule join_ok_mono [OF kinvD(6) [OF inv r(1)] refl]) (rule exited_same [OF th ex])
  ultimately show "same_proc r r' \<and> sig_ok W' r' \<and> join_ok K' W' p r'" by simp
qed (simp add: fr)

definition plugins_ok :: "'m kenv \<Rightarrow> bool" where
  "plugins_ok E \<longleftrightarrow> (\<forall>K p c e K'. kernel_inv K \<longrightarrow> ke_plg E K p c = Some (e, K') \<longrightarrow>
     kernel_inv K' \<and> length (k_plugins K') = length (k_plugins K))"

lemma plgs_loop_inv:
  assumes "plugins_ok E"
  shows "kernel_inv K \<Longrightarrow> i + n \<le> length (k_plugins K) \<Longrightarrow>
    \<exists>e K'. plgs_loop E n i c K = Some (e, K') \<and> kernel_inv K'"
proof (induction n arbitrary: i K)
  case (Suc n)
  note IH = Suc.IH [of K "i + 1"] and prems = Suc.prems
  show ?case
  proof (cases "k_plugins K ! i")
    case None
    then show ?thesis using IH prems by simp
  next
    case (Some p)
    show ?thesis
    proof (cases "ke_plg E K p c")
      case None
      then show ?thesis using IH prems Some by simp
    next
      case (Some r)
      obtain e K1 where r: "r = (e, K1)" by (cases r)
      with Some prems(1) assms have K1: "kernel_inv K1" "length (k_plugins K1) = length (k_plugins K)"
        unfolding plugins_ok_def by blast+
      show ?thesis using Suc.IH [of K1 "i + 1"] K1 prems Some r \<open>k_plugins K ! i = Some p\<close>
        by (cases "e = FOS_E_SUCCESS") simp_all
    qed
  qed
qed simp

lemma put_on_key: "put_on b (Some t') \<Longrightarrow> \<exists>t. b = Some t \<and> thread_key t' = thread_key t \<and> th_state t' = THREAD_STATE_SCHEDULED"
  by (auto simp: put_on_def thread_key_def)

lemma put_on_threads:
  assumes "\<forall>b. b \<notin> set wk \<longrightarrow> k_threads K' b = k_threads K b" and "\<forall>b\<in>set wk. put_on (k_threads K b) (k_threads K' b)"
  shows "same_threads K K'"
    and "k_threads K a = Some t \<Longrightarrow> k_threads K' a = Some t' \<Longrightarrow> th_state t' = THREAD_STATE_EXITED \<Longrightarrow>
      th_state t = THREAD_STATE_EXITED"
proof -
  show "same_threads K K'"
    unfolding same_threads_def
  proof
    fix b
    show "map_option thread_key (k_threads K' b) = map_option thread_key (k_threads K b)"
    proof (cases "b \<in> set wk")
      case True
      then show ?thesis using assms(2) by (fastforce simp: put_on_def thread_key_def)
    qed (use assms(1) in simp)
  qed
  assume t: "k_threads K a = Some t" "k_threads K' a = Some t'" "th_state t' = THREAD_STATE_EXITED"
  show "th_state t = THREAD_STATE_EXITED"
  proof (cases "a \<in> set wk")
    case True
    then show ?thesis using assms(2) t by (fastforce simp: put_on_def)
  qed (use assms(1) t in simp)
qed

lemma ks_tick_inv:
  assumes inv: "kernel_inv K" and al: "alloc_ok (ke_al E)" "\<not> oom (ke_al E)" and plg: "plugins_ok E"
  shows "\<exists>e K'. ks_tick E K = Some (e, K') \<and> kernel_inv K'"
proof -
  obtain W S as ws rs where i: "kinv K W S as ws rs" using inv unfolding kernel_inv_def by blast
  note c = kinvD(1) [OF i]
  let ?t = "k_curr_tick K + 1" and ?wk = "rs @ waking (k_curr_tick K + 1) ws"
  obtain K' W' where K': "ks_tick E K = (if ?t AND 0xF = 0 then plgs_tick E K' else Some (FOS_E_SUCCESS, K'))"
    "W' = W(k_sleep_q K \<mapsto> AWQ_timed ?t (asleep ?t ws) [])"
    "clocked K' W' (S(k_schedule K \<mapsto> next_schedule as ?wk)) (next_schedule as ?wk) (asleep ?t ws) []"
    "tick_frame K K'" "\<forall>b. b \<notin> set ?wk \<longrightarrow> k_threads K' b = k_threads K b"
    "\<forall>b\<in>set ?wk. put_on (k_threads K b) (k_threads K' b)"
    using ks_tick_rep [OF c al refl refl] by blast
  have "kinv K' W' (S(k_schedule K \<mapsto> next_schedule as ?wk)) (next_schedule as ?wk) (asleep ?t ws) []"
  proof (rule kinv_other_queue [OF i K'(3) put_on_threads(1) [OF K'(5,6)]])
    show "W' q = W q" if "W q = Some (AWQ_vector v [])" for q v using that clockedD(3) [OF c] K'(2) by auto
  qed (use K'(4) put_on_threads(2) [OF K'(5,6)] in \<open>simp_all add: tick_frame_def\<close>)
  then have "kernel_inv K'" by (rule kinvI)
  then show ?thesis
    using K'(1) plgs_loop_inv [OF plg, of K' 0 "length (k_plugins K')" PLG_TICK] by (auto simp: plgs_tick_def)
qed

section \<open>The calls that move no thread\<close>

lemma kinv_threads:
  assumes inv: "kinv K W S as ws rs" and t: "k_threads K a = Some t"
    and eq: "thread_key t' = thread_key t" "th_wq t' = th_wq t" "th_state t' = th_state t"
  shows "kinv (set_thread a t' (K\<lparr>k_mem := m\<rparr>)) W S as ws rs"
proof -
  note c = kinvD(1) [OF inv]
  have "placed (set_thread a t' (K\<lparr>k_mem := m\<rparr>)) W S"
    by (rule placed_data [of _ _ _ _ t]) (simp_all add: clockedD(1) [OF c] t eq)
  then have c': "clocked (set_thread a t' (K\<lparr>k_mem := m\<rparr>)) W S as ws rs"
    using clockedD(2,3) [OF c] by (simp add: clocked_def)
  show ?thesis
    by (rule kinv_other_queue [OF inv c'])
      (use t eq in \<open>auto simp: same_threads_def thread_key_def split: if_splits\<close>)
qed

lemma kinv_mem: "kinv K W S as ws rs \<Longrightarrow> kinv (K\<lparr>k_mem := m\<rparr>) W S as ws rs"
  by (rule kinv_other_queue) (auto simp: clocked_def same_threads_def kinv_def kcore_def)

lemma kinv_proc:
  assumes inv: "kinv K W S as ws rs" and r: "k_procs K p = Some r" and r': "same_proc r r'" "sig_ok W r'"
  shows "kinv (set_proc p r' K) W S as ws rs"
proof (rule kinv_update [OF inv])
  show "clocked (set_proc p r' K) W S as ws rs" using kinvD(1) [OF inv] by (simp add: clocked_def)
  show "dom (k_procs (set_proc p r' K)) = dom (k_procs K)" using r by auto
  fix p1 r1 r1' assume r1: "k_procs K p1 = Some r1" "k_procs (set_proc p r' K) p1 = Some r1'"
  have "exited (set_proc p r' K) p1 i = exited K p1 i" for i by (simp add: exited_def)
  then have "join_ok (set_proc p r' K) W p1 r1'"
    using r1 r r'(1) kinvD(6) [OF inv r1(1)] unfolding join_ok_def same_proc_def by (auto split: if_splits)
  then show "same_proc r1 r1' \<and> sig_ok W r1' \<and> join_ok (set_proc p r' K) W p1 r1'"
    using r1 r r' kinvD(5) [OF inv r1(1)] by (auto split: if_splits)
qed (simp_all add: same_threads_def)

lemma kinv_head:
  assumes inv: "kinv K W S as ws rs"
  shows "ks_head K = Some (fst_or None as)"
  using placed_head clockedD(1,2) [OF kinvD(1) [OF inv]] by blast

lemma kinv_current:
  assumes inv: "kinv K W S (a # as) ws rs"
  obtains t r where "k_threads K a = Some t" "th_state t = THREAD_STATE_SCHEDULED" "th_wq t = None"
    "k_procs K (th_proc t) = Some r" "length (th_wait_ctx t) = 6"
proof -
  note c = clockedD [OF kinvD(1) [OF inv]]
  obtain t where t: "k_threads K a = Some t" "th_state t = THREAD_STATE_SCHEDULED" "th_wq t = None"
    by (rule placed_on_schedule [OF c(1,2), of a]) simp
  obtain r where "length (th_wait_ctx t) = 6" "k_procs K (th_proc t) = Some r"
    by (rule thread_okD [OF kinvD(4) [OF inv t(1)]])
  then show ?thesis using that t by blast
qed

text \<open>A call for the current thread: trivial when there is none.\<close>

lemma with_current_inv:
  assumes at: "kernel_at K ws rs"
    and f: "\<And>W S as a t r. kinv K W S (a # as) ws rs \<Longrightarrow> k_threads K a = Some t \<Longrightarrow> k_procs K (th_proc t) = Some r \<Longrightarrow>
      th_wq t = None \<Longrightarrow> \<exists>K'. f a t = Some (Returns FOS_E_SUCCESS, K') \<and> keeps K ws rs K'"
  shows "\<exists>K'. with_current K f = Some (answer K, K') \<and> keeps K ws rs K'"
proof -
  obtain W S as where i: "kinv K W S as ws rs" using at unfolding kernel_at_def by blast
  show ?thesis
  proof (cases as)
    case Nil
    then show ?thesis using kinv_head [OF i] keepsI [OF i undisturbed_refl] by (simp add: with_current_def answer_def)
  next
    case (Cons a bs)
    then have i': "kinv K W S (a # bs) ws rs" using i by simp
    obtain t r where t: "k_threads K a = Some t" "th_wq t = None" "k_procs K (th_proc t) = Some r" by (rule kinv_current [OF i'])
    then show ?thesis using f [OF i' t(1,3,2)] kinv_head [OF i'] by (simp add: with_current_def answer_def)
  qed
qed

text \<open>The same for a call of which only the case with a current thread is left to show.\<close>

lemma current_inv:
  assumes at: "kernel_at K ws rs" and w: "call = with_current K f"
    and f: "\<And>W S as a t r. kinv K W S (a # as) ws rs \<Longrightarrow> k_threads K a = Some t \<Longrightarrow> th_state t = THREAD_STATE_SCHEDULED \<Longrightarrow>
      th_wq t = None \<Longrightarrow> k_procs K (th_proc t) = Some r \<Longrightarrow> \<exists>K'. call = Some (Returns FOS_E_SUCCESS, K') \<and> keeps K ws rs K'"
  shows "\<exists>K'. call = Some (answer K, K') \<and> keeps K ws rs K'"
proof -
  obtain W S as where i: "kinv K W S as ws rs" using at unfolding kernel_at_def by blast
  show ?thesis
  proof (cases as)
    case Nil
    then show ?thesis using kinv_head [OF i] keepsI [OF i undisturbed_refl] w by (simp add: with_current_def answer_def)
  next
    case (Cons a bs)
    then have i': "kinv K W S (a # bs) ws rs" using i by simp
    obtain t r where t: "k_threads K a = Some t" "th_state t = THREAD_STATE_SCHEDULED" "th_wq t = None"
      "k_procs K (th_proc t) = Some r" by (rule kinv_current [OF i'])
    then show ?thesis using f [OF i' t] kinv_head [OF i'] by (simp add: answer_def)
  qed
qed

lemma dual_ret_eq:
  "k_threads K a = Some t \<Longrightarrow> dual_ret K a v e = Some (Returns e, set_thread a (t\<lparr>th_ctx := (th_ctx t)\<lparr>c_eax := v\<rparr>\<rparr>) K)"
  by (simp add: dual_ret_def set_eax_def upd_thread_def)

lemma undisturbed_current:
  assumes "k_threads K a = Some t" and "th_wq t = None"
  shows "undisturbed K (set_thread a t' (K\<lparr>k_mem := m\<rparr>))"
  by (rule undisturbed_upd) (use assms in auto)

lemma kinv_dual_ret:
  assumes inv: "kinv K W S as ws rs" and t: "k_threads K a = Some t" "th_wq t = None"
  shows "\<exists>K'. dual_ret K a v e = Some (Returns e, K') \<and> keeps K ws rs K'"
proof -
  let ?t = "t\<lparr>th_ctx := (th_ctx t)\<lparr>c_eax := v\<rparr>\<rparr>"
  have "kinv (set_thread a ?t (K\<lparr>k_mem := k_mem K\<rparr>)) W S as ws rs"
    by (rule kinv_threads [OF inv t(1)]) (simp_all add: thread_key_def)
  then have "keeps K ws rs (set_thread a ?t (K\<lparr>k_mem := k_mem K\<rparr>))" by (rule keepsI) (rule undisturbed_current [OF t])
  then show ?thesis using dual_ret_eq [OF t(1)] by simp
qed

lemma kinv_user_ret:
  assumes inv: "kinv K W S as ws rs" and t: "k_threads K a = Some t" "th_wq t = None"
  shows "\<exists>K'. dual_ret (to_user_opt E K pd dest xs) a v e = Some (Returns e, K') \<and> keeps K ws rs K'"
    and "\<exists>K'. dual_ret (to_user E K pd dest xs) a v e = Some (Returns e, K') \<and> keeps K ws rs K'"
proof -
  have "\<exists>K'. dual_ret (K\<lparr>k_mem := m\<rparr>) a v e = Some (Returns e, K') \<and> keeps (K\<lparr>k_mem := m\<rparr>) ws rs K'" for m
    by (rule kinv_dual_ret [OF kinv_mem [OF inv], where t = t]) (simp_all add: t)
  moreover have "undisturbed K (K\<lparr>k_mem := m\<rparr>)" for m by (rule undisturbed_same) simp_all
  ultimately have "\<exists>K'. dual_ret (K\<lparr>k_mem := m\<rparr>) a v e = Some (Returns e, K') \<and> keeps K ws rs K'" for m
    using keeps_trans by blast
  then show "\<exists>K'. dual_ret (to_user_opt E K pd dest xs) a v e = Some (Returns e, K') \<and> keeps K ws rs K'"
    "\<exists>K'. dual_ret (to_user E K pd dest xs) a v e = Some (Returns e, K') \<and> keeps K ws rs K'"
    using to_user_opt_mem [of E K pd dest xs] by (auto simp: to_user_def)
qed

lemma ks_save_ctx_inv:
  assumes at: "kernel_at K ws rs"
  shows "\<exists>K'. ks_save_ctx K ctx = Some K' \<and> keeps K ws rs K'"
proof -
  obtain W S as where i: "kinv K W S as ws rs" using at unfolding kernel_at_def by blast
  show ?thesis
  proof (cases as)
    case Nil
    then show ?thesis using keepsI [OF i undisturbed_refl] kinv_head [OF i] by (simp add: ks_save_ctx_def)
  next
    case (Cons a bs)
    then have i': "kinv K W S (a # bs) ws rs" using i by simp
    obtain t where t: "k_threads K a = Some t" "th_wq t = None" by (rule kinv_current [OF i'])
    have "kinv (set_thread a (t\<lparr>th_ctx := ctx\<rparr>) (K\<lparr>k_mem := k_mem K\<rparr>)) W S (a # bs) ws rs"
      by (rule kinv_threads [OF i' t(1)]) (simp_all add: thread_key_def)
    then have "keeps K ws rs (set_thread a (t\<lparr>th_ctx := ctx\<rparr>) (K\<lparr>k_mem := k_mem K\<rparr>))"
      by (rule keepsI) (rule undisturbed_current [OF t])
    then show ?thesis using kinv_head [OF i'] t(1) by (simp add: ks_save_ctx_def upd_thread_def)
  qed
qed

lemma ks_expand_stack_inv:
  assumes at: "kernel_at K ws rs"
  shows "\<exists>e K'. ks_expand_stack E K base = Some (e, K') \<and> keeps K ws rs K'"
proof -
  obtain W S as where i: "kinv K W S as ws rs" using at unfolding kernel_at_def by blast
  show ?thesis
  proof (cases as)
    case Nil
    then show ?thesis using keepsI [OF i undisturbed_refl] kinv_head [OF i] by (simp add: ks_expand_stack_def)
  next
    case (Cons a bs)
    then have i': "kinv K W S (a # bs) ws rs" using i by simp
    obtain t r where t: "k_threads K a = Some t" "th_wq t = None" "k_procs K (th_proc t) = Some r" by (rule kinv_current [OF i'])
    obtain e te m where al: "ke_alloc_pages E (k_mem K) (pr_pd r) base (th_stack_base t) = (e, te, m)"
      by (cases "ke_alloc_pages E (k_mem K) (pr_pd r) base (th_stack_base t)")
    have "keeps K ws rs (K\<lparr>k_mem := m\<rparr>)" by (rule keepsI [OF kinv_mem [OF i]]) (rule undisturbed_same, simp_all)
    moreover have "keeps K ws rs (set_thread a (t\<lparr>th_stack_base := base\<rparr>) (K\<lparr>k_mem := m\<rparr>))"
      by (rule keepsI [OF _ undisturbed_current [OF t(1,2)]], rule kinv_threads [OF i' t(1)]) (simp_all add: thread_key_def)
    ultimately show ?thesis using kinv_head [OF i'] t keepsI [OF i undisturbed_refl] al by (simp add: ks_expand_stack_def Let_def)
  qed
qed

lemma sig_ok_less: "sig_ok W r \<Longrightarrow> pr_signal_queue r' = pr_signal_queue r \<Longrightarrow>
  (\<And>x. x AND pr_sig_vec r = 0 \<Longrightarrow> x AND pr_sig_vec r' = 0) \<Longrightarrow> sig_ok W r'"
  unfolding sig_ok_def by metis

lemma ks_request_mem_inv:
  assumes at: "kernel_at K ws rs"
  shows "\<exists>K'. ks_request_mem E K s e u = Some (answer K, K') \<and> keeps K ws rs K'"
  unfolding ks_request_mem_def
proof (rule with_current_inv [OF at])
  fix W S as a t r assume i: "kinv K W S (a # as) ws rs" and t: "k_threads K a = Some t" "k_procs K (th_proc t) = Some r"
    and wq: "th_wq t = None"
  obtain err te m where al: "ke_alloc_pages E (k_mem K) (pr_pd r) s e = (err, te, m)"
    by (cases "ke_alloc_pages E (k_mem K) (pr_pd r) s e")
  have "undisturbed K (K\<lparr>k_mem := m\<rparr>)" by (rule undisturbed_same) simp_all
  moreover have "k_threads (K\<lparr>k_mem := m\<rparr>) a = Some t" using t by simp
  ultimately have "\<exists>K'. dual_ret (to_user E (K\<lparr>k_mem := m\<rparr>) (pr_pd r) u [te]) a (err_word err) FOS_E_SUCCESS
      = Some (Returns FOS_E_SUCCESS, K') \<and> keeps K ws rs K'"
    using kinv_user_ret(2) [OF kinv_mem [OF i], of m a t] wq keeps_trans by blast
  with kinv_dual_ret [OF i t(1) wq] t al
  show "\<exists>K'. do {
      r \<leftarrow> k_procs K (th_proc t);
      if u = 0 then dual_ret K a (err_word FOS_E_BAD_ARGS) FOS_E_SUCCESS
      else if s < fc_free_start E \<or> fc_free_end E \<le> s then dual_ret K a (err_word FOS_E_INVALID_RANGE) FOS_E_SUCCESS
      else if e < fc_free_start E \<or> fc_free_end E < e then dual_ret K a (err_word FOS_E_INVALID_RANGE) FOS_E_SUCCESS
      else let (err, true_e, mem) = ke_alloc_pages E (k_mem K) (pr_pd r) s e in
        dual_ret (to_user E (K\<lparr>k_mem := mem\<rparr>) (pr_pd r) u [true_e]) a (err_word err) FOS_E_SUCCESS }
      = Some (Returns FOS_E_SUCCESS, K') \<and> keeps K ws rs K'" by simp
qed

lemma ks_return_mem_inv:
  assumes at: "kernel_at K ws rs"
  shows "\<exists>K'. ks_return_mem E K s e = Some (answer K, K') \<and> keeps K ws rs K'"
  unfolding ks_return_mem_def
proof (rule with_current_inv [OF at], goal_cases)
  case (1 W S as a t r)
  have "keeps K ws rs K" by (rule keepsI [OF 1(1)]) simp
  moreover have "keeps K ws rs (K\<lparr>k_mem := m\<rparr>)" for m
    by (rule keepsI [OF kinv_mem [OF 1(1)]]) (rule undisturbed_same, simp_all)
  ultimately show ?case using 1 by simp
qed

text \<open>A step of the current process on its own record, then the answer.\<close>

lemma kinv_proc_ret:
  assumes inv: "kinv K W S as ws rs" and t: "k_threads K a = Some t" "th_wq t = None" and r: "k_procs K p = Some r"
    and r': "same_proc r r'" "sig_ok W r'"
  shows "\<exists>K'. dual_ret (set_proc p r' K) a v e = Some (Returns e, K') \<and> keeps K ws rs K'"
    and "keeps K ws rs (set_proc p r' K)"
proof -
  have i: "kinv (set_proc p r' K) W S as ws rs" by (rule kinv_proc [OF inv r r'])
  have u: "undisturbed K (set_proc p r' K)" by (rule undisturbed_same) simp_all
  show "keeps K ws rs (set_proc p r' K)" by (rule keepsI [OF i u])
  have "k_threads (set_proc p r' K) a = Some t" using t(1) by simp
  from kinv_dual_ret [OF i this t(2)] keeps_trans [OF u]
  show "\<exists>K'. dual_ret (set_proc p r' K) a v e = Some (Returns e, K') \<and> keeps K ws rs K'" by blast
qed

lemma ks_set_in_handle_inv:
  assumes at: "kernel_at K ws rs"
  shows "\<exists>K'. ks_set_in_handle K h = Some (answer K, K') \<and> keeps K ws rs K'"
  unfolding ks_set_in_handle_def
proof (rule with_current_inv [OF at], goal_cases)
  case (1 W S as a t r)
  let ?r = "r\<lparr>pr_in_handle := (if idtb_max_cap (pr_handle_table r) \<le> h then idtb_null_id (pr_handle_table r) else h)\<rparr>"
  have "same_proc r ?r" "sig_ok W ?r" using kinvD(5) [OF 1(1,3)] by (simp_all add: same_proc_def sig_ok_def)
  from kinv_proc_ret(1) [OF 1(1,2,4,3) this] 1(3) show ?case by simp
qed

lemma ks_set_out_handle_inv:
  assumes at: "kernel_at K ws rs"
  shows "\<exists>K'. ks_set_out_handle K h = Some (answer K, K') \<and> keeps K ws rs K'"
  unfolding ks_set_out_handle_def
proof (rule with_current_inv [OF at], goal_cases)
  case (1 W S as a t r)
  let ?r = "r\<lparr>pr_out_handle := (if idtb_max_cap (pr_handle_table r) \<le> h then idtb_null_id (pr_handle_table r) else h)\<rparr>"
  have "same_proc r ?r" "sig_ok W ?r" using kinvD(5) [OF 1(1,3)] by (simp_all add: same_proc_def sig_ok_def)
  from kinv_proc_ret(1) [OF 1(1,2,4,3) this] 1(3) show ?case by simp
qed

lemma ks_signal_clear_inv:
  assumes at: "kernel_at K ws rs"
  shows "\<exists>K'. ks_signal_clear K sv = Some (answer K, K') \<and> keeps K ws rs K'"
  unfolding ks_signal_clear_def
proof (rule with_current_inv [OF at], goal_cases)
  case (1 W S as a t r)
  have "sig_ok W (r\<lparr>pr_sig_vec := pr_sig_vec r AND NOT sv\<rparr>)"
    by (rule sig_ok_less [OF kinvD(5) [OF 1(1,3)]]) (simp_all add: and.assoc [symmetric])
  then have "keeps K ws rs (set_proc (th_proc t) (r\<lparr>pr_sig_vec := pr_sig_vec r AND NOT sv\<rparr>) K)"
    by (intro kinv_proc_ret(2) [OF 1(1,2,4,3)]) (simp_all add: same_proc_def)
  then show ?case using 1(3) by (simp add: upd_proc_def)
qed

text \<open>Allowing signals, when no pending signal becomes forbidden.\<close>

lemma ks_allow_signal_inv:
  assumes at: "kernel_at K ws rs"
    and ok: "\<And>a t r. ks_head K = Some (Some a) \<Longrightarrow> k_threads K a = Some t \<Longrightarrow> k_procs K (th_proc t) = Some r \<Longrightarrow>
      NOT sv AND pr_sig_vec r = 0"
  shows "\<exists>K'. ks_allow_signal E K sv = Some (answer K, K') \<and> keeps K ws rs K'"
  unfolding ks_allow_signal_def
proof (rule with_current_inv [OF at], goal_cases)
  case (1 W S as a t r)
  have "same_proc r (r\<lparr>pr_sig_allow := sv\<rparr>)" by (simp add: same_proc_def)
  moreover have "sig_ok W (r\<lparr>pr_sig_allow := sv\<rparr>)" by (rule sig_ok_less [OF kinvD(5) [OF 1(1,3)]]) simp_all
  moreover have "NOT sv AND pr_sig_vec r = 0" using ok [OF _ 1(2,3)] kinv_head [OF 1(1)] by simp
  ultimately show ?case using kinv_proc_ret(1) [OF 1(1,2,4,3)] 1(3) by (simp add: Let_def)
qed

section \<open>The calls that block\<close>

lemma same_threads_wait:
  assumes "k_threads K a = Some t" and "th_state t = THREAD_STATE_SCHEDULED" and "k_threads K' = (k_threads K)(a \<mapsto> t')"
    and "thread_key t' = thread_key t" and "th_state t' \<noteq> THREAD_STATE_EXITED"
  shows "same_threads K K'"
    and "k_threads K b = Some u \<Longrightarrow> k_threads K' b = Some u' \<Longrightarrow> th_state u' = THREAD_STATE_EXITED \<Longrightarrow>
      th_state u = THREAD_STATE_EXITED"
  using assms by (auto simp: same_threads_def split: if_splits)

lemma ks_sleep_inv:
  assumes at: "kernel_at K ws rs" and al: "alloc_ok (ke_al E)" "\<not> oom (ke_al E)"
  shows "\<exists>K' ws' rs'. ks_sleep_thread E K ticks = Some (answer K, K') \<and> kernel_at K' ws' rs' \<and> undisturbed K K'
    \<and> set ws \<subseteq> set ws'
    \<and> (\<forall>a. ks_head K = Some (Some a) \<longrightarrow> (\<exists>t. k_threads K a = Some t \<and> k_threads K' a =
         Some (t\<lparr>th_wq := Some (k_sleep_q K), th_state := THREAD_STATE_WAITING\<rparr>))
         \<and> (ticks \<noteq> 0 \<longrightarrow> \<lparr>tw_item = a, tw_wake_time = k_curr_tick K + ticks\<rparr> \<in> set ws'))"
proof -
  obtain W S as where i: "kinv K W S as ws rs" using at unfolding kernel_at_def by blast
  show ?thesis
  proof (cases as)
    case Nil
    then have "ks_head K = Some None" "ks_sleep_thread E K ticks = Some (answer K, K)"
      using kinv_head [OF i] by (simp_all add: ks_sleep_thread_def with_current_def answer_def)
    then show ?thesis using at by (intro exI [of _ K] exI [of _ ws] exI [of _ rs]) simp
  next
    case (Cons a bs)
    then have i': "kinv K W S (a # bs) ws rs" using i by simp
    note c = kinvD(1) [OF i']
    obtain t r where t: "k_threads K a = Some t" "th_state t = THREAD_STATE_SCHEDULED" "th_wq t = None" by (rule kinv_current [OF i'])
    obtain ws' rs' where sq: "sleep_queue (k_curr_tick K) a ticks ws rs = (ws', rs')"
      by (cases "sleep_queue (k_curr_tick K) a ticks ws rs")
    obtain K' W' t' where K': "ks_sleep_thread E K ticks = Some (Returns FOS_E_SUCCESS, K')"
      "W' = W(k_sleep_q K \<mapsto> AWQ_timed (k_curr_tick K) ws' rs')" "clocked K' W' (without a S) bs ws' rs'"
      "same_frame K K'" "k_threads K' = (k_threads K)(a \<mapsto> t')"
      "t' = t\<lparr>th_wq := Some (k_sleep_q K), th_state := THREAD_STATE_WAITING\<rparr>"
      using ks_sleep_rep [OF c al sq] t(1) by fastforce
    have key: "thread_key t' = thread_key t" "th_state t' \<noteq> THREAD_STATE_EXITED"
      unfolding K'(6) by (simp_all add: thread_key_def)
    note st = same_threads_wait [OF t(1,2) K'(5) key]
    have "kinv K' W' (without a S) bs ws' rs'"
    proof (rule kinv_other_queue [OF i' K'(3) st(1)])
      show "W' q = W q" if "W q = Some (AWQ_vector v [])" for q v using that clockedD(3) [OF c] K'(2) by auto
    qed (use K'(4) st(2) in \<open>simp_all add: same_frame_def\<close>)
    then have "kernel_at K' ws' rs'" unfolding kernel_at_def by blast
    moreover have "undisturbed K K'"
      by (rule undisturbed_upd [OF _ _ K'(5)]) (use K'(4) t in \<open>simp_all add: same_frame_def\<close>)
    moreover have "set ws \<subseteq> set ws'" "ticks \<noteq> 0 \<longrightarrow> \<lparr>tw_item = a, tw_wake_time = k_curr_tick K + ticks\<rparr> \<in> set ws'"
    proof -
      obtain us vs where sp: "sleepers (k_curr_tick K) a (k_curr_tick K + ticks) ws
        = us @ \<lparr>tw_item = a, tw_wake_time = k_curr_tick K + ticks\<rparr> # vs" "ws = us @ vs" using sleepers_split by blast
      have "ws' = (if ticks = 0 then ws else us @ \<lparr>tw_item = a, tw_wake_time = k_curr_tick K + ticks\<rparr> # vs)"
        using sq unfolding sleep_queue_def sp(1) by (auto split: if_splits)
      then show "set ws \<subseteq> set ws'" "ticks \<noteq> 0 \<longrightarrow> \<lparr>tw_item = a, tw_wake_time = k_curr_tick K + ticks\<rparr> \<in> set ws'"
        using sp(2) by auto
    qed
    ultimately show ?thesis using K'(1,5,6) t(1) kinv_head [OF i'] by (intro exI [of _ K'] exI [of _ ws'] exI [of _ rs']) (simp add: answer_def)
  qed
qed

text \<open>A waiter added to, or the first acceptable waiter taken from, the queue of one process.\<close>

lemma clocked_vector:
  assumes c: "clocked K W S as ws rs" and W: "W q = Some (AWQ_vector vs us)" and fr: "k_schedule K' = k_schedule K"
    "k_sleep_q K' = k_sleep_q K" "k_curr_tick K' = k_curr_tick K"
    and pl: "placed K' (W(q \<mapsto> AWQ_vector vs' us')) S'" and S': "S' (k_schedule K) = Some as'"
  shows "clocked K' (W(q \<mapsto> AWQ_vector vs' us')) S' as' ws rs"
proof -
  have "q \<noteq> k_sleep_q K" using clockedD(3) [OF c] W by auto
  then show ?thesis using clockedD(3) [OF c] pl S' by (simp add: clocked_def fr)
qed

lemma kinv_signal_queue:
  assumes inv: "kinv K W S as ws rs" and r: "k_procs K p = Some r" and r': "same_proc r r'"
    and c: "clocked K' (W(pr_signal_queue r \<mapsto> AWQ_vector vs [])) S' as' ws' rs'" and th: "same_threads K K'"
    and fr: "k_proc_table K' = k_proc_table K" "k_procs K' = (k_procs K)(p \<mapsto> r')"
    and vs: "\<forall>w\<in>set vs. vw_mask w AND pr_sig_vec r' = 0"
    and ex: "\<And>a t t'. k_threads K a = Some t \<Longrightarrow> k_threads K' a = Some t' \<Longrightarrow>
      th_state t' = THREAD_STATE_EXITED \<Longrightarrow> th_state t = THREAD_STATE_EXITED"
  shows "kinv K' (W(pr_signal_queue r \<mapsto> AWQ_vector vs [])) S' as' ws' rs'"
proof (rule kinv_update [OF inv c th fr(1)])
  show "dom (k_procs K') = dom (k_procs K)" using fr(2) r by auto
  fix p1 r1 r1' assume r1: "k_procs K p1 = Some r1" "k_procs K' p1 = Some r1'"
  note q = queues_okD [OF kinvD(2) [OF inv]]
  have same: "same_proc r1 r1'" using r1 fr(2) r r' by (auto split: if_splits)
  have "join_ok K' (W(pr_signal_queue r \<mapsto> AWQ_vector vs [])) p1 r1'"
    by (rule join_ok_mono [OF kinvD(6) [OF inv r1(1)]])
      (use same q(1) [OF r r1(1)] exited_same [OF th ex] in \<open>auto simp: same_proc_def\<close>)
  moreover have "sig_ok (W(pr_signal_queue r \<mapsto> AWQ_vector vs [])) r1'"
  proof (cases "p1 = p")
    case True
    then show ?thesis using r1 fr(2) r' vs by (simp add: sig_ok_def same_proc_def)
  next
    case False
    then have "r1' = r1" using r1 fr(2) by simp
    then show ?thesis using sig_ok_mono [OF kinvD(5) [OF inv r1(1)]] q(2) [OF r r1(1)] False by simp
  qed
  ultimately show "same_proc r1 r1' \<and> sig_ok (W(pr_signal_queue r \<mapsto> AWQ_vector vs [])) r1'
    \<and> join_ok K' (W(pr_signal_queue r \<mapsto> AWQ_vector vs [])) p1 r1'" using same by blast
qed

text \<open>A thread that waits in a vector queue does not sleep.\<close>

lemma undisturbed_waiter:
  assumes c: "clocked K W S as ws rs" and W: "W q = Some (AWQ_vector vs us)" and a: "a \<in> vw_item ` set vs"
    and fr: "k_curr_tick K' = k_curr_tick K" "k_sleep_q K' = k_sleep_q K" "k_threads K' = (k_threads K)(a := x)"
  shows "undisturbed K K'"
proof (rule undisturbed_upd [OF fr])
  fix t assume t: "k_threads K a = Some t"
  have "a \<in> set (awq_items (AWQ_vector vs us))" using a by auto
  from placed_item [OF clockedD(1) [OF c] W this] t have "th_wq t = Some q" by auto
  moreover have "q \<noteq> k_sleep_q K" using clockedD(3) [OF c] W by auto
  ultimately show "th_wq t \<noteq> Some (k_sleep_q K)" by simp
qed

lemma ks_wait_signal_inv:
  assumes at: "kernel_at K ws rs" and al: "alloc_ok (ke_al E)" "\<not> oom (ke_al E)"
  shows "\<exists>K'. ks_wait_signal E K sv u_sid = Some (answer K, K') \<and> keeps K ws rs K'"
proof (rule current_inv [OF at ks_wait_signal_def])
  fix W S a bs t r
  assume i: "kinv K W S (a # bs) ws rs"
    and t: "k_threads K a = Some t" "th_state t = THREAD_STATE_SCHEDULED" "th_wq t = None" "k_procs K (th_proc t) = Some r"
  note c = kinvD(1) [OF i]
  consider "sv = 0" | "sv AND pr_sig_vec r \<noteq> 0" | "sv \<noteq> 0" "sv AND pr_sig_vec r = 0" by blast
  then show "\<exists>K'. ks_wait_signal E K sv u_sid = Some (Returns FOS_E_SUCCESS, K') \<and> keeps K ws rs K'"
  proof cases
    case 1
    then show ?thesis
      using kinv_head [OF i] t kinv_user_ret(1) [OF i t(1,3), of E "pr_pd r" u_sid "[32]" "err_word FOS_E_BAD_ARGS" FOS_E_SUCCESS]
      by (auto simp: ks_wait_signal_def with_current_def)
  next
    case 2
    let ?sid = "find_signal 32 0 sv (pr_sig_vec r)"
    let ?r = "r\<lparr>pr_sig_vec := unset_bit ?sid (pr_sig_vec r)\<rparr>" and ?t = "t\<lparr>th_ctx := (th_ctx t)\<lparr>c_eax := 0\<rparr>\<rparr>"
    have "sig_ok W ?r"
    proof (rule sig_ok_less [OF kinvD(5) [OF i t(4)]])
      fix x assume "x AND pr_sig_vec r = 0"
      then have "\<not> (bit x n \<and> bit (pr_sig_vec r) n)" for n by (metis bit_and_iff bit_0_eq bot_apply bot_bool_def)
      then show "x AND pr_sig_vec ?r = 0" by (intro bit_eqI) (auto simp: bit_and_iff bit_unset_bit_iff)
    qed simp
    then have "kinv (set_proc (th_proc t) ?r K) W S (a # bs) ws rs"
      by (intro kinv_proc [OF i t(4)]) (simp_all add: same_proc_def)
    from kinv_threads [OF this, of a t ?t] t(1)
    have i': "kinv (set_thread a ?t ((set_proc (th_proc t) ?r K)\<lparr>k_mem := m\<rparr>)) W S (a # bs) ws rs" for m
      by (simp add: thread_key_def)
    have "undisturbed K (set_thread a ?t ((set_proc (th_proc t) ?r K)\<lparr>k_mem := m\<rparr>))" for m
      by (rule undisturbed_upd) (use t in auto)
    then show ?thesis
      using ks_wait_signal_pending [OF clockedD(1,2) [OF c] t(1,4) 2 refl] keepsI [OF i'] by blast
  next
    case 3
    let ?q = "pr_signal_queue r"
    obtain vs where vs: "W ?q = Some (AWQ_vector vs [])" "\<forall>w\<in>set vs. vw_mask w AND pr_sig_vec r = 0"
      using kinvD(5) [OF i t(4)] by (auto simp: sig_ok_def)
    let ?vs = "vs @ [\<lparr>vw_item = a, vw_mask = sv\<rparr>]"
    obtain K' where K': "ks_wait_signal E K sv u_sid = Some (Returns FOS_E_SUCCESS, K')"
      "placed K' (W(?q \<mapsto> AWQ_vector ?vs [])) (without a S)" "same_frame K K'"
      "k_threads K' = (k_threads K)(a \<mapsto> t\<lparr>th_wq := Some ?q, th_state := THREAD_STATE_WAITING,
        th_wait_ctx := (th_wait_ctx t)[0 := u_sid]\<rparr>)"
      using ks_wait_signal_blocks [OF clockedD(1,2) [OF c] t(1,4) vs(1) al 3] by blast
    have fr: "k_schedule K' = k_schedule K" "k_sleep_q K' = k_sleep_q K" "k_curr_tick K' = k_curr_tick K"
      "k_proc_table K' = k_proc_table K" "k_procs K' = k_procs K" using K'(3) by (simp_all add: same_frame_def)
    have "removeAll a (a # bs) = bs" using placed_ring_distinct [OF clockedD(1,2) [OF c]] by simp
    then have "without a S (k_schedule K) = Some bs" using clockedD(2) [OF c] by (simp add: without_def)
    from clocked_vector [OF c vs(1) fr(1-3) K'(2) this]
    have c': "clocked K' (W(?q \<mapsto> AWQ_vector ?vs [])) (without a S) bs ws rs" .
    note st = same_threads_wait [OF t(1,2) K'(4)]
    have "kinv K' (W(?q \<mapsto> AWQ_vector ?vs [])) (without a S) bs ws rs"
      by (rule kinv_signal_queue [OF i t(4) same_proc_refl c' st(1) fr(4)])
        (use fr(5) t(4) vs(2) 3(2) st(2) in \<open>auto simp: thread_key_def\<close>)
    moreover have "undisturbed K K'" by (rule undisturbed_upd [OF fr(3,2) K'(4)]) (use t in simp)
    ultimately show ?thesis using K'(1) keepsI by blast
  qed
qed

section \<open>Sending a signal that the receiver allows\<close>

lemma and_set_bit_eq_0:
  assumes "x AND (v :: 32 word) = 0" and "\<not> bit x i"
  shows "x AND set_bit i v = 0"
proof (rule bit_eqI)
  fix n
  have "\<not> (bit x n \<and> bit v n)" using assms(1) by (metis bit_and_iff bit_0_eq bot_apply bot_bool_def)
  then show "bit (x AND set_bit i v) n = bit 0 n" using assms(2) by (auto simp: bit_and_iff bit_set_bit_iff)
qed

lemma kinv_signal:
  assumes inv: "kinv K W S as ws rs" and p: "k_procs K p = Some r" and al: "alloc_ok (ke_al E)" "\<not> oom (ke_al E)"
    and sid: "sid < 32" and ok: "bit (pr_sig_vec r) sid \<or> bit (pr_sig_allow r) sid"
  shows "\<exists>K' W' S' as'. ks_signal_with ex E K (Some p) sid = Some (Returns FOS_E_SUCCESS, K')
    \<and> kinv K' W' S' as' ws rs \<and> same_threads K K' \<and> dom (k_procs K') = dom (k_procs K) \<and> undisturbed K K'"
proof (cases "bit (pr_sig_vec r) sid")
  case True
  then have "ks_signal_with ex E K (Some p) sid = Some (Returns FOS_E_SUCCESS, K)"
    using p sid by (simp add: ks_signal_with_def)
  then show ?thesis using inv by (metis same_threads_eq undisturbed_refl)
next
  case False
  then have allow: "bit (pr_sig_allow r) sid" using ok by simp
  note c = kinvD(1) [OF inv]
  let ?q = "pr_signal_queue r"
  obtain vs where vs: "W ?q = Some (AWQ_vector vs [])" "\<forall>w\<in>set vs. vw_mask w AND pr_sig_vec r = 0"
    using kinvD(5) [OF inv p] by (auto simp: sig_ok_def)
  have tk: "\<forall>w\<in>set vs. \<forall>t. k_threads K (vw_item w) = Some t \<longrightarrow> th_proc t \<in> dom (k_procs K) \<and> length (th_wait_ctx t) = 6"
    using kinvD(4) [OF inv] unfolding thread_ok_def by blast
  note rep = ks_signal_with_rep [OF clockedD(1,2) [OF c] p vs(1) al sid allow False, of ex, OF tk]
  show ?thesis
  proof (cases "first_waiter sid vs")
    case None
    let ?r = "r\<lparr>pr_sig_vec := set_bit sid (pr_sig_vec r)\<rparr>"
    obtain w where w: "ks_signal_with ex E K (Some p) sid = Some (Returns FOS_E_SUCCESS, set_wq ?q w (set_proc p ?r K))"
      "placed (set_wq ?q w K) W S" using rep None by auto
    let ?K = "set_wq ?q w (set_proc p ?r K)"
    have Wq: "W(?q \<mapsto> AWQ_vector vs []) = W" using vs(1) by (simp add: fun_upd_idem)
    have "placed ?K W S" using w(2) by (simp add: placed_def)
    then have c': "clocked ?K (W(?q \<mapsto> AWQ_vector vs [])) S as ws rs"
      using clockedD(2,3) [OF c] unfolding Wq by (simp add: clocked_def)
    have "kinv ?K (W(?q \<mapsto> AWQ_vector vs [])) S as ws rs"
    proof (rule kinv_signal_queue [OF inv p _ c'])
      show "\<forall>x\<in>set vs. vw_mask x AND pr_sig_vec ?r = 0"
        using vs(2) first_waiter_None [OF None] and_set_bit_eq_0 by (auto simp: filter_empty_conv)
    qed (auto simp: same_proc_def same_threads_def)
    moreover have "undisturbed K ?K" by (rule undisturbed_same) simp_all
    ultimately show ?thesis using w(1) p
      by (intro exI [of _ ?K] exI [of _ "W(?q \<mapsto> AWQ_vector vs [])"] exI [of _ S] exI [of _ as]) (auto simp: same_threads_def)
  next
    case (Some x)
    let ?vs = "waiters_after sid vs"
    obtain K' m t t' where K': "ks_signal_with ex E K (Some p) sid = Some (Returns FOS_E_SUCCESS, K')"
      "placed K' (W(?q \<mapsto> AWQ_vector ?vs [])) (S(k_schedule K \<mapsto> as @ [vw_item x]))" "same_frame (K\<lparr>k_mem := m\<rparr>) K'"
      "k_threads K (vw_item x) = Some t" "k_threads K' = (k_threads K)(vw_item x \<mapsto> t')" "woken_by_signal (Some t) (Some t')"
      using rep Some by auto
    have fr: "k_schedule K' = k_schedule K" "k_sleep_q K' = k_sleep_q K" "k_curr_tick K' = k_curr_tick K"
      "k_proc_table K' = k_proc_table K" "k_procs K' = k_procs K" using K'(3) by (simp_all add: same_frame_def)
    have c': "clocked K' (W(?q \<mapsto> AWQ_vector ?vs [])) (S(k_schedule K \<mapsto> as @ [vw_item x])) (as @ [vw_item x]) ws rs"
      by (rule clocked_vector [OF c vs(1) fr(1-3) K'(2)]) simp
    have th: "same_threads K K'"
      by (rule same_threads_upd [OF K'(4,5)]) (use K'(6) in \<open>auto simp: woken_by_signal_def thread_key_def\<close>)
    obtain us us' where "vs = us @ x # us'" "?vs = us @ us'" by (rule first_waiter_Some [OF Some])
    then have sub: "set ?vs \<subseteq> set vs" by auto
    have "kinv K' (W(?q \<mapsto> AWQ_vector ?vs [])) (S(k_schedule K \<mapsto> as @ [vw_item x])) (as @ [vw_item x]) ws rs"
    proof (rule kinv_signal_queue [OF inv p same_proc_refl c' th fr(4)])
      show "k_procs K' = (k_procs K)(p \<mapsto> r)" using fr(5) p by (simp add: fun_upd_idem)
      fix b u u' assume "k_threads K b = Some u" "k_threads K' b = Some u'" "th_state u' = THREAD_STATE_EXITED"
      then show "th_state u = THREAD_STATE_EXITED" using K'(5,6) by (auto simp: woken_by_signal_def split: if_splits)
    qed (use sub vs(2) in blast)
    moreover have "undisturbed K K'" by (rule undisturbed_waiter [OF c vs(1) _ fr(3,2) K'(5)]) (use \<open>vs = us @ x # us'\<close> in auto)
    ultimately show ?thesis using K'(1) th fr(5) by metis
  qed
qed

text \<open>The process that \<^verbatim>\<open>ks_signal\<close> finds for a pid.\<close>

definition signal_target :: "'m kenv \<Rightarrow> 'm kernel \<Rightarrow> nat \<Rightarrow> addr option option" where
  "signal_target E K pid = do {
     head \<leftarrow> ks_head K;
     a \<leftarrow> head;
     t \<leftarrow> k_threads K a;
     if pid = fc_max_procs E then do { r \<leftarrow> k_procs K (th_proc t); Some (pr_parent r) }
     else idtb_get (k_proc_table K) pid }"

definition signal_ok :: "'m kenv \<Rightarrow> 'm kernel \<Rightarrow> nat \<Rightarrow> nat \<Rightarrow> bool" where
  "signal_ok E K pid sid \<longleftrightarrow> (\<forall>p r. signal_target E K pid = Some (Some p) \<longrightarrow> k_procs K p = Some r \<longrightarrow>
     sid < 32 \<and> (bit (pr_sig_vec r) sid \<or> bit (pr_sig_allow r) sid))"

lemma ks_signal_inv:
  assumes at: "kernel_at K ws rs" and al: "alloc_ok (ke_al E)" "\<not> oom (ke_al E)" and ok: "signal_ok E K pid sid"
  shows "\<exists>K'. ks_signal E K pid sid = Some (answer K, K') \<and> keeps K ws rs K'"
  unfolding ks_signal_def
proof (rule with_current_inv [OF at])
  fix W S as a t r
  assume i: "kinv K W S (a # as) ws rs" and t: "k_threads K a = Some t" and r: "k_procs K (th_proc t) = Some r"
    and wq: "th_wq t = None"
  let ?recv = "if pid = fc_max_procs E then do { r \<leftarrow> k_procs K (th_proc t); Some (pr_parent r) } else idtb_get (k_proc_table K) pid"
  have pt: "idtb_ok (k_proc_table K)" "\<And>i a. idtb_view (k_proc_table K) i = Some (Some a) \<Longrightarrow> a \<in> dom (k_procs K)"
    "\<And>q. pr_parent r = Some q \<Longrightarrow> q \<in> dom (k_procs K)" using kinvD(3) [OF i] r unfolding procs_ok_def by blast+
  obtain recv where recv: "?recv = Some recv" "\<And>p. recv = Some p \<Longrightarrow> p \<in> dom (k_procs K)"
  proof (cases "pid = fc_max_procs E")
    case True
    then show ?thesis using that [of "pr_parent r"] r pt(3) by simp
  next
    case False
    obtain d where "idtb_get (k_proc_table K) pid = Some d" "\<And>p. d = Some p \<Longrightarrow> idtb_view (k_proc_table K) pid = Some (Some p)"
      using idtb_get_ok [OF pt(1), of pid] that by (cases "idtb_view (k_proc_table K) pid") auto
    then show ?thesis using that [of d] False pt(2) by auto
  qed
  have tg: "signal_target E K pid = Some recv" using kinv_head [OF i] t recv(1) by (simp add: signal_target_def)
  show "\<exists>K'. do {
     recv_proc \<leftarrow> ?recv;
     if recv_proc = None then dual_ret K a (err_word FOS_E_STATE_MISMATCH) FOS_E_SUCCESS
     else do {
       (res, K) \<leftarrow> ks_signal_p E K recv_proc sid;
       if res \<noteq> Returns FOS_E_SUCCESS then Some (res, K)
       else do {
         r \<leftarrow> k_procs K (th_proc t);
         K \<leftarrow> (if \<not> pr_exited r then set_eax K a (err_word FOS_E_SUCCESS) else Some K);
         Some (Returns FOS_E_SUCCESS, K) } } } = Some (Returns FOS_E_SUCCESS, K') \<and> keeps K ws rs K'"
  proof (cases recv)
    case None
    then show ?thesis using recv(1) kinv_dual_ret [OF i t wq] by simp
  next
    case (Some p)
    then obtain rp where rp: "k_procs K p = Some rp" using recv(2) by blast
    have "sid < 32" "bit (pr_sig_vec rp) sid \<or> bit (pr_sig_allow rp) sid"
      using ok tg Some rp by (auto simp: signal_ok_def)
    from kinv_signal [OF i rp al this, of "ks_exit_proc_p E"] obtain K1 W1 S1 as1 where K1:
      "ks_signal_with (ks_exit_proc_p E) E K (Some p) sid = Some (Returns FOS_E_SUCCESS, K1)"
      "kinv K1 W1 S1 as1 ws rs" "same_threads K K1" "dom (k_procs K1) = dom (k_procs K)" "undisturbed K K1" by blast
    obtain t1 where t1: "k_threads K1 a = Some t1" by (rule same_threads_fwd [OF K1(3) t])
    obtain r1 where r1: "k_procs K1 (th_proc t) = Some r1" using K1(4) r by (metis domD domI)
    have "kinv (set_thread a (t1\<lparr>th_ctx := (th_ctx t1)\<lparr>c_eax := 0\<rparr>\<rparr>) (K1\<lparr>k_mem := k_mem K1\<rparr>)) W1 S1 as1 ws rs"
      by (rule kinv_threads [OF K1(2) t1]) (simp_all add: thread_key_def)
    moreover have "undisturbed K (set_thread a (t1\<lparr>th_ctx := (th_ctx t1)\<lparr>c_eax := 0\<rparr>\<rparr>) (K1\<lparr>k_mem := k_mem K1\<rparr>))"
      using K1(5) t wq unfolding undisturbed_def by auto
    ultimately have "keeps K ws rs (set_thread a (t1\<lparr>th_ctx := (th_ctx t1)\<lparr>c_eax := 0\<rparr>\<rparr>) (K1\<lparr>k_mem := k_mem K1\<rparr>))"
      by (rule keepsI)
    then show ?thesis using recv(1) Some K1(1) keepsI [OF K1(2,5)] r1 t1
      by (simp add: ks_signal_p_def set_eax_def upd_thread_def)
  qed
qed

end
