(* ===== verification/Thread_Lifecycle.thy ===== *)
theory Thread_Lifecycle
  imports Kernel_Invariant
begin

text \<open>
  The life of the threads of a process: \<^verbatim>\<open>ks_spawn_local_thread\<close>, \<^verbatim>\<open>ks_exit_thread\<close> and
  \<^verbatim>\<open>ks_join_local_thread\<close> keep the invariant of the kernel, and a join never misses an exit.
\<close>

section \<open>Threads that come and go\<close>

lemma init_ring_element_rep:
  assumes rep: "ring_rep st S" and a: "relems st a = None"
  shows "ring_rep (init_ring_element st a) S"
proof -
  have off: "a \<notin> set as" if "S r = Some as" for r as
  proof
    assume "a \<in> set as"
    from ring_member_live [OF rep that this] show False using a by simp
  qed
  have "ring_is (init_ring_element st a) r as" if S: "S r = Some as" for r as
  proof -
    have "ring_is st r as" using rep S by (simp add: ring_rep_def)
    moreover have "dseg (ring_links (init_ring_element st a)) p as n = dseg (ring_links st) p as n" for p n
      by (rule dseg_cong) (use off [OF S] in \<open>auto simp: ring_links_def init_ring_element_def\<close>)
    moreover have "relems (init_ring_element st a) x = relems st x" if "x \<in> set as" for x
      using off [OF S] that by (auto simp: init_ring_element_def)
    ultimately show ?thesis by (simp add: ring_is_def) (simp add: init_ring_element_def)
  qed
  then show ?thesis using rep unfolding ring_rep_def by (auto simp: init_ring_element_def split: if_splits)
qed

lemma placed_new_thread:
  assumes pl: "placed K W S" and a: "k_threads K a = None" and room: "card (dom (k_threads K)) + 1 < 2 ^ 31"
    and t: "th_wq t = None" "th_state t = THREAD_STATE_DETATCHED"
  shows "placed (set_thread a t (K\<lparr>k_rings := init_ring_element (k_rings K) a\<rparr>)) W S"
proof -
  have na: "a \<notin> dom (k_threads K)" using a by auto
  then have ra: "relems (k_rings K) a = None" using placedD(2) [OF pl] by (metis domIff)
  have "card (insert a (dom (k_threads K))) < 2 ^ 31" using room placedD(3) [OF pl] na by simp
  moreover have items: "a \<notin> set (awq_items aq)" if "W q = Some aq" for q aq
    using placedD(7) [OF pl that] na by blast
  have "\<not> on_ring S a" using ring_member_live [OF placedD(1) [OF pl]] ra unfolding on_ring_def by fastforce
  then have "located W S a t" by (intro located_nowhere) (use t items in auto)
  then have "located W S b u" if "((k_threads K)(a \<mapsto> t)) b = Some u" for b u
    using that placedD(8) [OF pl] by (cases "b = a") auto
  moreover have "dom (relems (init_ring_element (k_rings K) a)) = insert a (dom (k_threads K))"
    using placedD(2) [OF pl] by (auto simp: init_ring_element_def)
  moreover have "distinct (awq_items aq) \<and> set (awq_items aq) \<subseteq> insert a (dom (k_threads K))" if "W q = Some aq" for q aq
    using placedD(7) [OF pl that] by blast
  ultimately show ?thesis
    using init_ring_element_rep [OF placedD(1) [OF pl] ra] placedD(3,5,6) [OF pl] unfolding placed_def by simp
qed

lemma placed_delete:
  assumes pl: "placed K W S" and t: "k_threads K a = Some t" "th_wq t = None" "th_state t \<noteq> THREAD_STATE_SCHEDULED"
  shows "placed (K\<lparr>k_threads := (k_threads K)(a := None),
    k_rings := (k_rings K)\<lparr>relems := (relems (k_rings K))(a := None)\<rparr>\<rparr>) W S"
proof -
  note loc = placedD(8) [OF pl t(1)]
  have off: "\<not> on_ring S a" by (rule on_ring_located [OF loc t(3)])
  have items: "a \<notin> set (awq_items aq)" if "W q = Some aq" for q aq using locatedD(4) [OF loc that] t(2) by simp
  let ?st = "(k_rings K)\<lparr>relems := (relems (k_rings K))(a := None)\<rparr>"
  have "ring_is ?st r as" if S: "S r = Some as" for r as
  proof -
    have na: "a \<notin> set as" using off S by (auto simp: on_ring_def)
    have "ring_is (k_rings K) r as" using placedD(1) [OF pl] S by (simp add: ring_rep_def)
    moreover have "dseg (ring_links ?st) p as n = dseg (ring_links (k_rings K)) p as n" for p n
      by (rule dseg_cong) (use na in \<open>auto simp: ring_links_def\<close>)
    moreover have "relems ?st x = relems (k_rings K) x" if "x \<in> set as" for x using na that by auto
    ultimately show ?thesis by (simp add: ring_is_def)
  qed
  then have "ring_rep ?st S" using placedD(1) [OF pl] unfolding ring_rep_def by (auto split: if_splits)
  moreover have "dom (relems ?st) = dom ((k_threads K)(a := None))" using placedD(2) [OF pl] by simp
  moreover have "card (dom ((k_threads K)(a := None))) < 2 ^ 31"
    using placedD(3,4) [OF pl] card_Diff1_le [of "dom (k_threads K)" a] by simp
  moreover have "distinct (awq_items aq) \<and> set (awq_items aq) \<subseteq> dom ((k_threads K)(a := None))" if "W q = Some aq" for q aq
    using placedD(7) [OF pl that] items [OF that] by auto
  moreover have "located W S b u" if "((k_threads K)(a := None)) b = Some u" for b u
    using that placedD(8) [OF pl] by (cases "b = a") auto
  ultimately show ?thesis using placedD(3,5,6) [OF pl] unfolding placed_def by simp
qed

text \<open>Entering and leaving the table of the process.\<close>

lemma kcore_add:
  assumes inv: "kcore K W S as ws rs" and p: "k_procs K p = Some r" and a: "k_threads K a = None"
    and c: "clocked K' W S as ws rs" and fr: "k_proc_table K' = k_proc_table K" "k_procs K' = (k_procs K)(p \<mapsto> r')"
      "k_threads K' = (k_threads K)(a \<mapsto> t)"
    and t: "th_proc t = p" "length (th_wait_ctx t) = 6"
    and r': "pr_signal_queue r' = pr_signal_queue r" "pr_join_queue r' = pr_join_queue r" "pr_sig_vec r' = pr_sig_vec r"
      "pr_parent r' = pr_parent r" "pr_handle_table r' = pr_handle_table r"
      "idtb_ok (pr_thread_table r')" "idtb_max (pr_thread_table r') = idtb_max (pr_thread_table r)"
    and v: "idtb_view (pr_thread_table r) (th_tid t) = None"
      "idtb_view (pr_thread_table r') = (idtb_view (pr_thread_table r))(th_tid t \<mapsto> Some a)"
  shows "kcore K' W S as ws rs"
proof -
  have "queues_ok K'" using kcoreD(2) [OF inv] p r' unfolding queues_ok_def fr by (simp split: if_splits)
  moreover have "procs_ok K'" using kcoreD(3) [OF inv] p r' unfolding procs_ok_def fr by (auto split: if_splits)
  moreover have "thread_ok K' b u" if u: "k_threads K' b = Some u" for b u
  proof (cases "b = a")
    case True
    then show ?thesis using u fr t v by (simp add: thread_ok_def)
  next
    case False
    then have "thread_ok K b u" using u fr kcoreD(4) [OF inv] by simp
    then show ?thesis using fr v p by (auto simp: thread_ok_def split: if_splits)
  qed
  moreover have "sig_ok W q' \<and> tables_ok K' p' q'" if q': "k_procs K' p' = Some q'" for p' q'
  proof (cases "p' = p")
    case True
    then have [simp]: "q' = r'" using q' fr by simp
    have "sig_ok W r'" using kcoreD(5) [OF inv p] r' by (simp add: sig_ok_def)
    moreover have "tables_ok K p r" by (rule kcoreD(6) [OF inv p])
    then have "tables_ok K' p r'" using r' v t fr a unfolding tables_ok_def by (fastforce split: if_splits)
    ultimately show ?thesis using True by simp
  next
    case False
    then have q: "k_procs K p' = Some q'" using q' fr by simp
    have "tables_ok K p' q'" by (rule kcoreD(6) [OF inv q])
    then have "tables_ok K' p' q'" using fr a unfolding tables_ok_def by (fastforce split: if_splits)
    then show ?thesis using kcoreD(5) [OF inv q] by simp
  qed
  ultimately show ?thesis using c unfolding kcore_def by blast
qed

lemma kcore_remove:
  assumes inv: "kcore K W S as ws rs" and t: "k_threads K a = Some t" and p: "k_procs K (th_proc t) = Some r"
    and c: "clocked K' W S as ws rs"
    and fr: "k_proc_table K' = k_proc_table K" "k_procs K' = (k_procs K)(th_proc t \<mapsto> r\<lparr>pr_thread_table := tt\<rparr>)"
      "k_threads K' = (k_threads K)(a := None)"
    and tt: "idtb_ok tt" "idtb_max tt = idtb_max (pr_thread_table r)"
      "idtb_view tt = (idtb_view (pr_thread_table r))(th_tid t := None)"
  shows "kcore K' W S as ws rs"
proof -
  let ?p = "th_proc t"
  have ta: "idtb_view (pr_thread_table r) (th_tid t) = Some (Some a)"
    using kcoreD(4) [OF inv t] p by (auto simp: thread_ok_def)
  have "queues_ok K'" using kcoreD(2) [OF inv] p unfolding queues_ok_def fr by (simp split: if_splits)
  moreover have "procs_ok K'" using kcoreD(3) [OF inv] p unfolding procs_ok_def fr by (auto split: if_splits)
  moreover have "thread_ok K' b u" if u: "k_threads K' b = Some u" for b u
  proof -
    have b: "b \<noteq> a" "k_threads K b = Some u" using u fr by (auto split: if_splits)
    obtain q where q: "length (th_wait_ctx u) = 6" "k_procs K (th_proc u) = Some q"
      "idtb_view (pr_thread_table q) (th_tid u) = Some (Some b)" by (rule thread_okD [OF kcoreD(4) [OF inv b(2)]])
    show ?thesis
    proof (cases "th_proc u = ?p")
      case True
      then have "q = r" using q(2) p by simp
      then have "th_tid u \<noteq> th_tid t" using q(3) ta b(1) by auto
      then show ?thesis using True q \<open>q = r\<close> fr tt by (simp add: thread_ok_def)
    qed (use q fr in \<open>simp add: thread_ok_def\<close>)
  qed
  moreover have "sig_ok W q' \<and> tables_ok K' p' q'" if q': "k_procs K' p' = Some q'" for p' q'
  proof (cases "p' = ?p")
    case True
    then have [simp]: "q' = r\<lparr>pr_thread_table := tt\<rparr>" using q' fr by simp
    have "tables_ok K ?p r" by (rule kcoreD(6) [OF inv p])
    then have "tables_ok K' ?p (r\<lparr>pr_thread_table := tt\<rparr>)"
      using tt ta fr t unfolding tables_ok_def by (fastforce split: if_splits)
    then show ?thesis using True kcoreD(5) [OF inv p] by (simp add: sig_ok_def)
  next
    case False
    then have q: "k_procs K p' = Some q'" using q' fr by simp
    have "tables_ok K p' q'" by (rule kcoreD(6) [OF inv q])
    then have "tables_ok K' p' q'" using fr t False unfolding tables_ok_def by (fastforce split: if_splits)
    then show ?thesis using kcoreD(5) [OF inv q] by simp
  qed
  ultimately show ?thesis using c unfolding kcore_def by blast
qed

text \<open>\<^verbatim>\<open>proc_delete_thread\<close> on a thread that is neither scheduled nor waiting.\<close>

lemma proc_delete_thread_rep:
  assumes inv: "kcore K W S as ws rs" and t: "k_threads K a = Some t" "th_wq t = None" "th_state t \<noteq> THREAD_STATE_WAITING"
      "th_state t \<noteq> THREAD_STATE_SCHEDULED"
  shows "\<exists>K'. proc_delete_thread E K (Some (th_proc t)) (Some a) rs' = Some K' \<and> kcore K' W S as ws rs
    \<and> k_threads K' = (k_threads K)(a := None) \<and> k_curr_tick K' = k_curr_tick K \<and> k_sleep_q K' = k_sleep_q K
    \<and> (\<forall>p. map_option (\<lambda>r. (pr_join_queue r, pr_pd r)) (k_procs K' p) = map_option (\<lambda>r. (pr_join_queue r, pr_pd r)) (k_procs K p))"
proof -
  let ?p = "th_proc t"
  obtain r where r: "k_procs K ?p = Some r" "idtb_view (pr_thread_table r) (th_tid t) = Some (Some a)"
    by (rule thread_okD [OF kcoreD(4) [OF inv t(1)]])
  have "idtb_ok (pr_thread_table r)" using kcoreD(6) [OF inv r(1)] by (simp add: tables_ok_def)
  from idtb_push_ok [OF this, of "th_tid t"] obtain tt where tt: "idtb_push_id (pr_thread_table r) (th_tid t) = Some tt"
    "idtb_ok tt" "idtb_max tt = idtb_max (pr_thread_table r)" "idtb_view tt = (idtb_view (pr_thread_table r))(th_tid t := None)"
    by blast
  define m where "m = (if rs' then ke_free_pages E (k_mem K) (pr_pd r) (th_stack_base t) (tstack_end E (th_tid t)) else k_mem K)"
  let ?D = "K\<lparr>k_threads := (k_threads K)(a := None), k_rings := (k_rings K)\<lparr>relems := (relems (k_rings K))(a := None)\<rparr>\<rparr>"
  let ?K = "set_proc ?p (r\<lparr>pr_thread_table := tt\<rparr>) ((K\<lparr>k_mem := m\<rparr>)\<lparr>k_threads := (k_threads K)(a := None),
    k_rings := (k_rings K)\<lparr>relems := (relems (k_rings K))(a := None)\<rparr>\<rparr>)"
  have "(if rs' then K\<lparr>k_mem := ke_free_pages E (k_mem K) (pr_pd r) (th_stack_base t) (tstack_end E (th_tid t))\<rparr> else K)
      = K\<lparr>k_mem := m\<rparr>" by (simp add: m_def)
  then have run: "proc_delete_thread E K (Some ?p) (Some a) rs' = Some ?K"
    using t r(1) tt(1) by (simp add: proc_delete_thread_def delete_thread_def thread_detach_def Let_def)
  note c = kcoreD(1) [OF inv]
  have "placed ?D W S" by (rule placed_delete [OF clockedD(1) [OF c] t(1,2,4)])
  then have "placed ?K W S" unfolding placed_def by simp
  then have "clocked ?K W S as ws rs" using clockedD(2,3) [OF c] by (simp add: clocked_def)
  then have "kcore ?K W S as ws rs" by (rule kcore_remove [OF inv t(1) r(1), where tt = tt]) (simp_all add: tt)
  then show ?thesis using run r(1) by (intro exI [of _ ?K]) simp
qed

section \<open>Spawning\<close>

lemma kinv_of_core:
  assumes old: "kinv K W S as ws rs" and inv: "kcore K' W' S' as' ws' rs'"
    and pr: "\<And>p r'. k_procs K' p = Some r' \<Longrightarrow> \<exists>r. k_procs K p = Some r \<and> pr_join_queue r' = pr_join_queue r
      \<and> W' (pr_join_queue r) = W (pr_join_queue r)"
    and ex: "\<And>p i. exited K' p i \<Longrightarrow> exited K p i"
  shows "kinv K' W' S' as' ws' rs'"
proof -
  have "join_ok K' W' p r'" if r': "k_procs K' p = Some r'" for p r'
  proof -
    obtain r where r: "k_procs K p = Some r" "pr_join_queue r' = pr_join_queue r" "W' (pr_join_queue r) = W (pr_join_queue r)"
      using pr [OF r'] by blast
    show ?thesis by (rule join_ok_mono [OF kinvD(6) [OF old r(1)], of r' W' K']) (use r(2,3) ex in auto)
  qed
  then show ?thesis using inv by (simp add: kinv_def)
qed

lemma new_thread_eq:
  assumes "tid < fc_max_threads E" and "k_procs K p = Some r" and "ke_al E (dom (k_threads K)) = Some a"
  shows "\<exists>t. new_thread E K (Some p) tid entry a0 a1 a2
      = Some (Some a, set_thread a t (K\<lparr>k_rings := init_ring_element (k_rings K) a\<rparr>))
    \<and> th_state t = THREAD_STATE_DETATCHED \<and> th_wq t = None \<and> th_tid t = tid \<and> th_proc t = p \<and> length (th_wait_ctx t) = 6
    \<and> c_eax (th_ctx t) = entry \<and> c_esp (th_ctx t) = tstack_end E tid \<and> c_cr3 (th_ctx t) = pr_pd r"
  using assms by (simp add: new_thread_def thread_reset_context_def Let_def) (auto intro!: exI)

lemma proc_new_thread_rep:
  assumes inv: "kinv K W S as ws rs" and r: "k_procs K p = Some r" and entry: "entry \<noteq> 0"
    and al: "alloc_ok (ke_al E)" "\<not> oom (ke_al E)" and room: "card (dom (k_threads K)) + 1 < 2 ^ 31"
  shows "\<exists>res K'. proc_new_thread E K (Some p) entry a0 a1 a2 = Some (res, K') \<and> kinv K' W S as ws rs
    \<and> k_schedule K' = k_schedule K \<and> k_curr_tick K' = k_curr_tick K \<and> k_sleep_q K' = k_sleep_q K
    \<and> (case res of None \<Rightarrow> k_threads K' = k_threads K
       | Some a \<Rightarrow> k_threads K a = None \<and> (\<exists>t. k_threads K' = (k_threads K)(a \<mapsto> t) \<and> th_state t = THREAD_STATE_DETATCHED
           \<and> th_wq t = None \<and> th_proc t = p))"
proof -
  let ?tt = "pr_thread_table r"
  note c = kinvD(1) [OF inv]
  have ok: "idtb_ok ?tt" using kinvD(7) [OF inv r] by (simp add: tables_ok_def)
  from idtb_pop_ok [OF ok, of "ke_mem E" "ke_junk E"] obtain tid tt where
    tt: "idtb_pop_id (ke_mem E) (ke_junk E) ?tt = Some (tid, tt)" "idtb_ok tt" "idtb_max tt = idtb_max ?tt"
    "tid = idtb_null_id ?tt \<and> tt = ?tt
     \<or> tid < idtb_max ?tt \<and> tid \<notin> dom (idtb_view ?tt) \<and> idtb_view tt = (idtb_view ?tt)(tid \<mapsto> None)"
    by (metis (no_types, lifting))
  have null: "idtb_null_id ?tt = idtb_max ?tt" by (simp add: idtb_null_id_def)
  have same: "kinv (set_proc p (r\<lparr>pr_thread_table := t'\<rparr>) K) W S as ws rs"
    if "idtb_ok t'" "idtb_max t' = idtb_max ?tt" "idtb_view t' = idtb_view ?tt" for t'
    by (rule kinv_proc [OF inv r]) (use that kinvD(5) [OF inv r] in \<open>simp_all add: same_proc_def sig_ok_def\<close>)
  show ?thesis
  proof (cases "tid = idtb_null_id ?tt")
    case True
    then have "tt = ?tt" using tt(4) null by auto
    then show ?thesis using True tt(1) same [of ?tt] ok r entry
      by (intro exI [of _ None] exI [of _ "set_proc p (r\<lparr>pr_thread_table := ?tt\<rparr>) K"])
        (simp add: proc_new_thread_def Let_def)
  next
    case False
    then have tid: "tid \<notin> dom (idtb_view ?tt)" "idtb_view tt = (idtb_view ?tt)(tid \<mapsto> None)" using tt(4) by auto
    let ?A = "set_proc p (r\<lparr>pr_thread_table := tt\<rparr>) K"
    show ?thesis
    proof (cases "tid < fc_max_threads E")
      case False
      from idtb_push_ok [OF tt(2), of tid] obtain t2 where
        t2: "idtb_push_id tt tid = Some t2" "idtb_ok t2" "idtb_max t2 = idtb_max ?tt" "idtb_view t2 = idtb_view ?tt"
        using tt(3) tid by (auto simp: fun_upd_idem_iff domIff)
      have "new_thread E ?A (Some p) tid entry a0 a1 a2 = Some (None, ?A)" using False by (simp add: new_thread_def)
      then show ?thesis using \<open>tid \<noteq> _\<close> tt(1) t2 same [OF t2(2-4)] r entry
        by (intro exI [of _ None] exI [of _ "set_proc p (r\<lparr>pr_thread_table := t2\<rparr>) K"])
          (simp add: proc_new_thread_def Let_def)
    next
      case True
      have fin: "finite (dom (k_threads K))" by (rule placedD(3) [OF clockedD(1) [OF c]])
      then obtain a where a: "ke_al E (dom (k_threads ?A)) = Some a"
        using al(2) oomI [of "ke_al E" "dom (k_threads K)"] by auto
      then have na: "k_threads K a = None" using alloc_okD [OF al(1)] by auto
      have pA: "k_procs ?A p = Some (r\<lparr>pr_thread_table := tt\<rparr>)" by simp
      from new_thread_eq [OF True pA a, of entry a0 a1 a2] obtain t where
        t: "new_thread E ?A (Some p) tid entry a0 a1 a2
            = Some (Some a, set_thread a t (?A\<lparr>k_rings := init_ring_element (k_rings ?A) a\<rparr>))"
          "th_state t = THREAD_STATE_DETATCHED" "th_wq t = None" "th_tid t = tid" "th_proc t = p" "length (th_wait_ctx t) = 6"
        by blast
      from idtb_set_ok [OF tt(2), of tid "Some a"] obtain t2 where t2: "idtb_set tt tid (Some a) = Some t2" "idtb_ok t2"
        "idtb_max t2 = idtb_max ?tt" "idtb_view t2 = (idtb_view ?tt)(tid \<mapsto> Some a)"
        using tt(3) tid by auto
      let ?r = "r\<lparr>pr_thread_table := t2, pr_main_thread := (if pr_main_thread r = None then Some a else pr_main_thread r)\<rparr>"
      let ?K = "set_proc p ?r (set_thread a t (?A\<lparr>k_rings := init_ring_element (k_rings ?A) a\<rparr>))"
      have run: "proc_new_thread E K (Some p) entry a0 a1 a2 = Some (Some a, ?K)"
        using r entry tt(1) \<open>tid \<noteq> _\<close> t(1) t2(1) by (simp add: proc_new_thread_def Let_def)
      have "placed (set_thread a t (K\<lparr>k_rings := init_ring_element (k_rings K) a\<rparr>)) W S"
        by (rule placed_new_thread [OF clockedD(1) [OF c] na room t(3,2)])
      then have "placed ?K W S" unfolding placed_def by simp
      then have "clocked ?K W S as ws rs" using clockedD(2,3) [OF c] by (simp add: clocked_def)
      then have core: "kcore ?K W S as ws rs"
        by (rule kcore_add [OF kinv_core [OF inv] r na, where t = t and r' = ?r])
          (use t t2 tid in \<open>simp_all add: domIff\<close>)
      have "kinv ?K W S as ws rs"
      proof (rule kinv_of_core [OF inv core])
        fix p' r' assume "k_procs ?K p' = Some r'"
        then show "\<exists>r. k_procs K p' = Some r \<and> pr_join_queue r' = pr_join_queue r \<and> W (pr_join_queue r) = W (pr_join_queue r)"
          using r by (auto split: if_splits)
      next
        fix p' i assume "exited ?K p' i"
        then show "exited K p' i" using t(2) na by (auto simp: exited_def split: if_splits)
      qed
      moreover have "k_threads ?K = (k_threads K)(a \<mapsto> t)" by simp
      ultimately show ?thesis using run na t(2,3,5)
        by (intro exI [of _ "Some a"] exI [of _ ?K]) (simp del: fun_upd_apply, blast)
    qed
  qed
qed

lemma kcore_schedule:
  assumes inv: "kcore K W S as ws rs" and t: "k_threads K a = Some t" "th_wq t = None" "th_state t = THREAD_STATE_DETATCHED"
  shows "\<exists>K' t'. thread_schedule K a (k_schedule K) = Some K' \<and> kcore K' W (S(k_schedule K \<mapsto> as @ [a])) (as @ [a]) ws rs
    \<and> k_threads K' = (k_threads K)(a \<mapsto> t') \<and> th_state t' = THREAD_STATE_SCHEDULED \<and> thread_key t' = thread_key t
    \<and> same_frame K K'"
proof -
  note c = clockedD [OF kcoreD(1) [OF inv]]
  note loc = placedD(8) [OF c(1) t(1)]
  have off: "\<not> on_ring S a" using on_ring_located [OF loc] t(3) by simp
  have "awithout a W = W" by (rule awithout_id [OF loc t(2)])
  moreover have "scheduled S (k_schedule K) a = S(k_schedule K \<mapsto> as @ [a])"
    using c(2) without_id [OF off] by (simp add: scheduled_def)
  ultimately obtain K' t' where K': "thread_schedule K a (k_schedule K) = Some K'"
    "placed K' W (S(k_schedule K \<mapsto> as @ [a]))" "k_threads K' = (k_threads K)(a \<mapsto> t')" "same_frame K K'"
    "th_state t' = THREAD_STATE_SCHEDULED" "th_tid t' = th_tid t" "th_proc t' = th_proc t" "th_wait_ctx t' = th_wait_ctx t"
    using thread_schedule_rep [OF c(1) t(1) c(2)] t(3) by auto
  have "clocked K' W (S(k_schedule K \<mapsto> as @ [a])) (as @ [a]) ws rs"
    using K'(2,4) c(3) by (simp add: clocked_def same_frame_def)
  moreover have key: "thread_key t' = thread_key t" using K' by (simp add: thread_key_def)
  moreover have "same_threads K K'" by (rule same_threads_upd [OF t(1) K'(3) key])
  ultimately have "kcore K' W (S(k_schedule K \<mapsto> as @ [a])) (as @ [a]) ws rs"
    by (rule_tac kcore_update [OF inv]) (use K'(4) kcoreD(5) [OF inv] in \<open>auto simp: same_frame_def\<close>)
  then show ?thesis using K' key by blast
qed

lemma ks_spawn_inv:
  assumes at: "kernel_at K ws rs" and al: "alloc_ok (ke_al E)" "\<not> oom (ke_al E)" and room: "card (dom (k_threads K)) + 1 < 2 ^ 31"
  shows "\<exists>K'. ks_spawn_local_thread E K u_tid entry arg = Some (answer K, K') \<and> keeps K ws rs K'"
  unfolding ks_spawn_local_thread_def Let_def
proof (rule with_current_inv [OF at], goal_cases)
  case (1 W S as c tc r)
  let ?p = "th_proc tc"
  show ?case
  proof (cases "entry = 0")
    case True
    then show ?thesis using 1(3) kinv_dual_ret [OF 1(1,2,4)] by simp
  next
    case False
    from proc_new_thread_rep [OF 1(1,3) False al room, of arg 0 0] obtain res K1 where
      K1: "proc_new_thread E K (Some ?p) entry arg 0 0 = Some (res, K1)" "kinv K1 W S (c # as) ws rs"
        "k_schedule K1 = k_schedule K" "k_curr_tick K1 = k_curr_tick K" "k_sleep_q K1 = k_sleep_q K"
      and res: "case res of None \<Rightarrow> k_threads K1 = k_threads K
       | Some a \<Rightarrow> k_threads K a = None \<and> (\<exists>t. k_threads K1 = (k_threads K)(a \<mapsto> t) \<and> th_state t = THREAD_STATE_DETATCHED
           \<and> th_wq t = None \<and> th_proc t = ?p)" by blast
    show ?thesis
    proof (cases res)
      case None
      then have c1: "k_threads K1 c = Some tc" using res 1(2) by simp
      let ?K = "set_thread c (tc\<lparr>th_ctx := (th_ctx tc)\<lparr>c_eax := err_word FOS_E_UNKNWON_ERROR\<rparr>\<rparr>) (K1\<lparr>k_mem := k_mem K1\<rparr>)"
      have "kinv ?K W S (c # as) ws rs" by (rule kinv_threads [OF K1(2) c1]) (simp_all add: thread_key_def)
      then have i: "kinv (?K\<lparr>k_mem := m\<rparr>) W S (c # as) ws rs" for m by (rule kinv_mem)
      have "undisturbed K (?K\<lparr>k_mem := m\<rparr>)" for m
        by (rule undisturbed_upd) (use K1(4,5) res None 1(2,4) in auto)
      then have "keeps K ws rs (to_user_opt E ?K pd u_tid x)" for pd x
        using to_user_opt_mem [of E ?K pd u_tid x] keepsI [OF i] by metis
      then show ?thesis using 1(3) K1(1) None False c1 by (simp add: set_eax_def upd_thread_def)
    next
      case (Some a)
      then obtain t where t: "k_threads K a = None" "k_threads K1 = (k_threads K)(a \<mapsto> t)" "th_state t = THREAD_STATE_DETATCHED"
        "th_wq t = None" "th_proc t = ?p" using res by auto
      have ac: "a \<noteq> c" using t(1) 1(2) by auto
      have t1: "k_threads K1 a = Some t" using t(2) by simp
      from kcore_schedule [OF kinv_core [OF K1(2)] t1 t(4,3)] obtain K2 t2 where
        K2: "thread_schedule K1 a (k_schedule K1) = Some K2"
          "kcore K2 W (S(k_schedule K1 \<mapsto> (c # as) @ [a])) ((c # as) @ [a]) ws rs"
          "k_threads K2 = (k_threads K1)(a \<mapsto> t2)" "th_state t2 = THREAD_STATE_SCHEDULED" "same_frame K1 K2"
        by blast
      have "kinv K2 W (S(k_schedule K1 \<mapsto> (c # as) @ [a])) ((c # as) @ [a]) ws rs"
      proof (rule kinv_of_core [OF K1(2) K2(2)])
        fix p i assume "exited K2 p i"
        then show "exited K1 p i" using K2(3,4) by (auto simp: exited_def split: if_splits)
      qed (use K2(5) in \<open>auto simp: same_frame_def\<close>)
      moreover have k2: "k_threads K2 c = Some tc" "k_threads K2 a = Some t2" using K2(3) t(2) ac 1(2) by simp_all
      ultimately have "\<exists>K'. dual_ret (to_user_opt E K2 pd u_tid x) c v FOS_E_SUCCESS = Some (Returns FOS_E_SUCCESS, K')
          \<and> keeps K2 ws rs K'" for pd x v
        using kinv_user_ret(1) [OF _ _ 1(4)] by blast
      moreover have "k_threads K2 = (k_threads K)(a \<mapsto> t2)" using K2(3) t(2) by simp
      then have "undisturbed K K2"
        by (intro undisturbed_upd [where a = a]) (use K2(5) K1(4,5) t(1) in \<open>simp_all add: same_frame_def\<close>)
      ultimately have "\<exists>K'. dual_ret (to_user_opt E K2 pd u_tid x) c v FOS_E_SUCCESS = Some (Returns FOS_E_SUCCESS, K')
          \<and> keeps K ws rs K'" for pd x v
        using keeps_trans by blast
      then show ?thesis using 1(3) K1(1) Some False K2(1) k2 by simp
    qed
  qed
qed

section \<open>Joining\<close>

lemma find_joinable_rep:
  assumes "tables_ok K p r"
  shows "\<exists>i j. find_joinable n m K (pr_thread_table r) jv = Some (i, j)
    \<and> (i < m + n \<and> (\<exists>a t. j = Some a \<and> k_threads K a = Some t \<and> th_proc t = p \<and> th_tid t = i
          \<and> th_state t = THREAD_STATE_EXITED \<and> bit jv i)
       \<or> i = m + n \<and> (\<forall>k a t. m \<le> k \<longrightarrow> k < m + n \<longrightarrow> idtb_view (pr_thread_table r) k = Some (Some a) \<longrightarrow>
          k_threads K a = Some t \<longrightarrow> th_state t = THREAD_STATE_EXITED \<longrightarrow> \<not> bit jv k))"
proof (induction n arbitrary: m)
  case (Suc n)
  have ok: "idtb_ok (pr_thread_table r)" using assms by (simp add: tables_ok_def)
  note get = idtb_get_ok [OF ok, of m]
  from Suc [of "m + 1"] obtain i j where ij: "find_joinable n (m + 1) K (pr_thread_table r) jv = Some (i, j)"
    "i < m + 1 + n \<and> (\<exists>a t. j = Some a \<and> k_threads K a = Some t \<and> th_proc t = p \<and> th_tid t = i
          \<and> th_state t = THREAD_STATE_EXITED \<and> bit jv i)
     \<or> i = m + 1 + n \<and> (\<forall>k a t. m + 1 \<le> k \<longrightarrow> k < m + 1 + n \<longrightarrow> idtb_view (pr_thread_table r) k = Some (Some a) \<longrightarrow>
          k_threads K a = Some t \<longrightarrow> th_state t = THREAD_STATE_EXITED \<longrightarrow> \<not> bit jv k)" by blast
  have step: ?case
    if eq: "find_joinable (Suc n) m K (pr_thread_table r) jv = find_joinable n (m + 1) K (pr_thread_table r) jv"
      and no: "\<And>a t. idtb_view (pr_thread_table r) m = Some (Some a) \<Longrightarrow> k_threads K a = Some t \<Longrightarrow>
        th_state t = THREAD_STATE_EXITED \<Longrightarrow> \<not> bit jv m"
    using ij(2)
  proof
    assume "i < m + 1 + n \<and> (\<exists>a t. j = Some a \<and> k_threads K a = Some t \<and> th_proc t = p \<and> th_tid t = i
      \<and> th_state t = THREAD_STATE_EXITED \<and> bit jv i)"
    then show ?case unfolding eq ij(1) by simp
  next
    assume i: "i = m + 1 + n \<and> (\<forall>k a t. m + 1 \<le> k \<longrightarrow> k < m + 1 + n \<longrightarrow> idtb_view (pr_thread_table r) k = Some (Some a) \<longrightarrow>
      k_threads K a = Some t \<longrightarrow> th_state t = THREAD_STATE_EXITED \<longrightarrow> \<not> bit jv k)"
    have "\<not> bit jv k" if k: "m \<le> k" "k < m + Suc n" "idtb_view (pr_thread_table r) k = Some (Some a)"
      "k_threads K a = Some t" "th_state t = THREAD_STATE_EXITED" for k a t
    proof (cases "k = m")
      case True
      then show ?thesis using k no by blast
    next
      case False
      then have "m + 1 \<le> k" "k < m + 1 + n" using k by simp_all
      then show ?thesis using i k(3-5) by blast
    qed
    then show ?case unfolding eq ij(1) using i by auto
  qed
  show ?case
  proof (cases "\<exists>a. idtb_view (pr_thread_table r) m = Some (Some a)")
    case True
    then obtain a where a: "idtb_view (pr_thread_table r) m = Some (Some a)" by blast
    then obtain t where t: "k_threads K a = Some t" "th_proc t = p" "th_tid t = m"
      using assms by (auto simp: tables_ok_def)
    show ?thesis
    proof (cases "bit jv m \<and> th_state t = THREAD_STATE_EXITED")
      case True
      then show ?thesis using get a t by (intro exI [of _ m] exI [of _ "Some a"]) simp
    next
      case False
      then show ?thesis using get a t by (intro step) (auto simp: fun_upd_def)
    qed
  next
    case False
    then have "idtb_get (pr_thread_table r) m = Some None" using get by (auto split: option.splits)
    then show ?thesis using False by (intro step) auto
  qed
qed simp

lemma find_joinable_32:
  assumes inv: "kinv K W S as ws rs" and r: "k_procs K p = Some r"
  shows "(\<exists>i a t. find_joinable 32 0 K (pr_thread_table r) jv = Some (i, Some a) \<and> i < 32 \<and> k_threads K a = Some t
      \<and> th_proc t = p \<and> th_tid t = i \<and> th_state t = THREAD_STATE_EXITED \<and> bit jv i)
    \<or> (\<exists>j. find_joinable 32 0 K (pr_thread_table r) jv = Some (32, j)) \<and> (\<forall>i. exited K p i \<longrightarrow> \<not> bit jv i)"
proof -
  note tab = kinvD(7) [OF inv r]
  from find_joinable_rep [OF tab, of 32 0 jv] obtain i j where
    ij: "find_joinable 32 0 K (pr_thread_table r) jv = Some (i, j)"
    "i < 32 \<and> (\<exists>a t. j = Some a \<and> k_threads K a = Some t \<and> th_proc t = p \<and> th_tid t = i
          \<and> th_state t = THREAD_STATE_EXITED \<and> bit jv i)
     \<or> i = 32 \<and> (\<forall>k a t. k < 32 \<longrightarrow> idtb_view (pr_thread_table r) k = Some (Some a) \<longrightarrow>
          k_threads K a = Some t \<longrightarrow> th_state t = THREAD_STATE_EXITED \<longrightarrow> \<not> bit jv k)" by auto
  show ?thesis
    using ij(2)
  proof
    assume i: "i = 32 \<and> (\<forall>k a t. k < 32 \<longrightarrow> idtb_view (pr_thread_table r) k = Some (Some a) \<longrightarrow>
      k_threads K a = Some t \<longrightarrow> th_state t = THREAD_STATE_EXITED \<longrightarrow> \<not> bit jv k)"
    have "\<not> bit jv k" if ex: "exited K p k" for k
    proof -
      obtain a t where t: "k_threads K a = Some t" "th_proc t = p" "th_tid t = k" "th_state t = THREAD_STATE_EXITED"
        using ex unfolding exited_def by blast
      have v: "idtb_view (pr_thread_table r) k = Some (Some a)"
        using kinvD(4) [OF inv t(1)] t r by (auto simp: thread_ok_def)
      then have "k \<in> dom (idtb_view (pr_thread_table r))" by blast
      then have "k < 32" using idtb_ok_bound [of "pr_thread_table r" k] tab unfolding tables_ok_def by simp
      then show ?thesis using i v t by blast
    qed
    then show ?thesis using ij(1) i by auto
  qed (use ij(1) in auto)
qed

lemma kcore_delete_keeps:
  assumes inv: "kinv K W S as ws rs" and core: "kcore K' W S as ws rs" and kt: "k_threads K' = (k_threads K)(a := None)"
    and pr: "\<forall>p. map_option (\<lambda>r. (pr_join_queue r, pr_pd r)) (k_procs K' p) = map_option (\<lambda>r. (pr_join_queue r, pr_pd r)) (k_procs K p)"
  shows "kinv K' W S as ws rs"
proof (rule kinv_of_core [OF inv core])
  fix p r' assume "k_procs K' p = Some r'"
  then have "map_option (\<lambda>r. (pr_join_queue r, pr_pd r)) (k_procs K p) = Some (pr_join_queue r', pr_pd r')"
    by (simp flip: spec [OF pr])
  then show "\<exists>r. k_procs K p = Some r \<and> pr_join_queue r' = pr_join_queue r \<and> W (pr_join_queue r) = W (pr_join_queue r)" by auto
qed (use kt in \<open>auto simp: exited_def split: if_splits\<close>)

lemma ks_join_blocks:
  assumes pl: "placed K W S" and sch: "S (k_schedule K) = Some (a # as)" and t: "k_threads K a = Some t"
    and p: "k_procs K (th_proc t) = Some r" and W: "W (pr_join_queue r) = Some (AWQ_vector ws [])"
    and al: "alloc_ok (ke_al E)" "\<not> oom (ke_al E)" and jv: "jv \<noteq> 0" "jv \<noteq> push_bit (th_tid t) 1"
    and none: "find_joinable 32 0 K (pr_thread_table r) jv = Some (32, j)"
  shows "\<exists>K'. ks_join_local_thread E K jv u_ret = Some (Returns FOS_E_SUCCESS, K')
    \<and> placed K' (W(pr_join_queue r \<mapsto> AWQ_vector (ws @ [\<lparr>vw_item = a, vw_mask = jv\<rparr>]) [])) (without a S)
    \<and> same_frame K K' \<and> k_threads K' = (k_threads K)(a \<mapsto> t\<lparr>th_wq := Some (pr_join_queue r),
        th_wait_ctx := (th_wait_ctx t)[0 := u_ret], th_state := THREAD_STATE_WAITING\<rparr>)"
proof -
  let ?q = "pr_join_queue r" and ?ws = "ws @ [\<lparr>vw_item = a, vw_mask = jv\<rparr>]"
  obtain t' where "k_threads K a = Some t'" "th_state t' = THREAD_STATE_SCHEDULED" "th_wq t' = None"
    by (rule placed_on_schedule [OF pl sch, of a]) simp
  then have st: "th_state t = THREAD_STATE_SCHEDULED" "th_wq t = None" using t by simp_all
  from placed_queue_vector [OF pl W] obtain v where v: "k_wqs K ?q = Some (WQ_vector v)" "vwq_rep ll_inv ll_inv v ws []" .
  from ll_vector.vwq_enqueue_rep [OF v(2) al(1) jv(1), of a] al(2) obtain v' where
    v': "vwq_enqueue LL_IMPL (ke_al E) v a jv = Some (FOS_E_SUCCESS, v')" "vwq_rep ll_inv ll_inv v' ?ws []" by blast
  have na: "a \<notin> set (map vw_item ws)" using locatedD(4) [OF placedD(8) [OF pl t] W] st by simp
  have d: "distinct (awq_items (AWQ_vector ?ws []))" using placedD(7) [OF pl W] na by simp
  have s: "set (awq_items (AWQ_vector ?ws [])) = insert a (set (awq_items (AWQ_vector ws [])))" by simp
  have rep: "wq_rep (WQ_vector v') (AWQ_vector ?ws [])" using v' by simp
  let ?f = "\<lambda>t. t\<lparr>th_wq := Some ?q, th_wait_ctx := (th_wait_ctx t)[0 := u_ret], th_state := THREAD_STATE_WAITING\<rparr>"
  from placed_wait [OF pl t st(1) W rep d s, of ?f] obtain K1 K2 where K:
    "thread_detach (set_wq ?q (WQ_vector v') K) a = Some K1" "upd_thread K1 a ?f = Some K2"
    "placed K2 (W(?q \<mapsto> AWQ_vector ?ws [])) (without a S)" "same_frame K K2"
    "k_threads K2 = (k_threads K)(a \<mapsto> ?f (t\<lparr>th_state := THREAD_STATE_DETATCHED\<rparr>))" by auto
  have "ks_join_local_thread E K jv u_ret = Some (Returns FOS_E_SUCCESS, K2)"
    using placed_head [OF pl sch] t p jv v(1) v'(1) K(1,2) none
    by (simp add: ks_join_local_thread_def with_current_def vector_queue_def Let_def)
  then show ?thesis using K(3,4,5) by (intro exI [of _ K2]) simp
qed

lemma kinv_join_queue:
  assumes inv: "kinv K W S as ws rs" and r: "k_procs K p = Some r"
    and c: "clocked K' (W(pr_join_queue r \<mapsto> AWQ_vector vs [])) S' as' ws' rs'" and th: "same_threads K K'"
    and fr: "k_proc_table K' = k_proc_table K" "k_procs K' = k_procs K"
    and vs: "\<forall>w\<in>set vs. \<forall>i. exited K p i \<longrightarrow> \<not> bit (vw_mask w) i"
    and ex: "\<And>a t t'. k_threads K a = Some t \<Longrightarrow> k_threads K' a = Some t' \<Longrightarrow>
      th_state t' = THREAD_STATE_EXITED \<Longrightarrow> th_state t = THREAD_STATE_EXITED"
  shows "kinv K' (W(pr_join_queue r \<mapsto> AWQ_vector vs [])) S' as' ws' rs'"
proof (rule kinv_update [OF inv c th fr(1)])
  let ?W = "W(pr_join_queue r \<mapsto> AWQ_vector vs [])"
  fix p1 r1 r1' assume r1: "k_procs K p1 = Some r1" "k_procs K' p1 = Some r1'"
  then have eq: "r1' = r1" using fr(2) by simp
  have e: "exited K q i" if "exited K' q i" for q i by (rule exited_same [OF th ex that])
  have "pr_signal_queue r1 \<noteq> pr_join_queue r" by (rule queues_okD(1) [OF kinvD(2) [OF inv] r1(1) r])
  then have "sig_ok ?W r1" using kinvD(5) [OF inv r1(1)] by (simp add: sig_ok_def)
  moreover have "join_ok K' ?W p1 r1"
  proof (cases "p1 = p")
    case True
    then show ?thesis using r r1(1) vs e unfolding join_ok_def by auto
  next
    case False
    then have "pr_join_queue r1 \<noteq> pr_join_queue r" using queues_okD(3) [OF kinvD(2) [OF inv] r1(1) r] by blast
    then show ?thesis using kinvD(6) [OF inv r1(1)] e unfolding join_ok_def by auto
  qed
  ultimately show "same_proc r1 r1' \<and> sig_ok ?W r1' \<and> join_ok K' ?W p1 r1'" unfolding eq by simp
qed (use fr in simp)

lemma ks_join_inv:
  assumes at: "kernel_at K ws rs" and al: "alloc_ok (ke_al E)" "\<not> oom (ke_al E)"
  shows "\<exists>K'. ks_join_local_thread E K jv u_ret = Some (answer K, K') \<and> keeps K ws rs K'"
proof (rule current_inv [OF at ks_join_local_thread_def])
  fix W S a bs t r
  assume i': "kinv K W S (a # bs) ws rs"
    and c1: "k_threads K a = Some t" "th_state t = THREAD_STATE_SCHEDULED" "th_wq t = None" "k_procs K (th_proc t) = Some r"
  note t = c1(1,2,4) and tw = c1(3)
  note c = kinvD(1) [OF i'] and head = kinv_head [OF i']
  show "\<exists>K'. ks_join_local_thread E K jv u_ret = Some (Returns FOS_E_SUCCESS, K') \<and> keeps K ws rs K'"
    proof (cases "jv = 0 \<or> jv = push_bit (th_tid t) 1")
      case True
      then show ?thesis using head t kinv_dual_ret [OF i' t(1) tw, of "err_word FOS_E_BAD_ARGS" FOS_E_SUCCESS]
        by (auto simp: ks_join_local_thread_def with_current_def)
    next
      case False
      then have jv: "jv \<noteq> 0" "jv \<noteq> push_bit (th_tid t) 1" by simp_all
      from find_joinable_32 [OF i' t(3), of jv] show ?thesis
      proof
        assume "\<exists>i b u. find_joinable 32 0 K (pr_thread_table r) jv = Some (i, Some b) \<and> i < 32 \<and> k_threads K b = Some u
          \<and> th_proc u = th_proc t \<and> th_tid u = i \<and> th_state u = THREAD_STATE_EXITED \<and> bit jv i"
        then obtain b u where b: "find_joinable 32 0 K (pr_thread_table r) jv = Some (th_tid u, Some b)" "th_tid u < 32"
          "k_threads K b = Some u" "th_proc u = th_proc t" "th_state u = THREAD_STATE_EXITED" by blast
        have wq: "th_wq u = None" using locatedD(1) [OF placedD(8) [OF clockedD(1) [OF c] b(3)]] b(5) by simp
        have "th_state u \<noteq> THREAD_STATE_WAITING" "th_state u \<noteq> THREAD_STATE_SCHEDULED" using b(5) by simp_all
        from proc_delete_thread_rep [OF kinv_core [OF i'] b(3) wq this, of E True] obtain K1 where
          K1: "proc_delete_thread E K (Some (th_proc t)) (Some b) True = Some K1" "kcore K1 W S (a # bs) ws rs"
            "k_threads K1 = (k_threads K)(b := None)" "k_curr_tick K1 = k_curr_tick K" "k_sleep_q K1 = k_sleep_q K"
            "\<forall>p. map_option (\<lambda>r. (pr_join_queue r, pr_pd r)) (k_procs K1 p)
               = map_option (\<lambda>r. (pr_join_queue r, pr_pd r)) (k_procs K p)" unfolding b(4) by blast
        have "a \<noteq> b" using t b by auto
        then have k1: "k_threads K1 a = Some t" using K1(3) t(1) by simp
        have "undisturbed K K1" by (rule undisturbed_upd [OF K1(4,5,3)]) (use b(3) wq in simp)
        then have "\<exists>K'. dual_ret (to_user_opt E K1 pd u_ret x) a v FOS_E_SUCCESS = Some (Returns FOS_E_SUCCESS, K')
            \<and> keeps K ws rs K'" for pd x v
          using kinv_user_ret(1) [OF kcore_delete_keeps [OF i' K1(2,3,6)] k1 tw] keeps_trans by blast
        then show ?thesis
          using head t jv b K1(1) by (simp add: ks_join_local_thread_def with_current_def Let_def)
      next
        assume "(\<exists>j. find_joinable 32 0 K (pr_thread_table r) jv = Some (32, j))
          \<and> (\<forall>i. exited K (th_proc t) i \<longrightarrow> \<not> bit jv i)"
        then obtain j where j: "find_joinable 32 0 K (pr_thread_table r) jv = Some (32, j)"
          "\<forall>i. exited K (th_proc t) i \<longrightarrow> \<not> bit jv i" by blast
        let ?q = "pr_join_queue r"
        obtain vs where vs: "W ?q = Some (AWQ_vector vs [])" "\<forall>w\<in>set vs. \<forall>i. exited K (th_proc t) i \<longrightarrow> \<not> bit (vw_mask w) i"
          using kinvD(6) [OF i' t(3)] by (auto simp: join_ok_def)
        let ?vs = "vs @ [\<lparr>vw_item = a, vw_mask = jv\<rparr>]"
        obtain K' where K': "ks_join_local_thread E K jv u_ret = Some (Returns FOS_E_SUCCESS, K')"
          "placed K' (W(?q \<mapsto> AWQ_vector ?vs [])) (without a S)" "same_frame K K'"
          "k_threads K' = (k_threads K)(a \<mapsto> t\<lparr>th_wq := Some ?q, th_wait_ctx := (th_wait_ctx t)[0 := u_ret],
            th_state := THREAD_STATE_WAITING\<rparr>)"
          using ks_join_blocks [OF clockedD(1,2) [OF c] t(1,3) vs(1) al jv j(1)] by blast
        have fr: "k_schedule K' = k_schedule K" "k_sleep_q K' = k_sleep_q K" "k_curr_tick K' = k_curr_tick K"
          "k_proc_table K' = k_proc_table K" "k_procs K' = k_procs K" using K'(3) by (simp_all add: same_frame_def)
        have "removeAll a (a # bs) = bs" using placed_ring_distinct [OF clockedD(1,2) [OF c]] by simp
        then have "without a S (k_schedule K) = Some bs" using clockedD(2) [OF c] by (simp add: without_def)
        from clocked_vector [OF c vs(1) fr(1-3) K'(2) this]
        have c': "clocked K' (W(?q \<mapsto> AWQ_vector ?vs [])) (without a S) bs ws rs" .
        note st = same_threads_wait [OF t(1,2) K'(4)]
        have "kinv K' (W(?q \<mapsto> AWQ_vector ?vs [])) (without a S) bs ws rs"
          by (rule kinv_join_queue [OF i' t(3) c' st(1) fr(4,5)]) (use vs(2) j(2) st(2) in \<open>auto simp: thread_key_def\<close>)
        moreover have "undisturbed K K'" by (rule undisturbed_upd [OF fr(3,2) K'(4)]) (use t tw in simp)
        ultimately show ?thesis using K'(1) keepsI by blast
      qed
    qed
qed

section \<open>Exiting\<close>

lemma exit_detach:
  assumes inv: "kinv K W S (a # as) ws rs" and t: "k_threads K a = Some t" "th_state t = THREAD_STATE_SCHEDULED"
    and f: "f = (\<lambda>t. t\<lparr>th_exit_ret_val := v, th_state := THREAD_STATE_EXITED\<rparr>)"
  shows "\<exists>K1 K2. thread_detach K a = Some K1 \<and> upd_thread K1 a f = Some K2 \<and> kcore K2 W (without a S) as ws rs
    \<and> same_frame K K2 \<and> k_wqs K2 = k_wqs K
    \<and> k_threads K2 = (k_threads K)(a \<mapsto> t\<lparr>th_exit_ret_val := v, th_state := THREAD_STATE_EXITED\<rparr>)"
proof -
  note c = clockedD [OF kinvD(1) [OF inv]]
  have wq: "th_wq t = None" using locatedD(1) [OF placedD(8) [OF c(1) t(1)]] t(2) by simp
  obtain e where e: "relems (k_rings K) a = Some e" by (rule placed_elem [OF c(1) t(1)])
  obtain rg where rg: "ring_element_detach (k_rings K) a = Some rg" "ring_rep rg (without a S)"
    "dom (relems rg) = dom (relems (k_rings K))" using ring_detach [OF placedD(1) [OF c(1)] e] by blast
  let ?t = "t\<lparr>th_exit_ret_val := v, th_state := THREAD_STATE_EXITED\<rparr>"
  let ?A = "set_thread a (t\<lparr>th_state := THREAD_STATE_DETATCHED\<rparr>) (K\<lparr>k_rings := rg\<rparr>)"
  let ?B = "set_thread a ?t (K\<lparr>k_rings := rg\<rparr>)"
  have run: "thread_detach K a = Some ?A" "upd_thread ?A a f = Some ?B"
    using t rg(1) by (simp_all add: thread_detach_def upd_thread_def f)
  have "placed ?B W (without a S)" by (rule placed_unring [OF c(1) t(1) wq rg(2,3)]) (simp_all add: wq)
  moreover have "removeAll a (a # as) = as" using placed_ring_distinct [OF c(1,2)] by simp
  then have "without a S (k_schedule K) = Some as" using c(2) by (simp add: without_def)
  ultimately have "clocked ?B W (without a S) as ws rs" using c(3) by (simp add: clocked_def)
  moreover have "same_threads K ?B" by (rule same_threads_upd [OF t(1), of _ ?t]) (simp_all add: thread_key_def)
  ultimately have "kcore ?B W (without a S) as ws rs"
    by (rule kcore_update [OF kinv_core [OF inv]]) (use kinvD(5) [OF inv] in auto)
  then show ?thesis using run by (intro exI [of _ ?A] exI [of _ ?B]) (simp add: same_frame_def)
qed

lemma exited_after_exit:
  assumes "exited K' p i" and "k_threads K' = (k_threads K)(a \<mapsto> t')" and "th_proc t' = q" and "th_tid t' = j"
  shows "exited K p i \<or> p = q \<and> i = j"
  using assms by (auto simp: exited_def split: if_splits)

lemma ks_exit_thread_inv:
  assumes at: "kernel_at K ws rs" and al: "alloc_ok (ke_al E)" "\<not> oom (ke_al E)"
    and worker: "\<And>a t r. ks_head K = Some (Some a) \<Longrightarrow> k_threads K a = Some t \<Longrightarrow> k_procs K (th_proc t) = Some r \<Longrightarrow>
      pr_main_thread r \<noteq> Some a"
  shows "\<exists>K'. ks_exit_thread E K v = Some (answer K, K') \<and> keeps K ws rs K'"
proof (rule current_inv [OF at ks_exit_thread_def])
  fix W S a bs t r
  assume i': "kinv K W S (a # bs) ws rs"
    and c1: "k_threads K a = Some t" "th_state t = THREAD_STATE_SCHEDULED" "th_wq t = None" "k_procs K (th_proc t) = Some r"
  note t = c1(1,2,4) and wqa = c1(3)
  note c = kinvD(1) [OF i'] and head = kinv_head [OF i']
  show "\<exists>K'. ks_exit_thread E K v = Some (Returns FOS_E_SUCCESS, K') \<and> keeps K ws rs K'"
  proof -
    let ?p = "th_proc t" and ?q = "pr_join_queue r"
    let ?t = "t\<lparr>th_exit_ret_val := v, th_state := THREAD_STATE_EXITED\<rparr>"
    obtain K1 K2 where K2: "thread_detach K a = Some K1"
      "upd_thread K1 a (\<lambda>t. t\<lparr>th_exit_ret_val := v, th_state := THREAD_STATE_EXITED\<rparr>) = Some K2"
      "kcore K2 W (without a S) bs ws rs" "same_frame K K2" "k_wqs K2 = k_wqs K" "k_threads K2 = (k_threads K)(a \<mapsto> ?t)"
      using exit_detach [OF i' t(1,2) refl] by blast
    have fr2: "k_procs K2 = k_procs K" "k_schedule K2 = k_schedule K" "k_sleep_q K2 = k_sleep_q K"
      "k_curr_tick K2 = k_curr_tick K" "k_proc_table K2 = k_proc_table K" using K2(4) by (simp_all add: same_frame_def)
    have main: "pr_main_thread r \<noteq> Some a" using worker head t by simp
    have tid: "th_tid t < 32"
    proof -
      have "th_tid t \<in> dom (idtb_view (pr_thread_table r))" using kinvD(4) [OF i' t(1)] t(3) by (auto simp: thread_ok_def)
      then show ?thesis using idtb_ok_bound kinvD(7) [OF i' t(3)] unfolding tables_ok_def by fastforce
    qed
    obtain vs where vs: "W ?q = Some (AWQ_vector vs [])" "\<forall>w\<in>set vs. \<forall>i. exited K ?p i \<longrightarrow> \<not> bit (vw_mask w) i"
      using kinvD(6) [OF i' t(3)] by (auto simp: join_ok_def)
    note c2 = kcoreD(1) [OF K2(3)]
    note pl2 = clockedD(1) [OF c2]
    from placed_queue_vector [OF pl2 vs(1)] obtain u where u: "k_wqs K2 ?q = Some (WQ_vector u)" "vwq_rep ll_inv ll_inv u vs []" .
    from notify_pop [OF u(2) al(1) tid] al(2) obtain u1 where n:
      "vwq_notify LL_IMPL LL_IMPL (ke_al E) u (th_tid t) VWQ_NOTIFY_FIRST = Some (FOS_E_SUCCESS, u1)"
      "case first_waiter (th_tid t) vs of
         None \<Rightarrow> vwq_pop LL_IMPL u1 = Some (FOS_E_EMPTY, None, VWQ_NULL_READY_ID, u1) \<and> vwq_rep ll_inv ll_inv u1 vs []
       | Some x \<Rightarrow> \<exists>u2. vwq_pop LL_IMPL u1 = Some (FOS_E_SUCCESS, Some (vw_item x), th_tid t, u2)
           \<and> vwq_rep ll_inv ll_inv u2 (waiters_after (th_tid t) vs) []" by blast
    show ?thesis
    proof (cases "first_waiter (th_tid t) vs")
      case None
      let ?K = "set_wq ?q (WQ_vector u1) K2"
      have Wq: "W(?q \<mapsto> AWQ_vector vs []) = W" using vs(1) by (simp add: fun_upd_idem)
      have "placed ?K (W(?q \<mapsto> AWQ_vector vs [])) (without a S)"
        by (rule placed_set_wq [OF pl2 vs(1)]) (use n(2) None placedD(7) [OF pl2 vs(1)] in auto)
      then have "clocked ?K W (without a S) bs ws rs" using clockedD(2,3) [OF c2] unfolding Wq by (simp add: clocked_def)
      then have "kcore ?K W (without a S) bs ws rs"
        by (rule kcore_update [OF K2(3)]) (use kcoreD(5) [OF K2(3)] in \<open>auto simp: same_threads_def\<close>)
      moreover have "join_ok ?K W p' r'" if r': "k_procs ?K p' = Some r'" for p' r'
      proof -
        have r1: "k_procs K p' = Some r'" using r' fr2 by simp
        obtain ys where ys: "W (pr_join_queue r') = Some (AWQ_vector ys [])"
          "\<forall>w\<in>set ys. \<forall>i. exited K p' i \<longrightarrow> \<not> bit (vw_mask w) i" using kinvD(6) [OF i' r1] by (auto simp: join_ok_def)
        have "\<not> bit (vw_mask w) i" if "w \<in> set ys" "exited ?K p' i" for w i
        proof -
          have "exited K p' i \<or> p' = ?p \<and> i = th_tid t"
            by (rule exited_after_exit [OF that(2), of _ a ?t]) (simp_all add: K2(6))
          then show ?thesis
          proof
            assume "p' = ?p \<and> i = th_tid t"
            then have "ys = vs" "i = th_tid t" using ys(1) vs(1) r1 t(3) by simp_all
            then show ?thesis using first_waiter_None [OF None] that(1) by (auto simp: filter_empty_conv)
          qed (use ys(2) that(1) in blast)
        qed
        then show ?thesis using ys(1) unfolding join_ok_def by blast
      qed
      ultimately have "kinv ?K W (without a S) bs ws rs" unfolding kinv_def by blast
      moreover have "undisturbed K ?K"
        by (rule undisturbed_upd [where a = a]) (use fr2 K2(6) t(1) wqa in simp_all)
      ultimately have "keeps K ws rs ?K" by (rule keepsI)
      moreover have "ks_exit_thread E K v = Some (Returns FOS_E_SUCCESS, ?K)"
        using head t main K2(1,2) u(1) n None tid
        by (simp add: ks_exit_thread_def with_current_def vector_queue_def Let_def)
      ultimately show ?thesis by blast
    next
      case (Some x)
      then obtain u2 where u2: "vwq_pop LL_IMPL u1 = Some (FOS_E_SUCCESS, Some (vw_item x), th_tid t, u2)"
        "vwq_rep ll_inv ll_inv u2 (waiters_after (th_tid t) vs) []" using n(2) by auto
      let ?j = "vw_item x" and ?vs = "waiters_after (th_tid t) vs"
      obtain us us' where sp: "vs = us @ x # us'" "?vs = us @ us'" by (rule first_waiter_Some [OF Some])
      have rem: "awq_remove ?j (AWQ_vector vs []) = AWQ_vector ?vs []"
        by (rule awq_remove_first [OF _ Some]) (use placedD(7) [OF pl2 vs(1)] in simp)
      from placed_item [OF pl2 vs(1), of ?j] sp obtain jt where
        jt: "k_threads K2 ?j = Some jt" "th_wq jt = Some ?q" "th_state jt = THREAD_STATE_WAITING" by auto
      have ja: "?j \<noteq> a" using jt K2(6) by auto
      have len: "length (th_wait_ctx jt) = 6" using kcoreD(4) [OF K2(3) jt(1)] by (auto simp: thread_ok_def)
      let ?jt = "jt\<lparr>th_wq := None, th_wait_ctx := (th_wait_ctx jt)[0 := 0], th_state := THREAD_STATE_DETATCHED\<rparr>"
      let ?jt1 = "?jt\<lparr>th_ctx := (th_ctx ?jt)\<lparr>c_eax := 0\<rparr>\<rparr>"
      let ?C = "set_thread ?j ?jt (set_wq ?q (WQ_vector u2) (set_wq ?q (WQ_vector u1) K2))"
      obtain m where m: "to_user_opt E ?C (pr_pd r) (th_wait_ctx jt ! 0) [of_nat (th_tid t), v] = ?C\<lparr>k_mem := m\<rparr>"
        using to_user_opt_mem [of E ?C "pr_pd r" "th_wait_ctx jt ! 0" "[of_nat (th_tid t), v]"] by metis
      have eax: "set_eax (?C\<lparr>k_mem := m\<rparr>) ?j 0 = Some (set_thread ?j ?jt1 (set_wq ?q (WQ_vector u2) (K2\<lparr>k_mem := m\<rparr>)))"
        by (simp add: set_eax_def upd_thread_def)
      have pl3: "placed (K2\<lparr>k_mem := m\<rparr>) W (without a S)" using pl2 by simp
      have "wq_rep (WQ_vector u2) (awq_remove ?j (AWQ_vector vs []))" unfolding rem using u2(2) by simp
      from placed_wake [OF pl3 _ jt(2) vs(1) this, of "k_schedule K" bs ?jt1] jt(1) clockedD(2) [OF c2] fr2
      obtain K4 t4 where K4: "thread_schedule (set_thread ?j ?jt1 (set_wq ?q (WQ_vector u2) (K2\<lparr>k_mem := m\<rparr>))) ?j (k_schedule K) = Some K4"
        "placed K4 (W(?q \<mapsto> AWQ_vector ?vs [])) ((without a S)(k_schedule K \<mapsto> bs @ [?j]))"
        "k_threads K4 = (k_threads K2)(?j \<mapsto> t4)" "same_frame (K2\<lparr>k_mem := m\<rparr>) K4" "th_state t4 = THREAD_STATE_SCHEDULED"
        "th_tid t4 = th_tid jt" "th_proc t4 = th_proc jt" "length (th_wait_ctx t4) = length (th_wait_ctx jt)"
        unfolding rem by auto
      have fr4: "k_procs K4 = k_procs K" "k_schedule K4 = k_schedule K2" "k_sleep_q K4 = k_sleep_q K2"
        "k_curr_tick K4 = k_curr_tick K2" "k_proc_table K4 = k_proc_table K2" using K4(4) fr2 by (simp_all add: same_frame_def)
      let ?S = "(without a S)(k_schedule K \<mapsto> bs @ [?j])" and ?W = "W(?q \<mapsto> AWQ_vector ?vs [])"
      have c4: "clocked K4 ?W ?S (bs @ [?j]) ws rs"
        by (rule clocked_vector [OF c2 vs(1) fr4(2-4) K4(2)]) (simp add: fr2)
      have "same_threads K2 K4" by (rule same_threads_upd [OF jt(1) K4(3)]) (use K4 in \<open>simp add: thread_key_def\<close>)
      then have core4: "kcore K4 ?W ?S (bs @ [?j]) ws rs"
      proof (rule kcore_update [OF K2(3) c4])
        fix p1 r1 r1' assume r1: "k_procs K2 p1 = Some r1" "k_procs K4 p1 = Some r1'"
        have k1: "k_procs K p1 = Some r1" using r1 fr2 by simp
        have "pr_signal_queue r1 \<noteq> ?q" by (rule queues_okD(1) [OF kinvD(2) [OF i'] k1 t(3)])
        then have "sig_ok ?W r1" using kcoreD(5) [OF K2(3) r1(1)] by (simp add: sig_ok_def)
        then show "same_proc r1 r1' \<and> sig_ok ?W r1'" using r1 fr2 fr4 by simp
      qed (use fr4 fr2 in simp_all)
      have a4: "k_threads K4 a = Some ?t" using K4(3) K2(6) ja by simp
      have "th_wq ?t = None" "th_state ?t \<noteq> THREAD_STATE_WAITING" "th_state ?t \<noteq> THREAD_STATE_SCHEDULED" using wqa by simp_all
      from proc_delete_thread_rep [OF core4 a4 this, of E True] obtain K5 where K5:
        "proc_delete_thread E K4 (Some ?p) (Some a) True = Some K5" "kcore K5 ?W ?S (bs @ [?j]) ws rs"
        "k_threads K5 = (k_threads K4)(a := None)" "k_curr_tick K5 = k_curr_tick K4" "k_sleep_q K5 = k_sleep_q K4"
        "\<forall>p. map_option (\<lambda>r. (pr_join_queue r, pr_pd r)) (k_procs K5 p) = map_option (\<lambda>r. (pr_join_queue r, pr_pd r)) (k_procs K4 p)"
        by auto
      have "join_ok K5 ?W p' r'" if r': "k_procs K5 p' = Some r'" for p' r'
      proof -
        have "map_option (\<lambda>r. (pr_join_queue r, pr_pd r)) (k_procs K p') = Some (pr_join_queue r', pr_pd r')"
          using r' spec [OF K5(6), of p'] fr4(1) by simp
        then obtain r1 where r1: "k_procs K p' = Some r1" "pr_join_queue r' = pr_join_queue r1" by auto
        have ex: "exited K p' i" if "exited K5 p' i" for i
          using that K5(3) K4(3,5) K2(6) unfolding exited_def by (auto split: if_splits)
        show ?thesis
        proof (cases "p' = ?p")
          case True
          then have "r1 = r" using r1 t(3) by simp
          then show ?thesis using r1(2) vs(2) ex sp True unfolding join_ok_def by auto
        next
          case False
          then have "pr_join_queue r1 \<noteq> ?q" using queues_okD(3) [OF kinvD(2) [OF i'] r1(1) t(3)] by blast
          then show ?thesis using kinvD(6) [OF i' r1(1)] ex r1(2) unfolding join_ok_def by auto
        qed
      qed
      then have "kinv K5 ?W ?S (bs @ [?j]) ws rs" using K5(2) unfolding kinv_def by blast
      moreover have "undisturbed K K5"
      proof (rule undisturbed_trans)
        show "undisturbed K K2" by (rule undisturbed_upd [where a = a]) (use fr2 K2(6) t(1) wqa in simp_all)
        have "undisturbed K2 K4" by (rule undisturbed_waiter [OF c2 vs(1) _ fr4(4,3) K4(3)]) (use sp in simp)
        moreover have "undisturbed K4 K5"
          by (rule undisturbed_upd [OF K5(4,5,3)]) (use a4 wqa in simp)
        ultimately show "undisturbed K2 K5" by (rule undisturbed_trans)
      qed
      ultimately have "keeps K ws rs K5" by (rule keepsI)
      moreover have "ks_exit_thread E K v = Some (Returns FOS_E_SUCCESS, K5)"
        using head t main K2(1,2) u(1) n(1) u2(1) tid jt(1) len m eax K4(1) K5(1) fr2
        by (simp add: ks_exit_thread_def with_current_def vector_queue_def Let_def)
      ultimately show ?thesis by blast
    qed
  qed
qed

end
