(* ===== verification/Kernel_Steps.thy ===== *)
theory Kernel_Steps
  imports Thread_Lifecycle
begin

text \<open>
  The running kernel as a transition system: timer ticks and system calls in any order, each
  acting for the thread that happens to be running.  The invariant holds in every reachable state,
  and no step faults or fails to return.
\<close>

section \<open>Steps\<close>

datatype kevent =
    Tick
  | Save_Ctx user_ctx
  | Expand_Stack "32 word"
  | Sleep_Thread "32 word"
  | Signal nat nat
  | Allow_Signal "32 word"
  | Wait_Signal "32 word" "32 word"
  | Signal_Clear "32 word"
  | Request_Mem "32 word" "32 word" "32 word"
  | Return_Mem "32 word" "32 word"
  | Spawn_Thread "32 word" "32 word" "32 word"
  | Exit_Thread "32 word"
  | Join_Thread "32 word" "32 word"
  | Set_In nat
  | Set_Out nat

text \<open>
  What the kernel does and what it answers to itself: anything but success ends in a shutdown, or, for a
  stack that cannot grow, in the exit of the process.  \<open>None\<close> is a fault or a call that does not return.
\<close>

definition of_error :: "(fernos_error \<times> 'm kernel) option \<Rightarrow> (kresult \<times> 'm kernel) option" where
  "of_error = map_option (\<lambda>(e, K). (Returns e, K))"

fun kcall :: "'m kenv \<Rightarrow> kevent \<Rightarrow> 'm kernel \<Rightarrow> (kresult \<times> 'm kernel) option" where
  "kcall E Tick K = of_error (ks_tick E K)"
| "kcall E (Save_Ctx ctx) K = map_option (Pair (Returns FOS_E_SUCCESS)) (ks_save_ctx K ctx)"
| "kcall E (Expand_Stack b) K = of_error (ks_expand_stack E K b)"
| "kcall E (Sleep_Thread n) K = ks_sleep_thread E K n"
| "kcall E (Signal pid sid) K = ks_signal E K pid sid"
| "kcall E (Allow_Signal sv) K = ks_allow_signal E K sv"
| "kcall E (Wait_Signal sv u) K = ks_wait_signal E K sv u"
| "kcall E (Signal_Clear sv) K = ks_signal_clear K sv"
| "kcall E (Request_Mem s e u) K = ks_request_mem E K s e u"
| "kcall E (Return_Mem s e) K = ks_return_mem E K s e"
| "kcall E (Spawn_Thread u f x) K = ks_spawn_local_thread E K u f x"
| "kcall E (Exit_Thread v) K = ks_exit_thread E K v"
| "kcall E (Join_Thread jv u) K = ks_join_local_thread E K jv u"
| "kcall E (Set_In h) K = ks_set_in_handle K h"
| "kcall E (Set_Out h) K = ks_set_out_handle K h"

definition kstep :: "'m kenv \<Rightarrow> kevent \<Rightarrow> 'm kernel \<Rightarrow> 'm kernel option" where
  "kstep E ev K = map_option snd (kcall E ev K)"

fun system_call :: "kevent \<Rightarrow> bool" where
  "system_call Tick = False"
| "system_call (Save_Ctx ctx) = False"
| "system_call (Expand_Stack b) = False"
| "system_call _ = True"

definition current :: "'m kernel \<Rightarrow> (addr \<times> thread \<times> process) option" where
  "current K = do {
     head \<leftarrow> ks_head K;
     a \<leftarrow> head;
     t \<leftarrow> k_threads K a;
     r \<leftarrow> k_procs K (th_proc t);
     Some (a, t, r) }"

text \<open>
  The steps considered do not end a process: signals are sent to processes that allow them, a
  signal is not forbidden while it is pending, and the main thread of a process does not exit.
  A kernel of this size has fewer than \<open>2 ^ 31\<close> threads.
\<close>

fun permitted :: "'m kenv \<Rightarrow> kevent \<Rightarrow> 'm kernel \<Rightarrow> bool" where
  "permitted E (Signal pid sid) K = signal_ok E K pid sid"
| "permitted E (Allow_Signal sv) K = (\<forall>a t r. current K = Some (a, t, r) \<longrightarrow> NOT sv AND pr_sig_vec r = 0)"
| "permitted E (Exit_Thread v) K = (\<forall>a t r. current K = Some (a, t, r) \<longrightarrow> pr_main_thread r \<noteq> Some a)"
| "permitted E (Spawn_Thread u f x) K = (card (dom (k_threads K)) + 1 < 2 ^ 31)"
| "permitted E _ K = True"

inductive reachable :: "'m kenv \<Rightarrow> 'm kernel \<Rightarrow> 'm kernel \<Rightarrow> bool" for E K0 where
  start: "reachable E K0 K0"
| step: "reachable E K0 K \<Longrightarrow> permitted E ev K \<Longrightarrow> kstep E ev K = Some K' \<Longrightarrow> reachable E K0 K'"

definition env_ok :: "'m kenv \<Rightarrow> bool" where
  "env_ok E \<longleftrightarrow> alloc_ok (ke_al E) \<and> \<not> oom (ke_al E) \<and> plugins_ok E"

text \<open>Every step but the tick leaves the clock and the sleeping threads alone.\<close>

lemma kcall_keeps:
  assumes at: "kernel_at K ws rs" and env: "env_ok E" and ok: "permitted E ev K" and ev: "ev \<noteq> Tick"
  shows "\<exists>res K' ws' rs'. kcall E ev K = Some (res, K') \<and> kernel_at K' ws' rs' \<and> undisturbed K K' \<and> set ws \<subseteq> set ws'
    \<and> (system_call ev \<longrightarrow> res = answer K)"
proof -
  have al: "alloc_ok (ke_al E)" "\<not> oom (ke_al E)" using env by (simp_all add: env_ok_def)
  have cur: "current K = Some (a, t, r)"
    if "ks_head K = Some (Some a)" "k_threads K a = Some t" "k_procs K (th_proc t) = Some r" for a t r
    using that by (simp add: current_def)
  have one: ?thesis if "\<exists>K'. kcall E ev K = Some (answer K, K') \<and> keeps K ws rs K'"
    using that unfolding keeps_def by blast
  show ?thesis
  proof (cases ev)
    case Tick
    then show ?thesis using ev by simp
  next
    case (Save_Ctx ctx)
    then show ?thesis using ks_save_ctx_inv [OF at, of ctx] unfolding keeps_def by fastforce
  next
    case (Expand_Stack b)
    obtain e K' where "ks_expand_stack E K b = Some (e, K')" "keeps K ws rs K'"
      using ks_expand_stack_inv [OF at, of E b] by blast
    then show ?thesis using Expand_Stack unfolding keeps_def
      by (intro exI [of _ "Returns e"] exI [of _ K'] exI [of _ ws] exI [of _ rs]) (simp add: of_error_def)
  next
    case (Sleep_Thread n)
    then show ?thesis using ks_sleep_inv [OF at al, of n] by fastforce
  next
    case (Signal pid sid)
    then show ?thesis using one ks_signal_inv [OF at al] ok by simp
  next
    case (Allow_Signal sv)
    then have "permitted E (Allow_Signal sv) K" using ok by simp
    then show ?thesis using cur Allow_Signal unfolding permitted.simps
      by (intro one) (simp only: kcall.simps, intro ks_allow_signal_inv [OF at], blast)
  next
    case (Wait_Signal sv u)
    then show ?thesis using one ks_wait_signal_inv [OF at al, of sv u] by simp
  next
    case (Signal_Clear sv)
    then show ?thesis using one ks_signal_clear_inv [OF at, of sv] by simp
  next
    case (Request_Mem s e u)
    then show ?thesis using one ks_request_mem_inv [OF at, of E s e u] by simp
  next
    case (Return_Mem s e)
    then show ?thesis using one ks_return_mem_inv [OF at, of E s e] by simp
  next
    case (Spawn_Thread u f x)
    then show ?thesis using one ks_spawn_inv [OF at al, of u f x] ok by simp
  next
    case (Exit_Thread v)
    then have "permitted E (Exit_Thread v) K" using ok by simp
    then show ?thesis using cur Exit_Thread unfolding permitted.simps
      by (intro one) (simp only: kcall.simps, intro ks_exit_thread_inv [OF at al], blast)
  next
    case (Join_Thread jv u)
    then show ?thesis using one ks_join_inv [OF at al, of jv u] by simp
  next
    case (Set_In h)
    then show ?thesis using one ks_set_in_handle_inv [OF at, of h] by simp
  next
    case (Set_Out h)
    then show ?thesis using one ks_set_out_handle_inv [OF at, of h] by simp
  qed
qed

lemma kcall_inv:
  assumes inv: "kernel_inv K" and env: "env_ok E" and ok: "permitted E ev K"
  shows "\<exists>res K'. kcall E ev K = Some (res, K') \<and> kernel_inv K' \<and> (system_call ev \<longrightarrow> res = answer K)"
proof (cases "ev = Tick")
  case True
  have al: "alloc_ok (ke_al E)" "\<not> oom (ke_al E)" "plugins_ok E" using env by (simp_all add: env_ok_def)
  then show ?thesis using ks_tick_inv [OF inv al] True by (fastforce simp: of_error_def)
next
  case False
  obtain ws rs where "kernel_at K ws rs" using inv unfolding kernel_inv_at by blast
  from kcall_keeps [OF this env ok False] show ?thesis unfolding kernel_inv_at by blast
qed

lemma kstep_inv:
  assumes "kernel_inv K" and "env_ok E" and "permitted E ev K"
  shows "\<exists>K'. kstep E ev K = Some K' \<and> kernel_inv K'"
  using kcall_inv [OF assms] by (auto simp: kstep_def)

lemma reachable_inv:
  assumes "reachable E K0 K" and "kernel_inv K0" and "env_ok E"
  shows "kernel_inv K"
  using assms
proof (induction rule: reachable.induct)
  case (step K ev K')
  then show ?case using kstep_inv by fastforce
qed

section \<open>The initial state\<close>

lemma new_kernel_inv:
  assumes new: "new_kernel_state E (Some k) n mem = Some (Some K)" and procs: "0 < fc_max_procs E" "fc_max_procs E < 2 ^ 28"
  shows "kernel_inv K"
proof -
  let ?twq = "\<lambda>b. new_timed_wait_queue b (new_linked_list (Some (ke_al E)) 8) (new_linked_list (Some (ke_al E)) 4)"
  let ?ks = "\<lambda>pt q tq. \<lparr>k_rings = init_ring \<lparr>rings = Map.empty, relems = Map.empty\<rparr> k, k_threads = Map.empty,
       k_wqs = [q \<mapsto> WQ_timed tq], k_procs = Map.empty, k_handles = Map.empty, k_schedule = k,
       k_proc_table = pt, k_root_proc = None, k_curr_tick = 0, k_sleep_q = q,
       k_plugins = replicate n None, k_mem = mem\<rparr>"
  obtain pt q tq where K:
    "new_id_table True (ke_mem E) (ke_junk E) (ie_next (ke_junk E)) (fc_max_procs E) = Some (Some pt)"
    "?twq True = Some tq" "K = ?ks pt q tq"
  proof -
    obtain pt where pt: "new_id_table True (ke_mem E) (ke_junk E) (ie_next (ke_junk E)) (fc_max_procs E) = Some pt"
      using new by (cases "new_id_table True (ke_mem E) (ke_junk E) (ie_next (ke_junk E)) (fc_max_procs E)")
        (simp_all add: new_kernel_state_def)
    show ?thesis
    proof (cases pt)
      case None
      then show ?thesis using new pt by (simp add: new_kernel_state_def Let_def)
    next
      case (Some pt)
      show ?thesis
      proof (cases "ke_al E {}")
        case None
        then show ?thesis using new pt Some by (simp add: new_kernel_state_def Let_def)
      next
        case (Some q)
        then show ?thesis using that [of pt _ q] new pt \<open>_ = Some pt\<close>
          by (simp add: new_kernel_state_def Let_def split: option.splits)
      qed
    qed
  qed
  obtain wl rl where l: "new_linked_list (Some (ke_al E)) 8 = Some wl" "new_linked_list (Some (ke_al E)) 4 = Some rl"
    "tq = \<lparr>twq_time = 0, twq_wait_q = wl, twq_ready_q = rl\<rparr>"
    using K(2) by (auto simp: new_timed_wait_queue_def split: option.splits)
  have rep: "twq_rep ll_inv ll_inv tq [] []"
    using new_linked_list_inv [OF l(1)] new_linked_list_inv [OF l(2)] l(3) by (simp add: twq_rep_def twq_ordered_def)
  have pt: "idtb_ok pt" "idtb_view pt = Map.empty"
    using new_id_table_ok [OF K(1)] procs by auto
  have "ring_rep \<lparr>rings = Map.empty, relems = Map.empty\<rparr> Map.empty" by (simp add: ring_rep_def)
  from init_ring_rep [OF this, of k] have "ring_rep (k_rings K) [k \<mapsto> []]" using K(3) by simp
  then have "placed K [q \<mapsto> AWQ_timed 0 [] []] [k \<mapsto> []]"
    using K(3) l(3) rep unfolding placed_def by (auto simp: init_ring_def)
  then have "clocked K [q \<mapsto> AWQ_timed 0 [] []] [k \<mapsto> []] [] [] []" using K(3) by (simp add: clocked_def)
  then have "kinv K [q \<mapsto> AWQ_timed 0 [] []] [k \<mapsto> []] [] [] []"
    using K(3) pt by (simp add: kinv_def kcore_def queues_ok_def procs_ok_def)
  then show ?thesis by (rule kinvI)
qed

end
