(* ===== verification/Sleeping.thy ===== *)
theory Sleeping
  imports Kernel_Steps
begin

text \<open>
  Sleeping threads in the running kernel: whatever steps the other threads take, a sleeper stays where it is
  until the tick it waits for.
\<close>

section \<open>The tick hooks of plugins\<close>

text \<open>
  What is asked of the tick hook of a plugin: it keeps the invariant and the number of plugins, and changes
  neither a sleeping nor a scheduled thread.  (The one hook there is, \<^verbatim>\<open>plg_gfx_tick\<close>, wakes threads that wait for
  the events of a window.)
\<close>

definition tick_hooks_ok :: "'m kenv \<Rightarrow> bool" where
  "tick_hooks_ok E \<longleftrightarrow> (\<forall>K p e K' ws rs. kernel_at K ws rs \<longrightarrow> ke_plg E K p PLG_TICK = Some (e, K') \<longrightarrow>
     keeps K ws rs K' \<and> length (k_plugins K') = length (k_plugins K)
     \<and> (\<forall>a t. k_threads K a = Some t \<longrightarrow> th_state t = THREAD_STATE_SCHEDULED \<longrightarrow> k_threads K' a = Some t))"

lemma plgs_loop_at:
  assumes hooks: "tick_hooks_ok E"
  shows "kernel_at K ws rs \<Longrightarrow> i + n \<le> length (k_plugins K) \<Longrightarrow>
    \<exists>e K'. plgs_loop E n i PLG_TICK K = Some (e, K') \<and> keeps K ws rs K'
      \<and> (\<forall>a t. k_threads K a = Some t \<longrightarrow> th_state t = THREAD_STATE_SCHEDULED \<longrightarrow> k_threads K' a = Some t)"
proof (induction n arbitrary: i K)
  case 0
  then show ?case by (simp add: keeps_def)
next
  case (Suc n)
  note IH = Suc.IH [of K "i + 1"] and prems = Suc.prems
  show ?case
  proof (cases "k_plugins K ! i")
    case None
    then show ?thesis using IH prems by simp
  next
    case (Some p)
    show ?thesis
    proof (cases "ke_plg E K p PLG_TICK")
      case None
      then show ?thesis using IH prems Some by simp
    next
      case (Some r)
      obtain e K1 where r: "r = (e, K1)" by (cases r)
      with Some prems(1) hooks have K1: "keeps K ws rs K1" "length (k_plugins K1) = length (k_plugins K)"
        "\<forall>a t. k_threads K a = Some t \<longrightarrow> th_state t = THREAD_STATE_SCHEDULED \<longrightarrow> k_threads K1 a = Some t"
        unfolding tick_hooks_ok_def by blast+
      show ?thesis
      proof (cases "e = FOS_E_SUCCESS")
        case True
        have "kernel_at K1 ws rs" "i + 1 + n \<le> length (k_plugins K1)" using K1 prems(2) by (simp_all add: keeps_def)
        from Suc.IH [OF this] obtain e' K' where K': "plgs_loop E n (i + 1) PLG_TICK K1 = Some (e', K')" "keeps K1 ws rs K'"
          "\<forall>a t. k_threads K1 a = Some t \<longrightarrow> th_state t = THREAD_STATE_SCHEDULED \<longrightarrow> k_threads K' a = Some t" by blast
        have "undisturbed K K1" using K1(1) by (simp add: keeps_def)
        then have "keeps K ws rs K'" using keeps_trans K'(2) by blast
        then show ?thesis using K'(1,3) K1(3) prems Some True r \<open>k_plugins K ! i = Some p\<close> by simp
      qed (use K1(1,3) prems Some r \<open>k_plugins K ! i = Some p\<close> in simp)
    qed
  qed
qed

lemma ks_tick_at:
  assumes at: "kernel_at K ws rs" and al: "alloc_ok (ke_al E)" "\<not> oom (ke_al E)" and hooks: "tick_hooks_ok E"
    and t: "t = k_curr_tick K + 1" and wk: "wk = rs @ waking t ws"
  shows "\<exists>e K'. ks_tick E K = Some (e, K') \<and> kernel_at K' (asleep t ws) [] \<and> k_curr_tick K' = t \<and> k_sleep_q K' = k_sleep_q K
    \<and> (\<forall>b u. k_threads K b = Some u \<longrightarrow> th_wq u = Some (k_sleep_q K) \<longrightarrow> b \<notin> set wk \<longrightarrow> k_threads K' b = Some u)
    \<and> (\<forall>b\<in>set wk. put_on (k_threads K b) (k_threads K' b))"
proof -
  obtain W S as where i: "kinv K W S as ws rs" using at unfolding kernel_at_def by blast
  note c = kinvD(1) [OF i]
  obtain K1 W' where K1: "ks_tick E K = (if t AND 0xF = 0 then plgs_tick E K1 else Some (FOS_E_SUCCESS, K1))"
    "W' = W(k_sleep_q K \<mapsto> AWQ_timed t (asleep t ws) [])"
    "clocked K1 W' (S(k_schedule K \<mapsto> next_schedule as wk)) (next_schedule as wk) (asleep t ws) []"
    "k_curr_tick K1 = t" "tick_frame K K1" "\<forall>b. b \<notin> set wk \<longrightarrow> k_threads K1 b = k_threads K b"
    "\<forall>b\<in>set wk. put_on (k_threads K b) (k_threads K1 b)"
    using ks_tick_rep [OF c al t wk] by blast
  have "kinv K1 W' (S(k_schedule K \<mapsto> next_schedule as wk)) (next_schedule as wk) (asleep t ws) []"
  proof (rule kinv_other_queue [OF i K1(3) put_on_threads(1) [OF K1(6,7)]])
    show "W' q = W q" if "W q = Some (AWQ_vector v [])" for q v using that clockedD(3) [OF c] K1(2) by auto
  qed (use K1(5) put_on_threads(2) [OF K1(6,7)] in \<open>simp_all add: tick_frame_def\<close>)
  then have at1: "kernel_at K1 (asleep t ws) []" unfolding kernel_at_def by blast
  have sq: "k_sleep_q K1 = k_sleep_q K" using K1(5) by (simp add: tick_frame_def)
  from plgs_loop_at [OF hooks at1, of 0 "length (k_plugins K1)"] obtain e K2 where
    K2: "plgs_tick E K1 = Some (e, K2)" "keeps K1 (asleep t ws) [] K2"
    "\<forall>a t. k_threads K1 a = Some t \<longrightarrow> th_state t = THREAD_STATE_SCHEDULED \<longrightarrow> k_threads K2 a = Some t"
    unfolding plgs_tick_def by auto
  let ?r = "if t AND 0xF = 0 then (e, K2) else (FOS_E_SUCCESS, K1)"
  have same: "k_threads K2 b = k_threads K1 b" if "b \<in> set wk" for b
    using K1(7) that K2(3) by (fastforce simp: put_on_def)
  have "ks_tick E K = Some ?r" using K1(1) K2(1) by simp
  moreover have "kernel_at (snd ?r) (asleep t ws) []" "k_curr_tick (snd ?r) = t" "k_sleep_q (snd ?r) = k_sleep_q K"
    using at1 K2(2) K1(4) sq by (simp_all add: keeps_def undisturbed_def)
  moreover have "k_threads (snd ?r) b = Some u"
    if "k_threads K b = Some u" "th_wq u = Some (k_sleep_q K)" "b \<notin> set wk" for b u
    using that K1(6) K2(2) sq by (simp add: keeps_def undisturbed_def)
  moreover have "put_on (k_threads K b) (k_threads (snd ?r) b)" if "b \<in> set wk" for b
    using K1(7) that same [OF that] by simp
  ultimately show ?thesis by (metis prod.collapse)
qed

section \<open>A sleeper\<close>

text \<open>The thread \<open>t\<close> sleeps with the entry \<open>p\<close> of the sleep queue.\<close>

definition sleeps :: "'m kernel \<Rightarrow> addr twq_wait_pair \<Rightarrow> thread \<Rightarrow> bool" where
  "sleeps K p t \<longleftrightarrow> (\<exists>ws rs. kernel_at K ws rs \<and> p \<in> set ws) \<and> k_threads K (tw_item p) = Some t
     \<and> th_wq t = Some (k_sleep_q K) \<and> th_state t = THREAD_STATE_WAITING"

lemma sleeps_positive:
  assumes "sleeps K p t"
  shows "0 < ticks_left (k_curr_tick K) p"
proof -
  obtain ws rs W S as where p: "kinv K W S as ws rs" "p \<in> set ws"
    using assms unfolding sleeps_def kernel_at_def by blast
  note c = clockedD [OF kinvD(1) [OF p(1)]]
  from placed_queue [OF c(1,3)] obtain w where "wq_rep w (AWQ_timed (k_curr_tick K) ws rs)" .
  then have "twq_ordered (k_curr_tick K) ws" using wq_rep_timed by (fastforce simp: twq_rep_def)
  then show ?thesis using p(2) by (simp add: twq_ordered_def)
qed

lemma sleeps_step:
  assumes s: "sleeps K p t" and env: "env_ok E" and ok: "permitted E ev K" and ev: "ev \<noteq> Tick"
    and step: "kstep E ev K = Some K'"
  shows "sleeps K' p t \<and> k_curr_tick K' = k_curr_tick K"
proof -
  obtain ws rs where ws: "kernel_at K ws rs" "p \<in> set ws" using s unfolding sleeps_def by blast
  from kcall_keeps [OF ws(1) env ok ev] step obtain ws' rs' where
    "kernel_at K' ws' rs'" "undisturbed K K'" "set ws \<subseteq> set ws'" by (auto simp: kstep_def)
  then show ?thesis using s ws(2) unfolding sleeps_def undisturbed_def by auto
qed

lemma sleeps_tick:
  assumes s: "sleeps K p t" and env: "env_ok E" and hooks: "tick_hooks_ok E" and step: "kstep E Tick K = Some K'"
  shows "k_curr_tick K' = k_curr_tick K + 1"
    and "ticks_left (k_curr_tick K) p \<noteq> 1 \<Longrightarrow> sleeps K' p t"
    and "ticks_left (k_curr_tick K) p = 1 \<Longrightarrow> put_on (Some t) (k_threads K' (tw_item p))"
proof -
  let ?t = "k_curr_tick K + 1"
  obtain ws rs where ws: "kernel_at K ws rs" "p \<in> set ws" using s unfolding sleeps_def by blast
  have al: "alloc_ok (ke_al E)" "\<not> oom (ke_al E)" using env by (simp_all add: env_ok_def)
  let ?wk = "rs @ waking ?t ws"
  from ks_tick_at [OF ws(1) al hooks refl refl] step have K': "kernel_at K' (asleep ?t ws) []" "k_curr_tick K' = ?t"
    "k_sleep_q K' = k_sleep_q K"
    "\<And>b u. k_threads K b = Some u \<Longrightarrow> th_wq u = Some (k_sleep_q K) \<Longrightarrow> b \<notin> set ?wk \<Longrightarrow> k_threads K' b = Some u"
    "\<And>b. b \<in> set ?wk \<Longrightarrow> put_on (k_threads K b) (k_threads K' b)"
    by (auto simp: kstep_def of_error_def)
  show "k_curr_tick K' = ?t" by (rule K'(2))
  have wake: "tw_wake_time p = ?t \<longleftrightarrow> ticks_left (k_curr_tick K) p = 1"
    using due_next [OF sleeps_positive [OF s]] sleeps_positive [OF s] by (simp add: due_def) linarith
  { assume "ticks_left (k_curr_tick K) p \<noteq> 1"
    then have np: "tw_wake_time p \<noteq> ?t" using wake by simp
    obtain W S as where i: "kinv K W S as ws rs" using ws(1) unfolding kernel_at_def by blast
    note c = clockedD [OF kinvD(1) [OF i]]
    have "distinct (map tw_item ws @ rs)" using placedD(7) [OF c(1,3)] by simp
    then have "tw_item p \<notin> set ?wk" using ws(2) np by (auto simp: waking_def distinct_map dest: inj_onD)
    then have "k_threads K' (tw_item p) = Some t" using K'(4) s by (simp add: sleeps_def)
    moreover have "p \<in> set (asleep ?t ws)" using ws(2) np by (simp add: asleep_def)
    ultimately show "sleeps K' p t" using K'(1,3) s unfolding sleeps_def by auto }
  { assume "ticks_left (k_curr_tick K) p = 1"
    then have "tw_item p \<in> set ?wk" using ws(2) wake by (auto simp: waking_def)
    then show "put_on (Some t) (k_threads K' (tw_item p))" using K'(5) s by (fastforce simp: sleeps_def) }
qed

section \<open>Runs of the kernel\<close>

text \<open>A sequence of permitted steps.\<close>

fun krun :: "'m kenv \<Rightarrow> kevent list \<Rightarrow> 'm kernel \<Rightarrow> 'm kernel option" where
  "krun E [] K = Some K"
| "krun E (ev # evs) K = (if permitted E ev K then do { K \<leftarrow> kstep E ev K; krun E evs K } else None)"

lemma krun_append: "krun E (es @ fs) K = do { K \<leftarrow> krun E es K; krun E fs K }"
  by (induction es arbitrary: K) (simp_all split: Option.bind_split)

lemma krun_ConsE:
  assumes "krun E (ev # evs) K = Some K'"
  obtains K1 where "permitted E ev K" "kstep E ev K = Some K1" "krun E evs K1 = Some K'"
  using assms by (auto split: if_splits Option.bind_splits)

lemma sleeps_run:
  assumes "sleeps K p t" and env: "env_ok E" and hooks: "tick_hooks_ok E"
    and "krun E evs K = Some K'" and "count_list evs Tick < ticks_left (k_curr_tick K) p"
  shows "sleeps K' p t \<and> ticks_left (k_curr_tick K') p = ticks_left (k_curr_tick K) p - count_list evs Tick"
  using assms(1,4,5)
proof (induction evs arbitrary: K)
  case (Cons ev evs)
  obtain K1 where K1: "permitted E ev K" "kstep E ev K = Some K1" "krun E evs K1 = Some K'" by (rule krun_ConsE [OF Cons.prems(2)])
  show ?case
  proof (cases "ev = Tick")
    case True
    then have step: "kstep E Tick K = Some K1" using K1(2) by simp
    note tick = sleeps_tick [OF Cons.prems(1) env hooks step]
    have n: "1 + count_list evs Tick < ticks_left (k_curr_tick K) p" using Cons.prems(3) True by simp
    have one: "unat (k_curr_tick K1 - k_curr_tick K) = 1" using tick(1) by simp
    have left: "ticks_left (k_curr_tick K1) p = ticks_left (k_curr_tick K) p - 1"
      using ticks_left_later [of "k_curr_tick K1" "k_curr_tick K" p] n unfolding one by simp
    then have "count_list evs Tick < ticks_left (k_curr_tick K1) p" using n by simp
    from Cons.IH [OF tick(2) K1(3) this] n left True show ?thesis by simp
  next
    case False
    from sleeps_step [OF Cons.prems(1) env K1(1) False K1(2)] have "sleeps K1 p t" "k_curr_tick K1 = k_curr_tick K" by simp_all
    then show ?thesis using Cons.IH [OF _ K1(3)] Cons.prems(3) False by simp
  qed
qed simp

lemma sleeper_wakes:
  assumes s: "sleeps K p t" and env: "env_ok E" and hooks: "tick_hooks_ok E"
    and run: "krun E (evs @ [Tick]) K = Some K'" and n: "Suc (count_list evs Tick) = ticks_left (k_curr_tick K) p"
  shows "put_on (Some t) (k_threads K' (tw_item p))"
proof -
  obtain K1 where K1: "krun E evs K = Some K1" "krun E [Tick] K1 = Some K'"
    using run by (auto simp: krun_append split: Option.bind_splits)
  have less: "count_list evs Tick < ticks_left (k_curr_tick K) p" using n by simp
  from sleeps_run [OF s env hooks K1(1) less] n have s1: "sleeps K1 p t" "ticks_left (k_curr_tick K1) p = 1" by auto
  have "kstep E Tick K1 = Some K'" using K1(2) by (cases "kstep E Tick K1") simp_all
  then show ?thesis using sleeps_tick(3) [OF s1(1) env hooks] s1(2) by blast
qed

end
