(* ===== verification/Kernel_Correctness.thy ===== *)
theory Kernel_Correctness
  imports Sleeping Actions
begin

text \<open>
  What the invariant gives for the running kernel, and the system calls that bring it down.
\<close>

section \<open>The sample kernel\<close>

lemma sample_thread_ok: "k_threads sample_kernel a = Some t \<Longrightarrow> thread_ok sample_kernel a t"
  by (auto simp: sample_threads sample_thread_def thread_ok_def sample_kernel_def sample_proc_def tbl_views
      split: if_splits)

lemma sample_proc_ok:
  assumes "k_procs sample_kernel p = Some r"
  shows "sig_ok sample_queues r" and "tables_ok sample_kernel p r" and "join_ok sample_kernel sample_queues p r"
proof -
  show "sig_ok sample_queues r"
    using assms by (auto simp: sample_kernel_def sig_ok_def sample_proc_def sample_queues_def split: if_splits)
  have ok: "idtb_ok (tbl_one a)" "idtb_ok (tbl_two b c)" "idtb_ok (tbl_three b c d)" "idtb_ok tbl_free" for a b c d
    using tbl_reps unfolding idtb_ok_def by blast+
  have mx: "idtb_max (tbl_one a) = 8" "idtb_max (tbl_two b c) = 8" "idtb_max (tbl_three b c d) = 8" "idtb_max tbl_free = 8"
    for a b c d by (simp_all add: tbl_one_def tbl_two_def tbl_three_def tbl_free_def)
  show "tables_ok sample_kernel p r"
    using assms ok mx by (auto simp: tables_ok_def sample_kernel_def sample_proc_def tbl_views sample_thread_def
        split: if_splits)
  have "\<not> exited sample_kernel p i" for i
    by (auto simp: exited_def sample_threads sample_thread_def split: if_splits)
  then show "join_ok sample_kernel sample_queues p r"
    using assms by (auto simp: sample_kernel_def join_ok_def sample_proc_def sample_queues_def split: if_splits)
qed

lemma idtb_okI: "idtb_rep t fs as \<Longrightarrow> idtb_ok t"
  unfolding idtb_ok_def by blast

lemma sample_kinv: "kinv sample_kernel sample_queues sample_schedule [1, 2] [] []"
proof -
  have "queues_ok sample_kernel"
    by (auto simp: queues_ok_def sample_kernel_def sample_proc_def split: if_splits)
  moreover have "procs_ok sample_kernel"
    using tbl_reps(3) [THEN idtb_okI] unfolding procs_ok_def
    by (auto simp: sample_kernel_def sample_proc_def tbl_views split: if_splits)
  ultimately show ?thesis
    unfolding kinv_def kcore_def using sample_clocked sample_thread_ok sample_proc_ok by blast
qed

lemma sample_inv: "kernel_inv sample_kernel"
  using sample_kinv by (rule kinvI)

lemma sample_env_ok: "env_ok sample_env"
  by (simp add: env_ok_def plugins_ok_def) (simp add: sample_env_def)

section \<open>Reachable kernels\<close>

text \<open>What the waiting threads of a vector wait queue of the kernel wait for.\<close>

definition waits_on :: "'m kernel \<Rightarrow> addr \<Rightarrow> addr vwq_wait_pair list \<Rightarrow> bool" where
  "waits_on K q ws \<longleftrightarrow> (\<exists>v. k_wqs K q = Some (WQ_vector v) \<and> vwq_rep ll_inv ll_inv v ws [])
     \<and> distinct (map vw_item ws)
     \<and> vw_item ` set ws = {a. \<exists>t. k_threads K a = Some t \<and> th_wq t = Some q}"

lemma waits_onI:
  assumes pl: "placed K W S" and q: "W q = Some (AWQ_vector ws [])"
  shows "waits_on K q ws"
proof -
  obtain v where v: "k_wqs K q = Some (WQ_vector v)" "vwq_rep ll_inv ll_inv v ws []"
    using placed_queue_vector [OF pl q] by blast
  have "\<exists>t. k_threads K a = Some t \<and> th_wq t = Some q" if "a \<in> vw_item ` set ws" for a
    using placed_item [OF pl q, of a] that by auto
  moreover have "a \<in> vw_item ` set ws" if "k_threads K a = Some t" "th_wq t = Some q" for a t
    using locatedD(4) [OF placedD(8) [OF pl that(1)] q] that(2) by simp
  ultimately have "vw_item ` set ws = {a. \<exists>t. k_threads K a = Some t \<and> th_wq t = Some q}" by blast
  then show ?thesis using v placedD(7) [OF pl q] unfolding waits_on_def by (intro conjI exI) simp_all
qed

text \<open>Threads are where their state says: the view of the whole kernel.\<close>

definition well_placed :: "'m kernel \<Rightarrow> bool" where
  "well_placed K \<longleftrightarrow> (\<exists>S as. ring_rep (k_rings K) S \<and> S (k_schedule K) = Some as \<and> ks_head K = Some (fst_or None as)
     \<and> (\<forall>a t. k_threads K a = Some t \<longrightarrow>
          (th_state t = THREAD_STATE_SCHEDULED \<longleftrightarrow> on_ring S a)
          \<and> (th_state t = THREAD_STATE_WAITING \<longleftrightarrow> th_wq t \<noteq> None))
     \<and> (\<forall>q w. k_wqs K q = Some w \<longrightarrow> (\<exists>aq. wq_rep w aq \<and> distinct (awq_items aq)
          \<and> set (awq_items aq) = {a. \<exists>t. k_threads K a = Some t \<and> th_wq t = Some q})))"

lemma inv_well_placed:
  assumes "kernel_inv K"
  shows "well_placed K"
proof -
  obtain W S as ws rs where i: "kinv K W S as ws rs" using assms unfolding kernel_inv_def by blast
  note c = clockedD [OF kinvD(1) [OF i]] and pl = clockedD(1) [OF kinvD(1) [OF i]]
  have q: "\<exists>aq. wq_rep w aq \<and> distinct (awq_items aq)
      \<and> set (awq_items aq) = {a. \<exists>t. k_threads K a = Some t \<and> th_wq t = Some q}" if w: "k_wqs K q = Some w" for q w
  proof -
    obtain aq where aq: "W q = Some aq" using placedD(5) [OF pl] w by blast
    have "\<exists>t. k_threads K a = Some t \<and> th_wq t = Some q" if "a \<in> set (awq_items aq)" for a
      using placed_item [OF pl aq that] by metis
    moreover have "a \<in> set (awq_items aq)" if "k_threads K a = Some t" "th_wq t = Some q" for a t
      using locatedD(4) [OF placedD(8) [OF pl that(1)] aq] that(2) by simp
    ultimately have "set (awq_items aq) = {a. \<exists>t. k_threads K a = Some t \<and> th_wq t = Some q}" by blast
    then show ?thesis using placedD(6) [OF pl w aq] placedD(7) [OF pl aq] by blast
  qed
  have t: "(th_state t = THREAD_STATE_SCHEDULED \<longleftrightarrow> on_ring S a) \<and> (th_state t = THREAD_STATE_WAITING \<longleftrightarrow> th_wq t \<noteq> None)"
    if "k_threads K a = Some t" for a t
    using locatedD(1,2) [OF placedD(8) [OF pl that]] by simp
  show ?thesis unfolding well_placed_def using placedD(1) [OF pl] c(2) kinv_head [OF i] q t by blast
qed

lemma sample_current: "\<exists>t r. current sample_kernel = Some (1, t, r)"
  by (simp add: current_def ks_head_def) (simp add: sample_kernel_def sample_rings_def sample_thread_def)

lemma sample_reach: "reachable sample_env sample_kernel sample_kernel"
  by (rule start)



text \<open>C2. A thread is on a ring if and only if it is scheduled, and in a wait queue if and only if it is
  waiting; then it is in the one queue it names, once.\<close>

theorem threads_well_placed:
  assumes "kernel_inv K0" and "env_ok E" and "reachable E K0 K"
  shows "well_placed K"
  using inv_well_placed [OF reachable_inv [OF assms(3,1,2)]] .

theorem threads_well_placed_witness: "well_placed sample_kernel"
  using threads_well_placed [OF sample_inv sample_env_ok sample_reach] .

text \<open>C3. No signal is lost: a thread never waits for a signal that is pending for its process.\<close>

theorem no_lost_signal:
  assumes "kernel_inv K0" and "env_ok E" and "reachable E K0 K" and "k_procs K p = Some r"
  shows "\<exists>ws. waits_on K (pr_signal_queue r) ws \<and> (\<forall>w\<in>set ws. vw_mask w AND pr_sig_vec r = 0)"
proof -
  obtain W S as ws rs where i: "kinv K W S as ws rs"
    using reachable_inv [OF assms(3,1,2)] unfolding kernel_inv_def by blast
  from kinvD(5) [OF i assms(4)] show ?thesis
    using waits_onI [OF clockedD(1) [OF kinvD(1) [OF i]]] unfolding sig_ok_def by blast
qed

theorem no_lost_signal_witness:
  "\<exists>r ws. k_procs sample_kernel 51 = Some r \<and> waits_on sample_kernel (pr_signal_queue r) ws"
  using no_lost_signal [OF sample_inv sample_env_ok sample_reach, of 51] by (auto simp: sample_kernel_def)

text \<open>C4. No exit is lost: a thread never waits to join a thread of its process that has exited.\<close>

theorem no_lost_exit:
  assumes "kernel_inv K0" and "env_ok E" and "reachable E K0 K" and "k_procs K p = Some r"
    and "k_threads K a = Some t" and "th_proc t = p" and "th_state t = THREAD_STATE_EXITED"
  shows "\<exists>ws. waits_on K (pr_join_queue r) ws \<and> (\<forall>w\<in>set ws. \<not> bit (vw_mask w) (th_tid t))"
proof -
  obtain W S as ws rs where i: "kinv K W S as ws rs"
    using reachable_inv [OF assms(3,1,2)] unfolding kernel_inv_def by blast
  have "exited K p (th_tid t)" using assms(5-7) unfolding exited_def by blast
  with kinvD(6) [OF i assms(4)] show ?thesis
    using waits_onI [OF clockedD(1) [OF kinvD(1) [OF i]]] unfolding join_ok_def by blast
qed

definition sample_exited :: "unit kernel" where
  "sample_exited = set_thread 4 (sample_thread 0 52 THREAD_STATE_EXITED None) sample_kernel"

lemma sample_exited_only:
  "k_threads sample_exited a = Some t \<Longrightarrow> th_state t = THREAD_STATE_EXITED \<Longrightarrow>
    a = 4 \<and> t = sample_thread 0 52 THREAD_STATE_EXITED None"
  by (auto simp: sample_exited_def sample_threads sample_thread_def split: if_splits)

lemma sample_exited_iff: "exited sample_exited p i \<Longrightarrow> p = 52"
  unfolding exited_def using sample_exited_only by (fastforce simp: sample_thread_def)

lemma sample_exited_inv: "kernel_inv sample_exited"
proof -
  have i: "kinv sample_kernel sample_queues sample_schedule [1, 2] [] []" by (rule sample_kinv)
  have t4: "k_threads sample_kernel 4 = Some (sample_thread 0 52 THREAD_STATE_DETATCHED None)" by (simp add: sample_threads)
  have "placed (sample_kernel\<lparr>k_rings := k_rings sample_kernel, k_wqs := k_wqs sample_kernel,
      k_threads := (k_threads sample_kernel)(4 \<mapsto> sample_thread 0 52 THREAD_STATE_EXITED None)\<rparr>) sample_queues sample_schedule"
    by (rule placed_move [OF sample_placed t4 placedD(1) [OF sample_placed] refl refl])
      (use placedD(5,6,7) [OF sample_placed] sample_located [of 4] in
        \<open>auto simp: located_def sample_threads sample_thread_def\<close>)
  then have "placed sample_exited sample_queues sample_schedule" by (simp add: sample_exited_def)
  then have c: "clocked sample_exited sample_queues sample_schedule [1, 2] [] []"
    using sample_clocked by (simp add: clocked_def sample_exited_def)
  have "kinv sample_exited sample_queues sample_schedule [1, 2] [] []"
  proof (rule kinv_update [OF i c])
    show "same_threads sample_kernel sample_exited"
      by (simp add: same_threads_def sample_exited_def sample_threads thread_key_def sample_thread_def)
    fix p r r' assume r: "k_procs sample_kernel p = Some r" "k_procs sample_exited p = Some r'"
    then have [simp]: "r' = r" by (simp add: sample_exited_def)
    have "join_ok sample_exited sample_queues p r"
    proof (cases "p = 52")
      case True
      then have "pr_join_queue r = 35" using r(1) by (auto simp: sample_kernel_def sample_proc_def)
      then show ?thesis by (simp add: join_ok_def sample_queues_def)
    next
      case False
      then show ?thesis
        using sample_exited_iff by (intro join_ok_mono [OF sample_proc_ok(3) [OF r(1)]]) blast+
    qed
    then show "same_proc r r' \<and> sig_ok sample_queues r' \<and> join_ok sample_exited sample_queues p r'"
      using sample_proc_ok(1) [OF r(1)] by simp
  qed (simp_all add: sample_exited_def)
  then show ?thesis by (rule kinvI)
qed

theorem no_lost_exit_witness:
  "\<exists>r ws. k_procs sample_exited 52 = Some r \<and> waits_on sample_exited (pr_join_queue r) ws"
  using no_lost_exit [OF sample_exited_inv sample_env_ok start, of 52 _ 4 "sample_thread 0 52 THREAD_STATE_EXITED None"]
  by (auto simp: sample_kernel_def sample_exited_def sample_thread_def)

section \<open>System-call numbers\<close>

lemma scid_bits:
  "bit (push_bit 30 3 :: 32 word) n \<longleftrightarrow> n = 30 \<or> n = 31"
  "bit (push_bit 30 2 :: 32 word) n \<longleftrightarrow> n = 31"
  "bit (push_bit 30 1 :: 32 word) n \<longleftrightarrow> n = 30"
  "bit (push_bit 16 (h AND 0xFF) :: 32 word) n \<longleftrightarrow> 16 \<le> n \<and> n < 24 \<and> bit h (n - 16)"
  "bit (0xFF :: 32 word) n \<longleftrightarrow> n < 8"
proof -
  have f: "(0xFF :: 32 word) = mask 8" "(3 :: 32 word) = mask 2" "(2 :: 32 word) = push_bit 1 1"
    by (simp_all add: mask_eq_exp_minus_1)
  show "bit (push_bit 30 3 :: 32 word) n \<longleftrightarrow> n = 30 \<or> n = 31"
    unfolding f(2) bit_push_bit_iff bit_mask_iff by auto
  show "bit (push_bit 30 2 :: 32 word) n \<longleftrightarrow> n = 31"
    unfolding f(3) push_bit_push_bit bit_push_bit_iff bit_1_iff by auto
  show "bit (push_bit 30 1 :: 32 word) n \<longleftrightarrow> n = 30"
    unfolding bit_push_bit_iff bit_1_iff by auto
  show "bit (push_bit 16 (h AND 0xFF) :: 32 word) n \<longleftrightarrow> 16 \<le> n \<and> n < 24 \<and> bit h (n - 16)"
    unfolding f(1) bit_push_bit_iff bit_and_iff bit_mask_iff by auto
  show "bit (0xFF :: 32 word) n \<longleftrightarrow> n < 8" unfolding f(1) bit_mask_iff by auto
qed
lemmas scid_bit_rules = bit_and_iff bit_or_iff bit_drop_bit_eq comp_def bit_ucast_iff scid_bits possible_bit_def

lemma handle_scid_facts:
  "handle_scid_extract (handle_cmd_scid h c) = (h AND 0xFF, c)"
  "handle_cmd_scid h c AND SYSCALL_ATTRS_MASK = HANDLE_CMD_PREFIX"
  unfolding handle_scid_extract_def handle_cmd_scid_def HANDLE_CMD_PREFIX_def SYSCALL_ATTRS_MASK_def prod.inject
  by (intro conjI bit_word_eqI; simp only: scid_bit_rules; auto dest: bit_imp_le_length)
    (rule bit_word_eqI, simp only: scid_bit_rules, auto dest: bit_imp_le_length)

lemma plugin_scid_facts:
  "plugin_scid_extract (plugin_cmd_scid h c) = (h AND 0xFF, c)"
  "plugin_cmd_scid h c AND SYSCALL_ATTRS_MASK = PLUGIN_CMD_PREFIX"
  "bit (plugin_cmd_scid h c) 31"
  unfolding plugin_scid_extract_def plugin_cmd_scid_def PLUGIN_CMD_PREFIX_def SYSCALL_ATTRS_MASK_def prod.inject
  by (intro conjI bit_word_eqI; simp only: scid_bit_rules; auto dest: bit_imp_le_length)
    (rule bit_word_eqI, simp only: scid_bit_rules, auto dest: bit_imp_le_length, simp only: scid_bit_rules, simp)

lemma scid_prefixes:
  "HANDLE_CMD_PREFIX \<noteq> PLUGIN_CMD_PREFIX" "HANDLE_CMD_PREFIX \<noteq> 0" "PLUGIN_CMD_PREFIX \<noteq> 0"
  by (simp_all add: HANDLE_CMD_PREFIX_def PLUGIN_CMD_PREFIX_def)

lemma large_scid:
  assumes "bit w 31" and "x < 0x400"
  shows "w \<noteq> (x :: 32 word)"
proof
  assume w: "w = x"
  have "w AND mask 10 = w" using assms w by (intro less_mask_eq) simp
  then have "bit (w AND mask 10) 31" using assms(1) by simp
  then show False by (simp add: bit_and_iff bit_mask_iff)
qed

section \<open>Signals\<close>

text \<open>The threads of the schedule, in their order.\<close>

definition on_schedule :: "'m kernel \<Rightarrow> addr list \<Rightarrow> bool" where
  "on_schedule K as \<longleftrightarrow> (\<exists>S. ring_rep (k_rings K) S \<and> S (k_schedule K) = Some as)"

lemma placed_on_scheduleI: "placed K W S \<Longrightarrow> S (k_schedule K) = Some as \<Longrightarrow> on_schedule K as"
  unfolding on_schedule_def using placedD(1) by blast

text \<open>C5. Sending a signal to a process that allows it: of the threads that wait for it only the first, in the order
  of arrival, is woken: it joins the end of the schedule with success in its result register and takes the
  signal, so that it is not pending afterwards, and the other threads waiting for it go on waiting
  (\<^verbatim>\<open>state.h\<close> says that the threads waiting for the signal are woken up); when no thread waits for it, it becomes
  pending, no thread moves and nothing else changes.\<close>

theorem ks_signal_spec:
  assumes inv: "kernel_inv K" and al: "alloc_ok (ke_al E)" "\<not> oom (ke_al E)" and r: "k_procs K p = Some r"
    and sid: "sid < 32" and allow: "bit (pr_sig_allow r) sid" and new: "\<not> bit (pr_sig_vec r) sid"
  shows "\<exists>ws K'. waits_on K (pr_signal_queue r) ws \<and> ks_signal_p E K (Some p) sid = Some (Returns FOS_E_SUCCESS, K')
    \<and> waits_on K' (pr_signal_queue r) (waiters_after sid ws)
    \<and> (\<exists>as. on_schedule K as \<and> on_schedule K' (case first_waiter sid ws of None \<Rightarrow> as | Some w \<Rightarrow> as @ [vw_item w]))
    \<and> (case first_waiter sid ws of
         None \<Rightarrow> k_threads K' = k_threads K
           \<and> k_procs K' = (k_procs K)(p \<mapsto> r\<lparr>pr_sig_vec := set_bit sid (pr_sig_vec r)\<rparr>)
       | Some w \<Rightarrow> k_procs K' = k_procs K
           \<and> (\<exists>t'. k_threads K' = (k_threads K)(vw_item w \<mapsto> t')
               \<and> woken_by_signal (k_threads K (vw_item w)) (Some t')))"
proof -
  obtain W S as ts rs where i: "kinv K W S as ts rs" using inv unfolding kernel_inv_def by blast
  note pl = clockedD(1,2) [OF kinvD(1) [OF i]]
  obtain ws where ws: "W (pr_signal_queue r) = Some (AWQ_vector ws [])"
    using kinvD(5) [OF i r] unfolding sig_ok_def by blast
  have "th_proc t \<in> dom (k_procs K) \<and> length (th_wait_ctx t) = 6" if "k_threads K a = Some t" for a t
    using kinvD(4) [OF i that] unfolding thread_ok_def by blast
  from ks_signal_with_rep [OF pl r ws al sid allow new, of "ks_exit_proc_p E"] this
  have sig: "case first_waiter sid ws of
      None \<Rightarrow> \<exists>w. ks_signal_p E K (Some p) sid = Some (Returns FOS_E_SUCCESS,
          set_wq (pr_signal_queue r) w (set_proc p (r\<lparr>pr_sig_vec := set_bit sid (pr_sig_vec r)\<rparr>) K))
        \<and> placed (set_wq (pr_signal_queue r) w K) W S
    | Some w \<Rightarrow> \<exists>K'. ks_signal_p E K (Some p) sid = Some (Returns FOS_E_SUCCESS, K')
        \<and> placed K' (W(pr_signal_queue r \<mapsto> AWQ_vector (waiters_after sid ws) [])) (S(k_schedule K \<mapsto> as @ [vw_item w]))
        \<and> (\<exists>m. same_frame (K\<lparr>k_mem := m\<rparr>) K')
        \<and> (\<exists>t t'. k_threads K (vw_item w) = Some t \<and> k_threads K' = (k_threads K)(vw_item w \<mapsto> t')
            \<and> woken_by_signal (Some t) (Some t'))" unfolding ks_signal_p_def by blast
  have w0: "waits_on K (pr_signal_queue r) ws" by (rule waits_onI [OF pl(1) ws])
  have s0: "on_schedule K as" by (rule placed_on_scheduleI [OF pl])
  show ?thesis
  proof (cases "first_waiter sid ws")
    case None
    then obtain w where w: "ks_signal_p E K (Some p) sid = Some (Returns FOS_E_SUCCESS,
        set_wq (pr_signal_queue r) w (set_proc p (r\<lparr>pr_sig_vec := set_bit sid (pr_sig_vec r)\<rparr>) K))"
      "placed (set_wq (pr_signal_queue r) w K) W S" using sig by auto
    have "waits_on (set_wq (pr_signal_queue r) w K) (pr_signal_queue r) ws" by (rule waits_onI [OF w(2) ws])
    then have "waits_on (set_wq (pr_signal_queue r) w (set_proc p (r\<lparr>pr_sig_vec := set_bit sid (pr_sig_vec r)\<rparr>) K))
        (pr_signal_queue r) (waiters_after sid ws)" using first_waiter_None [OF None] by (simp add: waits_on_def)
    moreover have "on_schedule (set_wq (pr_signal_queue r) w (set_proc p (r\<lparr>pr_sig_vec := set_bit sid (pr_sig_vec r)\<rparr>) K)) as"
      using s0 by (simp add: on_schedule_def)
    ultimately show ?thesis using w0 s0 w(1) None by (intro exI [of _ ws] exI conjI) auto
  next
    case (Some w)
    then obtain K' m t t' where K': "ks_signal_p E K (Some p) sid = Some (Returns FOS_E_SUCCESS, K')"
      "placed K' (W(pr_signal_queue r \<mapsto> AWQ_vector (waiters_after sid ws) [])) (S(k_schedule K \<mapsto> as @ [vw_item w]))"
      "same_frame (K\<lparr>k_mem := m\<rparr>) K'" "k_threads K (vw_item w) = Some t"
      "k_threads K' = (k_threads K)(vw_item w \<mapsto> t')" "woken_by_signal (Some t) (Some t')" using sig by auto
    have "waits_on K' (pr_signal_queue r) (waiters_after sid ws)" by (rule waits_onI [OF K'(2)]) simp
    moreover have "on_schedule K' (as @ [vw_item w])"
      by (rule placed_on_scheduleI [OF K'(2)]) (use K'(3) in \<open>simp add: same_frame_def\<close>)
    moreover have "k_procs K' = k_procs K" using K'(3) by (simp add: same_frame_def)
    ultimately show ?thesis using w0 s0 K'(1,4-6) Some by (intro exI [of _ ws] exI [of _ K']) auto
  qed
qed

lemma sample_waiter: "waits_on sample_kernel 34 ws \<Longrightarrow> ws = [\<lparr>vw_item = 3, vw_mask = 2\<rparr>]"
proof -
  have "k_wqs sample_kernel 34 = Some (WQ_vector \<lparr>vwq_wait_q = ll_one \<lparr>vw_item = 3, vw_mask = 2\<rparr>, vwq_ready_q = ll_none\<rparr>)"
    by (simp add: sample_kernel_def)
  then show "waits_on sample_kernel 34 ws \<Longrightarrow> ws = [\<lparr>vw_item = 3, vw_mask = 2\<rparr>]"
    using ll_one_only by (fastforce simp: waits_on_def vwq_rep_def)
qed

theorem ks_signal_spec_witness:
  "\<exists>K' t. ks_signal_p sample_env sample_kernel (Some 51) 1 = Some (Returns FOS_E_SUCCESS, K')
    \<and> waits_on K' 34 [] \<and> k_procs K' = k_procs sample_kernel \<and> k_threads K' = (k_threads sample_kernel)(3 \<mapsto> t)
    \<and> woken_by_signal (k_threads sample_kernel 3) (Some t)"
proof -
  have r: "k_procs sample_kernel 51 = Some (sample_proc 1 (Some 50) ll_none ll_none (tbl_three 2 3 6) 2 33 False)"
    by (simp add: sample_kernel_def)
  have b: "bit (3 :: 32 word) 1" "bit (2 :: 32 word) 1" by (simp_all add: bit_numeral_rec)
  have w: "first_waiter 1 [\<lparr>vw_item = 3 :: addr, vw_mask = 2\<rparr>] = Some \<lparr>vw_item = 3, vw_mask = 2\<rparr>"
    "waiters_after 1 [\<lparr>vw_item = 3 :: addr, vw_mask = 2\<rparr>] = []" using b by (simp_all add: first_waiter_def waiters_after_def)
  have al: "alloc_ok (ke_al sample_env)" "\<not> oom (ke_al sample_env)" by simp_all
  have p: "pr_sig_allow (sample_proc i pa cs zs tt m q ex) = 3" "pr_sig_vec (sample_proc i pa cs zs tt m q ex) = 0"
    "pr_signal_queue (sample_proc i pa cs zs tt m q ex) = q + 1" for i pa cs zs tt m q ex by (simp_all add: sample_proc_def)
  from ks_signal_spec [OF sample_inv al r, of 1] obtain ws K' where K': "waits_on sample_kernel 34 ws"
    "ks_signal_p sample_env sample_kernel (Some 51) 1 = Some (Returns FOS_E_SUCCESS, K')" "waits_on K' 34 (waiters_after 1 ws)"
    "case first_waiter 1 ws of None \<Rightarrow> True | Some w \<Rightarrow> k_procs K' = k_procs sample_kernel
      \<and> (\<exists>t'. k_threads K' = (k_threads sample_kernel)(vw_item w \<mapsto> t') \<and> woken_by_signal (k_threads sample_kernel (vw_item w)) (Some t'))"
    using b unfolding p by (auto simp del: fun_upd_apply split: option.splits)
  from sample_waiter [OF K'(1)] K'(2-4) show ?thesis by (auto simp: w simp del: fun_upd_apply One_nat_def)
qed

text \<open>C6. Waiting for signals: a pending signal, the lowest first, is taken at once and is no longer pending;
  when none is pending the caller leaves the schedule and waits behind the threads already waiting.\<close>

theorem ks_wait_signal_spec:
  assumes inv: "kernel_inv K" and al: "alloc_ok (ke_al E)" "\<not> oom (ke_al E)" and cur: "current K = Some (a, t, r)"
    and sv: "sv \<noteq> 0"
  shows "let sid = find_signal 32 0 sv (pr_sig_vec r) in
    \<exists>K'. ks_wait_signal E K sv u_sid = Some (Returns FOS_E_SUCCESS, K') \<and>
      (if sv AND pr_sig_vec r \<noteq> 0 then
         bit sv sid \<and> bit (pr_sig_vec r) sid \<and> (\<forall>i < sid. \<not> (bit sv i \<and> bit (pr_sig_vec r) i))
         \<and> k_threads K' = (k_threads K)(a \<mapsto> t\<lparr>th_ctx := (th_ctx t)\<lparr>c_eax := 0\<rparr>\<rparr>)
         \<and> k_procs K' = (k_procs K)(th_proc t \<mapsto> r\<lparr>pr_sig_vec := unset_bit sid (pr_sig_vec r)\<rparr>)
       else
         k_procs K' = k_procs K \<and> k_threads K' = (k_threads K)(a \<mapsto> t\<lparr>th_wq := Some (pr_signal_queue r),
           th_state := THREAD_STATE_WAITING, th_wait_ctx := (th_wait_ctx t)[0 := u_sid]\<rparr>)
         \<and> (\<exists>ws. waits_on K (pr_signal_queue r) ws
              \<and> waits_on K' (pr_signal_queue r) (ws @ [\<lparr>vw_item = a, vw_mask = sv\<rparr>])))"
proof -
  obtain W S as ts rs where i: "kinv K W S as ts rs" using inv unfolding kernel_inv_def by blast
  note pl = clockedD(1,2) [OF kinvD(1) [OF i]]
  have t: "k_threads K a = Some t" and r: "k_procs K (th_proc t) = Some r" and h: "ks_head K = Some (Some a)"
    using cur by (auto simp: current_def split: Option.bind_splits)
  obtain as' where as: "as = a # as'" using kinv_head [OF i] h by (cases as) auto
  have s: "S (k_schedule K) = Some (a # as')" using pl(2) as by simp
  obtain ws where ws: "W (pr_signal_queue r) = Some (AWQ_vector ws [])"
    using kinvD(5) [OF i r] unfolding sig_ok_def by blast
  show ?thesis
  proof (cases "sv AND pr_sig_vec r = 0")
    case True
    from ks_wait_signal_blocks [OF pl(1) s t r ws al sv True, of u_sid] obtain K' where K':
      "ks_wait_signal E K sv u_sid = Some (Returns FOS_E_SUCCESS, K')"
      "placed K' (W(pr_signal_queue r \<mapsto> AWQ_vector (ws @ [\<lparr>vw_item = a, vw_mask = sv\<rparr>]) [])) (without a S)"
      "same_frame K K'" "k_threads K' = (k_threads K)(a \<mapsto> t\<lparr>th_wq := Some (pr_signal_queue r),
        th_state := THREAD_STATE_WAITING, th_wait_ctx := (th_wait_ctx t)[0 := u_sid]\<rparr>)" by auto
    have "waits_on K' (pr_signal_queue r) (ws @ [\<lparr>vw_item = a, vw_mask = sv\<rparr>])" by (rule waits_onI [OF K'(2)]) simp
    then show ?thesis using K' True waits_onI [OF pl(1) ws] by (auto simp: Let_def same_frame_def)
  next
    case False
    let ?sid = "find_signal 32 0 sv (pr_sig_vec r)"
    have "?sid < 32" using find_signal_bounds(2) [of 32 0 sv "pr_sig_vec r"] find_signal_none [of sv "pr_sig_vec r"] False by simp
    then show ?thesis
      using ks_wait_signal_pending [OF pl(1) s t r False refl, of E u_sid] False
        find_signal_found [of 32 0 sv "pr_sig_vec r"] find_signal_first [of 0 _ 32 sv "pr_sig_vec r"]
      by (auto simp: Let_def)
  qed
qed

theorem ks_wait_signal_spec_witness:
  "\<exists>K'. ks_wait_signal sample_env sample_kernel 3 0 = Some (Returns FOS_E_SUCCESS, K')"
proof -
  have "\<exists>t r. current sample_kernel = Some (1, t, r)" by (rule sample_current)
  then show ?thesis using ks_wait_signal_spec [OF sample_inv, of sample_env 1 _ _ 3 0] sample_env_ok
    by (fastforce simp: env_ok_def Let_def)
qed

section \<open>Sleeping\<close>

text \<open>C8. A thread that sleeps for \<open>n\<close> ticks, \<open>n\<close> not 0, is asleep until the \<open>n\<close>-th tick after its call and on the schedule
  again, with its registers unchanged, right after that tick, whatever permitted steps the other threads take in
  between and wherever the clock stands, as long as memory does not run out and the tick hooks of the plugins
  leave sleeping and scheduled threads alone; and the next tick can always be taken.\<close>

theorem sleep_wakes_on_time:
  assumes inv: "kernel_inv K" and env: "env_ok E" and hooks: "tick_hooks_ok E"
    and cur: "current K = Some (a, t, r)" and n: "ticks \<noteq> 0"
  shows "\<exists>K0. ks_sleep_thread E K ticks = Some (Returns FOS_E_SUCCESS, K0)
    \<and> (\<forall>evs K'. krun E evs K0 = Some K' \<and> count_list evs Tick < unat ticks \<longrightarrow>
         (\<exists>t'. k_threads K' a = Some t' \<and> th_state t' = THREAD_STATE_WAITING) \<and> (\<exists>K''. kstep E Tick K' = Some K''))
    \<and> (\<forall>evs K'. krun E (evs @ [Tick]) K0 = Some K' \<and> Suc (count_list evs Tick) = unat ticks \<longrightarrow>
         (\<exists>t'. k_threads K' a = Some t' \<and> th_state t' = THREAD_STATE_SCHEDULED \<and> th_ctx t' = th_ctx t))"
proof -
  let ?p = "\<lparr>tw_item = a, tw_wake_time = k_curr_tick K + ticks\<rparr>"
  let ?t = "t\<lparr>th_wq := Some (k_sleep_q K), th_state := THREAD_STATE_WAITING\<rparr>"
  obtain ws rs where at: "kernel_at K ws rs" using inv unfolding kernel_inv_at by blast
  have al: "alloc_ok (ke_al E)" "\<not> oom (ke_al E)" using env by (simp_all add: env_ok_def)
  have h: "ks_head K = Some (Some a)" "k_threads K a = Some t"
    using cur by (auto simp: current_def split: Option.bind_splits)
  from ks_sleep_inv [OF at al, of ticks] h n obtain K0 ws' rs' where K0:
    "ks_sleep_thread E K ticks = Some (Returns FOS_E_SUCCESS, K0)" "kernel_at K0 ws' rs'" "undisturbed K K0"
    "k_threads K0 a = Some ?t" "?p \<in> set ws'" by (auto simp: answer_def)
  then have s: "sleeps K0 ?p ?t" unfolding sleeps_def undisturbed_def by auto
  have left: "ticks_left (k_curr_tick K0) ?p = unat ticks" using K0(3) by (simp add: undisturbed_def ticks_left_def)
  have "(\<exists>t'. k_threads K' a = Some t' \<and> th_state t' = THREAD_STATE_WAITING) \<and> (\<exists>K''. kstep E Tick K' = Some K'')"
    if run: "krun E evs K0 = Some K'" "count_list evs Tick < unat ticks" for evs K'
  proof -
    have "sleeps K' ?p ?t" using sleeps_run [OF s env hooks run(1)] run(2) left by simp
    then have "kernel_inv K'" "k_threads K' a = Some ?t" unfolding kernel_inv_at sleeps_def by auto
    then show ?thesis using kstep_inv [OF _ env, of K' Tick] by auto
  qed
  moreover have "\<exists>t'. k_threads K' a = Some t' \<and> th_state t' = THREAD_STATE_SCHEDULED \<and> th_ctx t' = th_ctx t"
    if run: "krun E (evs @ [Tick]) K0 = Some K'" "Suc (count_list evs Tick) = unat ticks" for evs K'
    using sleeper_wakes [OF s env hooks run(1)] run(2) left by (auto simp: put_on_def)
  ultimately show ?thesis using K0(1) by blast
qed

theorem sleep_wakes_on_time_witness:
  "\<exists>K0 K' t'. ks_sleep_thread sample_env sample_kernel 3 = Some (Returns FOS_E_SUCCESS, K0)
    \<and> krun sample_env [Tick, Tick, Tick] K0 = Some K' \<and> k_threads K' 1 = Some t' \<and> th_state t' = THREAD_STATE_SCHEDULED"
proof -
  obtain t r where cur: "current sample_kernel = Some (1, t, r)" using sample_current by blast
  have hooks: "tick_hooks_ok sample_env" by (simp add: tick_hooks_ok_def sample_env_def)
  have n: "(3 :: 32 word) \<noteq> 0" by simp
  from sleep_wakes_on_time [OF sample_inv sample_env_ok hooks cur n] obtain K0 where
    K0: "ks_sleep_thread sample_env sample_kernel 3 = Some (Returns FOS_E_SUCCESS, K0)"
    and next_tick: "\<And>evs K'. krun sample_env evs K0 = Some K' \<Longrightarrow> count_list evs Tick < unat (3 :: 32 word) \<Longrightarrow>
      \<exists>K''. kstep sample_env Tick K' = Some K''"
    and wakes: "\<And>evs K'. krun sample_env (evs @ [Tick]) K0 = Some K' \<Longrightarrow> Suc (count_list evs Tick) = unat (3 :: 32 word) \<Longrightarrow>
      \<exists>t'. k_threads K' 1 = Some t' \<and> th_state t' = THREAD_STATE_SCHEDULED" by blast
  have three: "unat (3 :: 32 word) = 3" by simp
  obtain K1 where K1: "krun sample_env [Tick] K0 = Some K1" using next_tick [of "[]" K0] three by auto
  obtain K2 where K2: "krun sample_env [Tick, Tick] K0 = Some K2" using next_tick [OF K1] K1 three by (auto split: Option.bind_splits)
  obtain K3 where K3: "krun sample_env ([Tick, Tick] @ [Tick]) K0 = Some K3"
    using next_tick [OF K2] K2 three by (auto split: Option.bind_splits)
  from wakes [OF K3] three K0 K3 show ?thesis by simp
qed

section \<open>System calls that bring the machine down\<close>

lemma current_saved:
  assumes "current K = Some (a, t, r)"
  shows "\<exists>K1. ks_save_ctx K ctx = Some K1 \<and> current K1 = Some (a, t\<lparr>th_ctx := ctx\<rparr>, r)
    \<and> k_procs K1 = k_procs K \<and> k_proc_table K1 = k_proc_table K \<and> k_plugins K1 = k_plugins K"
  using assms
  by (intro exI [of _ "set_thread a (t\<lparr>th_ctx := ctx\<rparr>) K"])
    (auto simp: current_def ks_save_ctx_def ks_head_def upd_thread_def split: Option.bind_splits)

lemma current_with: "current K = Some (a, t, r) \<Longrightarrow> with_current K f = f a t"
  by (auto simp: current_def with_current_def split: Option.bind_splits)

lemma currentD:
  "current K = Some (a, t, r) \<Longrightarrow> ks_head K = Some (Some a) \<and> k_threads K a = Some t \<and> k_procs K (th_proc t) = Some r"
  by (auto simp: current_def split: Option.bind_splits)

text \<open>C9. A signal number of 32 or more is not answered with an error to the caller: the error goes to the
  dispatcher of system calls, which shuts the system down, whoever the caller is.\<close>

theorem bad_signal_shuts_down:
  assumes cur: "current K = Some (a, t, r)" and p: "idtb_get (k_proc_table K) (unat pid) = Some (Some p)"
    and pid: "unat pid \<noteq> fc_max_procs E" and sid: "32 \<le> sid"
  shows "\<exists>K'. fos_syscall_action E s K ctx 0x90 pid sid a2 a3 = Some (Shutdown, K')"
proof -
  obtain K1 where K1: "ks_save_ctx K ctx = Some K1" "current K1 = Some (a, t\<lparr>th_ctx := ctx\<rparr>, r)"
    "k_proc_table K1 = k_proc_table K" using current_saved [OF cur] by blast
  have "32 \<le> unat sid" using sid by (simp add: word_le_nat_alt)
  then have "ks_signal E K1 (unat pid) (unat sid) = Some (Returns FOS_E_BAD_ARGS, K1)"
    using p pid K1(3) by (simp add: ks_signal_def current_with [OF K1(2)] ks_signal_p_def ks_signal_with_def)
  then show ?thesis using K1(1) by (simp add: fos_syscall_action_def syscall_def finish_def)
qed

theorem bad_signal_shuts_down_witness:
  "\<exists>K'. fos_syscall_action sample_env 0 sample_kernel null_ctx 0x90 1 32 0 0 = Some (Shutdown, K')"
proof -
  have "\<exists>t r. current sample_kernel = Some (1, t, r)" by (rule sample_current)
  moreover have "idtb_get (k_proc_table sample_kernel) (unat (1 :: 32 word)) = Some (Some 51)"
    using idtb_get_ok [OF tbl_reps(3) [THEN idtb_okI], of 50 51 52 1] by (simp add: sample_kernel_def tbl_views)
  moreover have "unat (1 :: 32 word) \<noteq> fc_max_procs sample_env" by (simp add: sample_env_def)
  ultimately show ?thesis using bad_signal_shuts_down [of sample_kernel 1 _ _ 1 51 sample_env 32 0 null_ctx 0 0] by auto
qed

text \<open>A plugin command whose plugin number is not below the number of plugins reads the plugin table out
  of bounds: nothing checks the number that the caller put into the system-call number.\<close>

theorem plugin_id_unchecked:
  assumes cur: "current K = Some (a, t, r)" and id: "length (k_plugins K) \<le> unat (h AND 0xFF)"
  shows "fos_syscall_action E s K ctx (plugin_cmd_scid h c) a0 a1 a2 a3 = None"
proof -
  obtain K1 where K1: "ks_save_ctx K ctx = Some K1" "current K1 = Some (a, t\<lparr>th_ctx := ctx\<rparr>, r)"
    "k_plugins K1 = k_plugins K" using current_saved [OF cur] by blast
  have h: "ks_head K1 = Some (Some a)" using currentD [OF K1(2)] by simp
  have kinds: "\<not> scid_is_handle_cmd (plugin_cmd_scid h c)" "scid_is_plugin_cmd (plugin_cmd_scid h c)"
    and ext: "plugin_scid_extract (plugin_cmd_scid h c) = (h AND 0xFF, c)"
    using plugin_scid_facts [of h c] scid_prefixes by (auto simp: scid_is_handle_cmd_def scid_is_plugin_cmd_def)
  note big [simp] = large_scid [OF plugin_scid_facts(3) [of h c]]
  show ?thesis using K1(1,3) h id kinds ext
    by (simp add: fos_syscall_action_def syscall_def plugin_cmd_def arr_get_def)
qed

theorem plugin_id_unchecked_witness:
  "fos_syscall_action sample_env 0 sample_kernel null_ctx (plugin_cmd_scid 200 1) 0 0 0 0 = None"
proof -
  have "\<exists>t r. current sample_kernel = Some (1, t, r)" by (rule sample_current)
  moreover have "length (k_plugins sample_kernel) \<le> unat (200 AND 0xFF :: 32 word)"
    by (simp add: sample_kernel_def)
  ultimately show ?thesis using plugin_id_unchecked by blast
qed

text \<open>The number of a handle command carries the handle and the command, and that of a plugin command the
  plugin and the command; the three kinds of system call are told apart by the number.\<close>

theorem scid_roundtrip:
  "handle_scid_extract (handle_cmd_scid h c) = (h AND 0xFF, c)
   \<and> plugin_scid_extract (plugin_cmd_scid h c) = (h AND 0xFF, c)
   \<and> scid_is_handle_cmd (handle_cmd_scid h c) \<and> \<not> scid_is_plugin_cmd (handle_cmd_scid h c)
   \<and> scid_is_plugin_cmd (plugin_cmd_scid h c) \<and> \<not> scid_is_handle_cmd (plugin_cmd_scid h c)
   \<and> \<not> scid_is_vanilla (handle_cmd_scid h c) \<and> \<not> scid_is_vanilla (plugin_cmd_scid h c)"
  using plugin_scid_facts [of h c] handle_scid_facts [of h c] scid_prefixes
  by (simp add: scid_is_handle_cmd_def scid_is_plugin_cmd_def scid_is_vanilla_def)

end
