(* ===== verification/Block_Device.thy ===== *)
theory Block_Device imports Byte_Cells begin

text \<open>
  The block device interface (\<^verbatim>\<open>s_block_device/block_device.h\<close>), its contract, and the device that
  keeps its sectors in memory (\<^verbatim>\<open>s_block_device/src/mem_block_device.c\<close>).
\<close>

section \<open>The operation table\<close>

text \<open>
  A buffer argument is a pointer (\<open>None\<close> is NULL); reading returns the buffer as the call leaves it.
  A device of type \<open>'b\<close> is changed by each operation.
\<close>

record 'b bd_impl =
  bdi_num_sectors :: "'b \<Rightarrow> nat"
  bdi_sector_size :: "'b \<Rightarrow> nat"
  bdi_read :: "'b \<Rightarrow> nat \<Rightarrow> nat \<Rightarrow> bytes option \<Rightarrow> (fernos_error \<times> bytes option \<times> 'b) option"
  bdi_write :: "'b \<Rightarrow> nat \<Rightarrow> nat \<Rightarrow> bytes option \<Rightarrow> (fernos_error \<times> 'b) option"
  bdi_read_piece :: "'b \<Rightarrow> nat \<Rightarrow> nat \<Rightarrow> nat \<Rightarrow> bytes option \<Rightarrow> (fernos_error \<times> bytes option \<times> 'b) option"
  bdi_write_piece :: "'b \<Rightarrow> nat \<Rightarrow> nat \<Rightarrow> nat \<Rightarrow> bytes option \<Rightarrow> (fernos_error \<times> 'b) option"
  bdi_flush :: "('b \<Rightarrow> (fernos_error \<times> 'b) option) option"

definition bd_flush :: "'b bd_impl \<Rightarrow> 'b \<Rightarrow> (fernos_error \<times> 'b) option" where
  "bd_flush I b = (case bdi_flush I of None \<Rightarrow> Some (FOS_E_SUCCESS, b) | Some f \<Rightarrow> f b)"

text \<open>The buffer that starts \<open>off\<close> bytes into another.\<close>

definition buf_from :: "bytes \<Rightarrow> nat \<Rightarrow> bytes option" where
  "buf_from buf off = (if off \<le> length buf then Some (drop off buf) else None)"

lemma buf_from_in [simp]: "off \<le> length buf \<Longrightarrow> buf_from buf off = Some (drop off buf)"
  by (simp add: buf_from_def)

lemma buf_read_in [simp]: "off + n \<le> length buf \<Longrightarrow> buf_read buf off n = Some (take n (drop off buf))"
  by (simp add: buf_read_def)

definition patch :: "nat \<Rightarrow> bytes \<Rightarrow> bytes \<Rightarrow> bytes" where
  "patch off v buf = take off buf @ v @ drop (off + length v) buf"

lemma buf_write_in [simp]: "off + length v \<le> length buf \<Longrightarrow> buf_write buf off v = Some (patch off v buf)"
  by (simp add: buf_write_def patch_def)

lemma length_patch [simp]: "off + length v \<le> length buf \<Longrightarrow> length (patch off v buf) = length buf"
  by (simp add: patch_def)

lemma patch_0: "patch 0 v buf = v @ drop (length v) buf"
  by (simp add: patch_def)

section \<open>The contract\<close>

text \<open>The checks of every operation, on 32-bit sizes.\<close>

definition sectors_bad :: "nat \<Rightarrow> nat \<Rightarrow> nat \<Rightarrow> bool" where
  "sectors_bad ns si n \<longleftrightarrow> ns \<le> si \<or> ns < (si + n) mod 2 ^ 32 \<or> (si + n) mod 2 ^ 32 < si"

definition piece_bad :: "nat \<Rightarrow> nat \<Rightarrow> nat \<Rightarrow> nat \<Rightarrow> nat \<Rightarrow> bool" where
  "piece_bad ns ss si off len \<longleftrightarrow>
     ns \<le> si \<or> ss \<le> off \<or> ss < (off + len) mod 2 ^ 32 \<or> (off + len) mod 2 ^ 32 < off"

lemma wrap_check:
  fixes a b m :: nat
  assumes "a < 2 ^ 32" and "b < 2 ^ 32" and "m < 2 ^ 32"
  shows "m < (a + b) mod 2 ^ 32 \<or> (a + b) mod 2 ^ 32 < a \<longleftrightarrow> m < a + b"
proof (cases "a + b < 2 ^ 32")
  case False
  then have "(a + b) mod 2 ^ 32 = a + b - 2 ^ 32" using assms by (simp add: mod_if)
  then show ?thesis using assms False by linarith
qed auto

lemma sectors_bad_iff:
  "si < 2 ^ 32 \<Longrightarrow> n < 2 ^ 32 \<Longrightarrow> ns < 2 ^ 32 \<Longrightarrow> sectors_bad ns si n \<longleftrightarrow> ns \<le> si \<or> ns < si + n"
  unfolding sectors_bad_def using wrap_check [of si n ns] by blast

lemma piece_bad_iff:
  "off < 2 ^ 32 \<Longrightarrow> len < 2 ^ 32 \<Longrightarrow> ss < 2 ^ 32 \<Longrightarrow> piece_bad ns ss si off len \<longleftrightarrow> ns \<le> si \<or> ss \<le> off \<or> ss < off + len"
  unfolding piece_bad_def using wrap_check [of off len ss] by blast

text \<open>
  The abstract state is the list of sectors.  Operations on NULL buffers and on ranges outside the
  device answer with an error and change nothing; the others do what they say and do not fail.
\<close>

locale block_device =
  fixes I :: "'b bd_impl" and inv :: "'b \<Rightarrow> bytes list \<Rightarrow> bool"
  assumes geometry: "inv b secs \<Longrightarrow> bdi_num_sectors I b = length secs \<and> 0 < bdi_sector_size I b
      \<and> length secs < 2 ^ 32 \<and> bdi_sector_size I b < 2 ^ 32 \<and> (\<forall>s\<in>set secs. length s = bdi_sector_size I b)"
    and read_null: "inv b secs \<Longrightarrow> bdi_read I b si n None = Some (FOS_E_BAD_ARGS, None, b)"
    and read_bad: "inv b secs \<Longrightarrow> sectors_bad (length secs) si n \<Longrightarrow>
      bdi_read I b si n (Some d) = Some (FOS_E_INVALID_RANGE, Some d, b)"
    and read_ok: "inv b secs \<Longrightarrow> si < length secs \<Longrightarrow> si + n \<le> length secs \<Longrightarrow> n * bdi_sector_size I b \<le> length d \<Longrightarrow>
      length d < 2 ^ 32 \<Longrightarrow>
      \<exists>b'. bdi_read I b si n (Some d) =
          Some (FOS_E_SUCCESS, Some (concat (take n (drop si secs)) @ drop (n * bdi_sector_size I b) d), b')
        \<and> inv b' secs \<and> bdi_sector_size I b' = bdi_sector_size I b"
    and write_null: "inv b secs \<Longrightarrow> bdi_write I b si n None = Some (FOS_E_BAD_ARGS, b)"
    and write_bad: "inv b secs \<Longrightarrow> sectors_bad (length secs) si n \<Longrightarrow>
      bdi_write I b si n (Some s) = Some (FOS_E_INVALID_RANGE, b)"
    and write_ok: "inv b secs \<Longrightarrow> si < length secs \<Longrightarrow> si + n \<le> length secs \<Longrightarrow> n * bdi_sector_size I b \<le> length s \<Longrightarrow>
      length s < 2 ^ 32 \<Longrightarrow>
      \<exists>b'. bdi_write I b si n (Some s) = Some (FOS_E_SUCCESS, b')
        \<and> inv b' (take si secs @ cells (bdi_sector_size I b) n s @ drop (si + n) secs)
        \<and> bdi_sector_size I b' = bdi_sector_size I b"
    and read_piece_null: "inv b secs \<Longrightarrow> bdi_read_piece I b si off len None = Some (FOS_E_BAD_ARGS, None, b)"
    and read_piece_bad: "inv b secs \<Longrightarrow> piece_bad (length secs) (bdi_sector_size I b) si off len \<Longrightarrow>
      bdi_read_piece I b si off len (Some d) = Some (FOS_E_INVALID_RANGE, Some d, b)"
    and read_piece_ok: "inv b secs \<Longrightarrow> si < length secs \<Longrightarrow> off < bdi_sector_size I b \<Longrightarrow>
      off + len \<le> bdi_sector_size I b \<Longrightarrow> len \<le> length d \<Longrightarrow>
      \<exists>b'. bdi_read_piece I b si off len (Some d) =
          Some (FOS_E_SUCCESS, Some (take len (drop off (secs ! si)) @ drop len d), b')
        \<and> inv b' secs \<and> bdi_sector_size I b' = bdi_sector_size I b"
    and write_piece_null: "inv b secs \<Longrightarrow> bdi_write_piece I b si off len None = Some (FOS_E_BAD_ARGS, b)"
    and write_piece_bad: "inv b secs \<Longrightarrow> piece_bad (length secs) (bdi_sector_size I b) si off len \<Longrightarrow>
      bdi_write_piece I b si off len (Some s) = Some (FOS_E_INVALID_RANGE, b)"
    and write_piece_ok: "inv b secs \<Longrightarrow> si < length secs \<Longrightarrow> off < bdi_sector_size I b \<Longrightarrow>
      off + len \<le> bdi_sector_size I b \<Longrightarrow> len \<le> length s \<Longrightarrow>
      \<exists>b'. bdi_write_piece I b si off len (Some s) = Some (FOS_E_SUCCESS, b')
        \<and> inv b' (secs[si := patch off (take len s) (secs ! si)]) \<and> bdi_sector_size I b' = bdi_sector_size I b"
    and flush_ok: "inv b secs \<Longrightarrow>
      \<exists>b'. bd_flush I b = Some (FOS_E_SUCCESS, b') \<and> inv b' secs \<and> bdi_sector_size I b' = bdi_sector_size I b"
begin

lemma sector_length: "inv b secs \<Longrightarrow> i < length secs \<Longrightarrow> length (secs ! i) = bdi_sector_size I b"
  using geometry nth_mem by blast

lemma read_one:
  assumes "inv b secs" and "i < length secs" and "length d = bdi_sector_size I b"
  shows "\<exists>b'. bdi_read I b i 1 (Some d) = Some (FOS_E_SUCCESS, Some (secs ! i), b') \<and> inv b' secs
    \<and> bdi_sector_size I b' = bdi_sector_size I b"
  using read_ok [OF assms(1,2), of 1 d] assms geometry [OF assms(1)] by (simp add: Suc_leI take_Suc_conv_app_nth [of 0] hd_drop_conv_nth take_Suc)

lemma write_one:
  assumes "inv b secs" and "i < length secs" and "length s = bdi_sector_size I b"
  shows "\<exists>b'. bdi_write I b i 1 (Some s) = Some (FOS_E_SUCCESS, b') \<and> inv b' (secs[i := s])
    \<and> bdi_sector_size I b' = bdi_sector_size I b"
  using write_ok [OF assms(1,2), of 1 s] assms geometry [OF assms(1)]
  by (simp add: Suc_leI cells_def upd_conv_take_nth_drop)

end

section \<open>Programs on a device\<close>

datatype bd_op =
    BD_Read nat nat "bytes option"
  | BD_Write nat nat "bytes option"
  | BD_Read_Piece nat nat nat "bytes option"
  | BD_Write_Piece nat nat nat "bytes option"
  | BD_Flush

text \<open>The answer to an operation: the error code and the buffer read into.\<close>

fun bd_step :: "'b bd_impl \<Rightarrow> bd_op \<Rightarrow> 'b \<Rightarrow> ((fernos_error \<times> bytes option) \<times> 'b) option" where
  "bd_step I (BD_Read si n d) b = map_option (\<lambda>(e, d, b). ((e, d), b)) (bdi_read I b si n d)"
| "bd_step I (BD_Write si n s) b = map_option (\<lambda>(e, b). ((e, None), b)) (bdi_write I b si n s)"
| "bd_step I (BD_Read_Piece si off len d) b = map_option (\<lambda>(e, d, b). ((e, d), b)) (bdi_read_piece I b si off len d)"
| "bd_step I (BD_Write_Piece si off len s) b = map_option (\<lambda>(e, b). ((e, None), b)) (bdi_write_piece I b si off len s)"
| "bd_step I BD_Flush b = map_option (\<lambda>(e, b). ((e, None), b)) (bd_flush I b)"

fun bd_run :: "'b bd_impl \<Rightarrow> bd_op list \<Rightarrow> 'b \<Rightarrow> ((fernos_error \<times> bytes option) list \<times> 'b) option" where
  "bd_run I [] b = Some ([], b)"
| "bd_run I (x # xs) b = do {
     (a, b) \<leftarrow> bd_step I x b;
     (as, b) \<leftarrow> bd_run I xs b;
     Some (a # as, b) }"

text \<open>The same on the list of sectors.\<close>

fun disk_step :: "nat \<Rightarrow> bd_op \<Rightarrow> bytes list \<Rightarrow> (fernos_error \<times> bytes option) \<times> bytes list" where
  "disk_step ss (BD_Read si n d) secs =
     (case d of None \<Rightarrow> ((FOS_E_BAD_ARGS, None), secs)
      | Some d \<Rightarrow> if sectors_bad (length secs) si n then ((FOS_E_INVALID_RANGE, Some d), secs)
          else ((FOS_E_SUCCESS, Some (concat (take n (drop si secs)) @ drop (n * ss) d)), secs))"
| "disk_step ss (BD_Write si n s) secs =
     (case s of None \<Rightarrow> ((FOS_E_BAD_ARGS, None), secs)
      | Some s \<Rightarrow> if sectors_bad (length secs) si n then ((FOS_E_INVALID_RANGE, None), secs)
          else ((FOS_E_SUCCESS, None), take si secs @ cells ss n s @ drop (si + n) secs))"
| "disk_step ss (BD_Read_Piece si off len d) secs =
     (case d of None \<Rightarrow> ((FOS_E_BAD_ARGS, None), secs)
      | Some d \<Rightarrow> if piece_bad (length secs) ss si off len then ((FOS_E_INVALID_RANGE, Some d), secs)
          else ((FOS_E_SUCCESS, Some (take len (drop off (secs ! si)) @ drop len d)), secs))"
| "disk_step ss (BD_Write_Piece si off len s) secs =
     (case s of None \<Rightarrow> ((FOS_E_BAD_ARGS, None), secs)
      | Some s \<Rightarrow> if piece_bad (length secs) ss si off len then ((FOS_E_INVALID_RANGE, None), secs)
          else ((FOS_E_SUCCESS, None), secs[si := patch off (take len s) (secs ! si)]))"
| "disk_step ss BD_Flush secs = ((FOS_E_SUCCESS, None), secs)"

fun disk_run :: "nat \<Rightarrow> bd_op list \<Rightarrow> bytes list \<Rightarrow> (fernos_error \<times> bytes option) list \<times> bytes list" where
  "disk_run ss [] secs = ([], secs)"
| "disk_run ss (x # xs) secs =
     (let (a, secs) = disk_step ss x secs; (as, secs) = disk_run ss xs secs in (a # as, secs))"

text \<open>Arguments are 32-bit sizes, and a buffer is as long as the range it is for.\<close>

fun buffer_ok :: "nat \<Rightarrow> bytes option \<Rightarrow> bool" where
  "buffer_ok n None = True"
| "buffer_ok n (Some d) = (n \<le> length d \<and> length d < 2 ^ 32)"

fun op_ok :: "nat \<Rightarrow> bd_op \<Rightarrow> bool" where
  "op_ok ss (BD_Read si n d) = (si < 2 ^ 32 \<and> n < 2 ^ 32 \<and> buffer_ok (n * ss) d)"
| "op_ok ss (BD_Write si n s) = (si < 2 ^ 32 \<and> n < 2 ^ 32 \<and> buffer_ok (n * ss) s)"
| "op_ok ss (BD_Read_Piece si off len d) = (off < 2 ^ 32 \<and> len < 2 ^ 32 \<and> buffer_ok len d)"
| "op_ok ss (BD_Write_Piece si off len s) = (off < 2 ^ 32 \<and> len < 2 ^ 32 \<and> buffer_ok len s)"
| "op_ok ss BD_Flush = True"

context block_device begin

lemma step_disk:
  assumes inv: "inv b secs" and ok: "op_ok (bdi_sector_size I b) x"
  shows "\<exists>b'. bd_step I x b = Some (fst (disk_step (bdi_sector_size I b) x secs), b')
    \<and> inv b' (snd (disk_step (bdi_sector_size I b) x secs)) \<and> bdi_sector_size I b' = bdi_sector_size I b"
proof -
  note g = geometry [OF inv]
  show ?thesis
  proof (cases x)
    case (BD_Read si n d)
    show ?thesis
    proof (cases d)
      case None
      then show ?thesis using BD_Read inv read_null [OF inv] by auto
    next
      case (Some d')
      show ?thesis
      proof (cases "sectors_bad (length secs) si n")
        case True
        then show ?thesis using BD_Read Some inv read_bad [OF inv True] by auto
      next
        case False
        then show ?thesis using BD_Read Some ok g sectors_bad_iff [of si n "length secs"] read_ok [OF inv, of si n d'] by auto
      qed
    qed
  next
    case (BD_Write si n s)
    show ?thesis
    proof (cases s)
      case None
      then show ?thesis using BD_Write inv write_null [OF inv] by auto
    next
      case (Some s')
      show ?thesis
      proof (cases "sectors_bad (length secs) si n")
        case True
        then show ?thesis using BD_Write Some inv write_bad [OF inv True] by auto
      next
        case False
        then show ?thesis using BD_Write Some ok g sectors_bad_iff [of si n "length secs"] write_ok [OF inv, of si n s'] by auto
      qed
    qed
  next
    case (BD_Read_Piece si off len d)
    show ?thesis
    proof (cases d)
      case None
      then show ?thesis using BD_Read_Piece inv read_piece_null [OF inv] by auto
    next
      case (Some d')
      show ?thesis
      proof (cases "piece_bad (length secs) (bdi_sector_size I b) si off len")
        case True
        then show ?thesis using BD_Read_Piece Some inv read_piece_bad [OF inv True] by auto
      next
        case False
        then show ?thesis using BD_Read_Piece Some ok g piece_bad_iff [of off len "bdi_sector_size I b" "length secs" si]
            read_piece_ok [OF inv, of si off len d'] by auto
      qed
    qed
  next
    case (BD_Write_Piece si off len s)
    show ?thesis
    proof (cases s)
      case None
      then show ?thesis using BD_Write_Piece inv write_piece_null [OF inv] by auto
    next
      case (Some s')
      show ?thesis
      proof (cases "piece_bad (length secs) (bdi_sector_size I b) si off len")
        case True
        then show ?thesis using BD_Write_Piece Some inv write_piece_bad [OF inv True] by auto
      next
        case False
        then show ?thesis using BD_Write_Piece Some ok g piece_bad_iff [of off len "bdi_sector_size I b" "length secs" si]
            write_piece_ok [OF inv, of si off len s'] by auto
      qed
    qed
  next
    case BD_Flush
    then show ?thesis using flush_ok [OF inv] by auto
  qed
qed

text \<open>Whatever the device, a program gets the answers of the list of sectors.\<close>

lemma run_disk:
  assumes "inv b secs" and "\<forall>x\<in>set xs. op_ok (bdi_sector_size I b) x"
  shows "\<exists>b'. bd_run I xs b = Some (fst (disk_run (bdi_sector_size I b) xs secs), b')
    \<and> inv b' (snd (disk_run (bdi_sector_size I b) xs secs)) \<and> bdi_sector_size I b' = bdi_sector_size I b"
  using assms
proof (induction xs arbitrary: b secs)
  case (Cons x xs)
  obtain b1 where b1: "bd_step I x b = Some (fst (disk_step (bdi_sector_size I b) x secs), b1)"
    "inv b1 (snd (disk_step (bdi_sector_size I b) x secs))" "bdi_sector_size I b1 = bdi_sector_size I b"
    using step_disk [OF Cons.prems(1)] Cons.prems(2) by auto
  from Cons.IH [OF b1(2)] Cons.prems(2) b1(1,3) show ?case
    by (auto simp: case_prod_beta Let_def)
qed simp

end

end
