(* ===== verification/Mem_Block_Device.thy ===== *)
theory Mem_Block_Device imports Block_Device begin

text \<open>
  The block device in memory (\<^verbatim>\<open>s_block_device/src/mem_block_device.c\<close>).
\<close>

record mbd =
  mbd_sector_size :: nat
  mbd_num_sectors :: nat
  mbd_mem :: bytes

text \<open>\<open>ok\<close> and \<open>mem\<close> are the answers of the allocator, the second with the content of the block.\<close>

definition new_mem_block_device :: "bool \<Rightarrow> bool \<Rightarrow> (nat \<Rightarrow> bytes option) \<Rightarrow> nat \<Rightarrow> nat \<Rightarrow> mbd option" where
  "new_mem_block_device al_nonnull ok mem ss ns =
     (if \<not> al_nonnull \<or> ss = 0 \<or> ns = 0 then None
      else case mem (ss * ns mod 2 ^ 32) of
        None \<Rightarrow> None
      | Some m \<Rightarrow> if \<not> ok then None else Some \<lparr>mbd_sector_size = ss, mbd_num_sectors = ns, mbd_mem = m\<rparr>)"

definition mbd_read :: "mbd \<Rightarrow> nat \<Rightarrow> nat \<Rightarrow> bytes option \<Rightarrow> (fernos_error \<times> bytes option \<times> mbd) option" where
  "mbd_read b sector_ind num_sectors dest =
     (case dest of
        None \<Rightarrow> Some (FOS_E_BAD_ARGS, None, b)
      | Some d \<Rightarrow>
        if sectors_bad (mbd_num_sectors b) sector_ind num_sectors then Some (FOS_E_INVALID_RANGE, Some d, b)
        else if 0 < num_sectors then do {
          w \<leftarrow> buf_read (mbd_mem b) (sector_ind * mbd_sector_size b mod 2 ^ 32) (num_sectors * mbd_sector_size b mod 2 ^ 32);
          d \<leftarrow> buf_write d 0 w;
          Some (FOS_E_SUCCESS, Some d, b) }
        else Some (FOS_E_SUCCESS, Some d, b))"

definition mbd_write :: "mbd \<Rightarrow> nat \<Rightarrow> nat \<Rightarrow> bytes option \<Rightarrow> (fernos_error \<times> mbd) option" where
  "mbd_write b sector_ind num_sectors src =
     (case src of
        None \<Rightarrow> Some (FOS_E_BAD_ARGS, b)
      | Some s \<Rightarrow>
        if sectors_bad (mbd_num_sectors b) sector_ind num_sectors then Some (FOS_E_INVALID_RANGE, b)
        else if 0 < num_sectors then do {
          w \<leftarrow> buf_read s 0 (num_sectors * mbd_sector_size b mod 2 ^ 32);
          m \<leftarrow> buf_write (mbd_mem b) (sector_ind * mbd_sector_size b mod 2 ^ 32) w;
          Some (FOS_E_SUCCESS, b\<lparr>mbd_mem := m\<rparr>) }
        else Some (FOS_E_SUCCESS, b))"

definition mbd_read_piece ::
  "mbd \<Rightarrow> nat \<Rightarrow> nat \<Rightarrow> nat \<Rightarrow> bytes option \<Rightarrow> (fernos_error \<times> bytes option \<times> mbd) option"
where
  "mbd_read_piece b sector_ind offset len dest =
     (case dest of
        None \<Rightarrow> Some (FOS_E_BAD_ARGS, None, b)
      | Some d \<Rightarrow>
        if piece_bad (mbd_num_sectors b) (mbd_sector_size b) sector_ind offset len
        then Some (FOS_E_INVALID_RANGE, Some d, b)
        else if 0 < len then do {
          w \<leftarrow> buf_read (mbd_mem b) ((sector_ind * mbd_sector_size b + offset) mod 2 ^ 32) len;
          d \<leftarrow> buf_write d 0 w;
          Some (FOS_E_SUCCESS, Some d, b) }
        else Some (FOS_E_SUCCESS, Some d, b))"

definition mbd_write_piece :: "mbd \<Rightarrow> nat \<Rightarrow> nat \<Rightarrow> nat \<Rightarrow> bytes option \<Rightarrow> (fernos_error \<times> mbd) option" where
  "mbd_write_piece b sector_ind offset len src =
     (case src of
        None \<Rightarrow> Some (FOS_E_BAD_ARGS, b)
      | Some s \<Rightarrow>
        if piece_bad (mbd_num_sectors b) (mbd_sector_size b) sector_ind offset len then Some (FOS_E_INVALID_RANGE, b)
        else if 0 < len then do {
          w \<leftarrow> buf_read s 0 len;
          m \<leftarrow> buf_write (mbd_mem b) ((sector_ind * mbd_sector_size b + offset) mod 2 ^ 32) w;
          Some (FOS_E_SUCCESS, b\<lparr>mbd_mem := m\<rparr>) }
        else Some (FOS_E_SUCCESS, b))"

definition MBD_IMPL :: "mbd bd_impl" where
  "MBD_IMPL = \<lparr>bdi_num_sectors = mbd_num_sectors, bdi_sector_size = mbd_sector_size, bdi_read = mbd_read,
     bdi_write = mbd_write, bdi_read_piece = mbd_read_piece, bdi_write_piece = mbd_write_piece, bdi_flush = None\<rparr>"

section \<open>The contract\<close>

definition mbd_inv :: "mbd \<Rightarrow> bytes list \<Rightarrow> bool" where
  "mbd_inv b secs \<longleftrightarrow> 0 < mbd_sector_size b \<and> 0 < mbd_num_sectors b
     \<and> length (mbd_mem b) = mbd_sector_size b * mbd_num_sectors b \<and> length (mbd_mem b) < 2 ^ 32
     \<and> secs = cells (mbd_sector_size b) (mbd_num_sectors b) (mbd_mem b)"

lemma cells_take_drop:
  "i + n \<le> k \<Longrightarrow> cs * k \<le> length buf \<Longrightarrow> concat (take n (drop i (cells cs k buf))) = take (n * cs) (drop (i * cs) buf)"
proof (induction n arbitrary: i)
  case (Suc n)
  have "drop i (cells cs k buf) = take cs (drop (cs * i) buf) # drop (Suc i) (cells cs k buf)"
    using Suc.prems by (simp add: cells_def flip: Cons_nth_drop_Suc)
  moreover have "take cs (drop (cs * i) buf) @ take (n * cs) (drop (Suc i * cs) buf) = take (Suc n * cs) (drop (i * cs) buf)"
    by (simp add: take_add algebra_simps)
  ultimately show ?case using Suc.IH [of "Suc i"] Suc.prems by (simp add: mult.commute)
qed simp

text \<open>Writing whole cells.\<close>

lemma cells_append: "length u = cs * i \<Longrightarrow> cells cs (i + k) (u @ v) = cells cs i u @ cells cs k v"
proof -
  assume u: "length u = cs * i"
  have a: "take cs (drop (cs * j) (u @ v)) = take cs (drop (cs * j) u)" if "j < i" for j
    using cell_end [OF that, of cs] u by simp
  have b: "drop (cs * (i + j)) (u @ v) = drop (cs * j) v" for j using u by (simp add: algebra_simps)
  have r: "[0..<i + k] = [0..<i] @ map (\<lambda>j. i + j) [0..<k]" by (induction k) (simp_all)
  show ?thesis unfolding cells_def r map_append map_map comp_def b using a by (simp del: drop_append)
qed

lemma cells_take: "i \<le> k \<Longrightarrow> cells cs i (take (cs * i) buf) = take i (cells cs k buf)"
proof (rule nth_equalityI)
  fix j assume "i \<le> k" "j < length (cells cs i (take (cs * i) buf))"
  then have j: "j < i" "j < k" by simp_all
  then have "cs * j + cs \<le> cs * i" using cell_end by blast
  then show "cells cs i (take (cs * i) buf) ! j = take i (cells cs k buf) ! j"
    using j by (simp add: cells_def drop_take min_absorb1)
qed simp

lemma cells_drop: "cells cs k (drop (cs * i) buf) = drop i (cells cs (i + k) buf)"
  by (rule nth_equalityI) (simp_all add: cells_def algebra_simps)

lemma cells_patch:
  assumes "length v = cs * n" and "i + n \<le> k" and "cs * k \<le> length buf"
  shows "cells cs k (patch (cs * i) v buf) = take i (cells cs k buf) @ cells cs n v @ drop (i + n) (cells cs k buf)"
proof -
  obtain m where k: "k = i + (n + m)" using assms(2) by (metis add.assoc le_Suc_ex)
  have "cs * i \<le> length buf" using assms(3) k by (simp add: algebra_simps)
  then have "length (take (cs * i) buf) = cs * i" by simp
  then show ?thesis
    unfolding patch_def k
    using cells_append [of _ cs i "n + m"] cells_append [of v cs n m] assms(1)
      cells_take [of i "i + (n + m)" cs buf] cells_drop [of cs m "i + n" buf]
    by (simp add: algebra_simps)
qed

lemma patch_nth_cell:
  assumes "i < k" and "off + length v \<le> cs" and "cs * k \<le> length buf"
  shows "cells cs k (patch (cs * i + off) v buf) = (cells cs k buf)[i := patch off v (cells cs k buf ! i)]"
proof -
  have e: "cs * i + cs \<le> length buf" using cell_end [OF assms(1), of cs] assms(3) by simp
  let ?c = "take cs (drop (cs * i) buf)"
  have c: "cells cs k buf ! i = ?c" using assms(1) by (simp add: cells_def)
  have "take (cs * i + off) buf = take (cs * i) buf @ take off ?c"
    using assms(2) by (simp add: take_add min_absorb1)
  moreover have "drop (cs * i + off + length v) buf = drop (off + length v) ?c @ drop (cs * i + cs) buf"
  proof -
    have "drop (cs * i + cs) buf = drop (cs - (off + length v)) (drop (off + length v) (drop (cs * i) buf))"
      using assms(2) by (simp add: add.commute)
    then have "drop (off + length v) ?c @ drop (cs * i + cs) buf = drop (off + length v) (drop (cs * i) buf)"
      by (simp only: drop_take append_take_drop_id)
    then show ?thesis by (simp add: algebra_simps)
  qed
  ultimately have "patch (cs * i + off) v buf = patch (cs * i) (patch off v ?c) buf"
    using e assms(2) by (simp add: patch_def)
  moreover have l: "length (patch off v ?c) = cs * 1" using e assms(2) by simp
  ultimately show ?thesis
    unfolding c using cells_patch [OF l, of i k buf] assms(1,3) l
    by (simp add: Suc_leI cells_def upd_conv_take_nth_drop)
qed

lemma MBD_IMPL_simps [simp]:
  "bdi_num_sectors MBD_IMPL = mbd_num_sectors" "bdi_sector_size MBD_IMPL = mbd_sector_size"
  "bdi_read MBD_IMPL = mbd_read" "bdi_write MBD_IMPL = mbd_write" "bdi_read_piece MBD_IMPL = mbd_read_piece"
  "bdi_write_piece MBD_IMPL = mbd_write_piece" "bd_flush MBD_IMPL b = Some (FOS_E_SUCCESS, b)"
  by (simp_all add: MBD_IMPL_def bd_flush_def)

lemma mbd_invD:
  assumes "mbd_inv b secs"
  shows "0 < mbd_sector_size b" and "length secs = mbd_num_sectors b" and "mbd_num_sectors b < 2 ^ 32"
    and "mbd_sector_size b < 2 ^ 32" and "\<And>s. s \<in> set secs \<Longrightarrow> length s = mbd_sector_size b"
    and "length (mbd_mem b) = mbd_sector_size b * mbd_num_sectors b" and "length (mbd_mem b) < 2 ^ 32"
    and "secs = cells (mbd_sector_size b) (mbd_num_sectors b) (mbd_mem b)"
proof -
  have d: "0 < mbd_sector_size b \<and> 0 < mbd_num_sectors b
     \<and> length (mbd_mem b) = mbd_sector_size b * mbd_num_sectors b \<and> length (mbd_mem b) < 2 ^ 32
     \<and> secs = cells (mbd_sector_size b) (mbd_num_sectors b) (mbd_mem b)" using assms by (simp add: mbd_inv_def)
  have le: "a \<le> a * n" "n \<le> a * n" if "0 < a" "0 < n" for a n :: nat using that by simp_all
  show "mbd_num_sectors b < 2 ^ 32" "mbd_sector_size b < 2 ^ 32"
    using le [of "mbd_sector_size b" "mbd_num_sectors b"] d by linarith+
  show "length s = mbd_sector_size b" if "s \<in> set secs" for s
    using cells_length [of "mbd_sector_size b" "mbd_num_sectors b" "mbd_mem b" s] d that by (simp add: cells_ok_def)
qed (use assms in \<open>simp_all add: mbd_inv_def\<close>)

lemma mbd_ranges:
  assumes inv: "mbd_inv b secs" and r: "si < length secs" "si + n \<le> length secs"
  shows "\<not> sectors_bad (mbd_num_sectors b) si n"
    and "si * mbd_sector_size b mod 2 ^ 32 = si * mbd_sector_size b"
    and "n * mbd_sector_size b mod 2 ^ 32 = n * mbd_sector_size b"
    and "si * mbd_sector_size b + n * mbd_sector_size b \<le> length (mbd_mem b)"
proof -
  note i = mbd_invD [OF inv]
  show "\<not> sectors_bad (mbd_num_sectors b) si n"
    using sectors_bad_iff [of si n "mbd_num_sectors b"] r i(2,3) by simp
  have "(si + n) * mbd_sector_size b \<le> mbd_num_sectors b * mbd_sector_size b" using r i(2) by (intro mult_le_mono1) simp
  then show l: "si * mbd_sector_size b + n * mbd_sector_size b \<le> length (mbd_mem b)"
    unfolding i(6) by (simp add: algebra_simps)
  show "si * mbd_sector_size b mod 2 ^ 32 = si * mbd_sector_size b" "n * mbd_sector_size b mod 2 ^ 32 = n * mbd_sector_size b"
    using l i(7) by simp_all
qed

lemma mbd_read_law:
  assumes inv: "mbd_inv b secs" and r: "si < length secs" "si + n \<le> length secs"
    and d: "n * mbd_sector_size b \<le> length d"
  shows "mbd_read b si n (Some d) = Some (FOS_E_SUCCESS, Some (concat (take n (drop si secs)) @ drop (n * mbd_sector_size b) d), b)"
proof -
  note i = mbd_invD [OF inv] and k = mbd_ranges [OF inv r]
  have c: "concat (take n (drop si secs)) = take (n * mbd_sector_size b) (drop (si * mbd_sector_size b) (mbd_mem b))"
    unfolding i(8) by (rule cells_take_drop) (use r i(2,6) in simp_all)
  have l: "length (take (n * mbd_sector_size b) (drop (si * mbd_sector_size b) (mbd_mem b))) = n * mbd_sector_size b"
    using k(4) by simp
  show ?thesis using k d l by (cases "n = 0") (simp_all add: mbd_read_def c patch_0 del: length_take)
qed

lemma mbd_write_law:
  assumes inv: "mbd_inv b secs" and r: "si < length secs" "si + n \<le> length secs"
    and s: "n * mbd_sector_size b \<le> length s"
  shows "\<exists>b'. mbd_write b si n (Some s) = Some (FOS_E_SUCCESS, b')
    \<and> mbd_inv b' (take si secs @ cells (mbd_sector_size b) n s @ drop (si + n) secs)
    \<and> mbd_sector_size b' = mbd_sector_size b"
proof (cases "n = 0")
  case True
  then show ?thesis using inv mbd_ranges(1) [OF inv r] by (simp add: mbd_write_def cells_def)
next
  case False
  note i = mbd_invD [OF inv] and k = mbd_ranges [OF inv r]
  let ?ss = "mbd_sector_size b" and ?w = "take (n * mbd_sector_size b) s"
  let ?b = "b\<lparr>mbd_mem := patch (si * ?ss) ?w (mbd_mem b)\<rparr>"
  have w: "length ?w = ?ss * n" using s by (simp add: mult.commute)
  have "cells ?ss n ?w = cells ?ss n s" using cells_take [of n n ?ss s] by (simp add: mult.commute)
  then have "cells ?ss (mbd_num_sectors b) (patch (si * ?ss) ?w (mbd_mem b))
      = take si secs @ cells ?ss n s @ drop (si + n) secs"
    unfolding i(8) using cells_patch [OF w, of si "mbd_num_sectors b" "mbd_mem b"] r i(2,6) by (simp add: mult.commute)
  moreover have "length (patch (si * ?ss) ?w (mbd_mem b)) = length (mbd_mem b)"
    using k(4) w by (intro length_patch) (simp add: mult.commute)
  ultimately have "mbd_inv ?b (take si secs @ cells ?ss n s @ drop (si + n) secs)"
    using inv i(7) by (simp add: mbd_inv_def)
  moreover have "mbd_write b si n (Some s) = Some (FOS_E_SUCCESS, ?b)"
    using k s False by (simp add: mbd_write_def)
  ultimately show ?thesis by simp
qed

text \<open>A piece of one sector.\<close>

lemma mbd_piece:
  assumes inv: "mbd_inv b secs" and r: "si < length secs" "off < mbd_sector_size b" "off + len \<le> mbd_sector_size b"
  shows "\<not> piece_bad (mbd_num_sectors b) (mbd_sector_size b) si off len"
    and "(si * mbd_sector_size b + off) mod 2 ^ 32 = si * mbd_sector_size b + off"
    and "si * mbd_sector_size b + off + len \<le> length (mbd_mem b)"
proof -
  note i = mbd_invD [OF inv]
  show "\<not> piece_bad (mbd_num_sectors b) (mbd_sector_size b) si off len"
    using piece_bad_iff [of off len "mbd_sector_size b"] r i(2,4) by simp
  have "mbd_sector_size b * si + mbd_sector_size b \<le> length (mbd_mem b)"
    unfolding i(6) using r(1) i(2) by (intro cell_end) simp
  then show l: "si * mbd_sector_size b + off + len \<le> length (mbd_mem b)" using r(3) by (simp add: mult.commute)
  show "(si * mbd_sector_size b + off) mod 2 ^ 32 = si * mbd_sector_size b + off" using l i(7) by simp
qed

lemma mbd_read_piece_law:
  assumes inv: "mbd_inv b secs" and r: "si < length secs" "off < mbd_sector_size b" "off + len \<le> mbd_sector_size b"
    and d: "len \<le> length d"
  shows "mbd_read_piece b si off len (Some d) = Some (FOS_E_SUCCESS, Some (take len (drop off (secs ! si)) @ drop len d), b)"
proof -
  note i = mbd_invD [OF inv] and k = mbd_piece [OF inv r]
  have s: "secs ! si = take (mbd_sector_size b) (drop (mbd_sector_size b * si) (mbd_mem b))"
    unfolding i(8) using r(1) i(2) by (simp add: cells_def)
  have "take len (drop off (secs ! si)) = take len (drop (si * mbd_sector_size b + off) (mbd_mem b))"
    unfolding s using r(3) by (simp add: drop_take min_absorb1 mult.commute add.commute)
  moreover have "length (take len (drop (si * mbd_sector_size b + off) (mbd_mem b))) = len" using k(3) by simp
  ultimately show ?thesis using k d by (cases "len = 0") (simp_all add: mbd_read_piece_def patch_0 del: length_take)
qed

lemma mbd_write_piece_law:
  assumes inv: "mbd_inv b secs" and r: "si < length secs" "off < mbd_sector_size b" "off + len \<le> mbd_sector_size b"
    and s: "len \<le> length s"
  shows "\<exists>b'. mbd_write_piece b si off len (Some s) = Some (FOS_E_SUCCESS, b')
    \<and> mbd_inv b' (secs[si := patch off (take len s) (secs ! si)]) \<and> mbd_sector_size b' = mbd_sector_size b"
proof (cases "len = 0")
  case True
  then show ?thesis using inv mbd_piece(1) [OF inv r] by (simp add: mbd_write_piece_def patch_def)
next
  case False
  note i = mbd_invD [OF inv] and k = mbd_piece [OF inv r]
  let ?ss = "mbd_sector_size b"
  let ?b = "b\<lparr>mbd_mem := patch (si * ?ss + off) (take len s) (mbd_mem b)\<rparr>"
  have "cells ?ss (mbd_num_sectors b) (patch (si * ?ss + off) (take len s) (mbd_mem b))
      = secs[si := patch off (take len s) (secs ! si)]"
    unfolding i(8) using patch_nth_cell [of si "mbd_num_sectors b" off "take len s" ?ss "mbd_mem b"] r s i(2,6)
    by (simp add: mult.commute)
  moreover have "length (patch (si * ?ss + off) (take len s) (mbd_mem b)) = length (mbd_mem b)"
    using k(3) s by (intro length_patch) simp
  ultimately have "mbd_inv ?b (secs[si := patch off (take len s) (secs ! si)])"
    using inv i(7) by (simp add: mbd_inv_def)
  moreover have "mbd_write_piece b si off len (Some s) = Some (FOS_E_SUCCESS, ?b)"
    using k s False by (simp add: mbd_write_piece_def)
  ultimately show ?thesis by simp
qed

interpretation mbd: block_device MBD_IMPL mbd_inv
proof (unfold_locales, unfold MBD_IMPL_simps)
  fix b secs si n off len d s
  assume inv: "mbd_inv b secs"
  note i = mbd_invD [OF inv]
  show "mbd_num_sectors b = length secs \<and> 0 < mbd_sector_size b \<and> length secs < 2 ^ 32 \<and> mbd_sector_size b < 2 ^ 32
      \<and> (\<forall>s\<in>set secs. length s = mbd_sector_size b)" using i by simp
  show "\<exists>b'. Some (FOS_E_SUCCESS, b) = Some (FOS_E_SUCCESS, b') \<and> mbd_inv b' secs \<and> mbd_sector_size b' = mbd_sector_size b"
    using inv by simp
  show "si < length secs \<Longrightarrow> si + n \<le> length secs \<Longrightarrow> n * mbd_sector_size b \<le> length d \<Longrightarrow> length d < 2 ^ 32 \<Longrightarrow>
      \<exists>b'. mbd_read b si n (Some d) = Some (FOS_E_SUCCESS, Some (concat (take n (drop si secs)) @ drop (n * mbd_sector_size b) d), b')
        \<and> mbd_inv b' secs \<and> mbd_sector_size b' = mbd_sector_size b"
    using mbd_read_law [OF inv] inv by simp
  show "si < length secs \<Longrightarrow> off < mbd_sector_size b \<Longrightarrow> off + len \<le> mbd_sector_size b \<Longrightarrow> len \<le> length d \<Longrightarrow>
      \<exists>b'. mbd_read_piece b si off len (Some d) = Some (FOS_E_SUCCESS, Some (take len (drop off (secs ! si)) @ drop len d), b')
        \<and> mbd_inv b' secs \<and> mbd_sector_size b' = mbd_sector_size b"
    using mbd_read_piece_law [OF inv] inv by simp
  show "si < length secs \<Longrightarrow> si + n \<le> length secs \<Longrightarrow> n * mbd_sector_size b \<le> length s \<Longrightarrow>
      \<exists>b'. mbd_write b si n (Some s) = Some (FOS_E_SUCCESS, b')
        \<and> mbd_inv b' (take si secs @ cells (mbd_sector_size b) n s @ drop (si + n) secs)
        \<and> mbd_sector_size b' = mbd_sector_size b"
    by (rule mbd_write_law [OF inv])
  show "si < length secs \<Longrightarrow> off < mbd_sector_size b \<Longrightarrow> off + len \<le> mbd_sector_size b \<Longrightarrow> len \<le> length s \<Longrightarrow>
      \<exists>b'. mbd_write_piece b si off len (Some s) = Some (FOS_E_SUCCESS, b')
        \<and> mbd_inv b' (secs[si := patch off (take len s) (secs ! si)]) \<and> mbd_sector_size b' = mbd_sector_size b"
    by (rule mbd_write_piece_law [OF inv])
qed (simp_all add: mbd_read_def mbd_write_def mbd_read_piece_def mbd_write_piece_def mbd_invD(2))

lemma new_mem_block_device_inv:
  assumes "new_mem_block_device True True mem ss ns = Some b" and "ss * ns < 2 ^ 32"
    and "\<And>n m. mem n = Some m \<Longrightarrow> length m = n"
  shows "mbd_inv b (cells ss ns (mbd_mem b))"
proof -
  obtain m where m: "0 < ss" "0 < ns" "mem (ss * ns mod 2 ^ 32) = Some m"
    "b = \<lparr>mbd_sector_size = ss, mbd_num_sectors = ns, mbd_mem = m\<rparr>"
    using assms(1) by (auto simp: new_mem_block_device_def split: if_splits option.splits)
  then show ?thesis using assms(2) assms(3) [OF m(3)] by (simp add: mbd_inv_def)
qed

end
