(* ===== verification/Cached_Block_Device.thy ===== *)
theory Cached_Block_Device imports Mem_Block_Device Hash_Map begin

unbundle bit_operations_syntax

text \<open>
  The random numbers of \<^verbatim>\<open>s_util/src/rand.c\<close> and the write-back cache for block devices
  (\<^verbatim>\<open>s_block_device/src/cached_block_device.c\<close>) over any block device, with the hash map of
  \<^verbatim>\<open>s_data\<close> as its index.  The contract of block devices is proved for the cache over any device
  that fulfils it: the cache is not visible.
\<close>

section \<open>Random numbers\<close>

definition rand_seed :: "64 word \<Rightarrow> 64 word" where
  "rand_seed seed = (if seed = 0 then 0xAABB1234FFEEBACD else seed)"

definition next_rand_u1 :: "64 word \<Rightarrow> 8 word \<times> 64 word" where
  "next_rand_u1 r = (
     let old_bit = ucast (drop_bit 63 r);
         new_bit = (drop_bit 63 r XOR drop_bit 62 r XOR drop_bit 60 r XOR drop_bit 59 r) AND 1
     in (old_bit, push_bit 1 r OR new_bit))"

fun next_rand_loop :: "nat \<Rightarrow> 64 word \<Rightarrow> 'a::len word \<Rightarrow> 'a word \<times> 64 word" where
  "next_rand_loop 0 r val = (val, r)"
| "next_rand_loop (Suc n) r val = (let (b, r) = next_rand_u1 r in next_rand_loop n r (push_bit 1 val OR ucast b))"

definition next_rand_u8 :: "64 word \<Rightarrow> 8 word \<times> 64 word" where "next_rand_u8 r = next_rand_loop 8 r 0"
definition next_rand_u16 :: "64 word \<Rightarrow> 16 word \<times> 64 word" where "next_rand_u16 r = next_rand_loop 16 r 0"
definition next_rand_u32 :: "64 word \<Rightarrow> 32 word \<times> 64 word" where "next_rand_u32 r = next_rand_loop 32 r 0"
definition next_rand_u64 :: "64 word \<Rightarrow> 64 word \<times> 64 word" where "next_rand_u64 r = next_rand_loop 64 r 0"

section \<open>The cache\<close>

record cached_sector_entry =
  cse_sector_ind :: nat
  cse_sector :: bytes

text \<open>The map is \<open>None\<close> when the pointer to it is NULL, as a failed flush leaves it.\<close>

record 'b cbd =
  cbd_wrapped_bd :: 'b
  cbd_r :: "64 word"
  cbd_cache_cap :: nat
  cbd_cache_fill :: nat
  cbd_cache :: "cached_sector_entry list"
  cbd_sector_map :: "(nat, nat) chm option"

text \<open>
  The allocations behind the cache: of map nodes and map tables, of a new map and its table, and the
  value a map node holds before it is written.
\<close>

record cbd_env =
  cd_al :: allocator
  cd_mem :: "nat \<Rightarrow> bool"
  cd_map_ok :: bool
  cd_tbl_ok :: bool
  cd_junk :: nat

definition size_t_hash_f :: "nat \<Rightarrow> nat" where
  "size_t_hash_f k = (((((k * 3) + 2) * 17) + 1) * 13) mod 2 ^ 32"

definition new_sector_map :: "cbd_env \<Rightarrow> (nat, nat) chm option" where
  "new_sector_map C = new_chained_hash_map (cd_map_ok C) (cd_tbl_ok C) 4 4 3 (Some (=)) (Some size_t_hash_f)"

text \<open>
  The answers to the allocation of the structure, of the cache array (with what it held before) and of
  each sector.  When one is refused everything is given back.
\<close>

fun cbd_alloc_sectors :: "(nat \<Rightarrow> bytes option) \<Rightarrow> nat \<Rightarrow> nat \<Rightarrow> cached_sector_entry list \<Rightarrow> cached_sector_entry list option" where
  "cbd_alloc_sectors sec 0 i c = Some c"
| "cbd_alloc_sectors sec (Suc n) i c =
     (case sec i of
        None \<Rightarrow> None
      | Some s \<Rightarrow> do {
          e \<leftarrow> arr_get c i;
          c \<leftarrow> arr_set c i (e\<lparr>cse_sector := s\<rparr>);
          cbd_alloc_sectors sec n (i + 1) c })"

definition new_cached_block_device ::
  "cbd_env \<Rightarrow> bool \<Rightarrow> 'b option \<Rightarrow> nat \<Rightarrow> 32 word \<Rightarrow> bool \<Rightarrow> cached_sector_entry list option \<Rightarrow> (nat \<Rightarrow> bytes option)
   \<Rightarrow> 'b cbd option"
where
  "new_cached_block_device C al_nonnull bd cc seed cbd_ok cache sec =
     (case bd of
        None \<Rightarrow> None
      | Some b \<Rightarrow>
        if \<not> al_nonnull \<or> cc = 0 then None
        else case (cache, new_sector_map C) of
          (Some c, Some m) \<Rightarrow>
            (case cbd_alloc_sectors sec cc 0 c of
               None \<Rightarrow> None
             | Some c \<Rightarrow>
                 if \<not> cbd_ok then None
                 else Some \<lparr>cbd_wrapped_bd = b, cbd_r = rand_seed (ucast seed), cbd_cache_cap = cc,
                   cbd_cache_fill = 0, cbd_cache = c, cbd_sector_map = Some m\<rparr>)
        | _ \<Rightarrow> None)"

definition cbd_num_sectors :: "'b bd_impl \<Rightarrow> 'b cbd \<Rightarrow> nat" where
  "cbd_num_sectors I c = bdi_num_sectors I (cbd_wrapped_bd c)"

definition cbd_sector_size :: "'b bd_impl \<Rightarrow> 'b cbd \<Rightarrow> nat" where
  "cbd_sector_size I c = bdi_sector_size I (cbd_wrapped_bd c)"

text \<open>The lookup \<^verbatim>\<open>mp_get(cbd->sector_map, &i)\<close>.\<close>

definition cbd_lookup :: "cbd_env \<Rightarrow> 'b cbd \<Rightarrow> nat \<Rightarrow> nat option option" where
  "cbd_lookup C c i = do { m \<leftarrow> cbd_sector_map c; mp_get (CHM_IMPL (cd_junk C)) m (Some i) }"

text \<open>
  Reading the sectors \<open>[start, stop)\<close> straight from the wrapped device into the buffer whose first
  sector is \<open>sector_ind\<close>.
\<close>

definition cbd_read_section ::
  "'b bd_impl \<Rightarrow> 'b cbd \<Rightarrow> nat \<Rightarrow> nat \<Rightarrow> nat \<Rightarrow> bytes \<Rightarrow> (fernos_error \<times> bytes \<times> 'b cbd) option"
where
  "cbd_read_section I c sector_ind start stop d =
     (if start < stop then do {
        let off = (start - sector_ind) * cbd_sector_size I c mod 2 ^ 32;
        d' \<leftarrow> buf_from d off;
        (err, d', b) \<leftarrow> bdi_read I (cbd_wrapped_bd c) start (stop - start) (Some d');
        d' \<leftarrow> d';
        Some (err, take off d @ d', c\<lparr>cbd_wrapped_bd := b\<rparr>) }
      else Some (FOS_E_SUCCESS, d, c))"

fun cbd_read_loop ::
  "cbd_env \<Rightarrow> 'b bd_impl \<Rightarrow> nat \<Rightarrow> nat \<Rightarrow> nat \<Rightarrow> nat \<Rightarrow> bytes \<Rightarrow> 'b cbd
   \<Rightarrow> (fernos_error \<times> nat \<times> bytes \<times> 'b cbd) option"
where
  "cbd_read_loop C I sector_ind 0 i start d c = Some (FOS_E_SUCCESS, start, d, c)"
| "cbd_read_loop C I sector_ind (Suc n) i start d c = do {
     hit \<leftarrow> cbd_lookup C c i;
     case hit of
       None \<Rightarrow> cbd_read_loop C I sector_ind n (i + 1) start d c
     | Some ind \<Rightarrow> do {
         (err, d, c) \<leftarrow> cbd_read_section I c sector_ind start i d;
         if err \<noteq> FOS_E_SUCCESS then Some (err, start, d, c)
         else do {
           e \<leftarrow> arr_get (cbd_cache c) ind;
           w \<leftarrow> buf_read (cse_sector e) 0 (cbd_sector_size I c);
           d \<leftarrow> buf_write d ((i - sector_ind) * cbd_sector_size I c mod 2 ^ 32) w;
           cbd_read_loop C I sector_ind n (i + 1) (i + 1) d c } } }"

definition cbd_read ::
  "cbd_env \<Rightarrow> 'b bd_impl \<Rightarrow> 'b cbd \<Rightarrow> nat \<Rightarrow> nat \<Rightarrow> bytes option \<Rightarrow> (fernos_error \<times> bytes option \<times> 'b cbd) option"
where
  "cbd_read C I c sector_ind num_sectors dest =
     (case dest of
        None \<Rightarrow> Some (FOS_E_BAD_ARGS, None, c)
      | Some d \<Rightarrow>
        if sectors_bad (cbd_num_sectors I c) sector_ind num_sectors then Some (FOS_E_INVALID_RANGE, Some d, c)
        else do {
          (err, start, d, c) \<leftarrow> cbd_read_loop C I sector_ind num_sectors sector_ind sector_ind d c;
          if err \<noteq> FOS_E_SUCCESS then Some (err, Some d, c)
          else do {
            (err, d, c) \<leftarrow> cbd_read_section I c sector_ind start (sector_ind + num_sectors) d;
            Some (err, Some d, c) } })"

definition cbd_write_section ::
  "'b bd_impl \<Rightarrow> 'b cbd \<Rightarrow> nat \<Rightarrow> nat \<Rightarrow> nat \<Rightarrow> bytes \<Rightarrow> (fernos_error \<times> 'b cbd) option"
where
  "cbd_write_section I c sector_ind start stop s =
     (if start < stop then do {
        s' \<leftarrow> buf_from s ((start - sector_ind) * cbd_sector_size I c mod 2 ^ 32);
        (err, b) \<leftarrow> bdi_write I (cbd_wrapped_bd c) start (stop - start) (Some s');
        Some (err, c\<lparr>cbd_wrapped_bd := b\<rparr>) }
      else Some (FOS_E_SUCCESS, c))"

definition cbd_set_sector :: "'b cbd \<Rightarrow> nat \<Rightarrow> nat \<Rightarrow> bytes \<Rightarrow> 'b cbd option" where
  "cbd_set_sector c ind off v = do {
     e \<leftarrow> arr_get (cbd_cache c) ind;
     s \<leftarrow> buf_write (cse_sector e) off v;
     cs \<leftarrow> arr_set (cbd_cache c) ind (e\<lparr>cse_sector := s\<rparr>);
     Some (c\<lparr>cbd_cache := cs\<rparr>) }"

fun cbd_write_loop ::
  "cbd_env \<Rightarrow> 'b bd_impl \<Rightarrow> nat \<Rightarrow> nat \<Rightarrow> nat \<Rightarrow> nat \<Rightarrow> bytes \<Rightarrow> 'b cbd \<Rightarrow> (fernos_error \<times> nat \<times> 'b cbd) option"
where
  "cbd_write_loop C I sector_ind 0 i start s c = Some (FOS_E_SUCCESS, start, c)"
| "cbd_write_loop C I sector_ind (Suc n) i start s c = do {
     hit \<leftarrow> cbd_lookup C c i;
     case hit of
       None \<Rightarrow> cbd_write_loop C I sector_ind n (i + 1) start s c
     | Some ind \<Rightarrow> do {
         (err, c) \<leftarrow> cbd_write_section I c sector_ind start i s;
         if err \<noteq> FOS_E_SUCCESS then Some (err, start, c)
         else do {
           w \<leftarrow> buf_read s ((i - sector_ind) * cbd_sector_size I c mod 2 ^ 32) (cbd_sector_size I c);
           c \<leftarrow> cbd_set_sector c ind 0 w;
           cbd_write_loop C I sector_ind n (i + 1) (i + 1) s c } } }"

definition cbd_write ::
  "cbd_env \<Rightarrow> 'b bd_impl \<Rightarrow> 'b cbd \<Rightarrow> nat \<Rightarrow> nat \<Rightarrow> bytes option \<Rightarrow> (fernos_error \<times> 'b cbd) option"
where
  "cbd_write C I c sector_ind num_sectors src =
     (case src of
        None \<Rightarrow> Some (FOS_E_BAD_ARGS, c)
      | Some s \<Rightarrow>
        if sectors_bad (cbd_num_sectors I c) sector_ind num_sectors then Some (FOS_E_INVALID_RANGE, c)
        else do {
          (err, start, c) \<leftarrow> cbd_write_loop C I sector_ind num_sectors sector_ind sector_ind s c;
          if err \<noteq> FOS_E_SUCCESS then Some (err, c)
          else cbd_write_section I c sector_ind start (sector_ind + num_sectors) s })"

text \<open>
  The slot of a sector; a sector that is not cached is loaded, if the cache is full in the place of one
  chosen at random, which is written back.  \<open>cbd_load_slot\<close> is the part that fills the slot.
\<close>

definition cbd_load_slot ::
  "cbd_env \<Rightarrow> 'b bd_impl \<Rightarrow> 'b cbd \<Rightarrow> nat \<Rightarrow> nat \<Rightarrow> (fernos_error \<times> nat \<times> 'b cbd) option"
where
  "cbd_load_slot C I c ind sector_ind = do {
     e \<leftarrow> arr_get (cbd_cache c) ind;
     cs \<leftarrow> arr_set (cbd_cache c) ind (e\<lparr>cse_sector_ind := sector_ind\<rparr>);
     m \<leftarrow> cbd_sector_map c;
     (err, m) \<leftarrow> chm_put (cd_junk C) (cd_al C) (cd_mem C) m (Some sector_ind) (Some ind);
     let c = c\<lparr>cbd_cache := cs, cbd_sector_map := Some m\<rparr>;
     if err \<noteq> FOS_E_SUCCESS then Some (err, ind, c)
     else do {
       (err, d, b) \<leftarrow> bdi_read I (cbd_wrapped_bd c) sector_ind 1 (Some (cse_sector e));
       d \<leftarrow> d;
       cs \<leftarrow> arr_set (cbd_cache c) ind (e\<lparr>cse_sector_ind := sector_ind, cse_sector := d\<rparr>);
       Some (err, ind, c\<lparr>cbd_wrapped_bd := b, cbd_cache := cs\<rparr>) } }"

definition cbd_get_cache_entry_ind ::
  "cbd_env \<Rightarrow> 'b bd_impl \<Rightarrow> 'b cbd \<Rightarrow> nat \<Rightarrow> (fernos_error \<times> nat \<times> 'b cbd) option"
where
  "cbd_get_cache_entry_ind C I c sector_ind = do {
     hit \<leftarrow> cbd_lookup C c sector_ind;
     case hit of
       Some ind \<Rightarrow> Some (FOS_E_SUCCESS, ind, c)
     | None \<Rightarrow> do {
         (err, ind, c) \<leftarrow>
           (if cbd_cache_fill c < cbd_cache_cap c
            then Some (FOS_E_SUCCESS, cbd_cache_fill c, c\<lparr>cbd_cache_fill := cbd_cache_fill c + 1\<rparr>)
            else do {
              let (x, r) = next_rand_u32 (cbd_r c);
              let c = c\<lparr>cbd_r := r\<rparr>;
              let ind = unat x mod cbd_cache_cap c;
              e \<leftarrow> arr_get (cbd_cache c) ind;
              (err, b) \<leftarrow> bdi_write I (cbd_wrapped_bd c) (cse_sector_ind e) 1 (Some (cse_sector e));
              let c = c\<lparr>cbd_wrapped_bd := b\<rparr>;
              if err \<noteq> FOS_E_SUCCESS then Some (err, ind, c)
              else do {
                m \<leftarrow> cbd_sector_map c;
                (_, m) \<leftarrow> chm_remove m (Some (cse_sector_ind e));
                Some (FOS_E_SUCCESS, ind, c\<lparr>cbd_sector_map := Some m\<rparr>) } });
         if err \<noteq> FOS_E_SUCCESS then Some (err, ind, c) else cbd_load_slot C I c ind sector_ind } }"

definition cbd_read_piece ::
  "cbd_env \<Rightarrow> 'b bd_impl \<Rightarrow> 'b cbd \<Rightarrow> nat \<Rightarrow> nat \<Rightarrow> nat \<Rightarrow> bytes option \<Rightarrow> (fernos_error \<times> bytes option \<times> 'b cbd) option"
where
  "cbd_read_piece C I c sector_ind offset len dest =
     (case dest of
        None \<Rightarrow> Some (FOS_E_BAD_ARGS, None, c)
      | Some d \<Rightarrow>
        if piece_bad (cbd_num_sectors I c) (cbd_sector_size I c) sector_ind offset len
        then Some (FOS_E_INVALID_RANGE, Some d, c)
        else do {
          (err, ind, c) \<leftarrow> cbd_get_cache_entry_ind C I c sector_ind;
          if err \<noteq> FOS_E_SUCCESS then Some (err, Some d, c)
          else do {
            e \<leftarrow> arr_get (cbd_cache c) ind;
            w \<leftarrow> buf_read (cse_sector e) offset len;
            d \<leftarrow> buf_write d 0 w;
            Some (FOS_E_SUCCESS, Some d, c) } })"

definition cbd_write_piece ::
  "cbd_env \<Rightarrow> 'b bd_impl \<Rightarrow> 'b cbd \<Rightarrow> nat \<Rightarrow> nat \<Rightarrow> nat \<Rightarrow> bytes option \<Rightarrow> (fernos_error \<times> 'b cbd) option"
where
  "cbd_write_piece C I c sector_ind offset len src =
     (case src of
        None \<Rightarrow> Some (FOS_E_BAD_ARGS, c)
      | Some s \<Rightarrow>
        if piece_bad (cbd_num_sectors I c) (cbd_sector_size I c) sector_ind offset len then Some (FOS_E_INVALID_RANGE, c)
        else do {
          (err, ind, c) \<leftarrow> cbd_get_cache_entry_ind C I c sector_ind;
          if err \<noteq> FOS_E_SUCCESS then Some (err, c)
          else do {
            w \<leftarrow> buf_read s 0 len;
            c \<leftarrow> cbd_set_sector c ind offset w;
            Some (FOS_E_SUCCESS, c) } })"

text \<open>Writing all cached sectors back.\<close>

partial_function (option) cbd_flush_loop ::
  "cbd_env \<Rightarrow> 'b bd_impl \<Rightarrow> 'b cbd \<Rightarrow> (nat, nat) chm \<Rightarrow> fernos_error \<Rightarrow> (nat \<times> nat) option
   \<Rightarrow> (fernos_error \<times> (nat, nat) chm \<times> 'b cbd) option"
where
  "cbd_flush_loop C I c m err kv =
     (if err \<noteq> FOS_E_SUCCESS then Some (err, m, c)
      else do {
        (sector_ind, ind) \<leftarrow> kv;
        e \<leftarrow> arr_get (cbd_cache c) ind;
        (err, b) \<leftarrow> bdi_write I (cbd_wrapped_bd c) sector_ind 1 (Some (cse_sector e));
        let c = c\<lparr>cbd_wrapped_bd := b\<rparr>;
        if err \<noteq> FOS_E_SUCCESS then Some (err, m, c)
        else do {
          (err, kv, m) \<leftarrow> chm_next_iter m True;
          cbd_flush_loop C I c m err kv } })"

definition cbd_flush :: "cbd_env \<Rightarrow> 'b bd_impl \<Rightarrow> 'b cbd \<Rightarrow> (fernos_error \<times> 'b cbd) option" where
  "cbd_flush C I c = do {
     m \<leftarrow> cbd_sector_map c;
     m \<leftarrow> chm_reset_iter m;
     (err, kv) \<leftarrow> chm_get_iter m True;
     (err, m, c) \<leftarrow> cbd_flush_loop C I c m err kv;
     if err \<noteq> FOS_E_EMPTY then Some (err, c\<lparr>cbd_sector_map := Some m\<rparr>)
     else case new_sector_map C of
       None \<Rightarrow> Some (FOS_E_NO_MEM, c\<lparr>cbd_sector_map := None\<rparr>)
     | Some m \<Rightarrow> do {
         let c = c\<lparr>cbd_sector_map := Some m, cbd_cache_fill := 0\<rparr>;
         (err, b) \<leftarrow> bd_flush I (cbd_wrapped_bd c);
         Some (err, c\<lparr>cbd_wrapped_bd := b\<rparr>) } }"

definition CBD_IMPL :: "cbd_env \<Rightarrow> 'b bd_impl \<Rightarrow> 'b cbd bd_impl" where
  "CBD_IMPL C I = \<lparr>bdi_num_sectors = cbd_num_sectors I, bdi_sector_size = cbd_sector_size I, bdi_read = cbd_read C I,
     bdi_write = cbd_write C I, bdi_read_piece = cbd_read_piece C I, bdi_write_piece = cbd_write_piece C I,
     bdi_flush = Some (cbd_flush C I)\<rparr>"

section \<open>Representation\<close>

definition cbd_env_ok :: "cbd_env \<Rightarrow> bool" where
  "cbd_env_ok C \<longleftrightarrow> alloc_ok (cd_al C) \<and> \<not> oom (cd_al C) \<and> \<not> cd_mem C 0 \<and> cd_map_ok C \<and> cd_tbl_ok C"

text \<open>The slots in use, with the map that finds them.\<close>

definition slots_ok :: "'b cbd \<Rightarrow> (nat \<times> nat) list \<Rightarrow> nat \<Rightarrow> nat \<Rightarrow> bool" where
  "slots_ok c kvs ss ns \<longleftrightarrow> 0 < cbd_cache_cap c \<and> cbd_cache_cap c + 1 < 2 ^ 32 \<and> cbd_cache_fill c \<le> cbd_cache_cap c
     \<and> length (cbd_cache c) = cbd_cache_cap c \<and> (\<forall>e\<in>set (cbd_cache c). length (cse_sector e) = ss)
     \<and> distinct (map fst kvs)
     \<and> set kvs = (\<lambda>i. (cse_sector_ind (cbd_cache c ! i), i)) ` {..<cbd_cache_fill c}
     \<and> (\<forall>i<cbd_cache_fill c. cse_sector_ind (cbd_cache c ! i) < ns)
     \<and> (\<exists>m. cbd_sector_map c = Some m \<and> chm_inv m kvs \<and> chm_key_eq m = (=) \<and> 0 < chm_val_size m)"

text \<open>What is read through the cache.\<close>

definition view_of :: "cached_sector_entry list \<Rightarrow> (nat \<times> nat) list \<Rightarrow> bytes list \<Rightarrow> bytes list" where
  "view_of cache kvs ds = map (\<lambda>k. case map_of kvs k of None \<Rightarrow> ds ! k | Some i \<Rightarrow> cse_sector (cache ! i)) [0..<length ds]"

definition cbd_rep ::
  "cbd_env \<Rightarrow> 'b bd_impl \<Rightarrow> ('b \<Rightarrow> bytes list \<Rightarrow> bool) \<Rightarrow> 'b cbd \<Rightarrow> (nat \<times> nat) list \<Rightarrow> bytes list \<Rightarrow> bool"
where
  "cbd_rep C I wi c kvs ds \<longleftrightarrow> cbd_env_ok C \<and> wi (cbd_wrapped_bd c) ds
     \<and> slots_ok c kvs (bdi_sector_size I (cbd_wrapped_bd c)) (length ds)"

definition cbd_inv :: "cbd_env \<Rightarrow> 'b bd_impl \<Rightarrow> ('b \<Rightarrow> bytes list \<Rightarrow> bool) \<Rightarrow> 'b cbd \<Rightarrow> bytes list \<Rightarrow> bool" where
  "cbd_inv C I wi c secs \<longleftrightarrow> (\<exists>kvs ds. cbd_rep C I wi c kvs ds \<and> secs = view_of (cbd_cache c) kvs ds)"

lemma kv_find_map_of: "kv_find (=) kvs k = map_option (Pair k) (map_of kvs k)"
  by (induction kvs) auto

lemma length_view [simp]: "length (view_of cache kvs ds) = length ds"
  by (simp add: view_of_def)

lemma view_nth:
  "k < length ds \<Longrightarrow> view_of cache kvs ds ! k = (case map_of kvs k of None \<Rightarrow> ds ! k | Some i \<Rightarrow> cse_sector (cache ! i))"
  by (simp add: view_of_def split: option.split)

lemma view_of_Nil [simp]: "view_of cache [] ds = ds"
  by (simp add: view_of_def map_nth)

lemma slots_lookup:
  assumes "slots_ok c kvs ss ns"
  shows "cbd_lookup C c k = Some (map_of kvs k)"
proof -
  obtain m where m: "cbd_sector_map c = Some m" "chm_inv m kvs" "chm_key_eq m = (=)" "0 < chm_val_size m"
    using assms unfolding slots_ok_def by blast
  show ?thesis
    using chm.get_value [OF m(2), of "cd_junk C" k] m by (simp add: cbd_lookup_def kv_find_map_of option.map_comp o_def option.map_ident)
qed

lemma slots_hit:
  assumes "slots_ok c kvs ss ns" and "map_of kvs k = Some i"
  shows "i < cbd_cache_fill c" and "i < length (cbd_cache c)" and "cse_sector_ind (cbd_cache c ! i) = k" and "k < ns"
    and "length (cse_sector (cbd_cache c ! i)) = ss"
proof -
  have "(k, i) \<in> set kvs" using assms(2) by (rule map_of_SomeD)
  then show i: "i < cbd_cache_fill c" and "cse_sector_ind (cbd_cache c ! i) = k"
    using assms(1) unfolding slots_ok_def by auto
  then show "k < ns" "i < length (cbd_cache c)" using assms(1) unfolding slots_ok_def by auto
  then show "length (cse_sector (cbd_cache c ! i)) = ss" using assms(1) unfolding slots_ok_def by auto
qed

lemma slots_of_slot:
  assumes "slots_ok c kvs ss ns" and "i < cbd_cache_fill c"
  shows "map_of kvs (cse_sector_ind (cbd_cache c ! i)) = Some i"
  using assms unfolding slots_ok_def by (intro map_of_is_SomeI) auto

lemma slots_length:
  assumes "slots_ok c kvs ss ns"
  shows "length kvs = cbd_cache_fill c"
proof -
  have d: "distinct kvs" and s: "set kvs = (\<lambda>i. (cse_sector_ind (cbd_cache c ! i), i)) ` {..<cbd_cache_fill c}"
    using assms unfolding slots_ok_def by (auto simp: distinct_map)
  have "card (set kvs) = cbd_cache_fill c" unfolding s by (subst card_image) (auto simp: inj_on_def)
  then show ?thesis using distinct_card [OF d] by simp
qed

lemma slots_frame: "slots_ok (c\<lparr>cbd_wrapped_bd := b\<rparr>) kvs ss ns = slots_ok c kvs ss ns"
  by (simp add: slots_ok_def)

lemma slots_put_sector:
  assumes "slots_ok c kvs ss ns" and "i < length (cbd_cache c)" and "length s = ss"
  shows "slots_ok (c\<lparr>cbd_cache := (cbd_cache c)[i := (cbd_cache c ! i)\<lparr>cse_sector := s\<rparr>]\<rparr>) kvs ss ns"
proof -
  let ?c = "(cbd_cache c)[i := (cbd_cache c ! i)\<lparr>cse_sector := s\<rparr>]"
  have ind: "cse_sector_ind (?c ! j) = cse_sector_ind (cbd_cache c ! j)" for j
    using assms(2) by (cases "j = i") simp_all
  have "\<forall>e\<in>set ?c. length (cse_sector e) = ss"
    using assms set_update_subset_insert [of "cbd_cache c" i] unfolding slots_ok_def by fastforce
  then show ?thesis using assms(1) unfolding slots_ok_def by (simp add: ind)
qed

text \<open>Writing a cached sector is seen at that sector only.\<close>

lemma view_put_sector:
  assumes sl: "slots_ok c kvs ss (length ds)" and k: "map_of kvs k = Some i"
  shows "view_of ((cbd_cache c)[i := (cbd_cache c ! i)\<lparr>cse_sector := s\<rparr>]) kvs ds = (view_of (cbd_cache c) kvs ds)[k := s]"
proof (rule nth_equalityI)
  note h = slots_hit [OF sl k]
  fix j assume "j < length (view_of ((cbd_cache c)[i := (cbd_cache c ! i)\<lparr>cse_sector := s\<rparr>]) kvs ds)"
  then have j: "j < length ds" by simp
  have "i' \<noteq> i" if "map_of kvs j = Some i'" "j \<noteq> k" for i'
    using slots_hit(3) [OF sl that(1)] h(3) that(2) by auto
  then show "view_of ((cbd_cache c)[i := (cbd_cache c ! i)\<lparr>cse_sector := s\<rparr>]) kvs ds ! j
      = (view_of (cbd_cache c) kvs ds)[k := s] ! j"
    using j k h(2,4) by (auto simp: view_nth nth_list_update split: option.split)
qed simp

text \<open>Changing sectors of the device that are not cached.\<close>

lemma view_put_device:
  assumes "length ds' = length ds" and "\<And>k. k < length ds \<Longrightarrow> map_of kvs k = None \<Longrightarrow> secs ! k = ds' ! k"
    and "\<And>k i. k < length ds \<Longrightarrow> map_of kvs k = Some i \<Longrightarrow> secs ! k = cse_sector (cache ! i)" and "length secs = length ds"
  shows "view_of cache kvs ds' = secs"
  by (rule nth_equalityI) (use assms in \<open>auto simp: view_nth split: option.split\<close>)

lemma map_of_kv_remove: "map_of (kv_remove (=) k0 kvs) j = (if j = k0 then None else map_of kvs j)"
  by (induction kvs) (auto simp: kv_remove_def)

lemma span: "si \<le> start \<Longrightarrow> start \<le> stop \<Longrightarrow> (start - si) * ss + (stop - start) * ss = (stop - si) * (ss :: nat)"
  unfolding add_mult_distrib [symmetric] by simp

text \<open>The part of the buffer that holds the sectors from \<open>si\<close> to \<open>start\<close>.\<close>

definition filled :: "bytes list \<Rightarrow> nat \<Rightarrow> nat \<Rightarrow> nat \<Rightarrow> bytes \<Rightarrow> bytes" where
  "filled secs ss si start d = concat (take (start - si) (drop si secs)) @ drop ((start - si) * ss) d"

lemma length_concat_sectors:
  "(\<And>s. s \<in> set xs \<Longrightarrow> length s = ss) \<Longrightarrow> length (concat xs) = length xs * ss"
  by (induction xs) simp_all

lemma filled_step:
  assumes ss: "\<And>k. k < length secs \<Longrightarrow> length (secs ! k) = ss"
    and se: "si \<le> start" "start \<le> stop" "stop \<le> length secs" and d: "(stop - si) * ss \<le> length d"
  shows "take ((start - si) * ss) (filled secs ss si start d) @ concat (take (stop - start) (drop start secs))
      @ drop ((stop - si) * ss) (filled secs ss si start d) = filled secs ss si stop d"
    and "length (filled secs ss si start d) = length d"
proof -
  have l: "length (concat (take (start - si) (drop si secs))) = (start - si) * ss"
    using se by (subst length_concat_sectors [of _ ss]) (auto simp: in_set_conv_nth ss)
  have le: "(start - si) * ss + (stop - start) * ss = (stop - si) * ss" using span [OF se(1,2)] .
  then have le': "(start - si) * ss \<le> (stop - si) * ss" by (metis le_add1)
  show len: "length (filled secs ss si start d) = length d" using l le d by (simp add: filled_def)
  have "take (stop - si) (drop si secs) = take (start - si) (drop si secs) @ take (stop - start) (drop start secs)"
    using se take_add [of "start - si" "stop - start" "drop si secs"] by (simp add: add.commute)
  then show "take ((start - si) * ss) (filled secs ss si start d) @ concat (take (stop - start) (drop start secs))
      @ drop ((stop - si) * ss) (filled secs ss si start d) = filled secs ss si stop d"
    using l le le' by (simp add: filled_def)
qed

text \<open>The sectors from \<open>si\<close> to \<open>e\<close> replaced by those of a buffer.\<close>

definition written :: "bytes list \<Rightarrow> nat \<Rightarrow> nat \<Rightarrow> nat \<Rightarrow> bytes \<Rightarrow> bytes list" where
  "written secs ss si e s = take si secs @ cells ss (e - si) s @ drop e secs"

lemma written_nth:
  assumes "si \<le> e" and "e \<le> length secs" and "k < length secs"
  shows "written secs ss si e s ! k = (if si \<le> k \<and> k < e then take ss (drop (ss * (k - si)) s) else secs ! k)"
  using assms by (auto simp: written_def nth_append cells_def min_absorb1)

lemma length_written [simp]: "si \<le> e \<Longrightarrow> e \<le> length secs \<Longrightarrow> length (written secs ss si e s) = length secs"
  by (simp add: written_def)

text \<open>Loading a sector: all slots but one are as the map says.\<close>

definition hole_ok :: "'b cbd \<Rightarrow> (nat \<times> nat) list \<Rightarrow> nat \<Rightarrow> nat \<Rightarrow> nat \<Rightarrow> bool" where
  "hole_ok c kvs ss ns x \<longleftrightarrow> 0 < cbd_cache_cap c \<and> cbd_cache_cap c + 1 < 2 ^ 32 \<and> cbd_cache_fill c \<le> cbd_cache_cap c
     \<and> length (cbd_cache c) = cbd_cache_cap c \<and> (\<forall>e\<in>set (cbd_cache c). length (cse_sector e) = ss)
     \<and> distinct (map fst kvs) \<and> x < cbd_cache_fill c
     \<and> set kvs = (\<lambda>i. (cse_sector_ind (cbd_cache c ! i), i)) ` ({..<cbd_cache_fill c} - {x})
     \<and> (\<forall>i<cbd_cache_fill c. i \<noteq> x \<longrightarrow> cse_sector_ind (cbd_cache c ! i) < ns)
     \<and> (\<exists>m. cbd_sector_map c = Some m \<and> chm_inv m kvs \<and> chm_key_eq m = (=) \<and> 0 < chm_val_size m)"

lemma fill_hole:
  assumes h: "hole_ok c kvs ss ns x" and k: "k < ns" and miss: "map_of kvs k = None" and s: "length s = ss"
    and m: "chm_inv m ((k, x) # kvs)" "chm_key_eq m = (=)" "0 < chm_val_size m"
  shows "slots_ok (c\<lparr>cbd_cache := (cbd_cache c)[x := (cbd_cache c ! x)\<lparr>cse_sector_ind := k, cse_sector := s\<rparr>],
      cbd_sector_map := Some m\<rparr>) ((k, x) # kvs) ss ns"
proof -
  let ?c = "(cbd_cache c)[x := (cbd_cache c ! x)\<lparr>cse_sector_ind := k, cse_sector := s\<rparr>]"
  have x: "x < length (cbd_cache c)" "x < cbd_cache_fill c" using h unfolding hole_ok_def by auto
  have ind: "cse_sector_ind (?c ! j) = (if j = x then k else cse_sector_ind (cbd_cache c ! j))" for j
    using x by (simp add: nth_list_update)
  have "\<forall>e\<in>set ?c. length (cse_sector e) = ss"
    using h s set_update_subset_insert [of "cbd_cache c" x] unfolding hole_ok_def by fastforce
  moreover have "insert (k, x) (set kvs) = (\<lambda>i. (cse_sector_ind (?c ! i), i)) ` {..<cbd_cache_fill c}"
  proof -
    have st: "set kvs = (\<lambda>i. (cse_sector_ind (cbd_cache c ! i), i)) ` ({..<cbd_cache_fill c} - {x})"
      using h unfolding hole_ok_def by blast
    have "(\<lambda>i. (cse_sector_ind (?c ! i), i)) ` {..<cbd_cache_fill c}
        = insert (k, x) ((\<lambda>i. (cse_sector_ind (?c ! i), i)) ` ({..<cbd_cache_fill c} - {x}))"
      using x(2) ind by (auto simp: image_iff)
    also have "(\<lambda>i. (cse_sector_ind (?c ! i), i)) ` ({..<cbd_cache_fill c} - {x}) = set kvs"
      unfolding st ind by (intro image_cong) auto
    finally show ?thesis ..
  qed
  moreover have "k \<notin> fst ` set kvs" using miss by (simp add: map_of_eq_None_iff)
  ultimately show ?thesis using h k m unfolding hole_ok_def slots_ok_def by (simp add: ind)
qed

lemma hole_view:
  assumes h: "hole_ok c kvs ss (length ds) x" and miss: "map_of kvs k = None"
  shows "view_of ((cbd_cache c)[x := (cbd_cache c ! x)\<lparr>cse_sector_ind := k, cse_sector := ds ! k\<rparr>]) ((k, x) # kvs) ds
    = view_of (cbd_cache c) kvs ds"
proof (rule nth_equalityI)
  fix j assume "j < length (view_of ((cbd_cache c)[x := (cbd_cache c ! x)\<lparr>cse_sector_ind := k, cse_sector := ds ! k\<rparr>])
      ((k, x) # kvs) ds)"
  then have j: "j < length ds" by simp
  have x: "x < length (cbd_cache c)" using h unfolding hole_ok_def by auto
  have "i \<noteq> x" if "map_of kvs j = Some i" for i
    using map_of_SomeD [OF that] h unfolding hole_ok_def by auto
  then show "view_of ((cbd_cache c)[x := (cbd_cache c ! x)\<lparr>cse_sector_ind := k, cse_sector := ds ! k\<rparr>]) ((k, x) # kvs) ds ! j
      = view_of (cbd_cache c) kvs ds ! j"
    using j x miss by (auto simp: view_nth nth_list_update split: option.split)
qed simp

lemma slots_fresh:
  assumes "slots_ok c kvs ss ns" and "cbd_cache_fill c < cbd_cache_cap c"
  shows "hole_ok (c\<lparr>cbd_cache_fill := cbd_cache_fill c + 1\<rparr>) kvs ss ns (cbd_cache_fill c)"
proof -
  have "{..<cbd_cache_fill c + 1} - {cbd_cache_fill c} = {..<cbd_cache_fill c}" by auto
  then show ?thesis using assms unfolding slots_ok_def hole_ok_def by (simp add: less_Suc_eq)
qed

text \<open>Taking a sector out of the cache after it has been written back.\<close>

lemma slots_evict:
  assumes sl: "slots_ok c kvs ss ns" and x: "x < cbd_cache_fill c"
    and m: "chm_inv m (kv_remove (=) (cse_sector_ind (cbd_cache c ! x)) kvs)" "chm_key_eq m = (=)" "0 < chm_val_size m"
  shows "hole_ok (c\<lparr>cbd_sector_map := Some m\<rparr>) (kv_remove (=) (cse_sector_ind (cbd_cache c ! x)) kvs) ss ns x"
proof -
  let ?k0 = "cse_sector_ind (cbd_cache c ! x)"
  have uniq: "cse_sector_ind (cbd_cache c ! i) \<noteq> ?k0" if "i < cbd_cache_fill c" "i \<noteq> x" for i
    using slots_of_slot [OF sl that(1)] slots_of_slot [OF sl x] that(2) by auto
  have st: "set kvs = (\<lambda>i. (cse_sector_ind (cbd_cache c ! i), i)) ` {..<cbd_cache_fill c}"
    using sl unfolding slots_ok_def by blast
  have "set (kv_remove (=) ?k0 kvs) = (\<lambda>i. (cse_sector_ind (cbd_cache c ! i), i)) ` ({..<cbd_cache_fill c} - {x})"
  proof -
    have "set (kv_remove (=) ?k0 kvs) = {p \<in> set kvs. fst p \<noteq> ?k0}" by (auto simp: kv_remove_def)
    then show ?thesis unfolding st using uniq by auto
  qed
  moreover have "distinct (map fst (kv_remove (=) ?k0 kvs))"
    using sl unfolding slots_ok_def kv_remove_def by (simp add: distinct_map_filter)
  ultimately show ?thesis using sl x m unfolding slots_ok_def hole_ok_def by simp
qed

definition flushed :: "cached_sector_entry list \<Rightarrow> (nat \<times> nat) list \<Rightarrow> bytes list \<Rightarrow> bytes list" where
  "flushed cache xs ds = foldl (\<lambda>ds (k, i). ds[k := cse_sector (cache ! i)]) ds xs"

lemma length_flushed [simp]: "length (flushed cache xs ds) = length ds"
  unfolding flushed_def by (induction xs arbitrary: ds) auto

lemma flushed_nth:
  "distinct (map fst xs) \<Longrightarrow> k < length ds \<Longrightarrow>
    flushed cache xs ds ! k = (case map_of xs k of None \<Rightarrow> ds ! k | Some i \<Rightarrow> cse_sector (cache ! i))"
proof (induction xs arbitrary: ds)
  case (Cons x xs)
  have "map_of xs (fst x) = None" using Cons.prems(1) by (simp add: map_of_eq_None_iff)
  moreover have "flushed cache (x # xs) ds = flushed cache xs (ds[fst x := cse_sector (cache ! snd x)])"
    by (simp add: flushed_def case_prod_beta)
  ultimately show ?case using Cons by (cases x) (auto split: option.split)
qed (simp add: flushed_def)

locale cached_device = block_device I inv for I :: "'b bd_impl" and inv :: "'b \<Rightarrow> bytes list \<Rightarrow> bool" +
  fixes C :: cbd_env
begin

abbreviation "rep \<equiv> cbd_rep C I inv"

lemma repD:
  assumes "rep c kvs ds"
  shows "cbd_env_ok C" and "inv (cbd_wrapped_bd c) ds" and "slots_ok c kvs (cbd_sector_size I c) (length ds)"
  using assms by (simp_all add: cbd_rep_def cbd_sector_size_def)

lemma rep_geometry:
  assumes "rep c kvs ds"
  shows "cbd_num_sectors I c = length ds" and "0 < cbd_sector_size I c" and "length ds < 2 ^ 32"
    and "cbd_sector_size I c < 2 ^ 32" and "\<And>s. s \<in> set ds \<Longrightarrow> length s = cbd_sector_size I c"
  using geometry [OF repD(2) [OF assms]] by (simp_all add: cbd_num_sectors_def cbd_sector_size_def)

lemma rep_view_sector:
  assumes r: "rep c kvs ds" and k: "k < length ds"
  shows "length (view_of (cbd_cache c) kvs ds ! k) = cbd_sector_size I c"
  using rep_geometry(5) [OF r nth_mem [OF k]] slots_hit(5) [OF repD(3) [OF r]] k by (simp add: view_nth split: option.split)

lemma rep_wrapped:
  "rep c kvs ds \<Longrightarrow> inv b ds' \<Longrightarrow> length ds' = length ds \<Longrightarrow> bdi_sector_size I b = cbd_sector_size I c \<Longrightarrow>
    rep (c\<lparr>cbd_wrapped_bd := b\<rparr>) kvs ds'"
  by (simp add: cbd_rep_def slots_frame cbd_sector_size_def)

text \<open>Reading and writing past the cache.\<close>

lemma read_section:
  assumes r: "rep c kvs ds" and se: "si \<le> start" "start < length ds" "start \<le> stop" "stop \<le> length ds"
    and d: "(stop - si) * cbd_sector_size I c \<le> length d" "length d < 2 ^ 32"
  shows "\<exists>c'. cbd_read_section I c si start stop d = Some (FOS_E_SUCCESS,
        take ((start - si) * cbd_sector_size I c) d @ concat (take (stop - start) (drop start ds))
          @ drop ((stop - si) * cbd_sector_size I c) d, c')
    \<and> rep c' kvs ds \<and> cbd_cache c' = cbd_cache c \<and> cbd_sector_size I c' = cbd_sector_size I c"
proof (cases "start < stop")
  case False
  then show ?thesis using se r by (simp add: cbd_read_section_def)
next
  case True
  let ?ss = "cbd_sector_size I c" and ?off = "(start - si) * cbd_sector_size I c"
  have le: "?off + (stop - start) * ?ss = (stop - si) * ?ss" using span [OF se(1,3)] .
  then have off: "?off \<le> length d" "?off mod 2 ^ 32 = ?off" using d by simp_all
  obtain b where b: "bdi_read I (cbd_wrapped_bd c) start (stop - start) (Some (drop ?off d))
      = Some (FOS_E_SUCCESS, Some (concat (take (stop - start) (drop start ds)) @ drop ((stop - start) * ?ss) (drop ?off d)), b)"
    "inv b ds" "bdi_sector_size I b = ?ss"
  proof -
    have "(stop - start) * ?ss \<le> length (drop ?off d)" "length (drop ?off d) < 2 ^ 32" using d le by simp_all
    from read_ok [OF repD(2) [OF r] se(2) _ this [unfolded cbd_sector_size_def]] show ?thesis
      using that se unfolding cbd_sector_size_def by auto
  qed
  have "rep (c\<lparr>cbd_wrapped_bd := b\<rparr>) kvs ds" by (rule rep_wrapped [OF r b(2) refl b(3)])
  moreover have "drop ((stop - start) * ?ss) (drop ?off d) = drop ((stop - si) * ?ss) d"
    using le by (simp add: add.commute)
  ultimately show ?thesis using True b off
    by (intro exI [of _ "c\<lparr>cbd_wrapped_bd := b\<rparr>"]) (simp add: cbd_read_section_def cbd_sector_size_def)
qed

lemma sections_agree:
  assumes "rep c kvs ds" and "stop \<le> length ds" and "\<And>k. start \<le> k \<Longrightarrow> k < stop \<Longrightarrow> map_of kvs k = None"
  shows "take (stop - start) (drop start ds) = take (stop - start) (drop start (view_of (cbd_cache c) kvs ds))"
  by (rule nth_equalityI) (use assms in \<open>auto simp: view_nth\<close>)

lemma read_loop:
  assumes "rep c kvs ds" and "si \<le> start" and "start \<le> i" and "i + n \<le> length ds"
    and "(i + n - si) * cbd_sector_size I c \<le> length d" and "length d < 2 ^ 32"
    and "\<And>k. start \<le> k \<Longrightarrow> k < i \<Longrightarrow> map_of kvs k = None"
  shows "\<exists>start' c'. cbd_read_loop C I si n i start (filled (view_of (cbd_cache c) kvs ds) (cbd_sector_size I c) si start d) c
      = Some (FOS_E_SUCCESS, start', filled (view_of (cbd_cache c) kvs ds) (cbd_sector_size I c) si start' d, c')
    \<and> rep c' kvs ds \<and> cbd_cache c' = cbd_cache c \<and> cbd_sector_size I c' = cbd_sector_size I c
    \<and> si \<le> start' \<and> start' \<le> i + n \<and> (\<forall>k. start' \<le> k \<longrightarrow> k < i + n \<longrightarrow> map_of kvs k = None)"
  using assms
proof (induction n arbitrary: i start c)
  case 0
  then show ?case by simp
next
  case (Suc n)
  note r = Suc.prems(1) and se = Suc.prems(2-4) and d = Suc.prems(5,6) and miss = Suc.prems(7)
  let ?ss = "cbd_sector_size I c" and ?v = "view_of (cbd_cache c) kvs ds"
  have look: "cbd_lookup C c i = Some (map_of kvs i)" by (rule slots_lookup [OF repD(3) [OF r]])
  show ?case
  proof (cases "map_of kvs i")
    case None
    have "k < Suc i \<Longrightarrow> start \<le> k \<Longrightarrow> map_of kvs k = None" for k using None miss by (cases "k = i") auto
    then show ?thesis
      using Suc.IH [OF r se(1), of "i + 1"] se d None look by (simp add: less_Suc_eq_le)
  next
    case (Some ind)
    have vs: "k < length ?v \<Longrightarrow> length (?v ! k) = ?ss" for k using rep_view_sector [OF r] by simp
    have "(i - si) * ?ss \<le> (i + Suc n - si) * ?ss" "(Suc i - si) * ?ss \<le> (i + Suc n - si) * ?ss"
      by (intro mult_le_mono1; simp)+
    then have m1: "(i - si) * ?ss \<le> length d" "(Suc i - si) * ?ss \<le> length d" using d(1) by linarith+
    note f1 = filled_step [of ?v ?ss si start i d, OF vs]
    have len1: "length (filled ?v ?ss si start d) = length d" using f1(2) se m1 by simp
    obtain c1 where c1: "cbd_read_section I c si start i (filled ?v ?ss si start d)
        = Some (FOS_E_SUCCESS, filled ?v ?ss si i d, c1)" "rep c1 kvs ds" "cbd_cache c1 = cbd_cache c"
      "cbd_sector_size I c1 = ?ss"
    proof -
      have "start < length ds" using se by simp
      from read_section [OF r se(1) this se(2), of "filled ?v ?ss si start d"] se d m1 len1
      show ?thesis using that sections_agree [OF r _ miss] f1(1) by auto
    qed
    note h = slots_hit [OF repD(3) [OF r] Some]
    have vi: "?v ! i = cse_sector (cbd_cache c ! ind)" using Some h(4) by (simp add: view_nth)
    have f2: "buf_write (filled ?v ?ss si i d) ((i - si) * ?ss) (?v ! i) = Some (filled ?v ?ss si (Suc i) d)"
    proof -
      note f = filled_step [of ?v ?ss si i "Suc i" d, OF vs]
      have l: "length (filled ?v ?ss si i d) = length d" using f(2) se m1 by simp
      have s: "(Suc i - si) * ?ss = (i - si) * ?ss + ?ss" using se by (simp add: Suc_diff_le add.commute)
      have "take (Suc i - i) (drop i ?v) = [?v ! i]"
        using se by (simp add: take_Suc_conv_app_nth [of 0] hd_drop_conv_nth take_Suc)
      then show ?thesis using f(1) se m1 l s vs [of i]
        by (simp add: patch_def)
    qed
    have off: "(i - si) * ?ss mod 2 ^ 32 = (i - si) * ?ss" using m1(1) d(2) by simp
    have IH: "\<exists>start' c'. cbd_read_loop C I si n (i + 1) (i + 1) (filled ?v ?ss si (Suc i) d) c1
        = Some (FOS_E_SUCCESS, start', filled ?v ?ss si start' d, c')
      \<and> rep c' kvs ds \<and> cbd_cache c' = cbd_cache c \<and> cbd_sector_size I c' = ?ss
      \<and> si \<le> start' \<and> start' \<le> i + Suc n \<and> (\<forall>k. start' \<le> k \<longrightarrow> k < i + Suc n \<longrightarrow> map_of kvs k = None)"
      using Suc.IH [OF c1(2), of "i + 1" "i + 1"] se d c1(3,4) by simp
    have h1: "ind < length (cbd_cache c1)" "length (cse_sector (cbd_cache c1 ! ind)) = ?ss" using h c1(3) by simp_all
    show ?thesis using look Some c1(1,3,4) h1 vi f2 off IH
      by (simp del: filled_def)
  qed
qed

lemma read_law:
  assumes r: "rep c kvs ds" and si: "si < length ds" "si + n \<le> length ds"
    and d: "n * cbd_sector_size I c \<le> length d" "length d < 2 ^ 32"
  shows "\<exists>c'. cbd_read C I c si n (Some d) = Some (FOS_E_SUCCESS,
      Some (concat (take n (drop si (view_of (cbd_cache c) kvs ds))) @ drop (n * cbd_sector_size I c) d), c')
    \<and> rep c' kvs ds \<and> cbd_cache c' = cbd_cache c \<and> cbd_sector_size I c' = cbd_sector_size I c"
proof -
  let ?ss = "cbd_sector_size I c" and ?v = "view_of (cbd_cache c) kvs ds"
  have "\<not> sectors_bad (cbd_num_sectors I c) si n"
    using sectors_bad_iff [of si n "length ds"] si rep_geometry(1,3) [OF r] by simp
  moreover obtain st c1 where c1: "cbd_read_loop C I si n si si d c = Some (FOS_E_SUCCESS, st, filled ?v ?ss si st d, c1)"
    "rep c1 kvs ds" "cbd_cache c1 = cbd_cache c" "cbd_sector_size I c1 = ?ss" "si \<le> st" "st \<le> si + n"
    "\<And>k. st \<le> k \<Longrightarrow> k < si + n \<Longrightarrow> map_of kvs k = None"
  proof -
    have "filled ?v ?ss si si d = d" by (simp add: filled_def)
    then show ?thesis using that read_loop [OF r, of si si si n d] si d by auto
  qed
  moreover have "\<exists>c'. cbd_read_section I c1 si st (si + n) (filled ?v ?ss si st d)
      = Some (FOS_E_SUCCESS, filled ?v ?ss si (si + n) d, c')
    \<and> rep c' kvs ds \<and> cbd_cache c' = cbd_cache c \<and> cbd_sector_size I c' = ?ss"
  proof (cases "st = si + n")
    case True
    then show ?thesis using c1 by (simp add: cbd_read_section_def)
  next
    case False
    have vs: "k < length ?v \<Longrightarrow> length (?v ! k) = ?ss" for k using rep_view_sector [OF r] by simp
    note f = filled_step [of ?v ?ss si st "si + n" d, OF vs c1(5,6)]
    have st: "st < length ds" using False c1(6) si by simp
    have len: "length (filled ?v ?ss si st d) = length d" using f(2) si d by simp
    show ?thesis
      using read_section [OF c1(2,5) st c1(6), of "filled ?v ?ss si st d"] si d c1(3,4) len f(1)
        sections_agree [OF r _ c1(7), of "si + n"] by simp
  qed
  ultimately show ?thesis by (auto simp: cbd_read_def filled_def)
qed

lemma write_section:
  assumes r: "rep c kvs ds" and se: "si \<le> start" "start \<le> stop" "stop \<le> length ds" "length v0 = length ds"
    and s: "(stop - si) * cbd_sector_size I c \<le> length s" "length s < 2 ^ 32"
    and view: "view_of (cbd_cache c) kvs ds = written v0 (cbd_sector_size I c) si start s"
    and miss: "\<And>k. start \<le> k \<Longrightarrow> k < stop \<Longrightarrow> map_of kvs k = None"
  shows "\<exists>c' ds'. cbd_write_section I c si start stop s = Some (FOS_E_SUCCESS, c') \<and> rep c' kvs ds'
    \<and> length ds' = length ds \<and> cbd_cache c' = cbd_cache c \<and> cbd_sector_size I c' = cbd_sector_size I c
    \<and> view_of (cbd_cache c) kvs ds' = written v0 (cbd_sector_size I c) si stop s"
proof (cases "start < stop")
  case False
  then have "stop = start" using se by simp
  then show ?thesis using r view by (auto simp: cbd_write_section_def)
next
  case True
  let ?ss = "cbd_sector_size I c" and ?off = "(start - si) * cbd_sector_size I c"
  let ?ds = "written ds ?ss start stop (drop ?off s)"
  have le: "?off + (stop - start) * ?ss = (stop - si) * ?ss" using span [OF se(1,2)] .
  have off: "?off \<le> length s" "?off mod 2 ^ 32 = ?off" using s le by simp_all
  obtain b where b: "bdi_write I (cbd_wrapped_bd c) start (stop - start) (Some (drop ?off s)) = Some (FOS_E_SUCCESS, b)"
    "inv b ?ds" "bdi_sector_size I b = ?ss"
  proof -
    have "(stop - start) * ?ss \<le> length (drop ?off s)" "length (drop ?off s) < 2 ^ 32" using s le by simp_all
    with write_ok [OF repD(2) [OF r], of start "stop - start" "drop ?off s"] show ?thesis
      using that se True unfolding cbd_sector_size_def written_def by auto
  qed
  have l: "length ?ds = length ds" using se by simp
  have "rep (c\<lparr>cbd_wrapped_bd := b\<rparr>) kvs ?ds" by (rule rep_wrapped [OF r b(2) l b(3)])
  moreover have "view_of (cbd_cache c) kvs ?ds = written v0 ?ss si stop s"
  proof (rule nth_equalityI)
    fix k assume "k < length (view_of (cbd_cache c) kvs ?ds)"
    then have k: "k < length ds" using l by simp
    have old: "(case map_of kvs k of None \<Rightarrow> ds ! k | Some i \<Rightarrow> cse_sector (cbd_cache c ! i))
        = (if si \<le> k \<and> k < start then take ?ss (drop (?ss * (k - si)) s) else v0 ! k)"
      using view_nth [OF k, of "cbd_cache c" kvs] view written_nth [of si start v0 k ?ss s] se k by simp
    show "view_of (cbd_cache c) kvs ?ds ! k = written v0 ?ss si stop s ! k"
    proof (cases "start \<le> k \<and> k < stop")
      case True
      have "?ss * (k - start) + ?off = ?ss * (k - si)"
        using True se span [of si start k ?ss] by (simp add: mult.commute add.commute)
      then show ?thesis
        using True k l se miss [of k] written_nth [of start stop ds k ?ss] written_nth [of si stop v0 k ?ss s]
        by (simp add: view_nth)
    next
      case False
      then show ?thesis
        using k l se old written_nth [of start stop ds k ?ss] written_nth [of si stop v0 k ?ss s]
        by (cases "map_of kvs k") (auto simp: view_nth)
    qed
  qed (use l se in simp)
  ultimately show ?thesis using True b off l
    by (intro exI [of _ "c\<lparr>cbd_wrapped_bd := b\<rparr>"] exI [of _ ?ds]) (simp add: cbd_write_section_def cbd_sector_size_def)
qed

lemma set_sector:
  assumes r: "rep c kvs ds" and k: "map_of kvs k = Some i" and w: "off + length w \<le> cbd_sector_size I c"
  shows "\<exists>c'. cbd_set_sector c i off w = Some c' \<and> rep c' kvs ds \<and> cbd_sector_size I c' = cbd_sector_size I c
    \<and> cbd_wrapped_bd c' = cbd_wrapped_bd c
    \<and> view_of (cbd_cache c') kvs ds
       = (view_of (cbd_cache c) kvs ds)[k := patch off w (view_of (cbd_cache c) kvs ds ! k)]"
proof -
  note sl = repD(3) [OF r] and h = slots_hit [OF repD(3) [OF r] k]
  let ?s = "patch off w (cse_sector (cbd_cache c ! i))"
  let ?c = "c\<lparr>cbd_cache := (cbd_cache c)[i := (cbd_cache c ! i)\<lparr>cse_sector := ?s\<rparr>]\<rparr>"
  have l: "length ?s = cbd_sector_size I c" using w h(5) by simp
  have "rep ?c kvs ds"
    using r slots_put_sector [OF sl h(2) l] by (simp add: cbd_rep_def cbd_sector_size_def)
  moreover have "view_of (cbd_cache ?c) kvs ds = (view_of (cbd_cache c) kvs ds)[k := ?s]"
    using view_put_sector [OF sl k] by simp
  ultimately show ?thesis
    using h(2,4,5) w k by (intro exI [of _ ?c]) (simp add: cbd_set_sector_def cbd_sector_size_def view_nth)
qed

lemma write_loop:
  assumes "rep c kvs ds" and "si \<le> start" and "start \<le> i" and "i + n \<le> length ds" and "length v0 = length ds"
    and "(i + n - si) * cbd_sector_size I c \<le> length s" and "length s < 2 ^ 32"
    and "view_of (cbd_cache c) kvs ds = written v0 (cbd_sector_size I c) si start s"
    and "\<And>k. start \<le> k \<Longrightarrow> k < i \<Longrightarrow> map_of kvs k = None"
  shows "\<exists>start' c' ds'. cbd_write_loop C I si n i start s c = Some (FOS_E_SUCCESS, start', c')
    \<and> rep c' kvs ds' \<and> length ds' = length ds \<and> cbd_sector_size I c' = cbd_sector_size I c
    \<and> si \<le> start' \<and> start' \<le> i + n \<and> (\<forall>k. start' \<le> k \<longrightarrow> k < i + n \<longrightarrow> map_of kvs k = None)
    \<and> view_of (cbd_cache c') kvs ds' = written v0 (cbd_sector_size I c) si start' s"
  using assms
proof (induction n arbitrary: i start c ds)
  case 0
  then show ?case by auto
next
  case (Suc n)
  note r = Suc.prems(1) and se = Suc.prems(2-5) and s = Suc.prems(6,7) and view = Suc.prems(8) and miss = Suc.prems(9)
  let ?ss = "cbd_sector_size I c"
  have look: "cbd_lookup C c i = Some (map_of kvs i)" by (rule slots_lookup [OF repD(3) [OF r]])
  show ?case
  proof (cases "map_of kvs i")
    case None
    have "k < Suc i \<Longrightarrow> start \<le> k \<Longrightarrow> map_of kvs k = None" for k using None miss by (cases "k = i") auto
    then show ?thesis
      using Suc.IH [OF r se(1), of "i + 1"] se s view None look by (simp add: less_Suc_eq_le)
  next
    case (Some ind)
    have "(i - si) * ?ss \<le> (i + Suc n - si) * ?ss" "(Suc i - si) * ?ss \<le> (i + Suc n - si) * ?ss"
      by (intro mult_le_mono1; simp)+
    then have m1: "(i - si) * ?ss \<le> length s" "(Suc i - si) * ?ss \<le> length s" using s(1) by linarith+
    obtain c1 ds1 where c1: "cbd_write_section I c si start i s = Some (FOS_E_SUCCESS, c1)" "rep c1 kvs ds1"
      "length ds1 = length ds" "cbd_cache c1 = cbd_cache c" "cbd_sector_size I c1 = ?ss"
      "view_of (cbd_cache c) kvs ds1 = written v0 ?ss si i s"
      using write_section [OF r se(1,2) _ se(4) m1(1) s(2) view miss] se(3) by auto
    let ?w = "take ?ss (drop ((i - si) * ?ss) s)"
    have e: "(i - si) * ?ss + ?ss \<le> length s" using m1(2) se(1,2) by (simp add: Suc_diff_le add.commute)
    have w: "length ?w = ?ss" using e by simp
    obtain c2 where c2: "cbd_set_sector c1 ind 0 ?w = Some c2" "rep c2 kvs ds1" "cbd_sector_size I c2 = ?ss"
      "view_of (cbd_cache c2) kvs ds1 = (written v0 ?ss si i s)[i := patch 0 ?w (written v0 ?ss si i s ! i)]"
      using set_sector [OF c1(2) Some, of 0 ?w] c1(4-6) w by auto
    have il: "i < length ds" using se by simp
    have "length (view_of (cbd_cache c1) kvs ds1 ! i) = ?ss" using rep_view_sector [OF c1(2), of i] c1(3,5) il by simp
    then have "patch 0 ?w (written v0 ?ss si i s ! i) = ?w" using c1(4,6) w by (simp add: patch_0)
    then have v2: "view_of (cbd_cache c2) kvs ds1 = written v0 ?ss si (Suc i) s"
      using c2(4) se il written_nth [of si i v0 _ ?ss s] written_nth [of si "Suc i" v0 _ ?ss s]
      by (intro nth_equalityI) (auto simp: nth_list_update mult.commute)
    have off: "(i - si) * ?ss mod 2 ^ 32 = (i - si) * ?ss" using m1(1) s(2) by simp
    have "\<exists>start' c' ds'. cbd_write_loop C I si n (i + 1) (i + 1) s c2 = Some (FOS_E_SUCCESS, start', c')
      \<and> rep c' kvs ds' \<and> length ds' = length ds \<and> cbd_sector_size I c' = ?ss
      \<and> si \<le> start' \<and> start' \<le> i + Suc n \<and> (\<forall>k. start' \<le> k \<longrightarrow> k < i + Suc n \<longrightarrow> map_of kvs k = None)
      \<and> view_of (cbd_cache c') kvs ds' = written v0 ?ss si start' s"
      using Suc.IH [OF c2(2), of "i + 1" "i + 1"] se s c1(3) c2(3) v2 by simp
    then show ?thesis using look Some c1(1,5) c2(1) e off by simp
  qed
qed

lemma write_law:
  assumes r: "rep c kvs ds" and si: "si < length ds" "si + n \<le> length ds"
    and s: "n * cbd_sector_size I c \<le> length s" "length s < 2 ^ 32"
  shows "\<exists>c' ds'. cbd_write C I c si n (Some s) = Some (FOS_E_SUCCESS, c') \<and> rep c' kvs ds'
    \<and> length ds' = length ds \<and> cbd_sector_size I c' = cbd_sector_size I c
    \<and> view_of (cbd_cache c') kvs ds' = written (view_of (cbd_cache c) kvs ds) (cbd_sector_size I c) si (si + n) s"
proof -
  let ?ss = "cbd_sector_size I c" and ?v = "view_of (cbd_cache c) kvs ds"
  have "\<not> sectors_bad (cbd_num_sectors I c) si n"
    using sectors_bad_iff [of si n "length ds"] si rep_geometry(1,3) [OF r] by simp
  moreover have "?v = written ?v ?ss si si s" by (simp add: written_def cells_def)
  then obtain st c1 ds1 where c1: "cbd_write_loop C I si n si si s c = Some (FOS_E_SUCCESS, st, c1)" "rep c1 kvs ds1"
    "length ds1 = length ds" "cbd_sector_size I c1 = ?ss" "si \<le> st" "st \<le> si + n"
    "\<And>k. st \<le> k \<Longrightarrow> k < si + n \<Longrightarrow> map_of kvs k = None" "view_of (cbd_cache c1) kvs ds1 = written ?v ?ss si st s"
    using write_loop [OF r, of si si si n ?v s] si s by auto
  moreover have "\<exists>c' ds'. cbd_write_section I c1 si st (si + n) s = Some (FOS_E_SUCCESS, c') \<and> rep c' kvs ds'
      \<and> length ds' = length ds1 \<and> cbd_cache c' = cbd_cache c1 \<and> cbd_sector_size I c' = cbd_sector_size I c1
      \<and> view_of (cbd_cache c1) kvs ds' = written ?v (cbd_sector_size I c1) si (si + n) s"
    by (rule write_section [OF c1(2,5,6)]) (use c1 si s in simp_all)
  ultimately show ?thesis by (auto simp: cbd_write_def)
qed

lemma load_slot:
  assumes env: "cbd_env_ok C" and inv: "inv (cbd_wrapped_bd c) ds" and h: "hole_ok c kvs (cbd_sector_size I c) (length ds) x"
    and k: "k < length ds" and miss: "map_of kvs k = None"
  shows "\<exists>c'. cbd_load_slot C I c x k = Some (FOS_E_SUCCESS, x, c')
    \<and> rep c' ((k, x) # kvs) ds \<and> cbd_sector_size I c' = cbd_sector_size I c
    \<and> view_of (cbd_cache c') ((k, x) # kvs) ds = view_of (cbd_cache c) kvs ds"
proof -
  obtain m where m: "cbd_sector_map c = Some m" "chm_inv m kvs" "chm_key_eq m = (=)" "0 < chm_val_size m"
    using h unfolding hole_ok_def by blast
  have x: "x < length (cbd_cache c)" using h unfolding hole_ok_def by auto
  have sub: "set kvs \<subseteq> (\<lambda>i. (cse_sector_ind (cbd_cache c ! i), i)) ` {..<cbd_cache_fill c}" and d: "distinct kvs"
    using h unfolding hole_ok_def by (auto simp: distinct_map)
  have "length kvs \<le> card ((\<lambda>i. (cse_sector_ind (cbd_cache c ! i), i)) ` {..<cbd_cache_fill c})"
    using card_mono [OF _ sub] distinct_card [OF d] by simp
  also have "\<dots> \<le> cbd_cache_fill c" using card_image_le [of "{..<cbd_cache_fill c}"] by simp
  finally have len: "length kvs + 1 < 2 ^ 32" using h unfolding hole_ok_def by linarith
  obtain m' where m': "chm_put (cd_junk C) (cd_al C) (cd_mem C) m (Some k) (Some x) = Some (FOS_E_SUCCESS, m')"
    "chm_inv m' ((k, x) # kvs)" "chm_key_eq m' = (=)" "0 < chm_val_size m'"
    using chm.put_new [of m kvs "cd_al C" "cd_mem C" "cd_junk C" k x] m len miss env
    by (auto simp: cbd_env_ok_def kv_find_map_of)
  have ls: "length (cse_sector (cbd_cache c ! x)) = bdi_sector_size I (cbd_wrapped_bd c)"
    using h x unfolding hole_ok_def cbd_sector_size_def by auto
  obtain b where b: "bdi_read I (cbd_wrapped_bd c) k 1 (Some (cse_sector (cbd_cache c ! x))) = Some (FOS_E_SUCCESS, Some (ds ! k), b)"
    "inv b ds" "bdi_sector_size I b = cbd_sector_size I c"
    using read_one [OF inv k ls] by (auto simp: cbd_sector_size_def)
  let ?c0 = "c\<lparr>cbd_cache := (cbd_cache c)[x := (cbd_cache c ! x)\<lparr>cse_sector_ind := k, cse_sector := ds ! k\<rparr>],
      cbd_sector_map := Some m'\<rparr>"
  let ?c = "?c0\<lparr>cbd_wrapped_bd := b\<rparr>"
  have "length (ds ! k) = cbd_sector_size I c" using sector_length [OF inv k] by (simp add: cbd_sector_size_def)
  from fill_hole [OF h k miss this m'(2-4)]
  have "slots_ok ?c ((k, x) # kvs) (cbd_sector_size I c) (length ds)" by (subst slots_frame)
  then have "rep ?c ((k, x) # kvs) ds" using env b unfolding cbd_rep_def by simp
  then show ?thesis using m(1) m'(1) b x hole_view [OF h miss] by (intro exI [of _ ?c]) (simp add: cbd_load_slot_def cbd_sector_size_def)
qed

lemma get_entry:
  assumes r: "rep c kvs ds" and k: "k < length ds"
  shows "\<exists>x c' kvs' ds'. cbd_get_cache_entry_ind C I c k = Some (FOS_E_SUCCESS, x, c') \<and> rep c' kvs' ds'
    \<and> length ds' = length ds \<and> cbd_sector_size I c' = cbd_sector_size I c \<and> map_of kvs' k = Some x
    \<and> view_of (cbd_cache c') kvs' ds' = view_of (cbd_cache c) kvs ds"
proof (cases "map_of kvs k")
  case (Some x)
  then show ?thesis using r slots_lookup [OF repD(3) [OF r], of C k]
    by (intro exI [of _ x] exI [of _ c] exI [of _ kvs] exI [of _ ds]) (simp add: cbd_get_cache_entry_ind_def)
next
  case None
  note look = slots_lookup [OF repD(3) [OF r], of C k] and sl = repD(3) [OF r]
  show ?thesis
  proof (cases "cbd_cache_fill c < cbd_cache_cap c")
    case True
    let ?c = "c\<lparr>cbd_cache_fill := cbd_cache_fill c + 1\<rparr>"
    have h: "hole_ok ?c kvs (cbd_sector_size I ?c) (length ds) (cbd_cache_fill c)"
      using slots_fresh [OF sl True] by (simp add: cbd_sector_size_def)
    from load_slot [OF repD(1) [OF r] _ h k None] repD(2) [OF r] show ?thesis
      using None look True by (fastforce simp: cbd_get_cache_entry_ind_def cbd_sector_size_def)
  next
    case False
    then have full: "cbd_cache_fill c = cbd_cache_cap c" "0 < cbd_cache_cap c" "length (cbd_cache c) = cbd_cache_cap c"
      using sl unfolding slots_ok_def by auto
    obtain y rr where y: "next_rand_u32 (cbd_r c) = (y, rr)" by fastforce
    let ?x = "unat y mod cbd_cache_cap c"
    have x: "?x < cbd_cache_fill c" "?x < length (cbd_cache c)" using full by simp_all
    let ?e = "cbd_cache c ! ?x" and ?c1 = "c\<lparr>cbd_r := rr\<rparr>"
    let ?ds = "ds[cse_sector_ind ?e := cse_sector ?e]" and ?kvs = "kv_remove (=) (cse_sector_ind ?e) kvs"
    have k0: "cse_sector_ind ?e < length ds" using sl x(1) unfolding slots_ok_def by auto
    have ls: "length (cse_sector ?e) = bdi_sector_size I (cbd_wrapped_bd c)"
      using sl x(2) unfolding slots_ok_def cbd_sector_size_def by auto
    obtain b where b: "bdi_write I (cbd_wrapped_bd c) (cse_sector_ind ?e) 1 (Some (cse_sector ?e)) = Some (FOS_E_SUCCESS, b)"
      "inv b ?ds" "bdi_sector_size I b = cbd_sector_size I c"
      using write_one [OF repD(2) [OF r] k0 ls] by (auto simp: cbd_sector_size_def)
    obtain m where m: "cbd_sector_map c = Some m" "chm_inv m kvs" "chm_key_eq m = (=)" "0 < chm_val_size m"
      using sl unfolding slots_ok_def by blast
    obtain m' where m': "chm_remove m (Some (cse_sector_ind ?e)) = Some (kv_find (=) kvs (cse_sector_ind ?e) \<noteq> None, m')"
      "chm_inv m' ?kvs" "chm_key_eq m' = (=)" "0 < chm_val_size m'"
      using chm.remove_ok [OF m(2), of "cd_junk C" "cse_sector_ind ?e"] m by auto
    let ?c2 = "c\<lparr>cbd_r := rr, cbd_wrapped_bd := b, cbd_sector_map := Some m'\<rparr>"
    have "slots_ok (c\<lparr>cbd_r := rr, cbd_wrapped_bd := b\<rparr>) kvs (cbd_sector_size I c) (length ?ds)"
      using sl by (simp add: slots_ok_def)
    from slots_evict [OF this, of ?x m'] x(1) m'(2-4)
    have h: "hole_ok ?c2 ?kvs (cbd_sector_size I ?c2) (length ?ds) ?x"
      using b(3) by (simp add: cbd_sector_size_def)
    have view: "view_of (cbd_cache c) ?kvs ?ds = view_of (cbd_cache c) kvs ds"
      using slots_of_slot [OF sl x(1)] k0
      by (intro nth_equalityI) (auto simp: view_nth map_of_kv_remove nth_list_update split: option.split)
    have miss: "map_of ?kvs k = None" using None by (simp add: map_of_kv_remove)
    from load_slot [OF repD(1) [OF r] _ h _ miss] b(2) k obtain c' where c':
      "cbd_load_slot C I ?c2 ?x k = Some (FOS_E_SUCCESS, ?x, c')"
      "rep c' ((k, ?x) # ?kvs) ?ds" "cbd_sector_size I c' = cbd_sector_size I c"
      "view_of (cbd_cache c') ((k, ?x) # ?kvs) ?ds = view_of (cbd_cache c) kvs ds"
      using view b(3) by (auto simp: cbd_sector_size_def)
    have "cbd_get_cache_entry_ind C I c k = Some (FOS_E_SUCCESS, ?x, c')"
      using c'(1) None look False y x b(1) m(1) m'(1)
      by (simp add: cbd_get_cache_entry_ind_def)
    then show ?thesis using c'(2-4)
      by (intro exI [of _ ?x] exI [of _ c'] exI [of _ "(k, ?x) # ?kvs"] exI [of _ ?ds]) simp
  qed
qed

lemma piece_ok:
  assumes r: "rep c kvs ds" and p: "si < length ds" "off < cbd_sector_size I c" "off + len \<le> cbd_sector_size I c"
  shows "\<not> piece_bad (cbd_num_sectors I c) (cbd_sector_size I c) si off len"
  using piece_bad_iff [of off len "cbd_sector_size I c"] p rep_geometry [OF r] by simp

lemma read_piece_law:
  assumes r: "rep c kvs ds" and p: "si < length ds" "off < cbd_sector_size I c" "off + len \<le> cbd_sector_size I c"
    and d: "len \<le> length d"
  shows "\<exists>c' kvs' ds'. cbd_read_piece C I c si off len (Some d) = Some (FOS_E_SUCCESS,
      Some (take len (drop off (view_of (cbd_cache c) kvs ds ! si)) @ drop len d), c') \<and> rep c' kvs' ds'
    \<and> view_of (cbd_cache c') kvs' ds' = view_of (cbd_cache c) kvs ds \<and> cbd_sector_size I c' = cbd_sector_size I c"
proof -
  from get_entry [OF r p(1)] obtain x c' kvs' ds' where g: "cbd_get_cache_entry_ind C I c si = Some (FOS_E_SUCCESS, x, c')"
    "rep c' kvs' ds'" "length ds' = length ds" "cbd_sector_size I c' = cbd_sector_size I c" "map_of kvs' si = Some x"
    "view_of (cbd_cache c') kvs' ds' = view_of (cbd_cache c) kvs ds" by blast
  note h = slots_hit [OF repD(3) [OF g(2)] g(5)]
  have v: "cse_sector (cbd_cache c' ! x) = view_of (cbd_cache c) kvs ds ! si"
    unfolding g(6) [symmetric] using g(5) h(4) by (simp add: view_nth)
  have "length (take len (drop off (view_of (cbd_cache c) kvs ds ! si))) = len"
    using h(5) g(4) p(3) unfolding v by simp
  then show ?thesis using g h p(3) d v piece_ok [OF r p]
    by (intro exI [of _ c'] exI [of _ kvs'] exI [of _ ds']) (simp add: cbd_read_piece_def patch_0 del: length_take)
qed

lemma write_piece_law:
  assumes r: "rep c kvs ds" and p: "si < length ds" "off < cbd_sector_size I c" "off + len \<le> cbd_sector_size I c"
    and s: "len \<le> length s"
  shows "\<exists>c' kvs' ds'. cbd_write_piece C I c si off len (Some s) = Some (FOS_E_SUCCESS, c') \<and> rep c' kvs' ds'
    \<and> view_of (cbd_cache c') kvs' ds'
       = (view_of (cbd_cache c) kvs ds)[si := patch off (take len s) (view_of (cbd_cache c) kvs ds ! si)]
    \<and> cbd_sector_size I c' = cbd_sector_size I c"
proof -
  from get_entry [OF r p(1)] obtain x c1 kvs' ds' where g: "cbd_get_cache_entry_ind C I c si = Some (FOS_E_SUCCESS, x, c1)"
    "rep c1 kvs' ds'" "cbd_sector_size I c1 = cbd_sector_size I c" "map_of kvs' si = Some x"
    "view_of (cbd_cache c1) kvs' ds' = view_of (cbd_cache c) kvs ds" by blast
  have "off + length (take len s) \<le> cbd_sector_size I c1" using p(3) g(3) by simp
  from set_sector [OF g(2,4) this] obtain c' where "cbd_set_sector c1 x off (take len s) = Some c'" "rep c' kvs' ds'"
    "cbd_sector_size I c' = cbd_sector_size I c1" "view_of (cbd_cache c') kvs' ds'
      = (view_of (cbd_cache c) kvs ds)[si := patch off (take len s) (view_of (cbd_cache c) kvs ds ! si)]"
    unfolding g(5) by blast
  then show ?thesis using g(1,3) s piece_ok [OF r p]
    by (intro exI [of _ c'] exI [of _ kvs'] exI [of _ ds']) (simp add: cbd_write_piece_def)
qed

lemma flush_loop:
  assumes "chm_inv_it m kvs xs" and "0 < chm_val_size m" and "inv (cbd_wrapped_bd c) ds"
    and "\<And>k i. (k, i) \<in> set xs \<Longrightarrow> k < length ds \<and> i < length (cbd_cache c)
      \<and> length (cse_sector (cbd_cache c ! i)) = bdi_sector_size I (cbd_wrapped_bd c)"
  shows "\<exists>m' b. cbd_flush_loop C I c m (if xs = [] then FOS_E_EMPTY else FOS_E_SUCCESS) (fst_or None xs)
      = Some (FOS_E_EMPTY, m', c\<lparr>cbd_wrapped_bd := b\<rparr>)
    \<and> inv b (flushed (cbd_cache c) xs ds) \<and> bdi_sector_size I b = bdi_sector_size I (cbd_wrapped_bd c)"
  using assms
proof (induction xs arbitrary: m c ds)
  case Nil
  then show ?case by (auto simp: cbd_flush_loop.simps flushed_def intro!: exI [of _ "cbd_wrapped_bd c"])
next
  case (Cons x xs)
  obtain k i where x: "x = (k, i)" by fastforce
  then have ki: "k < length ds" "i < length (cbd_cache c)"
    "length (cse_sector (cbd_cache c ! i)) = bdi_sector_size I (cbd_wrapped_bd c)" using Cons.prems(4) by auto
  obtain b where b: "bdi_write I (cbd_wrapped_bd c) k 1 (Some (cse_sector (cbd_cache c ! i))) = Some (FOS_E_SUCCESS, b)"
    "inv b (ds[k := cse_sector (cbd_cache c ! i)])" "bdi_sector_size I b = bdi_sector_size I (cbd_wrapped_bd c)"
    using write_one [OF Cons.prems(3) ki(1,3)] by blast
  obtain m1 where m1: "chm_next_iter m True =
      Some (case xs of [] \<Rightarrow> (FOS_E_EMPTY, None, m1) | y # _ \<Rightarrow> (FOS_E_SUCCESS, Some y, m1))"
    "chm_inv_it m1 kvs xs" "chm_val_size m1 = chm_val_size m"
    using chm.iter_next [OF Cons.prems(1), of True] Cons.prems(2) by auto
  let ?c = "c\<lparr>cbd_wrapped_bd := b\<rparr>"
  have "\<exists>m' b'. cbd_flush_loop C I ?c m1 (if xs = [] then FOS_E_EMPTY else FOS_E_SUCCESS) (fst_or None xs)
      = Some (FOS_E_EMPTY, m', ?c\<lparr>cbd_wrapped_bd := b'\<rparr>)
    \<and> inv b' (flushed (cbd_cache ?c) xs (ds[k := cse_sector (cbd_cache c ! i)]))
    \<and> bdi_sector_size I b' = bdi_sector_size I (cbd_wrapped_bd ?c)"
    using Cons.prems(2,4) m1(2,3) b by (intro Cons.IH) auto
  then obtain m' b' where IH: "cbd_flush_loop C I ?c m1 (if xs = [] then FOS_E_EMPTY else FOS_E_SUCCESS) (fst_or None xs)
      = Some (FOS_E_EMPTY, m', ?c\<lparr>cbd_wrapped_bd := b'\<rparr>)"
    "inv b' (flushed (cbd_cache c) (x # xs) ds)" "bdi_sector_size I b' = bdi_sector_size I (cbd_wrapped_bd c)"
    using x b(3) by (auto simp: flushed_def)
  have "cbd_flush_loop C I c m FOS_E_SUCCESS (Some (k, i)) = Some (FOS_E_EMPTY, m', ?c\<lparr>cbd_wrapped_bd := b'\<rparr>)"
    using b(1) m1(1) ki(2) IH(1) by (subst cbd_flush_loop.simps) (cases xs; simp)
  then show ?case using IH(2,3) x by auto
qed

lemma flush_law:
  assumes r: "rep c kvs ds"
  shows "\<exists>c'. cbd_flush C I c = Some (FOS_E_SUCCESS, c') \<and> rep c' [] (view_of (cbd_cache c) kvs ds)
    \<and> cbd_sector_size I c' = cbd_sector_size I c"
proof -
  note sl = repD(3) [OF r]
  obtain m where m: "cbd_sector_map c = Some m" "chm_inv m kvs" "chm_key_eq m = (=)" "0 < chm_val_size m"
    using sl unfolding slots_ok_def by blast
  obtain m1 xs where m1: "chm_reset_iter m = Some m1" "chm_inv_it m1 kvs xs" "mset xs = mset kvs"
    "chm_val_size m1 = chm_val_size m"
    using chm.reset_ok [OF m(2)] by auto
  have get: "chm_get_iter m1 True = Some (case xs of [] \<Rightarrow> (FOS_E_EMPTY, None) | x # _ \<Rightarrow> (FOS_E_SUCCESS, Some x))"
    using chm.iter_get [OF m1(2), of True] m(4) m1(4) by simp
  have sx: "set xs = set kvs" using m1(3) by (rule mset_eq_setD)
  have dx: "distinct (map fst xs)"
    using sl m1(3) unfolding slots_ok_def by (metis mset_map mset_eq_imp_distinct_iff)
  have dk: "distinct (map fst kvs)" using sl unfolding slots_ok_def by blast
  have mo: "map_of xs = map_of kvs"
  proof
    fix k show "map_of xs k = map_of kvs k"
      by (rule option_ext) (use dx dk sx map_of_eq_Some_iff in metis)
  qed
  have v: "flushed (cbd_cache c) xs ds = view_of (cbd_cache c) kvs ds"
    by (rule nth_equalityI) (simp_all add: flushed_nth [OF dx] mo view_nth)
  have e: "k < length ds \<and> i < length (cbd_cache c) \<and> length (cse_sector (cbd_cache c ! i)) = bdi_sector_size I (cbd_wrapped_bd c)"
    if "(k, i) \<in> set xs" for k i
  proof -
    have "map_of kvs k = Some i" using that sx dk by (simp add: map_of_eq_Some_iff)
    from slots_hit [OF sl this] show ?thesis by (simp add: cbd_sector_size_def)
  qed
  have vs: "0 < chm_val_size m1" using m(4) m1(4) by simp
  obtain m2 b where lp: "cbd_flush_loop C I c m1 (if xs = [] then FOS_E_EMPTY else FOS_E_SUCCESS) (fst_or None xs)
      = Some (FOS_E_EMPTY, m2, c\<lparr>cbd_wrapped_bd := b\<rparr>)"
    "inv b (view_of (cbd_cache c) kvs ds)" "bdi_sector_size I b = bdi_sector_size I (cbd_wrapped_bd c)"
    using flush_loop [OF m1(2) vs repD(2) [OF r] e] unfolding v by blast
  have start: "chm_get_iter m1 True = Some (if xs = [] then FOS_E_EMPTY else FOS_E_SUCCESS, fst_or None xs)"
    unfolding get by (cases xs) simp_all
  obtain m3 where m3: "new_sector_map C = Some m3"
    using repD(1) [OF r] by (auto simp: new_sector_map_def cbd_env_ok_def new_chained_hash_map_def)
  have m3': "chm_inv m3 []" "chm_key_eq m3 = (=)" "chm_val_size m3 = 4"
    using new_chained_hash_map_inv [OF m3 [unfolded new_sector_map_def]] by (simp_all add: identity_equivp)
  obtain b' where b': "bd_flush I b = Some (FOS_E_SUCCESS, b')" "inv b' (view_of (cbd_cache c) kvs ds)"
    "bdi_sector_size I b' = bdi_sector_size I b" using flush_ok [OF lp(2)] by blast
  let ?c = "c\<lparr>cbd_wrapped_bd := b', cbd_sector_map := Some m3, cbd_cache_fill := 0\<rparr>"
  have "cbd_flush C I c = Some (FOS_E_SUCCESS, ?c)"
    using m(1) m1(1) start lp(1) m3 b'(1) by (simp add: cbd_flush_def)
  moreover have "rep ?c [] (view_of (cbd_cache c) kvs ds)"
    using r b' lp(3) m3' sl by (simp add: cbd_rep_def slots_ok_def cbd_sector_size_def)
  ultimately show ?thesis using b'(3) lp(3) by (auto simp: cbd_sector_size_def)
qed

text \<open>The cache is a block device.\<close>

lemma CBD_IMPL_simps:
  "bdi_num_sectors (CBD_IMPL C I) = cbd_num_sectors I" "bdi_sector_size (CBD_IMPL C I) = cbd_sector_size I"
  "bdi_read (CBD_IMPL C I) = cbd_read C I" "bdi_write (CBD_IMPL C I) = cbd_write C I"
  "bdi_read_piece (CBD_IMPL C I) = cbd_read_piece C I" "bdi_write_piece (CBD_IMPL C I) = cbd_write_piece C I"
  "bd_flush (CBD_IMPL C I) c = cbd_flush C I c"
  by (simp_all add: CBD_IMPL_def bd_flush_def)

abbreviation "cinv \<equiv> cbd_inv C I inv"

lemma cinvE:
  assumes "cinv c secs"
  obtains kvs ds where "rep c kvs ds" and "secs = view_of (cbd_cache c) kvs ds" and "length secs = length ds"
  using assms by (auto simp: cbd_inv_def)

lemma cinvI: "rep c kvs ds \<Longrightarrow> secs = view_of (cbd_cache c) kvs ds \<Longrightarrow> cinv c secs"
  by (auto simp: cbd_inv_def)

end

sublocale cached_device \<subseteq> cbd: block_device "CBD_IMPL C I" "cbd_inv C I inv"
proof (unfold_locales, unfold CBD_IMPL_simps)
  fix c secs si n off len d s
  assume i: "cinv c secs"
  then obtain kvs ds where r: "rep c kvs ds" and v: "secs = view_of (cbd_cache c) kvs ds" and l: "length secs = length ds"
    by (rule cinvE)
  note g = rep_geometry [OF r]
  show "cbd_num_sectors I c = length secs \<and> 0 < cbd_sector_size I c \<and> length secs < 2 ^ 32 \<and> cbd_sector_size I c < 2 ^ 32
      \<and> (\<forall>s\<in>set secs. length s = cbd_sector_size I c)"
    using g rep_view_sector [OF r] l by (auto simp: v in_set_conv_nth)
  show "si < length secs \<Longrightarrow> si + n \<le> length secs \<Longrightarrow> n * cbd_sector_size I c \<le> length d \<Longrightarrow> length d < 2 ^ 32 \<Longrightarrow>
      \<exists>b'. cbd_read C I c si n (Some d) = Some (FOS_E_SUCCESS, Some (concat (take n (drop si secs)) @ drop (n * cbd_sector_size I c) d), b')
        \<and> cinv b' secs \<and> cbd_sector_size I b' = cbd_sector_size I c"
    using read_law [OF r, of si n d] unfolding v by (fastforce intro: cinvI)
  show "si < length secs \<Longrightarrow> si + n \<le> length secs \<Longrightarrow> n * cbd_sector_size I c \<le> length s \<Longrightarrow> length s < 2 ^ 32 \<Longrightarrow>
      \<exists>b'. cbd_write C I c si n (Some s) = Some (FOS_E_SUCCESS, b')
        \<and> cinv b' (take si secs @ cells (cbd_sector_size I c) n s @ drop (si + n) secs) \<and> cbd_sector_size I b' = cbd_sector_size I c"
    using write_law [OF r, of si n s] unfolding v by (fastforce simp: written_def intro: cinvI)
  show "si < length secs \<Longrightarrow> off < cbd_sector_size I c \<Longrightarrow> off + len \<le> cbd_sector_size I c \<Longrightarrow> len \<le> length d \<Longrightarrow>
      \<exists>b'. cbd_read_piece C I c si off len (Some d) = Some (FOS_E_SUCCESS, Some (take len (drop off (secs ! si)) @ drop len d), b')
        \<and> cinv b' secs \<and> cbd_sector_size I b' = cbd_sector_size I c"
    using read_piece_law [OF r, of si off len d] unfolding v by (fastforce intro: cinvI)
  show "si < length secs \<Longrightarrow> off < cbd_sector_size I c \<Longrightarrow> off + len \<le> cbd_sector_size I c \<Longrightarrow> len \<le> length s \<Longrightarrow>
      \<exists>b'. cbd_write_piece C I c si off len (Some s) = Some (FOS_E_SUCCESS, b')
        \<and> cinv b' (secs[si := patch off (take len s) (secs ! si)]) \<and> cbd_sector_size I b' = cbd_sector_size I c"
    using write_piece_law [OF r, of si off len s] unfolding v by (fastforce intro: cinvI)
  show "\<exists>b'. cbd_flush C I c = Some (FOS_E_SUCCESS, b') \<and> cinv b' secs \<and> cbd_sector_size I b' = cbd_sector_size I c"
    using flush_law [OF r] cinvI [of _ "[]" "view_of (cbd_cache c) kvs ds"] unfolding v by auto
  show "sectors_bad (length secs) si n \<Longrightarrow> cbd_read C I c si n (Some d) = Some (FOS_E_INVALID_RANGE, Some d, c)"
    "sectors_bad (length secs) si n \<Longrightarrow> cbd_write C I c si n (Some s) = Some (FOS_E_INVALID_RANGE, c)"
    "piece_bad (length secs) (cbd_sector_size I c) si off len \<Longrightarrow>
      cbd_read_piece C I c si off len (Some d) = Some (FOS_E_INVALID_RANGE, Some d, c)"
    "piece_bad (length secs) (cbd_sector_size I c) si off len \<Longrightarrow>
      cbd_write_piece C I c si off len (Some s) = Some (FOS_E_INVALID_RANGE, c)"
    using g(1) l by (simp_all add: cbd_read_def cbd_write_def cbd_read_piece_def cbd_write_piece_def)
qed (simp_all add: cbd_read_def cbd_write_def cbd_read_piece_def cbd_write_piece_def)

interpretation cmbd: cached_device MBD_IMPL mbd_inv C for C
  by unfold_locales

end
