(* ===== verification/Cached_Device_Correctness.thy ===== *)
theory Cached_Device_Correctness imports Cached_Block_Device begin

text \<open>
  The promises of the cached block device: it answers like the device it wraps, a flush brings that
  device up to date, and what goes wrong when memory runs out while a sector is loaded.
\<close>

section \<open>A new cache\<close>

lemma cbd_alloc_sectors_ok:
  assumes "cbd_alloc_sectors sec n i c = Some c'" and "i + n = length c"
    and "\<And>j s. sec j = Some s \<Longrightarrow> length s = ss" and "\<And>j. j < i \<Longrightarrow> length (cse_sector (c ! j)) = ss"
  shows "length c' = length c \<and> (\<forall>e\<in>set c'. length (cse_sector e) = ss)"
  using assms
proof (induction n arbitrary: i c)
  case 0
  then show ?case by (auto simp: in_set_conv_nth)
next
  case (Suc n)
  obtain s where s: "sec i = Some s" "length s = ss" using Suc.prems(1,3) by (auto split: option.splits)
  let ?c = "c[i := (c ! i)\<lparr>cse_sector := s\<rparr>]"
  have "cbd_alloc_sectors sec n (i + 1) ?c = Some c'" using Suc.prems(1,2) s by simp
  moreover have "length (cse_sector (?c ! j)) = ss" if "j < i + 1" for j
    using that Suc.prems(2,4) s by (cases "j = i") simp_all
  ultimately show ?case using Suc.IH [of "i + 1" ?c] Suc.prems(2,3) by simp
qed

lemma new_cached_block_device_inv:
  assumes new: "new_cached_block_device C True (Some b) cc seed ok (Some cache) sec = Some c"
    and b: "mbd_inv b secs" and env: "cbd_env_ok C" and cc: "cc + 1 < 2 ^ 32" "length cache = cc"
    and sec: "\<And>j s. sec j = Some s \<Longrightarrow> length s = mbd_sector_size b"
  shows "cbd_inv C MBD_IMPL mbd_inv c secs \<and> cbd_wrapped_bd c = b"
proof -
  obtain m c0 where m: "new_sector_map C = Some m" "cbd_alloc_sectors sec cc 0 cache = Some c0" "0 < cc"
    "c = \<lparr>cbd_wrapped_bd = b, cbd_r = rand_seed (ucast seed), cbd_cache_cap = cc, cbd_cache_fill = 0,
       cbd_cache = c0, cbd_sector_map = Some m\<rparr>"
    using new by (auto simp: new_cached_block_device_def split: option.splits if_splits)
  have "chm_inv m [] \<and> chm_key_eq m = (=) \<and> chm_val_size m = 4"
    using new_chained_hash_map_inv [OF m(1) [unfolded new_sector_map_def]] by (simp add: identity_equivp)
  moreover have "length c0 = cc \<and> (\<forall>e\<in>set c0. length (cse_sector e) = mbd_sector_size b)"
    using cbd_alloc_sectors_ok [OF m(2) _ sec] cc(2) by auto
  ultimately have r: "cbd_rep C MBD_IMPL mbd_inv c [] secs"
    using m b env cc by (simp add: cbd_rep_def slots_ok_def)
  from cmbd.cinvI [OF r] show ?thesis using m(4) by simp
qed

section \<open>Equivalence\<close>

text \<open>The device of the examples: three sectors of two bytes.\<close>

definition disk_sample :: mbd where
  "disk_sample = \<lparr>mbd_sector_size = 2, mbd_num_sectors = 3, mbd_mem = [1, 2, 3, 4, 5, 6]\<rparr>"

definition env_sample :: cbd_env where
  "env_sample = \<lparr>cd_al = bump_alloc, cd_mem = (\<lambda>n. 0 < n), cd_map_ok = True, cd_tbl_ok = True, cd_junk = 0\<rparr>"

definition cache_sample :: "mbd cbd" where
  "cache_sample = \<lparr>cbd_wrapped_bd = disk_sample, cbd_r = 7, cbd_cache_cap = 1, cbd_cache_fill = 0,
     cbd_cache = [\<lparr>cse_sector_ind = 9, cse_sector = [0, 0]\<rparr>], cbd_sector_map = new_sector_map env_sample\<rparr>"

lemma disk_sample_inv: "mbd_inv disk_sample [[1, 2], [3, 4], [5, 6]]"
  by (simp add: mbd_inv_def disk_sample_def cells_def upt_rec)

lemma env_sample_ok: "cbd_env_ok env_sample"
  by (simp add: cbd_env_ok_def env_sample_def)

lemma cache_sample_new: "new_cached_block_device env_sample True (Some disk_sample) 1 7 True
    (Some [\<lparr>cse_sector_ind = 9, cse_sector = []\<rparr>]) (\<lambda>_. Some [0, 0]) = Some cache_sample"
  by (simp add: new_cached_block_device_def cache_sample_def new_sector_map_def new_chained_hash_map_def env_sample_def
      rand_seed_def arr_get_def arr_set_def)

text \<open>C20. A program run on a new cache over a device in memory gets the same answers, errors and bytes read, as
  on the device itself, whatever it reads, writes and flushes and however small the cache is.\<close>

theorem cached_device_equivalent:
  assumes "new_cached_block_device C True (Some b) cc seed ok (Some cache) sec = Some c"
    and "mbd_inv b secs" and "cbd_env_ok C" and "cc + 1 < 2 ^ 32" and "length cache = cc"
    and "\<forall>j s. sec j = Some s \<longrightarrow> length s = mbd_sector_size b" and "\<forall>x\<in>set xs. op_ok (mbd_sector_size b) x"
  shows "\<exists>as b' c'. bd_run MBD_IMPL xs b = Some (as, b') \<and> bd_run (CBD_IMPL C MBD_IMPL) xs c = Some (as, c')"
proof -
  have c: "cbd_inv C MBD_IMPL mbd_inv c secs" "cbd_wrapped_bd c = b"
    using new_cached_block_device_inv [OF assms(1-5)] assms(6) by auto
  have "bdi_sector_size (CBD_IMPL C MBD_IMPL) c = mbd_sector_size b"
    using c(2) by (simp add: CBD_IMPL_def cbd_sector_size_def)
  then show ?thesis using mbd.run_disk [OF assms(2), of xs] cmbd.cbd.run_disk [OF c(1), of xs] assms(7) by auto
qed

theorem cached_device_equivalent_witness:
  "\<exists>as b' c'. bd_run MBD_IMPL [BD_Write_Piece 1 1 1 (Some [9]), BD_Read 0 3 (Some (replicate 6 0))] disk_sample = Some (as, b')
    \<and> bd_run (CBD_IMPL env_sample MBD_IMPL) [BD_Write_Piece 1 1 1 (Some [9]), BD_Read 0 3 (Some (replicate 6 0))] cache_sample
      = Some (as, c')"
  by (rule cached_device_equivalent [OF cache_sample_new disk_sample_inv env_sample_ok]) (simp_all add: disk_sample_def)

text \<open>C21. A flush of the cache succeeds and leaves in the wrapped device every sector as it reads through the
  cache; afterwards nothing is cached.\<close>

theorem cbd_flush_writes_back:
  assumes "cbd_inv C MBD_IMPL mbd_inv c secs"
  shows "\<exists>c'. cbd_flush C MBD_IMPL c = Some (FOS_E_SUCCESS, c') \<and> mbd_inv (cbd_wrapped_bd c') secs
    \<and> cbd_inv C MBD_IMPL mbd_inv c' secs \<and> (\<forall>k. cbd_lookup C c' k = Some None)"
proof -
  obtain kvs ds where r: "cbd_rep C MBD_IMPL mbd_inv c kvs ds" "secs = view_of (cbd_cache c) kvs ds"
    using cmbd.cinvE [OF assms] by metis
  from cmbd.flush_law [OF r(1)] obtain c' where c': "cbd_flush C MBD_IMPL c = Some (FOS_E_SUCCESS, c')"
    "cbd_rep C MBD_IMPL mbd_inv c' [] secs" unfolding r(2) by blast
  have "cbd_inv C MBD_IMPL mbd_inv c' secs" by (rule cmbd.cinvI [OF c'(2)]) simp
  moreover have "cbd_lookup C c' k = Some None" for k
    using slots_lookup [OF cmbd.repD(3) [OF c'(2)], of C k] by simp
  ultimately show ?thesis using c' cmbd.repD(2) [OF c'(2)] by blast
qed

theorem cbd_flush_writes_back_witness:
  "\<exists>c c'. cbd_write_piece env_sample MBD_IMPL cache_sample 1 1 1 (Some [9]) = Some (FOS_E_SUCCESS, c)
    \<and> cbd_flush env_sample MBD_IMPL c = Some (FOS_E_SUCCESS, c') \<and> mbd_inv (cbd_wrapped_bd c') [[1, 2], [3, 9], [5, 6]]"
proof -
  have i: "cbd_inv env_sample MBD_IMPL mbd_inv cache_sample [[1, 2], [3, 4], [5, 6]]"
    using new_cached_block_device_inv [OF cache_sample_new disk_sample_inv env_sample_ok]
    by (simp add: disk_sample_def)
  have z: "bdi_sector_size (CBD_IMPL env_sample MBD_IMPL) cache_sample = 2"
    by (simp add: CBD_IMPL_def cbd_sector_size_def cache_sample_def disk_sample_def)
  obtain c where c: "cbd_write_piece env_sample MBD_IMPL cache_sample 1 1 1 (Some [9]) = Some (FOS_E_SUCCESS, c)"
    "cbd_inv env_sample MBD_IMPL mbd_inv c [[1, 2], [3, 9], [5, 6]]"
    using cmbd.cbd.write_piece_ok [OF i, of 1 1 1 "[9]"] unfolding z by (auto simp: CBD_IMPL_def patch_def)
  from cbd_flush_writes_back [OF c(2)] c(1) show ?thesis by blast
qed

section \<open>Running out of memory\<close>

text \<open>The environment in which no node can be allocated.\<close>

definition no_memory :: "cbd_env \<Rightarrow> cbd_env" where
  "no_memory C = C\<lparr>cd_al := (\<lambda>_. None)\<rparr>"

text \<open>C22. When memory runs out while a sector \<open>k\<close> is loaded, the slot keeps the bytes of the sector \<open>k0\<close> it held
  under the number \<open>k\<close>: the caller gets an error, but the next sector that is loaded in this slot, once there
  is memory again, writes the bytes of \<open>k0\<close> over sector \<open>k\<close> of the device.\<close>

theorem failed_load_corrupts:
  assumes r: "cbd_rep C MBD_IMPL mbd_inv c [(k0, 0)] ds" and cap: "cbd_cache_cap c = 1"
    and k: "k < length ds" "k \<noteq> k0" and j: "j < length ds" "j \<noteq> k"
  shows "\<exists>c1 c2 x ds'. cbd_get_cache_entry_ind (no_memory C) MBD_IMPL c k = Some (FOS_E_NO_MEM, 0, c1)
    \<and> cbd_get_cache_entry_ind C MBD_IMPL c1 j = Some (FOS_E_SUCCESS, x, c2)
    \<and> mbd_inv (cbd_wrapped_bd c2) ds' \<and> ds' ! k = cse_sector (cbd_cache c ! 0)"
proof -
  note sl = cmbd.repD(3) [OF r] and env = cmbd.repD(1) [OF r] and inv = cmbd.repD(2) [OF r]
  obtain m where m: "cbd_sector_map c = Some m" "chm_inv m [(k0, 0)]" "chm_key_eq m = (=)" "0 < chm_val_size m"
    using sl unfolding slots_ok_def by blast
  have fill: "cbd_cache_fill c = 1" using slots_length [OF sl] by simp
  have len: "length (cbd_cache c) = 1" using sl cap unfolding slots_ok_def by simp
  have e: "cse_sector_ind (cbd_cache c ! 0) = k0" "k0 < length ds" using slots_hit [OF sl, of k0 0] by simp_all
  have ls: "length (cse_sector (cbd_cache c ! 0)) = mbd_sector_size (cbd_wrapped_bd c)"
    using slots_hit(5) [OF sl, of k0 0] by (simp add: cbd_sector_size_def)
  let ?s = "cse_sector (cbd_cache c ! 0)"
  obtain y rr where y: "next_rand_u32 (cbd_r c) = (y, rr)" by fastforce
  obtain b where b: "mbd_write (cbd_wrapped_bd c) k0 1 (Some ?s) = Some (FOS_E_SUCCESS, b)"
    "mbd_inv b (ds[k0 := ?s])" "mbd_sector_size b = mbd_sector_size (cbd_wrapped_bd c)"
    using mbd.write_one [OF inv e(2)] ls by auto
  obtain m' where m': "chm_remove m (Some k0) = Some (True, m')" "chm_inv m' []" "chm_key_eq m' = (=)" "0 < chm_val_size m'"
    using chm.remove_ok [OF m(2), of 0 k0] m by (auto simp: kv_remove_def)
  let ?c1 = "c\<lparr>cbd_r := rr, cbd_wrapped_bd := b, cbd_sector_map := Some m', cbd_cache := [(cbd_cache c ! 0)\<lparr>cse_sector_ind := k\<rparr>]\<rparr>"
  have nth: "(cbd_cache c)[0 := x] = [x]" for x using len by (cases "cbd_cache c") auto
  have get: "chm_get_node m' (Some k) = Some None"
    using chm_get_kvp_law [OF m'(2), of True k] m'(4)
    by (auto simp: chm_get_kvp_def split: Option.bind_splits if_splits)
  have put: "chm_put (cd_junk C) (\<lambda>_. None) mem m' (Some k) (Some 0) = Some (FOS_E_NO_MEM, m')" for mem
    using get m'(4) by (simp add: chm_put_def)
  have "cbd_lookup (no_memory C) c k = Some None" using slots_lookup [OF sl, of "no_memory C" k] k(2) by simp
  then have one: "cbd_get_cache_entry_ind (no_memory C) MBD_IMPL c k = Some (FOS_E_NO_MEM, 0, ?c1)"
    using fill cap y len e(1) b(1) m(1) m'(1) put nth
    by (simp add: cbd_get_cache_entry_ind_def cbd_load_slot_def no_memory_def)
  let ?ds = "(ds[k0 := ?s])[k := ?s]"
  obtain y2 r2 where y2: "next_rand_u32 rr = (y2, r2)" by fastforce
  obtain b2 where b2: "mbd_write b k 1 (Some ?s) = Some (FOS_E_SUCCESS, b2)" "mbd_inv b2 ?ds"
    "mbd_sector_size b2 = mbd_sector_size b"
    using mbd.write_one [OF b(2), of k ?s] k(1) ls b(3) by auto
  obtain m2 where m2: "chm_remove m' (Some k) = Some (False, m2)" "chm_inv m2 []" "chm_key_eq m2 = (=)" "0 < chm_val_size m2"
    using chm.remove_ok [OF m'(2), of 0 k] m' by (auto simp: kv_remove_def)
  let ?c2 = "c\<lparr>cbd_cache := [(cbd_cache c ! 0)\<lparr>cse_sector_ind := k\<rparr>], cbd_r := r2, cbd_wrapped_bd := b2, cbd_sector_map := Some m2\<rparr>"
  have h: "hole_ok ?c2 [] (cbd_sector_size MBD_IMPL ?c2) (length ?ds) 0"
    using cap fill ls b(3) b2(3) m2 by (auto simp: hole_ok_def cbd_sector_size_def)
  have "mbd_inv (cbd_wrapped_bd ?c2) ?ds" using b2(2) by simp
  from cmbd.load_slot [OF env this h, of j] j(1) obtain c2 where c2:
    "cbd_load_slot C MBD_IMPL ?c2 0 j = Some (FOS_E_SUCCESS, 0, c2)" "cbd_rep C MBD_IMPL mbd_inv c2 [(j, 0)] ?ds" by auto
  have "cbd_lookup C ?c1 j = Some None"
    using chm.get_value [OF m'(2), of "cd_junk C" j] m'(4) by (simp add: cbd_lookup_def)
  then have two: "cbd_get_cache_entry_ind C MBD_IMPL ?c1 j = Some (FOS_E_SUCCESS, 0, c2)"
    using fill cap y2 b2(1) m2(1) c2(1) by (simp add: cbd_get_cache_entry_ind_def arr_get_def)
  show ?thesis using one two cmbd.repD(2) [OF c2(2)] k(1)
    by (intro exI [of _ ?c1] exI [of _ c2] exI [of _ "0 :: nat"] exI [of _ ?ds]) simp
qed

text \<open>The cache of the examples with sector 0 loaded.\<close>

lemma cache_sample_loaded:
  "\<exists>c. cbd_rep env_sample MBD_IMPL mbd_inv c [(0, 0)] [[1, 2], [3, 4], [5, 6]] \<and> cbd_cache_cap c = 1
    \<and> cse_sector (cbd_cache c ! 0) = [1, 2]"
proof -
  have "slots_ok cache_sample [] 2 3"
  proof -
    obtain m where m: "new_sector_map env_sample = Some m"
      by (auto simp: new_sector_map_def env_sample_def new_chained_hash_map_def)
    have "chm_inv m [] \<and> chm_key_eq m = (=) \<and> chm_val_size m = 4"
      using new_chained_hash_map_inv [OF m [unfolded new_sector_map_def]] by (simp add: identity_equivp)
    then show ?thesis using m by (simp add: slots_ok_def cache_sample_def)
  qed
  from slots_fresh [OF this]
  have h: "hole_ok (cache_sample\<lparr>cbd_cache_fill := 1\<rparr>) [] (cbd_sector_size MBD_IMPL (cache_sample\<lparr>cbd_cache_fill := 1\<rparr>))
      (length [[1, 2], [3, 4], [5, 6 :: 8 word]]) 0"
    by (simp add: cache_sample_def disk_sample_def cbd_sector_size_def numeral_3_eq_3)
  have i: "mbd_inv (cbd_wrapped_bd (cache_sample\<lparr>cbd_cache_fill := 1\<rparr>)) [[1, 2], [3, 4], [5, 6]]"
    using disk_sample_inv by (simp add: cache_sample_def)
  from cmbd.load_slot [OF env_sample_ok i h, of 0] obtain c where c:
    "cbd_load_slot env_sample MBD_IMPL (cache_sample\<lparr>cbd_cache_fill := 1\<rparr>) 0 0 = Some (FOS_E_SUCCESS, 0, c)"
    "cbd_rep env_sample MBD_IMPL mbd_inv c [(0, 0)] [[1, 2], [3, 4], [5, 6]]"
    "view_of (cbd_cache c) [(0, 0)] [[1, 2], [3, 4], [5, 6]] = [[1, 2], [3, 4], [5, 6]]" by auto
  have "cbd_cache_cap c = 1"
    using c(1) by (auto simp: cbd_load_slot_def cache_sample_def Let_def split: Option.bind_splits if_splits)
  moreover have "cse_sector (cbd_cache c ! 0) = [1, 2]"
    using arg_cong [OF c(3), of "\<lambda>xs. xs ! 0"] by (simp add: view_nth)
  ultimately show ?thesis using c(2) by blast
qed

theorem failed_load_corrupts_witness:
  "\<exists>c c1 c2 x ds'. cbd_get_cache_entry_ind (no_memory env_sample) MBD_IMPL c 1 = Some (FOS_E_NO_MEM, 0, c1)
    \<and> cbd_get_cache_entry_ind env_sample MBD_IMPL c1 2 = Some (FOS_E_SUCCESS, x, c2)
    \<and> mbd_inv (cbd_wrapped_bd c2) ds' \<and> ds' ! 1 = [1, 2]"
proof -
  obtain c where c: "cbd_rep env_sample MBD_IMPL mbd_inv c [(0, 0)] [[1, 2], [3, 4], [5, 6]]" "cbd_cache_cap c = 1"
    "cse_sector (cbd_cache c ! 0) = [1, 2]" using cache_sample_loaded by (elim exE conjE) rule
  have l: "1 < length [[1, 2], [3, 4], [5, 6 :: 8 word]]" "2 < length [[1, 2], [3, 4], [5, 6 :: 8 word]]"
    and n: "1 \<noteq> (0 :: nat)" "2 \<noteq> (1 :: nat)" by simp_all
  from failed_load_corrupts [OF c(1,2) l(1) n(1) l(2) n(2)] obtain c1 c2 x ds' where
    "cbd_get_cache_entry_ind (no_memory env_sample) MBD_IMPL c 1 = Some (FOS_E_NO_MEM, 0, c1)"
    "cbd_get_cache_entry_ind env_sample MBD_IMPL c1 2 = Some (FOS_E_SUCCESS, x, c2)"
    "mbd_inv (cbd_wrapped_bd c2) ds'" "ds' ! 1 = [1, 2]" unfolding c(3) by (elim exE conjE) rule
  then show ?thesis by (intro exI conjI)
qed

end
