(* ===== verification/Fat32_Device.thy ===== *)
theory Fat32_Device imports Cached_Block_Device begin

text \<open>
  The FAT32 device (\<^verbatim>\<open>s_block_device/src/fat32.c\<close>): the file allocation table, chains of clusters, and
  transfers of sectors along a chain, over any block device.  Slot numbers and slot values are the
  \<^verbatim>\<open>uint32_t\<close> of the code as natural numbers, with every sum taken modulo \<open>2 ^ 32\<close>.
\<close>

section \<open>Little-endian numbers\<close>

fun le_num :: "bytes \<Rightarrow> nat" where
  "le_num [] = 0"
| "le_num (b # bs) = unat b + 256 * le_num bs"

fun le_bytes :: "nat \<Rightarrow> nat \<Rightarrow> bytes" where
  "le_bytes 0 n = []"
| "le_bytes (Suc k) n = word_of_nat n # le_bytes k (n div 256)"

section \<open>The device\<close>

abbreviation FAT32_MASK :: nat where "FAT32_MASK \<equiv> 0x0FFFFFFF"
abbreviation FAT32_EOC :: nat where "FAT32_EOC \<equiv> 0x0FFFFFF8"
abbreviation FAT32_BAD_CLUSTER :: nat where "FAT32_BAD_CLUSTER \<equiv> 0x0FFFFFF7"
abbreviation FAT32_REQ_SECTOR_SIZE :: nat where "FAT32_REQ_SECTOR_SIZE \<equiv> 512"
abbreviation FAT32_SLOTS_PER_FAT_SECTOR :: nat where "FAT32_SLOTS_PER_FAT_SECTOR \<equiv> 128"

definition FAT32_IS_EOC :: "nat \<Rightarrow> bool" where
  "FAT32_IS_EOC v \<longleftrightarrow> v AND FAT32_EOC = FAT32_EOC"

record 'b fat32_device =
  fd_bd :: 'b
  fd_bd_offset :: nat
  fd_num_sectors :: nat
  fd_fat_offset :: nat
  fd_num_fats :: nat
  fd_sectors_per_fat :: nat
  fd_data_section_offset :: nat
  fd_sectors_per_cluster :: nat
  fd_num_fat_slots :: nat
  fd_root_dir_cluster :: nat
  fd_r :: "64 word"
  fd_free_q :: "nat list"
  fd_free_q_fill :: nat

fun fat32_checksum_loop :: "nat \<Rightarrow> 8 word list \<Rightarrow> 8 word \<Rightarrow> 8 word option" where
  "fat32_checksum_loop 0 fn checksum = Some checksum"
| "fat32_checksum_loop (Suc n) fn checksum =
     (case fn of
        [] \<Rightarrow> None
      | c # fn \<Rightarrow> fat32_checksum_loop n fn ((if checksum AND 1 \<noteq> 0 then 0x80 else 0) + drop_bit 1 checksum + c))"

definition fat32_checksum :: "8 word list \<Rightarrow> 8 word option" where
  "fat32_checksum short_fn = fat32_checksum_loop 11 short_fn 0"

definition compute_sectors_per_fat :: "nat \<Rightarrow> nat \<Rightarrow> nat \<Rightarrow> nat \<Rightarrow> nat \<Rightarrow> nat" where
  "compute_sectors_per_fat total_sectors bytes_per_sector reserved_sectors fat_copies sectors_per_cluster =
     (if total_sectors < reserved_sectors then 0
      else
        let available_sectors = total_sectors - reserved_sectors;
            complete_fat_sectors = (fat_copies + bytes_per_sector div 4 * sectors_per_cluster) mod 2 ^ 32
        in if available_sectors mod complete_fat_sectors = 0 then available_sectors div complete_fat_sectors
           else available_sectors div complete_fat_sectors + 1)"

section \<open>Slots\<close>

text \<open>\<open>out\<close> says whether the caller passes a pointer for the result.\<close>

definition fat32_get_fat_slot ::
  "'b bd_impl \<Rightarrow> 'b fat32_device \<Rightarrow> nat \<Rightarrow> bool \<Rightarrow> (fernos_error \<times> nat option \<times> 'b fat32_device) option"
where
  "fat32_get_fat_slot I dev slot_ind out =
     (if \<not> out then Some (FOS_E_BAD_ARGS, None, dev)
      else
        let slot_ind = slot_ind AND FAT32_MASK in
        if fd_num_fat_slots dev \<le> slot_ind then Some (FOS_E_INVALID_INDEX, None, dev)
        else do {
          let abs_read_sector = (fd_bd_offset dev + fd_fat_offset dev + slot_ind div FAT32_SLOTS_PER_FAT_SECTOR) mod 2 ^ 32;
          let slot_index = slot_ind mod FAT32_SLOTS_PER_FAT_SECTOR;
          (err, d, b) \<leftarrow> bdi_read_piece I (fd_bd dev) abs_read_sector (slot_index * 4) 4 (Some (replicate 4 0));
          d \<leftarrow> d;
          let dev = dev\<lparr>fd_bd := b\<rparr>;
          Some (if err \<noteq> FOS_E_SUCCESS then (err, None, dev) else (FOS_E_SUCCESS, Some (le_num d AND FAT32_MASK), dev)) })"

definition fat32_set_fat_slot ::
  "'b bd_impl \<Rightarrow> 'b fat32_device \<Rightarrow> nat \<Rightarrow> nat \<Rightarrow> (fernos_error \<times> 'b fat32_device) option"
where
  "fat32_set_fat_slot I dev slot_ind val = (
     let slot_ind = slot_ind AND FAT32_MASK in
     if fd_num_fat_slots dev \<le> slot_ind then Some (FOS_E_INVALID_INDEX, dev)
     else do {
       let abs_write_sector = (fd_bd_offset dev + fd_fat_offset dev + slot_ind div FAT32_SLOTS_PER_FAT_SECTOR) mod 2 ^ 32;
       let slot_index = slot_ind mod FAT32_SLOTS_PER_FAT_SECTOR;
       (err, b) \<leftarrow> bdi_write_piece I (fd_bd dev) abs_write_sector (slot_index * 4) 4 (Some (le_bytes 4 (val AND FAT32_MASK)));
       Some (err, dev\<lparr>fd_bd := b\<rparr>) })"

fun fat32_sync_copies ::
  "'b bd_impl \<Rightarrow> nat \<Rightarrow> nat \<Rightarrow> nat \<Rightarrow> bytes \<Rightarrow> 'b fat32_device \<Rightarrow> (fernos_error \<times> 'b fat32_device) option"
where
  "fat32_sync_copies I 0 fi si buf dev = Some (FOS_E_SUCCESS, dev)"
| "fat32_sync_copies I (Suc n) fi si buf dev = do {
     let abs_copy_fat_offset = (fd_bd_offset dev + fd_fat_offset dev + fi * fd_sectors_per_fat dev) mod 2 ^ 32;
     (err, b) \<leftarrow> bdi_write I (fd_bd dev) ((abs_copy_fat_offset + si) mod 2 ^ 32) 1 (Some buf);
     let dev = dev\<lparr>fd_bd := b\<rparr>;
     if err \<noteq> FOS_E_SUCCESS then Some (err, dev) else fat32_sync_copies I n (fi + 1) si buf dev }"

fun fat32_sync_loop ::
  "'b bd_impl \<Rightarrow> nat \<Rightarrow> nat \<Rightarrow> bytes \<Rightarrow> 'b fat32_device \<Rightarrow> (fernos_error \<times> 'b fat32_device) option"
where
  "fat32_sync_loop I 0 si buf dev = Some (FOS_E_SUCCESS, dev)"
| "fat32_sync_loop I (Suc n) si buf dev = do {
     let abs_master_fat_offset = (fd_bd_offset dev + fd_fat_offset dev) mod 2 ^ 32;
     (err, d, b) \<leftarrow> bdi_read I (fd_bd dev) ((abs_master_fat_offset + si) mod 2 ^ 32) 1 (Some buf);
     buf \<leftarrow> d;
     let dev = dev\<lparr>fd_bd := b\<rparr>;
     if err \<noteq> FOS_E_SUCCESS then Some (err, dev)
     else do {
       (err, dev) \<leftarrow> fat32_sync_copies I (fd_num_fats dev - 1) 1 si buf dev;
       if err \<noteq> FOS_E_SUCCESS then Some (err, dev) else fat32_sync_loop I n (si + 1) buf dev } }"

text \<open>\<open>junk\<close> is what the buffer on the stack held.\<close>

definition fat32_sync_fats :: "'b bd_impl \<Rightarrow> bytes \<Rightarrow> 'b fat32_device \<Rightarrow> (fernos_error \<times> 'b fat32_device) option" where
  "fat32_sync_fats I junk dev =
     (if fd_num_fats dev = 1 then Some (FOS_E_SUCCESS, dev)
      else fat32_sync_loop I (fd_sectors_per_fat dev) 0 junk dev)"

section \<open>Chains\<close>

definition slot_bad :: "'b fat32_device \<Rightarrow> nat \<Rightarrow> bool" where
  "slot_bad dev i \<longleftrightarrow> i < 2 \<or> fd_num_fat_slots dev \<le> i"

partial_function (option) fat32_free_loop ::
  "'b bd_impl \<Rightarrow> 'b fat32_device \<Rightarrow> nat \<Rightarrow> (fernos_error \<times> 'b fat32_device) option"
where
  "fat32_free_loop I dev curr_ind =
     (if FAT32_IS_EOC curr_ind then Some (FOS_E_SUCCESS, dev)
      else do {
        (err, next_ind, dev) \<leftarrow> fat32_get_fat_slot I dev curr_ind True;
        if err \<noteq> FOS_E_SUCCESS then Some (FOS_E_UNKNWON_ERROR, dev)
        else do {
          next_ind \<leftarrow> next_ind;
          if \<not> FAT32_IS_EOC next_ind \<and> slot_bad dev next_ind then Some (FOS_E_STATE_MISMATCH, dev)
          else do {
            (err, dev) \<leftarrow> fat32_set_fat_slot I dev curr_ind 0;
            if err \<noteq> FOS_E_SUCCESS then Some (FOS_E_UNKNWON_ERROR, dev) else fat32_free_loop I dev next_ind } } })"

definition fat32_free_chain ::
  "'b bd_impl \<Rightarrow> 'b fat32_device \<Rightarrow> nat \<Rightarrow> (fernos_error \<times> 'b fat32_device) option"
where
  "fat32_free_chain I dev slot_ind = (
     let slot_ind = slot_ind AND FAT32_MASK in
     if slot_bad dev slot_ind then Some (FOS_E_INVALID_INDEX, dev) else fat32_free_loop I dev slot_ind)"

text \<open>The free slots of one FAT sector.\<close>

fun fat32_scan_loop :: "nat \<Rightarrow> nat \<Rightarrow> nat \<Rightarrow> nat list \<Rightarrow> 'b fat32_device \<Rightarrow> 'b fat32_device option" where
  "fat32_scan_loop 0 i fat_sector_ind fat_sector dev = Some dev"
| "fat32_scan_loop (Suc n) i fat_sector_ind fat_sector dev = do {
     v \<leftarrow> arr_get fat_sector i;
     dev \<leftarrow> (if v AND FAT32_MASK = 0 then do {
         q \<leftarrow> arr_set (fd_free_q dev) (fd_free_q_fill dev) ((fat_sector_ind * FAT32_SLOTS_PER_FAT_SECTOR + i) mod 2 ^ 32);
         Some (dev\<lparr>fd_free_q := q, fd_free_q_fill := fd_free_q_fill dev + 1\<rparr>) }
       else Some dev);
     fat32_scan_loop n (i + 1) fat_sector_ind fat_sector dev }"

fun fat32_populate_loop ::
  "'b bd_impl \<Rightarrow> nat \<Rightarrow> bytes \<Rightarrow> 'b fat32_device \<Rightarrow> (fernos_error \<times> 'b fat32_device) option"
where
  "fat32_populate_loop I 0 buf dev = Some (FOS_E_SUCCESS, dev)"
| "fat32_populate_loop I (Suc n) buf dev =
     (if fd_free_q_fill dev \<noteq> 0 then Some (FOS_E_SUCCESS, dev)
      else do {
        let (x, r) = next_rand_u32 (fd_r dev);
        let dev = dev\<lparr>fd_r := r\<rparr>;
        if fd_sectors_per_fat dev = 0 then None
        else do {
          let fat_sector_ind = unat x mod fd_sectors_per_fat dev;
          (err, d, b) \<leftarrow> bdi_read I (fd_bd dev) ((fd_fat_offset dev + fat_sector_ind) mod 2 ^ 32) 1 (Some buf);
          buf \<leftarrow> d;
          let dev = dev\<lparr>fd_bd := b\<rparr>;
          if err \<noteq> FOS_E_SUCCESS then Some (FOS_E_UNKNWON_ERROR, dev)
          else do {
            let start = (if fat_sector_ind = 0 then 2 else 0);
            let rem = fd_num_fat_slots dev mod FAT32_SLOTS_PER_FAT_SECTOR;
            let stop = (if fat_sector_ind = fd_sectors_per_fat dev - 1 \<and> 0 < rem then rem else FAT32_SLOTS_PER_FAT_SECTOR);
            dev \<leftarrow> fat32_scan_loop (stop - start) start fat_sector_ind (map le_num (cells 4 FAT32_SLOTS_PER_FAT_SECTOR buf)) dev;
            fat32_populate_loop I n buf dev } } })"

definition fat32_populate_free_queue ::
  "'b bd_impl \<Rightarrow> bytes \<Rightarrow> 'b fat32_device \<Rightarrow> (fernos_error \<times> 'b fat32_device) option"
where
  "fat32_populate_free_queue I junk dev =
     (if 0 < fd_free_q_fill dev then Some (FOS_E_SUCCESS, dev)
      else do {
        (err, dev) \<leftarrow> fat32_populate_loop I 5 junk dev;
        if err \<noteq> FOS_E_SUCCESS then Some (err, dev)
        else if fd_free_q_fill dev = 0 then Some (FOS_E_NO_SPACE, dev)
        else Some (FOS_E_SUCCESS, dev) })"

definition fat32_pop_free_fat_slot ::
  "'b bd_impl \<Rightarrow> bytes \<Rightarrow> 'b fat32_device \<Rightarrow> bool \<Rightarrow> (fernos_error \<times> nat option \<times> 'b fat32_device) option"
where
  "fat32_pop_free_fat_slot I junk dev out =
     (if \<not> out then Some (FOS_E_BAD_ARGS, None, dev)
      else do {
        (err, dev) \<leftarrow> (if fd_free_q_fill dev = 0 then fat32_populate_free_queue I junk dev else Some (FOS_E_SUCCESS, dev));
        if err \<noteq> FOS_E_SUCCESS then Some (err, None, dev)
        else do {
          let fill = fd_free_q_fill dev - 1;
          free_ind \<leftarrow> arr_get (fd_free_q dev) fill;
          (err, dev) \<leftarrow> fat32_set_fat_slot I (dev\<lparr>fd_free_q_fill := fill\<rparr>) free_ind FAT32_EOC;
          Some (if err \<noteq> FOS_E_SUCCESS then (FOS_E_UNKNWON_ERROR, None, dev) else (FOS_E_SUCCESS, Some free_ind, dev)) } })"

text \<open>
  The loop of \<^verbatim>\<open>fat32_new_chain\<close>.  An error other than lack of space ends the call; the first component
  says whether the loop was left early, the second is the error it was left with.
\<close>

fun fat32_new_loop ::
  "'b bd_impl \<Rightarrow> bytes \<Rightarrow> nat \<Rightarrow> nat \<Rightarrow> 'b fat32_device \<Rightarrow> (fernos_error \<times> 'b fat32_device) option"
where
  "fat32_new_loop I junk 0 tail dev = Some (FOS_E_SUCCESS, dev)"
| "fat32_new_loop I junk (Suc n) tail dev = do {
     (err, next_free, dev) \<leftarrow> fat32_pop_free_fat_slot I junk dev True;
     if err = FOS_E_NO_SPACE then Some (FOS_E_NO_SPACE, dev)
     else if err \<noteq> FOS_E_SUCCESS then Some (FOS_E_UNKNWON_ERROR, dev)
     else do {
       next_free \<leftarrow> next_free;
       (err, dev) \<leftarrow> fat32_set_fat_slot I dev tail next_free;
       if err \<noteq> FOS_E_SUCCESS then Some (FOS_E_UNKNWON_ERROR, dev) else fat32_new_loop I junk n next_free dev } }"

definition fat32_new_chain ::
  "'b bd_impl \<Rightarrow> bytes \<Rightarrow> 'b fat32_device \<Rightarrow> nat \<Rightarrow> bool \<Rightarrow> (fernos_error \<times> nat option \<times> 'b fat32_device) option"
where
  "fat32_new_chain I junk dev len out =
     (if \<not> out then Some (FOS_E_BAD_ARGS, None, dev)
      else if len = 0 then Some (FOS_E_SUCCESS, Some FAT32_EOC, dev)
      else do {
        (err, head, dev) \<leftarrow> fat32_pop_free_fat_slot I junk dev True;
        if err \<noteq> FOS_E_SUCCESS then Some (err, None, dev)
        else do {
          head \<leftarrow> head;
          (err, dev) \<leftarrow> fat32_new_loop I junk (len - 1) head dev;
          if err = FOS_E_NO_SPACE then do {
            (err, dev) \<leftarrow> fat32_free_chain I dev head;
            Some (if err \<noteq> FOS_E_SUCCESS then (FOS_E_UNKNWON_ERROR, None, dev) else (FOS_E_NO_SPACE, None, dev)) }
          else if err \<noteq> FOS_E_SUCCESS then Some (FOS_E_UNKNWON_ERROR, None, dev)
          else Some (FOS_E_SUCCESS, Some head, dev) } })"

text \<open>
  The search of \<^verbatim>\<open>fat32_resize_chain\<close> for the end of the chain: \<open>Inl\<close> is a result of the call,
  \<open>Inr\<close> the last slot of a chain that is too short and its length.
\<close>

partial_function (option) fat32_resize_loop ::
  "'b bd_impl \<Rightarrow> 'b fat32_device \<Rightarrow> nat \<Rightarrow> nat \<Rightarrow> nat \<Rightarrow> ((fernos_error + nat \<times> nat) \<times> 'b fat32_device) option"
where
  "fat32_resize_loop I dev new_len iter links = do {
     (err, next_iter, dev) \<leftarrow> fat32_get_fat_slot I dev iter True;
     if err \<noteq> FOS_E_SUCCESS then Some (Inl FOS_E_UNKNWON_ERROR, dev)
     else do {
       next_iter \<leftarrow> next_iter;
       if next_iter = FAT32_BAD_CLUSTER then Some (Inl FOS_E_STATE_MISMATCH, dev)
       else if links = new_len then
         (if FAT32_IS_EOC next_iter then Some (Inl FOS_E_SUCCESS, dev)
          else do {
            (err, dev) \<leftarrow> fat32_set_fat_slot I dev iter FAT32_EOC;
            if err \<noteq> FOS_E_SUCCESS then Some (Inl FOS_E_UNKNWON_ERROR, dev)
            else do { (err, dev) \<leftarrow> fat32_free_chain I dev next_iter; Some (Inl err, dev) } })
       else if FAT32_IS_EOC next_iter then Some (Inr (iter, links), dev)
       else if slot_bad dev next_iter then Some (Inl FOS_E_STATE_MISMATCH, dev)
       else fat32_resize_loop I dev new_len next_iter ((links + 1) mod 2 ^ 32) } }"

definition fat32_resize_chain ::
  "'b bd_impl \<Rightarrow> bytes \<Rightarrow> 'b fat32_device \<Rightarrow> nat \<Rightarrow> nat \<Rightarrow> (fernos_error \<times> 'b fat32_device) option"
where
  "fat32_resize_chain I junk dev slot_ind new_len = (
     let slot_ind = slot_ind AND FAT32_MASK in
     if slot_bad dev slot_ind then Some (FOS_E_INVALID_INDEX, dev)
     else if new_len = 0 then fat32_free_chain I dev slot_ind
     else do {
       (res, dev) \<leftarrow> fat32_resize_loop I dev new_len slot_ind 1;
       case res of
         Inl err \<Rightarrow> Some (err, dev)
       | Inr (iter, links) \<Rightarrow> do {
           (err, new_seg, dev) \<leftarrow> fat32_new_chain I junk dev (new_len - links) True;
           if err \<noteq> FOS_E_SUCCESS then Some (err, dev)
           else do {
             new_seg \<leftarrow> new_seg;
             (err, dev) \<leftarrow> fat32_set_fat_slot I dev iter new_seg;
             if err \<noteq> FOS_E_SUCCESS then do {
               (_, dev) \<leftarrow> fat32_free_chain I dev new_seg;
               Some (FOS_E_UNKNWON_ERROR, dev) }
             else Some (FOS_E_SUCCESS, dev) } } })"

fun fat32_traverse_loop ::
  "'b bd_impl \<Rightarrow> nat \<Rightarrow> 'b fat32_device \<Rightarrow> nat \<Rightarrow> (fernos_error \<times> nat option \<times> 'b fat32_device) option"
where
  "fat32_traverse_loop I 0 dev iter = Some (FOS_E_SUCCESS, Some iter, dev)"
| "fat32_traverse_loop I (Suc n) dev iter = do {
     (err, next_iter, dev) \<leftarrow> fat32_get_fat_slot I dev iter True;
     if err \<noteq> FOS_E_SUCCESS then Some (FOS_E_UNKNWON_ERROR, None, dev)
     else do {
       next_iter \<leftarrow> next_iter;
       if FAT32_IS_EOC next_iter then Some (FOS_E_INVALID_INDEX, None, dev)
       else if slot_bad dev next_iter then Some (FOS_E_STATE_MISMATCH, None, dev)
       else fat32_traverse_loop I n dev next_iter } }"

definition fat32_traverse_chain ::
  "'b bd_impl \<Rightarrow> 'b fat32_device \<Rightarrow> nat \<Rightarrow> nat \<Rightarrow> bool \<Rightarrow> (fernos_error \<times> nat option \<times> 'b fat32_device) option"
where
  "fat32_traverse_chain I dev slot_ind slot_offset out =
     (if \<not> out then Some (FOS_E_BAD_ARGS, None, dev)
      else
        let slot_ind = slot_ind AND FAT32_MASK in
        if slot_bad dev slot_ind then Some (FOS_E_INVALID_INDEX, None, dev)
        else fat32_traverse_loop I slot_offset dev slot_ind)"

section \<open>Transfers\<close>

text \<open>
  The number of sectors to process is kept in a \<^verbatim>\<open>uint8_t\<close>.  Reading changes the buffer, writing the
  device.
\<close>

definition fat32_cluster_sector :: "'b fat32_device \<Rightarrow> nat \<Rightarrow> nat \<Rightarrow> nat" where
  "fat32_cluster_sector dev cluster shift =
     (fd_bd_offset dev + fd_data_section_offset dev + (cluster - 2) * fd_sectors_per_cluster dev + shift) mod 2 ^ 32"

partial_function (option) fat32_rw_loop ::
  "'b bd_impl \<Rightarrow> nat \<Rightarrow> nat \<Rightarrow> bool \<Rightarrow> 'b fat32_device \<Rightarrow> nat \<Rightarrow> nat \<Rightarrow> bytes
   \<Rightarrow> (fernos_error \<times> bytes \<times> 'b fat32_device) option"
where
  "fat32_rw_loop I sector_offset num_sectors write dev cluster_iter sectors_processed buf = do {
     (err, next_cluster, dev) \<leftarrow> fat32_get_fat_slot I dev cluster_iter True;
     if err \<noteq> FOS_E_SUCCESS then Some (FOS_E_UNKNWON_ERROR, buf, dev)
     else do {
       next_cluster \<leftarrow> next_cluster;
       if next_cluster = FAT32_BAD_CLUSTER then Some (FOS_E_STATE_MISMATCH, buf, dev)
       else do {
         let shift = (if sectors_processed = 0 then sector_offset mod fd_sectors_per_cluster dev else 0);
         let left = (num_sectors - sectors_processed) mod 2 ^ 8;
         let sectors_to_process = (if fd_sectors_per_cluster dev - shift < left then fd_sectors_per_cluster dev - shift else left);
         let abs_sector = fat32_cluster_sector dev cluster_iter shift;
         let off = sectors_processed * FAT32_REQ_SECTOR_SIZE mod 2 ^ 32;
         part \<leftarrow> buf_from buf off;
         (err, part, b) \<leftarrow> (if write then do {
             (err, b) \<leftarrow> bdi_write I (fd_bd dev) abs_sector sectors_to_process (Some part);
             Some (err, Some part, b) }
           else bdi_read I (fd_bd dev) abs_sector sectors_to_process (Some part));
         part \<leftarrow> part;
         let buf = take off buf @ part;
         let dev = dev\<lparr>fd_bd := b\<rparr>;
         if err \<noteq> FOS_E_SUCCESS then Some (err, buf, dev)
         else
           let sectors_processed = (sectors_processed + sectors_to_process) mod 2 ^ 32 in
           if sectors_processed = num_sectors then Some (FOS_E_SUCCESS, buf, dev)
           else if FAT32_IS_EOC next_cluster then Some (FOS_E_INVALID_RANGE, buf, dev)
           else if slot_bad dev next_cluster then Some (FOS_E_STATE_MISMATCH, buf, dev)
           else fat32_rw_loop I sector_offset num_sectors write dev next_cluster sectors_processed buf } } }"

definition fat32_read_write ::
  "'b bd_impl \<Rightarrow> 'b fat32_device \<Rightarrow> nat \<Rightarrow> nat \<Rightarrow> nat \<Rightarrow> bytes option \<Rightarrow> bool
   \<Rightarrow> (fernos_error \<times> bytes option \<times> 'b fat32_device) option"
where
  "fat32_read_write I dev slot_ind sector_offset num_sectors buf write =
     (case buf of
        None \<Rightarrow> Some (FOS_E_BAD_ARGS, None, dev)
      | Some d \<Rightarrow>
        let slot_ind = slot_ind AND FAT32_MASK in
        if slot_bad dev slot_ind then Some (FOS_E_INVALID_INDEX, Some d, dev)
        else if num_sectors = 0 then Some (FOS_E_SUCCESS, Some d, dev)
        else if fd_sectors_per_cluster dev = 0 then None
        else do {
          (err, cluster_iter, dev) \<leftarrow> fat32_traverse_chain I dev slot_ind (sector_offset div fd_sectors_per_cluster dev) True;
          if err \<noteq> FOS_E_SUCCESS then Some (err, Some d, dev)
          else do {
            cluster_iter \<leftarrow> cluster_iter;
            (err, d, dev) \<leftarrow> fat32_rw_loop I sector_offset num_sectors write dev cluster_iter 0 d;
            Some (err, Some d, dev) } })"

definition fat32_read_write_piece ::
  "'b bd_impl \<Rightarrow> 'b fat32_device \<Rightarrow> nat \<Rightarrow> nat \<Rightarrow> nat \<Rightarrow> nat \<Rightarrow> bytes option \<Rightarrow> bool
   \<Rightarrow> (fernos_error \<times> bytes option \<times> 'b fat32_device) option"
where
  "fat32_read_write_piece I dev slot_ind sector_offset byte_offset len buf write =
     (if buf = None then Some (FOS_E_BAD_ARGS, None, dev)
      else if FAT32_REQ_SECTOR_SIZE \<le> byte_offset \<or> FAT32_REQ_SECTOR_SIZE < len
        \<or> FAT32_REQ_SECTOR_SIZE < (byte_offset + len) mod 2 ^ 32 then Some (FOS_E_INVALID_RANGE, buf, dev)
      else
        let slot_ind = slot_ind AND FAT32_MASK in
        if slot_bad dev slot_ind then Some (FOS_E_INVALID_INDEX, buf, dev)
        else if fd_sectors_per_cluster dev = 0 then None
        else do {
          (err, cluster_ind, dev) \<leftarrow> fat32_traverse_chain I dev slot_ind (sector_offset div fd_sectors_per_cluster dev) True;
          if err \<noteq> FOS_E_SUCCESS then Some (err, buf, dev)
          else do {
            cluster_ind \<leftarrow> cluster_ind;
            (err, slot_val, dev) \<leftarrow> fat32_get_fat_slot I dev cluster_ind True;
            if err \<noteq> FOS_E_SUCCESS then Some (err, buf, dev)
            else if slot_val = Some FAT32_BAD_CLUSTER then Some (FOS_E_STATE_MISMATCH, buf, dev)
            else do {
              let abs_sector_offset = fat32_cluster_sector dev cluster_ind (sector_offset mod fd_sectors_per_cluster dev);
              (err, buf, b) \<leftarrow> (if write then do {
                  (err, b) \<leftarrow> bdi_write_piece I (fd_bd dev) abs_sector_offset byte_offset len buf;
                  Some (err, buf, b) }
                else bdi_read_piece I (fd_bd dev) abs_sector_offset byte_offset len buf);
              Some (err, buf, dev\<lparr>fd_bd := b\<rparr>) } } })"

end
