(* ===== verification/Fat32_Slots.thy ===== *)
theory Fat32_Slots imports Fat32_Device begin

text \<open>
  The file allocation table as a list of slots.  \<open>fat32_state\<close> relates a device to the slots of its
  first table and to the sectors before and after that table; reading a slot is a list access,
  writing one a list update, whatever the block device below.
\<close>

section \<open>Numbers\<close>

lemma length_le_bytes [simp]: "length (le_bytes k n) = k"
  by (induction k n rule: le_bytes.induct) simp_all

lemma le_num_bound: "le_num bs < 256 ^ length bs"
proof (induction bs)
  case (Cons b bs)
  have "unat b < 256" using unsigned_less [of b] by simp
  then show ?case using Cons by simp
qed simp

lemma le_num_le_bytes: "le_num (le_bytes k n) = n mod 256 ^ k"
proof (induction k n rule: le_bytes.induct)
  case (2 k n)
  have "unat (word_of_nat n :: 8 word) = n mod 256" by (simp add: unat_of_nat)
  then show ?case using 2 by (simp add: mod_mult2_eq)
qed simp

lemma fat_mask: "v AND FAT32_MASK = v mod 2 ^ 28"
proof -
  have "FAT32_MASK = mask 28" by (simp add: mask_eq_exp_minus_1)
  then show ?thesis by (metis take_bit_eq_mask take_bit_eq_mod)
qed

lemma is_eoc_iff:
  assumes "v < 2 ^ 28"
  shows "FAT32_IS_EOC v \<longleftrightarrow> FAT32_EOC \<le> v"
proof -
  have eq: "FAT32_EOC = push_bit 3 (mask 25)" by (simp add: mask_eq_exp_minus_1 push_bit_eq_mult)
  have "v AND push_bit 3 (mask 25) = push_bit 3 (take_bit 25 (drop_bit 3 v))"
    by (rule bit_eqI) (auto simp: bit_simps)
  moreover have "drop_bit 3 v < 2 ^ 25" using assms by (simp add: drop_bit_eq_div)
  ultimately have "v AND FAT32_EOC = v div 8 * 8"
    by (simp add: eq take_bit_nat_eq_self push_bit_eq_mult drop_bit_eq_div)
  then show ?thesis using assms by (auto simp: FAT32_IS_EOC_def)
qed

lemma eoc_is_eoc [simp]: "FAT32_IS_EOC FAT32_EOC"
  by (simp add: FAT32_IS_EOC_def)

section \<open>The table in its sectors\<close>

definition slot_of :: "bytes list \<Rightarrow> nat \<Rightarrow> nat" where
  "slot_of fs i = le_num (take 4 (drop (i mod 128 * 4) (fs ! (i div 128)))) AND FAT32_MASK"

definition fat_view :: "nat \<Rightarrow> bytes list \<Rightarrow> nat list" where
  "fat_view n fs = map (slot_of fs) [0..<n]"

lemma length_fat_view [simp]: "length (fat_view n fs) = n"
  by (simp add: fat_view_def)

lemma nth_fat_view [simp]: "i < n \<Longrightarrow> fat_view n fs ! i = slot_of fs i"
  by (simp add: fat_view_def)

lemma take_drop_patch_same: "length v = k \<Longrightarrow> off + k \<le> length s \<Longrightarrow> take k (drop off (patch off v s)) = v"
  by (simp add: patch_def)

lemma take_drop_patch_other:
  "off + length v \<le> length s \<Longrightarrow> j + length v \<le> off \<or> off + length v \<le> j \<Longrightarrow>
    take (length v) (drop j (patch off v s)) = take (length v) (drop j s)"
  unfolding patch_def by (rule take_drop_mid [OF refl])

lemma slot_of_update:
  assumes i: "i div 128 < length fs" and s: "length (fs ! (i div 128)) = 512"
  shows "slot_of (fs[i div 128 := patch (i mod 128 * 4) (le_bytes 4 (v AND FAT32_MASK)) (fs ! (i div 128))]) j
    = (if j = i then v AND FAT32_MASK else slot_of fs j)"
proof -
  have m: "i mod 128 < 128" by simp
  have fits: "i mod 128 * 4 + 4 \<le> length (fs ! (i div 128))" using m unfolding s by linarith
  show ?thesis
  proof (cases "j = i")
    case True
    have "v mod 2 ^ 28 < 256 ^ 4" by (rule less_le_trans [OF mod_less_divisor]) simp_all
    then show ?thesis using True i fits
      by (simp add: slot_of_def take_drop_patch_same le_num_le_bytes fat_mask)
  next
    case False
    show ?thesis
    proof (cases "j div 128 = i div 128")
      case True
      then have "j mod 128 \<noteq> i mod 128" using False by (metis div_mult_mod_eq)
      then have "j mod 128 * 4 + 4 \<le> i mod 128 * 4 \<or> i mod 128 * 4 + 4 \<le> j mod 128 * 4" by linarith
      then show ?thesis using False True i fits
          take_drop_patch_other [of "i mod 128 * 4" "le_bytes 4 (v AND FAT32_MASK)" "fs ! (i div 128)" "j mod 128 * 4"]
        by (simp add: slot_of_def)
    qed (use False in \<open>simp add: slot_of_def\<close>)
  qed
qed

lemma fat_view_update:
  assumes "i < n" and "i div 128 < length fs" and "length (fs ! (i div 128)) = 512"
  shows "fat_view n (fs[i div 128 := patch (i mod 128 * 4) (le_bytes 4 (v AND FAT32_MASK)) (fs ! (i div 128))])
    = (fat_view n fs)[i := v AND FAT32_MASK]"
  by (rule nth_equalityI) (use assms slot_of_update [OF assms(2,3)] in \<open>auto simp: nth_list_update\<close>)

lemma slot_bound: "slot_of fs i < 2 ^ 28"
  by (simp add: slot_of_def fat_mask)

section \<open>The state of a device\<close>

text \<open>
  \<open>pre\<close> are the sectors before the first table, \<open>post\<close> those after it (the other tables and the data).
\<close>

definition fat32_geometry :: "'b fat32_device \<Rightarrow> nat \<Rightarrow> nat \<Rightarrow> bool" where
  "fat32_geometry dev p q \<longleftrightarrow>
     p = fd_bd_offset dev + fd_fat_offset dev
     \<and> 1 \<le> fd_num_fats dev \<and> fd_data_section_offset dev = fd_fat_offset dev + fd_num_fats dev * fd_sectors_per_fat dev
     \<and> 2 \<le> fd_num_fat_slots dev \<and> fd_num_fat_slots dev \<le> 128 * fd_sectors_per_fat dev
     \<and> fd_num_fat_slots dev \<le> FAT32_BAD_CLUSTER
     \<and> 0 < fd_sectors_per_cluster dev \<and> fd_sectors_per_cluster dev < 256
     \<and> (fd_num_fats dev - 1) * fd_sectors_per_fat dev + (fd_num_fat_slots dev - 2) * fd_sectors_per_cluster dev \<le> q"

definition fat32_state ::
  "'b bd_impl \<Rightarrow> ('b \<Rightarrow> bytes list \<Rightarrow> bool) \<Rightarrow> 'b fat32_device \<Rightarrow> bytes list \<Rightarrow> nat list \<Rightarrow> bytes list \<Rightarrow> bool"
where
  "fat32_state I wi dev pre f post \<longleftrightarrow>
     fat32_geometry dev (length pre) (length post) \<and> bdi_sector_size I (fd_bd dev) = 512
     \<and> (\<exists>fs. wi (fd_bd dev) (pre @ fs @ post) \<and> length fs = fd_sectors_per_fat dev
          \<and> f = fat_view (fd_num_fat_slots dev) fs)"

text \<open>An operation on slots changes nothing of the device but the block device below.\<close>

definition only_bd :: "'b fat32_device \<Rightarrow> 'b fat32_device \<Rightarrow> bool" where
  "only_bd dev dev' \<longleftrightarrow> dev' = dev\<lparr>fd_bd := fd_bd dev'\<rparr>"

lemma only_bd_refl [simp]: "only_bd dev dev"
  by (simp add: only_bd_def)

lemma only_bd_upd [simp]: "only_bd dev (dev\<lparr>fd_bd := b\<rparr>)"
  by (simp add: only_bd_def)

lemma only_bd_trans: "only_bd a b \<Longrightarrow> only_bd b c \<Longrightarrow> only_bd a c"
proof -
  assume "only_bd a b" and "only_bd b c"
  then obtain x y where "b = a\<lparr>fd_bd := x\<rparr>" and "c = b\<lparr>fd_bd := y\<rparr>" unfolding only_bd_def by blast
  then show "only_bd a c" by simp
qed

lemma only_bdD:
  assumes "only_bd dev dev'"
  shows "fd_bd_offset dev' = fd_bd_offset dev" "fd_fat_offset dev' = fd_fat_offset dev" "fd_num_fats dev' = fd_num_fats dev"
    "fd_sectors_per_fat dev' = fd_sectors_per_fat dev" "fd_data_section_offset dev' = fd_data_section_offset dev"
    "fd_sectors_per_cluster dev' = fd_sectors_per_cluster dev" "fd_num_fat_slots dev' = fd_num_fat_slots dev"
    "fd_root_dir_cluster dev' = fd_root_dir_cluster dev" "fd_r dev' = fd_r dev" "fd_free_q dev' = fd_free_q dev"
    "fd_free_q_fill dev' = fd_free_q_fill dev" "slot_bad dev' i = slot_bad dev i"
proof -
  obtain b where b: "dev' = dev\<lparr>fd_bd := b\<rparr>" using assms unfolding only_bd_def by blast
  show "fd_bd_offset dev' = fd_bd_offset dev" "fd_fat_offset dev' = fd_fat_offset dev" "fd_num_fats dev' = fd_num_fats dev"
    "fd_sectors_per_fat dev' = fd_sectors_per_fat dev" "fd_data_section_offset dev' = fd_data_section_offset dev"
    "fd_sectors_per_cluster dev' = fd_sectors_per_cluster dev" "fd_num_fat_slots dev' = fd_num_fat_slots dev"
    "fd_root_dir_cluster dev' = fd_root_dir_cluster dev" "fd_r dev' = fd_r dev" "fd_free_q dev' = fd_free_q dev"
    "fd_free_q_fill dev' = fd_free_q_fill dev" "slot_bad dev' i = slot_bad dev i"
    by (simp_all add: b slot_bad_def)
qed

lemma fat32_stateE:
  assumes "fat32_state I wi dev pre f post"
  obtains fs where "fat32_geometry dev (length pre) (length post)" "bdi_sector_size I (fd_bd dev) = 512"
    "wi (fd_bd dev) (pre @ fs @ post)" "length fs = fd_sectors_per_fat dev" "f = fat_view (fd_num_fat_slots dev) fs"
  using assms unfolding fat32_state_def by blast

lemma fat32_stateI:
  "fat32_geometry dev (length pre) (length post) \<Longrightarrow> bdi_sector_size I b = 512 \<Longrightarrow> wi b (pre @ fs @ post) \<Longrightarrow>
    length fs = fd_sectors_per_fat dev \<Longrightarrow> f = fat_view (fd_num_fat_slots dev) fs \<Longrightarrow>
    fat32_state I wi (dev\<lparr>fd_bd := b\<rparr>) pre f post"
  unfolding fat32_state_def by (auto simp: fat32_geometry_def)

lemma state_length: "fat32_state I wi dev pre f post \<Longrightarrow> length f = fd_num_fat_slots dev"
  by (erule fat32_stateE) simp

lemma state_slots: "fat32_state I wi dev pre f post \<Longrightarrow> length f \<le> FAT32_BAD_CLUSTER"
  by (erule fat32_stateE) (simp add: fat32_geometry_def)

lemma state_bound: "fat32_state I wi dev pre f post \<Longrightarrow> i < length f \<Longrightarrow> f ! i < 2 ^ 28"
  using slot_bound by (elim fat32_stateE) (simp del: One_nat_def)

lemma state_slot_bad: "fat32_state I wi dev pre f post \<Longrightarrow> slot_bad dev i \<longleftrightarrow> i < 2 \<or> length f \<le> i"
  using state_length by (fastforce simp: slot_bad_def)

lemma slot_not_eoc: "length f \<le> FAT32_BAD_CLUSTER \<Longrightarrow> i < length f \<Longrightarrow> \<not> FAT32_IS_EOC i"
  using is_eoc_iff [of i] by simp

context block_device begin

lemma slot_place:
  assumes "fat32_geometry dev (length pre) (length post)" and "length fs = fd_sectors_per_fat dev"
    and "inv b (pre @ fs @ post)" and "i < fd_num_fat_slots dev"
  shows "i AND FAT32_MASK = i" and "i div 128 < length fs"
    and "(fd_bd_offset dev + fd_fat_offset dev + i div 128) mod 2 ^ 32 = length pre + i div 128"
    and "(fs @ post) ! (i div 128) = fs ! (i div 128)"
proof -
  have n: "i < FAT32_BAD_CLUSTER" "i < 128 * fd_sectors_per_fat dev" "length pre = fd_bd_offset dev + fd_fat_offset dev"
    using assms(1,4) by (simp_all add: fat32_geometry_def)
  show "i AND FAT32_MASK = i" using n(1) by (simp add: fat_mask)
  show *: "i div 128 < length fs" using n(2) assms(2) by (simp add: less_mult_imp_div_less mult.commute)
  have "length (pre @ fs @ post) < 2 ^ 32" using geometry [OF assms(3)] by blast
  then have "length pre + i div 128 < 2 ^ 32" using * by simp
  then show "(fd_bd_offset dev + fd_fat_offset dev + i div 128) mod 2 ^ 32 = length pre + i div 128"
    using n(3) by (simp add: mod_less)
  show "(fs @ post) ! (i div 128) = fs ! (i div 128)" using * by (simp add: nth_append)
qed

lemma fat_sector_length:
  "inv b (pre @ fs @ post) \<Longrightarrow> bdi_sector_size I b = 512 \<Longrightarrow> i < length fs \<Longrightarrow> length (fs ! i) = 512"
  using geometry [of b "pre @ fs @ post"] by simp

lemma slot_in_sector: "(i :: nat) mod 128 * 4 + 4 \<le> 512"
proof -
  have "i mod 128 < 128" by simp
  then show ?thesis by linarith
qed

lemma get_slot:
  assumes st: "fat32_state I inv dev pre f post" and i: "i < length f"
  shows "\<exists>dev'. fat32_get_fat_slot I dev i True = Some (FOS_E_SUCCESS, Some (f ! i), dev')
    \<and> fat32_state I inv dev' pre f post \<and> only_bd dev dev'"
proof -
  obtain fs where g: "fat32_geometry dev (length pre) (length post)" "bdi_sector_size I (fd_bd dev) = 512"
    "inv (fd_bd dev) (pre @ fs @ post)" "length fs = fd_sectors_per_fat dev" "f = fat_view (fd_num_fat_slots dev) fs"
    using fat32_stateE [OF st] by blast
  have i': "i < fd_num_fat_slots dev" using i g(5) by simp
  note p = slot_place [OF g(1,4,3) i']
  have "length pre + i div 128 < length (pre @ fs @ post)" using p(2) by simp
  from read_piece_ok [OF g(3) this, of "i mod 128 * 4" 4 "replicate 4 0"] slot_in_sector [of i] g(2)
  obtain b' where b': "bdi_read_piece I (fd_bd dev) (length pre + i div 128) (i mod 128 * 4) 4 (Some (replicate 4 0))
      = Some (FOS_E_SUCCESS, Some (take 4 (drop (i mod 128 * 4) (fs ! (i div 128)))), b')"
    "inv b' (pre @ fs @ post)" "bdi_sector_size I b' = 512"
    by (auto simp: p(4))
  have "fat32_get_fat_slot I dev i True = Some (FOS_E_SUCCESS, Some (f ! i), dev\<lparr>fd_bd := b'\<rparr>)"
    using i' p(1,3) b'(1) by (simp add: fat32_get_fat_slot_def Let_def g(5) slot_of_def)
  moreover have "fat32_state I inv (dev\<lparr>fd_bd := b'\<rparr>) pre f post"
    by (rule fat32_stateI [where wi = inv and fs = fs]) (simp_all add: g b'(3) b'(2))
  ultimately show ?thesis by (intro exI conjI) (assumption, assumption, simp)
qed

lemma set_slot:
  assumes st: "fat32_state I inv dev pre f post" and i: "i < length f" and v: "v < 2 ^ 28"
  shows "\<exists>dev'. fat32_set_fat_slot I dev i v = Some (FOS_E_SUCCESS, dev')
    \<and> fat32_state I inv dev' pre (f[i := v]) post \<and> only_bd dev dev'"
proof -
  obtain fs where g: "fat32_geometry dev (length pre) (length post)" "bdi_sector_size I (fd_bd dev) = 512"
    "inv (fd_bd dev) (pre @ fs @ post)" "length fs = fd_sectors_per_fat dev" "f = fat_view (fd_num_fat_slots dev) fs"
    using fat32_stateE [OF st] by blast
  have i': "i < fd_num_fat_slots dev" using i g(5) by simp
  note p = slot_place [OF g(1,4,3) i']
  let ?s = "patch (i mod 128 * 4) (le_bytes 4 (v AND FAT32_MASK)) (fs ! (i div 128))"
  have "length pre + i div 128 < length (pre @ fs @ post)" using p(2) by simp
  from write_piece_ok [OF g(3) this, of "i mod 128 * 4" 4 "le_bytes 4 (v AND FAT32_MASK)"] slot_in_sector [of i] g(2)
  obtain b' where b': "bdi_write_piece I (fd_bd dev) (length pre + i div 128) (i mod 128 * 4) 4 (Some (le_bytes 4 (v AND FAT32_MASK)))
      = Some (FOS_E_SUCCESS, b')"
    "inv b' ((pre @ fs @ post)[length pre + i div 128 := ?s])" "bdi_sector_size I b' = 512"
    by (auto simp: p(4))
  have eq: "(pre @ fs @ post)[length pre + i div 128 := ?s] = pre @ fs[i div 128 := ?s] @ post"
    using p(2) by (simp add: list_update_append)
  have "fat32_set_fat_slot I dev i v = Some (FOS_E_SUCCESS, dev\<lparr>fd_bd := b'\<rparr>)"
    using i' p(1,3) b'(1) by (simp add: fat32_set_fat_slot_def Let_def)
  moreover have "f[i := v] = fat_view (fd_num_fat_slots dev) (fs[i div 128 := ?s])"
    using fat_view_update [OF i' p(2) fat_sector_length [OF g(3,2) p(2)], of v] v by (simp add: g(5) fat_mask)
  moreover have "fat32_state I inv (dev\<lparr>fd_bd := b'\<rparr>) pre (f[i := v]) post"
    by (rule fat32_stateI [where wi = inv and fs = "fs[i div 128 := ?s]"])
      (simp_all only: g(1,4) b'(3) b'(2) [unfolded eq] calculation(2) length_list_update)
  ultimately show ?thesis by (intro exI conjI) (assumption, assumption, simp)
qed

lemma get_slot_bad:
  "fat32_state I inv dev pre f post \<Longrightarrow> length f \<le> i \<Longrightarrow> i < 2 ^ 28 \<Longrightarrow>
    fat32_get_fat_slot I dev i True = Some (FOS_E_INVALID_INDEX, None, dev)"
  by (simp add: fat32_get_fat_slot_def state_length fat_mask)

end

end
