(* ===== verification/Fat32_Chains.thy ===== *)
theory Fat32_Chains imports Fat32_Slots begin

text \<open>
  Chains of slots: freeing, walking, allocating and resizing them
  (\<^verbatim>\<open>fat32_free_chain\<close> to \<^verbatim>\<open>fat32_traverse_chain\<close>), stated on the list of slots.
\<close>

section \<open>Chains in a list of slots\<close>

fun chain :: "nat list \<Rightarrow> nat \<Rightarrow> nat list \<Rightarrow> bool" where
  "chain f i [] = FAT32_IS_EOC i"
| "chain f i (x # xs) = (x = i \<and> 2 \<le> i \<and> i < length f \<and> chain f (f ! i) xs)"

definition zero :: "nat list \<Rightarrow> nat list \<Rightarrow> nat list" where
  "zero xs f = fold (\<lambda>i f. f[i := 0]) xs f"

lemma zero_simps [simp]: "zero [] f = f" "zero (x # xs) f = zero xs (f[x := 0])"
  by (simp_all add: zero_def)

lemma length_zero [simp]: "length (zero xs f) = length f"
  by (induction xs arbitrary: f) simp_all

lemma nth_zero: "i < length f \<Longrightarrow> zero xs f ! i = (if i \<in> set xs then 0 else f ! i)"
  by (induction xs arbitrary: f) (auto simp: nth_list_update)

lemma chain_slots: "chain f i xs \<Longrightarrow> x \<in> set xs \<Longrightarrow> 2 \<le> x \<and> x < length f"
  by (induction f i xs rule: chain.induct) auto

lemma chain_cong:
  "chain f i xs \<Longrightarrow> length g = length f \<Longrightarrow> (\<And>x. x \<in> set xs \<Longrightarrow> g ! x = f ! x) \<Longrightarrow> chain g i xs"
  by (induction f i xs rule: chain.induct) auto

lemma chain_update: "x \<notin> set xs \<Longrightarrow> chain (f[x := v]) i xs \<longleftrightarrow> chain f i xs"
  by (induction f i xs rule: chain.induct) auto

lemma eoc_0 [simp]: "\<not> FAT32_IS_EOC 0"
  by (simp add: FAT32_IS_EOC_def)

lemma chain_0 [simp]: "\<not> chain f 0 xs"
  by (cases xs) simp_all

lemma chain_not_zero: "chain f i xs \<Longrightarrow> x \<in> set xs \<Longrightarrow> f ! x \<noteq> 0"
proof (induction f i xs rule: chain.induct)
  case (2 f i y xs)
  then show ?case using chain_0 [of f xs] by (cases "f ! i = 0") auto
qed simp

lemma chain_unique:
  "chain f i xs \<Longrightarrow> chain f i ys \<Longrightarrow> length f \<le> FAT32_BAD_CLUSTER \<Longrightarrow> xs = ys"
proof (induction f i xs arbitrary: ys rule: chain.induct)
  case (1 f i)
  then show ?case using slot_not_eoc [of f i] by (cases ys) auto
next
  case (2 f i x xs)
  then show ?case using slot_not_eoc [of f i] by (cases ys) auto
qed

lemma chain_append: "chain f i (xs @ y # ys) \<Longrightarrow> chain f y (y # ys)"
  by (induction xs arbitrary: i) auto

lemma chain_distinct: "chain f i xs \<Longrightarrow> length f \<le> FAT32_BAD_CLUSTER \<Longrightarrow> distinct xs"
proof (rule ccontr)
  assume ch: "chain f i xs" and f: "length f \<le> FAT32_BAD_CLUSTER" and "\<not> distinct xs"
  then obtain as x bs cs where xs: "xs = as @ x # bs @ x # cs"
    using not_distinct_decomp [of xs] by auto
  have "chain f x (x # bs @ x # cs)" using ch unfolding xs by (rule chain_append)
  moreover have "chain f x (x # cs)" using ch chain_append [of f i "as @ x # bs" x cs] by (simp add: xs)
  ultimately have "x # bs @ x # cs = x # cs" by (rule chain_unique [OF _ _ f])
  then show False by simp
qed

text \<open>Clearing the first slot leaves the rest of the chain.\<close>

lemma chain_clear_head:
  "chain f i (i # xs) \<Longrightarrow> length f \<le> FAT32_BAD_CLUSTER \<Longrightarrow> chain (f[i := 0]) (f ! i) xs"
  using chain_distinct [of f i "i # xs"] by (simp add: chain_update)

lemma chain_clear_head_rev:
  assumes "chain (f[i := 0]) j xs" and "i < length f"
  shows "chain f j xs"
proof -
  have "i \<notin> set xs" using chain_not_zero [OF assms(1), of i] assms(2) by auto
  then show ?thesis using assms(1) by (simp add: chain_update)
qed

definition used :: "nat list \<Rightarrow> nat" where
  "used f = length (filter (\<lambda>v. v \<noteq> 0) f)"

lemma used_clear: "i < length f \<Longrightarrow> f ! i \<noteq> 0 \<Longrightarrow> used (f[i := 0]) < used f"
proof (induction f arbitrary: i)
  case (Cons v f)
  then show ?case by (cases i) (auto simp: used_def)
qed simp

section \<open>Freeing\<close>

text \<open>What freeing leaves of any table: the slots of the walk up to the fault are cleared.\<close>

definition freed :: "nat list \<Rightarrow> nat \<Rightarrow> fernos_error \<Rightarrow> nat list \<Rightarrow> bool" where
  "freed f i e f' \<longleftrightarrow> (if \<exists>xs. chain f i xs then e = FOS_E_SUCCESS \<and> (\<forall>xs. chain f i xs \<longrightarrow> f' = zero xs f)
     else e = FOS_E_STATE_MISMATCH) \<and> (\<exists>xs. f' = zero xs f)"

lemma freed_step:
  assumes i: "2 \<le> i" "i < length f" and f: "length f \<le> FAT32_BAD_CLUSTER" and r: "freed (f[i := 0]) (f ! i) e f'"
  shows "freed f i e f'"
proof (cases "\<exists>xs. chain f i xs")
  case True
  then obtain xs where xs: "chain f i xs" by blast
  then obtain ys where ys: "xs = i # ys" using slot_not_eoc [OF f i(2)] by (cases xs) auto
  have "chain (f[i := 0]) (f ! i) ys" using chain_clear_head xs f unfolding ys by blast
  then have ex: "\<exists>zs. chain (f[i := 0]) (f ! i) zs" by blast
  have e: "e = FOS_E_SUCCESS" and f': "f' = zero xs f"
    using r ys \<open>chain (f[i := 0]) (f ! i) ys\<close> unfolding freed_def if_P [OF ex] by simp_all
  have "f' = zero zs f" if "chain f i zs" for zs using chain_unique [OF xs that f] f' by simp
  then show ?thesis using e f' unfolding freed_def if_P [OF True] by blast
next
  case False
  have "\<not> chain (f[i := 0]) (f ! i) xs" for xs
  proof
    assume "chain (f[i := 0]) (f ! i) xs"
    from chain_clear_head_rev [OF this i(2)] have "chain f i (i # xs)" using i by simp
    then show False using False by blast
  qed
  then have "e = FOS_E_STATE_MISMATCH" and "\<exists>xs. f' = zero xs (f[i := 0])" using r unfolding freed_def by auto
  moreover from this(2) obtain xs where "f' = zero (i # xs) f" by auto
  ultimately show ?thesis using False unfolding freed_def by (simp del: zero_simps) blast
qed

lemma zero_small: "0 < (2 :: nat) ^ 28"
  by simp

context block_device begin

lemma free_loop:
  assumes "fat32_state I inv dev pre f post" and "2 \<le> i" and "i < length f"
  shows "\<exists>e dev' f'. fat32_free_loop I dev i = Some (e, dev') \<and> fat32_state I inv dev' pre f' post
    \<and> only_bd dev dev' \<and> freed f i e f'"
  using assms
proof (induction "used f" arbitrary: dev f i rule: less_induct)
  case less
  note f = state_slots [OF less.prems(1)]
  note ne = slot_not_eoc [OF f less.prems(3)]
  obtain d1 where d1: "fat32_get_fat_slot I dev i True = Some (FOS_E_SUCCESS, Some (f ! i), d1)"
    "fat32_state I inv d1 pre f post" "only_bd dev d1"
    using get_slot [OF less.prems(1,3)] by (elim exE conjE) rule
  show ?case
  proof (cases "\<not> FAT32_IS_EOC (f ! i) \<and> slot_bad dev (f ! i)")
    case True
    have "\<not> chain f i xs" for xs
      using True ne state_slot_bad [OF less.prems(1)] chain_slots [of f "f ! i"] by (cases xs; cases "tl xs") auto
    then have "freed f i FOS_E_STATE_MISMATCH f" by (auto simp: freed_def intro: exI [of _ "[]"])
    moreover have "fat32_free_loop I dev i = Some (FOS_E_STATE_MISMATCH, d1)"
      using True ne d1(1) only_bdD(12) [OF d1(3)] by (subst fat32_free_loop.simps) simp
    ultimately show ?thesis using d1(2,3) by (intro exI conjI)
  next
    case False
    have nz: "f ! i \<noteq> 0" using False state_slot_bad [OF less.prems(1), of "f ! i"] by (auto intro: ccontr)
    obtain d2 where d2: "fat32_set_fat_slot I d1 i 0 = Some (FOS_E_SUCCESS, d2)"
      "fat32_state I inv d2 pre (f[i := 0]) post" "only_bd d1 d2"
      using set_slot [OF d1(2) less.prems(3) zero_small] by (elim exE conjE) rule
    have step: "fat32_free_loop I dev i = fat32_free_loop I d2 (f ! i)"
      using False ne d1(1) d2(1) only_bdD(12) [OF d1(3)] by (subst fat32_free_loop.simps) auto
    show ?thesis
    proof (cases "FAT32_IS_EOC (f ! i)")
      case True
      then have "fat32_free_loop I dev i = Some (FOS_E_SUCCESS, d2)"
        unfolding step by (subst fat32_free_loop.simps) simp
      moreover have "freed (f[i := 0]) (f ! i) FOS_E_SUCCESS (f[i := 0])"
      proof -
        have ch: "chain (f[i := 0]) (f ! i) []" using True by simp
        then have ex: "\<exists>xs. chain (f[i := 0]) (f ! i) xs" by blast
        have "f[i := 0] = zero xs (f[i := 0])" if "chain (f[i := 0]) (f ! i) xs" for xs
          using chain_unique [OF that ch] f by simp
        then show ?thesis unfolding freed_def if_P [OF ex] using zero_simps(1) by metis
      qed
      then have "freed f i FOS_E_SUCCESS (f[i := 0])" by (rule freed_step [OF less.prems(2,3) f])
      ultimately show ?thesis using d2(2) only_bd_trans [OF d1(3) d2(3)] by (intro exI conjI)
    next
      case ne': False
      then have n: "2 \<le> f ! i" "f ! i < length (f[i := 0])"
        using False state_slot_bad [OF less.prems(1), of "f ! i"] by auto
      obtain e d3 f3 where d3: "fat32_free_loop I d2 (f ! i) = Some (e, d3)" "fat32_state I inv d3 pre f3 post"
        "only_bd d2 d3" "freed (f[i := 0]) (f ! i) e f3"
        using less.hyps [OF used_clear [OF less.prems(3) nz] d2(2) n] by (elim exE conjE) rule
      have "only_bd dev d3" using d1(3) d2(3) d3(3) by (blast intro: only_bd_trans)
      moreover have "freed f i e f3" using freed_step [OF less.prems(2,3) f d3(4)] .
      ultimately show ?thesis using d3(1,2) unfolding step by (intro exI conjI)
    qed
  qed
qed

lemma free_chain:
  assumes st: "fat32_state I inv dev pre f post" and i: "2 \<le> i" "i < length f"
  shows "\<exists>e dev' f'. fat32_free_chain I dev i = Some (e, dev') \<and> fat32_state I inv dev' pre f' post
    \<and> only_bd dev dev' \<and> freed f i e f'"
proof -
  have "i AND FAT32_MASK = i" using i(2) state_slots [OF st] by (simp add: fat_mask)
  then show ?thesis using free_loop [OF st i] state_slot_bad [OF st, of i] i
    by (simp add: fat32_free_chain_def Let_def)
qed

end

section \<open>Walking\<close>

lemma chain_next:
  assumes st: "fat32_state I wi dev pre f post" and ch: "chain f i (i # xs)"
  shows "f ! i \<noteq> FAT32_BAD_CLUSTER" and "FAT32_IS_EOC (f ! i) \<longleftrightarrow> xs = []"
    and "xs \<noteq> [] \<Longrightarrow> \<not> slot_bad dev (f ! i) \<and> xs = f ! i # tl xs \<and> chain f (f ! i) xs"
proof -
  note f = state_slots [OF st]
  show "FAT32_IS_EOC (f ! i) \<longleftrightarrow> xs = []" using ch slot_not_eoc [OF f, of "f ! i"] by (cases xs) auto
  show "f ! i \<noteq> FAT32_BAD_CLUSTER" using ch f by (cases xs) (auto simp: FAT32_IS_EOC_def)
  show "\<not> slot_bad dev (f ! i) \<and> xs = f ! i # tl xs \<and> chain f (f ! i) xs" if "xs \<noteq> []"
    using that ch state_slot_bad [OF st, of "f ! i"] by (cases xs) auto
qed

lemma chain_Cons: "chain f i xs \<Longrightarrow> length f \<le> FAT32_BAD_CLUSTER \<Longrightarrow> i < length f \<Longrightarrow> \<exists>ys. xs = i # ys"
  using slot_not_eoc [of f i] by (cases xs) auto

context block_device begin

lemma traverse_loop:
  assumes "fat32_state I inv dev pre f post" and "chain f i (i # xs)"
  shows "\<exists>dev'. fat32_traverse_loop I n dev i =
      Some (if n \<le> length xs then (FOS_E_SUCCESS, Some ((i # xs) ! n), dev') else (FOS_E_INVALID_INDEX, None, dev'))
    \<and> fat32_state I inv dev' pre f post \<and> only_bd dev dev'"
  using assms
proof (induction n arbitrary: dev i xs)
  case 0
  then show ?case using only_bd_refl by auto
next
  case (Suc n)
  note nx = chain_next [OF Suc.prems]
  have i: "i < length f" using Suc.prems(2) by simp
  obtain d1 where d1: "fat32_get_fat_slot I dev i True = Some (FOS_E_SUCCESS, Some (f ! i), d1)"
    "fat32_state I inv d1 pre f post" "only_bd dev d1"
    using get_slot [OF Suc.prems(1) i] by (elim exE conjE) rule
  show ?case
  proof (cases xs)
    case Nil
    then show ?thesis using d1 nx(2) by (intro exI [of _ d1]) simp
  next
    case (Cons x ys)
    with nx(3) have x: "x = f ! i" and ch: "chain f x (x # ys)" and ok: "\<not> slot_bad d1 x"
      using only_bdD(12) [OF d1(3)] by auto
    obtain d2 where d2: "fat32_traverse_loop I n d1 x =
        Some (if n \<le> length ys then (FOS_E_SUCCESS, Some ((x # ys) ! n), d2) else (FOS_E_INVALID_INDEX, None, d2))"
      "fat32_state I inv d2 pre f post" "only_bd d1 d2"
      using Suc.IH [OF d1(2) ch] by (elim exE conjE) rule
    have "fat32_traverse_loop I (Suc n) dev i = fat32_traverse_loop I n d1 x"
      using d1(1) nx(2) Cons ok by (simp add: x)
    then show ?thesis using d2 only_bd_trans [OF d1(3) d2(3)] Cons by (intro exI [of _ d2]) simp
  qed
qed

lemma traverse_chain:
  assumes st: "fat32_state I inv dev pre f post" and ch: "chain f i (i # xs)"
  shows "\<exists>dev'. fat32_traverse_chain I dev i n True =
      Some (if n \<le> length xs then (FOS_E_SUCCESS, Some ((i # xs) ! n), dev') else (FOS_E_INVALID_INDEX, None, dev'))
    \<and> fat32_state I inv dev' pre f post \<and> only_bd dev dev'"
proof -
  have i: "2 \<le> i" "i < length f" using ch by simp_all
  then have "i AND FAT32_MASK = i" using state_slots [OF st] by (simp add: fat_mask)
  then show ?thesis using traverse_loop [OF st ch] state_slot_bad [OF st, of i] i
    by (simp add: fat32_traverse_chain_def Let_def)
qed

end

section \<open>Free slots\<close>

definition queue_ok :: "'b fat32_device \<Rightarrow> nat list \<Rightarrow> bool" where
  "queue_ok dev f \<longleftrightarrow> length (fd_free_q dev) = 128 \<and> fd_free_q_fill dev \<le> 128
     \<and> distinct (take (fd_free_q_fill dev) (fd_free_q dev))
     \<and> (\<forall>x\<in>set (take (fd_free_q_fill dev) (fd_free_q dev)). 2 \<le> x \<and> x < length f \<and> f ! x = 0)"

text \<open>
  The queue is filled from the right sectors when the volume begins at sector 0 of the device and no
  sector of the table lies beyond the last slot.
\<close>

definition fat_alloc_ok :: "'b fat32_device \<Rightarrow> nat list \<Rightarrow> bool" where
  "fat_alloc_ok dev f \<longleftrightarrow> fd_bd_offset dev = 0 \<and> 128 * (fd_sectors_per_fat dev - 1) < fd_num_fat_slots dev \<and> queue_ok dev f"

definition geom :: "'b fat32_device \<Rightarrow> nat \<times> nat \<times> nat \<times> nat \<times> nat \<times> nat \<times> nat \<times> nat \<times> nat" where
  "geom dev = (fd_bd_offset dev, fd_num_sectors dev, fd_fat_offset dev, fd_num_fats dev, fd_sectors_per_fat dev,
     fd_data_section_offset dev, fd_sectors_per_cluster dev, fd_num_fat_slots dev, fd_root_dir_cluster dev)"

lemma geom_upd [simp]:
  "geom (dev\<lparr>fd_bd := b\<rparr>) = geom dev" "geom (dev\<lparr>fd_r := r\<rparr>) = geom dev"
  "geom (dev\<lparr>fd_free_q := q\<rparr>) = geom dev" "geom (dev\<lparr>fd_free_q_fill := n\<rparr>) = geom dev"
  by (simp_all add: geom_def)

lemma only_bd_geom: "only_bd dev dev' \<Longrightarrow> geom dev' = geom dev"
  unfolding only_bd_def by (metis geom_upd(1))

lemma only_bd_alloc: "only_bd dev dev' \<Longrightarrow> fat_alloc_ok dev' f = fat_alloc_ok dev f"
  by (simp add: fat_alloc_ok_def queue_ok_def only_bdD)

lemma fat_alloc_ok_set: "fat_alloc_ok dev f \<Longrightarrow> f ! t \<noteq> 0 \<Longrightarrow> fat_alloc_ok dev (f[t := v])"
  unfolding fat_alloc_ok_def queue_ok_def by (auto simp: nth_list_update_neq) (metis neq0_conv nth_list_update_neq)

lemma fat_alloc_ok_zero: "fat_alloc_ok dev f \<Longrightarrow> fat_alloc_ok dev (zero xs f)"
  unfolding fat_alloc_ok_def queue_ok_def by (auto simp: nth_zero)

lemma state_other_fields:
  "fat32_state I wi (dev\<lparr>fd_free_q := q\<rparr>) pre f post = fat32_state I wi dev pre f post"
  "fat32_state I wi (dev\<lparr>fd_free_q_fill := n\<rparr>) pre f post = fat32_state I wi dev pre f post"
  "fat32_state I wi (dev\<lparr>fd_r := r\<rparr>) pre f post = fat32_state I wi dev pre f post"
  by (simp_all add: fat32_state_def fat32_geometry_def)

lemma scan_loop:
  assumes "i + n \<le> length sec" and "fd_free_q_fill dev + n \<le> length (fd_free_q dev)" and "s * 128 + (i + n) \<le> 2 ^ 32"
  shows "\<exists>q. fat32_scan_loop n i s sec dev =
      Some (dev\<lparr>fd_free_q := q, fd_free_q_fill := fd_free_q_fill dev + length (filter (\<lambda>k. sec ! k AND FAT32_MASK = 0) [i..<i + n])\<rparr>)
    \<and> length q = length (fd_free_q dev)
    \<and> take (fd_free_q_fill dev + length (filter (\<lambda>k. sec ! k AND FAT32_MASK = 0) [i..<i + n])) q
      = take (fd_free_q_fill dev) (fd_free_q dev) @ map (\<lambda>k. s * 128 + k) (filter (\<lambda>k. sec ! k AND FAT32_MASK = 0) [i..<i + n])"
  using assms
proof (induction n arbitrary: i dev)
  case 0
  then show ?case by (intro exI [of _ "fd_free_q dev"]) simp
next
  case (Suc n)
  have get: "arr_get sec i = Some (sec ! i)" using Suc.prems(1) by (simp add: arr_get_def)
  have up: "[i..<i + Suc n] = i # [i + 1..<i + 1 + n]" by (simp add: upt_rec)
  show ?case
  proof (cases "sec ! i AND FAT32_MASK = 0")
    case False
    then show ?thesis using Suc.IH [of "i + 1" dev] Suc.prems get unfolding up by simp
  next
    case True
    let ?q = "(fd_free_q dev)[fd_free_q_fill dev := s * 128 + i]"
    let ?d = "dev\<lparr>fd_free_q := ?q, fd_free_q_fill := fd_free_q_fill dev + 1\<rparr>"
    have set: "arr_set (fd_free_q dev) (fd_free_q_fill dev) ((s * 128 + i) mod 2 ^ 32) = Some ?q"
      using Suc.prems by (simp add: arr_set_def)
    have step: "fat32_scan_loop (Suc n) i s sec dev = fat32_scan_loop n (i + 1) s sec ?d"
      using True get set by simp
    have "take (Suc (fd_free_q_fill dev)) ?q = take (fd_free_q_fill dev) (fd_free_q dev) @ [s * 128 + i]"
      using Suc.prems(2) by (simp add: take_Suc_conv_app_nth)
    then show ?thesis using Suc.IH [of "i + 1" ?d] Suc.prems True unfolding step up by simp
  qed
qed

text \<open>The slots a sector of the table offers.\<close>

lemma free_in_sector:
  fixes s spf n k :: nat
  assumes s: "s < spf" and n: "128 * (spf - 1) < n" "n \<le> 128 * spf"
    and k: "(if s = 0 then 2 else 0) \<le> k" "k < (if s = spf - 1 \<and> 0 < n mod 128 then n mod 128 else 128)"
  shows "2 \<le> s * 128 + k \<and> s * 128 + k < n \<and> k < 128 \<and> (s * 128 + k) div 128 = s \<and> (s * 128 + k) mod 128 = k"
proof -
  have k128: "k < 128" using k(2) mod_less_divisor [of 128 n] by (simp split: if_splits)
  obtain m where m: "spf = Suc m" using s by (cases spf) simp
  have n': "128 * m < n" "n \<le> 128 * m + 128" "s \<le> m" using n s by (simp_all add: m)
  have "s * 128 + k < n"
  proof (cases "s = m")
    case False
    then have "s + 1 \<le> m" using n'(3) by simp
    then show ?thesis using n'(1) k128 by linarith
  next
    case True
    have d: "n = n div 128 * 128 + n mod 128" by simp
    show ?thesis
    proof (cases "n mod 128 = 0")
      case False
      then have "n div 128 = m" using n'(1,2) d mod_less_divisor [of 128 n] by linarith
      then show ?thesis using d k(2) True False m by simp
    next
      case z: True
      then have "n div 128 = m + 1" using n'(1,2) d by linarith
      then show ?thesis using d z k128 True by linarith
    qed
  qed
  moreover have "2 \<le> s * 128 + k" using k(1) by (cases s) simp_all
  ultimately show ?thesis using k128 by simp
qed

lemma sector_slots:
  assumes "k < 128" and "length (fs ! s) = 512"
  shows "map le_num (cells 4 128 (fs ! s)) ! k AND FAT32_MASK = slot_of fs (s * 128 + k)"
  using assms by (simp add: cells_def slot_of_def mult.commute)

lemma queue_okI:
  "length q = 128 \<Longrightarrow> n \<le> 128 \<Longrightarrow> distinct (take n q) \<Longrightarrow> \<forall>x\<in>set (take n q). 2 \<le> x \<and> x < length f \<and> f ! x = 0 \<Longrightarrow>
    queue_ok (dev\<lparr>fd_free_q := q, fd_free_q_fill := n\<rparr>) f"
  by (simp add: queue_ok_def)

lemma sector_end:
  fixes s spf t :: nat
  assumes "s < spf" and "128 * (spf - 1) < FAT32_BAD_CLUSTER" and "t \<le> 128"
  shows "s * 128 + t \<le> 2 ^ 32"
proof -
  obtain m where "spf = Suc m" using assms(1) by (cases spf) simp
  then show ?thesis using assms by simp
qed

lemma scan_bounds:
  fixes n s spf :: nat
  defines "start \<equiv> (if s = 0 then 2 else 0)"
  defines "stop \<equiv> (if s = spf - 1 \<and> 0 < n mod 128 then n mod 128 else 128)"
  shows "stop \<le> 128" and "start + (stop - start) \<le> 128" and "{start..<start + (stop - start)} = {start..<stop}"
  unfolding start_def stop_def using mod_less_divisor [of 128 n] by auto

context block_device begin

text \<open>One sector of the table is read and its free slots are queued.\<close>

lemma populate_step:
  assumes st: "fat32_state I inv dev pre f post" and al: "fat_alloc_ok dev f" and fill: "fd_free_q_fill dev = 0"
    and buf: "length buf = 512"
  shows "\<exists>dev' buf'. fat32_populate_loop I (Suc n) buf dev = fat32_populate_loop I n buf' dev'
    \<and> fat32_state I inv dev' pre f post \<and> fat_alloc_ok dev' f \<and> geom dev' = geom dev \<and> length buf' = 512"
proof -
  obtain fs where g: "fat32_geometry dev (length pre) (length post)" "bdi_sector_size I (fd_bd dev) = 512"
    "inv (fd_bd dev) (pre @ fs @ post)" "length fs = fd_sectors_per_fat dev" "f = fat_view (fd_num_fat_slots dev) fs"
    using fat32_stateE [OF st] by blast
  have a: "fd_bd_offset dev = 0" "128 * (fd_sectors_per_fat dev - 1) < fd_num_fat_slots dev" "length (fd_free_q dev) = 128"
    using al by (simp_all add: fat_alloc_ok_def queue_ok_def)
  have N: "2 \<le> fd_num_fat_slots dev" "fd_num_fat_slots dev \<le> 128 * fd_sectors_per_fat dev"
    "fd_num_fat_slots dev \<le> FAT32_BAD_CLUSTER" "length pre = fd_fat_offset dev"
    using g(1) a(1) by (simp_all add: fat32_geometry_def)
  have spf: "0 < fd_sectors_per_fat dev" using N(1,2) by (cases "fd_sectors_per_fat dev") simp_all
  obtain x r where x: "next_rand_u32 (fd_r dev) = (x, r)" by (cases "next_rand_u32 (fd_r dev)")
  let ?s = "unat x mod fd_sectors_per_fat dev"
  have s: "?s < fd_sectors_per_fat dev" using spf by simp
  have sl: "length (fs ! ?s) = 512" using fat_sector_length [OF g(3,2)] s g(4) by simp
  have "length (pre @ fs @ post) < 2 ^ 32" using geometry [OF g(3)] by blast
  then have sec: "(fd_fat_offset dev + ?s) mod 2 ^ 32 = length pre + ?s" using s g(4) N(4) by simp
  have "length pre + ?s < length (pre @ fs @ post)" using s g(4) by simp
  from read_one [OF g(3) this, of buf] buf g(2)
  obtain b where b: "bdi_read I (fd_bd dev) (length pre + ?s) 1 (Some buf) = Some (FOS_E_SUCCESS, Some (fs ! ?s), b)"
    "inv b (pre @ fs @ post)" "bdi_sector_size I b = 512"
    using s g(4) by (auto simp: nth_append)
  let ?d = "dev\<lparr>fd_r := r, fd_bd := b\<rparr>"
  obtain start stop :: nat where start: "start = (if ?s = 0 then 2 else 0)" and
    stop: "stop = (if ?s = fd_sectors_per_fat dev - 1 \<and> 0 < fd_num_fat_slots dev mod 128 then fd_num_fat_slots dev mod 128 else 128)"
    by simp
  let ?sec = "map le_num (cells 4 128 (fs ! ?s))"
  let ?ks = "filter (\<lambda>k. ?sec ! k AND FAT32_MASK = 0) [start..<start + (stop - start)]"
  note sb = scan_bounds [where s = ?s and spf = "fd_sectors_per_fat dev" and n = "fd_num_fat_slots dev", folded start stop]
  have st': "fat32_state I inv ?d pre f post"
    unfolding fat32_state_def using g b(2,3) by (auto simp: fat32_geometry_def)
  have "?s * 128 + (start + (stop - start)) \<le> 2 ^ 32"
    by (rule sector_end [OF s _ sb(2)]) (use a(2) N(3) in linarith)
  then obtain q where q: "fat32_scan_loop (stop - start) start ?s ?sec ?d = Some (?d\<lparr>fd_free_q := q, fd_free_q_fill := length ?ks\<rparr>)"
    "length q = 128" "take (length ?ks) q = map (\<lambda>k. ?s * 128 + k) ?ks"
  proof -
    have 1: "start + (stop - start) \<le> length ?sec" using sb(2) by (simp only: length_map length_cells)
    have f0: "fd_free_q_fill ?d = 0" "length (fd_free_q ?d) = 128" using fill a(3) by simp_all
    have 2: "fd_free_q_fill ?d + (stop - start) \<le> length (fd_free_q ?d)"
      unfolding f0 add_0 by (rule add_leD2 [OF sb(2)])
    show ?thesis using scan_loop [OF 1 2 \<open>?s * 128 + (start + (stop - start)) \<le> 2 ^ 32\<close>] that
      unfolding f0 add_0 take_0 append_Nil by (elim exE conjE)
  qed
  let ?d' = "?d\<lparr>fd_free_q := q, fd_free_q_fill := length ?ks\<rparr>"
  have k: "2 \<le> ?s * 128 + k \<and> ?s * 128 + k < fd_num_fat_slots dev \<and> k < 128 \<and> f ! (?s * 128 + k) = 0" if "k \<in> set ?ks" for k
  proof -
    have k: "k \<in> {start..<stop}" "?sec ! k AND FAT32_MASK = 0" using that sb(3) by (simp_all only: set_filter set_upt mem_Collect_eq)
    then have "start \<le> k" "k < stop" by simp_all
    note fr = free_in_sector [OF s a(2) N(2) this [unfolded start stop]]
    then show ?thesis using k(2) sector_slots [of k fs ?s] sl by (simp add: g(5))
  qed
  have "length ?ks \<le> length [start..<start + (stop - start)]" by (rule length_filter_le)
  also have "\<dots> \<le> 128" unfolding length_upt diff_add_inverse by (rule add_leD2 [OF sb(2)])
  finally have "length ?ks \<le> 128" .
  moreover have "distinct (map (\<lambda>k. ?s * 128 + k) ?ks)" by (simp add: distinct_map inj_on_def)
  moreover have "\<forall>x\<in>set (map (\<lambda>k. ?s * 128 + k) ?ks). 2 \<le> x \<and> x < length f \<and> f ! x = 0"
    unfolding state_length [OF st] set_map using k by (intro ballI) (erule imageE, hypsubst, blast)
  ultimately have "queue_ok ?d' f"
    by (intro queue_okI) (simp_all only: q(2,3))
  then have "fat_alloc_ok ?d' f" using a by (simp add: fat_alloc_ok_def)
  moreover have "fat32_populate_loop I (Suc n) buf dev = fat32_populate_loop I n (fs ! ?s) ?d'"
    using fill x spf sec b(1) q(1) by (simp add: Let_def start stop split del: if_split)
  moreover have "fat32_state I inv ?d' pre f post" using st' by (simp add: state_other_fields)
  moreover have "geom ?d' = geom dev" by (simp add: geom_def)
  ultimately show ?thesis using sl by (intro exI conjI)
qed

lemma populate_loop:
  assumes "fat32_state I inv dev pre f post" and "fat_alloc_ok dev f" and "length buf = 512"
  shows "\<exists>dev'. fat32_populate_loop I n buf dev = Some (FOS_E_SUCCESS, dev')
    \<and> fat32_state I inv dev' pre f post \<and> fat_alloc_ok dev' f \<and> geom dev' = geom dev"
  using assms
proof (induction n arbitrary: dev buf)
  case (Suc n)
  show ?case
  proof (cases "fd_free_q_fill dev = 0")
    case True
    obtain d b where d: "fat32_populate_loop I (Suc n) buf dev = fat32_populate_loop I n b d"
      "fat32_state I inv d pre f post" "fat_alloc_ok d f" "geom d = geom dev" "length b = 512"
      using populate_step [OF Suc.prems(1,2) True Suc.prems(3), of n] by (elim exE conjE) rule
    show ?thesis using Suc.IH [OF d(2,3,5)] unfolding d(1,4) .
  qed (use Suc.prems in simp)
qed simp

lemma populate_free_queue:
  assumes "fat32_state I inv dev pre f post" and "fat_alloc_ok dev f" and "length junk = 512"
  shows "\<exists>dev'. fat32_populate_free_queue I junk dev =
      Some (if fd_free_q_fill dev' = 0 then FOS_E_NO_SPACE else FOS_E_SUCCESS, dev')
    \<and> fat32_state I inv dev' pre f post \<and> fat_alloc_ok dev' f \<and> geom dev' = geom dev"
proof (cases "fd_free_q_fill dev = 0")
  case True
  obtain d where "fat32_populate_loop I 5 junk dev = Some (FOS_E_SUCCESS, d)"
    "fat32_state I inv d pre f post" "fat_alloc_ok d f" "geom d = geom dev"
    using populate_loop [OF assms, of 5] by (elim exE conjE) rule
  then show ?thesis using True by (intro exI [of _ d]) (simp add: fat32_populate_free_queue_def)
qed (use assms in \<open>simp add: fat32_populate_free_queue_def\<close>)

lemma eoc_small: "FAT32_EOC < 2 ^ 28"
  by simp

lemma pop_free_slot:
  assumes st: "fat32_state I inv dev pre f post" and al: "fat_alloc_ok dev f" and junk: "length junk = 512"
  shows "\<exists>dev'. fat32_state I inv dev' pre f post \<and> fat_alloc_ok dev' f \<and> geom dev' = geom dev \<and>
      fat32_pop_free_fat_slot I junk dev True = Some (FOS_E_NO_SPACE, None, dev') \<and> fd_free_q_fill dev = 0
    \<or> (\<exists>k. 2 \<le> k \<and> k < length f \<and> f ! k = 0 \<and>
        fat32_pop_free_fat_slot I junk dev True = Some (FOS_E_SUCCESS, Some k, dev')
        \<and> fat32_state I inv dev' pre (f[k := FAT32_EOC]) post \<and> fat_alloc_ok dev' (f[k := FAT32_EOC]) \<and> geom dev' = geom dev
        \<and> fd_free_q_fill dev - 1 \<le> fd_free_q_fill dev')"
proof -
  obtain e d where d: "(if fd_free_q_fill dev = 0 then fat32_populate_free_queue I junk dev else Some (FOS_E_SUCCESS, dev)) = Some (e, d)"
    "e = (if fd_free_q_fill d = 0 then FOS_E_NO_SPACE else FOS_E_SUCCESS)"
    "fat32_state I inv d pre f post" "fat_alloc_ok d f" "geom d = geom dev" "fd_free_q_fill dev \<le> fd_free_q_fill d"
  proof (cases "fd_free_q_fill dev = 0")
    case True
    then show ?thesis using populate_free_queue [OF assms] that by auto
  qed (use st al that in auto)
  show ?thesis
  proof (cases "fd_free_q_fill d = 0")
    case True
    then have "fat32_pop_free_fat_slot I junk dev True = Some (FOS_E_NO_SPACE, None, d)"
      unfolding fat32_pop_free_fat_slot_def d(1) using d(2) by simp
    moreover have "fd_free_q_fill dev = 0" using True d(6) by simp
    ultimately show ?thesis using d(3-5) by blast
  next
    case False
    let ?n = "fd_free_q_fill d - 1" and ?d = "d\<lparr>fd_free_q_fill := fd_free_q_fill d - 1\<rparr>"
    let ?k = "fd_free_q d ! ?n"
    have q: "length (fd_free_q d) = 128" "fd_free_q_fill d \<le> 128" "distinct (take (fd_free_q_fill d) (fd_free_q d))"
      "\<forall>x\<in>set (take (fd_free_q_fill d) (fd_free_q d)). 2 \<le> x \<and> x < length f \<and> f ! x = 0"
      using d(4) by (simp_all add: fat_alloc_ok_def queue_ok_def)
    have n: "?n < length (fd_free_q d)" using q(1,2) False by simp
    have tk: "take (fd_free_q_fill d) (fd_free_q d) = take ?n (fd_free_q d) @ [?k]"
      using take_Suc_conv_app_nth [OF n] False by simp
    have k: "2 \<le> ?k" "?k < length f" "f ! ?k = 0" using q(4) unfolding tk by auto
    have st': "fat32_state I inv ?d pre f post" using d(3) by (simp add: state_other_fields)
    obtain d' where d': "fat32_set_fat_slot I ?d ?k FAT32_EOC = Some (FOS_E_SUCCESS, d')"
      "fat32_state I inv d' pre (f[?k := FAT32_EOC]) post" "only_bd ?d d'"
      using set_slot [OF st' k(2) eoc_small] by (elim exE conjE) rule
    have "queue_ok ?d (f[?k := FAT32_EOC])"
      using q unfolding tk by (auto simp: queue_ok_def nth_list_update)
    then have "fat_alloc_ok ?d (f[?k := FAT32_EOC])" using d(4) by (simp add: fat_alloc_ok_def)
    then have "fat_alloc_ok d' (f[?k := FAT32_EOC])" using only_bd_alloc [OF d'(3)] by blast
    moreover have "geom d' = geom dev" using only_bd_geom [OF d'(3)] d(5) by simp
    moreover have "fd_free_q_fill dev - 1 \<le> fd_free_q_fill d'" using d(6) only_bdD [OF d'(3)] by simp
    moreover have "fat32_pop_free_fat_slot I junk dev True = Some (FOS_E_SUCCESS, Some ?k, d')"
      unfolding fat32_pop_free_fat_slot_def d(1) using d(2) False d'(1) n by (simp add: Let_def)
    ultimately show ?thesis using k d'(2) by blast
  qed
qed

end

section \<open>Allocating a chain\<close>

lemma eoc_pos: "FAT32_EOC \<noteq> 0"
  by simp

lemma chain_grow:
  assumes ch: "chain f' k (k # ys)" and t: "2 \<le> t" "t < length f" and k: "2 \<le> k" "k < length f" "f ! k = 0" "t \<noteq> k"
    and len: "length f' = length f" and same: "\<forall>j<length f. j \<notin> set (k # ys) \<longrightarrow> f' ! j = (f[k := v, t := k]) ! j"
    and ys: "distinct ys" "\<forall>y\<in>set ys. 2 \<le> y \<and> y < length f \<and> (f[k := v, t := k]) ! y = 0" and v: "v \<noteq> 0"
  shows "chain f' t (t # k # ys) \<and> distinct (k # ys) \<and> (\<forall>y\<in>set (k # ys). 2 \<le> y \<and> y < length f \<and> f ! y = 0)
    \<and> (\<forall>j<length f. j \<notin> set (t # k # ys) \<longrightarrow> f' ! j = f ! j)"
proof -
  have "t \<notin> set ys" using ys(2) t(2) k(1) by auto
  moreover have kn: "k \<notin> set ys" using ys(2) k v by auto
  ultimately have "f' ! t = k" using same t(2) k(4) by auto
  moreover have "\<forall>y\<in>set ys. y \<noteq> t \<and> f ! y = 0"
  proof
    fix y assume y: "y \<in> set ys"
    then have "y \<noteq> k" using kn by auto
    then show "y \<noteq> t \<and> f ! y = 0" using ys(2) y t(2) k(1) by (cases "y = t") auto
  qed
  ultimately show ?thesis using ch t k len ys same kn by (auto simp: nth_list_update)
qed

context block_device begin

lemma new_loop:
  assumes "fat32_state I inv dev pre f post" and "fat_alloc_ok dev f" and "length junk = 512"
    and "2 \<le> t" and "t < length f" and "f ! t = FAT32_EOC"
  shows "\<exists>e dev' f' ys. fat32_new_loop I junk n t dev = Some (e, dev') \<and> fat32_state I inv dev' pre f' post
    \<and> fat_alloc_ok dev' f' \<and> geom dev' = geom dev \<and> chain f' t (t # ys) \<and> distinct ys
    \<and> (\<forall>y\<in>set ys. 2 \<le> y \<and> y < length f \<and> f ! y = 0) \<and> (\<forall>j<length f. j \<notin> set (t # ys) \<longrightarrow> f' ! j = f ! j)
    \<and> (e = FOS_E_SUCCESS \<and> length ys = n \<or> e = FOS_E_NO_SPACE \<and> fd_free_q_fill dev < n)"
  using assms
proof (induction n arbitrary: dev t f)
  case 0
  then have "chain f t [t]" by simp
  then show ?case using 0 apply -
   apply (rule exI [of _ FOS_E_SUCCESS])
   apply (rule exI [of _ dev])
   apply (rule exI [of _ f])
   apply (rule exI [of _ "[] :: nat list"])
   apply simp
   done
next
  case (Suc n)
  from pop_free_slot [OF Suc.prems(1-3)] show ?case
  proof (elim exE disjE conjE)
    fix d
    assume d: "fat32_state I inv d pre f post" "fat_alloc_ok d f" "geom d = geom dev"
      "fat32_pop_free_fat_slot I junk dev True = Some (FOS_E_NO_SPACE, None, d)" "fd_free_q_fill dev = 0"
    have "fat32_new_loop I junk (Suc n) t dev = Some (FOS_E_NO_SPACE, d)" using d(4) by simp
    moreover have "chain f t [t]" using Suc.prems by simp
    ultimately show ?case using d(1-3,5)
      apply -
      apply (rule exI [of _ FOS_E_NO_SPACE])
      apply (rule exI [of _ d])
      apply (rule exI [of _ f])
      apply (rule exI [of _ "[] :: nat list"])
      apply simp
      done
  next
    fix d1 k
    assume k: "2 \<le> k" "k < length f" "f ! k = 0"
      and d1: "fat32_pop_free_fat_slot I junk dev True = Some (FOS_E_SUCCESS, Some k, d1)"
      "fat32_state I inv d1 pre (f[k := FAT32_EOC]) post" "fat_alloc_ok d1 (f[k := FAT32_EOC])" "geom d1 = geom dev" "fd_free_q_fill dev - 1 \<le> fd_free_q_fill d1"
    let ?f = "f[k := FAT32_EOC, t := k]"
    have tk: "t \<noteq> k" using k(3) Suc.prems(6) by auto
    have kb: "k < 2 ^ 28" using k(2) state_slots [OF Suc.prems(1)] by simp
    have t1: "t < length (f[k := FAT32_EOC])" using Suc.prems(5) by simp
    obtain d2 where d2: "fat32_set_fat_slot I d1 t k = Some (FOS_E_SUCCESS, d2)" "fat32_state I inv d2 pre ?f post" "only_bd d1 d2"
      using set_slot [OF d1(2) t1 kb] by (elim exE conjE) rule
    have "(f[k := FAT32_EOC]) ! t \<noteq> 0" using Suc.prems(6) tk by simp
    then have al: "fat_alloc_ok d2 ?f" using only_bd_alloc [OF d2(3)] fat_alloc_ok_set [OF d1(3)] by blast
    have k2: "k < length ?f" "?f ! k = FAT32_EOC" using k(2) tk by simp_all
    obtain e d3 f3 ys where d3: "fat32_new_loop I junk n k d2 = Some (e, d3)" "fat32_state I inv d3 pre f3 post"
      "fat_alloc_ok d3 f3" "geom d3 = geom d2" "chain f3 k (k # ys)" "distinct ys"
      "\<forall>y\<in>set ys. 2 \<le> y \<and> y < length ?f \<and> ?f ! y = 0" "\<forall>j<length ?f. j \<notin> set (k # ys) \<longrightarrow> f3 ! j = ?f ! j"
      "e = FOS_E_SUCCESS \<and> length ys = n \<or> e = FOS_E_NO_SPACE \<and> fd_free_q_fill d2 < n"
      using Suc.IH [OF d2(2) al Suc.prems(3) k(1) k2] by (elim exE conjE) (rule; assumption)
    have len: "length f3 = length f" using state_length [OF d3(2)] state_length [OF Suc.prems(1)] d3(4) only_bd_geom [OF d2(3)] d1(4)
      by (simp add: geom_def)
    note gr = chain_grow [OF d3(5) Suc.prems(4,5) k tk len d3(8) [simplified length_list_update] d3(6) d3(7) [simplified length_list_update] eoc_pos]
    have "fat32_new_loop I junk (Suc n) t dev = Some (e, d3)" using d1(1) d2(1) d3(1) by simp
    moreover have "geom d3 = geom dev" using d3(4) only_bd_geom [OF d2(3)] d1(4) by simp
    moreover have "e = FOS_E_SUCCESS \<and> length (k # ys) = Suc n \<or> e = FOS_E_NO_SPACE \<and> fd_free_q_fill dev < Suc n"
      using d3(9) d1(5) only_bdD [OF d2(3)] by auto
    ultimately show ?case using d3(2,3) gr by (intro exI conjI) (assumption | blast)+
  qed
qed

lemma zero_back:
  assumes "length f' = length f" and "\<forall>j<length f. j \<notin> set xs \<longrightarrow> f' ! j = f ! j" and "\<forall>x\<in>set xs. f ! x = 0"
  shows "zero xs f' = f"
  by (rule nth_equalityI) (use assms in \<open>auto simp: nth_zero\<close>)

text \<open>A new chain takes free slots; without enough of them the table is as before.\<close>

lemma new_chain:
  assumes st: "fat32_state I inv dev pre f post" and al: "fat_alloc_ok dev f" and junk: "length junk = 512" and len: "0 < len"
  shows "\<exists>dev' f'. fat32_state I inv dev' pre f' post \<and> fat_alloc_ok dev' f' \<and> geom dev' = geom dev
    \<and> (fat32_new_chain I junk dev len True = Some (FOS_E_NO_SPACE, None, dev') \<and> f' = f \<and> fd_free_q_fill dev < len
      \<or> (\<exists>k ys. fat32_new_chain I junk dev len True = Some (FOS_E_SUCCESS, Some k, dev')
          \<and> chain f' k (k # ys) \<and> length (k # ys) = len \<and> (\<forall>y\<in>set (k # ys). f ! y = 0)
          \<and> (\<forall>j<length f. j \<notin> set (k # ys) \<longrightarrow> f' ! j = f ! j)))"
  using pop_free_slot [OF st al junk]
proof (elim exE disjE conjE)
  fix d
  assume d: "fat32_state I inv d pre f post" "fat_alloc_ok d f" "geom d = geom dev"
    "fat32_pop_free_fat_slot I junk dev True = Some (FOS_E_NO_SPACE, None, d)" "fd_free_q_fill dev = 0"
  then have "fat32_new_chain I junk dev len True = Some (FOS_E_NO_SPACE, None, d)"
    using len by (simp add: fat32_new_chain_def)
  then show ?thesis using d len by auto
next
  fix d1 k
  assume k: "2 \<le> k" "k < length f" "f ! k = 0"
    and d1: "fat32_pop_free_fat_slot I junk dev True = Some (FOS_E_SUCCESS, Some k, d1)"
    "fat32_state I inv d1 pre (f[k := FAT32_EOC]) post" "fat_alloc_ok d1 (f[k := FAT32_EOC])" "geom d1 = geom dev" "fd_free_q_fill dev - 1 \<le> fd_free_q_fill d1"
  let ?f = "f[k := FAT32_EOC]"
  have k2: "k < length ?f" "?f ! k = FAT32_EOC" using k(2) by simp_all
  obtain e d2 f2 ys where d2: "fat32_new_loop I junk (len - 1) k d1 = Some (e, d2)" "fat32_state I inv d2 pre f2 post"
    "fat_alloc_ok d2 f2" "geom d2 = geom d1" "chain f2 k (k # ys)" "distinct ys"
    "\<forall>y\<in>set ys. 2 \<le> y \<and> y < length ?f \<and> ?f ! y = 0" "\<forall>j<length ?f. j \<notin> set (k # ys) \<longrightarrow> f2 ! j = ?f ! j"
    "e = FOS_E_SUCCESS \<and> length ys = len - 1 \<or> e = FOS_E_NO_SPACE \<and> fd_free_q_fill d1 < len - 1"
    using new_loop [OF d1(2,3) junk k(1) k2, of "len - 1"] by (elim exE conjE) (rule; assumption)
  have l2: "length f2 = length f" using state_length [OF d2(2)] state_length [OF st] d2(4) d1(4) by (simp add: geom_def)
  have fr: "\<forall>y\<in>set (k # ys). f ! y = 0"
  proof
    fix y assume y: "y \<in> set (k # ys)"
    then show "f ! y = 0" using k(2,3) d2(7) by (cases "y = k") auto
  qed
  have same: "\<forall>j<length f. j \<notin> set (k # ys) \<longrightarrow> f2 ! j = f ! j" using d2(8) by auto
  have g: "geom d2 = geom dev" using d2(4) d1(4) by simp
  from d2(9) show ?thesis
  proof
    assume e: "e = FOS_E_SUCCESS \<and> length ys = len - 1"
    then have "fat32_new_chain I junk dev len True = Some (FOS_E_SUCCESS, Some k, d2)"
      using len d1(1) d2(1) by (simp add: fat32_new_chain_def)
    moreover have "length (k # ys) = len" using e len by simp
    ultimately show ?thesis using d2(2,3,5) g fr same by blast
  next
    assume e: "e = FOS_E_NO_SPACE \<and> fd_free_q_fill d1 < len - 1"
    have k3: "k < length f2" using k(2) l2 by simp
    obtain e' d3 f3 where d3: "fat32_free_chain I d2 k = Some (e', d3)" "fat32_state I inv d3 pre f3 post" "only_bd d2 d3" "freed f2 k e' f3"
      using free_chain [OF d2(2) k(1) k3] by (elim exE conjE) rule
    have ex: "\<exists>xs. chain f2 k xs" using d2(5) by blast
    have e': "e' = FOS_E_SUCCESS" and f3: "f3 = zero (k # ys) f2" using d3(4) d2(5) unfolding freed_def if_P [OF ex] by blast+
    have "f3 = f" unfolding f3 by (rule zero_back [OF l2 same fr])
    moreover have "fat_alloc_ok d3 f3" using only_bd_alloc [OF d3(3)] fat_alloc_ok_zero [OF d2(3)] unfolding f3 by blast
    moreover have "fat32_new_chain I junk dev len True = Some (FOS_E_NO_SPACE, None, d3)"
      using len d1(1) d2(1) d3(1) e e' by (simp add: fat32_new_chain_def)
    moreover have "geom d3 = geom dev" using only_bd_geom [OF d3(3)] g by simp
    moreover have "fd_free_q_fill dev < len" using e d1(5) by linarith
    ultimately show ?thesis using d3(2) by blast
  qed
qed

end

section \<open>Resizing a chain\<close>

lemma chain_join:
  assumes "chain f i xs" and "xs \<noteq> []" and "length f' = length f" and "length f \<le> FAT32_BAD_CLUSTER"
    and "\<forall>x\<in>set xs. x \<noteq> last xs \<longrightarrow> f' ! x = f ! x" and "f' ! last xs = k" and "chain f' k ys"
  shows "chain f' i (xs @ ys)"
  using assms
proof (induction xs arbitrary: i)
  case (Cons x xs)
  show ?case
  proof (cases "xs = []")
    case True
    then show ?thesis using Cons.prems by simp
  next
    case False
    have d: "x \<notin> set xs" using chain_distinct [OF Cons.prems(1,4)] by simp
    then have "x \<noteq> last xs" using last_in_set [OF False] by auto
    then have "f' ! x = f ! x" using Cons.prems(5) False by simp
    moreover have "chain f' (f ! x) (xs @ ys)"
      using Cons.IH [of "f ! x"] Cons.prems False by simp
    ultimately show ?thesis using Cons.prems by simp
  qed
qed simp

lemma chain_cut:
  assumes ch: "chain f i xs" and n: "n < length xs" and f: "length f \<le> FAT32_BAD_CLUSTER"
  shows "chain (zero (drop (Suc n) xs) (f[xs ! n := FAT32_EOC])) i (take (Suc n) xs)"
proof -
  let ?f = "zero (drop (Suc n) xs) (f[xs ! n := FAT32_EOC])"
  have d: "distinct xs" by (rule chain_distinct [OF ch f])
  have in_f: "x < length f" if "x \<in> set xs" for x using chain_slots [OF ch that] by simp
  have tk: "take (Suc n) xs = take n xs @ [xs ! n]" by (rule take_Suc_conv_app_nth [OF n])
  have disj: "set (take (Suc n) xs) \<inter> set (drop (Suc n) xs) = {}"
    using d by (metis append_take_drop_id distinct_append)
  have last: "last (take (Suc n) xs) = xs ! n" by (simp add: tk)
  have same: "?f ! x = (f[xs ! n := FAT32_EOC]) ! x" if "x \<in> set (take (Suc n) xs)" for x
    using that disj in_f [OF in_set_takeD [OF that]] by (auto simp: nth_zero)
  have nin: "xs ! n \<in> set (take (Suc n) xs)" by (simp add: tk)
  have nb: "xs ! n < length f" using in_f n by simp
  have part: "chain f i ys \<Longrightarrow> m < length ys \<Longrightarrow> chain (f[ys ! m := FAT32_EOC]) i (take (Suc m) ys)" for ys m
  proof (induction ys arbitrary: i m)
    case (Cons y ys)
    have dy: "y \<notin> set ys" using chain_distinct [OF Cons.prems(1) f] by simp
    show ?case
    proof (cases m)
      case 0
      then show ?thesis using Cons.prems by simp
    next
      case (Suc k)
      have k: "k < length ys" using Cons.prems(2) Suc by simp
      then have "ys ! k \<noteq> y" using dy nth_mem by blast
      then show ?thesis using Cons.IH [of "f ! y" k] Cons.prems k Suc by (simp add: nth_list_update_neq)
    qed
  qed simp
  show ?thesis by (rule chain_cong [OF part [OF ch n]]) (simp_all add: same)
qed

text \<open>What cutting a chain after its first slots leaves.\<close>

definition cut :: "nat list \<Rightarrow> nat \<Rightarrow> nat list \<Rightarrow> nat list" where
  "cut f n xs = (if length xs = Suc n then f else zero (drop (Suc n) xs) (f[xs ! n := FAT32_EOC]))"

lemma cut_Cons: "cut f (Suc n) (x # xs) = cut f n xs"
  by (simp add: cut_def)

context block_device begin

lemma resize_loop:
  assumes "fat32_state I inv dev pre f post" and "chain f i xs" and "xs \<noteq> []" and "1 \<le> links" and "links \<le> new_len"
    and "new_len < 2 ^ 32"
  shows "\<exists>dev' f'. fat32_resize_loop I dev new_len i links =
        Some (if new_len - links < length xs then Inl FOS_E_SUCCESS else Inr (last xs, links + length xs - 1), dev')
    \<and> fat32_state I inv dev' pre f' post \<and> only_bd dev dev'
    \<and> f' = (if new_len - links < length xs then cut f (new_len - links) xs else f)"
  using assms
proof (induction xs arbitrary: dev i links)
  case (Cons x xs)
  have x: "x = i" and i: "2 \<le> i" "i < length f" and chi: "chain f i (i # xs)" using Cons.prems(2) by simp_all
  note f = state_slots [OF Cons.prems(1)]
  note nx = chain_next [OF Cons.prems(1) chi]
  obtain d1 where d1: "fat32_get_fat_slot I dev i True = Some (FOS_E_SUCCESS, Some (f ! i), d1)"
    "fat32_state I inv d1 pre f post" "only_bd dev d1"
    using get_slot [OF Cons.prems(1) i(2)] by (elim exE conjE) rule
  show ?case
  proof (cases "links = new_len")
    case eq: True
    show ?thesis
    proof (cases "xs = []")
      case True
      then have "fat32_resize_loop I dev new_len i links = Some (Inl FOS_E_SUCCESS, d1)"
        using d1(1) nx(1,2) eq by (subst fat32_resize_loop.simps) simp
      then show ?thesis using d1(2,3) eq True by (intro exI [of _ d1] exI [of _ f]) (simp add: cut_def)
    next
      case False
      note nx' = nx(3) [OF False]
      obtain d2 where d2: "fat32_set_fat_slot I d1 i FAT32_EOC = Some (FOS_E_SUCCESS, d2)"
        "fat32_state I inv d2 pre (f[i := FAT32_EOC]) post" "only_bd d1 d2"
        using set_slot [OF d1(2) i(2) eoc_small] by (elim exE conjE) rule
      have dist: "i \<notin> set xs" using chain_distinct [OF chi f] by simp
      have ch2: "chain (f[i := FAT32_EOC]) (f ! i) xs" using nx' dist by (simp add: chain_update)
      have "f ! i \<in> set xs" using nx' by (metis list.set_intros(1))
      then have j: "2 \<le> f ! i" "f ! i < length (f[i := FAT32_EOC])"
        using chain_slots [of f "f ! i" xs "f ! i"] nx' by auto
      obtain e d3 f3 where d3: "fat32_free_chain I d2 (f ! i) = Some (e, d3)" "fat32_state I inv d3 pre f3 post" "only_bd d2 d3"
        "freed (f[i := FAT32_EOC]) (f ! i) e f3"
        using free_chain [OF d2(2) j] by (elim exE conjE) rule
      have ex: "\<exists>ys. chain (f[i := FAT32_EOC]) (f ! i) ys" using ch2 by blast
      have e: "e = FOS_E_SUCCESS" and f3: "f3 = zero xs (f[i := FAT32_EOC])"
        using d3(4) ch2 unfolding freed_def if_P [OF ex] by blast+
      have "fat32_resize_loop I dev new_len i links = Some (Inl FOS_E_SUCCESS, d3)"
        using d1(1) nx(1,2) eq False d2(1) d3(1) e by (subst fat32_resize_loop.simps) simp
      moreover have "only_bd dev d3" using d1(3) d2(3) d3(3) by (blast intro: only_bd_trans)
      ultimately show ?thesis using d3(2) f3 eq False x
        by (intro exI [of _ d3] exI [of _ f3]) (simp add: cut_def)
    qed
  next
    case ne: False
    show ?thesis
    proof (cases "xs = []")
      case True
      then have "fat32_resize_loop I dev new_len i links = Some (Inr (i, links), d1)"
        using d1(1) nx(1,2) ne by (subst fat32_resize_loop.simps) simp
      moreover have "\<not> new_len - links < 1" using ne Cons.prems(5) by simp
      ultimately show ?thesis using d1(2,3) True x by (intro exI [of _ d1] exI [of _ f]) simp
    next
      case False
      note nx' = nx(3) [OF False]
      have chx: "chain f (f ! i) xs" using nx' by blast
      have l: "(links + 1) mod 2 ^ 32 = links + 1" "1 \<le> links + 1" "links + 1 \<le> new_len" using ne Cons.prems(5,6) by simp_all
      obtain d2 f2 where d2: "fat32_resize_loop I d1 new_len (f ! i) (links + 1) =
          Some (if new_len - (links + 1) < length xs then Inl FOS_E_SUCCESS else Inr (last xs, links + 1 + length xs - 1), d2)"
        "fat32_state I inv d2 pre f2 post" "only_bd d1 d2"
        "f2 = (if new_len - (links + 1) < length xs then cut f (new_len - (links + 1)) xs else f)"
        using Cons.IH [OF d1(2) chx False l(2,3) Cons.prems(6)] by (elim exE conjE) (rule; assumption)
      have step: "fat32_resize_loop I dev new_len i links = fat32_resize_loop I d1 new_len (f ! i) (links + 1)"
        using d1(1) nx(1,2) ne False nx' only_bdD(12) [OF d1(3)] l(1) by (subst fat32_resize_loop.simps) simp
      have n: "new_len - links = Suc (new_len - (links + 1))" using l(3) by simp
      show ?thesis using d2 only_bd_trans [OF d1(3) d2(3)] False unfolding step n
        by (intro exI [of _ d2] exI [of _ f2]) (simp add: cut_Cons)
    qed
  qed
qed simp

end

text \<open>
  Resizing a chain to no slots frees it, to fewer slots cuts it, to more appends slots that were free;
  without enough of those the table is as before.
\<close>

definition resized :: "nat \<Rightarrow> nat list \<Rightarrow> nat \<Rightarrow> nat list \<Rightarrow> nat \<Rightarrow> fernos_error \<Rightarrow> nat list \<Rightarrow> bool" where
  "resized q f i xs n e f' \<longleftrightarrow>
     (if n \<le> length xs then e = FOS_E_SUCCESS \<and> (n \<noteq> 0 \<longrightarrow> chain f' i (take n xs))
        \<and> (\<forall>x\<in>set (drop n xs). f' ! x = 0) \<and> (\<forall>j<length f. j \<notin> set xs \<longrightarrow> f' ! j = f ! j)
      else e = FOS_E_NO_SPACE \<and> f' = f \<and> q < n - length xs
        \<or> e = FOS_E_SUCCESS \<and> (\<exists>ys. chain f' i (xs @ ys) \<and> length (xs @ ys) = n
            \<and> (\<forall>y\<in>set ys. f ! y = 0) \<and> (\<forall>j<length f. j \<notin> set (xs @ ys) \<longrightarrow> f' ! j = f ! j)))"

lemma resized_cut:
  assumes ch: "chain f i xs" and n: "n < length xs" and f: "length f \<le> FAT32_BAD_CLUSTER"
  shows "resized q f i xs (Suc n) FOS_E_SUCCESS (cut f n xs)"
proof (cases "length xs = Suc n")
  case True
  then show ?thesis using ch by (simp add: resized_def cut_def)
next
  case False
  have nin: "xs ! n \<in> set xs" using n by simp
  have sub: "x \<in> set xs \<and> x < length f" if "x \<in> set (drop (Suc n) xs)" for x
    using in_set_dropD [OF that] chain_slots [OF ch] by blast
  have "\<forall>x\<in>set (drop (Suc n) xs). cut f n xs ! x = 0" using sub False by (simp add: cut_def nth_zero)
  moreover have "\<forall>j<length f. j \<notin> set xs \<longrightarrow> cut f n xs ! j = f ! j"
  proof (intro allI impI)
    fix j assume j: "j < length f" "j \<notin> set xs"
    then have "j \<noteq> xs ! n" and "j \<notin> set (drop (Suc n) xs)" using nin sub by blast+
    then show "cut f n xs ! j = f ! j" using j(1) by (simp add: cut_def nth_zero nth_list_update_neq)
  qed
  moreover have "chain (cut f n xs) i (take (Suc n) xs)" using chain_cut [OF ch n f] False by (simp add: cut_def)
  ultimately show ?thesis using n by (simp add: resized_def Suc_leI)
qed

lemma alloc_ok_cut:
  assumes al: "fat_alloc_ok dev f" and ch: "chain f i xs" and n: "n < length xs"
  shows "fat_alloc_ok dev (cut f n xs)"
  using al fat_alloc_ok_zero [OF fat_alloc_ok_set [OF al chain_not_zero [OF ch nth_mem [OF n]]]] by (simp add: cut_def)

context block_device begin

lemma resize_chain:
  assumes st: "fat32_state I inv dev pre f post" and al: "fat_alloc_ok dev f" and junk: "length junk = 512"
    and ch: "chain f i xs" and i: "i < length f" and n: "n < 2 ^ 32"
  shows "\<exists>e dev' f'. fat32_resize_chain I junk dev i n = Some (e, dev') \<and> fat32_state I inv dev' pre f' post
    \<and> fat_alloc_ok dev' f' \<and> geom dev' = geom dev \<and> resized (fd_free_q_fill dev) f i xs n e f'"
proof -
  note f = state_slots [OF st]
  obtain zs where zs: "xs = i # zs" using chain_Cons [OF ch f i] by blast
  have i2: "2 \<le> i" using ch zs by simp
  have mask: "i AND FAT32_MASK = i" and ok: "\<not> slot_bad dev i"
    using i i2 f state_slot_bad [OF st, of i] by (simp_all add: fat_mask)
  show ?thesis
  proof (cases "n = 0")
    case True
    obtain e d f' where d: "fat32_free_chain I dev i = Some (e, d)" "fat32_state I inv d pre f' post" "only_bd dev d" "freed f i e f'"
      using free_chain [OF st i2 i] by (elim exE conjE) rule
    have ex: "\<exists>xs. chain f i xs" using ch by blast
    have e: "e = FOS_E_SUCCESS" and f': "f' = zero xs f" using d(4) ch unfolding freed_def if_P [OF ex] by blast+
    have "resized (fd_free_q_fill dev) f i xs n e f'"
      using e chain_slots [OF ch] by (simp add: resized_def True f' nth_zero)
    moreover have "fat_alloc_ok d f'" using only_bd_alloc [OF d(3)] fat_alloc_ok_zero [OF al] f' by blast
    moreover have "fat32_resize_chain I junk dev i n = Some (e, d)"
      using mask ok True d(1) by (simp add: fat32_resize_chain_def Let_def)
    ultimately show ?thesis using d(2) only_bd_geom [OF d(3)] by (intro exI conjI)
  next
    case n0: False
    have ne: "xs \<noteq> []" "1 \<le> n" "(1 :: nat) \<le> 1" using zs n0 by simp_all
    obtain d f' where d: "fat32_resize_loop I dev n i 1 =
        Some (if n - 1 < length xs then Inl FOS_E_SUCCESS else Inr (last xs, 1 + length xs - 1), d)"
      "fat32_state I inv d pre f' post" "only_bd dev d" "f' = (if n - 1 < length xs then cut f (n - 1) xs else f)"
      using resize_loop [OF st ch ne(1,3,2) n] by (elim exE conjE) rule
    have alf: "fat_alloc_ok d f" using only_bd_alloc [OF d(3)] al by blast
    show ?thesis
    proof (cases "n - 1 < length xs")
      case True
      then have f': "f' = cut f (n - 1) xs" using d(4) by simp
      have "resized (fd_free_q_fill dev) f i xs n FOS_E_SUCCESS f'" using resized_cut [OF ch True f] n0 unfolding f' by simp
      moreover have "fat_alloc_ok d f'" unfolding f' by (rule alloc_ok_cut [OF alf ch True])
      moreover have "fat32_resize_chain I junk dev i n = Some (FOS_E_SUCCESS, d)"
        using mask ok n0 d(1) True by (simp add: fat32_resize_chain_def Let_def)
      ultimately show ?thesis using d(2) only_bd_geom [OF d(3)] by (intro exI conjI)
    next
      case False
      then have f': "f' = f" and loop: "fat32_resize_loop I dev n i 1 = Some (Inr (last xs, length xs), d)" and more: "0 < n - length xs"
        using d(1,4) n0 by simp_all
      have nle: "\<not> n \<le> length xs" using more by simp
      have sd: "fat32_state I inv d pre f post" using d(2) f' by simp
      from new_chain [OF sd alf junk more]
      obtain d2 f2 where d2: "fat32_state I inv d2 pre f2 post" "fat_alloc_ok d2 f2" "geom d2 = geom d" and
        res: "fat32_new_chain I junk d (n - length xs) True = Some (FOS_E_NO_SPACE, None, d2) \<and> f2 = f \<and> fd_free_q_fill d < n - length xs
          \<or> (\<exists>k ys. fat32_new_chain I junk d (n - length xs) True = Some (FOS_E_SUCCESS, Some k, d2)
            \<and> chain f2 k (k # ys) \<and> length (k # ys) = n - length xs \<and> (\<forall>y\<in>set (k # ys). f ! y = 0)
            \<and> (\<forall>j<length f. j \<notin> set (k # ys) \<longrightarrow> f2 ! j = f ! j))"
        by (elim exE conjE) rule
      have g2: "geom d2 = geom dev" using d2(3) only_bd_geom [OF d(3)] by simp
      have len2: "length f2 = length f" using state_length [OF d2(1)] state_length [OF st] g2 by (simp add: geom_def)
      from res show ?thesis
      proof (elim disjE exE conjE)
        assume r: "fat32_new_chain I junk d (n - length xs) True = Some (FOS_E_NO_SPACE, None, d2)" "f2 = f"
          "fd_free_q_fill d < n - length xs"
        have "fat32_resize_chain I junk dev i n = Some (FOS_E_NO_SPACE, d2)"
          using mask ok n0 loop r(1) by (simp add: fat32_resize_chain_def Let_def)
        moreover have "resized (fd_free_q_fill dev) f i xs n FOS_E_NO_SPACE f2"
          using nle r(2,3) only_bdD [OF d(3)] by (simp add: resized_def)
        ultimately show ?thesis using d2(1,2) g2 by (intro exI conjI)
      next
        fix k ys
        assume r: "fat32_new_chain I junk d (n - length xs) True = Some (FOS_E_SUCCESS, Some k, d2)"
          and ys: "chain f2 k (k # ys)" "length (k # ys) = n - length xs" "\<forall>y\<in>set (k # ys). f ! y = 0"
          "\<forall>j<length f. j \<notin> set (k # ys) \<longrightarrow> f2 ! j = f ! j"
        let ?l = "last xs" and ?f = "f2[last xs := k]"
        have disj: "x \<notin> set (k # ys)" if "x \<in> set xs" for x using chain_not_zero [OF ch that] ys(3) by auto
        have lin: "?l \<in> set xs" using ne(1) by simp
        have lb: "?l < length f2" using chain_slots [OF ch lin] len2 by simp
        have kb: "k < 2 ^ 28" using ys(1) len2 f by simp
        obtain d3 where d3: "fat32_set_fat_slot I d2 ?l k = Some (FOS_E_SUCCESS, d3)" "fat32_state I inv d3 pre ?f post" "only_bd d2 d3"
          using set_slot [OF d2(1) lb kb] by (elim exE conjE) rule
        have "fat32_resize_chain I junk dev i n = Some (FOS_E_SUCCESS, d3)"
          using mask ok n0 loop r d3(1) by (simp add: fat32_resize_chain_def Let_def)
        moreover have "resized (fd_free_q_fill dev) f i xs n FOS_E_SUCCESS ?f"
        proof -
          have "\<forall>x\<in>set xs. x \<noteq> ?l \<longrightarrow> ?f ! x = f ! x" using ys(4) disj chain_slots [OF ch] by (simp add: nth_list_update_neq)
          moreover have "chain ?f k (k # ys)" using ys(1) disj [OF lin] by (simp add: chain_update del: chain.simps)
          ultimately have "chain ?f i (xs @ k # ys)"
            using chain_join [OF ch ne(1) _ f, of ?f k] len2 lb by simp
          moreover have "length (xs @ k # ys) = n" using ys(2) False by simp
          moreover have "\<forall>j<length f. j \<notin> set (xs @ k # ys) \<longrightarrow> ?f ! j = f ! j"
          proof (intro allI impI)
            fix j assume j: "j < length f" "j \<notin> set (xs @ k # ys)"
            then have "j \<noteq> ?l" and "j \<notin> set (k # ys)" using lin by auto
            then show "?f ! j = f ! j" using ys(4) j(1) by (simp add: nth_list_update_neq)
          qed
          ultimately show ?thesis using nle ys(3) unfolding resized_def if_not_P [OF nle] by blast
        qed
        moreover have "fat_alloc_ok d3 ?f"
        proof -
          have "f2 ! ?l \<noteq> 0" using ys(4) disj [OF lin] lb len2 chain_not_zero [OF ch lin] by simp
          then show ?thesis using only_bd_alloc [OF d3(3)] fat_alloc_ok_set [OF d2(2)] by blast
        qed
        moreover have "geom d3 = geom dev" using only_bd_geom [OF d3(3)] g2 by simp
        ultimately show ?thesis using d3(2) by (intro exI conjI)
      qed
    qed
  qed
qed

end

end
