(* ===== verification/Fat32_Transfers.thy ===== *)
theory Fat32_Transfers imports Fat32_Chains begin

text \<open>
  Transfers of sectors along a chain (\<^verbatim>\<open>fat32_read_write\<close>): what is read and written is a range of the
  sectors of the clusters of the chain, put one after the other.
\<close>

section \<open>The sectors of a chain\<close>

definition data_at :: "'b fat32_device \<Rightarrow> nat \<Rightarrow> nat" where
  "data_at dev c = (fd_num_fats dev - 1) * fd_sectors_per_fat dev + (c - 2) * fd_sectors_per_cluster dev"

definition cluster :: "'b fat32_device \<Rightarrow> bytes list \<Rightarrow> nat \<Rightarrow> bytes list" where
  "cluster dev post c = take (fd_sectors_per_cluster dev) (drop (data_at dev c) post)"

definition file_sectors :: "'b fat32_device \<Rightarrow> bytes list \<Rightarrow> nat list \<Rightarrow> bytes list" where
  "file_sectors dev post xs = concat (map (cluster dev post) xs)"

lemma file_sectors_simps [simp]:
  "file_sectors dev post [] = []" "file_sectors dev post (c # xs) = cluster dev post c @ file_sectors dev post xs"
  by (simp_all add: file_sectors_def)

definition same_layout :: "'b fat32_device \<Rightarrow> 'b fat32_device \<Rightarrow> bool" where
  "same_layout dev dev' \<longleftrightarrow> fd_bd_offset dev' = fd_bd_offset dev \<and> fd_data_section_offset dev' = fd_data_section_offset dev
     \<and> fd_num_fats dev' = fd_num_fats dev \<and> fd_sectors_per_fat dev' = fd_sectors_per_fat dev
     \<and> fd_sectors_per_cluster dev' = fd_sectors_per_cluster dev"

lemma only_bd_layout:
  assumes "only_bd dev dev'"
  shows "cluster dev' = cluster dev" and "file_sectors dev' = file_sectors dev" and "fat32_cluster_sector dev' = fat32_cluster_sector dev"
    and "data_at dev' = data_at dev"
  using only_bdD [OF assms] by (auto simp: cluster_def [abs_def] file_sectors_def [abs_def] fat32_cluster_sector_def [abs_def] data_at_def [abs_def])

lemma state_spc: "fat32_state I wi dev pre f post \<Longrightarrow> 0 < fd_sectors_per_cluster dev \<and> fd_sectors_per_cluster dev < 256"
  by (erule fat32_stateE) (simp add: fat32_geometry_def)

lemma data_end:
  assumes st: "fat32_state I wi dev pre f post" and c: "2 \<le> c" "c < length f"
  shows "data_at dev c + fd_sectors_per_cluster dev \<le> length post"
proof -
  have g: "(fd_num_fats dev - 1) * fd_sectors_per_fat dev + (length f - 2) * fd_sectors_per_cluster dev \<le> length post"
    using st state_length [OF st] by (elim fat32_stateE) (simp add: fat32_geometry_def)
  have "(c - 2 + 1) * fd_sectors_per_cluster dev \<le> (length f - 2) * fd_sectors_per_cluster dev"
    using c by (intro mult_le_mono1) simp
  then show ?thesis using g by (simp add: data_at_def)
qed

lemma length_cluster:
  "fat32_state I wi dev pre f post \<Longrightarrow> 2 \<le> c \<Longrightarrow> c < length f \<Longrightarrow> length (cluster dev post c) = fd_sectors_per_cluster dev"
  using data_end by (fastforce simp: cluster_def)

lemma length_file_sectors:
  assumes "fat32_state I wi dev pre f post" and "chain f i xs"
  shows "length (file_sectors dev post xs) = length xs * fd_sectors_per_cluster dev"
  using assms(2)
proof (induction xs arbitrary: i)
  case (Cons x xs)
  then show ?case using length_cluster [OF assms(1), of x] by auto
qed simp

lemma take_drop_cluster:
  "s + n \<le> fd_sectors_per_cluster dev \<Longrightarrow>
    take n (drop s (cluster dev post c)) = take n (drop (data_at dev c + s) post)"
  by (simp add: cluster_def drop_take min_def add.commute)

lemma cells_add: "cells cs (a + b) buf = cells cs a buf @ cells cs b (drop (cs * a) buf)"
proof -
  have "[0..<a + b] = [0..<a] @ map (\<lambda>i. i + a) [0..<b]"
    unfolding map_add_upt using upt_add_eq_append [of 0 a b] by (simp add: add.commute)
  then show ?thesis by (simp add: cells_def add_mult_distrib2)
qed

section \<open>One round of the loop\<close>

definition round_shift :: "'b fat32_device \<Rightarrow> nat \<Rightarrow> nat \<Rightarrow> nat" where
  "round_shift dev off p = (if p = 0 then off mod fd_sectors_per_cluster dev else 0)"

definition round_count :: "'b fat32_device \<Rightarrow> nat \<Rightarrow> nat \<Rightarrow> nat \<Rightarrow> nat" where
  "round_count dev off num p = min (fd_sectors_per_cluster dev - round_shift dev off p) ((num - p) mod 2 ^ 8)"

lemma min_less: "min a b = (if a < b then a else (b :: nat))"
  by simp

lemma rw_loop_unfold:
  "fat32_rw_loop I off num write dev c p buf = do {
     (err, next_cluster, dev) \<leftarrow> fat32_get_fat_slot I dev c True;
     if err \<noteq> FOS_E_SUCCESS then Some (FOS_E_UNKNWON_ERROR, buf, dev)
     else do {
       next_cluster \<leftarrow> next_cluster;
       if next_cluster = FAT32_BAD_CLUSTER then Some (FOS_E_STATE_MISMATCH, buf, dev)
       else do {
         part \<leftarrow> buf_from buf (p * 512 mod 2 ^ 32);
         (err, part, b) \<leftarrow> (if write then do {
             (err, b) \<leftarrow> bdi_write I (fd_bd dev) (fat32_cluster_sector dev c (round_shift dev off p)) (round_count dev off num p) (Some part);
             Some (err, Some part, b) }
           else bdi_read I (fd_bd dev) (fat32_cluster_sector dev c (round_shift dev off p)) (round_count dev off num p) (Some part));
         part \<leftarrow> part;
         let buf = take (p * 512 mod 2 ^ 32) buf @ part;
         let dev2 = dev\<lparr>fd_bd := b\<rparr>;
         if err \<noteq> FOS_E_SUCCESS then Some (err, buf, dev2)
         else
           let p = (p + round_count dev off num p) mod 2 ^ 32 in
           if p = num then Some (FOS_E_SUCCESS, buf, dev2)
           else if FAT32_IS_EOC next_cluster then Some (FOS_E_INVALID_RANGE, buf, dev2)
           else if slot_bad dev2 next_cluster then Some (FOS_E_STATE_MISMATCH, buf, dev2)
           else fat32_rw_loop I off num write dev2 next_cluster p buf } } }"
  by (subst fat32_rw_loop.simps) (simp only: Let_def round_count_def round_shift_def min_less)

lemma round_bounds:
  assumes "0 < fd_sectors_per_cluster dev"
  shows "round_shift dev off p < fd_sectors_per_cluster dev"
    and "round_shift dev off p + round_count dev off num p \<le> fd_sectors_per_cluster dev"
    and "round_count dev off num p \<le> num - p"
proof -
  show *: "round_shift dev off p < fd_sectors_per_cluster dev" using assms by (simp add: round_shift_def)
  show "round_shift dev off p + round_count dev off num p \<le> fd_sectors_per_cluster dev"
    using * by (simp add: round_count_def)
  show "round_count dev off num p \<le> num - p" by (simp add: round_count_def min.coboundedI2)
qed

context block_device begin

lemma cluster_place:
  assumes st: "fat32_state I inv dev pre f post" and c: "2 \<le> c" "c < length f" and s: "s < fd_sectors_per_cluster dev"
  shows "fat32_cluster_sector dev c s = length pre + (fd_sectors_per_fat dev + (data_at dev c + s))"
proof -
  obtain fs where g: "fat32_geometry dev (length pre) (length post)" "inv (fd_bd dev) (pre @ fs @ post)" "length fs = fd_sectors_per_fat dev"
    using fat32_stateE [OF st] by blast
  have "length pre = fd_bd_offset dev + fd_fat_offset dev" "1 \<le> fd_num_fats dev"
    "fd_data_section_offset dev = fd_fat_offset dev + fd_num_fats dev * fd_sectors_per_fat dev"
    using g(1) by (simp_all add: fat32_geometry_def)
  moreover from this(2) obtain m where "fd_num_fats dev = Suc m" by (cases "fd_num_fats dev") simp_all
  ultimately have eq: "fd_bd_offset dev + fd_data_section_offset dev + (c - 2) * fd_sectors_per_cluster dev + s
      = length pre + (fd_sectors_per_fat dev + (data_at dev c + s))"
    by (simp add: data_at_def)
  have "length (pre @ fs @ post) < 2 ^ 32" using geometry [OF g(2)] by blast
  then have "length pre + (fd_sectors_per_fat dev + (data_at dev c + s)) < 2 ^ 32"
    using data_end [OF st c] s g(3) by simp
  then show ?thesis by (simp only: fat32_cluster_sector_def eq mod_less)
qed

text \<open>Reading the sectors of one cluster.\<close>

lemma read_cluster:
  assumes st: "fat32_state I inv dev pre f post" and c: "2 \<le> c" "c < length f"
    and s: "s < fd_sectors_per_cluster dev" "s + n \<le> fd_sectors_per_cluster dev" and d: "n * 512 \<le> length d" "length d < 2 ^ 32"
  shows "\<exists>b'. bdi_read I (fd_bd dev) (fat32_cluster_sector dev c s) n (Some d) =
      Some (FOS_E_SUCCESS, Some (concat (take n (drop s (cluster dev post c))) @ drop (n * 512) d), b')
    \<and> fat32_state I inv (dev\<lparr>fd_bd := b'\<rparr>) pre f post"
proof -
  obtain fs where g: "fat32_geometry dev (length pre) (length post)" "bdi_sector_size I (fd_bd dev) = 512"
    "inv (fd_bd dev) (pre @ fs @ post)" "length fs = fd_sectors_per_fat dev" "f = fat_view (fd_num_fat_slots dev) fs"
    using fat32_stateE [OF st] by blast
  let ?i = "length pre + (fd_sectors_per_fat dev + (data_at dev c + s))"
  have i: "?i < length (pre @ fs @ post)" "?i + n \<le> length (pre @ fs @ post)"
    using data_end [OF st c] s g(4) by simp_all
  have dr: "drop ?i (pre @ fs @ post) = drop (data_at dev c + s) post" using g(4) by simp
  obtain b' where b': "bdi_read I (fd_bd dev) ?i n (Some d) =
      Some (FOS_E_SUCCESS, Some (concat (take n (drop (data_at dev c + s) post)) @ drop (n * 512) d), b')"
    "inv b' (pre @ fs @ post)" "bdi_sector_size I b' = 512"
    using read_ok [OF g(3) i, of d] g(2) d unfolding dr by auto
  have "fat32_state I inv (dev\<lparr>fd_bd := b'\<rparr>) pre f post"
    by (rule fat32_stateI [where wi = inv and fs = fs]) (simp_all add: g b'(3) b'(2))
  then show ?thesis using b'(1) unfolding cluster_place [OF st c s(1)] take_drop_cluster [OF s(2)] by (intro exI conjI)
qed

lemma write_cluster:
  assumes st: "fat32_state I inv dev pre f post" and c: "2 \<le> c" "c < length f"
    and s: "s < fd_sectors_per_cluster dev" "s + n \<le> fd_sectors_per_cluster dev" and d: "n * 512 \<le> length d" "length d < 2 ^ 32"
  shows "\<exists>b'. bdi_write I (fd_bd dev) (fat32_cluster_sector dev c s) n (Some d) = Some (FOS_E_SUCCESS, b')
    \<and> fat32_state I inv (dev\<lparr>fd_bd := b'\<rparr>) pre f
        (take (data_at dev c + s) post @ cells 512 n d @ drop (data_at dev c + s + n) post)"
proof -
  obtain fs where g: "fat32_geometry dev (length pre) (length post)" "bdi_sector_size I (fd_bd dev) = 512"
    "inv (fd_bd dev) (pre @ fs @ post)" "length fs = fd_sectors_per_fat dev" "f = fat_view (fd_num_fat_slots dev) fs"
    using fat32_stateE [OF st] by blast
  let ?i = "length pre + (fd_sectors_per_fat dev + (data_at dev c + s))"
  let ?post = "take (data_at dev c + s) post @ cells 512 n d @ drop (data_at dev c + s + n) post"
  have i: "?i < length (pre @ fs @ post)" "?i + n \<le> length (pre @ fs @ post)"
    using data_end [OF st c] s g(4) by simp_all
  have eq: "take ?i (pre @ fs @ post) @ cells 512 n d @ drop (?i + n) (pre @ fs @ post) = pre @ fs @ ?post"
    using g(4) by (simp add: add.assoc)
  obtain b' where b': "bdi_write I (fd_bd dev) ?i n (Some d) = Some (FOS_E_SUCCESS, b')"
    "inv b' (pre @ fs @ ?post)" "bdi_sector_size I b' = 512"
    using write_ok [OF g(3) i, of d] g(2) d eq by auto
  have "length ?post = length post" using data_end [OF st c] s(2) by simp
  then have "fat32_state I inv (dev\<lparr>fd_bd := b'\<rparr>) pre f ?post"
    by (intro fat32_stateI [where wi = inv and fs = fs]) (simp_all only: g b'(3) b'(2))
  then show ?thesis using b'(1) unfolding cluster_place [OF st c s(1)] by (intro exI conjI)
qed

end

context block_device begin

text \<open>
  One round reads the slot of the cluster and transfers the sectors of the round; \<open>d'\<close> is the buffer
  after it and \<open>post'\<close> what lies behind the table.
\<close>

lemma rw_round_read:
  assumes st: "fat32_state I inv dev pre f post" and ch: "chain f c (c # cs)" and p: "p \<le> num"
    and d: "num * 512 \<le> length d" "length d < 2 ^ 32"
  shows "\<exists>dev'. fat32_state I inv dev' pre f post \<and> only_bd dev dev' \<and>
    fat32_rw_loop I off num False dev c p d =
      (let n = round_count dev off num p;
           d' = take (p * 512) d @ concat (take n (drop (round_shift dev off p) (cluster dev post c))) @ drop ((p + n) * 512) d
       in if p + n = num then Some (FOS_E_SUCCESS, d', dev')
          else if cs = [] then Some (FOS_E_INVALID_RANGE, d', dev')
          else fat32_rw_loop I off num False dev' (f ! c) (p + n) d')"
proof -
  have c: "2 \<le> c" "c < length f" using ch by simp_all
  note nx = chain_next [OF st ch]
  obtain d1 where d1: "fat32_get_fat_slot I dev c True = Some (FOS_E_SUCCESS, Some (f ! c), d1)"
    "fat32_state I inv d1 pre f post" "only_bd dev d1"
    using get_slot [OF st c(2)] by (elim exE conjE) rule
  let ?s = "round_shift dev off p" and ?n = "round_count dev off num p"
  note rb = round_bounds [where dev = dev and off = off and p = p, OF conjunct1 [OF state_spc [OF st]]]
  have pn: "p + ?n \<le> num" using rb(3) [where num = num] p by simp
  have "(p + ?n) * 512 \<le> num * 512" using pn by (rule mult_le_mono1)
  then have part: "p * 512 \<le> length d" "?n * 512 \<le> length (drop (p * 512) d)" "length (drop (p * 512) d) < 2 ^ 32"
    using d by (simp_all add: add_mult_distrib)
  have s: "?s < fd_sectors_per_cluster d1" "?s + ?n \<le> fd_sectors_per_cluster d1"
    using rb(1,2) by (simp_all add: only_bdD [OF d1(3)])
  obtain b where b: "bdi_read I (fd_bd d1) (fat32_cluster_sector d1 c ?s) ?n (Some (drop (p * 512) d)) =
      Some (FOS_E_SUCCESS, Some (concat (take ?n (drop ?s (cluster d1 post c))) @ drop (?n * 512) (drop (p * 512) d)), b)"
    "fat32_state I inv (d1\<lparr>fd_bd := b\<rparr>) pre f post"
    using read_cluster [OF d1(2) c s part(2,3)] by (elim exE conjE) rule
  let ?d = "take (p * 512) d @ concat (take ?n (drop ?s (cluster dev post c))) @ drop ((p + ?n) * 512) d"
  let ?dev = "d1\<lparr>fd_bd := b\<rparr>"
  have ob: "only_bd dev ?dev" by (rule only_bd_trans [OF d1(3) only_bd_upd])
  have sb: "slot_bad ?dev (f ! c) = slot_bad dev (f ! c)" using only_bdD(12) [OF ob] .
  have wrap: "p * 512 mod 2 ^ 32 = p * 512" using part(1) d(2) by simp
  have wrap2: "(p + ?n) mod 2 ^ 32 = p + ?n" using pn d by simp
  have buf: "concat (take ?n (drop ?s (cluster d1 post c))) @ drop (?n * 512) (drop (p * 512) d)
      = concat (take ?n (drop ?s (cluster dev post c))) @ drop ((p + ?n) * 512) d"
    by (simp add: only_bd_layout(1) [OF d1(3)] add_mult_distrib add.commute)
  have sh: "round_shift d1 off p = ?s" "round_count d1 off num p = ?n"
    by (simp_all add: round_shift_def round_count_def only_bdD(6) [OF d1(3)])
  have "fat32_rw_loop I off num False dev c p d =
      (if p + ?n = num then Some (FOS_E_SUCCESS, ?d, ?dev)
       else if cs = [] then Some (FOS_E_INVALID_RANGE, ?d, ?dev)
       else fat32_rw_loop I off num False ?dev (f ! c) (p + ?n) ?d)"
    using nx
    by (subst rw_loop_unfold, simp only: d1(1) bind.simps case_prod_conv sh wrap wrap2 buf_from_in [OF part(1)] b(1) buf sb if_True if_False Let_def simp_thms)
      simp
  then show ?thesis using b(2) ob unfolding Let_def by (intro exI conjI)
qed

end

lemma length_concat_const: "\<forall>s\<in>set xs. length s = k \<Longrightarrow> length (concat xs) = length xs * k"
  by (induction xs) simp_all

lemma length_concat_map_const: "(\<And>x. x \<in> set xs \<Longrightarrow> length (g x) = k) \<Longrightarrow> length (concat (map g xs)) = length xs * k"
  by (induction xs) simp_all

lemma drop_append_length: "length xs = k \<Longrightarrow> drop (k + n) (xs @ ys) = drop n ys"
  by simp

definition put :: "nat \<Rightarrow> 'a list \<Rightarrow> 'a list \<Rightarrow> 'a list" where
  "put k ss xs = take k xs @ ss @ drop (k + length ss) xs"

lemma length_put [simp]: "k + length ss \<le> length xs \<Longrightarrow> length (put k ss xs) = length xs"
  by (simp add: put_def)

lemma put_nil [simp]: "put k [] xs = xs"
  by (simp add: put_def)

context block_device begin

lemma rw_round_write:
  assumes st: "fat32_state I inv dev pre f post" and ch: "chain f c (c # cs)" and p: "p \<le> num"
    and d: "num * 512 \<le> length d" "length d < 2 ^ 32"
  shows "\<exists>dev'. only_bd dev dev'
    \<and> fat32_state I inv dev' pre f
        (put (data_at dev c + round_shift dev off p) (cells 512 (round_count dev off num p) (drop (p * 512) d)) post)
    \<and> fat32_rw_loop I off num True dev c p d =
      (let n = round_count dev off num p
       in if p + n = num then Some (FOS_E_SUCCESS, d, dev')
          else if cs = [] then Some (FOS_E_INVALID_RANGE, d, dev')
          else fat32_rw_loop I off num True dev' (f ! c) (p + n) d)"
proof -
  have c: "2 \<le> c" "c < length f" using ch by simp_all
  note nx = chain_next [OF st ch]
  obtain d1 where d1: "fat32_get_fat_slot I dev c True = Some (FOS_E_SUCCESS, Some (f ! c), d1)"
    "fat32_state I inv d1 pre f post" "only_bd dev d1"
    using get_slot [OF st c(2)] by (elim exE conjE) rule
  let ?s = "round_shift dev off p" and ?n = "round_count dev off num p"
  note rb = round_bounds [where dev = dev and off = off and p = p, OF conjunct1 [OF state_spc [OF st]]]
  have pn: "p + ?n \<le> num" using rb(3) [where num = num] p by simp
  have "(p + ?n) * 512 \<le> num * 512" using pn by (rule mult_le_mono1)
  then have part: "p * 512 \<le> length d" "?n * 512 \<le> length (drop (p * 512) d)" "length (drop (p * 512) d) < 2 ^ 32"
    using d by (simp_all add: add_mult_distrib)
  have s: "?s < fd_sectors_per_cluster d1" "?s + ?n \<le> fd_sectors_per_cluster d1"
    using rb(1,2) by (simp_all add: only_bdD [OF d1(3)])
  let ?ss = "cells 512 ?n (drop (p * 512) d)"
  obtain b where b: "bdi_write I (fd_bd d1) (fat32_cluster_sector d1 c ?s) ?n (Some (drop (p * 512) d)) = Some (FOS_E_SUCCESS, b)"
    "fat32_state I inv (d1\<lparr>fd_bd := b\<rparr>) pre f
        (take (data_at d1 c + ?s) post @ ?ss @ drop (data_at d1 c + ?s + ?n) post)"
    using write_cluster [OF d1(2) c s part(2,3)] by (elim exE conjE) rule
  let ?dev = "d1\<lparr>fd_bd := b\<rparr>"
  have ob: "only_bd dev ?dev" by (rule only_bd_trans [OF d1(3) only_bd_upd])
  have sb: "slot_bad ?dev (f ! c) = slot_bad dev (f ! c)" using only_bdD(12) [OF ob] .
  have wrap: "p * 512 mod 2 ^ 32 = p * 512" using part(1) d(2) by simp
  have wrap2: "(p + ?n) mod 2 ^ 32 = p + ?n" using pn d by simp
  have sh: "round_shift d1 off p = ?s" "round_count d1 off num p = ?n"
    by (simp_all add: round_shift_def round_count_def only_bdD(6) [OF d1(3)])
  have "fat32_state I inv ?dev pre f (put (data_at dev c + ?s) ?ss post)"
    using b(2) by (simp add: put_def only_bd_layout(4) [OF d1(3)])
  moreover have "fat32_rw_loop I off num True dev c p d =
      (if p + ?n = num then Some (FOS_E_SUCCESS, d, ?dev)
       else if cs = [] then Some (FOS_E_INVALID_RANGE, d, ?dev)
       else fat32_rw_loop I off num True ?dev (f ! c) (p + ?n) d)"
    using nx
    by (subst rw_loop_unfold, simp only: d1(1) bind.simps case_prod_conv sh wrap wrap2 buf_from_in [OF part(1)] b(1) sb append_take_drop_id if_True if_False Let_def simp_thms)
      simp
  ultimately show ?thesis using ob unfolding Let_def by (intro exI conjI)
qed

lemma cluster_sectors:
  assumes st: "fat32_state I inv dev pre f post"
  shows "\<forall>s\<in>set (cluster dev post c). length s = 512"
proof
  fix s assume "s \<in> set (cluster dev post c)"
  then have "s \<in> set post" unfolding cluster_def by (meson in_set_takeD in_set_dropD)
  moreover obtain fs where "inv (fd_bd dev) (pre @ fs @ post)" "bdi_sector_size I (fd_bd dev) = 512"
    using fat32_stateE [OF st] by blast
  ultimately show "length s = 512" using geometry [of "fd_bd dev" "pre @ fs @ post"] by simp
qed

text \<open>Reading less than 256 sectors that the chain has succeeds and delivers them.\<close>

lemma rw_loop_read:
  assumes "fat32_state I inv dev pre f post" and "chain f c (c # cs)" and "p < num" and "num - p < 256"
    and "num * 512 \<le> length d" and "length d < 2 ^ 32"
    and "round_shift dev off p + (num - p) \<le> length (c # cs) * fd_sectors_per_cluster dev"
  shows "\<exists>dev'. fat32_rw_loop I off num False dev c p d =
      Some (FOS_E_SUCCESS, take (p * 512) d @ concat (take (num - p) (drop (round_shift dev off p) (file_sectors dev post (c # cs))))
        @ drop (num * 512) d, dev')
    \<and> fat32_state I inv dev' pre f post \<and> only_bd dev dev'"
  using assms
proof (induction cs arbitrary: dev c p d)
  case (Nil dev c p d)
  let ?s = "round_shift dev off p" and ?n = "round_count dev off num p"
  have n: "?n = num - p" using Nil.prems(4,7) by (simp add: round_count_def)
  obtain dev' where r: "fat32_state I inv dev' pre f post" "only_bd dev dev'"
    "fat32_rw_loop I off num False dev c p d =
      (let n = ?n; d' = take (p * 512) d @ concat (take n (drop ?s (cluster dev post c))) @ drop ((p + n) * 512) d
       in if p + n = num then Some (FOS_E_SUCCESS, d', dev')
          else if [] = ([] :: nat list) then Some (FOS_E_INVALID_RANGE, d', dev')
          else fat32_rw_loop I off num False dev' (f ! c) (p + n) d')"
    using rw_round_read [OF Nil.prems(1,2) less_imp_le [OF Nil.prems(3)] Nil.prems(5,6), of off] by (elim exE conjE) rule
  have pn: "p + (num - p) = num" using Nil.prems(3) by simp
  have eq: "file_sectors dev post [c] = cluster dev post c" by simp
  show ?case using r(1,2) r(3) [unfolded Let_def n pn if_P [OF refl]] unfolding eq by (intro exI conjI)
next
  case (Cons c' cs dev c p d)
  let ?s = "round_shift dev off p" and ?n = "round_count dev off num p" and ?C = "cluster dev post c"
  have c: "2 \<le> c" "c < length f" and c': "c' = f ! c" and ch': "chain f c' (c' # cs)" using Cons.prems(2) by simp_all
  have spc: "0 < fd_sectors_per_cluster dev" "fd_sectors_per_cluster dev < 256" using state_spc [OF Cons.prems(1)] by simp_all
  note rb = round_bounds [where dev = dev and off = off and p = p, OF spc(1)]
  have lC: "length ?C = fd_sectors_per_cluster dev" by (rule length_cluster [OF Cons.prems(1) c])
  let ?d' = "take (p * 512) d @ concat (take ?n (drop ?s ?C)) @ drop ((p + ?n) * 512) d"
  obtain d1 where r: "fat32_state I inv d1 pre f post" "only_bd dev d1"
    "fat32_rw_loop I off num False dev c p d =
      (let n = ?n; d' = take (p * 512) d @ concat (take n (drop ?s ?C)) @ drop ((p + n) * 512) d
       in if p + n = num then Some (FOS_E_SUCCESS, d', d1)
          else if c' # cs = [] then Some (FOS_E_INVALID_RANGE, d', d1)
          else fat32_rw_loop I off num False d1 (f ! c) (p + n) d')"
    using rw_round_read [OF Cons.prems(1,2) less_imp_le [OF Cons.prems(3)] Cons.prems(5,6), of off] by (elim exE conjE) rule
  show ?case
  proof (cases "num - p \<le> fd_sectors_per_cluster dev - ?s")
    case True
    then have n: "?n = num - p" using Cons.prems(4) by (simp add: round_count_def)
    have tk: "take (num - p) (drop ?s (file_sectors dev post (c # c' # cs))) = take (num - p) (drop ?s ?C)"
      using True lC rb(1) by simp
    have pn: "p + (num - p) = num" using Cons.prems(3) by simp
    show ?thesis using r(1,2) r(3) [unfolded Let_def n pn if_P [OF refl]] unfolding tk by (intro exI conjI)
  next
    case False
    then have n: "?n = fd_sectors_per_cluster dev - ?s" using Cons.prems(4) by (simp add: round_count_def)
    have n0: "0 < ?n" "p + ?n < num" using n rb(1) False by simp_all
    have sh: "round_shift d1 off (p + ?n) = 0" using n0 by (simp add: round_shift_def)
    have lc: "length (concat (take ?n (drop ?s ?C))) = ?n * 512"
    proof -
      have "\<forall>s\<in>set (take ?n (drop ?s ?C)). length s = 512"
        using cluster_sectors [OF Cons.prems(1)] in_set_takeD in_set_dropD by fast
      then show ?thesis using length_concat_const lC n rb(1) by (metis diff_le_self length_drop length_take min.absorb2 order_refl)
    qed
    have pn: "(p + ?n) * 512 \<le> length d"
      using mult_le_mono1 [OF less_imp_le [OF n0(2)], of 512] Cons.prems(5) by linarith
    have ld: "length ?d' = length d" using lc pn by (simp add: add_mult_distrib)
    have tk: "take ((p + ?n) * 512) ?d' = take (p * 512) d @ concat (take ?n (drop ?s ?C))"
      using lc pn by (simp add: add_mult_distrib)
    have nn: "(p + ?n) * 512 \<le> num * 512" using n0(2) by simp
    have dr: "drop (num * 512) ?d' = drop (num * 512) d"
    proof -
      have "length (take (p * 512) d @ concat (take ?n (drop ?s ?C))) = (p + ?n) * 512"
        using lc pn by (simp add: add_mult_distrib)
      then show ?thesis using nn by (simp add: add.commute [of _ "(p + ?n) * 512"])
    qed
    have fit: "round_shift d1 off (p + ?n) + (num - (p + ?n)) \<le> length (c' # cs) * fd_sectors_per_cluster d1"
      using Cons.prems(7) n rb(1) unfolding sh by (simp add: only_bdD(6) [OF r(2)])
    have l256: "num - (p + ?n) < 256" using Cons.prems(4) by simp
    have ld512: "num * 512 \<le> length ?d'" and l32: "length ?d' < 2 ^ 32" using Cons.prems(5,6) unfolding ld by simp_all
    obtain d2 where d2: "fat32_rw_loop I off num False d1 c' (p + ?n) ?d' =
        Some (FOS_E_SUCCESS, take ((p + ?n) * 512) ?d' @ concat (take (num - (p + ?n)) (drop (round_shift d1 off (p + ?n)) (file_sectors d1 post (c' # cs))))
          @ drop (num * 512) ?d', d2)"
      "fat32_state I inv d2 pre f post" "only_bd d1 d2"
      using Cons.IH [OF r(1) ch' n0(2) l256 ld512 l32 fit] by (elim exE conjE) rule
    have split: "take (num - p) (drop ?s (file_sectors dev post (c # c' # cs)))
        = take ?n (drop ?s ?C) @ take (num - (p + ?n)) (file_sectors dev post (c' # cs))"
      using lC n rb(1) False by simp
    have "fat32_rw_loop I off num False dev c p d = fat32_rw_loop I off num False d1 c' (p + ?n) ?d'"
      using r(3) n0(2) c' by (simp add: Let_def)
    also have "\<dots> = Some (FOS_E_SUCCESS, take (p * 512) d @ concat (take (num - p) (drop ?s (file_sectors dev post (c # c' # cs)))) @ drop (num * 512) d, d2)"
      unfolding d2(1) tk dr split sh only_bd_layout(2) [OF r(2)] concat_append append_assoc drop_0 ..
    finally show ?thesis using d2(2) only_bd_trans [OF r(2) d2(3)] by (intro exI conjI)
  qed
qed

end

text \<open>What a write leaves of the clusters.\<close>

lemma nth_put:
  "k + length ss \<le> length xs \<Longrightarrow> i < length xs \<Longrightarrow>
    put k ss xs ! i = (if k \<le> i \<and> i < k + length ss then ss ! (i - k) else xs ! i)"
  by (auto simp: put_def nth_append)

lemma take_drop_put_same:
  assumes "s + length ss \<le> m" and "k + m \<le> length xs"
  shows "take m (drop k (put (k + s) ss xs)) = put s ss (take m (drop k xs))"
  by (rule nth_equalityI) (use assms in \<open>simp_all add: nth_put\<close>)

lemma take_drop_put_other:
  assumes "k + length ss \<le> length xs" and "j + m \<le> k \<or> k + length ss \<le> j"
  shows "take m (drop j (put k ss xs)) = take m (drop j xs)"
  by (rule nth_equalityI) (use assms in \<open>auto simp: nth_put\<close>)

lemma clusters_apart:
  assumes "2 \<le> c" and "2 \<le> c'" and "c \<noteq> c'" and "s + n \<le> fd_sectors_per_cluster dev"
  shows "data_at dev c' + fd_sectors_per_cluster dev \<le> data_at dev c + s \<or> data_at dev c + s + n \<le> data_at dev c'"
proof (cases "c < c'")
  case True
  then have "(c - 2 + 1) * fd_sectors_per_cluster dev \<le> (c' - 2) * fd_sectors_per_cluster dev"
    using assms(1) by (intro mult_le_mono1) simp
  then show ?thesis using assms(4) by (simp add: data_at_def)
next
  case False
  then have "(c' - 2 + 1) * fd_sectors_per_cluster dev \<le> (c - 2) * fd_sectors_per_cluster dev"
    using assms(2,3) by (intro mult_le_mono1) simp
  then show ?thesis by (simp add: data_at_def)
qed

lemma cluster_put:
  assumes "2 \<le> c" and "2 \<le> c'" and "s + length ss \<le> fd_sectors_per_cluster dev"
    and "data_at dev c + fd_sectors_per_cluster dev \<le> length post"
  shows "cluster dev (put (data_at dev c + s) ss post) c' = (if c' = c then put s ss (cluster dev post c) else cluster dev post c')"
  using take_drop_put_same [OF assms(3,4)] clusters_apart [of c c' s "length ss" dev] assms
    take_drop_put_other [of "data_at dev c + s" ss post "data_at dev c'" "fd_sectors_per_cluster dev"]
  by (auto simp: cluster_def)

text \<open>
  \<open>written\<close>: the file holds the new sectors from \<open>s\<close> on, other clusters and the other tables are as
  before.
\<close>

definition written :: "'b fat32_device \<Rightarrow> nat list \<Rightarrow> nat \<Rightarrow> bytes list \<Rightarrow> bytes list \<Rightarrow> bytes list \<Rightarrow> bool" where
  "written dev xs s ss post post' \<longleftrightarrow> length post' = length post \<and> file_sectors dev post' xs = put s ss (file_sectors dev post xs)
     \<and> (\<forall>c. 2 \<le> c \<longrightarrow> c \<notin> set xs \<longrightarrow> cluster dev post' c = cluster dev post c)
     \<and> take ((fd_num_fats dev - 1) * fd_sectors_per_fat dev) post' = take ((fd_num_fats dev - 1) * fd_sectors_per_fat dev) post"

lemma take_put: "m \<le> k \<Longrightarrow> k \<le> length xs \<Longrightarrow> take m (put k ss xs) = take m xs"
  by (simp add: put_def min_def)

lemma file_sectors_cong:
  "(\<And>c. c \<in> set xs \<Longrightarrow> cluster dev post' c = cluster dev post c) \<Longrightarrow> file_sectors dev post' xs = file_sectors dev post xs"
  unfolding file_sectors_def by (intro arg_cong [of _ _ concat] map_cong) simp_all

lemma put_append: "s + length ss \<le> length xs \<Longrightarrow> put s ss xs @ ys = put s ss (xs @ ys)"
  by (simp add: put_def)

lemma put_split:
  "s + length as = length xs \<Longrightarrow> put s as xs @ put 0 bs ys = put s (as @ bs) (xs @ ys)"
proof -
  assume "s + length as = length xs"
  then have "length xs = s + length as" by simp
  then show ?thesis by (simp add: put_def)
qed

lemma written_one:
  assumes c: "2 \<le> c" and s: "s + length ss \<le> fd_sectors_per_cluster dev" and e: "data_at dev c + fd_sectors_per_cluster dev \<le> length post"
    and cs: "c \<notin> set cs" "\<forall>x\<in>set cs. 2 \<le> x"
  shows "written dev (c # cs) s ss post (put (data_at dev c + s) ss post)"
proof -
  note cp = cluster_put [OF c _ s e]
  have "length (cluster dev post c) = fd_sectors_per_cluster dev" using e by (simp add: cluster_def)
  moreover have "file_sectors dev (put (data_at dev c + s) ss post) cs = file_sectors dev post cs"
    using cp cs by (intro file_sectors_cong) auto
  ultimately have "file_sectors dev (put (data_at dev c + s) ss post) (c # cs) = put s ss (file_sectors dev post (c # cs))"
    using cp [OF c] s by (simp add: put_append)
  moreover have "length (put (data_at dev c + s) ss post) = length post" using s e by simp
  moreover have "\<forall>x. 2 \<le> x \<longrightarrow> x \<notin> set (c # cs) \<longrightarrow> cluster dev (put (data_at dev c + s) ss post) x = cluster dev post x"
    using cp by simp
  moreover have "take ((fd_num_fats dev - 1) * fd_sectors_per_fat dev) (put (data_at dev c + s) ss post)
      = take ((fd_num_fats dev - 1) * fd_sectors_per_fat dev) post"
    using s e by (intro take_put) (simp_all add: data_at_def)
  ultimately show ?thesis by (simp only: written_def)
qed

lemma written_more:
  assumes w1: "written dev (c # cs) s as post post1" and w2: "written dev cs 0 bs post1 post2"
    and s: "s + length as = length (cluster dev post c)" and c: "c \<notin> set cs" "2 \<le> c"
    and cl: "cluster dev post1 c = put s as (cluster dev post c)"
  shows "written dev (c # cs) s (as @ bs) post post2"
proof -
  have "file_sectors dev post1 (c # cs) = put s as (file_sectors dev post (c # cs))" using w1 by (simp add: written_def)
  then have f1: "file_sectors dev post1 cs = file_sectors dev post cs"
    using s by (simp add: cl put_def)
  have "cluster dev post2 c = cluster dev post1 c" using w2 c by (simp add: written_def)
  moreover have "file_sectors dev post2 cs = put 0 bs (file_sectors dev post cs)" using w2 f1 by (simp add: written_def)
  ultimately have "file_sectors dev post2 (c # cs) = put s (as @ bs) (file_sectors dev post (c # cs))"
    using put_split [OF s] cl by simp
  moreover have "\<forall>x. 2 \<le> x \<longrightarrow> x \<notin> set (c # cs) \<longrightarrow> cluster dev post2 x = cluster dev post x"
    using w1 w2 by (simp add: written_def)
  moreover have "length post2 = length post" "take ((fd_num_fats dev - 1) * fd_sectors_per_fat dev) post2 = take ((fd_num_fats dev - 1) * fd_sectors_per_fat dev) post"
    using w1 w2 by (simp_all add: written_def)
  ultimately show ?thesis by (simp only: written_def)
qed

lemma only_bd_written:
  assumes "only_bd dev dev'"
  shows "written dev' = written dev"
  by (intro ext) (simp add: written_def only_bd_layout [OF assms] only_bdD [OF assms])

context block_device begin

lemma rw_loop_write:
  assumes "fat32_state I inv dev pre f post" and "chain f c (c # cs)" and "p < num" and "num - p < 256"
    and "num * 512 \<le> length d" and "length d < 2 ^ 32"
    and "round_shift dev off p + (num - p) \<le> length (c # cs) * fd_sectors_per_cluster dev"
  shows "\<exists>dev' post'. fat32_rw_loop I off num True dev c p d = Some (FOS_E_SUCCESS, d, dev')
    \<and> fat32_state I inv dev' pre f post' \<and> only_bd dev dev'
    \<and> written dev (c # cs) (round_shift dev off p) (cells 512 (num - p) (drop (p * 512) d)) post post'"
  using assms
proof (induction cs arbitrary: dev c p post)
  case (Nil dev c p post)
  let ?s = "round_shift dev off p" and ?n = "round_count dev off num p"
  have c: "2 \<le> c" "c < length f" using Nil.prems(2) by simp_all
  have spc: "0 < fd_sectors_per_cluster dev" using state_spc [OF Nil.prems(1)] by simp
  have n: "?n = num - p" using Nil.prems(4,7) by (simp add: round_count_def)
  have pn: "p + (num - p) = num" using Nil.prems(3) by simp
  obtain dev' where r: "only_bd dev dev'"
    "fat32_state I inv dev' pre f (put (data_at dev c + ?s) (cells 512 ?n (drop (p * 512) d)) post)"
    "fat32_rw_loop I off num True dev c p d =
      (let n = ?n in if p + n = num then Some (FOS_E_SUCCESS, d, dev')
          else if [] = ([] :: nat list) then Some (FOS_E_INVALID_RANGE, d, dev')
          else fat32_rw_loop I off num True dev' (f ! c) (p + n) d)"
    using rw_round_write [OF Nil.prems(1,2) less_imp_le [OF Nil.prems(3)] Nil.prems(5,6), of off] by (elim exE conjE) rule
  have "written dev [c] ?s (cells 512 ?n (drop (p * 512) d)) post (put (data_at dev c + ?s) (cells 512 ?n (drop (p * 512) d)) post)"
    by (rule written_one [OF c(1) _ data_end [OF Nil.prems(1) c]]) (use round_bounds(2) [OF spc] in simp_all)
  then show ?case using r(1,2) r(3) [unfolded Let_def n pn if_P [OF refl]] unfolding n by (intro exI conjI)
next
  case (Cons c' cs dev c p post)
  let ?s = "round_shift dev off p" and ?n = "round_count dev off num p" and ?C = "cluster dev post c"
  let ?ss = "cells 512 ?n (drop (p * 512) d)" let ?post = "put (data_at dev c + ?s) ?ss post"
  have c: "2 \<le> c" "c < length f" and c': "c' = f ! c" and ch': "chain f c' (c' # cs)" using Cons.prems(2) by simp_all
  have spc: "0 < fd_sectors_per_cluster dev" using state_spc [OF Cons.prems(1)] by simp
  note rb = round_bounds [where dev = dev and off = off and p = p, OF spc]
  have lC: "length ?C = fd_sectors_per_cluster dev" by (rule length_cluster [OF Cons.prems(1) c])
  have dist: "c \<notin> set (c' # cs)" using chain_distinct [OF Cons.prems(2) state_slots [OF Cons.prems(1)]] by simp
  have ge: "\<forall>x\<in>set (c' # cs). 2 \<le> x" using chain_slots [OF ch'] by blast
  note en = data_end [OF Cons.prems(1) c]
  have fits: "?s + length ?ss \<le> fd_sectors_per_cluster dev" using rb(2) by simp
  note w1 = written_one [OF c(1) fits en dist ge]
  obtain d1 where r: "only_bd dev d1" "fat32_state I inv d1 pre f ?post"
    "fat32_rw_loop I off num True dev c p d =
      (let n = ?n in if p + n = num then Some (FOS_E_SUCCESS, d, d1)
          else if c' # cs = [] then Some (FOS_E_INVALID_RANGE, d, d1)
          else fat32_rw_loop I off num True d1 (f ! c) (p + n) d)"
    using rw_round_write [OF Cons.prems(1,2) less_imp_le [OF Cons.prems(3)] Cons.prems(5,6), of off] by (elim exE conjE) rule
  show ?case
  proof (cases "num - p \<le> fd_sectors_per_cluster dev - ?s")
    case True
    then have n: "?n = num - p" using Cons.prems(4) by (simp add: round_count_def)
    have pn: "p + (num - p) = num" using Cons.prems(3) by simp
    show ?thesis using r(1,2) w1 r(3) [unfolded Let_def n pn if_P [OF refl]] unfolding n by (intro exI conjI)
  next
    case False
    then have n: "?n = fd_sectors_per_cluster dev - ?s" using Cons.prems(4) by (simp add: round_count_def)
    have n0: "0 < ?n" "p + ?n < num" using n rb(1) False by simp_all
    have sh: "round_shift d1 off (p + ?n) = 0" using n0 by (simp add: round_shift_def)
    have fit: "round_shift d1 off (p + ?n) + (num - (p + ?n)) \<le> length (c' # cs) * fd_sectors_per_cluster d1"
      using Cons.prems(7) n rb(1) unfolding sh by (simp add: only_bdD(6) [OF r(1)])
    have l256: "num - (p + ?n) < 256" using Cons.prems(4) by simp
    obtain d2 post2 where d2: "fat32_rw_loop I off num True d1 c' (p + ?n) d = Some (FOS_E_SUCCESS, d, d2)"
      "fat32_state I inv d2 pre f post2" "only_bd d1 d2"
      "written d1 (c' # cs) (round_shift d1 off (p + ?n)) (cells 512 (num - (p + ?n)) (drop ((p + ?n) * 512) d)) ?post post2"
      using Cons.IH [OF r(2) ch' n0(2) l256 Cons.prems(5,6) fit] by (elim exE conjE) rule
    have w2: "written dev (c' # cs) 0 (cells 512 (num - (p + ?n)) (drop ((p + ?n) * 512) d)) ?post post2"
      using d2(4) unfolding sh only_bd_written [OF r(1)] .
    have "written dev (c # c' # cs) ?s (?ss @ cells 512 (num - (p + ?n)) (drop ((p + ?n) * 512) d)) post post2"
      by (rule written_more [OF w1 w2 _ dist c(1)]) (use lC n rb(1) cluster_put [OF c(1) c(1) fits en] in simp_all)
    moreover have "?ss @ cells 512 (num - (p + ?n)) (drop ((p + ?n) * 512) d) = cells 512 (num - p) (drop (p * 512) d)"
    proof -
      have "num - p = ?n + (num - (p + ?n))" using n0(2) by simp
      then show ?thesis using cells_add [of 512 ?n "num - (p + ?n)" "drop (p * 512) d"]
        by (simp add: add_mult_distrib mult.commute add.commute)
    qed
    moreover have "fat32_rw_loop I off num True dev c p d = Some (FOS_E_SUCCESS, d, d2)"
      using r(3) n0(2) c' d2(1) by (simp add: Let_def)
    ultimately show ?thesis using d2(2) only_bd_trans [OF r(1) d2(3)] by (intro exI conjI) simp_all
  qed
qed

end

section \<open>Whole transfers\<close>

lemma file_sectors_append [simp]: "file_sectors dev post (xs @ ys) = file_sectors dev post xs @ file_sectors dev post ys"
  by (simp add: file_sectors_def)

lemma chain_drop: "chain f i xs \<Longrightarrow> k < length xs \<Longrightarrow> chain f (xs ! k) (drop k xs)"
  by (metis Cons_nth_drop_Suc append_take_drop_id chain_append)

lemma put_prefix: "k = length xs \<Longrightarrow> xs @ put s ss ys = put (k + s) ss (xs @ ys)"
  by (simp add: put_def)

lemma written_suffix:
  assumes w: "written dev ys s ss post post'" and apart: "\<forall>x\<in>set xs. x \<notin> set ys \<and> 2 \<le> x"
    and len: "length (file_sectors dev post xs) = k"
  shows "written dev (xs @ ys) (k + s) ss post post'"
proof -
  have "file_sectors dev post' xs = file_sectors dev post xs"
    using w apart by (intro file_sectors_cong) (simp add: written_def)
  then have "file_sectors dev post' (xs @ ys) = put (k + s) ss (file_sectors dev post (xs @ ys))"
    using w len by (simp add: written_def put_prefix)
  then show ?thesis using w by (simp add: written_def)
qed

context block_device begin

text \<open>The walk to the first cluster of a transfer.\<close>

lemma rw_start:
  assumes st: "fat32_state I inv dev pre f post" and ch: "chain f i xs" and i: "i < length f"
    and k: "off div fd_sectors_per_cluster dev < length xs" and num: "num \<noteq> 0"
  shows "\<exists>dev'. fat32_state I inv dev' pre f post \<and> only_bd dev dev'
    \<and> fat32_read_write I dev i off num (Some d) w =
        map_option (\<lambda>(e, d, dev). (e, Some d, dev)) (fat32_rw_loop I off num w dev' (xs ! (off div fd_sectors_per_cluster dev)) 0 d)"
proof -
  note f = state_slots [OF st]
  obtain zs where zs: "xs = i # zs" using chain_Cons [OF ch f i] by blast
  have i2: "2 \<le> i" using ch zs by simp
  have mask: "i AND FAT32_MASK = i" and ok: "\<not> slot_bad dev i"
    using i i2 f state_slot_bad [OF st, of i] by (simp_all add: fat_mask)
  let ?k = "off div fd_sectors_per_cluster dev"
  have spc: "fd_sectors_per_cluster dev \<noteq> 0" using state_spc [OF st] by simp
  obtain d1 where d1: "fat32_traverse_chain I dev i ?k True = Some (if ?k \<le> length zs
        then (FOS_E_SUCCESS, Some ((i # zs) ! ?k), d1) else (FOS_E_INVALID_INDEX, None, d1))"
    "fat32_state I inv d1 pre f post" "only_bd dev d1"
    using traverse_chain [OF st ch [unfolded zs], of ?k] by (elim exE conjE) rule
  have "fat32_traverse_chain I dev i ?k True = Some (FOS_E_SUCCESS, Some (xs ! ?k), d1)"
    using d1(1) k zs by simp
  then have "fat32_read_write I dev i off num (Some d) w =
      map_option (\<lambda>(e, d, dev). (e, Some d, dev)) (fat32_rw_loop I off num w d1 (xs ! ?k) 0 d)"
    using mask ok num spc
    by (cases "fat32_rw_loop I off num w d1 (xs ! ?k) 0 d") (simp_all add: fat32_read_write_def Let_def split: prod.splits)
  then show ?thesis using d1(2,3) by (intro exI conjI)
qed

lemma range_in_chain:
  assumes "off + num \<le> length xs * spc" and "0 < num" and "0 < (spc :: nat)"
  shows "off div spc < length xs" and "off mod spc + num \<le> length (drop (off div spc) xs) * spc"
proof -
  have d: "off = off div spc * spc + off mod spc" by simp
  show k: "off div spc < length xs" using assms by (intro less_mult_imp_div_less) linarith
  have "length xs * spc = off div spc * spc + length (drop (off div spc) xs) * spc"
    using k by (simp add: add_mult_distrib [symmetric])
  then show "off mod spc + num \<le> length (drop (off div spc) xs) * spc" using assms(1) d by linarith
qed

lemma rw_place:
  assumes st: "fat32_state I inv dev pre f post" and ch: "chain f i xs"
    and rng: "off + num \<le> length xs * fd_sectors_per_cluster dev" and num: "0 < num"
  obtains as c cs where "xs = as @ c # cs" "xs ! (off div fd_sectors_per_cluster dev) = c"
    "off div fd_sectors_per_cluster dev < length xs" "chain f c (c # cs)"
    "off mod fd_sectors_per_cluster dev + num \<le> length (c # cs) * fd_sectors_per_cluster dev"
    "length (file_sectors dev post as) = off div fd_sectors_per_cluster dev * fd_sectors_per_cluster dev"
proof -
  let ?spc = "fd_sectors_per_cluster dev" let ?k = "off div ?spc"
  have spc: "0 < ?spc" using state_spc [OF st] by simp
  note rc = range_in_chain [OF rng num spc]
  have dk: "drop ?k xs = xs ! ?k # drop (Suc ?k) xs" using rc(1) by (simp add: Cons_nth_drop_Suc)
  have "length (cluster dev post x) = ?spc" if "x \<in> set (take ?k xs)" for x
    using chain_slots [OF ch in_set_takeD [OF that]] length_cluster [OF st] by simp
  then have "length (file_sectors dev post (take ?k xs)) = length (take ?k xs) * ?spc"
    unfolding file_sectors_def by (intro length_concat_map_const)
  then have len: "length (file_sectors dev post (take ?k xs)) = ?k * ?spc" using rc(1) by simp
  have "xs = take ?k xs @ xs ! ?k # drop (Suc ?k) xs" unfolding dk [symmetric] by simp
  from that [OF this refl rc(1) chain_drop [OF ch rc(1), unfolded dk] rc(2) [unfolded dk] len] show thesis .
qed

lemma read_chain:
  assumes st: "fat32_state I inv dev pre f post" and ch: "chain f i xs" and i: "i < length f"
    and rng: "off + num \<le> length xs * fd_sectors_per_cluster dev" and num: "0 < num" "num < 256"
    and d: "num * 512 \<le> length d" "length d < 2 ^ 32"
  shows "\<exists>dev'. fat32_read_write I dev i off num (Some d) False =
      Some (FOS_E_SUCCESS, Some (concat (take num (drop off (file_sectors dev post xs))) @ drop (num * 512) d), dev')
    \<and> fat32_state I inv dev' pre f post \<and> only_bd dev dev'"
proof -
  let ?spc = "fd_sectors_per_cluster dev"
  obtain as c cs where pl: "xs = as @ c # cs" "xs ! (off div ?spc) = c" "off div ?spc < length xs" "chain f c (c # cs)"
    "off mod ?spc + num \<le> length (c # cs) * ?spc" "length (file_sectors dev post as) = off div ?spc * ?spc"
    by (rule rw_place [OF st ch rng num(1)])
  have num0: "num \<noteq> 0" "num - 0 < 256" using num by simp_all
  obtain d1 where d1: "fat32_state I inv d1 pre f post" "only_bd dev d1"
    "fat32_read_write I dev i off num (Some d) False =
        map_option (\<lambda>(e, d, dev). (e, Some d, dev)) (fat32_rw_loop I off num False d1 c 0 d)"
    using rw_start [OF st ch i pl(3) num0(1), of d False] unfolding pl(2) by (elim exE conjE) rule
  have sh: "round_shift d1 off 0 = off mod ?spc" by (simp add: round_shift_def only_bdD(6) [OF d1(2)])
  have fit: "round_shift d1 off 0 + (num - 0) \<le> length (c # cs) * fd_sectors_per_cluster d1"
    using pl(5) unfolding sh only_bdD(6) [OF d1(2)] by simp
  obtain d2 where d2: "fat32_rw_loop I off num False d1 c 0 d =
      Some (FOS_E_SUCCESS, take (0 * 512) d @ concat (take (num - 0) (drop (round_shift d1 off 0) (file_sectors d1 post (c # cs))))
        @ drop (num * 512) d, d2)"
    "fat32_state I inv d2 pre f post" "only_bd d1 d2"
    using rw_loop_read [OF d1(1) pl(4) num(1) num0(2) d fit] by (elim exE conjE) rule
  have "drop off (file_sectors dev post xs) = drop (off div ?spc * ?spc + off mod ?spc) (file_sectors dev post as @ file_sectors dev post (c # cs))"
    unfolding pl(1) file_sectors_append div_mult_mod_eq ..
  also have "\<dots> = drop (off mod ?spc) (file_sectors dev post (c # cs))" by (rule drop_append_length [OF pl(6)])
  finally have "fat32_read_write I dev i off num (Some d) False =
      Some (FOS_E_SUCCESS, Some (concat (take num (drop off (file_sectors dev post xs))) @ drop (num * 512) d), d2)"
    unfolding d1(3) d2(1) sh only_bd_layout(2) [OF d1(2)] by simp
  then show ?thesis using d2(2) only_bd_trans [OF d1(2) d2(3)] by (intro exI conjI)
qed

lemma write_chain:
  assumes st: "fat32_state I inv dev pre f post" and ch: "chain f i xs" and i: "i < length f"
    and rng: "off + num \<le> length xs * fd_sectors_per_cluster dev" and num: "0 < num" "num < 256"
    and d: "num * 512 \<le> length d" "length d < 2 ^ 32"
  shows "\<exists>dev' post'. fat32_read_write I dev i off num (Some d) True = Some (FOS_E_SUCCESS, Some d, dev')
    \<and> fat32_state I inv dev' pre f post' \<and> only_bd dev dev' \<and> written dev xs off (cells 512 num d) post post'"
proof -
  let ?spc = "fd_sectors_per_cluster dev"
  obtain as c cs where pl: "xs = as @ c # cs" "xs ! (off div ?spc) = c" "off div ?spc < length xs" "chain f c (c # cs)"
    "off mod ?spc + num \<le> length (c # cs) * ?spc" "length (file_sectors dev post as) = off div ?spc * ?spc"
    by (rule rw_place [OF st ch rng num(1)])
  have num0: "num \<noteq> 0" "num - 0 < 256" using num by simp_all
  obtain d1 where d1: "fat32_state I inv d1 pre f post" "only_bd dev d1"
    "fat32_read_write I dev i off num (Some d) True =
        map_option (\<lambda>(e, d, dev). (e, Some d, dev)) (fat32_rw_loop I off num True d1 c 0 d)"
    using rw_start [OF st ch i pl(3) num0(1), of d True] unfolding pl(2) by (elim exE conjE) rule
  have sh: "round_shift d1 off 0 = off mod ?spc" by (simp add: round_shift_def only_bdD(6) [OF d1(2)])
  have fit: "round_shift d1 off 0 + (num - 0) \<le> length (c # cs) * fd_sectors_per_cluster d1"
    using pl(5) unfolding sh only_bdD(6) [OF d1(2)] by simp
  obtain d2 post' where d2: "fat32_rw_loop I off num True d1 c 0 d = Some (FOS_E_SUCCESS, d, d2)"
    "fat32_state I inv d2 pre f post'" "only_bd d1 d2"
    "written d1 (c # cs) (round_shift d1 off 0) (cells 512 (num - 0) (drop (0 * 512) d)) post post'"
    using rw_loop_write [OF d1(1) pl(4) num(1) num0(2) d fit] by (elim exE conjE) rule
  have apart: "\<forall>x\<in>set as. x \<notin> set (c # cs) \<and> 2 \<le> x"
    using chain_distinct [OF ch state_slots [OF st]] chain_slots [OF ch] unfolding pl(1) by auto
  have w: "written dev (c # cs) (off mod ?spc) (cells 512 num d) post post'"
    using d2(4) unfolding only_bd_written [OF d1(2)] sh by simp
  have "written dev xs off (cells 512 num d) post post'"
    using written_suffix [OF w apart pl(6)] unfolding pl(1) div_mult_mod_eq .
  then show ?thesis using d2(2) only_bd_trans [OF d1(2) d2(3)] by (intro exI conjI) (simp_all add: d1(3) d2(1))
qed

text \<open>
  With 256 sectors or more the number of sectors of a round is taken modulo 256, and no round leaves
  less than 256 sectors to do.
\<close>

lemma rw_loop_too_many:
  assumes "fat32_state I inv dev pre f post" and "chain f c (c # cs)" and "p \<le> num" and "256 \<le> num - p"
    and "num * 512 \<le> length d" and "length d < 2 ^ 32"
  shows "\<exists>d' dev'. fat32_rw_loop I off num False dev c p d = Some (FOS_E_INVALID_RANGE, d', dev')"
  using assms
proof (induction cs arbitrary: dev c p d)
  case (Nil dev c p d)
  have n: "p + round_count dev off num p \<noteq> num" using Nil.prems(3,4) mod_less_divisor [of 256 "num - p"] by (auto simp: round_count_def)
  show ?case using rw_round_read [OF Nil.prems(1-3,5,6), of off] n by (auto simp: Let_def)
next
  case (Cons c' cs dev c p d)
  let ?n = "round_count dev off num p"
  let ?d = "take (p * 512) d @ concat (take ?n (drop (round_shift dev off p) (cluster dev post c))) @ drop ((p + ?n) * 512) d"
  have n: "?n \<le> (num - p) mod 256" "?n < 256" using mod_less_divisor [of 256 "num - p"] by (auto simp: round_count_def)
  have "num - p = (num - p) div 256 * 256 + (num - p) mod 256" by simp
  moreover have "1 * 256 \<le> (num - p) div 256 * 256" using Cons.prems(4) by (intro mult_le_mono1) (simp add: Suc_le_eq div_greater_zero_iff)
  ultimately have left: "256 \<le> num - (p + ?n)" using n(1) by linarith
  then have p': "p + ?n \<le> num" "p + ?n \<noteq> num" by simp_all
  have ch': "chain f (f ! c) (f ! c # cs)" and c: "2 \<le> c" "c < length f" using Cons.prems(2) by simp_all
  obtain d1 where r: "fat32_state I inv d1 pre f post" "only_bd dev d1"
    "fat32_rw_loop I off num False dev c p d =
      (let n = ?n; d' = take (p * 512) d @ concat (take n (drop (round_shift dev off p) (cluster dev post c))) @ drop ((p + n) * 512) d
       in if p + n = num then Some (FOS_E_SUCCESS, d', d1)
          else if c' # cs = [] then Some (FOS_E_INVALID_RANGE, d', d1)
          else fat32_rw_loop I off num False d1 (f ! c) (p + n) d')"
    using rw_round_read [OF Cons.prems(1-3,5,6), of off] by (elim exE conjE) rule
  have "length (take ?n (drop (round_shift dev off p) (cluster dev post c))) = ?n"
    using length_cluster [OF Cons.prems(1) c] round_bounds(2) [of dev off p num] state_spc [OF Cons.prems(1)] by simp
  then have "length (concat (take ?n (drop (round_shift dev off p) (cluster dev post c)))) = ?n * 512"
    using length_concat_const [of "take ?n (drop (round_shift dev off p) (cluster dev post c))" 512]
      cluster_sectors [OF Cons.prems(1), of c] in_set_takeD in_set_dropD by metis
  moreover have "(p + ?n) * 512 \<le> length d" using mult_le_mono1 [OF p'(1), of 512] Cons.prems(5) by linarith
  ultimately have ld: "length ?d = length d" by (simp add: add_mult_distrib)
  have "num * 512 \<le> length ?d" "length ?d < 2 ^ 32" using Cons.prems(5,6) unfolding ld by simp_all
  from Cons.IH [OF r(1) ch' p'(1) left this] show ?case using r(3) p'(2) by (simp add: Let_def)
qed

lemma read_too_many:
  assumes st: "fat32_state I inv dev pre f post" and ch: "chain f i xs" and i: "i < length f"
    and off: "off div fd_sectors_per_cluster dev < length xs" and num: "256 \<le> num"
    and d: "num * 512 \<le> length d" "length d < 2 ^ 32"
  shows "\<exists>d' dev'. fat32_read_write I dev i off num (Some d) False = Some (FOS_E_INVALID_RANGE, Some d', dev')"
proof -
  let ?k = "off div fd_sectors_per_cluster dev"
  have num0: "num \<noteq> 0" using num by simp
  obtain d1 where d1: "fat32_state I inv d1 pre f post" "only_bd dev d1"
    "fat32_read_write I dev i off num (Some d) False =
        map_option (\<lambda>(e, d, dev). (e, Some d, dev)) (fat32_rw_loop I off num False d1 (xs ! ?k) 0 d)"
    using rw_start [OF st ch i off num0, of d False] by (elim exE conjE) rule
  have dk: "drop ?k xs = xs ! ?k # drop (Suc ?k) xs" using off by (simp add: Cons_nth_drop_Suc)
  have num1: "0 \<le> num" "256 \<le> num - 0" using num by simp_all
  from rw_loop_too_many [OF d1(1) chain_drop [OF ch off, unfolded dk] num1 d, of off] show ?thesis
    unfolding d1(3) by auto
qed

end

end
