(* ===== verification/Fat32_Correctness.thy ===== *)
theory Fat32_Correctness imports Fat32_Transfers begin

text \<open>
  The promises of the FAT32 device over any block device, and where the code falls short of them.
\<close>

section \<open>A small volume\<close>

text \<open>
  A device in memory of eight sectors: boot sector, one sector of table and its copy, five clusters of
  one sector.  The chain of slot 2 is 2, 3, 5; slots 4 and 6 are free.
\<close>

definition fat_sample :: "nat list" where
  "fat_sample = [0x0FFFFFF8, 0x0FFFFFFF, 3, 5, 0, 0x0FFFFFFF, 0]"

definition fat_sector_sample :: bytes where
  "fat_sector_sample = concat (map (le_bytes 4) fat_sample) @ replicate 484 0"

definition volume_sample :: "bytes list" where
  "volume_sample = [replicate 512 0, fat_sector_sample, fat_sector_sample] @ map (\<lambda>i. replicate 512 i) [1, 2, 3, 4, 5]"

definition fat_disk_sample :: mbd where
  "fat_disk_sample = \<lparr>mbd_sector_size = 512, mbd_num_sectors = 8, mbd_mem = concat volume_sample\<rparr>"

definition fat_dev_sample :: "mbd fat32_device" where
  "fat_dev_sample = \<lparr>fd_bd = fat_disk_sample, fd_bd_offset = 0, fd_num_sectors = 8, fd_fat_offset = 1, fd_num_fats = 2,
     fd_sectors_per_fat = 1, fd_data_section_offset = 3, fd_sectors_per_cluster = 1, fd_num_fat_slots = 7,
     fd_root_dir_cluster = 2, fd_r = 7, fd_free_q = replicate 128 0, fd_free_q_fill = 0\<rparr>"

lemma cells_concat: "\<forall>s\<in>set secs. length s = k \<Longrightarrow> cells k (length secs) (concat secs) = secs"
proof (induction secs)
  case (Cons s secs)
  have "cells k (1 + length secs) (s @ concat secs) = cells k 1 (s @ concat secs) @ cells k (length secs) (concat secs)"
    using Cons.prems by (simp only: cells_add) simp
  moreover have "cells k 1 (s @ concat secs) = [s]" using Cons.prems by (simp add: cells_def)
  ultimately show ?case using Cons by simp
qed (simp add: cells_def)

lemma concat_cells: "concat (cells cs n d) = take (cs * n) d"
proof (induction n)
  case (Suc n)
  have "cells cs (n + 1) d = cells cs n d @ cells cs 1 (drop (cs * n) d)" by (rule cells_add)
  moreover have "cells cs 1 (drop (cs * n) d) = [take cs (drop (cs * n) d)]" by (simp add: cells_def)
  moreover have "take (cs * Suc n) d = take (cs * n) d @ take cs (drop (cs * n) d)"
    using take_add [of "cs * n" cs d] by (simp add: add.commute)
  ultimately show ?case using Suc by simp
qed (simp add: cells_def)

lemma fat_sector_sample_length: "length fat_sector_sample = 512"
  by (simp add: fat_sector_sample_def fat_sample_def)

lemma volume_sample_sectors: "\<forall>s\<in>set volume_sample. length s = 512" "length volume_sample = 8"
  by (simp_all add: volume_sample_def fat_sector_sample_length)

lemma fat_disk_sample_inv: "mbd_inv fat_disk_sample volume_sample"
proof -
  have "length (concat volume_sample) = 8 * 512"
    using length_concat_const [OF volume_sample_sectors(1)] volume_sample_sectors(2) by simp
  moreover have "cells 512 8 (concat volume_sample) = volume_sample"
    using cells_concat [OF volume_sample_sectors(1)] volume_sample_sectors(2) by simp
  ultimately show ?thesis by (simp add: mbd_inv_def fat_disk_sample_def)
qed

lemma slot_of_table:
  assumes "\<forall>v\<in>set f. v < 2 ^ 28" and "i < length f" and "length f \<le> 128"
  shows "slot_of [concat (map (le_bytes 4) f) @ rest] i = f ! i"
proof -
  have c: "cells 4 (length f) (concat (map (le_bytes 4) f)) = map (le_bytes 4) f"
    using cells_concat [of "map (le_bytes 4) f" 4] by simp
  have "cells 4 (length f) (concat (map (le_bytes 4) f)) ! i = take 4 (drop (4 * i) (concat (map (le_bytes 4) f)))"
    using assms(2) by (simp add: cells_def)
  then have t: "take 4 (drop (4 * i) (concat (map (le_bytes 4) f))) = le_bytes 4 (f ! i)" using c assms(2) by simp
  have "length (concat (map (le_bytes 4) f)) = length f * 4"
    using length_concat_const [of "map (le_bytes 4) f" 4] by simp
  then have "take 4 (drop (i * 4) (concat (map (le_bytes 4) f) @ rest)) = le_bytes 4 (f ! i)"
    using t assms(2) by (simp add: mult.commute)
  moreover have "f ! i < 2 ^ 28" using assms(1,2) by simp
  ultimately show ?thesis using assms(2,3) by (simp add: slot_of_def le_num_le_bytes fat_mask)
qed

lemma fat_view_sample: "fat_view 7 [fat_sector_sample] = fat_sample"
proof -
  have "\<forall>v\<in>set fat_sample. v < 2 ^ 28" "length fat_sample = 7" by (simp_all add: fat_sample_def)
  then show ?thesis
    by (intro nth_equalityI) (simp_all add: slot_of_table [of fat_sample, folded fat_sector_sample_def] fat_sector_sample_def slot_of_table)
qed

lemma fat_dev_sample_state:
  "fat32_state MBD_IMPL mbd_inv fat_dev_sample [replicate 512 0] fat_sample (fat_sector_sample # map (\<lambda>i. replicate 512 i) [1, 2, 3, 4, 5])"
proof -
  have "mbd_inv fat_disk_sample ([replicate 512 0] @ [fat_sector_sample] @ fat_sector_sample # map (\<lambda>i. replicate 512 i) [1, 2, 3, 4, 5])"
    using fat_disk_sample_inv by (simp add: volume_sample_def)
  moreover have "fat32_geometry fat_dev_sample (length [replicate 512 (0 :: 8 word)]) (length (fat_sector_sample # map (\<lambda>i. replicate 512 i) [1, 2, 3, 4, 5]))"
    by (simp add: fat32_geometry_def fat_dev_sample_def)
  moreover have "bdi_sector_size MBD_IMPL (fd_bd fat_dev_sample) = 512"
    by (simp add: MBD_IMPL_def fat_dev_sample_def fat_disk_sample_def)
  ultimately show ?thesis unfolding fat32_state_def
    by (intro conjI exI [of _ "[fat_sector_sample]"]) (simp_all add: fat_dev_sample_def fat_view_sample)
qed

lemma fat_sample_chain: "chain fat_sample 2 [2, 3, 5]"
  by (simp add: fat_sample_def FAT32_IS_EOC_def)

lemma fat_sample_alloc: "fat_alloc_ok fat_dev_sample fat_sample"
  by (simp add: fat_alloc_ok_def queue_ok_def fat_dev_sample_def)

section \<open>Promises\<close>

text \<open>C24. Freeing a chain returns for every content of the table, circular chains and stray slot numbers included.
  A proper chain is freed, all of it and nothing else; otherwise the call reports FOS_E_STATE_MISMATCH, having
  cleared some of the slots it met.  Nothing but the first table changes.\<close>

theorem fat32_free_chain_spec:
  assumes "block_device I wi" and "fat32_state I wi dev pre f post" and "2 \<le> i" and "i < length f"
  shows "\<exists>e dev' f'. fat32_free_chain I dev i = Some (e, dev') \<and> fat32_state I wi dev' pre f' post \<and> only_bd dev dev'
    \<and> (if \<exists>xs. chain f i xs then e = FOS_E_SUCCESS \<and> (\<forall>xs. chain f i xs \<longrightarrow> f' = zero xs f)
       else e = FOS_E_STATE_MISMATCH \<and> (\<exists>xs. f' = zero xs f))"
proof -
  obtain e d f' where "fat32_free_chain I dev i = Some (e, d)" "fat32_state I wi d pre f' post" "only_bd dev d" "freed f i e f'"
    using block_device.free_chain [OF assms] by (elim exE conjE) rule
  then show ?thesis unfolding freed_def by (intro exI conjI) (assumption | simp split: if_splits)+
qed

theorem fat32_free_chain_spec_witness:
  "\<exists>e dev' f'. fat32_free_chain MBD_IMPL fat_dev_sample 2 = Some (e, dev') \<and> e = FOS_E_SUCCESS \<and> f' = zero [2, 3, 5] fat_sample
    \<and> fat32_state MBD_IMPL mbd_inv dev' [replicate 512 0] f' (fat_sector_sample # map (\<lambda>i. replicate 512 i) [1, 2, 3, 4, 5])"
proof -
  have r: "2 \<le> (2 :: nat)" "2 < length fat_sample" by (simp_all add: fat_sample_def)
  have ex: "\<exists>xs. chain fat_sample 2 xs" using fat_sample_chain by blast
  show ?thesis
    using fat32_free_chain_spec [OF mbd.block_device_axioms fat_dev_sample_state r, unfolded if_P [OF ex]] fat_sample_chain by blast
qed

text \<open>C26. A new chain of a given length consists of slots that were free, and no other slot changes; or the answer is
  FOS_E_NO_SPACE and the table is as before, which happens only if fewer free slots than that were queued (the
  search that refills the queue looks at five sectors of the table, drawn at random, so that it may find
  nothing on a volume that has space, where \<^verbatim>\<open>fat32.h\<close> speaks of running out of disk space).  The queue holds only
  free slots afterwards.  (The volume begins at sector 0 of its device.)\<close>

theorem fat32_new_chain_spec:
  assumes "block_device I wi" and "fat32_state I wi dev pre f post" and "fat_alloc_ok dev f" and "length junk = 512" and "0 < len"
  shows "\<exists>dev' f'. fat32_state I wi dev' pre f' post \<and> fat_alloc_ok dev' f' \<and> geom dev' = geom dev
    \<and> (fat32_new_chain I junk dev len True = Some (FOS_E_NO_SPACE, None, dev') \<and> f' = f \<and> fd_free_q_fill dev < len
      \<or> (\<exists>k ys. fat32_new_chain I junk dev len True = Some (FOS_E_SUCCESS, Some k, dev')
          \<and> chain f' k (k # ys) \<and> length (k # ys) = len \<and> (\<forall>y\<in>set (k # ys). f ! y = 0)
          \<and> (\<forall>j<length f. j \<notin> set (k # ys) \<longrightarrow> f' ! j = f ! j)))"
  by (rule block_device.new_chain [OF assms])

text \<open>The volume of the examples with both of its free slots in the queue.\<close>

definition queued_dev :: "mbd fat32_device" where
  "queued_dev = fat_dev_sample\<lparr>fd_free_q := [4, 6] @ replicate 126 0, fd_free_q_fill := 2\<rparr>"

theorem fat32_new_chain_spec_witness:
  "\<exists>dev' f' k y. fat32_new_chain MBD_IMPL (replicate 512 0) queued_dev 2 True = Some (FOS_E_SUCCESS, Some k, dev')
    \<and> fat_alloc_ok dev' f' \<and> chain f' k [k, y] \<and> (\<forall>j<7. fat_sample ! j \<noteq> 0 \<longrightarrow> f' ! j = fat_sample ! j)"
proof -
  have st: "fat32_state MBD_IMPL mbd_inv queued_dev [replicate 512 0] fat_sample (fat_sector_sample # map (\<lambda>i. replicate 512 i) [1, 2, 3, 4, 5])"
    unfolding queued_dev_def by (simp only: state_other_fields fat_dev_sample_state)
  have al: "fat_alloc_ok queued_dev fat_sample"
    by (simp add: fat_alloc_ok_def queue_ok_def queued_dev_def fat_dev_sample_def) (simp add: fat_sample_def)
  have r: "length (replicate 512 (0 :: 8 word)) = 512" "0 < (2 :: nat)" and l: "length fat_sample = 7"
    and q: "\<not> fd_free_q_fill queued_dev < 2" by (simp_all add: fat_sample_def queued_dev_def)
  obtain dev' f' k ys where d: "fat_alloc_ok dev' f'"
    "fat32_new_chain MBD_IMPL (replicate 512 0) queued_dev 2 True = Some (FOS_E_SUCCESS, Some k, dev')"
    "chain f' k (k # ys)" "length (k # ys) = 2" "\<forall>y\<in>set (k # ys). fat_sample ! y = 0"
    "\<forall>j<length fat_sample. j \<notin> set (k # ys) \<longrightarrow> f' ! j = fat_sample ! j"
    using fat32_new_chain_spec [OF mbd.block_device_axioms st al r] q by (elim exE conjE disjE) (blast+)
  from d(4) obtain y where y: "ys = [y]" by (auto simp: length_Suc_conv)
  have "\<forall>j<7. fat_sample ! j \<noteq> 0 \<longrightarrow> f' ! j = fat_sample ! j" using d(5,6) l by auto
  then show ?thesis using d(1-3) unfolding y by blast
qed

text \<open>C25. Resizing a chain to no slots frees it; to fewer slots keeps the first ones and frees the others; to more
  slots appends slots that were free, or changes nothing and reports FOS_E_NO_SPACE, which happens only if fewer
  free slots than were missing were queued.\<close>

theorem fat32_resize_chain_spec:
  assumes "block_device I wi" and "fat32_state I wi dev pre f post" and "fat_alloc_ok dev f" and "length junk = 512"
    and "chain f i xs" and "i < length f" and "n < 2 ^ 32"
  shows "\<exists>e dev' f'. fat32_resize_chain I junk dev i n = Some (e, dev') \<and> fat32_state I wi dev' pre f' post
    \<and> fat_alloc_ok dev' f' \<and> geom dev' = geom dev
    \<and> (if n \<le> length xs then e = FOS_E_SUCCESS \<and> (n \<noteq> 0 \<longrightarrow> chain f' i (take n xs))
         \<and> (\<forall>x\<in>set (drop n xs). f' ! x = 0) \<and> (\<forall>j<length f. j \<notin> set xs \<longrightarrow> f' ! j = f ! j)
       else e = FOS_E_NO_SPACE \<and> f' = f \<and> fd_free_q_fill dev < n - length xs
         \<or> e = FOS_E_SUCCESS \<and> (\<exists>ys. chain f' i (xs @ ys) \<and> length (xs @ ys) = n
             \<and> (\<forall>y\<in>set ys. f ! y = 0) \<and> (\<forall>j<length f. j \<notin> set (xs @ ys) \<longrightarrow> f' ! j = f ! j)))"
  using block_device.resize_chain [OF assms] unfolding resized_def .

theorem fat32_resize_chain_spec_witness:
  "\<exists>e dev' f'. fat32_resize_chain MBD_IMPL (replicate 512 0) fat_dev_sample 2 1 = Some (e, dev') \<and> e = FOS_E_SUCCESS
    \<and> fat_alloc_ok dev' f' \<and> chain f' 2 [2] \<and> f' ! 3 = 0 \<and> f' ! 5 = 0"
proof -
  have r: "length (replicate 512 (0 :: 8 word)) = 512" "2 < length fat_sample" "(1 :: nat) < 2 ^ 32" by (simp_all add: fat_sample_def)
  have n: "1 \<le> length [2 :: nat, 3, 5]" "(1 :: nat) \<noteq> 0" "take 1 [2 :: nat, 3, 5] = [2]" "drop 1 [2 :: nat, 3, 5] = [3, 5]" by simp_all
  show ?thesis
    using fat32_resize_chain_spec [OF mbd.block_device_axioms fat_dev_sample_state fat_sample_alloc r(1) fat_sample_chain r(2,3),
      unfolded if_P [OF n(1)] n(3,4)] n(2) by (elim exE conjE) (intro exI conjI; (assumption | auto))
qed

text \<open>C23. What is written to a range of less than 256 sectors of a chain is what is read back from it.  The write
  changes neither the tables nor the clusters of any other chain.\<close>

theorem fat32_write_read:
  assumes "block_device I wi" and "fat32_state I wi dev pre f post" and "chain f i xs" and "i < length f"
    and "off + num \<le> length xs * fd_sectors_per_cluster dev" and "0 < num" and "num < 256"
    and "length d = num * 512" and "length d2 = num * 512"
  shows "\<exists>dev1 post1 dev2. fat32_read_write I dev i off num (Some d) True = Some (FOS_E_SUCCESS, Some d, dev1)
    \<and> fat32_state I wi dev1 pre f post1
    \<and> (\<forall>c. 2 \<le> c \<longrightarrow> c \<notin> set xs \<longrightarrow> cluster dev1 post1 c = cluster dev post c)
    \<and> take ((fd_num_fats dev - 1) * fd_sectors_per_fat dev) post1 = take ((fd_num_fats dev - 1) * fd_sectors_per_fat dev) post
    \<and> fat32_read_write I dev1 i off num (Some d2) False = Some (FOS_E_SUCCESS, Some d, dev2)"
proof -
  have b: "num * 512 \<le> length d" "length d < 2 ^ 32" "num * 512 \<le> length d2" "length d2 < 2 ^ 32" using assms(7-9) by simp_all
  obtain dev1 post1 where w: "fat32_read_write I dev i off num (Some d) True = Some (FOS_E_SUCCESS, Some d, dev1)"
    "fat32_state I wi dev1 pre f post1" "only_bd dev dev1" "written dev xs off (cells 512 num d) post post1"
    using block_device.write_chain [OF assms(1-7) b(1,2)] by (elim exE conjE) rule
  have rng: "off + num \<le> length xs * fd_sectors_per_cluster dev1" using assms(5) by (simp add: only_bdD(6) [OF w(3)])
  obtain dev2 where r: "fat32_read_write I dev1 i off num (Some d2) False =
      Some (FOS_E_SUCCESS, Some (concat (take num (drop off (file_sectors dev1 post1 xs))) @ drop (num * 512) d2), dev2)"
    using block_device.read_chain [OF assms(1) w(2) assms(3,4) rng assms(6,7) b(3,4)] by (elim exE conjE) rule
  have "take num (drop off (file_sectors dev1 post1 xs)) = cells 512 num d"
    using w(4) length_file_sectors [OF assms(2,3)] assms(5) by (simp add: only_bd_layout(2) [OF w(3)] written_def put_def)
  moreover have "concat (cells 512 num d) = d" using concat_cells [of 512 num d] assms(8) by (simp add: mult.commute)
  moreover have "drop (num * 512) d2 = []" using assms(9) by simp
  ultimately have "fat32_read_write I dev1 i off num (Some d2) False = Some (FOS_E_SUCCESS, Some d, dev2)" using r by simp
  moreover have "\<forall>c. 2 \<le> c \<longrightarrow> c \<notin> set xs \<longrightarrow> cluster dev1 post1 c = cluster dev post c"
    "take ((fd_num_fats dev - 1) * fd_sectors_per_fat dev) post1 = take ((fd_num_fats dev - 1) * fd_sectors_per_fat dev) post"
    using w(4) unfolding written_def only_bd_layout(1) [OF w(3)] by blast+
  ultimately show ?thesis using w(1,2) by (intro exI conjI)
qed

theorem fat32_write_read_witness:
  "\<exists>dev1 dev2. fat32_read_write MBD_IMPL fat_dev_sample 2 1 2 (Some (replicate 1024 9)) True = Some (FOS_E_SUCCESS, Some (replicate 1024 9), dev1)
    \<and> fat32_read_write MBD_IMPL dev1 2 1 2 (Some (replicate 1024 0)) False = Some (FOS_E_SUCCESS, Some (replicate 1024 9), dev2)"
proof -
  have r: "2 < length fat_sample" "1 + 2 \<le> length [2 :: nat, 3, 5] * fd_sectors_per_cluster fat_dev_sample"
    "length (replicate 1024 (9 :: 8 word)) = 2 * 512" "length (replicate 1024 (0 :: 8 word)) = 2 * 512"
    by (simp_all add: fat_sample_def fat_dev_sample_def)
  have n: "0 < (2 :: nat)" "(2 :: nat) < 256" by simp_all
  from fat32_write_read [OF mbd.block_device_axioms fat_dev_sample_state fat_sample_chain r(1,2) n r(3,4)] show ?thesis by blast
qed

text \<open>C27. A read of 256 sectors or more is refused with FOS_E_INVALID_RANGE however long the chain is: the sectors
  left to do are counted in eight bits.\<close>

theorem fat32_read_256_fails:
  assumes "block_device I wi" and "fat32_state I wi dev pre f post" and "chain f i xs" and "i < length f"
    and "off div fd_sectors_per_cluster dev < length xs" and "256 \<le> num" and "num * 512 \<le> length d" and "length d < 2 ^ 32"
  shows "\<exists>d' dev'. fat32_read_write I dev i off num (Some d) False = Some (FOS_E_INVALID_RANGE, Some d', dev')"
  by (rule block_device.read_too_many [OF assms])

theorem fat32_read_256_fails_witness:
  "\<exists>d' dev'. fat32_read_write MBD_IMPL fat_dev_sample 2 0 256 (Some (replicate 131072 0)) False = Some (FOS_E_INVALID_RANGE, Some d', dev')"
proof -
  have r: "2 < length fat_sample" "0 div fd_sectors_per_cluster fat_dev_sample < length [2 :: nat, 3, 5]" "256 \<le> (256 :: nat)"
    "256 * 512 \<le> length (replicate 131072 (0 :: 8 word))" "length (replicate 131072 (0 :: 8 word)) < 2 ^ 32"
    by (simp_all add: fat_sample_def)
  show ?thesis by (rule fat32_read_256_fails [OF mbd.block_device_axioms fat_dev_sample_state fat_sample_chain r])
qed

section \<open>The queue of free slots and the start of the volume\<close>

lemma le_num_zeros [simp]: "le_num (replicate n 0) = 0"
  by (induction n) simp_all

lemma zero_sector_slots: "k < 128 \<Longrightarrow> map le_num (cells 4 128 (replicate 512 0)) ! k AND FAT32_MASK = 0"
  by (simp add: cells_def)

context block_device begin

lemma pop_at_wrong_place:
  assumes st: "fat32_state I inv dev pre f post" and spf: "fd_sectors_per_fat dev = 1" and n: "2 < length f"
    and q: "fd_free_q_fill dev = 0" "length (fd_free_q dev) = 128" and junk: "length junk = 512"
    and z: "fd_fat_offset dev < length pre" "pre ! fd_fat_offset dev = replicate 512 0"
  shows "\<exists>dev'. fat32_pop_free_fat_slot I junk dev True = Some (FOS_E_SUCCESS, Some (length f - 1), dev')
    \<and> fat32_state I inv dev' pre (f[length f - 1 := FAT32_EOC]) post"
proof -
  obtain fs where g: "fat32_geometry dev (length pre) (length post)" "bdi_sector_size I (fd_bd dev) = 512"
    "inv (fd_bd dev) (pre @ fs @ post)" "length fs = fd_sectors_per_fat dev" "f = fat_view (fd_num_fat_slots dev) fs"
    using fat32_stateE [OF st] by blast
  let ?N = "fd_num_fat_slots dev"
  have N: "length f = ?N" "?N \<le> 128" "2 < ?N" using g(1) spf n state_length [OF st] by (simp_all add: fat32_geometry_def)
  obtain x r where x: "next_rand_u32 (fd_r dev) = (x, r)" by (cases "next_rand_u32 (fd_r dev)")
  have "length (pre @ fs @ post) < 2 ^ 32" using geometry [OF g(3)] by blast
  then have sec: "(fd_fat_offset dev + 0) mod 2 ^ 32 = fd_fat_offset dev" using z(1) by simp
  have "fd_fat_offset dev < length (pre @ fs @ post)" using z(1) by simp
  from read_one [OF g(3) this, of junk] junk g(2)
  obtain b where b: "bdi_read I (fd_bd dev) (fd_fat_offset dev) 1 (Some junk) = Some (FOS_E_SUCCESS, Some (replicate 512 0), b)"
    "inv b (pre @ fs @ post)" "bdi_sector_size I b = 512"
    using z by (auto simp: nth_append)
  let ?d = "dev\<lparr>fd_r := r, fd_bd := b\<rparr>" let ?sec = "map le_num (cells 4 128 (replicate 512 0))"
  have st': "fat32_state I inv ?d pre f post"
    unfolding fat32_state_def using g b(2,3) by (auto simp: fat32_geometry_def)
  have stop: "(if (0 :: nat) = fd_sectors_per_fat dev - 1 \<and> 0 < ?N mod 128 then ?N mod 128 else 128) = ?N"
    using N(2,3) spf by (cases "?N = 128") simp_all
  have "filter (\<lambda>k. ?sec ! k AND FAT32_MASK = 0) [2..<?N] = [2..<?N]"
    using zero_sector_slots N(2) by (intro filter_True) simp
  moreover have "2 + (?N - 2) = ?N" using N(3) by simp
  ultimately obtain fq where fq: "fat32_scan_loop (?N - 2) 2 0 ?sec ?d = Some (?d\<lparr>fd_free_q := fq, fd_free_q_fill := ?N - 2\<rparr>)"
    "length fq = 128" "take (?N - 2) fq = map (\<lambda>k. 0 * 128 + k) [2..<?N]"
    using scan_loop [of 2 "?N - 2" ?sec ?d 0] q N(2) by (auto simp del: upt_Suc)
  let ?d2 = "?d\<lparr>fd_free_q := fq, fd_free_q_fill := ?N - 2\<rparr>"
  have pop1: "fat32_populate_loop I (Suc m) junk dev = fat32_populate_loop I m (replicate 512 0) ?d2" for m
    using q(1) x spf sec b(1) fq(1) stop by (simp add: Let_def)
  have "fat32_populate_loop I 5 junk dev = Some (FOS_E_SUCCESS, ?d2)"
    using pop1 [of 4] N(3) by (simp add: numeral_eq_Suc)
  then have pop: "fat32_populate_free_queue I junk dev = Some (FOS_E_SUCCESS, ?d2)"
    using q(1) N(3) by (simp add: fat32_populate_free_queue_def)
  have "fq ! (?N - 3) = take (?N - 2) fq ! (?N - 3)" using N(3) by simp
  also have "\<dots> = ?N - 1" unfolding fq(3) using N(3) by simp
  finally have k: "fq ! (?N - 3) = ?N - 1" .
  let ?d3 = "?d2\<lparr>fd_free_q_fill := ?N - 3\<rparr>"
  have st3: "fat32_state I inv ?d3 pre f post" using st' by (simp add: state_other_fields)
  have kb: "?N - 1 < length f" using N(1,3) by simp
  obtain d4 where d4: "fat32_set_fat_slot I ?d3 (?N - 1) FAT32_EOC = Some (FOS_E_SUCCESS, d4)"
    "fat32_state I inv d4 pre (f[?N - 1 := FAT32_EOC]) post"
    using set_slot [OF st3 kb eoc_small] by (elim exE conjE) rule
  have "fat32_pop_free_fat_slot I junk dev True = Some (FOS_E_SUCCESS, Some (?N - 1), d4)"
    using q(1) pop k d4(1) N(2,3) fq(2) by (simp add: fat32_pop_free_fat_slot_def Let_def numeral_3_eq_3)
  then show ?thesis using d4(2) unfolding N(1) by (intro exI conjI)
qed

end

text \<open>C28. When a volume does not begin at sector 0 of its device, the queue of free slots is filled from the sector
  that has the table's number on the device instead of in the volume.  If that sector is blank, the
  last slot of the table is handed out as free and overwritten although it is in use.\<close>

theorem fat32_free_slot_in_use:
  assumes "block_device I wi" and "fat32_state I wi dev pre f post" and "fd_sectors_per_fat dev = 1" and "2 < length f"
    and "fd_free_q_fill dev = 0" and "length (fd_free_q dev) = 128" and "length junk = 512"
    and "fd_fat_offset dev < length pre" and "pre ! fd_fat_offset dev = replicate 512 0" and "f ! (length f - 1) \<noteq> 0"
  shows "\<exists>k dev'. fat32_pop_free_fat_slot I junk dev True = Some (FOS_E_SUCCESS, Some k, dev') \<and> k < length f \<and> f ! k \<noteq> 0
    \<and> fat32_state I wi dev' pre (f[k := FAT32_EOC]) post"
  using block_device.pop_at_wrong_place [OF assms(1-9)] assms(4,10) by (intro exI [of _ "length f - 1"]) auto

text \<open>The volume of the examples behind two blank sectors, with one chain of every cluster but the first.\<close>

definition fat_shifted :: "nat list" where
  "fat_shifted = [0x0FFFFFF8, 0x0FFFFFFF, 3, 4, 5, 6, 0x0FFFFFFF]"

definition shifted_volume :: "bytes list" where
  "shifted_volume = replicate 3 (replicate 512 0) @ [concat (map (le_bytes 4) fat_shifted) @ replicate 484 0]
     @ replicate 6 (replicate 512 0)"

definition shifted_disk :: mbd where
  "shifted_disk = \<lparr>mbd_sector_size = 512, mbd_num_sectors = 10, mbd_mem = concat shifted_volume\<rparr>"

definition shifted_dev :: "mbd fat32_device" where
  "shifted_dev = fat_dev_sample\<lparr>fd_bd := shifted_disk, fd_bd_offset := 2\<rparr>"

lemma shifted_dev_state:
  "fat32_state MBD_IMPL mbd_inv shifted_dev (replicate 3 (replicate 512 0)) fat_shifted (replicate 6 (replicate 512 0))"
proof -
  let ?s = "concat (map (le_bytes 4) fat_shifted) @ replicate 484 0 :: bytes"
  have sl: "length ?s = 512" by (simp add: fat_shifted_def)
  have v: "\<forall>s\<in>set shifted_volume. length s = 512" "length shifted_volume = 10"
    using sl by (auto simp: shifted_volume_def)
  have "length (concat shifted_volume) = 10 * 512" using length_concat_const [OF v(1)] v(2) by simp
  moreover have "cells 512 10 (concat shifted_volume) = shifted_volume" using cells_concat [OF v(1)] v(2) by simp
  ultimately have inv: "mbd_inv shifted_disk (replicate 3 (replicate 512 0) @ [?s] @ replicate 6 (replicate 512 0))"
    by (simp add: mbd_inv_def shifted_disk_def shifted_volume_def)
  have "\<forall>v\<in>set fat_shifted. v < 2 ^ 28" "length fat_shifted = 7" by (simp_all add: fat_shifted_def)
  then have "fat_view 7 [?s] = fat_shifted" by (intro nth_equalityI) (simp_all add: slot_of_table)
  moreover have "fat32_geometry shifted_dev (length (replicate 3 (replicate 512 (0 :: 8 word)))) (length (replicate 6 (replicate 512 (0 :: 8 word))))"
    by (simp add: fat32_geometry_def shifted_dev_def fat_dev_sample_def)
  ultimately show ?thesis using inv unfolding fat32_state_def
    by (intro conjI exI [of _ "[?s]"]) (simp_all add: shifted_dev_def fat_dev_sample_def MBD_IMPL_def shifted_disk_def)
qed

theorem fat32_free_slot_in_use_witness:
  "\<exists>k dev'. fat32_pop_free_fat_slot MBD_IMPL (replicate 512 0) shifted_dev True = Some (FOS_E_SUCCESS, Some k, dev')
    \<and> k < 7 \<and> fat_shifted ! k \<noteq> 0"
proof -
  have d: "fd_sectors_per_fat shifted_dev = 1" "2 < length fat_shifted" "fd_free_q_fill shifted_dev = 0" "length (fd_free_q shifted_dev) = 128"
    "length (replicate 512 (0 :: 8 word)) = 512" "fd_fat_offset shifted_dev < length (replicate 3 (replicate 512 (0 :: 8 word)))"
    "replicate 3 (replicate 512 (0 :: 8 word)) ! fd_fat_offset shifted_dev = replicate 512 0" "fat_shifted ! (length fat_shifted - 1) \<noteq> 0"
    "length fat_shifted = 7"
    by (simp_all add: shifted_dev_def fat_dev_sample_def fat_shifted_def)
  show ?thesis
    using fat32_free_slot_in_use [OF mbd.block_device_axioms shifted_dev_state d(1-8)] unfolding d(9) by blast
qed

section \<open>The size of the table\<close>

lemma round_up_least:
  assumes "0 < (c :: nat)" and "q = (if a mod c = 0 then a div c else a div c + 1)"
  shows "a \<le> q * c" and "n < q \<Longrightarrow> n * c < a" and "a + c * of_bool (a mod c \<noteq> 0) = q * c + a mod c"
proof -
  obtain x where x: "x = a div c * c" by simp
  have d: "x + a mod c = a" unfolding x by (rule div_mult_mod_eq)
  have m: "a mod c < c" using assms(1) by simp
  have q: "q * c = x + c * of_bool (a mod c \<noteq> 0)" using assms(2) by (simp add: x add_mult_distrib)
  show "a \<le> q * c" unfolding q using d m by (cases "a mod c = 0") simp_all
  show "a + c * of_bool (a mod c \<noteq> 0) = q * c + a mod c" unfolding q using d by simp
  assume n: "n < q"
  show "n * c < a"
  proof (cases "a mod c = 0")
    case True
    then have "n < a div c" using n assms(2) by simp
    then have "n * c < x" unfolding x using assms(1) by simp
    then show ?thesis using d True by linarith
  next
    case False
    then have "n \<le> a div c" using n assms(2) by simp
    then have "n * c \<le> x" unfolding x by simp
    then show ?thesis using d False by linarith
  qed
qed

lemma div_at_least: "0 < (s :: nat) \<Longrightarrow> m \<le> x div s \<longleftrightarrow> m * s \<le> x"
  by (simp add: less_eq_div_iff_mult_less_eq)

text \<open>C29. The computed size is the least number of sectors per table with which the tables and the clusters they
  have slots for cover the volume, so that every cluster of the data section has a slot of its own.  But the
  first two slots of a table belong to no cluster, and the table is too short for the clusters and these two
  exactly when the volume divides evenly into tables and clusters or what it lacks to the next even division is
  no more than one cluster; when it divides evenly both slots are missing.\<close>

theorem compute_sectors_per_fat_bounds:
  assumes "reserved \<le> sectors" and "sectors < 2 ^ 32" and "0 < spc" and "spc \<le> 128" and "1 \<le> copies" and "copies < 256"
    and "512 \<le> bps" and "bps < 2 ^ 16"
    and "spf = compute_sectors_per_fat sectors bps reserved copies spc"
    and "slots = bps div 4 * spf" and "clusters = (sectors - reserved - copies * spf) div spc"
    and "rest = (sectors - reserved) mod (copies + bps div 4 * spc)"
  shows "sectors - reserved \<le> copies * spf + slots * spc
    \<and> (\<forall>n < spf. copies * n + bps div 4 * n * spc < sectors - reserved)
    \<and> clusters \<le> slots
    \<and> (slots < clusters + 2 \<longleftrightarrow> rest = 0 \<or> copies + bps div 4 * spc \<le> rest + spc)
    \<and> (rest = 0 \<longrightarrow> clusters = slots)"
proof -
  let ?a = "sectors - reserved" and ?e = "bps div 4" let ?c = "copies + ?e * spc"
  have e: "128 \<le> ?e" "?e < 2 ^ 14" using assms(7,8) by auto
  have "?e * spc < 2 ^ 14 * 2 ^ 8" using e assms(4) by (intro mult_strict_mono) auto
  then have c: "?c mod 2 ^ 32 = ?c" "0 < ?c" using assms(5,6) by simp_all
  have spf: "spf = (if ?a mod ?c = 0 then ?a div ?c else ?a div ?c + 1)"
    using assms(1,9) c(1) by (simp add: compute_sectors_per_fat_def Let_def)
  note r = round_up_least [OF c(2) spf]
  have mult: "n * ?c = copies * n + ?e * n * spc" for n by (simp add: algebra_simps)
  have cover: "?a \<le> copies * spf + slots * spc" using r(1) unfolding mult assms(10) .
  have least: "copies * n + ?e * n * spc < ?a" if "n < spf" for n using r(2) [OF that] unfolding mult .
  have "?a - copies * spf \<le> slots * spc" using cover by simp
  then have "clusters \<le> slots" unfolding assms(11) using assms(3) by (metis div_le_mono nonzero_mult_div_cancel_right less_not_refl)
  moreover have full: "clusters = slots" if "rest = 0"
  proof -
    have "?a = copies * spf + slots * spc" using r(3) that assms(12) unfolding mult assms(10) by simp
    then show ?thesis using assms(3,11) by simp
  qed
  moreover have "slots < clusters + 2 \<longleftrightarrow> ?c \<le> rest + spc" if rest: "rest \<noteq> 0"
  proof -
    have "0 < spf" using rest assms(12) spf by simp
    then have big: "2 \<le> slots" using e(1) assms(10) by (cases spf) auto
    have "slots < clusters + 2 \<longleftrightarrow> slots - 1 \<le> clusters" using big by auto
    also have "\<dots> \<longleftrightarrow> (slots - 1) * spc \<le> ?a - copies * spf" unfolding assms(11) by (rule div_at_least [OF assms(3)])
    also have "\<dots> \<longleftrightarrow> slots * spc + copies * spf \<le> ?a + spc"
    proof -
      have "(slots - 1) * spc + spc = slots * spc" using big by (cases slots) auto
      moreover have "0 < (slots - 1) * spc" using big assms(3) by simp
      ultimately show ?thesis by linarith
    qed
    also have "\<dots> \<longleftrightarrow> ?c \<le> rest + spc" using r(3) rest assms(12) unfolding mult [of spf] assms(10) by simp linarith
    finally show ?thesis .
  qed
  ultimately show ?thesis using cover least by (cases "rest = 0") auto
qed

theorem compute_sectors_per_fat_bounds_witness:
  "compute_sectors_per_fat 292 512 32 2 1 = 2
    \<and> (292 - 32 - 2 * compute_sectors_per_fat 292 512 32 2 1) div 1 = 128 * compute_sectors_per_fat 292 512 32 2 1"
proof -
  have r: "32 \<le> (292 :: nat)" "292 < (2 :: nat) ^ 32" "0 < (1 :: nat)" "(1 :: nat) \<le> 128" "1 \<le> (2 :: nat)" "(2 :: nat) < 256"
    "512 \<le> (512 :: nat)" "512 < (2 :: nat) ^ 16" by simp_all
  have s: "compute_sectors_per_fat 292 512 32 2 1 = 2" by (simp add: compute_sectors_per_fat_def)
  from compute_sectors_per_fat_bounds [OF r refl refl refl refl] show ?thesis by (simp add: s s [unfolded One_nat_def])
qed

end
