(* ===== verification/Plugin_Futex.thy ===== *)
theory Plugin_Futex imports Actions Scheduling Hash_Map begin

text \<open>
  The futex plugin (\<^verbatim>\<open>k_startup/src/plugin_fut.c\<close>): for every process a hash map from the addresses of
  its futexes to wait queues in the kernel, the commands that register, wait on and wake a futex, and
  what happens when a process forks, is reset or is reaped.
\<close>

section \<open>The plugin\<close>

record plugin_fut =
  fut_maps :: "(32 word, addr option) chm option list"

text \<open>\<open>fe_from_user\<close> is \<^verbatim>\<open>mem_cpy_from_user\<close> for one word; the other fields say how allocation goes.\<close>

record 'm fut_env =
  fe_from_user :: "'m \<Rightarrow> 32 word \<Rightarrow> 32 word \<Rightarrow> fernos_error \<times> 32 word"
  fe_map_ok :: bool
  fe_tbl_ok :: bool
  fe_junk :: "addr option"

definition fm_key_eq :: "32 word \<Rightarrow> 32 word \<Rightarrow> bool" where
  "fm_key_eq k0 k1 \<longleftrightarrow> k0 = k1"

definition fm_key_hash :: "32 word \<Rightarrow> nat" where
  "fm_key_hash k = unat ((k + 1373) * 7 + 2)"

definition new_fut_map :: "'m fut_env \<Rightarrow> (32 word, addr option) chm option" where
  "new_fut_map F = new_chained_hash_map (fe_map_ok F) (fe_tbl_ok F) 4 4 3 (Some fm_key_eq) (Some fm_key_hash)"

fun new_fut_loop ::
  "'m fut_env \<Rightarrow> 'm kernel \<Rightarrow> nat \<Rightarrow> nat \<Rightarrow> (32 word, addr option) chm option list
   \<Rightarrow> (bool \<times> (32 word, addr option) chm option list) option"
where
  "new_fut_loop F K 0 pid maps = Some (True, maps)"
| "new_fut_loop F K (Suc n) pid maps = do {
     p \<leftarrow> idtb_get (k_proc_table K) pid;
     if p = None then new_fut_loop F K n (pid + 1) maps
     else case new_fut_map F of
         None \<Rightarrow> Some (False, maps)
       | Some m \<Rightarrow> do { maps \<leftarrow> arr_set maps pid (Some m); new_fut_loop F K n (pid + 1) maps } }"

definition new_plugin_fut :: "'m kenv \<Rightarrow> 'm fut_env \<Rightarrow> bool \<Rightarrow> 'm kernel \<Rightarrow> plugin_fut option option" where
  "new_plugin_fut E F ok K =
     (if \<not> ok then Some None
      else do {
        (done, maps) \<leftarrow> new_fut_loop F K (fc_max_procs E) 0 (replicate (fc_max_procs E) None);
        Some (if done then Some \<lparr>fut_maps = maps\<rparr> else None) })"

definition fut_ret ::
  "plugin_fut \<Rightarrow> 'm kernel \<Rightarrow> addr \<Rightarrow> fernos_error \<Rightarrow> (fernos_error \<times> plugin_fut \<times> 'm kernel) option"
where
  "fut_ret P K thr u_err = do { K \<leftarrow> set_eax K thr (err_word u_err); Some (FOS_E_SUCCESS, P, K) }"

section \<open>Waking\<close>

partial_function (option) fut_wake_loop :: "'m kernel \<Rightarrow> addr \<Rightarrow> 32 word \<Rightarrow> (fernos_error \<times> 'm kernel) option" where
  "fut_wake_loop K bwq status = do {
     w \<leftarrow> k_wqs K bwq;
     q \<leftarrow> basic_queue w;
     (err, woken_thread, q) \<leftarrow> bwq_pop LL_IMPL q;
     let K = set_wq bwq (WQ_basic q) K;
     if err \<noteq> FOS_E_SUCCESS then Some (err, K)
     else do {
       thr \<leftarrow> woken_thread;
       t \<leftarrow> k_threads K thr;
       let t = t\<lparr>th_wq := None, th_ctx := (th_ctx t)\<lparr>c_eax := status\<rparr>, th_state := THREAD_STATE_DETATCHED\<rparr>;
       K \<leftarrow> thread_schedule (set_thread thr t K) thr (k_schedule K);
       fut_wake_loop K bwq status } }"

text \<open>The loop of \<^verbatim>\<open>plg_fut_on_reset_proc\<close>, which leaves the threads detached.\<close>

partial_function (option) fut_detach_loop :: "'m kernel \<Rightarrow> addr \<Rightarrow> 32 word \<Rightarrow> (fernos_error \<times> 'm kernel) option" where
  "fut_detach_loop K bwq status = do {
     w \<leftarrow> k_wqs K bwq;
     q \<leftarrow> basic_queue w;
     (err, woken_thread, q) \<leftarrow> bwq_pop LL_IMPL q;
     let K = set_wq bwq (WQ_basic q) K;
     if err \<noteq> FOS_E_SUCCESS then Some (err, K)
     else do {
       thr \<leftarrow> woken_thread;
       t \<leftarrow> k_threads K thr;
       let t = t\<lparr>th_wq := None, th_ctx := (th_ctx t)\<lparr>c_eax := status\<rparr>, th_state := THREAD_STATE_DETATCHED\<rparr>;
       fut_detach_loop (set_thread thr t K) bwq status } }"

definition fut_notify :: "'m kenv \<Rightarrow> 'm kernel \<Rightarrow> addr \<Rightarrow> nat \<Rightarrow> (fernos_error \<times> 'm kernel) option" where
  "fut_notify E K bwq mode = do {
     w \<leftarrow> k_wqs K bwq;
     q \<leftarrow> basic_queue w;
     (err, q) \<leftarrow> bwq_notify LL_IMPL LL_IMPL (ke_al E) q mode;
     Some (err, set_wq bwq (WQ_basic q) K) }"

section \<open>Commands\<close>

definition fut_register ::
  "'m kenv \<Rightarrow> 'm fut_env \<Rightarrow> plugin_fut \<Rightarrow> 'm kernel \<Rightarrow> addr \<Rightarrow> process \<Rightarrow> (32 word, addr option) chm \<Rightarrow> 32 word
   \<Rightarrow> (fernos_error \<times> plugin_fut \<times> 'm kernel) option"
where
  "fut_register E F P K thr proc m u_fut =
     (if u_fut = 0 then fut_ret P K thr FOS_E_BAD_ARGS
      else do {
        old \<leftarrow> mp_get (CHM_IMPL (fe_junk F)) m (Some u_fut);
        if old \<noteq> None then fut_ret P K thr FOS_E_ALREADY_ALLOCATED
        else
          let (err, test) = fe_from_user F (k_mem K) (pr_pd proc) u_fut in
          if err \<noteq> FOS_E_SUCCESS then fut_ret P K thr FOS_E_INVALID_INDEX
          else
            let al = ke_al E; qa = al (dom (k_wqs K)) in
            case (qa, new_basic_wait_queue (qa \<noteq> None) (new_linked_list (Some al) 4) (new_linked_list (Some al) 4)) of
              (Some q, Some bwq) \<Rightarrow> do {
                (err, m') \<leftarrow> chm_put (fe_junk F) al (ke_mem E) m (Some u_fut) (Some (Some q));
                if err \<noteq> FOS_E_SUCCESS then do {
                  maps \<leftarrow> arr_set (fut_maps P) (pr_pid proc) (Some m');
                  fut_ret (P\<lparr>fut_maps := maps\<rparr>) K thr FOS_E_NO_MEM }
                else do {
                  maps \<leftarrow> arr_set (fut_maps P) (pr_pid proc) (Some m');
                  fut_ret (P\<lparr>fut_maps := maps\<rparr>) (set_wq q (WQ_basic bwq) K) thr FOS_E_SUCCESS } }
            | _ \<Rightarrow> fut_ret P K thr FOS_E_NO_MEM })"

definition fut_deregister ::
  "'m kenv \<Rightarrow> 'm fut_env \<Rightarrow> plugin_fut \<Rightarrow> 'm kernel \<Rightarrow> addr \<Rightarrow> process \<Rightarrow> (32 word, addr option) chm \<Rightarrow> 32 word
   \<Rightarrow> (fernos_error \<times> plugin_fut \<times> 'm kernel) option"
where
  "fut_deregister E F P K thr proc m u_fut =
     (if u_fut = 0 then Some (FOS_E_SUCCESS, P, K)
      else do {
        found \<leftarrow> mp_get (CHM_IMPL (fe_junk F)) m (Some u_fut);
        case found of
          None \<Rightarrow> Some (FOS_E_SUCCESS, P, K)
        | Some None \<Rightarrow> Some (FOS_E_STATE_MISMATCH, P, K)
        | Some (Some q) \<Rightarrow> do {
            (err, K) \<leftarrow> fut_notify E K q BWQ_NOTIFY_ALL;
            if err \<noteq> FOS_E_SUCCESS then Some (err, P, K)
            else do {
              (err, K) \<leftarrow> fut_wake_loop K q (err_word FOS_E_STATE_MISMATCH);
              if err \<noteq> FOS_E_EMPTY then Some (err, P, K)
              else do {
                (_, m) \<leftarrow> chm_remove m (Some u_fut);
                maps \<leftarrow> arr_set (fut_maps P) (pr_pid proc) (Some m);
                Some (FOS_E_SUCCESS, P\<lparr>fut_maps := maps\<rparr>, K\<lparr>k_wqs := (k_wqs K)(q := None)\<rparr>) } } } })"

definition fut_wait ::
  "'m kenv \<Rightarrow> 'm fut_env \<Rightarrow> plugin_fut \<Rightarrow> 'm kernel \<Rightarrow> addr \<Rightarrow> process \<Rightarrow> (32 word, addr option) chm \<Rightarrow> 32 word \<Rightarrow> 32 word
   \<Rightarrow> (fernos_error \<times> plugin_fut \<times> 'm kernel) option"
where
  "fut_wait E F P K thr proc m u_fut exp_val =
     (if u_fut = 0 then fut_ret P K thr FOS_E_INVALID_INDEX
      else do {
        found \<leftarrow> mp_get (CHM_IMPL (fe_junk F)) m (Some u_fut);
        case found of
          None \<Rightarrow> fut_ret P K thr FOS_E_INVALID_INDEX
        | Some None \<Rightarrow> Some (FOS_E_STATE_MISMATCH, P, K)
        | Some (Some bwq) \<Rightarrow>
            let (err, act_val) = fe_from_user F (k_mem K) (pr_pd proc) u_fut in
            if err \<noteq> FOS_E_SUCCESS then Some (err, P, K)
            else if act_val \<noteq> exp_val then fut_ret P K thr FOS_E_SUCCESS
            else do {
              w \<leftarrow> k_wqs K bwq;
              q \<leftarrow> basic_queue w;
              (err, q) \<leftarrow> bwq_enqueue LL_IMPL (ke_al E) q thr;
              let K = set_wq bwq (WQ_basic q) K;
              if err \<noteq> FOS_E_SUCCESS then fut_ret P K thr err
              else do {
                K \<leftarrow> thread_detach K thr;
                K \<leftarrow> upd_thread K thr (\<lambda>t. t\<lparr>th_wq := Some bwq, th_state := THREAD_STATE_WAITING\<rparr>);
                Some (FOS_E_SUCCESS, P, K) } } })"

definition fut_wake ::
  "'m kenv \<Rightarrow> 'm fut_env \<Rightarrow> plugin_fut \<Rightarrow> 'm kernel \<Rightarrow> addr \<Rightarrow> (32 word, addr option) chm \<Rightarrow> 32 word \<Rightarrow> bool
   \<Rightarrow> (fernos_error \<times> plugin_fut \<times> 'm kernel) option"
where
  "fut_wake E F P K thr m u_fut all =
     (if u_fut = 0 then fut_ret P K thr FOS_E_INVALID_INDEX
      else do {
        found \<leftarrow> mp_get (CHM_IMPL (fe_junk F)) m (Some u_fut);
        case found of
          None \<Rightarrow> fut_ret P K thr FOS_E_INVALID_INDEX
        | Some None \<Rightarrow> Some (FOS_E_STATE_MISMATCH, P, K)
        | Some (Some bwq) \<Rightarrow> do {
            (err, K) \<leftarrow> fut_notify E K bwq (if all then BWQ_NOTIFY_ALL else BWQ_NOTIFY_NEXT);
            if err \<noteq> FOS_E_SUCCESS then Some (err, P, K)
            else do {
              (err, K) \<leftarrow> fut_wake_loop K bwq (err_word FOS_E_SUCCESS);
              if err \<noteq> FOS_E_EMPTY then Some (err, P, K) else fut_ret P K thr FOS_E_SUCCESS } } })"

definition PLG_FUT_PCID_REGISTER :: nat where "PLG_FUT_PCID_REGISTER = 0"
definition PLG_FUT_PCID_DEREGISTER :: nat where "PLG_FUT_PCID_DEREGISTER = 1"
definition PLG_FUT_PCID_WAIT :: nat where "PLG_FUT_PCID_WAIT = 2"
definition PLG_FUT_PCID_WAKE :: nat where "PLG_FUT_PCID_WAKE = 3"

definition plg_fut_cmd ::
  "'m kenv \<Rightarrow> 'm fut_env \<Rightarrow> plugin_fut \<Rightarrow> 'm kernel \<Rightarrow> nat \<Rightarrow> 32 word \<Rightarrow> 32 word
   \<Rightarrow> (fernos_error \<times> plugin_fut \<times> 'm kernel) option"
where
  "plg_fut_cmd E F P K cmd arg0 arg1 = do {
     head \<leftarrow> ks_head K;
     thr \<leftarrow> head;
     t \<leftarrow> k_threads K thr;
     proc \<leftarrow> k_procs K (th_proc t);
     fut_map \<leftarrow> arr_get (fut_maps P) (pr_pid proc);
     case fut_map of
       None \<Rightarrow> Some (FOS_E_STATE_MISMATCH, P, K)
     | Some m \<Rightarrow>
         if cmd = PLG_FUT_PCID_REGISTER then fut_register E F P K thr proc m arg0
         else if cmd = PLG_FUT_PCID_DEREGISTER then fut_deregister E F P K thr proc m arg0
         else if cmd = PLG_FUT_PCID_WAIT then fut_wait E F P K thr proc m arg0 arg1
         else if cmd = PLG_FUT_PCID_WAKE then fut_wake E F P K thr m arg0 (arg1 \<noteq> 0)
         else fut_ret P K thr FOS_E_BAD_ARGS }"

section \<open>Processes come and go\<close>

definition plg_fut_on_fork_proc :: "'m fut_env \<Rightarrow> plugin_fut \<Rightarrow> nat \<Rightarrow> (fernos_error \<times> plugin_fut) option" where
  "plg_fut_on_fork_proc F P cpid = do {
     old \<leftarrow> arr_get (fut_maps P) cpid;
     if old \<noteq> None then Some (FOS_E_STATE_MISMATCH, P)
     else case new_fut_map F of
         None \<Rightarrow> Some (FOS_E_NO_MEM, P)
       | Some m \<Rightarrow> do {
           maps \<leftarrow> arr_set (fut_maps P) cpid (Some m);
           Some (FOS_E_SUCCESS, P\<lparr>fut_maps := maps\<rparr>) } }"

text \<open>\<open>Inl\<close> is a result of the call, \<open>Inr\<close> the error with which the iteration ends.\<close>

partial_function (option) fut_reset_loop ::
  "'m kenv \<Rightarrow> 'm fut_env \<Rightarrow> 'm kernel \<Rightarrow> (32 word, addr option) chm \<Rightarrow> fernos_error \<Rightarrow> (32 word \<times> addr option) option
   \<Rightarrow> ((fernos_error + fernos_error) \<times> (32 word, addr option) chm \<times> 'm kernel) option"
where
  "fut_reset_loop E F K m err kv =
     (if err \<noteq> FOS_E_SUCCESS then Some (Inr err, m, K)
      else do {
        (_, bwq) \<leftarrow> kv;
        case bwq of
          None \<Rightarrow> Some (Inl FOS_E_STATE_MISMATCH, m, K)
        | Some q \<Rightarrow> do {
            (err, K) \<leftarrow> fut_notify E K q BWQ_NOTIFY_ALL;
            if err \<noteq> FOS_E_SUCCESS then Some (Inl err, m, K)
            else do {
              (err, K) \<leftarrow> fut_detach_loop K q (err_word FOS_E_STATE_MISMATCH);
              if err \<noteq> FOS_E_EMPTY then Some (Inl err, m, K)
              else do {
                let K = K\<lparr>k_wqs := (k_wqs K)(q := None)\<rparr>;
                (err, kv, m) \<leftarrow> mi_next_iter (CHM_IMPL (fe_junk F)) m True;
                fut_reset_loop E F K m err kv } } } })"

definition plg_fut_on_reset_proc ::
  "'m kenv \<Rightarrow> 'm fut_env \<Rightarrow> plugin_fut \<Rightarrow> 'm kernel \<Rightarrow> nat \<Rightarrow> (fernos_error \<times> plugin_fut \<times> 'm kernel) option"
where
  "plg_fut_on_reset_proc E F P K pid = do {
     fut_map \<leftarrow> arr_get (fut_maps P) pid;
     case fut_map of
       None \<Rightarrow> Some (FOS_E_STATE_MISMATCH, P, K)
     | Some m \<Rightarrow> do {
         m \<leftarrow> mi_reset_iter (CHM_IMPL (fe_junk F)) m;
         (err, kv) \<leftarrow> mi_get_iter (CHM_IMPL (fe_junk F)) m True;
         (res, m, K) \<leftarrow> fut_reset_loop E F K m err kv;
         maps \<leftarrow> arr_set (fut_maps P) pid (Some m);
         let P = P\<lparr>fut_maps := maps\<rparr>;
         case res of
           Inl err \<Rightarrow> Some (err, P, K)
         | Inr err \<Rightarrow>
             if err \<noteq> FOS_E_EMPTY then Some (err, P, K)
             else do {
               m \<leftarrow> mi_clear (CHM_IMPL (fe_junk F)) m;
               maps \<leftarrow> arr_set (fut_maps P) pid (Some m);
               Some (FOS_E_SUCCESS, P\<lparr>fut_maps := maps\<rparr>, K) } } }"

partial_function (option) fut_reap_loop ::
  "'m fut_env \<Rightarrow> 'm kernel \<Rightarrow> (32 word, addr option) chm \<Rightarrow> fernos_error \<Rightarrow> (32 word \<times> addr option) option
   \<Rightarrow> (fernos_error \<times> (32 word, addr option) chm \<times> 'm kernel) option"
where
  "fut_reap_loop F K m err kv =
     (if err \<noteq> FOS_E_SUCCESS then Some (err, m, K)
      else do {
        (_, bwq) \<leftarrow> kv;
        let K = (case bwq of None \<Rightarrow> K | Some q \<Rightarrow> K\<lparr>k_wqs := (k_wqs K)(q := None)\<rparr>);
        (err, kv, m) \<leftarrow> mi_next_iter (CHM_IMPL (fe_junk F)) m True;
        fut_reap_loop F K m err kv })"

definition plg_fut_on_reap_proc ::
  "'m fut_env \<Rightarrow> plugin_fut \<Rightarrow> 'm kernel \<Rightarrow> nat \<Rightarrow> (fernos_error \<times> plugin_fut \<times> 'm kernel) option"
where
  "plg_fut_on_reap_proc F P K rpid = do {
     fut_map \<leftarrow> arr_get (fut_maps P) rpid;
     maps \<leftarrow> arr_set (fut_maps P) rpid None;
     let P = P\<lparr>fut_maps := maps\<rparr>;
     case fut_map of
       None \<Rightarrow> Some (FOS_E_STATE_MISMATCH, P, K)
     | Some m \<Rightarrow> do {
         m \<leftarrow> mi_reset_iter (CHM_IMPL (fe_junk F)) m;
         (err, kv) \<leftarrow> mi_get_iter (CHM_IMPL (fe_junk F)) m True;
         (err, m, K) \<leftarrow> fut_reap_loop F K m err kv;
         if err \<noteq> FOS_E_EMPTY then Some (err, P, K)
         else do { _ \<leftarrow> delete_chained_hash_map m; Some (FOS_E_SUCCESS, P, K) } } }"

end
