(* ===== verification/Blocking.thy ===== *)
theory Blocking imports Scheduling begin

text \<open>
  The step with which the running thread goes to sleep in a basic wait queue, and the step with which it
  gets its result, as the plugins take them.
\<close>

lemma err_word_ok [simp]: "err_word FOS_E_SUCCESS = 0"
  by (simp add: err_word_def)

lemma without_head:
  assumes pl: "placed K W S" and r: "S r = Some (a # as)"
  shows "without a S = S(r \<mapsto> as)"
proof
  fix r'
  show "without a S r' = (S(r \<mapsto> as)) r'"
  proof (cases "r' = r")
    case True
    then show ?thesis using r placed_ring_distinct [OF pl r] by (simp add: without_def)
  next
    case False
    show ?thesis
    proof (cases "S r'")
      case (Some bs)
      then have "a \<notin> set bs" using ring_rep_disjoint [OF placedD(1) [OF pl] r Some] False by auto
      then show ?thesis using Some False by (simp add: without_def)
    qed (use False in \<open>simp add: without_def\<close>)
  qed
qed

lemma set_eax_rep:
  assumes "placed K W S" and "k_threads K a = Some t"
  shows "\<exists>K'. set_eax K a v = Some K' \<and> placed K' W S \<and> same_frame K K'
    \<and> k_threads K' = (k_threads K)(a \<mapsto> t\<lparr>th_ctx := (th_ctx t)\<lparr>c_eax := v\<rparr>\<rparr>)"
  using placed_data [OF assms] assms(2)
  by (intro exI [of _ "set_thread a (t\<lparr>th_ctx := (th_ctx t)\<lparr>c_eax := v\<rparr>\<rparr>) K"])
    (simp add: set_eax_def upd_thread_def same_frame_def)

text \<open>Enqueueing the running thread on a basic queue; when memory has run out the queue is as it was.\<close>

lemma enqueue_on_basic:
  assumes pl: "placed K W S" and sch: "S (k_schedule K) = Some (a # as)" and t: "k_threads K a = Some t"
    and W: "W q = Some (AWQ_basic ws rs)" and al: "alloc_ok al"
  shows "\<exists>bq e bq'. k_wqs K q = Some (WQ_basic bq) \<and> bwq_enqueue LL_IMPL al bq a = Some (e, bq')
    \<and> (e = FOS_E_SUCCESS \<and> (\<exists>K1 K2. thread_detach (set_wq q (WQ_basic bq') K) a = Some K1
          \<and> upd_thread K1 a (\<lambda>t. t\<lparr>th_wq := Some q, th_state := THREAD_STATE_WAITING\<rparr>) = Some K2
          \<and> placed K2 (W(q \<mapsto> AWQ_basic (ws @ [a]) rs)) (S(k_schedule K \<mapsto> as)) \<and> same_frame K K2
          \<and> k_threads K2 = (k_threads K)(a \<mapsto> t\<lparr>th_wq := Some q, th_state := THREAD_STATE_WAITING\<rparr>))
       \<or> oom al \<and> e = FOS_E_NO_MEM \<and> bq' = bq)"
proof -
  have st: "th_state t = THREAD_STATE_SCHEDULED" "th_wq t = None"
    by (rule placed_on_schedule [OF pl sch, of a]; use t in simp)+
  from placed_queue [OF pl W] obtain w where "k_wqs K q = Some w" "wq_rep w (AWQ_basic ws rs)" .
  then obtain bq where w: "k_wqs K q = Some (WQ_basic bq)" "bwq_rep ll_inv ll_inv bq ws rs"
    using wq_rep_basic by blast
  from ll_basic.bwq_enqueue_rep [OF w(2) al, of a] show ?thesis
  proof (elim disjE exE conjE)
    fix bq' assume bq': "bwq_enqueue LL_IMPL al bq a = Some (FOS_E_SUCCESS, bq')" "bwq_rep ll_inv ll_inv bq' (ws @ [a]) rs"
    have "a \<notin> set (ws @ rs)" using locatedD(4) [OF placedD(8) [OF pl t] W] st(2) by simp
    then have d: "distinct (awq_items (AWQ_basic (ws @ [a]) rs))"
      and s: "set (awq_items (AWQ_basic (ws @ [a]) rs)) = insert a (set (awq_items (AWQ_basic ws rs)))"
      using placedD(7) [OF pl W] by auto
    let ?f = "\<lambda>t. t\<lparr>th_wq := Some q, th_state := THREAD_STATE_WAITING\<rparr>"
    have rep: "wq_rep (WQ_basic bq') (AWQ_basic (ws @ [a]) rs)" using bq'(2) by simp
    from placed_wait [OF pl t st(1) W rep d s, of ?f] obtain K1 K2 where K:
      "thread_detach (set_wq q (WQ_basic bq') K) a = Some K1" "upd_thread K1 a ?f = Some K2"
      "placed K2 (W(q \<mapsto> AWQ_basic (ws @ [a]) rs)) (without a S)" "same_frame K K2"
      "k_threads K2 = (k_threads K)(a \<mapsto> ?f (t\<lparr>th_state := THREAD_STATE_DETATCHED\<rparr>))" by auto
    have "without a S = S(k_schedule K \<mapsto> as)" by (rule without_head [OF pl sch])
    then show ?thesis using K w(1) bq'(1) by (intro exI [of _ bq] exI [of _ FOS_E_SUCCESS] exI [of _ bq']) simp
  qed (use w(1) in blast)
qed

lemma block_on_basic:
  assumes pl: "placed K W S" and sch: "S (k_schedule K) = Some (a # as)" and t: "k_threads K a = Some t"
    and W: "W q = Some (AWQ_basic ws rs)" and al: "alloc_ok al" "\<not> oom al"
  shows "\<exists>bq bq' K1 K2. k_wqs K q = Some (WQ_basic bq) \<and> bwq_enqueue LL_IMPL al bq a = Some (FOS_E_SUCCESS, bq')
    \<and> thread_detach (set_wq q (WQ_basic bq') K) a = Some K1
    \<and> upd_thread K1 a (\<lambda>t. t\<lparr>th_wq := Some q, th_state := THREAD_STATE_WAITING\<rparr>) = Some K2
    \<and> placed K2 (W(q \<mapsto> AWQ_basic (ws @ [a]) rs)) (S(k_schedule K \<mapsto> as)) \<and> same_frame K K2
    \<and> k_threads K2 = (k_threads K)(a \<mapsto> t\<lparr>th_wq := Some q, th_state := THREAD_STATE_WAITING\<rparr>)"
  using enqueue_on_basic [OF pl sch t W al(1)] al(2) by blast

end
