(* ===== verification/Futex_Correctness.thy ===== *)
theory Futex_Correctness imports Plugin_Futex Blocking begin

text \<open>
  What waiting on a futex and waking it do to the schedule and to the queue of the futex, and what a wait
  does when the futex is registered but its page is not mapped any more.
\<close>

section \<open>Waking\<close>

lemma fut_wake_loop_rep:
  assumes "placed K W S" and "W q = Some (AWQ_basic ws rs)" and "S (k_schedule K) = Some as"
  shows "\<exists>K'. fut_wake_loop K q st = Some (FOS_E_EMPTY, K')
    \<and> placed K' (W(q \<mapsto> AWQ_basic ws [])) (S(k_schedule K \<mapsto> as @ rs))
    \<and> same_frame K K' \<and> (\<forall>b. b \<notin> set rs \<longrightarrow> k_threads K' b = k_threads K b)
    \<and> (\<forall>b\<in>set rs. woken st (k_threads K b) (k_threads K' b))"
  using assms
proof (induction rs arbitrary: K W S as)
  case Nil
  from placed_queue [OF Nil(1,2)] obtain w where "k_wqs K q = Some w" "wq_rep w (AWQ_basic ws [])" .
  then obtain bq where w: "k_wqs K q = Some (WQ_basic bq)" "bwq_rep ll_inv ll_inv bq ws []"
    using wq_rep_basic by blast
  have "bwq_pop LL_IMPL bq = Some (FOS_E_EMPTY, None, bq)" using ll_basic.bwq_pop_rep [OF w(2)] by simp
  then have "fut_wake_loop K q st = Some (FOS_E_EMPTY, K)"
    using w(1) by (subst fut_wake_loop.simps) (simp add: basic_queue_def fun_upd_idem)
  then show ?case using Nil by (simp add: fun_upd_idem)
next
  case (Cons a rs)
  let ?r = "k_schedule K"
  from placed_queue [OF Cons.prems(1,2)] obtain w where "k_wqs K q = Some w" "wq_rep w (AWQ_basic ws (a # rs))" .
  then obtain bq where w: "k_wqs K q = Some (WQ_basic bq)" "bwq_rep ll_inv ll_inv bq ws (a # rs)"
    using wq_rep_basic by blast
  from ll_basic.bwq_pop_rep [OF w(2)] obtain bq' where
    bq': "bwq_pop LL_IMPL bq = Some (FOS_E_SUCCESS, Some a, bq')" "bwq_rep ll_inv ll_inv bq' ws rs" by auto
  from placed_item [OF Cons.prems(1,2), of a] obtain t where
    t: "k_threads K a = Some t" "th_wq t = Some q" by auto
  have "distinct (ws @ a # rs)" using placedD(7) [OF Cons.prems(1,2)] by simp
  then have rem: "awq_remove a (AWQ_basic ws (a # rs)) = AWQ_basic ws rs" and na: "a \<notin> set rs" by simp_all
  let ?t = "t\<lparr>th_wq := None, th_ctx := (th_ctx t)\<lparr>c_eax := st\<rparr>, th_state := THREAD_STATE_DETATCHED\<rparr>"
  have "wq_rep (WQ_basic bq') (awq_remove a (AWQ_basic ws (a # rs)))" using bq'(2) rem by simp
  from placed_wake [OF Cons.prems(1) t Cons.prems(2) this Cons.prems(3), of ?t] obtain K1 t1 where K1:
    "thread_schedule (set_thread a ?t (set_wq q (WQ_basic bq') K)) a ?r = Some K1"
    "placed K1 (W(q \<mapsto> AWQ_basic ws rs)) (S(?r \<mapsto> as @ [a]))" "k_threads K1 = (k_threads K)(a \<mapsto> t1)" "same_frame K K1"
    "th_wq t1 = None" "th_state t1 = THREAD_STATE_SCHEDULED" "th_ctx t1 = (th_ctx t)\<lparr>c_eax := st\<rparr>"
    "th_tid t1 = th_tid t" "th_proc t1 = th_proc t" unfolding rem by auto
  have fr: "k_schedule K1 = ?r" using K1(4) by (simp add: same_frame_def)
  have sch: "(S(?r \<mapsto> as @ [a])) (k_schedule K1) = Some (as @ [a])" unfolding fr by simp
  from Cons.IH [OF K1(2) _ sch] obtain K' where K':
    "fut_wake_loop K1 q st = Some (FOS_E_EMPTY, K')" "placed K' (W(q \<mapsto> AWQ_basic ws [])) (S(?r \<mapsto> as @ a # rs))"
    "same_frame K1 K'" "\<forall>b. b \<notin> set rs \<longrightarrow> k_threads K' b = k_threads K1 b"
    "\<forall>b\<in>set rs. woken st (k_threads K1 b) (k_threads K' b)"
    unfolding fr by (auto simp only: fun_upd_upd fun_upd_same append_Cons append_assoc append_Nil)
  have "fut_wake_loop K q st = Some (FOS_E_EMPTY, K')"
    using w(1) bq'(1) t K1(1) K'(1) by (subst fut_wake_loop.simps) (simp add: basic_queue_def Let_def)
  moreover have "woken st (k_threads K a) (k_threads K' a)"
    using K'(4) K1 t(1) na by (auto simp: woken_def)
  moreover have "woken st (k_threads K b) (k_threads K' b)" if "b \<in> set rs" for b
    using that K'(5) K1(3) na by (cases "b = a") auto
  moreover have "k_threads K' b = k_threads K b" if "b \<notin> set (a # rs)" for b
    using that K'(4) K1(3) by simp
  ultimately show ?case
    using K'(2) same_frame_trans [OF K1(4) K'(3)] by (intro exI [of _ K']) (simp del: fun_upd_apply)
qed

text \<open>How many of \<open>n\<close> waiters a wake releases.\<close>

definition wake_count :: "bool \<Rightarrow> nat \<Rightarrow> nat" where
  "wake_count all n = (if all then n else 1)"

lemma take_drop_perm: "mset (drop n ws @ rs @ take n ws) = mset (ws @ rs)"
  by (metis append_take_drop_id mset_append union_assoc union_commute)

lemma fut_notify_rep:
  assumes pl: "placed K W S" and W: "W q = Some (AWQ_basic ws rs)" and al: "alloc_ok (ke_al E)"
  shows "\<exists>n e K'. fut_notify E K q (if all then BWQ_NOTIFY_ALL else BWQ_NOTIFY_NEXT) = Some (e, K')
    \<and> placed K' (W(q \<mapsto> AWQ_basic (drop n ws) (rs @ take n ws))) S \<and> k_threads K' = k_threads K \<and> same_frame K K'
    \<and> (e = FOS_E_SUCCESS \<and> n = wake_count all (length ws) \<or> e = FOS_E_NO_MEM \<and> oom (ke_al E))"
proof -
  from placed_queue [OF pl W] obtain w where "k_wqs K q = Some w" "wq_rep w (AWQ_basic ws rs)" .
  then obtain bq where w: "k_wqs K q = Some (WQ_basic bq)" "bwq_rep ll_inv ll_inv bq ws rs"
    using wq_rep_basic by blast
  have "\<exists>n e bq'. bwq_notify LL_IMPL LL_IMPL (ke_al E) bq (if all then BWQ_NOTIFY_ALL else BWQ_NOTIFY_NEXT) = Some (e, bq')
    \<and> bwq_rep ll_inv ll_inv bq' (drop n ws) (rs @ take n ws)
    \<and> (e = FOS_E_SUCCESS \<and> n = wake_count all (length ws) \<or> e = FOS_E_NO_MEM \<and> oom (ke_al E))"
  proof (cases all)
    case True
    then show ?thesis using ll_basic.bwq_notify_all_rep [OF w(2) al] by (simp add: wake_count_def) blast
  next
    case False
    from ll_basic.bwq_notify_next_rep [OF w(2) al] show ?thesis
    proof (elim disjE exE conjE)
      fix bq' assume "bwq_notify LL_IMPL LL_IMPL (ke_al E) bq BWQ_NOTIFY_NEXT = Some (FOS_E_SUCCESS, bq')"
        "bwq_rep ll_inv ll_inv bq' (drop 1 ws) (rs @ take 1 ws)"
      then show ?thesis using False
        by (intro exI [of _ 1] exI [of _ FOS_E_SUCCESS] exI [of _ bq']) (simp add: wake_count_def)
    next
      assume "oom (ke_al E)" "bwq_notify LL_IMPL LL_IMPL (ke_al E) bq BWQ_NOTIFY_NEXT = Some (FOS_E_NO_MEM, bq)"
      then show ?thesis using False w(2) by (intro exI [of _ 0] exI [of _ FOS_E_NO_MEM] exI [of _ bq]) simp
    qed
  qed
  then obtain n e bq' where bq': "bwq_notify LL_IMPL LL_IMPL (ke_al E) bq (if all then BWQ_NOTIFY_ALL else BWQ_NOTIFY_NEXT)
      = Some (e, bq')" "bwq_rep ll_inv ll_inv bq' (drop n ws) (rs @ take n ws)"
    "e = FOS_E_SUCCESS \<and> n = wake_count all (length ws) \<or> e = FOS_E_NO_MEM \<and> oom (ke_al E)" by blast
  let ?aq = "AWQ_basic (drop n ws) (rs @ take n ws)"
  have "distinct (ws @ rs)" using placedD(7) [OF pl W] by simp
  then have d: "distinct (awq_items ?aq)" by (simp only: awq_items.simps mset_eq_imp_distinct_iff [OF take_drop_perm])
  have s: "set (awq_items ?aq) = set (awq_items (AWQ_basic ws rs))"
    using mset_eq_setD [OF take_drop_perm [of n ws rs]] by (simp only: awq_items.simps)
  have "placed (set_wq q (WQ_basic bq') K) (W(q \<mapsto> ?aq)) S"
    by (rule placed_set_wq [OF pl W _ d s]) (simp add: bq'(2))
  then show ?thesis using w(1) bq'(1,3)
    by (intro exI [of _ n] exI [of _ e] exI [of _ "set_wq q (WQ_basic bq') K"])
      (simp add: fut_notify_def basic_queue_def same_frame_def del: fun_upd_apply)
qed

section \<open>The commands\<close>

text \<open>The running thread is \<open>a\<close>, whose process \<open>pr\<close> has the futex \<open>u\<close> registered with the queue \<open>q\<close>.\<close>

definition futex_queue :: "(32 word, addr option) chm \<Rightarrow> 32 word \<Rightarrow> addr \<Rightarrow> bool" where
  "futex_queue m u q \<longleftrightarrow> (\<exists>kvs. chm_inv m kvs \<and> 0 < chm_val_size m
     \<and> map_option snd (kv_find (chm_key_eq m) kvs u) = Some (Some q))"

definition fut_caller :: "plugin_fut \<Rightarrow> 'm kernel \<Rightarrow> addr \<Rightarrow> thread \<Rightarrow> process \<Rightarrow> 32 word \<Rightarrow> addr \<Rightarrow> bool" where
  "fut_caller P K a t pr u q \<longleftrightarrow> k_threads K a = Some t \<and> k_procs K (th_proc t) = Some pr \<and> u \<noteq> 0
     \<and> (\<exists>m. pr_pid pr < length (fut_maps P) \<and> fut_maps P ! pr_pid pr = Some m \<and> futex_queue m u q)"

lemma futex_queue_get: "futex_queue m u q \<Longrightarrow> mp_get (CHM_IMPL junk) m (Some u) = Some (Some (Some q))"
  using chm.get_value [of m _ junk u] by (auto simp: futex_queue_def)

lemma fut_callerE:
  assumes "placed K W S" and "S (k_schedule K) = Some (a # as)" and "fut_caller P K a t pr u q"
  obtains m where "ks_head K = Some (Some a)" "k_threads K a = Some t" "k_procs K (th_proc t) = Some pr"
    "arr_get (fut_maps P) (pr_pid pr) = Some (Some m)" "u \<noteq> 0"
    "\<And>junk. mp_get (CHM_IMPL junk) m (Some u) = Some (Some (Some q))"
  using assms placed_head [OF assms(1,2)] futex_queue_get by (fastforce simp: fut_caller_def arr_get_def)

lemma fut_ret_rep:
  assumes "placed K W S" and "k_threads K a = Some t"
  shows "\<exists>K'. fut_ret P K a e = Some (FOS_E_SUCCESS, P, K') \<and> placed K' W S \<and> same_frame K K'
    \<and> k_threads K' = (k_threads K)(a \<mapsto> t\<lparr>th_ctx := (th_ctx t)\<lparr>c_eax := err_word e\<rparr>\<rparr>)"
  using set_eax_rep [OF assms, of "err_word e"] by (auto simp: fut_ret_def)

lemma fut_wait_full_rep:
  assumes pl: "placed K W S" and sch: "S (k_schedule K) = Some (a # as)" and c: "fut_caller P K a t pr u q"
    and W: "W q = Some (AWQ_basic ws rs)" and v: "fe_from_user F (k_mem K) (pr_pd pr) u = (FOS_E_SUCCESS, v)"
    and al: "alloc_ok (ke_al E)"
  shows "\<exists>K'. plg_fut_cmd E F P K PLG_FUT_PCID_WAIT u v = Some (FOS_E_SUCCESS, P, K') \<and> same_frame K K'
    \<and> (placed K' (W(q \<mapsto> AWQ_basic (ws @ [a]) rs)) (S(k_schedule K \<mapsto> as))
         \<and> k_threads K' = (k_threads K)(a \<mapsto> t\<lparr>th_wq := Some q, th_state := THREAD_STATE_WAITING\<rparr>)
       \<or> oom (ke_al E) \<and> placed K' W S
         \<and> k_threads K' = (k_threads K)(a \<mapsto> t\<lparr>th_ctx := (th_ctx t)\<lparr>c_eax := err_word FOS_E_NO_MEM\<rparr>\<rparr>))"
proof -
  obtain m where m: "ks_head K = Some (Some a)" "k_threads K a = Some t" "k_procs K (th_proc t) = Some pr"
    "arr_get (fut_maps P) (pr_pid pr) = Some (Some m)" "u \<noteq> 0"
    "\<And>junk. mp_get (CHM_IMPL junk) m (Some u) = Some (Some (Some q))" using fut_callerE [OF pl sch c] by metis
  note cmd = plg_fut_cmd_def fut_wait_def basic_queue_def Let_def
    PLG_FUT_PCID_REGISTER_def PLG_FUT_PCID_DEREGISTER_def PLG_FUT_PCID_WAIT_def
  from enqueue_on_basic [OF pl sch m(2) W al] obtain bq e bq' where
    b: "k_wqs K q = Some (WQ_basic bq)" "bwq_enqueue LL_IMPL (ke_al E) bq a = Some (e, bq')"
    and cases: "e = FOS_E_SUCCESS \<and> (\<exists>K1 K2. thread_detach (set_wq q (WQ_basic bq') K) a = Some K1
          \<and> upd_thread K1 a (\<lambda>t. t\<lparr>th_wq := Some q, th_state := THREAD_STATE_WAITING\<rparr>) = Some K2
          \<and> placed K2 (W(q \<mapsto> AWQ_basic (ws @ [a]) rs)) (S(k_schedule K \<mapsto> as)) \<and> same_frame K K2
          \<and> k_threads K2 = (k_threads K)(a \<mapsto> t\<lparr>th_wq := Some q, th_state := THREAD_STATE_WAITING\<rparr>))
       \<or> oom (ke_al E) \<and> e = FOS_E_NO_MEM \<and> bq' = bq" by blast
  from cases show ?thesis
  proof (elim disjE exE conjE)
    fix K1 K2 assume "e = FOS_E_SUCCESS" "thread_detach (set_wq q (WQ_basic bq') K) a = Some K1"
      "upd_thread K1 a (\<lambda>t. t\<lparr>th_wq := Some q, th_state := THREAD_STATE_WAITING\<rparr>) = Some K2"
      "placed K2 (W(q \<mapsto> AWQ_basic (ws @ [a]) rs)) (S(k_schedule K \<mapsto> as))" "same_frame K K2"
      "k_threads K2 = (k_threads K)(a \<mapsto> t\<lparr>th_wq := Some q, th_state := THREAD_STATE_WAITING\<rparr>)"
    then show ?thesis using m v b by (intro exI [of _ K2]) (simp add: cmd)
  next
    assume e: "oom (ke_al E)" "e = FOS_E_NO_MEM" "bq' = bq"
    have "set_wq q (WQ_basic bq) K = K" using b(1) by (simp add: fun_upd_idem)
    then have "plg_fut_cmd E F P K PLG_FUT_PCID_WAIT u v = fut_ret P K a FOS_E_NO_MEM"
      using m v b e by (simp add: cmd)
    then show ?thesis using fut_ret_rep [OF pl m(2), of P FOS_E_NO_MEM] e(1) by auto
  qed
qed

lemma fut_wait_same_rep:
  assumes "placed K W S" and "S (k_schedule K) = Some (a # as)" and "fut_caller P K a t pr u q"
    and "W q = Some (AWQ_basic ws rs)" and "fe_from_user F (k_mem K) (pr_pd pr) u = (FOS_E_SUCCESS, v)"
    and "alloc_ok (ke_al E)" "\<not> oom (ke_al E)"
  shows "\<exists>K'. plg_fut_cmd E F P K PLG_FUT_PCID_WAIT u v = Some (FOS_E_SUCCESS, P, K')
    \<and> placed K' (W(q \<mapsto> AWQ_basic (ws @ [a]) rs)) (S(k_schedule K \<mapsto> as)) \<and> same_frame K K'
    \<and> k_threads K' = (k_threads K)(a \<mapsto> t\<lparr>th_wq := Some q, th_state := THREAD_STATE_WAITING\<rparr>)"
  using fut_wait_full_rep [OF assms(1-6)] assms(7) by blast

lemma fut_wait_other_rep:
  assumes pl: "placed K W S" and sch: "S (k_schedule K) = Some (a # as)" and c: "fut_caller P K a t pr u q"
    and v: "fe_from_user F (k_mem K) (pr_pd pr) u = (FOS_E_SUCCESS, v)" and ne: "v \<noteq> exp_val"
  shows "\<exists>K'. plg_fut_cmd E F P K PLG_FUT_PCID_WAIT u exp_val = Some (FOS_E_SUCCESS, P, K')
    \<and> placed K' W S \<and> same_frame K K' \<and> k_threads K' = (k_threads K)(a \<mapsto> t\<lparr>th_ctx := (th_ctx t)\<lparr>c_eax := 0\<rparr>\<rparr>)"
proof -
  obtain m where m: "ks_head K = Some (Some a)" "k_threads K a = Some t" "k_procs K (th_proc t) = Some pr"
    "arr_get (fut_maps P) (pr_pid pr) = Some (Some m)" "u \<noteq> 0"
    "\<And>junk. mp_get (CHM_IMPL junk) m (Some u) = Some (Some (Some q))" using fut_callerE [OF pl sch c] by metis
  show ?thesis using fut_ret_rep [OF pl m(2), of P FOS_E_SUCCESS] m v ne
    by (simp add: plg_fut_cmd_def fut_wait_def Let_def
      PLG_FUT_PCID_REGISTER_def PLG_FUT_PCID_DEREGISTER_def PLG_FUT_PCID_WAIT_def)
qed

text \<open>A wake, whatever the allocator: when memory runs out while the waiters are released the error goes to the
  kernel itself.\<close>

lemma fut_wake_any_rep:
  assumes pl: "placed K W S" and sch: "S (k_schedule K) = Some (a # as)" and c: "fut_caller P K a t pr u q"
    and W: "W q = Some (AWQ_basic ws [])" and al: "alloc_ok (ke_al E)"
    and n: "n = wake_count (all \<noteq> 0) (length ws)"
  shows "\<exists>K'. plg_fut_cmd E F P K PLG_FUT_PCID_WAKE u all = Some (FOS_E_SUCCESS, P, K')
      \<and> placed K' (W(q \<mapsto> AWQ_basic (drop n ws) [])) (S(k_schedule K \<mapsto> a # as @ take n ws)) \<and> same_frame K K'
      \<and> (\<forall>b\<in>set (take n ws). woken 0 (k_threads K b) (k_threads K' b))
      \<and> k_threads K' a = Some (t\<lparr>th_ctx := (th_ctx t)\<lparr>c_eax := 0\<rparr>\<rparr>)
      \<and> (\<forall>b. b \<noteq> a \<and> b \<notin> set (take n ws) \<longrightarrow> k_threads K' b = k_threads K b)
    \<or> oom (ke_al E) \<and> plg_fut_cmd E F P K PLG_FUT_PCID_WAKE u all = Some (FOS_E_NO_MEM, P, K')"
proof -
  obtain m where m: "ks_head K = Some (Some a)" "k_threads K a = Some t" "k_procs K (th_proc t) = Some pr"
    "arr_get (fut_maps P) (pr_pid pr) = Some (Some m)" "u \<noteq> 0"
    "\<And>junk. mp_get (CHM_IMPL junk) m (Some u) = Some (Some (Some q))" using fut_callerE [OF pl sch c] by metis
  note cmd = plg_fut_cmd_def fut_wake_def
    PLG_FUT_PCID_REGISTER_def PLG_FUT_PCID_DEREGISTER_def PLG_FUT_PCID_WAIT_def PLG_FUT_PCID_WAKE_def
  from fut_notify_rep [where all = "all \<noteq> 0", OF pl W al] obtain n' e K1 where K1:
    "fut_notify E K q (if all \<noteq> 0 then BWQ_NOTIFY_ALL else BWQ_NOTIFY_NEXT) = Some (e, K1)"
    "placed K1 (W(q \<mapsto> AWQ_basic (drop n' ws) (take n' ws))) S" "k_threads K1 = k_threads K" "same_frame K K1"
    "e = FOS_E_SUCCESS \<and> n' = n \<or> e = FOS_E_NO_MEM \<and> oom (ke_al E)"
    unfolding append_Nil n by blast
  show ?thesis
  proof (cases "e = FOS_E_SUCCESS")
    case False
    then have "plg_fut_cmd E F P K PLG_FUT_PCID_WAKE u all = Some (FOS_E_NO_MEM, P, K1)"
      using m K1(1,5) by (auto simp: cmd)
    then show ?thesis using False K1(5) by blast
  next
    case True
    then have n': "n' = n" using K1(5) by simp
    have fr: "k_schedule K1 = k_schedule K" using K1(4) by (simp add: same_frame_def)
    from fut_wake_loop_rep [OF K1(2) fun_upd_same, of "a # as" 0] obtain K2 where K2:
      "fut_wake_loop K1 q 0 = Some (FOS_E_EMPTY, K2)" "same_frame K1 K2"
      "placed K2 (W(q \<mapsto> AWQ_basic (drop n ws) [])) (S(k_schedule K \<mapsto> a # as @ take n ws))"
      "\<forall>b. b \<notin> set (take n ws) \<longrightarrow> k_threads K2 b = k_threads K b"
      "\<forall>b\<in>set (take n ws). woken 0 (k_threads K b) (k_threads K2 b)"
      unfolding fr n' K1(3) fun_upd_upd append_Cons using sch by blast
    have "th_wq t = None" by (rule placed_on_schedule [OF pl sch, of a]) (use m(2) in simp_all)
    then have "a \<notin> set ws" using locatedD(4) [OF placedD(8) [OF pl m(2)] W] by simp
    then have na: "a \<notin> set (take n ws)" using set_take_subset by fastforce
    then have t2: "k_threads K2 a = Some t" using K2(4) m(2) by simp
    from fut_ret_rep [OF K2(3) t2, of P FOS_E_SUCCESS] obtain K3 where K3:
      "fut_ret P K2 a FOS_E_SUCCESS = Some (FOS_E_SUCCESS, P, K3)" "same_frame K2 K3"
      "placed K3 (W(q \<mapsto> AWQ_basic (drop n ws) [])) (S(k_schedule K \<mapsto> a # as @ take n ws))"
      "k_threads K3 = (k_threads K2)(a \<mapsto> t\<lparr>th_ctx := (th_ctx t)\<lparr>c_eax := 0\<rparr>\<rparr>)" by auto
    have "plg_fut_cmd E F P K PLG_FUT_PCID_WAKE u all = Some (FOS_E_SUCCESS, P, K3)"
      using m K1(1) K2(1) K3(1) True by (simp add: cmd)
    moreover have "same_frame K K3" using K1(4) K2(2) K3(2) same_frame_trans by blast
    ultimately show ?thesis using K2(4,5) K3(3,4) na by (intro exI [of _ K3] disjI1) auto
  qed
qed

lemma fut_wake_rep:
  assumes "placed K W S" and "S (k_schedule K) = Some (a # as)" and "fut_caller P K a t pr u q"
    and "W q = Some (AWQ_basic ws [])" and "alloc_ok (ke_al E)" "\<not> oom (ke_al E)"
    and "n = wake_count (all \<noteq> 0) (length ws)"
  shows "\<exists>K'. plg_fut_cmd E F P K PLG_FUT_PCID_WAKE u all = Some (FOS_E_SUCCESS, P, K')
    \<and> placed K' (W(q \<mapsto> AWQ_basic (drop n ws) [])) (S(k_schedule K \<mapsto> a # as @ take n ws)) \<and> same_frame K K'
    \<and> (\<forall>b\<in>set (take n ws). woken 0 (k_threads K b) (k_threads K' b))
    \<and> k_threads K' a = Some (t\<lparr>th_ctx := (th_ctx t)\<lparr>c_eax := 0\<rparr>\<rparr>)
    \<and> (\<forall>b. b \<noteq> a \<and> b \<notin> set (take n ws) \<longrightarrow> k_threads K' b = k_threads K b)"
  using fut_wake_any_rep [OF assms(1-5,7)] assms(6) by blast

section \<open>An example\<close>

text \<open>The kernel of the examples, with a futex at address 4096 of the first process, whose queue is 40.\<close>

definition sample_map :: "(32 word, addr option) chm" where
  "sample_map = \<lparr>chm_key_size = 4, chm_val_size = 4, chm_ratio_index = 3, chm_key_eq = fm_key_eq,
     chm_key_hash = fm_key_hash, chm_cap = 1, chm_len = 1, chm_table = [Some 1],
     chm_nodes = [1 \<mapsto> \<lparr>hn_next = None, hn_prev = None, hn_hash = fm_key_hash 4096, hn_key = 4096, hn_val = Some 40\<rparr>],
     chm_iter = None\<rparr>"

definition sample_fut :: plugin_fut where
  "sample_fut = \<lparr>fut_maps = [Some sample_map, None, None]\<rparr>"

definition sample_fut_env :: "fernos_error \<Rightarrow> unit fut_env" where
  "sample_fut_env e = \<lparr>fe_from_user = (\<lambda>_ _ _. (e, 2)), fe_map_ok = True, fe_tbl_ok = True, fe_junk = None\<rparr>"

lemma sample_map_inv: "chm_inv sample_map [(4096, Some 40)]"
proof -
  have "equivp fm_key_eq" unfolding equivp_def fm_key_eq_def by auto
  then have "chm_wf sample_map [[1]]"
    unfolding chm_wf_def
    by (intro conjI exI [of _ 0])
      (auto simp: sample_map_def tab_rep_def homed_def chm_items_def node_kv_def nlinks_def fm_key_eq_def)
  then show ?thesis by (auto simp: chm_inv_def chm_items_def node_kv_def sample_map_def intro!: exI [of _ "[[1]]"])
qed

lemma sample_fut_caller:
  "fut_caller sample_fut sample_kernel 1 (sample_thread 0 50 THREAD_STATE_SCHEDULED None)
     (sample_proc 0 None (ll_one 51) (ll_one 52) (tbl_two 1 5) 1 31 False) 4096 40"
proof -
  have "futex_queue sample_map 4096 40" unfolding futex_queue_def
    by (intro exI [of _ "[(4096, Some 40)]"] conjI sample_map_inv) (simp_all add: sample_map_def fm_key_eq_def)
  then show ?thesis
    by (simp add: fut_caller_def sample_fut_def sample_threads) (simp add: sample_kernel_def sample_thread_def sample_proc_def)
qed

lemma sample_fut_places:
  "sample_schedule (k_schedule sample_kernel) = Some [1, 2]" "sample_queues 40 = Some (AWQ_basic [6] [])"
  by (simp_all add: sample_schedule_def sample_queues_def sample_kernel_def)

section \<open>The promises of the futex plugin\<close>

text \<open>C13. Waiting on a registered futex, with an allocator that does not fail: when the futex does not hold the
  expected value the call returns at once with success and no thread moves; when it does, the caller leaves
  the schedule and joins the end of the futex's queue, in the one atomic step, and no other thread changes.\<close>

theorem fut_wait_spec:
  assumes "placed K W S" and "S (k_schedule K) = Some (a # as)" and "fut_caller P K a t pr u q"
    and "W q = Some (AWQ_basic ws rs)" and "fe_from_user F (k_mem K) (pr_pd pr) u = (FOS_E_SUCCESS, v)"
    and "alloc_ok (ke_al E)" and "\<not> oom (ke_al E)"
  shows "\<exists>K'. plg_fut_cmd E F P K PLG_FUT_PCID_WAIT u exp_val = Some (FOS_E_SUCCESS, P, K') \<and> same_frame K K'
    \<and> (if v = exp_val
       then placed K' (W(q \<mapsto> AWQ_basic (ws @ [a]) rs)) (S(k_schedule K \<mapsto> as))
         \<and> k_threads K' = (k_threads K)(a \<mapsto> t\<lparr>th_wq := Some q, th_state := THREAD_STATE_WAITING\<rparr>)
       else placed K' W S
         \<and> k_threads K' = (k_threads K)(a \<mapsto> t\<lparr>th_ctx := (th_ctx t)\<lparr>c_eax := err_word FOS_E_SUCCESS\<rparr>\<rparr>))"
  using fut_wait_same_rep [OF assms] fut_wait_other_rep [OF assms(1-3,5)]
  by (cases "v = exp_val") (auto simp del: fun_upd_apply)

theorem fut_wait_spec_witness:
  "(\<exists>K'. plg_fut_cmd sample_env (sample_fut_env FOS_E_SUCCESS) sample_fut sample_kernel PLG_FUT_PCID_WAIT 4096 2
       = Some (FOS_E_SUCCESS, sample_fut, K')
     \<and> placed K' (sample_queues(40 \<mapsto> AWQ_basic [6, 1] [])) (sample_schedule(k_schedule sample_kernel \<mapsto> [2])))
   \<and> (\<exists>K'. plg_fut_cmd sample_env (sample_fut_env FOS_E_SUCCESS) sample_fut sample_kernel PLG_FUT_PCID_WAIT 4096 1
       = Some (FOS_E_SUCCESS, sample_fut, K') \<and> placed K' sample_queues sample_schedule)"
proof -
  have v: "fe_from_user (sample_fut_env FOS_E_SUCCESS) m pd u = (FOS_E_SUCCESS, 2)" for m pd u
    by (simp add: sample_fut_env_def)
  have al: "alloc_ok (ke_al sample_env)" "\<not> oom (ke_al sample_env)" by simp_all
  note w = fut_wait_spec [OF sample_placed sample_fut_places(1) sample_fut_caller sample_fut_places(2) v al]
  from w [of 2] w [of 1] show ?thesis by (auto simp del: fun_upd_apply)
qed

text \<open>C14. Waking a futex with no wake-up pending: all of its waiters, or the one that has waited longest, move to
  the end of the schedule in the order of their arrival, each with success in its result register; the
  others stay in the queue, the caller keeps running, and no other thread changes.\<close>

theorem fut_wake_spec:
  assumes "placed K W S" and "S (k_schedule K) = Some (a # as)" and "fut_caller P K a t pr u q"
    and "W q = Some (AWQ_basic ws [])" and "alloc_ok (ke_al E)" and "\<not> oom (ke_al E)"
    and "n = (if all \<noteq> 0 then length ws else 1)"
  shows "\<exists>K'. plg_fut_cmd E F P K PLG_FUT_PCID_WAKE u all = Some (FOS_E_SUCCESS, P, K')
    \<and> placed K' (W(q \<mapsto> AWQ_basic (drop n ws) [])) (S(k_schedule K \<mapsto> a # as @ take n ws)) \<and> same_frame K K'
    \<and> (\<forall>b\<in>set (take n ws). woken (err_word FOS_E_SUCCESS) (k_threads K b) (k_threads K' b))
    \<and> k_threads K' a = Some (t\<lparr>th_ctx := (th_ctx t)\<lparr>c_eax := err_word FOS_E_SUCCESS\<rparr>\<rparr>)
    \<and> (\<forall>b. b \<noteq> a \<and> b \<notin> set (take n ws) \<longrightarrow> k_threads K' b = k_threads K b)"
  unfolding err_word_ok by (rule fut_wake_rep [OF assms(1-6)]) (use assms(7) in \<open>simp add: wake_count_def\<close>)

theorem fut_wake_spec_witness:
  "\<exists>K'. plg_fut_cmd sample_env (sample_fut_env FOS_E_SUCCESS) sample_fut sample_kernel PLG_FUT_PCID_WAKE 4096 1
      = Some (FOS_E_SUCCESS, sample_fut, K')
    \<and> placed K' (sample_queues(40 \<mapsto> AWQ_basic [] [])) (sample_schedule(k_schedule sample_kernel \<mapsto> [1, 2, 6]))
    \<and> woken 0 (k_threads sample_kernel 6) (k_threads K' 6)"
proof -
  have al: "alloc_ok (ke_al sample_env)" "\<not> oom (ke_al sample_env)" by simp_all
  have n: "(1 :: nat) = (if (1 :: 32 word) \<noteq> 0 then length [6 :: addr] else 1)" by simp
  from fut_wake_spec [OF sample_placed sample_fut_places(1) sample_fut_caller sample_fut_places(2) al n,
      of "sample_fut_env FOS_E_SUCCESS"]
  show ?thesis by (auto simp del: fun_upd_apply)
qed

text \<open>C15. A thread that waits on a futex whose page its process has returned to the system since it was
  registered takes the whole system down: the error of the copy is the result of the kernel's own call, with
  nothing written to the caller, and the system call action shuts down on any such result.\<close>

theorem fut_unmapped_shuts_down:
  assumes "placed K W S" and "S (k_schedule K) = Some (a # as)" and "fut_caller P K a t pr u q"
    and "fe_from_user F (k_mem K) (pr_pd pr) u = (err, junk)" and "err \<noteq> FOS_E_SUCCESS"
  shows "plg_fut_cmd E F P K PLG_FUT_PCID_WAIT u exp_val = Some (err, P, K)
    \<and> finish (Returns err, K) = Some (Shutdown, K)"
proof -
  obtain m where "ks_head K = Some (Some a)" "k_threads K a = Some t" "k_procs K (th_proc t) = Some pr"
    "arr_get (fut_maps P) (pr_pid pr) = Some (Some m)" "u \<noteq> 0"
    "\<And>junk. mp_get (CHM_IMPL junk) m (Some u) = Some (Some (Some q))" using fut_callerE [OF assms(1-3)] by metis
  then show ?thesis using assms(4,5) by (simp add: plg_fut_cmd_def fut_wait_def Let_def finish_def
      PLG_FUT_PCID_REGISTER_def PLG_FUT_PCID_DEREGISTER_def PLG_FUT_PCID_WAIT_def)
qed

theorem fut_unmapped_shuts_down_witness:
  "plg_fut_cmd sample_env (sample_fut_env FOS_E_UNKNWON_ERROR) sample_fut sample_kernel PLG_FUT_PCID_WAIT 4096 7
     = Some (FOS_E_UNKNWON_ERROR, sample_fut, sample_kernel)
   \<and> finish (Returns FOS_E_UNKNWON_ERROR, sample_kernel) = Some (Shutdown, sample_kernel)"
proof -
  have v: "fe_from_user (sample_fut_env FOS_E_UNKNWON_ERROR) m pd u = (FOS_E_UNKNWON_ERROR, 2)" for m pd u
    by (simp add: sample_fut_env_def)
  show ?thesis
    by (rule fut_unmapped_shuts_down [OF sample_placed sample_fut_places(1) sample_fut_caller v]) simp
qed

end
