(* ===== verification/Mutex.thy ===== *)
theory Mutex imports Futex_Correctness begin

text \<open>
  The user space mutex (\<^verbatim>\<open>u_concur/src/mutex.c\<close>): the threads of a process that lock and unlock one
  mutex, interleaved at every atomic access to its word and at every system call, over the futex of the
  kernel.  The last section ties the two futex steps to the commands of the plugin.
\<close>

section \<open>The program\<close>

abbreviation (input) "MUT_UNLOCKED \<equiv> (0 :: 32 word)"
abbreviation (input) "MUT_LOCKED_UNCONTENDED \<equiv> (1 :: 32 word)"
abbreviation (input) "MUT_LOCKED_CONTENDED \<equiv> (2 :: 32 word)"

text \<open>
  Where a thread stands: before the three calls of the loop of \<^verbatim>\<open>mut_lock\<close>, asleep in the third of them,
  holding the lock, before the three calls of \<^verbatim>\<open>mut_unlock\<close>, or back from a call with its result.
\<close>

datatype mut_pc =
    M_RET fernos_error
  | M_LOCK_CAS | M_LOCK_MARK | M_LOCK_WAIT | M_ASLEEP
  | M_LOCKED
  | M_UNLOCK_FAST | M_UNLOCK_SLOW | M_UNLOCK_WAKE

record mut_state =
  mut_val :: "32 word"
  mut_pcs :: "addr \<Rightarrow> mut_pc"
  mut_waiters :: "addr list"

definition sync_val_cas :: "32 word \<Rightarrow> 32 word \<Rightarrow> 32 word \<Rightarrow> 32 word \<times> 32 word" where
  "sync_val_cas v old new = (v, if v = old then new else v)"

definition goto_pc :: "addr \<Rightarrow> mut_pc \<Rightarrow> mut_state \<Rightarrow> mut_state" where
  "goto_pc i pc s = s\<lparr>mut_pcs := (mut_pcs s)(i := pc)\<rparr>"

text \<open>\<open>wait_err\<close> is how the kernel fares when it has to enqueue the caller.\<close>

definition sc_fut_wait :: "fernos_error \<Rightarrow> addr \<Rightarrow> 32 word \<Rightarrow> mut_state \<Rightarrow> mut_state" where
  "sc_fut_wait wait_err i exp_val s =
     (if mut_val s \<noteq> exp_val then goto_pc i M_LOCK_CAS s
      else if wait_err \<noteq> FOS_E_SUCCESS then goto_pc i (M_RET wait_err) s
      else (goto_pc i M_ASLEEP s)\<lparr>mut_waiters := mut_waiters s @ [i]\<rparr>)"

definition sc_fut_wake_all :: "addr \<Rightarrow> mut_state \<Rightarrow> mut_state" where
  "sc_fut_wake_all i s =
     s\<lparr>mut_waiters := [],
       mut_pcs := (\<lambda>j. if j \<in> set (mut_waiters s) then M_LOCK_CAS else mut_pcs s j)(i := M_RET FOS_E_SUCCESS)\<rparr>"

definition mut_lock_run :: "fernos_error \<Rightarrow> addr \<Rightarrow> mut_state \<Rightarrow> mut_state" where
  "mut_lock_run wait_err i s =
     (case mut_pcs s i of
        M_LOCK_CAS \<Rightarrow>
          let (old, v) = sync_val_cas (mut_val s) MUT_UNLOCKED MUT_LOCKED_UNCONTENDED
          in goto_pc i (if old \<noteq> MUT_UNLOCKED then M_LOCK_MARK else M_LOCKED) (s\<lparr>mut_val := v\<rparr>)
      | M_LOCK_MARK \<Rightarrow>
          let (_, v) = sync_val_cas (mut_val s) MUT_LOCKED_UNCONTENDED MUT_LOCKED_CONTENDED
          in goto_pc i M_LOCK_WAIT (s\<lparr>mut_val := v\<rparr>)
      | M_LOCK_WAIT \<Rightarrow> sc_fut_wait wait_err i MUT_LOCKED_CONTENDED s
      | _ \<Rightarrow> s)"

definition mut_unlock_run :: "addr \<Rightarrow> mut_state \<Rightarrow> mut_state" where
  "mut_unlock_run i s =
     (case mut_pcs s i of
        M_UNLOCK_FAST \<Rightarrow>
          let (old, v) = sync_val_cas (mut_val s) MUT_LOCKED_UNCONTENDED MUT_UNLOCKED
          in goto_pc i (if old = MUT_LOCKED_UNCONTENDED then M_RET FOS_E_SUCCESS else M_UNLOCK_SLOW) (s\<lparr>mut_val := v\<rparr>)
      | M_UNLOCK_SLOW \<Rightarrow>
          let (old, v) = sync_val_cas (mut_val s) MUT_LOCKED_CONTENDED MUT_UNLOCKED
          in goto_pc i (if old = MUT_LOCKED_CONTENDED then M_UNLOCK_WAKE else M_RET FOS_E_STATE_MISMATCH) (s\<lparr>mut_val := v\<rparr>)
      | M_UNLOCK_WAKE \<Rightarrow> sc_fut_wake_all i s
      | _ \<Rightarrow> s)"

text \<open>\<open>register_err\<close> is the result of \<^verbatim>\<open>sc_fut_register\<close>.\<close>

definition init_mutex :: "bool \<Rightarrow> fernos_error \<Rightarrow> mut_state \<Rightarrow> fernos_error \<times> mut_state" where
  "init_mutex given register_err s =
     (if \<not> given then (FOS_E_BAD_ARGS, s) else (register_err, s\<lparr>mut_val := MUT_UNLOCKED\<rparr>))"

section \<open>Interleaving\<close>

text \<open>
  Any thread takes the next step of the call it is in; a thread outside calls may lock, and only the
  thread that holds the mutex unlocks it.  The mutex stays registered, so that a wait fails only for want
  of memory.
\<close>

inductive mut_step :: "mut_state \<Rightarrow> mut_state \<Rightarrow> bool" where
  call_lock: "mut_pcs s i = M_RET e \<Longrightarrow> mut_step s (goto_pc i M_LOCK_CAS s)"
| call_unlock: "mut_pcs s i = M_LOCKED \<Longrightarrow> mut_step s (goto_pc i M_UNLOCK_FAST s)"
| lock: "e \<in> {FOS_E_SUCCESS, FOS_E_NO_MEM} \<Longrightarrow> mut_step s (mut_lock_run e i s)"
| unlock: "mut_step s (mut_unlock_run i s)"

inductive mut_reachable :: "mut_state \<Rightarrow> bool" where
  start: "init_mutex True FOS_E_SUCCESS \<lparr>mut_val = v, mut_pcs = (\<lambda>_. M_RET FOS_E_SUCCESS), mut_waiters = []\<rparr> = (FOS_E_SUCCESS, s)
    \<Longrightarrow> mut_reachable s"
| step: "mut_reachable s \<Longrightarrow> mut_step s s' \<Longrightarrow> mut_reachable s'"

definition holds_mutex :: "mut_state \<Rightarrow> addr \<Rightarrow> bool" where
  "holds_mutex s i \<longleftrightarrow> mut_pcs s i \<in> {M_LOCKED, M_UNLOCK_FAST, M_UNLOCK_SLOW}"

definition mut_inv :: "mut_state \<Rightarrow> bool" where
  "mut_inv s \<longleftrightarrow>
     mut_val s \<in> {0, 1, 2} \<and> (mut_val s \<noteq> 0 \<longleftrightarrow> (\<exists>i. holds_mutex s i))
     \<and> (\<forall>i j. holds_mutex s i \<longrightarrow> holds_mutex s j \<longrightarrow> i = j)
     \<and> (\<forall>i. mut_pcs s i = M_UNLOCK_SLOW \<longrightarrow> mut_val s = 2)
     \<and> (\<forall>i. i \<in> set (mut_waiters s) \<longleftrightarrow> mut_pcs s i = M_ASLEEP)
     \<and> (\<forall>i e. mut_pcs s i = M_RET e \<longrightarrow> e \<in> {FOS_E_SUCCESS, FOS_E_NO_MEM})
     \<and> (mut_waiters s \<noteq> [] \<longrightarrow> mut_val s = 2 \<or> (\<exists>i. mut_pcs s i = M_UNLOCK_WAKE))"

lemma mut_invD:
  assumes "mut_inv s"
  shows "mut_val s = 0 \<or> mut_val s = 1 \<or> mut_val s = 2" "mut_val s \<noteq> 0 \<longleftrightarrow> (\<exists>i. holds_mutex s i)"
    "holds_mutex s i \<Longrightarrow> holds_mutex s j \<Longrightarrow> i = j" "mut_pcs s i = M_UNLOCK_SLOW \<Longrightarrow> mut_val s = 2"
    "i \<in> set (mut_waiters s) \<longleftrightarrow> mut_pcs s i = M_ASLEEP"
    "mut_pcs s i = M_RET e \<Longrightarrow> e = FOS_E_SUCCESS \<or> e = FOS_E_NO_MEM"
    "mut_waiters s \<noteq> [] \<Longrightarrow> mut_val s = 2 \<or> (\<exists>i. mut_pcs s i = M_UNLOCK_WAKE)"
  using assms unfolding mut_inv_def by blast+

text \<open>The thread \<open>i\<close> moves from one place to another, neither of them in the queue.\<close>

lemma mut_inv_goto:
  assumes inv: "mut_inv s" and i: "mut_pcs s i \<noteq> M_ASLEEP" "pc \<noteq> M_ASLEEP" "pc = M_UNLOCK_SLOW \<longrightarrow> v = 2"
    and s': "s' = goto_pc i pc (s\<lparr>mut_val := v\<rparr>)" and v: "v \<in> {0, 1, 2}"
    and ret: "\<And>e. pc = M_RET e \<Longrightarrow> e \<in> {FOS_E_SUCCESS, FOS_E_NO_MEM}"
    and own: "holds_mutex s i \<or> mut_val s = 0 \<or> pc \<notin> {M_LOCKED, M_UNLOCK_FAST, M_UNLOCK_SLOW}"
    and val: "v \<noteq> 0 \<longleftrightarrow> pc \<in> {M_LOCKED, M_UNLOCK_FAST, M_UNLOCK_SLOW} \<or> (mut_val s \<noteq> 0 \<and> \<not> holds_mutex s i)"
    and up: "mut_val s = 2 \<longrightarrow> v = 2 \<or> pc = M_UNLOCK_WAKE \<and> v = 0"
    and wake: "mut_pcs s i = M_UNLOCK_WAKE \<longrightarrow> pc = M_UNLOCK_WAKE"
  shows "mut_inv s'"
proof -
  have h: "holds_mutex s' j \<longleftrightarrow> (if j = i then pc \<in> {M_LOCKED, M_UNLOCK_FAST, M_UNLOCK_SLOW} else holds_mutex s j)" for j
    by (simp add: s' holds_mutex_def goto_pc_def)
  have p: "mut_pcs s' j = (if j = i then pc else mut_pcs s j)" for j by (simp add: s' goto_pc_def)
  have f: "mut_val s' = v" "mut_waiters s' = mut_waiters s" by (simp_all add: s' goto_pc_def)
  note D = mut_invD [OF inv]
  have "mut_val s' \<noteq> 0 \<longleftrightarrow> (\<exists>j. holds_mutex s' j)"
    unfolding f h using val D(2,3) by metis
  moreover have "j = k" if "holds_mutex s' j" "holds_mutex s' k" for j k
    using that own D(2,3) unfolding h by (auto split: if_splits)
  moreover have "mut_val s' = 2" if "mut_pcs s' j = M_UNLOCK_SLOW" for j
  proof (cases "j = i")
    case False
    then have "mut_val s = 2" "holds_mutex s j" using that D(4) by (auto simp: p holds_mutex_def)
    then show ?thesis using up own val D(2,3) False f by metis
  qed (use that i(3) in \<open>simp add: p f\<close>)
  moreover have "j \<in> set (mut_waiters s') \<longleftrightarrow> mut_pcs s' j = M_ASLEEP" for j
    using D(5) i(1,2) by (auto simp: p f)
  moreover have "e \<in> {FOS_E_SUCCESS, FOS_E_NO_MEM}" if "mut_pcs s' j = M_RET e" for j e
    using that ret D(6) by (auto simp: p split: if_splits)
  moreover have "mut_val s' = 2 \<or> (\<exists>j. mut_pcs s' j = M_UNLOCK_WAKE)" if w: "mut_waiters s' \<noteq> []"
    using D(7) w up wake unfolding f p by metis
  ultimately show ?thesis unfolding mut_inv_def using v f(1) by blast
qed

lemma mut_inv_wait:
  assumes inv: "mut_inv s" and i: "mut_pcs s i = M_LOCK_WAIT" and e: "e \<in> {FOS_E_SUCCESS, FOS_E_NO_MEM}"
  shows "mut_inv (sc_fut_wait e i 2 s)"
proof (cases "mut_val s = 2 \<and> e = FOS_E_SUCCESS")
  case True
  let ?s = "(goto_pc i M_ASLEEP s)\<lparr>mut_waiters := mut_waiters s @ [i]\<rparr>"
  have h: "holds_mutex ?s = holds_mutex s" using i by (auto simp: fun_eq_iff holds_mutex_def goto_pc_def)
  have p: "mut_pcs ?s j = (if j = i then M_ASLEEP else mut_pcs s j)" for j by (simp add: goto_pc_def)
  have v: "mut_val ?s = 2" "mut_waiters ?s = mut_waiters s @ [i]" using True by (simp_all add: goto_pc_def)
  have "mut_inv ?s" using inv True unfolding mut_inv_def h p v by auto
  then show ?thesis using True by (simp add: sc_fut_wait_def)
next
  case False
  then have pc: "sc_fut_wait e i 2 s
      = goto_pc i (if mut_val s \<noteq> 2 then M_LOCK_CAS else M_RET e) (s\<lparr>mut_val := mut_val s\<rparr>)"
    by (simp add: sc_fut_wait_def)
  show ?thesis
    by (rule mut_inv_goto [OF inv _ _ _ pc]) (use i e mut_invD(1) [OF inv] in \<open>auto simp: holds_mutex_def\<close>)
qed

lemma mut_inv_wake:
  assumes inv: "mut_inv s" and i: "mut_pcs s i = M_UNLOCK_WAKE"
  shows "mut_inv (sc_fut_wake_all i s)"
proof -
  let ?s = "sc_fut_wake_all i s"
  note D = mut_invD [OF inv]
  have p: "mut_pcs ?s j = (if j = i then M_RET FOS_E_SUCCESS else if mut_pcs s j = M_ASLEEP then M_LOCK_CAS else mut_pcs s j)" for j
    using D(5) by (simp add: sc_fut_wake_all_def)
  have h: "holds_mutex ?s = holds_mutex s" using i by (auto simp: fun_eq_iff holds_mutex_def p)
  have f: "mut_val ?s = mut_val s" "mut_waiters ?s = []" by (simp_all add: sc_fut_wake_all_def)
  show ?thesis using inv unfolding mut_inv_def h f p by (auto split: if_splits)
qed

lemma mut_inv_lock_run:
  assumes inv: "mut_inv s" and e: "e \<in> {FOS_E_SUCCESS, FOS_E_NO_MEM}"
  shows "mut_inv (mut_lock_run e i s)"
proof (cases "mut_pcs s i")
  case M_LOCK_CAS
  show ?thesis
    by (rule mut_inv_goto [OF inv, where i = i and v = "if mut_val s = 0 then 1 else mut_val s"
        and pc = "if mut_val s = 0 then M_LOCKED else M_LOCK_MARK"])
      (use M_LOCK_CAS mut_invD(1) [OF inv] in \<open>auto simp: mut_lock_run_def sync_val_cas_def holds_mutex_def\<close>)
next
  case M_LOCK_MARK
  show ?thesis
    by (rule mut_inv_goto [OF inv, where i = i and v = "if mut_val s = 1 then 2 else mut_val s" and pc = M_LOCK_WAIT])
      (use M_LOCK_MARK mut_invD(1) [OF inv] in \<open>auto simp: mut_lock_run_def sync_val_cas_def holds_mutex_def\<close>)
next
  case M_LOCK_WAIT
  then show ?thesis using mut_inv_wait [OF inv _ e] by (simp add: mut_lock_run_def)
qed (use inv in \<open>simp_all add: mut_lock_run_def\<close>)

lemma mut_inv_unlock_run:
  assumes inv: "mut_inv s"
  shows "mut_inv (mut_unlock_run i s)"
proof (cases "mut_pcs s i")
  case M_UNLOCK_FAST
  then have h: "holds_mutex s i" by (simp add: holds_mutex_def)
  then have v: "mut_val s = 1 \<or> mut_val s = 2" using mut_invD(1,2) [OF inv] by metis
  show ?thesis
    by (rule mut_inv_goto [OF inv, where i = i and v = "if mut_val s = 1 then 0 else mut_val s"
        and pc = "if mut_val s = 1 then M_RET FOS_E_SUCCESS else M_UNLOCK_SLOW"])
      (use M_UNLOCK_FAST h v in \<open>auto simp: mut_unlock_run_def sync_val_cas_def\<close>)
next
  case M_UNLOCK_SLOW
  then have h: "holds_mutex s i" and v: "mut_val s = 2" using mut_invD(4) [OF inv] by (simp_all add: holds_mutex_def)
  show ?thesis
    by (rule mut_inv_goto [OF inv, where i = i and v = 0 and pc = M_UNLOCK_WAKE])
      (use M_UNLOCK_SLOW h v in \<open>auto simp: mut_unlock_run_def sync_val_cas_def\<close>)
next
  case M_UNLOCK_WAKE
  then show ?thesis using mut_inv_wake [OF inv] by (simp add: mut_unlock_run_def)
qed (use inv in \<open>simp_all add: mut_unlock_run_def\<close>)

lemma mut_inv_step: "mut_step s s' \<Longrightarrow> mut_inv s \<Longrightarrow> mut_inv s'"
proof (induction rule: mut_step.induct)
  case (call_lock s i e)
  show ?case
    by (rule mut_inv_goto [OF call_lock(2), where i = i and v = "mut_val s" and pc = M_LOCK_CAS])
      (use call_lock(1) mut_invD(1) [OF call_lock(2)] in \<open>auto simp: holds_mutex_def\<close>)
next
  case (call_unlock s i)
  then have h: "holds_mutex s i" by (simp add: holds_mutex_def)
  then have "mut_val s \<noteq> 0" using mut_invD(2) [OF call_unlock(2)] by metis
  then show ?case
    by - (rule mut_inv_goto [OF call_unlock(2), where i = i and v = "mut_val s" and pc = M_UNLOCK_FAST];
      use h call_unlock(1) mut_invD(1) [OF call_unlock(2)] in auto)
qed (rule mut_inv_lock_run mut_inv_unlock_run; assumption)+

lemma mut_inv_reachable: "mut_reachable s \<Longrightarrow> mut_inv s"
proof (induction rule: mut_reachable.induct)
  case (start v s)
  then show ?case by (auto simp: mut_inv_def holds_mutex_def init_mutex_def)
qed (rule mut_inv_step)

section \<open>The promises of the mutex\<close>

text \<open>
  The thread that the waiters depend on, running alone: it calls unlock if it has not yet, and takes the
  three steps of that call, fewer if it is in the middle of it.
\<close>

definition unlock_alone :: "addr \<Rightarrow> mut_state \<Rightarrow> mut_state" where
  "unlock_alone i s = (mut_unlock_run i ^^ 3) (if mut_pcs s i = M_LOCKED then goto_pc i M_UNLOCK_FAST s else s)"

lemma unlock_alone_steps: "mut_step\<^sup>*\<^sup>* s (unlock_alone i s)"
proof -
  have "mut_step\<^sup>*\<^sup>* s (if mut_pcs s i = M_LOCKED then goto_pc i M_UNLOCK_FAST s else s)"
    using mut_step.call_unlock by auto
  moreover have "mut_step\<^sup>*\<^sup>* t ((mut_unlock_run i ^^ n) t)" for n t
    by (induction n) (auto intro: rtranclp.rtrancl_into_rtrancl mut_step.unlock)
  ultimately show ?thesis unfolding unlock_alone_def by (rule rtranclp_trans)
qed

lemma unlock_alone_wakes:
  assumes inv: "mut_inv s" and i: "mut_pcs s i = M_UNLOCK_WAKE \<or> holds_mutex s i \<and> mut_val s = 2"
  shows "mut_waiters (unlock_alone i s) = []" and "mut_pcs (unlock_alone i s) i = M_RET FOS_E_SUCCESS"
    and "mut_pcs s j = M_ASLEEP \<Longrightarrow> mut_pcs (unlock_alone i s) j = M_LOCK_CAS"
proof -
  have "mut_pcs s i \<in> {M_LOCKED, M_UNLOCK_FAST, M_UNLOCK_SLOW, M_UNLOCK_WAKE}" using i by (auto simp: holds_mutex_def)
  then have "mut_waiters (unlock_alone i s) = [] \<and> mut_pcs (unlock_alone i s) i = M_RET FOS_E_SUCCESS
    \<and> (mut_pcs s j = M_ASLEEP \<longrightarrow> mut_pcs (unlock_alone i s) j = M_LOCK_CAS)" for j
    using i mut_invD(5) [OF inv, of j] by (auto simp: unlock_alone_def numeral_3_eq_3 mut_unlock_run_def goto_pc_def
        sync_val_cas_def sc_fut_wake_all_def holds_mutex_def)
  then show "mut_waiters (unlock_alone i s) = []" "mut_pcs (unlock_alone i s) i = M_RET FOS_E_SUCCESS"
    "mut_pcs s j = M_ASLEEP \<Longrightarrow> mut_pcs (unlock_alone i s) j = M_LOCK_CAS" by blast+
qed

text \<open>The calls that end: a thread in the middle of one of them, and the result it gets.\<close>

definition locking :: "mut_pc \<Rightarrow> bool" where
  "locking pc \<longleftrightarrow> pc \<in> {M_LOCK_CAS, M_LOCK_MARK, M_LOCK_WAIT, M_ASLEEP}"

definition unlocking :: "mut_pc \<Rightarrow> bool" where
  "unlocking pc \<longleftrightarrow> pc \<in> {M_UNLOCK_FAST, M_UNLOCK_SLOW, M_UNLOCK_WAKE}"

lemma mut_unlock_returns:
  assumes inv: "mut_inv s" and pc: "unlocking (mut_pcs s i)" and ret: "mut_pcs (mut_unlock_run i s) i = M_RET e"
  shows "e = FOS_E_SUCCESS"
  using pc ret mut_invD(4) [OF inv, of i]
  by (auto simp: unlocking_def mut_unlock_run_def goto_pc_def sync_val_cas_def sc_fut_wake_all_def split: if_splits)

lemma mut_lock_returns:
  "locking (mut_pcs s i) \<Longrightarrow> mut_pcs (mut_lock_run we i s) i = M_RET e \<Longrightarrow> e = we \<and> e \<noteq> FOS_E_SUCCESS"
  by (auto simp: locking_def mut_lock_run_def goto_pc_def sync_val_cas_def sc_fut_wait_def split: if_splits)

section \<open>An example\<close>

text \<open>Threads 1 and 6 contend: 1 locks, 6 marks the mutex and goes to sleep.\<close>

definition mut_start :: mut_state where
  "mut_start = \<lparr>mut_val = 0, mut_pcs = (\<lambda>_. M_RET FOS_E_SUCCESS), mut_waiters = []\<rparr>"

definition mut_contended :: mut_state where
  "mut_contended =
     (let run = (\<lambda>i. mut_lock_run FOS_E_SUCCESS i)
      in run 6 (run 6 (run 6 (goto_pc 6 M_LOCK_CAS (run 1 (goto_pc 1 M_LOCK_CAS mut_start))))))"

lemma mut_contended_reachable: "mut_reachable mut_contended"
proof -
  have r: "mut_reachable mut_start" by (rule mut_reachable.start) (simp add: init_mutex_def mut_start_def)
  have l: "mut_reachable s \<Longrightarrow> mut_reachable (mut_lock_run FOS_E_SUCCESS i s)" for s i
    by (erule mut_reachable.step) (rule mut_step.lock, simp)
  have c: "mut_reachable s \<Longrightarrow> mut_pcs s i = M_RET e \<Longrightarrow> mut_reachable (goto_pc i M_LOCK_CAS s)" for s i e
    by (erule mut_reachable.step) (rule mut_step.call_lock)
  show ?thesis unfolding mut_contended_def Let_def
    by (intro l c [where e = FOS_E_SUCCESS] r)
      (simp_all add: mut_start_def mut_lock_run_def goto_pc_def sync_val_cas_def)
qed

lemma mut_contended_state:
  "mut_val mut_contended = 2" "mut_waiters mut_contended = [6]"
  "mut_pcs mut_contended = (\<lambda>_. M_RET FOS_E_SUCCESS)(1 := M_LOCKED, 6 := M_ASLEEP)"
  by (simp_all add: mut_contended_def mut_start_def mut_lock_run_def goto_pc_def sync_val_cas_def sc_fut_wait_def
      Let_def fun_eq_iff)

section \<open>The promises of the mutex\<close>

text \<open>C10. Mutual exclusion, whatever the interleaving: no two threads hold the mutex, which is locked while one
  does; a call of unlock by the holder, when it returns, returns success, and a call of lock returns success, the
  holder then being the caller, or the lack of memory that the kernel met.  (A wake that finds no memory does
  not return: it stops the system, see the refinement below.)\<close>

theorem mutex_exclusion:
  assumes "mut_reachable s"
  shows "(holds_mutex s i \<longrightarrow> holds_mutex s j \<longrightarrow> i = j) \<and> (mut_val s \<noteq> MUT_UNLOCKED \<longleftrightarrow> (\<exists>k. holds_mutex s k))
    \<and> (unlocking (mut_pcs s i) \<and> mut_pcs (mut_unlock_run i s) i = M_RET e \<longrightarrow> e = FOS_E_SUCCESS)
    \<and> (locking (mut_pcs s i) \<and> mut_pcs (mut_lock_run we i s) i = M_RET e \<longrightarrow> e = we \<and> e \<noteq> FOS_E_SUCCESS)"
  using mut_invD [OF mut_inv_reachable [OF assms]] mut_unlock_returns [OF mut_inv_reachable [OF assms]]
    mut_lock_returns by blast

theorem mutex_exclusion_witness: "holds_mutex mut_contended 1 \<and> \<not> holds_mutex mut_contended 6"
  using mutex_exclusion [OF mut_contended_reachable, of 1 6 FOS_E_SUCCESS FOS_E_SUCCESS]
  by (auto simp: holds_mutex_def mut_contended_state)

text \<open>C11. No lost wake-up: whenever threads sleep on the mutex there is a thread, the holder or one on its way to
  the wake call, whose own next steps (at most an unlock call and the three steps of it) wake them all to
  try again.\<close>

theorem mutex_no_lost_wakeup:
  assumes "mut_reachable s" and "mut_pcs s j = M_ASLEEP"
  shows "\<exists>i. (holds_mutex s i \<or> mut_pcs s i = M_UNLOCK_WAKE) \<and> mut_step\<^sup>*\<^sup>* s (unlock_alone i s)
    \<and> mut_waiters (unlock_alone i s) = [] \<and> mut_pcs (unlock_alone i s) i = M_RET FOS_E_SUCCESS
    \<and> (\<forall>k. mut_pcs s k = M_ASLEEP \<longrightarrow> mut_pcs (unlock_alone i s) k = M_LOCK_CAS)"
proof -
  note inv = mut_inv_reachable [OF assms(1)]
  have "mut_waiters s \<noteq> []" using mut_invD(5) [OF inv, of j] assms(2) by auto
  moreover have two: "(2 :: 32 word) \<noteq> 0" by simp
  ultimately obtain i where "mut_pcs s i = M_UNLOCK_WAKE \<or> holds_mutex s i \<and> mut_val s = 2"
    using mut_invD(2,7) [OF inv] two by metis
  then show ?thesis using unlock_alone_wakes [OF inv] unlock_alone_steps by blast
qed

theorem mutex_no_lost_wakeup_witness: "\<exists>i. mut_pcs (unlock_alone i mut_contended) 6 = M_LOCK_CAS"
proof -
  have "mut_pcs mut_contended 6 = M_ASLEEP" by (simp add: mut_contended_state)
  from mutex_no_lost_wakeup [OF mut_contended_reachable this] this show ?thesis by blast
qed

text \<open>What the kernel does to the calling thread when a step of the mutex leaves it at a place: asleep in the queue, or
  back from the call with the result in its register.\<close>

definition after_call :: "addr \<Rightarrow> mut_pc \<Rightarrow> thread \<Rightarrow> thread" where
  "after_call q pc t =
     (case pc of
        M_ASLEEP \<Rightarrow> t\<lparr>th_wq := Some q, th_state := THREAD_STATE_WAITING\<rparr>
      | M_RET e \<Rightarrow> t\<lparr>th_ctx := (th_ctx t)\<lparr>c_eax := err_word e\<rparr>\<rparr>
      | _ \<Rightarrow> t\<lparr>th_ctx := (th_ctx t)\<lparr>c_eax := err_word FOS_E_SUCCESS\<rparr>\<rparr>)"

text \<open>C12. The kernel implements the futex steps of the mutex, with any allocator: when the queue of the futex holds the
  waiters of the mutex and the word read from the process is the mutex's value, the wait command makes the
  step of the mutex, for an enqueue that succeeds or, when memory has run out, for one that fails: the queue
  holds the waiters the step leaves, and the caller is off the schedule and asleep in the queue exactly when
  the step put it to sleep, and otherwise has the result of the step in its register.  The wake command makes
  its step too: every waiter joins the schedule, in order, with success in its result register, as the caller
  gets it; only if memory runs out on the way does the kernel get an error instead, which stops the system.\<close>

theorem mutex_futex_refinement:
  assumes "placed K W S" and "S (k_schedule K) = Some (i # as)" and "fut_caller P K i t pr u q"
    and "W q = Some (AWQ_basic (mut_waiters s) [])" and "fe_from_user F (k_mem K) (pr_pd pr) u = (FOS_E_SUCCESS, mut_val s)"
    and "alloc_ok (ke_al E)"
  shows "(\<exists>e K'. let s' = sc_fut_wait e i MUT_LOCKED_CONTENDED s in
        (e = FOS_E_SUCCESS \<or> e = FOS_E_NO_MEM \<and> oom (ke_al E))
        \<and> plg_fut_cmd E F P K PLG_FUT_PCID_WAIT u MUT_LOCKED_CONTENDED = Some (FOS_E_SUCCESS, P, K')
        \<and> placed K' (W(q \<mapsto> AWQ_basic (mut_waiters s') [])) (S(k_schedule K \<mapsto> if mut_pcs s' i = M_ASLEEP then as else i # as))
        \<and> k_threads K' = (k_threads K)(i \<mapsto> after_call q (mut_pcs s' i) t) \<and> same_frame K K')
    \<and> (\<exists>K'. let s' = sc_fut_wake_all i s in
        plg_fut_cmd E F P K PLG_FUT_PCID_WAKE u 1 = Some (FOS_E_SUCCESS, P, K')
        \<and> placed K' (W(q \<mapsto> AWQ_basic (mut_waiters s') [])) (S(k_schedule K \<mapsto> i # as @ mut_waiters s))
        \<and> k_threads K' i = Some (after_call q (mut_pcs s' i) t)
        \<and> (\<forall>j\<in>set (mut_waiters s). woken (err_word FOS_E_SUCCESS) (k_threads K j) (k_threads K' j))
        \<and> (\<forall>j. j \<noteq> i \<and> j \<notin> set (mut_waiters s) \<longrightarrow> k_threads K' j = k_threads K j) \<and> same_frame K K'
        \<or> oom (ke_al E) \<and> plg_fut_cmd E F P K PLG_FUT_PCID_WAKE u 1 = Some (FOS_E_NO_MEM, P, K'))"
    (is "?wait \<and> ?wake")
proof (intro conjI)
  have id: "W(q \<mapsto> AWQ_basic (mut_waiters s) []) = W" "S(k_schedule K \<mapsto> i # as) = S" using assms(2,4) by auto
  have step: "mut_waiters (sc_fut_wait e i 2 s) = (if mut_val s = 2 \<and> e = FOS_E_SUCCESS then mut_waiters s @ [i] else mut_waiters s)"
    "mut_pcs (sc_fut_wait e i 2 s) i =
      (if mut_val s \<noteq> 2 then M_LOCK_CAS else if e = FOS_E_SUCCESS then M_ASLEEP else M_RET e)" for e
    by (simp_all add: sc_fut_wait_def goto_pc_def)
  show ?wait
  proof (cases "mut_val s = 2")
    case True
    from fut_wait_full_rep [OF assms] obtain K' where
      "plg_fut_cmd E F P K PLG_FUT_PCID_WAIT u 2 = Some (FOS_E_SUCCESS, P, K')" "same_frame K K'"
      "placed K' (W(q \<mapsto> AWQ_basic (mut_waiters s @ [i]) [])) (S(k_schedule K \<mapsto> as))
         \<and> k_threads K' = (k_threads K)(i \<mapsto> after_call q M_ASLEEP t)
       \<or> oom (ke_al E) \<and> placed K' W S \<and> k_threads K' = (k_threads K)(i \<mapsto> after_call q (M_RET FOS_E_NO_MEM) t)"
      unfolding True after_call_def by auto
    then show ?thesis unfolding Let_def step using True
      by (elim disjE; intro exI [of _ K'] exI [of _ FOS_E_SUCCESS] exI [of _ FOS_E_NO_MEM])
        (simp_all add: id del: fun_upd_apply)
  next
    case False
    from fut_wait_other_rep [OF assms(1-3,5) False, of E] show ?thesis unfolding Let_def step using False
      by (intro exI [of _ FOS_E_SUCCESS]) (auto simp: id after_call_def simp del: fun_upd_apply)
  qed
  have one: "mut_pcs (sc_fut_wake_all i s) i = M_RET FOS_E_SUCCESS" "mut_waiters (sc_fut_wake_all i s) = []"
    by (simp_all add: sc_fut_wake_all_def)
  have n: "length (mut_waiters s) = wake_count ((1 :: 32 word) \<noteq> 0) (length (mut_waiters s))" by (simp add: wake_count_def)
  show ?wake using fut_wake_any_rep [OF assms(1-4,6) n, of F] unfolding Let_def one
    by (auto simp: after_call_def simp del: fun_upd_apply)
qed

theorem mutex_futex_refinement_witness:
  "\<exists>K' K''. plg_fut_cmd sample_env (sample_fut_env FOS_E_SUCCESS) sample_fut sample_kernel PLG_FUT_PCID_WAKE 4096 1
      = Some (FOS_E_SUCCESS, sample_fut, K')
    \<and> placed K' (sample_queues(40 \<mapsto> AWQ_basic [] [])) (sample_schedule(k_schedule sample_kernel \<mapsto> [1, 2, 6]))
    \<and> woken (err_word FOS_E_SUCCESS) (k_threads sample_kernel 6) (k_threads K' 6)
    \<and> plg_fut_cmd sample_env (sample_fut_env FOS_E_SUCCESS) sample_fut sample_kernel PLG_FUT_PCID_WAIT 4096 2
      = Some (FOS_E_SUCCESS, sample_fut, K'')
    \<and> placed K'' (sample_queues(40 \<mapsto> AWQ_basic [6, 1] [])) (sample_schedule(k_schedule sample_kernel \<mapsto> [2]))"
proof -
  have W: "sample_queues 40 = Some (AWQ_basic (mut_waiters mut_contended) [])"
    using sample_fut_places(2) by (simp add: mut_contended_state)
  have v: "fe_from_user (sample_fut_env FOS_E_SUCCESS) m pd u = (FOS_E_SUCCESS, mut_val mut_contended)" for m pd u
    by (simp add: sample_fut_env_def mut_contended_state)
  have al: "alloc_ok (ke_al sample_env)" "\<not> oom (ke_al sample_env)" by simp_all
  from mutex_futex_refinement [OF sample_placed sample_fut_places(1) sample_fut_caller W v al(1)] al(2) show ?thesis
    unfolding Let_def
    by (auto simp: sc_fut_wake_all_def sc_fut_wait_def goto_pc_def mut_contended_state fun_upd_same
        simp del: fun_upd_apply One_nat_def)
qed

end
