(* ===== verification/Plugin_Pipe.thy ===== *)
theory Plugin_Pipe imports Actions Scheduling Byte_Cells begin

text \<open>
  The pipe plugin (\<^verbatim>\<open>k_startup/src/plugin_pipe.c\<close>): cyclic byte buffers with a reading and a writing end,
  the handle states of the two ends, and the threads that wait for data or for room.
\<close>

section \<open>Pipes and their handles\<close>

definition KS_PIPE_TX_MAX_LEN :: nat where "KS_PIPE_TX_MAX_LEN = 2048"
definition KS_PIPE_MAX_LEN :: nat where "KS_PIPE_MAX_LEN = 0xFFFFF"

record pipe =
  pp_write_refs :: nat
  pp_read_refs :: nat
  pp_i :: nat
  pp_j :: nat
  pp_cap :: nat
  pp_buf :: bytes
  pp_w_wq :: addr
  pp_r_wq :: addr

text \<open>What a \<^verbatim>\<open>pipe_handle_state_t\<close> adds to its base: which implementation table it has, and its pipe.\<close>

record pipe_handle_state =
  ph_writer :: bool
  ph_pipe :: addr

record pipe_store =
  ps_pipes :: "addr \<Rightarrow> pipe option"
  ps_handles :: "addr \<Rightarrow> pipe_handle_state option"

text \<open>
  \<open>pe_from_user\<close> and \<open>pe_to_user\<close> are the routines of \<^verbatim>\<open>page_helpers.c\<close> that copy bytes from and to a user's
  memory: on an error the bytes before the fault have been copied.  \<open>pe_ok\<close> says which of the allocations
  of a new pipe, its buffer and its two queues succeed; \<open>pe_junk\<close> is what the buffer holds.
\<close>

record 'm pipe_env =
  pe_from_user :: "'m \<Rightarrow> 32 word \<Rightarrow> 32 word \<Rightarrow> nat \<Rightarrow> fernos_error \<times> bytes"
  pe_to_user :: "'m \<Rightarrow> 32 word \<Rightarrow> 32 word \<Rightarrow> bytes \<Rightarrow> fernos_error \<times> nat \<times> 'm"
  pe_ok :: "nat \<Rightarrow> bool"
  pe_junk :: "nat \<Rightarrow> 8 word"

definition set_pipe :: "addr \<Rightarrow> pipe \<Rightarrow> pipe_store \<Rightarrow> pipe_store" where
  "set_pipe a p P = P\<lparr>ps_pipes := (ps_pipes P)(a \<mapsto> p)\<rparr>"

text \<open>A kernel call that writes a result register and succeeds: \<^verbatim>\<open>DUAL_RET\<close>.\<close>

definition pipe_ret ::
  "pipe_store \<Rightarrow> 'm kernel \<Rightarrow> addr \<Rightarrow> fernos_error \<Rightarrow> (fernos_error \<times> pipe_store \<times> 'm kernel) option"
where
  "pipe_ret P K thr u_err = do { K \<leftarrow> set_eax K thr (err_word u_err); Some (FOS_E_SUCCESS, P, K) }"

text \<open>The pipe, \<open>None\<close> for NULL, and the kernel with its two wait queues.\<close>

definition new_pipe :: "'m kenv \<Rightarrow> 'm pipe_env \<Rightarrow> 'm kernel \<Rightarrow> nat \<Rightarrow> pipe option \<times> 'm kernel" where
  "new_pipe E F K sig_cap =
     (if sig_cap = 0 then (None, K)
      else
        let cap = (sig_cap + 1) mod 2 ^ 32; al = ke_al E;
            queue = (\<lambda>ok. new_basic_wait_queue ok (new_linked_list (Some al) 4) (new_linked_list (Some al) 4));
            w = al (dom (k_wqs K)); r = al (insert ((case w of Some a \<Rightarrow> a | None \<Rightarrow> 0)) (dom (k_wqs K)))
        in case (w, r, queue (pe_ok F 2), queue (pe_ok F 3)) of
             (Some w, Some r, Some wq, Some rq) \<Rightarrow>
               if pe_ok F 0 \<and> pe_ok F 1 then
                 (Some \<lparr>pp_write_refs = 0, pp_read_refs = 0, pp_i = 0, pp_j = 0, pp_cap = cap,
                    pp_buf = map (pe_junk F) [0..<cap], pp_w_wq = w, pp_r_wq = r\<rparr>,
                  set_wq r (WQ_basic rq) (set_wq w (WQ_basic wq) K))
               else (None, K)
           | _ \<Rightarrow> (None, K))"

definition delete_pipe :: "pipe_store \<Rightarrow> 'm kernel \<Rightarrow> addr \<Rightarrow> (pipe_store \<times> 'm kernel) option" where
  "delete_pipe P K a = do {
     p \<leftarrow> ps_pipes P a;
     Some (P\<lparr>ps_pipes := (ps_pipes P)(a := None)\<rparr>, K\<lparr>k_wqs := (k_wqs K)(pp_w_wq p := None, pp_r_wq p := None)\<rparr>) }"

definition copy_pipe_handle_state ::
  "'m kenv \<Rightarrow> pipe_store \<Rightarrow> 'm kernel \<Rightarrow> addr \<Rightarrow> addr \<Rightarrow> (fernos_error \<times> addr option \<times> pipe_store \<times> 'm kernel) option"
where
  "copy_pipe_handle_state E P K hs proc = do {
     ph \<leftarrow> ps_handles P hs;
     base \<leftarrow> k_handles K hs;
     case ke_al E (dom (k_handles K)) of
       None \<Rightarrow> Some (FOS_E_NO_MEM, None, P, K)
     | Some a \<Rightarrow> do {
         p \<leftarrow> ps_pipes P (ph_pipe ph);
         let p = (if ph_writer ph then p\<lparr>pp_write_refs := (pp_write_refs p + 1) mod 2 ^ 32\<rparr>
                  else p\<lparr>pp_read_refs := (pp_read_refs p + 1) mod 2 ^ 32\<rparr>);
         let P = set_pipe (ph_pipe ph) p P;
         Some (FOS_E_SUCCESS, Some a, P\<lparr>ps_handles := (ps_handles P)(a \<mapsto> ph)\<rparr>,
           K\<lparr>k_handles := (k_handles K)(a \<mapsto> \<lparr>hs_proc = proc, hs_handle = hs_handle base, hs_is_terminal = False\<rparr>)\<rparr>) } }"

text \<open>Both queues are woken, one after the other, unless the first attempt fails.\<close>

definition wake_both ::
  "'m kenv \<Rightarrow> 'm kernel \<Rightarrow> pipe \<Rightarrow> fernos_error \<Rightarrow> fernos_error \<Rightarrow> (fernos_error \<times> 'm kernel) option"
where
  "wake_both E K p w_status r_status = do {
     (err, K) \<leftarrow> bwq_wake_all_threads (ke_al E) K (Some (pp_w_wq p)) (Some (k_schedule K)) w_status;
     if err \<noteq> FOS_E_SUCCESS then Some (err, K)
     else bwq_wake_all_threads (ke_al E) K (Some (pp_r_wq p)) (Some (k_schedule K)) r_status }"

definition delete_pipe_handle_state ::
  "'m kenv \<Rightarrow> pipe_store \<Rightarrow> 'm kernel \<Rightarrow> addr \<Rightarrow> (fernos_error \<times> pipe_store \<times> 'm kernel) option"
where
  "delete_pipe_handle_state E P K hs = do {
     ph \<leftarrow> ps_handles P hs;
     p \<leftarrow> ps_pipes P (ph_pipe ph);
     let p = (if ph_writer ph then p\<lparr>pp_write_refs := (pp_write_refs p + (2 ^ 32 - 1)) mod 2 ^ 32\<rparr>
              else p\<lparr>pp_read_refs := (pp_read_refs p + (2 ^ 32 - 1)) mod 2 ^ 32\<rparr>);
     let P = set_pipe (ph_pipe ph) p P;
     (err, K) \<leftarrow>
       (if ph_writer ph \<and> pp_write_refs p = 0 then wake_both E K p FOS_E_STATE_MISMATCH FOS_E_EMPTY
        else if \<not> ph_writer ph \<and> pp_read_refs p = 0 then wake_both E K p FOS_E_EMPTY FOS_E_STATE_MISMATCH
        else Some (FOS_E_SUCCESS, K));
     if err \<noteq> FOS_E_SUCCESS then Some (err, P, K)
     else do {
       (P, K) \<leftarrow> (if (pp_write_refs p + pp_read_refs p) mod 2 ^ 32 = 0 then delete_pipe P K (ph_pipe ph) else Some (P, K));
       Some (FOS_E_SUCCESS, P\<lparr>ps_handles := (ps_handles P)(hs := None)\<rparr>, K\<lparr>k_handles := (k_handles K)(hs := None)\<rparr>) } }"

section \<open>Waiting\<close>

definition pipe_full :: "pipe \<Rightarrow> bool" where
  "pipe_full p \<longleftrightarrow> (pp_j p + 1) mod pp_cap p = pp_i p"

definition pipe_sleep ::
  "'m kenv \<Rightarrow> pipe_store \<Rightarrow> 'm kernel \<Rightarrow> addr \<Rightarrow> addr \<Rightarrow> (fernos_error \<times> pipe_store \<times> 'm kernel) option"
where
  "pipe_sleep E P K thr q = do {
     w \<leftarrow> k_wqs K q;
     bq \<leftarrow> basic_queue w;
     (err, bq) \<leftarrow> bwq_enqueue LL_IMPL (ke_al E) bq thr;
     let K = set_wq q (WQ_basic bq) K;
     if err \<noteq> FOS_E_SUCCESS then pipe_ret P K thr err
     else do {
       K \<leftarrow> thread_detach K thr;
       K \<leftarrow> upd_thread K thr (\<lambda>t. t\<lparr>th_wq := Some q, th_state := THREAD_STATE_WAITING\<rparr>);
       Some (FOS_E_SUCCESS, P, K) } }"

definition pipe_hs_wait_write_ready ::
  "'m kenv \<Rightarrow> pipe_store \<Rightarrow> 'm kernel \<Rightarrow> addr \<Rightarrow> (fernos_error \<times> pipe_store \<times> 'm kernel) option"
where
  "pipe_hs_wait_write_ready E P K hs = do {
     ph \<leftarrow> ps_handles P hs;
     head \<leftarrow> ks_head K;
     thr \<leftarrow> head;
     p \<leftarrow> ps_pipes P (ph_pipe ph);
     if pp_read_refs p = 0 then pipe_ret P K thr FOS_E_EMPTY
     else if pipe_full p then pipe_sleep E P K thr (pp_w_wq p)
     else pipe_ret P K thr FOS_E_SUCCESS }"

definition pipe_hs_wait_read_ready ::
  "'m kenv \<Rightarrow> pipe_store \<Rightarrow> 'm kernel \<Rightarrow> addr \<Rightarrow> (fernos_error \<times> pipe_store \<times> 'm kernel) option"
where
  "pipe_hs_wait_read_ready E P K hs = do {
     ph \<leftarrow> ps_handles P hs;
     head \<leftarrow> ks_head K;
     thr \<leftarrow> head;
     p \<leftarrow> ps_pipes P (ph_pipe ph);
     if pp_i p = pp_j p then
       (if pp_write_refs p = 0 then pipe_ret P K thr FOS_E_EMPTY else pipe_sleep E P K thr (pp_r_wq p))
     else pipe_ret P K thr FOS_E_SUCCESS }"

section \<open>Transfers\<close>

definition occupied_bytes :: "pipe \<Rightarrow> nat" where
  "occupied_bytes p = (if pp_i p \<le> pp_j p then pp_j p - pp_i p else (pp_cap p - pp_i p) + pp_j p)"

text \<open>The two copies of a write, up to the end of the buffer and from its start, with how many bytes they wrote.\<close>

definition pipe_fill ::
  "'m pipe_env \<Rightarrow> 'm \<Rightarrow> 32 word \<Rightarrow> 32 word \<Rightarrow> nat \<Rightarrow> pipe \<Rightarrow> (fernos_error \<times> nat \<times> pipe) option"
where
  "pipe_fill F m pd u_src bytes_to_write p = do {
     (err, bytes_written, p) \<leftarrow>
       (if pp_i p \<le> pp_j p then do {
          let (err, data) = pe_from_user F m pd u_src (min bytes_to_write (pp_cap p - pp_j p));
          buf \<leftarrow> buf_write (pp_buf p) (pp_j p) data;
          let j = pp_j p + length data;
          Some (err, length data, p\<lparr>pp_buf := buf, pp_j := (if j = pp_cap p then 0 else j)\<rparr>) }
        else Some (FOS_E_SUCCESS, 0, p));
     if err = FOS_E_SUCCESS \<and> 0 < bytes_to_write - bytes_written then do {
       let (err, data) = pe_from_user F m pd (u_src + of_nat bytes_written) (bytes_to_write - bytes_written);
       buf \<leftarrow> buf_write (pp_buf p) (pp_j p) data;
       Some (err, bytes_written + length data, p\<lparr>pp_buf := buf, pp_j := pp_j p + length data\<rparr>) }
     else Some (err, bytes_written, p) }"

definition pipe_drain ::
  "'m pipe_env \<Rightarrow> 'm \<Rightarrow> 32 word \<Rightarrow> 32 word \<Rightarrow> nat \<Rightarrow> pipe \<Rightarrow> (fernos_error \<times> nat \<times> pipe \<times> 'm) option"
where
  "pipe_drain F m pd u_dest bytes_to_read p = do {
     (err, bytes_readden, p, m) \<leftarrow>
       (if pp_j p < pp_i p then do {
          data \<leftarrow> buf_read (pp_buf p) (pp_i p) (min (pp_cap p - pp_i p) bytes_to_read);
          let (err, copied, m) = pe_to_user F m pd u_dest data;
          let i = pp_i p + copied;
          Some (err, copied, p\<lparr>pp_i := (if i = pp_cap p then 0 else i)\<rparr>, m) }
        else Some (FOS_E_SUCCESS, 0, p, m));
     if err = FOS_E_SUCCESS \<and> 0 < bytes_to_read - bytes_readden then do {
       data \<leftarrow> buf_read (pp_buf p) (pp_i p) (bytes_to_read - bytes_readden);
       let (err, copied, m) = pe_to_user F m pd (u_dest + of_nat bytes_readden) data;
       Some (err, bytes_readden + copied, p\<lparr>pp_i := pp_i p + copied\<rparr>, m) }
     else Some (err, bytes_readden, p, m) }"

text \<open>The end of both transfers: how many bytes went through is written to the user, then the result.\<close>

definition pipe_report ::
  "'m kenv \<Rightarrow> pipe_store \<Rightarrow> 'm kernel \<Rightarrow> addr \<Rightarrow> 32 word \<Rightarrow> 32 word \<Rightarrow> nat \<Rightarrow> fernos_error
   \<Rightarrow> (fernos_error \<times> pipe_store \<times> 'm kernel) option"
where
  "pipe_report E P K thr pd u_count n err =
     (if u_count = 0 then pipe_ret P K thr err
      else
        let (out_err, m) = ke_to_user E (k_mem K) pd u_count [of_nat n];
            K = K\<lparr>k_mem := m\<rparr>
        in if out_err \<noteq> FOS_E_SUCCESS then pipe_ret P K thr out_err else pipe_ret P K thr err)"

definition pipe_hs_write ::
  "'m kenv \<Rightarrow> 'm pipe_env \<Rightarrow> pipe_store \<Rightarrow> 'm kernel \<Rightarrow> addr \<Rightarrow> 32 word \<Rightarrow> nat \<Rightarrow> 32 word
   \<Rightarrow> (fernos_error \<times> pipe_store \<times> 'm kernel) option"
where
  "pipe_hs_write E F P K hs u_src len u_written = do {
     ph \<leftarrow> ps_handles P hs;
     p \<leftarrow> ps_pipes P (ph_pipe ph);
     head \<leftarrow> ks_head K;
     thr \<leftarrow> head;
     t \<leftarrow> k_threads K thr;
     r \<leftarrow> k_procs K (th_proc t);
     if u_src = 0 \<or> len = 0 then pipe_ret P K thr FOS_E_BAD_ARGS
     else if pp_read_refs p = 0 then pipe_ret P K thr FOS_E_EMPTY
     else if pipe_full p then pipe_ret P K thr FOS_E_EMPTY
     else do {
       let was_empty = (pp_i p = pp_j p);
       let available_bytes = (pp_cap p - 1) - occupied_bytes p;
       (err, bytes_written, p) \<leftarrow> pipe_fill F (k_mem K) (pr_pd r) u_src (min len (min available_bytes KS_PIPE_TX_MAX_LEN)) p;
       let P = set_pipe (ph_pipe ph) p P;
       (wake_err, K) \<leftarrow>
         (if was_empty \<and> 0 < bytes_written
          then bwq_wake_all_threads (ke_al E) K (Some (pp_r_wq p)) (Some (k_schedule K)) FOS_E_SUCCESS
          else Some (FOS_E_SUCCESS, K));
       if wake_err \<noteq> FOS_E_SUCCESS then Some (wake_err, P, K)
       else pipe_report E P K thr (pr_pd r) u_written bytes_written err } }"

definition pipe_hs_read ::
  "'m kenv \<Rightarrow> 'm pipe_env \<Rightarrow> pipe_store \<Rightarrow> 'm kernel \<Rightarrow> addr \<Rightarrow> 32 word \<Rightarrow> nat \<Rightarrow> 32 word
   \<Rightarrow> (fernos_error \<times> pipe_store \<times> 'm kernel) option"
where
  "pipe_hs_read E F P K hs u_dest len u_readden = do {
     ph \<leftarrow> ps_handles P hs;
     p \<leftarrow> ps_pipes P (ph_pipe ph);
     head \<leftarrow> ks_head K;
     thr \<leftarrow> head;
     t \<leftarrow> k_threads K thr;
     r \<leftarrow> k_procs K (th_proc t);
     if u_dest = 0 \<or> len = 0 then pipe_ret P K thr FOS_E_BAD_ARGS
     else if pp_i p = pp_j p then pipe_ret P K thr FOS_E_EMPTY
     else do {
       let was_full = pipe_full p;
       (err, bytes_readden, p, m) \<leftarrow>
         pipe_drain F (k_mem K) (pr_pd r) u_dest (min len (min (occupied_bytes p) KS_PIPE_TX_MAX_LEN)) p;
       let K = K\<lparr>k_mem := m\<rparr>;
       let P = set_pipe (ph_pipe ph) p P;
       (wake_err, K) \<leftarrow>
         (if was_full \<and> 0 < bytes_readden
          then bwq_wake_all_threads (ke_al E) K (Some (pp_w_wq p)) (Some (k_schedule K)) FOS_E_SUCCESS
          else Some (FOS_E_SUCCESS, K));
       if wake_err \<noteq> FOS_E_SUCCESS then Some (wake_err, P, K)
       else pipe_report E P K thr (pr_pd r) u_readden bytes_readden err } }"

section \<open>Opening a pipe\<close>

definition PLG_PIPE_PCID_OPEN :: nat where "PLG_PIPE_PCID_OPEN = 0"

text \<open>The handle states and the pipe of the call, when all of them could be made.\<close>

definition pipe_open ::
  "'m kenv \<Rightarrow> 'm pipe_env \<Rightarrow> pipe_store \<Rightarrow> 'm kernel \<Rightarrow> addr \<Rightarrow> 32 word \<Rightarrow> 32 word \<Rightarrow> nat
   \<Rightarrow> (fernos_error \<times> pipe_store \<times> 'm kernel) option"
where
  "pipe_open E F P K thr u_write_handle u_read_handle sig_cap =
     (if u_write_handle = 0 \<or> u_read_handle = 0 \<or> sig_cap = 0 \<or> KS_PIPE_MAX_LEN < sig_cap
      then pipe_ret P K thr FOS_E_BAD_ARGS
      else do {
        t \<leftarrow> k_threads K thr;
        r \<leftarrow> k_procs K (th_proc t);
        let null_handle = idtb_null_id (pr_handle_table r);
        (wh, ht) \<leftarrow> idtb_pop_id (ke_mem E) (ke_junk E) (pr_handle_table r);
        (rh, ht) \<leftarrow> idtb_pop_id (ke_mem E) (ke_junk E) ht;
        let w_hs = ke_al E (dom (k_handles K));
        let r_hs = ke_al E ((case w_hs of Some a \<Rightarrow> {a} | None \<Rightarrow> {}) \<union> dom (k_handles K));
        let pp = ke_al E (dom (ps_pipes P));
        let (pipe, K') = new_pipe E F K sig_cap;
        let (err, m) = ke_to_user E (k_mem K) (pr_pd r) u_write_handle [of_nat wh];
        let (err, m) = (if err = FOS_E_SUCCESS then ke_to_user E m (pr_pd r) u_read_handle [of_nat rh] else (err, m));
        case (w_hs, r_hs, pp, pipe) of
          (Some w, Some r', Some a, Some p) \<Rightarrow>
            if wh = null_handle \<or> rh = null_handle \<or> err \<noteq> FOS_E_SUCCESS then do {
              ht \<leftarrow> idtb_push_id ht rh;
              ht \<leftarrow> idtb_push_id ht wh;
              pipe_ret P (set_proc (th_proc t) (r\<lparr>pr_handle_table := ht\<rparr>) (K\<lparr>k_mem := m\<rparr>)) thr FOS_E_UNKNWON_ERROR }
            else do {
              let p = p\<lparr>pp_write_refs := 1, pp_read_refs := 1\<rparr>;
              ht \<leftarrow> idtb_set ht wh (Some w);
              ht \<leftarrow> idtb_set ht rh (Some r');
              let base = (\<lambda>h. \<lparr>hs_proc = th_proc t, hs_handle = h, hs_is_terminal = False\<rparr>);
              pipe_ret (P\<lparr>ps_pipes := (ps_pipes P)(a \<mapsto> p),
                  ps_handles := (ps_handles P)(w \<mapsto> \<lparr>ph_writer = True, ph_pipe = a\<rparr>, r' \<mapsto> \<lparr>ph_writer = False, ph_pipe = a\<rparr>)\<rparr>)
                (set_proc (th_proc t) (r\<lparr>pr_handle_table := ht\<rparr>)
                  (K'\<lparr>k_mem := m, k_handles := (k_handles K)(w \<mapsto> base wh, r' \<mapsto> base rh)\<rparr>)) thr FOS_E_SUCCESS }
        | _ \<Rightarrow> do {
            ht \<leftarrow> idtb_push_id ht rh;
            ht \<leftarrow> idtb_push_id ht wh;
            pipe_ret P (set_proc (th_proc t) (r\<lparr>pr_handle_table := ht\<rparr>) (K\<lparr>k_mem := m\<rparr>)) thr FOS_E_UNKNWON_ERROR } })"

definition pipe_plg_cmd ::
  "'m kenv \<Rightarrow> 'm pipe_env \<Rightarrow> pipe_store \<Rightarrow> 'm kernel \<Rightarrow> nat \<Rightarrow> 32 word \<Rightarrow> 32 word \<Rightarrow> 32 word
   \<Rightarrow> (fernos_error \<times> pipe_store \<times> 'm kernel) option"
where
  "pipe_plg_cmd E F P K cmd arg0 arg1 arg2 = do {
     head \<leftarrow> ks_head K;
     thr \<leftarrow> head;
     if cmd = PLG_PIPE_PCID_OPEN then pipe_open E F P K thr arg0 arg1 (unat arg2)
     else pipe_ret P K thr FOS_E_BAD_ARGS }"

end
