(* ===== verification/Pipe_Buffers.thy ===== *)
theory Pipe_Buffers imports Plugin_Pipe begin

text \<open>
  The buffer of a pipe as a queue of bytes: what the two copies of a write append to it and what the two
  copies of a read take from it, for every way the user memory lets the copies end.
\<close>

section \<open>The bytes in a pipe\<close>

definition pipe_wf :: "pipe \<Rightarrow> bool" where
  "pipe_wf p \<longleftrightarrow> 2 \<le> pp_cap p \<and> pp_i p < pp_cap p \<and> pp_j p < pp_cap p \<and> length (pp_buf p) = pp_cap p"

definition pipe_pos :: "pipe \<Rightarrow> nat \<Rightarrow> nat" where
  "pipe_pos p k = (if pp_i p + k < pp_cap p then pp_i p + k else pp_i p + k - pp_cap p)"

definition pipe_data :: "pipe \<Rightarrow> bytes" where
  "pipe_data p = map (\<lambda>k. pp_buf p ! pipe_pos p k) [0..<occupied_bytes p]"

lemma pipe_data_length [simp]: "length (pipe_data p) = occupied_bytes p"
  by (simp add: pipe_data_def)

lemma pipe_data_nth: "k < occupied_bytes p \<Longrightarrow> pipe_data p ! k = pp_buf p ! pipe_pos p k"
  by (simp add: pipe_data_def)

lemma occupied_less: "pipe_wf p \<Longrightarrow> occupied_bytes p \<le> pp_cap p - 1"
  by (auto simp: pipe_wf_def occupied_bytes_def)

lemma occupied_0: "pipe_wf p \<Longrightarrow> occupied_bytes p = 0 \<longleftrightarrow> pp_i p = pp_j p"
  by (auto simp: pipe_wf_def occupied_bytes_def)

lemma pipe_full_iff: "pipe_wf p \<Longrightarrow> pipe_full p \<longleftrightarrow> occupied_bytes p = pp_cap p - 1"
  by (cases "pp_j p + 1 = pp_cap p") (auto simp: pipe_wf_def occupied_bytes_def pipe_full_def)

text \<open>One copy in: \<open>d\<close> is stored at \<open>j\<close>, without passing the end of the buffer.\<close>

definition pipe_put :: "bytes \<Rightarrow> pipe \<Rightarrow> pipe" where
  "pipe_put d p = p\<lparr>pp_buf := take (pp_j p) (pp_buf p) @ d @ drop (pp_j p + length d) (pp_buf p),
     pp_j := (if pp_j p + length d = pp_cap p then 0 else pp_j p + length d)\<rparr>"

lemma pipe_put_ok:
  assumes wf: "pipe_wf p" and d: "pp_j p + length d \<le> pp_cap p" "occupied_bytes p + length d \<le> pp_cap p - 1"
  shows "pipe_wf (pipe_put d p)" and "pipe_data (pipe_put d p) = pipe_data p @ d"
proof -
  let ?p = "pipe_put d p" and ?o = "occupied_bytes p"
  have f: "pp_cap ?p = pp_cap p" "pp_i ?p = pp_i p" "pp_j ?p = (if pp_j p + length d = pp_cap p then 0 else pp_j p + length d)"
    by (simp_all add: pipe_put_def)
  show wf': "pipe_wf ?p" using wf d by (auto simp: pipe_wf_def pipe_put_def)
  have o: "occupied_bytes ?p = ?o + length d" using wf d by (auto simp: occupied_bytes_def f pipe_wf_def split: if_splits)
  have buf: "pp_buf ?p ! x = (if pp_j p \<le> x \<and> x < pp_j p + length d then d ! (x - pp_j p) else pp_buf p ! x)" if "x < pp_cap p" for x
    using that wf d(1) by (auto simp: pipe_put_def nth_append pipe_wf_def min_def)
  show "pipe_data ?p = pipe_data p @ d"
  proof (rule nth_equalityI)
    fix k assume "k < length (pipe_data ?p)"
    then have k: "k < ?o + length d" by (simp add: o)
    then have pos: "pipe_pos p k < pp_cap p" using wf d(2) by (auto simp: pipe_pos_def pipe_wf_def)
    have old: "k < ?o \<Longrightarrow> pipe_pos p k < pp_j p \<or> pp_j p + length d \<le> pipe_pos p k"
      using wf d by (auto simp: pipe_pos_def pipe_wf_def occupied_bytes_def split: if_splits)
    have new: "\<not> k < ?o \<Longrightarrow> pipe_pos p k = pp_j p + (k - ?o)"
      using wf d k by (auto simp: pipe_pos_def pipe_wf_def occupied_bytes_def split: if_splits)
    have "pipe_data ?p ! k = pp_buf ?p ! pipe_pos p k" using k by (simp add: pipe_data_nth o) (simp add: pipe_pos_def f)
    also have "\<dots> = (pipe_data p @ d) ! k"
    proof (cases "k < ?o")
      case True
      then show ?thesis using buf [OF pos] old by (auto simp: nth_append pipe_data_nth)
    next
      case False
      then obtain x where x: "k = ?o + x" by (metis le_Suc_ex not_less)
      then have "pipe_pos p k = pp_j p + x" using new [OF False] by simp
      then show ?thesis using buf [OF pos] k by (simp add: nth_append x)
    qed
    finally show "pipe_data ?p ! k = (pipe_data p @ d) ! k" .
  qed (simp add: o)
qed

text \<open>One copy out: \<open>c\<close> bytes from \<open>i\<close> on are gone.\<close>

definition pipe_take :: "nat \<Rightarrow> pipe \<Rightarrow> pipe" where
  "pipe_take c p = p\<lparr>pp_i := (if pp_i p + c = pp_cap p then 0 else pp_i p + c)\<rparr>"

lemma pipe_take_ok:
  assumes wf: "pipe_wf p" and c: "pp_i p + c \<le> pp_cap p" "c \<le> occupied_bytes p"
  shows "pipe_wf (pipe_take c p)" and "pipe_data (pipe_take c p) = drop c (pipe_data p)"
proof -
  let ?p = "pipe_take c p"
  show "pipe_wf ?p" using wf c by (auto simp: pipe_wf_def pipe_take_def)
  have o: "occupied_bytes ?p = occupied_bytes p - c" using wf c by (auto simp: occupied_bytes_def pipe_take_def pipe_wf_def split: if_splits)
  show "pipe_data ?p = drop c (pipe_data p)"
  proof (rule nth_equalityI)
    fix k assume "k < length (pipe_data ?p)"
    then have k: "k < occupied_bytes p - c" by (simp add: o)
    then have "pipe_pos ?p k = pipe_pos p (c + k)"
      using wf c occupied_less [OF wf] by (auto simp: pipe_pos_def pipe_take_def pipe_wf_def)
    then show "pipe_data ?p ! k = drop c (pipe_data p) ! k"
      using k by (simp add: pipe_data_nth o) (simp add: pipe_take_def)
  qed (simp add: o)
qed

lemma pipe_data_prefix:
  assumes wf: "pipe_wf p" and n: "pp_i p + n \<le> pp_cap p" "n \<le> occupied_bytes p"
  shows "take n (drop (pp_i p) (pp_buf p)) = take n (pipe_data p)"
  by (rule nth_equalityI) (use assms in \<open>auto simp: pipe_wf_def pipe_data_nth pipe_pos_def\<close>)

section \<open>Copies from and to a user\<close>

text \<open>
  \<open>V m pd\<close> are the bytes of the user's memory.  A copy from the user delivers a prefix of the bytes asked
  for, all of them unless it fails; a copy to the user stores a prefix, all of it unless it fails.
\<close>

definition stored :: "(32 word \<Rightarrow> 8 word) \<Rightarrow> 32 word \<Rightarrow> bytes \<Rightarrow> 32 word \<Rightarrow> 8 word" where
  "stored v u bs = (\<lambda>a. if unat (a - u) < length bs then bs ! unat (a - u) else v a)"

definition user_bytes :: "(32 word \<Rightarrow> 8 word) \<Rightarrow> 32 word \<Rightarrow> nat \<Rightarrow> bytes" where
  "user_bytes v u n = map (\<lambda>k. v (u + of_nat k)) [0..<n]"

definition user_copies :: "('m \<Rightarrow> 32 word \<Rightarrow> 32 word \<Rightarrow> 8 word) \<Rightarrow> 'm pipe_env \<Rightarrow> bool" where
  "user_copies V F \<longleftrightarrow>
     (\<forall>m pd u n. let (e, d) = pe_from_user F m pd u n
        in length d \<le> n \<and> (e = FOS_E_SUCCESS \<longrightarrow> length d = n) \<and> d = user_bytes (V m pd) u (length d))
     \<and> (\<forall>m pd u bs. let (e, c, m') = pe_to_user F m pd u bs
        in c \<le> length bs \<and> (e = FOS_E_SUCCESS \<longrightarrow> c = length bs) \<and> V m' pd = stored (V m pd) u (take c bs))"

lemma user_copiesD:
  assumes "user_copies V F"
  shows "pe_from_user F m pd u n = (e, d) \<Longrightarrow> length d \<le> n \<and> (e = FOS_E_SUCCESS \<longrightarrow> length d = n) \<and> d = user_bytes (V m pd) u (length d)"
    and "pe_to_user F m pd u bs = (e, c, m') \<Longrightarrow> c \<le> length bs \<and> (e = FOS_E_SUCCESS \<longrightarrow> c = length bs) \<and> V m' pd = stored (V m pd) u (take c bs)"
proof -
  have "let (e, d) = pe_from_user F m pd u n
        in length d \<le> n \<and> (e = FOS_E_SUCCESS \<longrightarrow> length d = n) \<and> d = user_bytes (V m pd) u (length d)"
    using assms unfolding user_copies_def by blast
  then show "pe_from_user F m pd u n = (e, d) \<Longrightarrow> length d \<le> n \<and> (e = FOS_E_SUCCESS \<longrightarrow> length d = n) \<and> d = user_bytes (V m pd) u (length d)"
    by simp
  have "let (e, c, m') = pe_to_user F m pd u bs
        in c \<le> length bs \<and> (e = FOS_E_SUCCESS \<longrightarrow> c = length bs) \<and> V m' pd = stored (V m pd) u (take c bs)"
    using assms unfolding user_copies_def by blast
  then show "pe_to_user F m pd u bs = (e, c, m') \<Longrightarrow> c \<le> length bs \<and> (e = FOS_E_SUCCESS \<longrightarrow> c = length bs) \<and> V m' pd = stored (V m pd) u (take c bs)"
    by simp
qed

lemma user_bytes_length [simp]: "length (user_bytes v u n) = n"
  by (simp add: user_bytes_def)

lemma user_bytes_append: "user_bytes v u a @ user_bytes v (u + of_nat a) b = user_bytes v u (a + b)"
  by (rule nth_equalityI) (auto simp: user_bytes_def nth_append of_nat_diff add.assoc simp flip: of_nat_add)

lemma stored_append:
  assumes "length a + length b < 2 ^ 32"
  shows "stored (stored v u a) (u + of_nat (length a)) b = stored v u (a @ b)"
proof
  fix x
  have y: "x - (u + of_nat (length a)) = (x - u) - of_nat (length a)" by simp
  have la: "unat (of_nat (length a) :: 32 word) = length a" using assms by (simp add: unat_of_nat)
  have "unat (x - u) < 2 ^ 32" using unsigned_less [of "x - u", where 'a = nat] by simp
  then show "stored (stored v u a) (u + of_nat (length a)) b x = stored v u (a @ b) x"
    using assms unfolding stored_def y unat_sub_if' [of "x - u" "of_nat (length a)"] la
    by (auto simp: nth_append)
qed

section \<open>The two copies of a transfer\<close>

lemma buf_write_put:
  assumes "pipe_wf p" and "pp_j p + length d \<le> pp_cap p"
  shows "buf_write (pp_buf p) (pp_j p) d = Some (pp_buf (pipe_put d p))"
  using assms by (simp add: buf_write_def pipe_put_def pipe_wf_def)

lemma pipe_fill_ok:
  assumes wf: "pipe_wf p" and env: "user_copies V F" and n: "n \<le> pp_cap p - 1 - occupied_bytes p"
  shows "\<exists>e w p'. pipe_fill F m pd u n p = Some (e, w, p') \<and> w \<le> n \<and> (e = FOS_E_SUCCESS \<longrightarrow> w = n) \<and> pipe_wf p'
    \<and> pipe_data p' = pipe_data p @ user_bytes (V m pd) u w \<and> p' = p\<lparr>pp_buf := pp_buf p', pp_j := pp_j p'\<rparr>"
proof -
  have put: "pipe_put d q = q\<lparr>pp_buf := pp_buf (pipe_put d q), pp_j := pp_j (pipe_put d q)\<rparr>" for d q by (simp add: pipe_put_def)
  define res1 where "res1 = (if pp_i p \<le> pp_j p then do {
          let (err, data) = pe_from_user F m pd u (min n (pp_cap p - pp_j p));
          buf \<leftarrow> buf_write (pp_buf p) (pp_j p) data;
          let j = pp_j p + length data;
          Some (err, length data, p\<lparr>pp_buf := buf, pp_j := (if j = pp_cap p then 0 else j)\<rparr>) }
        else Some (FOS_E_SUCCESS, 0, p))"
  have "\<exists>e1 w1 p1. res1 = Some (e1, w1, p1) \<and> w1 \<le> n \<and> pipe_wf p1
    \<and> pipe_data p1 = pipe_data p @ user_bytes (V m pd) u w1 \<and> p1 = p\<lparr>pp_buf := pp_buf p1, pp_j := pp_j p1\<rparr>
    \<and> (e1 = FOS_E_SUCCESS \<longrightarrow> w1 = n \<or> pp_j p1 + (n - w1) < pp_i p)"
  proof (cases "pp_i p \<le> pp_j p")
    case True
    obtain e d where r: "pe_from_user F m pd u (min n (pp_cap p - pp_j p)) = (e, d)" by fastforce
    note d = user_copiesD(1) [OF env r]
    have len: "pp_j p + length d \<le> pp_cap p" "occupied_bytes p + length d \<le> pp_cap p - 1"
      using d n wf occupied_less [OF wf] by (auto simp: pipe_wf_def)
    have res: "res1 = Some (e, length d, pipe_put d p)"
      unfolding res1_def using True r buf_write_put [OF wf len(1)] by (simp add: Let_def) (simp add: pipe_put_def)
    have "pp_j (pipe_put d p) + (n - length d) < pp_i p" if "e = FOS_E_SUCCESS" "length d \<noteq> n"
    proof -
      have "length d = pp_cap p - pp_j p" "length d < n" using d that by auto
      then show ?thesis using n True wf that by (auto simp: pipe_put_def pipe_wf_def occupied_bytes_def)
    qed
    then have fin: "e = FOS_E_SUCCESS \<longrightarrow> length d = n \<or> pp_j (pipe_put d p) + (n - length d) < pp_i p" by blast
    have "length d \<le> n" "pipe_data (pipe_put d p) = pipe_data p @ user_bytes (V m pd) u (length d)"
      using d pipe_put_ok(2) [OF wf len] by auto
    then show ?thesis using res pipe_put_ok(1) [OF wf len] put fin by blast
  next
    case False
    then show ?thesis using wf n by (intro exI [of _ FOS_E_SUCCESS] exI [of _ 0] exI [of _ p])
      (auto simp: res1_def user_bytes_def pipe_wf_def occupied_bytes_def)
  qed
  then obtain e1 w1 p1 where r1: "res1 = Some (e1, w1, p1)" "w1 \<le> n" "pipe_wf p1"
    "pipe_data p1 = pipe_data p @ user_bytes (V m pd) u w1" "p1 = p\<lparr>pp_buf := pp_buf p1, pp_j := pp_j p1\<rparr>"
    "e1 = FOS_E_SUCCESS \<Longrightarrow> w1 = n \<or> pp_j p1 + (n - w1) < pp_i p" by blast
  have f: "pp_i p1 = pp_i p" "pp_cap p1 = pp_cap p" by (subst r1(5), simp)+
  have fill: "pipe_fill F m pd u n p = (if e1 = FOS_E_SUCCESS \<and> 0 < n - w1 then do {
       let (err, data) = pe_from_user F m pd (u + of_nat w1) (n - w1);
       buf \<leftarrow> buf_write (pp_buf p1) (pp_j p1) data;
       Some (err, w1 + length data, p1\<lparr>pp_buf := buf, pp_j := pp_j p1 + length data\<rparr>) } else Some (e1, w1, p1))"
    unfolding pipe_fill_def res1_def [symmetric] r1(1) by simp
  show ?thesis
  proof (cases "e1 = FOS_E_SUCCESS \<and> 0 < n - w1")
    case True
    obtain e d where r: "pe_from_user F m pd (u + of_nat w1) (n - w1) = (e, d)" by fastforce
    note d = user_copiesD(1) [OF env r]
    have j: "pp_j p1 + length d < pp_i p1" using r1(6) True d f by auto
    then have len: "pp_j p1 + length d \<le> pp_cap p1" "occupied_bytes p1 + length d \<le> pp_cap p1 - 1"
      using r1(3) by (auto simp: pipe_wf_def occupied_bytes_def)
    have "p1\<lparr>pp_buf := pp_buf (pipe_put d p1), pp_j := pp_j p1 + length d\<rparr> = pipe_put d p1"
      using j r1(3) by (simp add: pipe_put_def pipe_wf_def)
    then have res: "pipe_fill F m pd u n p = Some (e, w1 + length d, pipe_put d p1)"
      unfolding fill using True r buf_write_put [OF r1(3) len(1)] by simp
    have "pipe_put d p1 = p\<lparr>pp_buf := pp_buf (pipe_put d p1), pp_j := pp_j (pipe_put d p1)\<rparr>"
      by (subst put, subst r1(5)) simp
    moreover have "user_bytes (V m pd) u w1 @ d = user_bytes (V m pd) u (w1 + length d)" using d user_bytes_append by metis
    then have "pipe_data (pipe_put d p1) = pipe_data p @ user_bytes (V m pd) u (w1 + length d)"
      using pipe_put_ok(2) [OF r1(3) len] r1(4) by simp
    ultimately show ?thesis using res d r1(2) pipe_put_ok(1) [OF r1(3) len]
      by (intro exI [of _ e] exI [of _ "w1 + length d"] exI [of _ "pipe_put d p1"]) auto
  next
    case False
    then have "pipe_fill F m pd u n p = Some (e1, w1, p1)" unfolding fill by (rule if_not_P)
    then show ?thesis using False r1 by (intro exI [of _ e1] exI [of _ w1] exI [of _ p1]) auto
  qed
qed

lemma user_store_prefix:
  assumes env: "user_copies V F" and r: "pe_to_user F m pd u (take k xs) = (e, c, m')" and k: "k \<le> length xs"
  shows "c \<le> k" and "e = FOS_E_SUCCESS \<longrightarrow> c = k" and "V m' pd = stored (V m pd) u (take c xs)"
proof -
  have l: "length (take k xs) = k" using k by simp
  note D = user_copiesD(2) [OF env r, unfolded l]
  show "c \<le> k" "e = FOS_E_SUCCESS \<longrightarrow> c = k" using D by blast+
  then have "take c (take k xs) = take c xs" by (simp add: min.absorb1)
  then show "V m' pd = stored (V m pd) u (take c xs)" using D by metis
qed

text \<open>The result of copying bytes to the user: success, or what the copy of some of them gave.\<close>

definition copy_result :: "'m pipe_env \<Rightarrow> 32 word \<Rightarrow> bytes \<Rightarrow> fernos_error \<Rightarrow> bool" where
  "copy_result F pd bs e \<longleftrightarrow> e = FOS_E_SUCCESS \<or> (\<exists>m u cs. set cs \<subseteq> set bs \<and> fst (pe_to_user F m pd u cs) = e)"

lemma copy_resultI: "pe_to_user F m pd u cs = (e, c, m') \<Longrightarrow> set cs \<subseteq> set bs \<Longrightarrow> copy_result F pd bs e"
  unfolding copy_result_def by (metis fst_conv)

lemma pipe_drain_ok:
  assumes wf: "pipe_wf p" and env: "user_copies V F" and n: "n \<le> occupied_bytes p" "n < 2 ^ 32"
  shows "\<exists>e w p' m'. pipe_drain F m pd u n p = Some (e, w, p', m') \<and> w \<le> n \<and> (e = FOS_E_SUCCESS \<longrightarrow> w = n) \<and> pipe_wf p'
    \<and> pipe_data p' = drop w (pipe_data p) \<and> V m' pd = stored (V m pd) u (take w (pipe_data p)) \<and> p' = p\<lparr>pp_i := pp_i p'\<rparr>
    \<and> copy_result F pd (pipe_data p) e"
proof -
  define res1 where "res1 = (if pp_j p < pp_i p then do {
          data \<leftarrow> buf_read (pp_buf p) (pp_i p) (min (pp_cap p - pp_i p) n);
          let (err, copied, m) = pe_to_user F m pd u data;
          let i = pp_i p + copied;
          Some (err, copied, p\<lparr>pp_i := (if i = pp_cap p then 0 else i)\<rparr>, m) }
        else Some (FOS_E_SUCCESS, 0, p, m))"
  have "\<exists>e1 w1 p1 m1. res1 = Some (e1, w1, p1, m1) \<and> w1 \<le> n \<and> pipe_wf p1 \<and> pipe_data p1 = drop w1 (pipe_data p)
    \<and> V m1 pd = stored (V m pd) u (take w1 (pipe_data p)) \<and> p1 = p\<lparr>pp_i := pp_i p1\<rparr>
    \<and> (e1 = FOS_E_SUCCESS \<longrightarrow> w1 = n \<or> pp_i p1 \<le> pp_j p) \<and> copy_result F pd (pipe_data p) e1"
  proof (cases "pp_j p < pp_i p")
    case True
    let ?k = "min (pp_cap p - pp_i p) n"
    have k: "pp_i p + ?k \<le> pp_cap p" "?k \<le> occupied_bytes p" using wf n by (auto simp: pipe_wf_def)
    have read: "buf_read (pp_buf p) (pp_i p) ?k = Some (take ?k (pipe_data p))"
      using pipe_data_prefix [OF wf k] k wf by (simp add: buf_read_def pipe_wf_def)
    obtain e c m1 where r: "pe_to_user F m pd u (take ?k (pipe_data p)) = (e, c, m1)" by (metis prod_cases3)
    note c = user_store_prefix [OF env r, unfolded pipe_data_length, OF k(2)]
    have len: "pp_i p + c \<le> pp_cap p" "c \<le> occupied_bytes p" using c(1) k by auto
    have res: "res1 = Some (e, c, pipe_take c p, m1)"
      unfolding res1_def using True r read by (simp add: Let_def) (simp add: pipe_take_def)
    have "c = n \<or> pp_i (pipe_take c p) \<le> pp_j p" if "e = FOS_E_SUCCESS"
      using c(2) that wf by (auto simp: pipe_take_def min_def pipe_wf_def)
    moreover have "copy_result F pd (pipe_data p) e" by (rule copy_resultI [OF r set_take_subset])
    ultimately show ?thesis using res pipe_take_ok [OF wf len] c
      by (intro exI [of _ e] exI [of _ c] exI [of _ "pipe_take c p"] exI [of _ m1]) (simp add: pipe_take_def)
  next
    case False
    then show ?thesis using wf by (intro exI [of _ FOS_E_SUCCESS] exI [of _ 0] exI [of _ p] exI [of _ m])
      (auto simp: res1_def stored_def copy_result_def)
  qed
  then obtain e1 w1 p1 m1 where r1: "res1 = Some (e1, w1, p1, m1)" "w1 \<le> n" "pipe_wf p1" "pipe_data p1 = drop w1 (pipe_data p)"
    "V m1 pd = stored (V m pd) u (take w1 (pipe_data p))" "p1 = p\<lparr>pp_i := pp_i p1\<rparr>"
    "e1 = FOS_E_SUCCESS \<Longrightarrow> w1 = n \<or> pp_i p1 \<le> pp_j p" "copy_result F pd (pipe_data p) e1" by blast
  have f: "pp_j p1 = pp_j p" "pp_cap p1 = pp_cap p" "pp_buf p1 = pp_buf p" by (subst r1(6), simp)+
  have drain: "pipe_drain F m pd u n p = (if e1 = FOS_E_SUCCESS \<and> 0 < n - w1 then do {
       data \<leftarrow> buf_read (pp_buf p1) (pp_i p1) (n - w1);
       let (err, copied, m) = pe_to_user F m1 pd (u + of_nat w1) data;
       Some (err, w1 + copied, p1\<lparr>pp_i := pp_i p1 + copied\<rparr>, m) } else Some (e1, w1, p1, m1))"
    unfolding pipe_drain_def res1_def [symmetric] r1(1) by simp
  show ?thesis
  proof (cases "e1 = FOS_E_SUCCESS \<and> 0 < n - w1")
    case True
    have occ: "occupied_bytes p1 = occupied_bytes p - w1" using r1(4) by (metis length_drop pipe_data_length)
    have i: "pp_i p1 \<le> pp_j p1" "pp_i p1 + (n - w1) \<le> pp_j p1"
      using r1(7) True n occ f by (auto simp: occupied_bytes_def)
    have k: "pp_i p1 + (n - w1) \<le> pp_cap p1" "n - w1 \<le> occupied_bytes p1" using i r1(3) n occ by (auto simp: pipe_wf_def)
    have read: "buf_read (pp_buf p1) (pp_i p1) (n - w1) = Some (take (n - w1) (pipe_data p1))"
      using pipe_data_prefix [OF r1(3) k] k r1(3) by (simp add: buf_read_def pipe_wf_def)
    obtain e c m2 where r: "pe_to_user F m1 pd (u + of_nat w1) (take (n - w1) (pipe_data p1)) = (e, c, m2)" by (metis prod_cases3)
    note c = user_store_prefix [OF env r, unfolded pipe_data_length, OF k(2)]
    have len: "pp_i p1 + c \<le> pp_cap p1" "c \<le> occupied_bytes p1" using c(1) k by auto
    have "p1\<lparr>pp_i := pp_i p1 + c\<rparr> = pipe_take c p1"
      using c(1) i(2) r1(3) by (simp add: pipe_take_def pipe_wf_def)
    then have res: "pipe_drain F m pd u n p = Some (e, w1 + c, pipe_take c p1, m2)"
      unfolding drain using True r read by simp
    have cat: "take w1 (pipe_data p) @ take c (drop w1 (pipe_data p)) = take (w1 + c) (pipe_data p)" by (simp add: take_add)
    have l: "length (take w1 (pipe_data p)) = w1" using r1(2) n by simp
    have "V m2 pd = stored (V m pd) u (take (w1 + c) (pipe_data p))"
      using stored_append [of "take w1 (pipe_data p)" "take c (drop w1 (pipe_data p))" "V m pd" u] c(1) r1(2) n
      unfolding c(3) r1(5) r1(4) l cat by simp
    moreover obtain x where "p1 = p\<lparr>pp_i := x\<rparr>" using r1(6) by blast
    then have "pipe_take c p1 = p\<lparr>pp_i := pp_i (pipe_take c p1)\<rparr>" by (simp add: pipe_take_def)
    moreover have "pipe_data (pipe_take c p1) = drop (w1 + c) (pipe_data p)"
      using pipe_take_ok(2) [OF r1(3) len] r1(4) by (simp add: add.commute)
    moreover have "set (take (n - w1) (pipe_data p1)) \<subseteq> set (pipe_data p)"
      unfolding r1(4) by (rule subset_trans [OF set_take_subset set_drop_subset])
    then have "copy_result F pd (pipe_data p) e" by (rule copy_resultI [OF r])
    ultimately show ?thesis using res c r1(2) pipe_take_ok(1) [OF r1(3) len]
      by (intro exI [of _ e] exI [of _ "w1 + c"] exI [of _ "pipe_take c p1"] exI [of _ m2]) auto
  next
    case False
    then have "pipe_drain F m pd u n p = Some (e1, w1, p1, m1)" unfolding drain by (rule if_not_P)
    then show ?thesis using False r1 by (intro exI [of _ e1] exI [of _ w1] exI [of _ p1] exI [of _ m1]) auto
  qed
qed

end
