(* ===== verification/Pipe_Correctness.thy ===== *)
theory Pipe_Correctness imports Pipe_Buffers Blocking begin

text \<open>
  Pipes as bounded queues of bytes between threads: what a write, a read, a wait and the closing of an end do
  to the bytes in the pipe, to the user's memory and to the waiting threads.
\<close>

section \<open>The ends of the operations\<close>

lemma placed_mem: "placed K W S \<Longrightarrow> placed (K\<lparr>k_mem := m\<rparr>) W S"
  by (simp add: placed_def)

text \<open>Everything but the threads, rings, queues and the user memory.\<close>

definition pipe_frame :: "'m kernel \<Rightarrow> 'm kernel \<Rightarrow> bool" where
  "pipe_frame K K' \<longleftrightarrow> k_procs K' = k_procs K \<and> k_handles K' = k_handles K \<and> k_schedule K' = k_schedule K
     \<and> k_proc_table K' = k_proc_table K \<and> k_root_proc K' = k_root_proc K \<and> k_curr_tick K' = k_curr_tick K
     \<and> k_sleep_q K' = k_sleep_q K \<and> k_plugins K' = k_plugins K"

lemma pipe_frame_same: "same_frame K K' \<Longrightarrow> pipe_frame K K'"
  by (simp add: same_frame_def pipe_frame_def)

lemma pipe_frame_trans: "pipe_frame K K' \<Longrightarrow> pipe_frame K' K'' \<Longrightarrow> pipe_frame K K''"
  by (simp add: pipe_frame_def)

lemma pipe_frame_mem [simp]: "pipe_frame K (K\<lparr>k_mem := m\<rparr>)"
  by (simp add: pipe_frame_def)

abbreviation (input) with_eax :: "thread \<Rightarrow> 32 word \<Rightarrow> thread" where
  "with_eax t v \<equiv> t\<lparr>th_ctx := (th_ctx t)\<lparr>c_eax := v\<rparr>\<rparr>"

lemma pipe_ret_rep:
  assumes "placed K W S" and "k_threads K a = Some t"
  shows "\<exists>K'. pipe_ret P K a e = Some (FOS_E_SUCCESS, P, K') \<and> placed K' W S \<and> same_frame K K'
    \<and> k_threads K' = (k_threads K)(a \<mapsto> with_eax t (err_word e))"
  using set_eax_rep [OF assms, of "err_word e"] by (auto simp: pipe_ret_def)

text \<open>What the caller is told, and the memory after the count has been written: the count's own error goes first.\<close>

definition tx_answer :: "'m kenv \<Rightarrow> 'm \<Rightarrow> 32 word \<Rightarrow> 32 word \<Rightarrow> nat \<Rightarrow> fernos_error \<Rightarrow> fernos_error \<times> 'm" where
  "tx_answer E m pd u_count n err =
     (if u_count = 0 then (err, m)
      else let (out_err, m') = ke_to_user E m pd u_count [of_nat n] in (if out_err = FOS_E_SUCCESS then err else out_err, m'))"

lemma pipe_report_rep:
  assumes pl: "placed K W S" and t: "k_threads K a = Some t"
  shows "\<exists>K'. pipe_report E P K a pd u_count n err = Some (FOS_E_SUCCESS, P, K') \<and> placed K' W S \<and> pipe_frame K K'
    \<and> k_mem K' = snd (tx_answer E (k_mem K) pd u_count n err)
    \<and> k_threads K' = (k_threads K)(a \<mapsto> with_eax t (err_word (fst (tx_answer E (k_mem K) pd u_count n err))))"
proof -
  obtain e m where em: "tx_answer E (k_mem K) pd u_count n err = (e, m)" by fastforce
  let ?K = "K\<lparr>k_mem := m\<rparr>"
  have t': "k_threads ?K a = Some t" using t by simp
  from pipe_ret_rep [OF placed_mem [OF pl] t', of P e] obtain K' where K':
    "pipe_ret P ?K a e = Some (FOS_E_SUCCESS, P, K')" "placed K' W S" "same_frame ?K K'"
    "k_threads K' = (k_threads K)(a \<mapsto> with_eax t (err_word e))" by auto
  have "pipe_frame K K'" using pipe_frame_trans [OF pipe_frame_mem pipe_frame_same [OF K'(3)]] .
  moreover have "k_mem K' = m" using K'(3) by (simp add: same_frame_def)
  moreover have "K\<lparr>k_mem := k_mem K\<rparr> = K" by simp
  then have "pipe_report E P K a pd u_count n err = pipe_ret P ?K a e"
    using em by (cases "u_count = 0") (auto simp: pipe_report_def tx_answer_def Let_def split: prod.splits if_splits)
  ultimately show ?thesis using K'(1,2,4) em by (intro exI [of _ K']) simp
qed

section \<open>Waiting threads\<close>

text \<open>
  The queues of a pipe hold \<open>ws\<close> and \<open>rs\<close>: threads wait to write only while the pipe is full and has a
  reader, and to read only while it is empty and has a writer.
\<close>

definition pipe_waiters :: "pipe \<Rightarrow> (addr \<Rightarrow> awq option) \<Rightarrow> addr list \<Rightarrow> addr list \<Rightarrow> bool" where
  "pipe_waiters p W ws rs \<longleftrightarrow> pp_w_wq p \<noteq> pp_r_wq p
     \<and> W (pp_w_wq p) = Some (AWQ_basic ws []) \<and> W (pp_r_wq p) = Some (AWQ_basic rs [])
     \<and> (ws \<noteq> [] \<longrightarrow> occupied_bytes p = pp_cap p - 1 \<and> pp_read_refs p \<noteq> 0)
     \<and> (rs \<noteq> [] \<longrightarrow> occupied_bytes p = 0 \<and> pp_write_refs p \<noteq> 0)"

text \<open>The wake-up of a queue when it is due.\<close>

lemma pipe_wake_rep:
  assumes pl: "placed K W S" and q: "W q = Some (AWQ_basic ws [])" and sch: "S (k_schedule K) = Some as"
    and al: "alloc_ok al" "\<not> oom al"
  shows "\<exists>K'. (if b then bwq_wake_all_threads al K (Some q) (Some (k_schedule K)) FOS_E_SUCCESS else Some (FOS_E_SUCCESS, K))
      = Some (FOS_E_SUCCESS, K') \<and> same_frame K K'
    \<and> placed K' (W(q \<mapsto> AWQ_basic (if b then [] else ws) [])) (S(k_schedule K \<mapsto> as @ (if b then ws else [])))
    \<and> (\<forall>c\<in>set (if b then ws else []). woken (err_word FOS_E_SUCCESS) (k_threads K c) (k_threads K' c))
    \<and> (\<forall>c. c \<notin> set (if b then ws else []) \<longrightarrow> k_threads K' c = k_threads K c)"
proof (cases b)
  case True
  from bwq_wake_all_rep [OF pl q sch al(1), of FOS_E_SUCCESS] al(2) obtain K' where
    "bwq_wake_all_threads al K (Some q) (Some (k_schedule K)) FOS_E_SUCCESS = Some (FOS_E_SUCCESS, K')" "same_frame K K'"
    "placed K' (W(q \<mapsto> AWQ_basic [] [])) (S(k_schedule K \<mapsto> as @ ws))"
    "\<forall>c\<in>set ws. woken (err_word FOS_E_SUCCESS) (k_threads K c) (k_threads K' c)"
    "\<forall>c. c \<notin> set ws \<longrightarrow> k_threads K' c = k_threads K c" unfolding append_Nil by blast
  then show ?thesis using True by (intro exI [of _ K']) (simp del: fun_upd_apply)
next
  case False
  have "W(q \<mapsto> AWQ_basic ws []) = W" "S(k_schedule K \<mapsto> as) = S" using q sch by auto
  then show ?thesis using False pl by (intro exI [of _ K]) (simp del: fun_upd_apply)
qed

text \<open>The thread that calls is not in any queue.\<close>

lemma caller_not_waiting:
  assumes pl: "placed K W S" and sch: "S (k_schedule K) = Some (a # as)" and q: "W q = Some (AWQ_basic ws rs)"
  shows "a \<notin> set ws" and "\<exists>t. k_threads K a = Some t"
proof -
  obtain t where t: "k_threads K a = Some t" "th_wq t = None" by (rule placed_on_schedule [OF pl sch, of a]) auto
  then show "\<exists>t. k_threads K a = Some t" by blast
  show "a \<notin> set ws" using locatedD(4) [OF placedD(8) [OF pl t(1)] q] t(2) by simp
qed

section \<open>Writing and reading\<close>

text \<open>The running thread \<open>a\<close> of the process \<open>r\<close> has the handle \<open>hs\<close>, an end of the pipe \<open>p\<close> at \<open>pa\<close>.\<close>

definition pipe_caller :: "pipe_store \<Rightarrow> 'm kernel \<Rightarrow> (addr \<Rightarrow> addr list option) \<Rightarrow> addr \<Rightarrow> addr list \<Rightarrow> thread \<Rightarrow> process
    \<Rightarrow> addr \<Rightarrow> addr \<Rightarrow> pipe \<Rightarrow> bool" where
  "pipe_caller P K S a as t r hs pa p \<longleftrightarrow> S (k_schedule K) = Some (a # as) \<and> k_threads K a = Some t \<and> k_procs K (th_proc t) = Some r
     \<and> map_option ph_pipe (ps_handles P hs) = Some pa \<and> ps_pipes P pa = Some p"

lemma pipe_callerE:
  assumes "pipe_caller P K S a as t r hs pa p" and "placed K W S"
  obtains ph where "ks_head K = Some (Some a)" "S (k_schedule K) = Some (a # as)" "k_threads K a = Some t"
    "k_procs K (th_proc t) = Some r" "ps_handles P hs = Some ph" "ph_pipe ph = pa" "ps_pipes P pa = Some p"
  using assms placed_head [OF assms(2), of "a # as"] by (auto simp: pipe_caller_def)

definition tx_len :: "nat \<Rightarrow> nat \<Rightarrow> nat" where
  "tx_len len avail = min len (min avail KS_PIPE_TX_MAX_LEN)"


lemma pipe_read_rep:
  assumes pl: "placed K W S" and c: "pipe_caller P K S a as t r hs pa p" and wf: "pipe_wf p" and w: "pipe_waiters p W ws rs"
    and env: "user_copies V F" and al: "alloc_ok (ke_al E)" "\<not> oom (ke_al E)"
    and arg: "u_dest \<noteq> 0" "0 < len" "0 < occupied_bytes p"
  shows "\<exists>e n p' K' m. pipe_hs_read E F P K hs u_dest len u_readden = Some (FOS_E_SUCCESS, set_pipe pa p' P, K')
    \<and> n \<le> tx_len len (occupied_bytes p) \<and> (e = FOS_E_SUCCESS \<longrightarrow> n = tx_len len (occupied_bytes p))
    \<and> pipe_wf p' \<and> pipe_data p' = drop n (pipe_data p) \<and> V m (pr_pd r) = stored (V (k_mem K) (pr_pd r)) u_dest (take n (pipe_data p))
    \<and> p' = p\<lparr>pp_i := pp_i p'\<rparr> \<and> copy_result F (pr_pd r) (pipe_data p) e
    \<and> placed K' (W(pp_w_wq p \<mapsto> AWQ_basic (if 0 < n then [] else ws) [])) (S(k_schedule K \<mapsto> a # as @ (if 0 < n then ws else [])))
    \<and> pipe_waiters p' (W(pp_w_wq p \<mapsto> AWQ_basic (if 0 < n then [] else ws) [])) (if 0 < n then [] else ws) rs
    \<and> pipe_frame K K'
    \<and> k_mem K' = snd (tx_answer E m (pr_pd r) u_readden n e)
    \<and> k_threads K' a = Some (with_eax t (err_word (fst (tx_answer E m (pr_pd r) u_readden n e))))
    \<and> (\<forall>b\<in>set (if 0 < n then ws else []). woken (err_word FOS_E_SUCCESS) (k_threads K b) (k_threads K' b))"
proof -
  obtain ph where h: "ks_head K = Some (Some a)" "S (k_schedule K) = Some (a # as)" "k_threads K a = Some t"
    "k_procs K (th_proc t) = Some r" "ps_handles P hs = Some ph" "ph_pipe ph = pa" "ps_pipes P pa = Some p"
    by (rule pipe_callerE [OF c pl])
  have le: "tx_len len (occupied_bytes p) \<le> occupied_bytes p" "tx_len len (occupied_bytes p) < 2 ^ 32"
    by (auto simp: tx_len_def KS_PIPE_TX_MAX_LEN_def)
  from pipe_drain_ok [OF wf env le, of "k_mem K" "pr_pd r" u_dest] obtain e n p' m where
    f: "pipe_drain F (k_mem K) (pr_pd r) u_dest (tx_len len (occupied_bytes p)) p = Some (e, n, p', m)"
    "n \<le> tx_len len (occupied_bytes p)" "e = FOS_E_SUCCESS \<longrightarrow> n = tx_len len (occupied_bytes p)" "pipe_wf p'"
    "pipe_data p' = drop n (pipe_data p)" "V m (pr_pd r) = stored (V (k_mem K) (pr_pd r)) u_dest (take n (pipe_data p))"
    "p' = p\<lparr>pp_i := pp_i p'\<rparr>" "copy_result F (pr_pd r) (pipe_data p) e" by blast
  have same: "pp_r_wq p' = pp_r_wq p" "pp_w_wq p' = pp_w_wq p" "pp_read_refs p' = pp_read_refs p"
    "pp_write_refs p' = pp_write_refs p" "pp_cap p' = pp_cap p" by (subst f(7), simp)+
  have ne: "pp_i p \<noteq> pp_j p" using occupied_0 [OF wf] arg(3) by simp
  let ?b = "pipe_full p \<and> 0 < n" and ?K = "K\<lparr>k_mem := m\<rparr>"
  have ws: "(if ?b then [] else ws) = (if 0 < n then [] else ws)" "(if ?b then ws else []) = (if 0 < n then ws else [])"
    using w pipe_full_iff [OF wf] by (auto simp: pipe_waiters_def)
  have qw: "W (pp_w_wq p) = Some (AWQ_basic ws [])" using w by (simp add: pipe_waiters_def)
  have sch: "S (k_schedule ?K) = Some (a # as)" using h(2) by simp
  from pipe_wake_rep [OF placed_mem [OF pl, of m] qw sch al, of ?b] obtain K1 where K1:
    "(if ?b then bwq_wake_all_threads (ke_al E) ?K (Some (pp_w_wq p)) (Some (k_schedule ?K)) FOS_E_SUCCESS
      else Some (FOS_E_SUCCESS, ?K)) = Some (FOS_E_SUCCESS, K1)" "same_frame ?K K1"
    "placed K1 (W(pp_w_wq p \<mapsto> AWQ_basic (if 0 < n then [] else ws) [])) (S(k_schedule ?K \<mapsto> a # as @ (if 0 < n then ws else [])))"
    "\<forall>c\<in>set (if 0 < n then ws else []). woken (err_word FOS_E_SUCCESS) (k_threads ?K c) (k_threads K1 c)"
    "\<forall>c. c \<notin> set (if 0 < n then ws else []) \<longrightarrow> k_threads K1 c = k_threads ?K c"
    unfolding ws append_Cons by blast
  have na: "a \<notin> set ws" by (rule caller_not_waiting(1) [OF pl h(2) qw])
  then have t1: "k_threads K1 a = Some t" using K1(5) h(3) by auto
  have mem1: "k_mem K1 = m" using K1(2) by (simp add: same_frame_def)
  let ?ans = "tx_answer E m (pr_pd r) u_readden n e"
  from pipe_report_rep [OF K1(3) t1, of E "set_pipe pa p' P" "pr_pd r" u_readden n e] obtain K' where K':
    "pipe_report E (set_pipe pa p' P) K1 a (pr_pd r) u_readden n e = Some (FOS_E_SUCCESS, set_pipe pa p' P, K')"
    "placed K' (W(pp_w_wq p \<mapsto> AWQ_basic (if 0 < n then [] else ws) [])) (S(k_schedule ?K \<mapsto> a # as @ (if 0 < n then ws else [])))"
    "pipe_frame K1 K'" "k_mem K' = snd ?ans" "k_threads K' = (k_threads K1)(a \<mapsto> with_eax t (err_word (fst ?ans)))"
    unfolding mem1 by blast
  have "pipe_hs_read E F P K hs u_dest len u_readden =
    (if ?b then bwq_wake_all_threads (ke_al E) ?K (Some (pp_w_wq p)) (Some (k_schedule ?K)) FOS_E_SUCCESS
      else Some (FOS_E_SUCCESS, ?K)) \<bind> (\<lambda>(wake_err, K). if wake_err \<noteq> FOS_E_SUCCESS then Some (wake_err, set_pipe pa p' P, K)
        else pipe_report E (set_pipe pa p' P) K a (pr_pd r) u_readden n e)"
    using h arg ne f(1) same(2) unfolding tx_len_def by (simp add: pipe_hs_read_def Let_def)
  then have "pipe_hs_read E F P K hs u_dest len u_readden = Some (FOS_E_SUCCESS, set_pipe pa p' P, K')"
    unfolding K1(1) using K'(1) by simp
  moreover have "pipe_waiters p' (W(pp_w_wq p \<mapsto> AWQ_basic (if 0 < n then [] else ws) [])) (if 0 < n then [] else ws) rs"
  proof -
    have "rs = []" using w arg(3) by (auto simp: pipe_waiters_def)
    moreover have "\<not> 0 < n \<Longrightarrow> occupied_bytes p' = occupied_bytes p" using f(5) by (metis drop0 gr0I pipe_data_length)
    ultimately show ?thesis using w unfolding pipe_waiters_def same by auto
  qed
  moreover have "pipe_frame K K'"
    by (rule pipe_frame_trans [OF pipe_frame_mem pipe_frame_trans [OF pipe_frame_same [OF K1(2)] K'(3)]])
  moreover have "\<forall>b\<in>set (if 0 < n then ws else []). woken (err_word FOS_E_SUCCESS) (k_threads K b) (k_threads K' b)"
    using K1(4) K'(5) na by auto
  moreover have "k_threads K' a = Some (with_eax t (err_word (fst ?ans)))" using K'(5) by simp
  moreover have "placed K' (W(pp_w_wq p \<mapsto> AWQ_basic (if 0 < n then [] else ws) [])) (S(k_schedule K \<mapsto> a # as @ (if 0 < n then ws else [])))"
    using K'(2) by simp
  ultimately show ?thesis using f(2-8) K'(4)
    apply -
    apply (rule exI [of _ e], rule exI [of _ n], rule exI [of _ p'], rule exI [of _ K'], rule exI [of _ m])
    apply (intro conjI; assumption)
    done
qed

section \<open>Waiting\<close>

lemma pipe_sleep_rep:
  assumes pl: "placed K W S" and sch: "S (k_schedule K) = Some (a # as)" and t: "k_threads K a = Some t"
    and q: "W q = Some (AWQ_basic ws [])" and al: "alloc_ok (ke_al E)" "\<not> oom (ke_al E)"
  shows "\<exists>K'. pipe_sleep E P K a q = Some (FOS_E_SUCCESS, P, K') \<and> placed K' (W(q \<mapsto> AWQ_basic (ws @ [a]) [])) (S(k_schedule K \<mapsto> as))
    \<and> same_frame K K' \<and> k_threads K' = (k_threads K)(a \<mapsto> t\<lparr>th_wq := Some q, th_state := THREAD_STATE_WAITING\<rparr>)"
proof -
  from block_on_basic [OF pl sch t q al] obtain bq bq' K1 K2 where b:
    "k_wqs K q = Some (WQ_basic bq)" "bwq_enqueue LL_IMPL (ke_al E) bq a = Some (FOS_E_SUCCESS, bq')"
    "thread_detach (set_wq q (WQ_basic bq') K) a = Some K1"
    "upd_thread K1 a (\<lambda>t. t\<lparr>th_wq := Some q, th_state := THREAD_STATE_WAITING\<rparr>) = Some K2"
    "placed K2 (W(q \<mapsto> AWQ_basic (ws @ [a]) [])) (S(k_schedule K \<mapsto> as))" "same_frame K K2"
    "k_threads K2 = (k_threads K)(a \<mapsto> t\<lparr>th_wq := Some q, th_state := THREAD_STATE_WAITING\<rparr>)" by blast
  then show ?thesis by (intro exI [of _ K2]) (simp add: pipe_sleep_def basic_queue_def Let_def)
qed

text \<open>The outcome of a wait for the queue \<open>q\<close>: the caller sleeps there, or is told \<open>e\<close> at once.\<close>

definition wait_outcome ::
  "(fernos_error \<times> pipe_store \<times> 'm kernel) option \<Rightarrow> pipe_store \<Rightarrow> 'm kernel \<Rightarrow> (addr \<Rightarrow> awq option) \<Rightarrow> (addr \<Rightarrow> addr list option)
   \<Rightarrow> addr \<Rightarrow> addr list \<Rightarrow> thread \<Rightarrow> addr \<Rightarrow> addr list \<Rightarrow> fernos_error option \<Rightarrow> bool"
where
  "wait_outcome res P K W S a as t q ws told \<longleftrightarrow>
     (\<exists>K'. res = Some (FOS_E_SUCCESS, P, K') \<and> same_frame K K'
        \<and> (case told of
             None \<Rightarrow> placed K' (W(q \<mapsto> AWQ_basic (ws @ [a]) [])) (S(k_schedule K \<mapsto> as))
               \<and> k_threads K' = (k_threads K)(a \<mapsto> t\<lparr>th_wq := Some q, th_state := THREAD_STATE_WAITING\<rparr>)
           | Some e \<Rightarrow> placed K' W S \<and> k_threads K' = (k_threads K)(a \<mapsto> with_eax t (err_word e))))"

lemma pipe_wait_rep:
  assumes pl: "placed K W S" and c: "pipe_caller P K S a as t r hs pa p" and wf: "pipe_wf p" and w: "pipe_waiters p W ws rs"
    and al: "alloc_ok (ke_al E)" "\<not> oom (ke_al E)"
  shows "wait_outcome (pipe_hs_wait_write_ready E P K hs) P K W S a as t (pp_w_wq p) ws
      (if pp_read_refs p = 0 then Some FOS_E_EMPTY else if occupied_bytes p = pp_cap p - 1 then None else Some FOS_E_SUCCESS)"
    and "wait_outcome (pipe_hs_wait_read_ready E P K hs) P K W S a as t (pp_r_wq p) rs
      (if 0 < occupied_bytes p then Some FOS_E_SUCCESS else if pp_write_refs p = 0 then Some FOS_E_EMPTY else None)"
proof -
  obtain ph where h: "ks_head K = Some (Some a)" "S (k_schedule K) = Some (a # as)" "k_threads K a = Some t"
    "k_procs K (th_proc t) = Some r" "ps_handles P hs = Some ph" "ph_pipe ph = pa" "ps_pipes P pa = Some p"
    by (rule pipe_callerE [OF c pl])
  have q: "W (pp_w_wq p) = Some (AWQ_basic ws [])" "W (pp_r_wq p) = Some (AWQ_basic rs [])"
    using w by (simp_all add: pipe_waiters_def)
  have told: "wait_outcome (pipe_ret P K a e) P K W S a as t q' ws' (Some e)" for e q' ws'
    using pipe_ret_rep [OF pl h(3), of P e] unfolding wait_outcome_def by auto
  have sleep: "W q' = Some (AWQ_basic ws' []) \<Longrightarrow> wait_outcome (pipe_sleep E P K a q') P K W S a as t q' ws' None" for q' ws'
    using pipe_sleep_rep [OF pl h(2,3) _ al, of q' ws' P] unfolding wait_outcome_def option.case by blast
  have "pipe_hs_wait_write_ready E P K hs = (if pp_read_refs p = 0 then pipe_ret P K a FOS_E_EMPTY
      else if occupied_bytes p = pp_cap p - 1 then pipe_sleep E P K a (pp_w_wq p) else pipe_ret P K a FOS_E_SUCCESS)"
    using h pipe_full_iff [OF wf] by (simp add: pipe_hs_wait_write_ready_def)
  then show "wait_outcome (pipe_hs_wait_write_ready E P K hs) P K W S a as t (pp_w_wq p) ws
      (if pp_read_refs p = 0 then Some FOS_E_EMPTY else if occupied_bytes p = pp_cap p - 1 then None else Some FOS_E_SUCCESS)"
    using told sleep [OF q(1)] by (simp split: if_split)
  have "pipe_hs_wait_read_ready E P K hs = (if 0 < occupied_bytes p then pipe_ret P K a FOS_E_SUCCESS
      else if pp_write_refs p = 0 then pipe_ret P K a FOS_E_EMPTY else pipe_sleep E P K a (pp_r_wq p))"
    using h occupied_0 [OF wf] by (auto simp: pipe_hs_wait_read_ready_def)
  then show "wait_outcome (pipe_hs_wait_read_ready E P K hs) P K W S a as t (pp_r_wq p) rs
      (if 0 < occupied_bytes p then Some FOS_E_SUCCESS else if pp_write_refs p = 0 then Some FOS_E_EMPTY else None)"
    using told sleep [OF q(2)] by (simp split: if_split)
qed

section \<open>Closing an end\<close>

lemma placed_drop_queue:
  assumes pl: "placed K W S" and q: "W q = Some aq" "awq_items aq = []"
  shows "placed (K\<lparr>k_wqs := (k_wqs K)(q := None)\<rparr>) (W(q := None)) S"
proof -
  have "located (W(q := None)) S a t" if t: "k_threads K a = Some t" for a t
  proof -
    note loc = locatedD [OF placedD(8) [OF pl t]]
    have "th_wq t \<noteq> Some q" using loc(4) [OF q(1)] q(2) by simp
    then show ?thesis using loc unfolding located_def by auto
  qed
  then show ?thesis using placedD [OF pl] unfolding placed_def by (auto split: if_splits)
qed

definition close_end :: "bool \<Rightarrow> pipe \<Rightarrow> pipe" where
  "close_end writer p = (if writer then p\<lparr>pp_write_refs := pp_write_refs p - 1\<rparr> else p\<lparr>pp_read_refs := pp_read_refs p - 1\<rparr>)"

definition last_end :: "bool \<Rightarrow> pipe \<Rightarrow> bool" where
  "last_end writer p \<longleftrightarrow> (if writer then pp_write_refs p = 1 else pp_read_refs p = 1)"

lemma wake_both_rep:
  assumes pl: "placed K W S" and wf: "pipe_wf p" and w: "pipe_waiters p W ws rs" and sch: "S (k_schedule K) = Some as"
    and al: "alloc_ok (ke_al E)" "\<not> oom (ke_al E)"
  shows "\<exists>K'. wake_both E K p we re = Some (FOS_E_SUCCESS, K') \<and> same_frame K K'
    \<and> placed K' (W(pp_w_wq p \<mapsto> AWQ_basic [] [], pp_r_wq p \<mapsto> AWQ_basic [] [])) (S(k_schedule K \<mapsto> as @ ws @ rs))
    \<and> (\<forall>b\<in>set ws. woken (err_word we) (k_threads K b) (k_threads K' b))
    \<and> (\<forall>b\<in>set rs. woken (err_word re) (k_threads K b) (k_threads K' b))
    \<and> (\<forall>b. b \<notin> set (ws @ rs) \<longrightarrow> k_threads K' b = k_threads K b)"
proof -
  have q: "W (pp_w_wq p) = Some (AWQ_basic ws [])" "W (pp_r_wq p) = Some (AWQ_basic rs [])" "pp_w_wq p \<noteq> pp_r_wq p"
    and one: "ws = [] \<or> rs = []" using w wf by (auto simp: pipe_waiters_def pipe_wf_def)
  from bwq_wake_all_rep [OF pl q(1) sch al(1), of we] al(2) obtain K1 where K1:
    "bwq_wake_all_threads (ke_al E) K (Some (pp_w_wq p)) (Some (k_schedule K)) we = Some (FOS_E_SUCCESS, K1)" "same_frame K K1"
    "placed K1 (W(pp_w_wq p \<mapsto> AWQ_basic [] [])) (S(k_schedule K \<mapsto> as @ ws))"
    "\<forall>b\<in>set ws. woken (err_word we) (k_threads K b) (k_threads K1 b)"
    "\<forall>b. b \<notin> set ws \<longrightarrow> k_threads K1 b = k_threads K b" unfolding append_Nil by blast
  have fr: "k_schedule K1 = k_schedule K" using K1(2) by (simp add: same_frame_def)
  have q2: "(W(pp_w_wq p \<mapsto> AWQ_basic [] [])) (pp_r_wq p) = Some (AWQ_basic rs [])" using q by simp
  from bwq_wake_all_rep [OF K1(3) q2 fun_upd_same al(1), of re] al(2) obtain K2 where K2:
    "bwq_wake_all_threads (ke_al E) K1 (Some (pp_r_wq p)) (Some (k_schedule K)) re = Some (FOS_E_SUCCESS, K2)" "same_frame K1 K2"
    "placed K2 (W(pp_w_wq p \<mapsto> AWQ_basic [] [], pp_r_wq p \<mapsto> AWQ_basic [] [])) (S(k_schedule K \<mapsto> as @ ws @ rs))"
    "\<forall>b\<in>set rs. woken (err_word re) (k_threads K1 b) (k_threads K2 b)"
    "\<forall>b. b \<notin> set rs \<longrightarrow> k_threads K2 b = k_threads K1 b"
    unfolding append_Nil fun_upd_upd append_assoc by blast
  have d: "b \<in> set ws \<Longrightarrow> b \<notin> set rs" "b \<in> set rs \<Longrightarrow> b \<notin> set ws" for b using one by auto
  have "wake_both E K p we re = Some (FOS_E_SUCCESS, K2)" using K1(1) K2(1) fr by (simp add: wake_both_def)
  then show ?thesis using same_frame_trans [OF K1(2) K2(2)] K2(3-5) K1(4,5) d
    by (intro exI [of _ K2]) (auto simp del: fun_upd_apply)
qed

lemma pipe_close_rep:
  assumes pl: "placed K W S" and sch: "S (k_schedule K) = Some as" and wf: "pipe_wf p" and w: "pipe_waiters p W ws rs"
    and h: "ps_handles P hs = Some \<lparr>ph_writer = wr, ph_pipe = pa\<rparr>" "ps_pipes P pa = Some p"
    and refs: "0 < (if wr then pp_write_refs p else pp_read_refs p)" "pp_write_refs p + pp_read_refs p < 2 ^ 32"
    and al: "alloc_ok (ke_al E)" "\<not> oom (ke_al E)"
    and W': "W' = (if last_end wr p then W(pp_w_wq p \<mapsto> AWQ_basic [] [], pp_r_wq p \<mapsto> AWQ_basic [] []) else W)"
    and we: "we = (if wr then FOS_E_STATE_MISMATCH else FOS_E_EMPTY)" and re: "re = (if wr then FOS_E_EMPTY else FOS_E_STATE_MISMATCH)"
    and gone: "gone \<longleftrightarrow> pp_write_refs p + pp_read_refs p = 1"
  shows "\<exists>P' K'. delete_pipe_handle_state E P K hs = Some (FOS_E_SUCCESS, P', K') \<and> ps_handles P' = (ps_handles P)(hs := None)
    \<and> ps_pipes P' = (ps_pipes P)(pa := if gone then None else Some (close_end wr p))
    \<and> pipe_waiters (close_end wr p) W' (if last_end wr p then [] else ws) (if last_end wr p then [] else rs)
    \<and> placed K' (if gone then W'(pp_w_wq p := None, pp_r_wq p := None) else W')
        (S(k_schedule K \<mapsto> as @ (if last_end wr p then ws @ rs else [])))
    \<and> (last_end wr p \<longrightarrow> (\<forall>b\<in>set ws. woken (err_word we) (k_threads K b) (k_threads K' b))
         \<and> (\<forall>b\<in>set rs. woken (err_word re) (k_threads K b) (k_threads K' b)))
    \<and> (\<forall>b. b \<notin> set (if last_end wr p then ws @ rs else []) \<longrightarrow> k_threads K' b = k_threads K b)"
proof -
  let ?p = "close_end wr p" and ?l = "last_end wr p"
  have dec: "0 < n \<Longrightarrow> n < 2 ^ 32 \<Longrightarrow> (n + (2 ^ 32 - 1)) mod 2 ^ 32 = n - 1" for n :: nat
  proof -
    assume n: "0 < n" "n < 2 ^ 32"
    then have "n + (2 ^ 32 - 1) = (n - 1) + 2 ^ 32" by simp
    then show ?thesis using n by (simp only: mod_add_self2 mod_less)
  qed
  have close: "(if wr then p\<lparr>pp_write_refs := (pp_write_refs p + (2 ^ 32 - 1)) mod 2 ^ 32\<rparr>
      else p\<lparr>pp_read_refs := (pp_read_refs p + (2 ^ 32 - 1)) mod 2 ^ 32\<rparr>) = ?p"
    using refs dec [of "pp_write_refs p"] dec [of "pp_read_refs p"] by (cases wr) (simp_all add: close_end_def)
  have same: "pp_w_wq ?p = pp_w_wq p" "pp_r_wq ?p = pp_r_wq p" "occupied_bytes ?p = occupied_bytes p" "pp_cap ?p = pp_cap p"
    by (simp_all add: close_end_def occupied_bytes_def)
  have l: "wr \<and> pp_write_refs ?p = 0 \<longleftrightarrow> wr \<and> ?l" "\<not> wr \<and> pp_read_refs ?p = 0 \<longleftrightarrow> \<not> wr \<and> ?l"
    using refs(1) by (auto simp: close_end_def last_end_def)
  have g: "(pp_write_refs ?p + pp_read_refs ?p) mod 2 ^ 32 = 0 \<longleftrightarrow> gone" and gl: "gone \<Longrightarrow> ?l"
    using refs gone by (auto simp: close_end_def last_end_def)
  have "\<exists>K1. (if wr \<and> ?l then wake_both E K ?p FOS_E_STATE_MISMATCH FOS_E_EMPTY
        else if \<not> wr \<and> ?l then wake_both E K ?p FOS_E_EMPTY FOS_E_STATE_MISMATCH else Some (FOS_E_SUCCESS, K)) = Some (FOS_E_SUCCESS, K1)
    \<and> placed K1 W' (S(k_schedule K \<mapsto> as @ (if ?l then ws @ rs else [])))
    \<and> (?l \<longrightarrow> (\<forall>b\<in>set ws. woken (err_word we) (k_threads K b) (k_threads K1 b))
         \<and> (\<forall>b\<in>set rs. woken (err_word re) (k_threads K b) (k_threads K1 b)))
    \<and> (\<forall>b. b \<notin> set (if ?l then ws @ rs else []) \<longrightarrow> k_threads K1 b = k_threads K b)"
  proof (cases ?l)
    case True
    have "wake_both E K ?p we re = wake_both E K p we re" unfolding wake_both_def same ..
    then show ?thesis using wake_both_rep [OF pl wf w sch al, of we re] True unfolding W' we re
      by (cases wr) (auto simp del: fun_upd_apply)
  next
    case False
    have "S(k_schedule K \<mapsto> as) = S" using sch by auto
    then show ?thesis using False pl W' by (intro exI [of _ K]) (simp del: fun_upd_apply)
  qed
  then obtain K1 where K1: "(if wr \<and> ?l then wake_both E K ?p FOS_E_STATE_MISMATCH FOS_E_EMPTY
        else if \<not> wr \<and> ?l then wake_both E K ?p FOS_E_EMPTY FOS_E_STATE_MISMATCH else Some (FOS_E_SUCCESS, K)) = Some (FOS_E_SUCCESS, K1)"
    "placed K1 W' (S(k_schedule K \<mapsto> as @ (if ?l then ws @ rs else [])))"
    "?l \<longrightarrow> (\<forall>b\<in>set ws. woken (err_word we) (k_threads K b) (k_threads K1 b))
         \<and> (\<forall>b\<in>set rs. woken (err_word re) (k_threads K b) (k_threads K1 b))"
    "\<forall>b. b \<notin> set (if ?l then ws @ rs else []) \<longrightarrow> k_threads K1 b = k_threads K b" by blast
  let ?P = "set_pipe pa ?p P"
  let ?P' = "(if gone then ?P\<lparr>ps_pipes := (ps_pipes ?P)(pa := None)\<rparr> else ?P)\<lparr>ps_handles := (ps_handles P)(hs := None)\<rparr>"
  let ?K2 = "if gone then K1\<lparr>k_wqs := (k_wqs K1)(pp_w_wq p := None, pp_r_wq p := None)\<rparr> else K1"
  let ?K' = "?K2\<lparr>k_handles := (k_handles ?K2)(hs := None)\<rparr>"
  have "delete_pipe_handle_state E P K hs = (if wr \<and> ?l then wake_both E K ?p FOS_E_STATE_MISMATCH FOS_E_EMPTY
        else if \<not> wr \<and> ?l then wake_both E K ?p FOS_E_EMPTY FOS_E_STATE_MISMATCH else Some (FOS_E_SUCCESS, K)) \<bind>
    (\<lambda>(err, K). if err \<noteq> FOS_E_SUCCESS then Some (err, ?P, K) else (if gone then delete_pipe ?P K pa else Some (?P, K)) \<bind>
      (\<lambda>(P, K). Some (FOS_E_SUCCESS, P\<lparr>ps_handles := (ps_handles P)(hs := None)\<rparr>, K\<lparr>k_handles := (k_handles K)(hs := None)\<rparr>)))"
    by (simp only: delete_pipe_handle_state_def h Option.bind.simps pipe_handle_state.simps Let_def close l g)
  also have "\<dots> = Some (FOS_E_SUCCESS, ?P', ?K')"
    unfolding K1(1) by (simp add: delete_pipe_def set_pipe_def same)
  finally have del: "delete_pipe_handle_state E P K hs = Some (FOS_E_SUCCESS, ?P', ?K')" .
  have q: "pp_w_wq p \<noteq> pp_r_wq p" "?l \<Longrightarrow> W' (pp_w_wq p) = Some (AWQ_basic [] []) \<and> W' (pp_r_wq p) = Some (AWQ_basic [] [])"
    using w by (auto simp: pipe_waiters_def W')
  have "placed ?K2 (if gone then W'(pp_w_wq p := None, pp_r_wq p := None) else W') (S(k_schedule K \<mapsto> as @ (if ?l then ws @ rs else [])))"
  proof (cases gone)
    case True
    have "placed (K1\<lparr>k_wqs := (k_wqs K1)(pp_w_wq p := None)\<rparr>) (W'(pp_w_wq p := None)) (S(k_schedule K \<mapsto> as @ (if ?l then ws @ rs else [])))"
      by (rule placed_drop_queue [OF K1(2), of _ "AWQ_basic [] []"]) (use q gl True in simp_all)
    from placed_drop_queue [OF this, of "pp_r_wq p" "AWQ_basic [] []"] show ?thesis using q gl True by simp
  next
    case False
    then show ?thesis using K1(2) by (simp del: fun_upd_apply)
  qed
  then have "placed ?K' (if gone then W'(pp_w_wq p := None, pp_r_wq p := None) else W') (S(k_schedule K \<mapsto> as @ (if ?l then ws @ rs else [])))"
    by (simp add: placed_def)
  moreover have "pipe_waiters ?p W' (if ?l then [] else ws) (if ?l then [] else rs)"
    using w refs(1) unfolding pipe_waiters_def same W' by (auto simp: close_end_def last_end_def)
  moreover have "k_threads ?K' = k_threads K1" by simp
  moreover have "ps_handles ?P' = (ps_handles P)(hs := None)" "ps_pipes ?P' = (ps_pipes P)(pa := if gone then None else Some ?p)"
    by (simp_all add: set_pipe_def)
  ultimately show ?thesis using del K1(3,4)
    apply -
    apply (rule exI [of _ ?P'], rule exI [of _ ?K'])
    apply (intro conjI)
    apply (assumption | simp only:)+
    done
qed

section \<open>An example\<close>

lemma placed_add_queue:
  assumes pl: "placed K W S" and q: "W q = None" and w: "wq_rep w aq" "awq_items aq = []"
  shows "placed (set_wq q w K) (W(q \<mapsto> aq)) S"
proof -
  have "located (W(q \<mapsto> aq)) S a t" if t: "k_threads K a = Some t" for a t
  proof -
    note loc = locatedD [OF placedD(8) [OF pl t]]
    have "th_wq t \<noteq> Some q" using loc(3) [of q] q by auto
    then show ?thesis using loc w(2) unfolding located_def by auto
  qed
  then show ?thesis using placedD [OF pl] w unfolding placed_def by (auto split: if_splits)
qed

text \<open>
  The kernel of the examples with a pipe of three bytes between its first two processes: thread 6 waits in
  queue 40 to read from it, nobody waits to write.  Memory is the user's memory.
\<close>

definition pipe_kernel :: "unit kernel" where
  "pipe_kernel = set_wq 41 (WQ_basic \<lparr>bwq_wait_q = ll_none, bwq_ready_q = ll_none\<rparr>) sample_kernel"

definition sample_pipe :: "nat \<Rightarrow> nat \<Rightarrow> pipe" where
  "sample_pipe i j = \<lparr>pp_write_refs = 1, pp_read_refs = 2, pp_i = i, pp_j = j, pp_cap = 4, pp_buf = [10, 11, 12, 13],
     pp_w_wq = 41, pp_r_wq = 40\<rparr>"

text \<open>A full pipe, to which thread 6 waits to write.\<close>

definition full_pipe :: pipe where
  "full_pipe = (sample_pipe 1 0)\<lparr>pp_w_wq := 40, pp_r_wq := 41\<rparr>"

definition sample_pipes :: "pipe \<Rightarrow> pipe_store" where
  "sample_pipes p = \<lparr>ps_pipes = [70 \<mapsto> p],
     ps_handles = [80 \<mapsto> \<lparr>ph_writer = True, ph_pipe = 70\<rparr>, 81 \<mapsto> \<lparr>ph_writer = False, ph_pipe = 70\<rparr>]\<rparr>"

definition pipe_queues :: "addr \<Rightarrow> awq option" where
  "pipe_queues = sample_queues(41 \<mapsto> AWQ_basic [] [])"

text \<open>A user memory that holds the byte 7 everywhere, and of what is written to it takes only that byte.\<close>

definition sample_pipe_env :: "unit pipe_env" where
  "sample_pipe_env = \<lparr>pe_from_user = (\<lambda>m pd u n. (FOS_E_SUCCESS, replicate n 7)), pe_to_user = (\<lambda>m pd u bs.
       let sevens = takeWhile (\<lambda>b. b = 7) bs in (if sevens = bs then FOS_E_SUCCESS else FOS_E_NO_MEM, length sevens, m)),
     pe_ok = (\<lambda>_. True), pe_junk = (\<lambda>_. 0)\<rparr>"

lemma sample_copies: "user_copies (\<lambda>m pd u. 7) sample_pipe_env"
proof -
  have "user_bytes (\<lambda>u. 7) u n = replicate n 7" for u n
    by (rule nth_equalityI) (simp_all add: user_bytes_def)
  moreover have "stored (\<lambda>u. 7) u (take (length (takeWhile (\<lambda>b. b = 7) bs)) bs) = (\<lambda>u. 7)" for u bs
  proof -
    have "takeWhile (\<lambda>b. b = 7) bs ! i = 7" if "i < length (takeWhile (\<lambda>b. b = 7) bs)" for i
      using nth_mem [OF that] set_takeWhileD by fastforce
    then show ?thesis unfolding takeWhile_eq_take [symmetric] stored_def by (auto simp: fun_eq_iff)
  qed
  ultimately show ?thesis
    by (auto simp: user_copies_def sample_pipe_env_def Let_def length_takeWhile_le simp del: takeWhile_eq_all_conv)
qed

lemma pipe_placed: "placed pipe_kernel pipe_queues sample_schedule"
  unfolding pipe_kernel_def pipe_queues_def
  by (rule placed_add_queue [OF sample_placed]) (simp_all add: sample_queues_def bwq_rep_def ll_none_inv)

lemma sample_pipe_caller:
  assumes "hs = 80 \<or> hs = 81"
  shows "pipe_caller (sample_pipes p) pipe_kernel sample_schedule 1 [2] (sample_thread 0 50 THREAD_STATE_SCHEDULED None)
    (sample_proc 0 None (ll_one 51) (ll_one 52) (tbl_two 1 5) 1 31 False) hs 70 p"
proof -
  have "k_schedule sample_kernel = 10" "k_procs sample_kernel 50 = Some (sample_proc 0 None (ll_one 51) (ll_one 52) (tbl_two 1 5) 1 31 False)"
    by (simp_all add: sample_kernel_def)
  then show ?thesis using assms
    by (auto simp: pipe_caller_def pipe_kernel_def sample_pipes_def sample_threads sample_schedule_def sample_thread_def)
qed

lemma sample_pipe_wf: "i < 4 \<Longrightarrow> j < 4 \<Longrightarrow> pipe_wf (sample_pipe i j)"
  by (simp add: pipe_wf_def sample_pipe_def)

lemma sample_pipe_waiters: "pipe_waiters (sample_pipe i i) pipe_queues [] [6]"
  by (simp add: pipe_waiters_def sample_pipe_def pipe_queues_def sample_queues_def occupied_bytes_def)

lemma full_pipe_ok: "pipe_wf full_pipe" "pipe_waiters full_pipe pipe_queues [6] []" "pipe_data full_pipe = [11, 12, 13]"
  by (simp_all add: full_pipe_def pipe_wf_def pipe_waiters_def sample_pipe_def pipe_queues_def sample_queues_def occupied_bytes_def
      pipe_data_def pipe_pos_def upt_rec)

section \<open>The promises of pipes\<close>



text \<open>C17. Reading from a pipe that holds bytes, with an allocator that does not fail: the first bytes of the pipe, as
  many as were asked for and fit in one transfer unless the copy failed, are stored in the user's memory in order and are
  gone from the pipe; when the pipe was full and lost bytes all waiting writers go to the end of the
  schedule, and still nobody waits for room that is there.  The caller is told the result \<open>e\<close> of the copy: when it
  stopped half way that is its error although bytes were read, where \<^verbatim>\<open>handle.h\<close> says that success is returned if
  any data at all is read.\<close>

theorem pipe_read_spec:
  assumes "placed K W S" and "pipe_caller P K S a as t r hs pa p" and "pipe_wf p" and "pipe_waiters p W ws rs"
    and "user_copies V F" and "alloc_ok (ke_al E)" and "\<not> oom (ke_al E)"
    and "u_dest \<noteq> 0" and "0 < len" and "0 < occupied_bytes p"
  shows "\<exists>e n p' K' m. pipe_hs_read E F P K hs u_dest len u_readden = Some (FOS_E_SUCCESS, set_pipe pa p' P, K')
    \<and> n \<le> tx_len len (occupied_bytes p) \<and> (e = FOS_E_SUCCESS \<longrightarrow> n = tx_len len (occupied_bytes p))
    \<and> pipe_wf p' \<and> pipe_data p' = drop n (pipe_data p) \<and> V m (pr_pd r) = stored (V (k_mem K) (pr_pd r)) u_dest (take n (pipe_data p))
    \<and> p' = p\<lparr>pp_i := pp_i p'\<rparr> \<and> copy_result F (pr_pd r) (pipe_data p) e
    \<and> placed K' (W(pp_w_wq p \<mapsto> AWQ_basic (if 0 < n then [] else ws) [])) (S(k_schedule K \<mapsto> a # as @ (if 0 < n then ws else [])))
    \<and> pipe_waiters p' (W(pp_w_wq p \<mapsto> AWQ_basic (if 0 < n then [] else ws) [])) (if 0 < n then [] else ws) rs
    \<and> pipe_frame K K'
    \<and> k_mem K' = snd (tx_answer E m (pr_pd r) u_readden n e)
    \<and> k_threads K' a = Some (with_eax t (err_word (fst (tx_answer E m (pr_pd r) u_readden n e))))
    \<and> (\<forall>b\<in>set (if 0 < n then ws else []). woken (err_word FOS_E_SUCCESS) (k_threads K b) (k_threads K' b))"
  by (rule pipe_read_rep [OF assms])

definition sevens_pipe :: pipe where
  "sevens_pipe = full_pipe\<lparr>pp_buf := [7, 7, 7, 7]\<rparr>"

lemma sevens_pipe_ok: "pipe_wf sevens_pipe" "pipe_waiters sevens_pipe pipe_queues [6] []" "pipe_data sevens_pipe = [7, 7, 7]"
  by (simp_all add: sevens_pipe_def full_pipe_def pipe_wf_def pipe_waiters_def sample_pipe_def pipe_queues_def sample_queues_def
      occupied_bytes_def pipe_data_def pipe_pos_def upt_rec)

theorem pipe_read_spec_witness:
  "\<exists>p' K'. pipe_hs_read sample_env sample_pipe_env (sample_pipes sevens_pipe) pipe_kernel 81 4096 5 0
      = Some (FOS_E_SUCCESS, set_pipe 70 p' (sample_pipes sevens_pipe), K') \<and> pipe_data p' = []
    \<and> woken (err_word FOS_E_SUCCESS) (k_threads pipe_kernel 6) (k_threads K' 6)"
proof -
  have o: "occupied_bytes sevens_pipe = 3" using sevens_pipe_ok(3) pipe_data_length [of sevens_pipe] by simp
  have x: "alloc_ok (ke_al sample_env)" "\<not> oom (ke_al sample_env)" "(4096 :: 32 word) \<noteq> 0" "(0 :: nat) < 5"
    "0 < occupied_bytes sevens_pipe" unfolding o by simp_all
  have h: "(81 :: addr) = 80 \<or> (81 :: addr) = 81" by simp
  have c: "e = FOS_E_SUCCESS" if "copy_result sample_pipe_env pd [7, 7, 7] e" for pd e
  proof -
    have "takeWhile (\<lambda>b. b = 7) cs = cs" if "set cs \<subseteq> {7 :: 8 word}" for cs using that by (auto simp: takeWhile_eq_all_conv)
    then show ?thesis using that by (auto simp: copy_result_def sample_pipe_env_def)
  qed
  from pipe_read_spec [OF pipe_placed sample_pipe_caller [OF h] sevens_pipe_ok(1,2) sample_copies x, of 0]
  obtain e n p' K' where "pipe_hs_read sample_env sample_pipe_env (sample_pipes sevens_pipe) pipe_kernel 81 4096 5 0
      = Some (FOS_E_SUCCESS, set_pipe 70 p' (sample_pipes sevens_pipe), K')"
    "e = FOS_E_SUCCESS \<longrightarrow> n = 3" "pipe_data p' = drop n [7, 7, 7]" "e = FOS_E_SUCCESS"
    "\<forall>b\<in>set (if 0 < n then [6] else []). woken (err_word FOS_E_SUCCESS) (k_threads pipe_kernel b) (k_threads K' b)"
    unfolding o sevens_pipe_ok(3) by (auto simp: tx_len_def KS_PIPE_TX_MAX_LEN_def dest: c)
  then show ?thesis by (intro exI [of _ p'] exI [of _ K']) simp
qed

text \<open>A copy that stops after the first of two bytes: it is gone from the pipe, and the caller gets the error.\<close>

definition half_pipe :: pipe where
  "half_pipe = (sample_pipe 1 3)\<lparr>pp_buf := [10, 7, 12, 13]\<rparr>"

lemma partial_read_is_an_error:
  "\<exists>p' K' t'. pipe_hs_read sample_env sample_pipe_env (sample_pipes half_pipe) pipe_kernel 81 4096 5 0
      = Some (FOS_E_SUCCESS, set_pipe 70 p' (sample_pipes half_pipe), K')
    \<and> pipe_data half_pipe = [7, 12] \<and> pipe_data p' = [12]
    \<and> k_threads K' 1 = Some t' \<and> c_eax (th_ctx t') = err_word FOS_E_NO_MEM"
proof -
  have k: "ks_head pipe_kernel = Some (Some 1)" "k_mem pipe_kernel = ()"
    "k_threads pipe_kernel 1 = Some (sample_thread 0 50 THREAD_STATE_SCHEDULED None)"
    "k_procs pipe_kernel 50 = Some (sample_proc 0 None (ll_one 51) (ll_one 52) (tbl_two 1 5) 1 31 False)"
    by (simp_all add: pipe_kernel_def sample_kernel_def ks_head_def sample_rings_def)
  have o: "occupied_bytes half_pipe = 2" "\<not> pipe_full half_pipe"
    by (simp_all add: half_pipe_def sample_pipe_def occupied_bytes_def pipe_full_def)
  have d: "pipe_drain sample_pipe_env () pd u 2 half_pipe = Some (FOS_E_NO_MEM, 1, half_pipe\<lparr>pp_i := 2\<rparr>, ())" for pd u
    by (simp add: pipe_drain_def half_pipe_def sample_pipe_def sample_pipe_env_def buf_read_def Let_def)
  have tx: "min 5 (min 2 KS_PIPE_TX_MAX_LEN) = 2" by (simp add: KS_PIPE_TX_MAX_LEN_def)
  have h: "ps_handles (sample_pipes half_pipe) 81 = Some \<lparr>ph_writer = False, ph_pipe = 70\<rparr>"
    "ps_pipes (sample_pipes half_pipe) 70 = Some half_pipe" by (simp_all add: sample_pipes_def)
  have ij: "pp_i half_pipe \<noteq> pp_j half_pipe" by (simp add: half_pipe_def sample_pipe_def)
  have data: "pipe_data half_pipe = [7, 12]" "pipe_data (half_pipe\<lparr>pp_i := 2\<rparr>) = [12]"
    by (simp_all add: half_pipe_def sample_pipe_def pipe_data_def occupied_bytes_def pipe_pos_def upt_rec)
  have u: "upd_thread (pipe_kernel\<lparr>k_mem := ()\<rparr>) 1 f
      = Some (set_thread 1 (f (sample_thread 0 50 THREAD_STATE_SCHEDULED None)) (pipe_kernel\<lparr>k_mem := ()\<rparr>))" for f
    using k(3) by (simp add: upd_thread_def)
  have proc: "th_proc (sample_thread 0 50 THREAD_STATE_SCHEDULED None) = 50" by (simp add: sample_thread_def)
  show ?thesis unfolding pipe_hs_read_def
    by (simp add: h k proc o ij tx d data pipe_report_def pipe_ret_def set_eax_def u del: One_nat_def)
      (auto simp: data)
qed

text \<open>C18. Waiting on an end of a pipe, with an allocator that does not fail: the writing end puts the caller to sleep
  behind the other writers exactly when the pipe has a reader and is full, and the reading end behind the other readers
  exactly when the pipe has a writer and is empty; otherwise the caller is told at once that it may go on, or that the
  other end is gone.\<close>

theorem pipe_wait_spec:
  assumes "placed K W S" and "pipe_caller P K S a as t r hs pa p" and "pipe_wf p" and "pipe_waiters p W ws rs"
    and "alloc_ok (ke_al E)" and "\<not> oom (ke_al E)"
  shows "wait_outcome (pipe_hs_wait_write_ready E P K hs) P K W S a as t (pp_w_wq p) ws
      (if pp_read_refs p = 0 then Some FOS_E_EMPTY else if occupied_bytes p = pp_cap p - 1 then None else Some FOS_E_SUCCESS)
    \<and> wait_outcome (pipe_hs_wait_read_ready E P K hs) P K W S a as t (pp_r_wq p) rs
      (if 0 < occupied_bytes p then Some FOS_E_SUCCESS else if pp_write_refs p = 0 then Some FOS_E_EMPTY else None)"
  using pipe_wait_rep [OF assms] by blast

theorem pipe_wait_spec_witness:
  "\<exists>K'. pipe_hs_wait_read_ready sample_env (sample_pipes (sample_pipe 2 2)) pipe_kernel 81 = Some (FOS_E_SUCCESS, sample_pipes (sample_pipe 2 2), K')
    \<and> placed K' (pipe_queues(40 \<mapsto> AWQ_basic [6, 1] [])) (sample_schedule(10 \<mapsto> [2]))"
proof -
  have h: "(81 :: addr) = 80 \<or> (81 :: addr) = 81" and wf: "pipe_wf (sample_pipe 2 2)" by (simp_all add: sample_pipe_wf)
  have x: "alloc_ok (ke_al sample_env)" "\<not> oom (ke_al sample_env)" by simp_all
  have o: "occupied_bytes (sample_pipe 2 2) = 0" "pp_write_refs (sample_pipe 2 2) = 1" "pp_r_wq (sample_pipe 2 2) = 40"
    "k_schedule pipe_kernel = 10"
    by (simp_all add: occupied_bytes_def sample_pipe_def pipe_kernel_def sample_kernel_def)
  show ?thesis
    using pipe_wait_spec [OF pipe_placed sample_pipe_caller [OF h] wf sample_pipe_waiters x, THEN conjunct2]
    unfolding wait_outcome_def o by auto
qed

text \<open>C19. Closing an end of a pipe, with an allocator that does not fail: one reference less; when it was the last one of
  its side every thread that waits on the pipe is scheduled, those on the closed side told that the state is wrong and
  those on the other side that nothing will come, so that nobody waits for an end that is gone; and the pipe and its
  queues go away with the very last reference.\<close>

theorem pipe_close_spec:
  assumes "placed K W S" and "S (k_schedule K) = Some as" and "pipe_wf p" and "pipe_waiters p W ws rs"
    and "ps_handles P hs = Some \<lparr>ph_writer = wr, ph_pipe = pa\<rparr>" and "ps_pipes P pa = Some p"
    and "0 < (if wr then pp_write_refs p else pp_read_refs p)" and "pp_write_refs p + pp_read_refs p < 2 ^ 32"
    and "alloc_ok (ke_al E)" and "\<not> oom (ke_al E)"
    and "W' = (if last_end wr p then W(pp_w_wq p \<mapsto> AWQ_basic [] [], pp_r_wq p \<mapsto> AWQ_basic [] []) else W)"
    and "we = (if wr then FOS_E_STATE_MISMATCH else FOS_E_EMPTY)" and "re = (if wr then FOS_E_EMPTY else FOS_E_STATE_MISMATCH)"
    and "gone \<longleftrightarrow> pp_write_refs p + pp_read_refs p = 1"
  shows "\<exists>P' K'. delete_pipe_handle_state E P K hs = Some (FOS_E_SUCCESS, P', K') \<and> ps_handles P' = (ps_handles P)(hs := None)
    \<and> ps_pipes P' = (ps_pipes P)(pa := if gone then None else Some (close_end wr p))
    \<and> pipe_waiters (close_end wr p) W' (if last_end wr p then [] else ws) (if last_end wr p then [] else rs)
    \<and> placed K' (if gone then W'(pp_w_wq p := None, pp_r_wq p := None) else W')
        (S(k_schedule K \<mapsto> as @ (if last_end wr p then ws @ rs else [])))
    \<and> (last_end wr p \<longrightarrow> (\<forall>b\<in>set ws. woken (err_word we) (k_threads K b) (k_threads K' b))
         \<and> (\<forall>b\<in>set rs. woken (err_word re) (k_threads K b) (k_threads K' b)))
    \<and> (\<forall>b. b \<notin> set (if last_end wr p then ws @ rs else []) \<longrightarrow> k_threads K' b = k_threads K b)"
  by (rule pipe_close_rep [OF assms])

theorem pipe_close_spec_witness:
  "\<exists>P' K'. delete_pipe_handle_state sample_env (sample_pipes (sample_pipe 2 2)) pipe_kernel 80 = Some (FOS_E_SUCCESS, P', K')
    \<and> ps_pipes P' 70 = Some (close_end True (sample_pipe 2 2))
    \<and> woken (err_word FOS_E_EMPTY) (k_threads pipe_kernel 6) (k_threads K' 6)"
proof -
  let ?p = "sample_pipe 2 2"
  have k: "k_schedule pipe_kernel = 10" by (simp add: pipe_kernel_def sample_kernel_def)
  have x: "sample_schedule (k_schedule pipe_kernel) = Some [1, 2]" "pipe_wf ?p"
    "ps_handles (sample_pipes ?p) 80 = Some \<lparr>ph_writer = True, ph_pipe = 70\<rparr>" "ps_pipes (sample_pipes ?p) 70 = Some ?p"
    "0 < (if True then pp_write_refs ?p else pp_read_refs ?p)" "pp_write_refs ?p + pp_read_refs ?p < 2 ^ 32"
    "alloc_ok (ke_al sample_env)" "\<not> oom (ke_al sample_env)"
    unfolding k by (simp_all add: sample_schedule_def sample_pipe_wf) (simp_all add: sample_pipes_def sample_pipe_def)
  have g: "False \<longleftrightarrow> pp_write_refs ?p + pp_read_refs ?p = 1" and l: "last_end True ?p" by (simp_all add: sample_pipe_def last_end_def)
  have m: "FOS_E_STATE_MISMATCH = (if True then FOS_E_STATE_MISMATCH else FOS_E_EMPTY)"
    "FOS_E_EMPTY = (if True then FOS_E_EMPTY else FOS_E_STATE_MISMATCH)" by simp_all
  from pipe_close_spec [OF pipe_placed x(1,2) sample_pipe_waiters x(3-8) refl m g] l show ?thesis by auto
qed

end
