(* ===== verification/Term_Buffer.thy ===== *)
theory Term_Buffer imports Fern_Prelude "HOL-Library.Char_ord" begin

text \<open>
  The terminal buffer (\<^verbatim>\<open>s_data/src/term_buffer.c\<close>): a grid of cells in one array, a cursor, the printing of
  characters with wrapping and scrolling, and the ANSI control sequences.  A cell outside the allocated
  array is undefined behaviour: the operation is then \<open>None\<close>.
\<close>

section \<open>Styles\<close>

type_synonym term_style = "16 word"

definition TC_BLACK :: "16 word" where "TC_BLACK = 0"
definition TC_WHITE :: "16 word" where "TC_WHITE = 15"
definition TS_BOLD :: "16 word" where "TS_BOLD = 0x100"
definition TS_ITALIC :: "16 word" where "TS_ITALIC = 0x200"

unbundle bit_operations_syntax

definition mk_term_style :: "16 word \<Rightarrow> 16 word \<Rightarrow> term_style" where
  "mk_term_style fg bg = fg OR push_bit 4 bg"

definition ts_bg_color :: "term_style \<Rightarrow> 16 word" where
  "ts_bg_color ts = drop_bit 4 ts AND 0xF"

definition ts_fg_color :: "term_style \<Rightarrow> 16 word" where
  "ts_fg_color ts = ts AND 0xF"

definition ts_with_bg_color :: "term_style \<Rightarrow> 16 word \<Rightarrow> term_style" where
  "ts_with_bg_color ts bg = (ts AND 0xFF0F) OR push_bit 4 bg"

definition ts_with_fg_color :: "term_style \<Rightarrow> 16 word \<Rightarrow> term_style" where
  "ts_with_fg_color ts fg = (ts AND 0xFFF0) OR fg"

definition ts_flip :: "term_style \<Rightarrow> term_style" where
  "ts_flip ts = mk_term_style (ts_bg_color ts) (ts_fg_color ts) OR (ts AND 0xFF00)"

definition ts_with_ansi_style_code :: "term_style \<Rightarrow> 8 word \<Rightarrow> term_style" where
  "ts_with_ansi_style_code ts code =
     (let n = unat code in
      if n = 1 then ts OR TS_BOLD
      else if n = 3 then ts OR TS_ITALIC
      else if 30 \<le> n \<and> n \<le> 37 then ts_with_fg_color ts (of_nat (n - 30))
      else if 90 \<le> n \<and> n \<le> 97 then ts_with_fg_color ts (of_nat (n - 90 + 8))
      else if 40 \<le> n \<and> n \<le> 47 then ts_with_bg_color ts (of_nat (n - 40))
      else if 100 \<le> n \<and> n \<le> 107 then ts_with_bg_color ts (of_nat (n - 100 + 8))
      else mk_term_style TC_WHITE TC_BLACK)"

section \<open>Cells and the buffer\<close>

record term_cell =
  tc_style :: term_style
  tc_c :: char

text \<open>\<open>tb_al\<close> says that the buffer is not static, that is, that its allocator is not NULL.\<close>

record term_buffer =
  tb_al :: bool
  tb_default :: term_cell
  tb_rows :: nat
  tb_cols :: nat
  tb_row :: nat
  tb_col :: nat
  tb_style :: term_style
  tb_buf :: "term_cell list"

definition printable :: "char \<Rightarrow> char" where
  "printable c = (if 32 \<le> (of_char c :: nat) \<and> (of_char c :: nat) < 127 then c else CHR '' '')"

text \<open>A loop that writes one value to \<open>n\<close> cells from \<open>i\<close>, and the copy of \<open>n\<close> cells to a disjoint place.\<close>

fun cells_fill :: "nat \<Rightarrow> nat \<Rightarrow> term_cell \<Rightarrow> term_cell list \<Rightarrow> term_cell list option" where
  "cells_fill 0 i v buf = Some buf"
| "cells_fill (Suc n) i v buf = do { buf \<leftarrow> arr_set buf i v; cells_fill n (i + 1) v buf }"

definition cells_cpy :: "nat \<Rightarrow> nat \<Rightarrow> nat \<Rightarrow> term_cell list \<Rightarrow> term_cell list option" where
  "cells_cpy dst src n buf =
     (if dst + n \<le> length buf \<and> src + n \<le> length buf \<and> (dst + n \<le> src \<or> src + n \<le> dst)
      then Some (take dst buf @ take n (drop src buf) @ drop (dst + n) buf) else None)"

text \<open>\<^verbatim>\<open>n\<close> rows from \<open>r\<close> on are overwritten with the cells at \<open>src\<close>.\<close>

fun rows_from :: "nat \<Rightarrow> nat \<Rightarrow> nat \<Rightarrow> nat \<Rightarrow> term_cell list \<Rightarrow> term_cell list option" where
  "rows_from 0 r src cols buf = Some buf"
| "rows_from (Suc n) r src cols buf = do {
     buf \<leftarrow> cells_cpy (r * cols) src cols buf;
     rows_from n (r + 1) src cols buf }"

definition tb_clear :: "term_cell \<Rightarrow> term_buffer \<Rightarrow> term_buffer option" where
  "tb_clear v tb = do {
     buf \<leftarrow> cells_fill (tb_cols tb) 0 v (tb_buf tb);
     buf \<leftarrow> rows_from (tb_rows tb - 1) 1 0 (tb_cols tb) buf;
     Some (tb\<lparr>tb_buf := buf, tb_row := 0, tb_col := 0\<rparr>) }"

definition tb_default_clear :: "term_buffer \<Rightarrow> term_buffer option" where
  "tb_default_clear tb = tb_clear (tb_default tb) tb"

text \<open>
  The size of the array is computed in 32 bits; \<open>mem\<close> says for each of the two allocations whether it
  succeeds, and \<open>junk\<close> is what the new array holds.
\<close>

definition cells_bytes :: "nat \<Rightarrow> nat \<Rightarrow> nat" where
  "cells_bytes rows cols = (4 * rows * cols) mod 2 ^ 32"

definition new_term_buffer ::
  "bool \<Rightarrow> bool \<Rightarrow> (nat \<Rightarrow> term_cell) \<Rightarrow> bool \<Rightarrow> term_cell \<Rightarrow> nat \<Rightarrow> nat \<Rightarrow> term_buffer option option"
where
  "new_term_buffer tb_ok buf_ok junk al def rows cols =
     (if \<not> al \<or> rows = 0 \<or> cols = 0 then Some None
      else if \<not> tb_ok \<or> \<not> buf_ok then Some None
      else do {
        tb \<leftarrow> tb_default_clear \<lparr>tb_al = al, tb_default = def, tb_rows = rows, tb_cols = cols, tb_row = 0, tb_col = 0,
          tb_style = tc_style def, tb_buf = map junk [0..<cells_bytes rows cols div 4]\<rparr>;
        Some (Some tb) })"

definition tb_copy :: "term_buffer \<Rightarrow> term_buffer \<Rightarrow> term_buffer option" where
  "tb_copy dest src =
     (let n = tb_rows dest * tb_cols dest in
      if n \<le> length (tb_buf dest) \<and> n \<le> length (tb_buf src)
      then Some (dest\<lparr>tb_buf := take n (tb_buf src) @ drop n (tb_buf dest), tb_col := tb_col src, tb_row := tb_row src\<rparr>)
      else None)"

definition tb_resize :: "bool \<Rightarrow> (nat \<Rightarrow> term_cell) \<Rightarrow> term_buffer \<Rightarrow> nat \<Rightarrow> nat \<Rightarrow> (fernos_error \<times> term_buffer) option" where
  "tb_resize mem_ok junk tb rows cols =
     (if \<not> tb_al tb then Some (FOS_E_STATE_MISMATCH, tb)
      else if rows = 0 \<or> cols = 0 then Some (FOS_E_BAD_ARGS, tb)
      else if \<not> mem_ok then Some (FOS_E_NO_MEM, tb)
      else do {
        tb \<leftarrow> tb_clear (tb_default tb) (tb\<lparr>tb_rows := rows, tb_cols := cols,
          tb_buf := map junk [0..<cells_bytes rows cols div 4]\<rparr>);
        Some (FOS_E_SUCCESS, tb) })"

section \<open>Scrolling and the cursor\<close>

fun up_loop :: "nat \<Rightarrow> nat \<Rightarrow> nat \<Rightarrow> nat \<Rightarrow> term_cell list \<Rightarrow> term_cell list option" where
  "up_loop 0 r shift cols buf = Some buf"
| "up_loop (Suc n) r shift cols buf = do {
     buf \<leftarrow> cells_cpy (r * cols) ((r + shift) * cols) cols buf;
     up_loop n (r + 1) shift cols buf }"

definition tb_scroll_up :: "nat \<Rightarrow> term_buffer \<Rightarrow> term_buffer option" where
  "tb_scroll_up shift tb =
     (let rows = tb_rows tb; cols = tb_cols tb in
      if shift = 0 then Some tb
      else if shift \<ge> rows then tb_default_clear tb
      else do {
        let left_over_rows = rows - shift;
        buf \<leftarrow> up_loop left_over_rows 0 shift cols (tb_buf tb);
        buf \<leftarrow> cells_fill cols ((rows - 1) * cols) (tb_default tb) buf;
        buf \<leftarrow> rows_from (rows - 1 - left_over_rows) left_over_rows ((rows - 1) * cols) cols buf;
        Some (tb\<lparr>tb_buf := buf\<rparr>) })"

text \<open>The rows go down from the last; \<open>n\<close> of them are left, of which \<open>n + shift - 1\<close> is next.\<close>

fun down_loop :: "nat \<Rightarrow> nat \<Rightarrow> nat \<Rightarrow> term_cell list \<Rightarrow> term_cell list option" where
  "down_loop 0 shift cols buf = Some buf"
| "down_loop (Suc n) shift cols buf = do {
     buf \<leftarrow> cells_cpy ((n + shift) * cols) (n * cols) cols buf;
     down_loop n shift cols buf }"

definition tb_scroll_down :: "nat \<Rightarrow> term_buffer \<Rightarrow> term_buffer option" where
  "tb_scroll_down shift tb =
     (let rows = tb_rows tb; cols = tb_cols tb in
      if shift = 0 then Some tb
      else if shift \<ge> rows then tb_default_clear tb
      else do {
        buf \<leftarrow> down_loop (rows - shift) shift cols (tb_buf tb);
        buf \<leftarrow> cells_fill cols 0 (tb_default tb) buf;
        buf \<leftarrow> rows_from (shift - 1) 1 0 cols buf;
        Some (tb\<lparr>tb_buf := buf\<rparr>) })"

definition tb_cursor_prev_line :: "nat \<Rightarrow> term_buffer \<Rightarrow> term_buffer option" where
  "tb_cursor_prev_line n tb = do {
     tb \<leftarrow> (if tb_row tb < n then do { tb' \<leftarrow> tb_scroll_down (n - tb_row tb) tb; Some (tb'\<lparr>tb_row := 0\<rparr>) }
           else Some (tb\<lparr>tb_row := tb_row tb - n\<rparr>));
     Some (tb\<lparr>tb_col := 0\<rparr>) }"

definition tb_cursor_next_line :: "nat \<Rightarrow> term_buffer \<Rightarrow> term_buffer option" where
  "tb_cursor_next_line n tb = do {
     let dest_row = tb_row tb + n;
     tb \<leftarrow> (if dest_row \<ge> tb_rows tb
           then do { tb' \<leftarrow> tb_scroll_up (dest_row - (tb_rows tb - 1)) tb; Some (tb'\<lparr>tb_row := tb_rows tb - 1\<rparr>) }
           else Some (tb\<lparr>tb_row := dest_row\<rparr>));
     Some (tb\<lparr>tb_col := 0\<rparr>) }"

definition tb_cursor_advance :: "term_buffer \<Rightarrow> term_buffer option" where
  "tb_cursor_advance tb =
     (if tb_col tb = tb_cols tb - 1 then tb_cursor_next_line 1 tb else Some (tb\<lparr>tb_col := tb_col tb + 1\<rparr>))"

section \<open>Printing\<close>

definition tb_put_c :: "char \<Rightarrow> term_buffer \<Rightarrow> term_buffer option" where
  "tb_put_c c tb =
     (if c = CHR 0x0A then tb_cursor_next_line 1 tb
      else if c = CHR 0x0D then Some (tb\<lparr>tb_col := 0\<rparr>)
      else if c = CHR 0x08 then
        Some (if 0 < tb_col tb then tb\<lparr>tb_col := tb_col tb - 1\<rparr>
              else if 0 < tb_row tb then tb\<lparr>tb_row := tb_row tb - 1, tb_col := tb_cols tb - 1\<rparr> else tb)
      else do {
        buf \<leftarrow> arr_set (tb_buf tb) (tb_row tb * tb_cols tb + tb_col tb) \<lparr>tc_style = tb_style tb, tc_c = printable c\<rparr>;
        tb_cursor_advance (tb\<lparr>tb_buf := buf\<rparr>) })"

text \<open>The digits of an argument, in eight bits, and what follows them.\<close>

fun esc_arg :: "8 word \<Rightarrow> string \<Rightarrow> 8 word \<times> string" where
  "esc_arg a [] = (a, [])"
| "esc_arg a (c # cs) =
     (if 48 \<le> (of_char c :: nat) \<and> (of_char c :: nat) \<le> 57 then esc_arg (a * 10 + (of_char c - 48)) cs else (a, c # cs))"

definition esc_line :: "nat \<Rightarrow> term_buffer \<Rightarrow> term_buffer option" where
  "esc_line arg0 tb =
     (let row = tb_row tb * tb_cols tb; set = (\<lambda>n i. do {
          buf \<leftarrow> cells_fill n (row + i) (tb_default tb) (tb_buf tb); Some (tb\<lparr>tb_buf := buf\<rparr>) }) in
      if arg0 = 0 then set (tb_cols tb - tb_col tb) (tb_col tb)
      else if arg0 = 1 then set (tb_col tb + 1) 0
      else if arg0 = 2 then set (tb_cols tb + 1) 0
      else Some tb)"

definition one_based :: "nat \<Rightarrow> nat \<Rightarrow> nat" where
  "one_based n limit = (let p = (n + 2 ^ 32 - 1) mod 2 ^ 32 in if p \<ge> limit then limit - 1 else p)"

definition esc_cmd :: "char \<Rightarrow> 8 word \<Rightarrow> 8 word \<Rightarrow> term_buffer \<Rightarrow> term_buffer option" where
  "esc_cmd c arg0 arg1 tb =
     (let a0 = unat arg0; a1 = unat arg1 in
      if c = CHR ''A'' then Some (tb\<lparr>tb_row := (if tb_row tb < a0 then 0 else tb_row tb - a0)\<rparr>)
      else if c = CHR ''B'' then
        Some (tb\<lparr>tb_row := (if tb_row tb + a0 \<ge> tb_rows tb then tb_rows tb - 1 else tb_row tb + a0)\<rparr>)
      else if c = CHR ''C'' then
        Some (tb\<lparr>tb_col := (if tb_col tb + a0 \<ge> tb_cols tb then tb_cols tb - 1 else tb_col tb + a0)\<rparr>)
      else if c = CHR ''D'' then Some (tb\<lparr>tb_col := (if tb_col tb < a0 then 0 else tb_col tb - a0)\<rparr>)
      else if c = CHR ''E'' then tb_cursor_next_line a0 tb
      else if c = CHR ''F'' then tb_cursor_prev_line a0 tb
      else if c = CHR ''J'' then (if a0 = 2 then tb_default_clear tb else Some tb)
      else if c = CHR ''K'' then esc_line a0 tb
      else if c = CHR ''G'' then Some (tb\<lparr>tb_col := one_based a0 (tb_cols tb)\<rparr>)
      else if c = CHR ''H'' then
        Some (tb\<lparr>tb_row := one_based a0 (tb_rows tb), tb_col := one_based a1 (tb_cols tb)\<rparr>)
      else if c = CHR ''S'' then tb_scroll_up a0 tb
      else if c = CHR ''T'' then tb_scroll_down a0 tb
      else if c = CHR ''m'' then
        Some (tb\<lparr>tb_style := (if a0 = 0 then tc_style (tb_default tb) else ts_with_ansi_style_code (tb_style tb) arg0)\<rparr>)
      else Some tb)"

text \<open>
  A string is the characters before its terminating NUL; the result is the number of characters the
  sequence takes, with the terminator not consumed.
\<close>

definition tb_interp_esc_seq :: "string \<Rightarrow> term_buffer \<Rightarrow> (nat \<times> term_buffer) option" where
  "tb_interp_esc_seq s tb =
     (case s of
        [] \<Rightarrow> Some (0, tb)
      | b # cs \<Rightarrow>
          if b \<noteq> CHR ''['' then Some (0, tb)
          else
            let (arg0, cs) = esc_arg 0 cs;
                (arg1, cs) = (case cs of c # cs' \<Rightarrow> if c = CHR '';'' then esc_arg 0 cs' else (0, cs) | [] \<Rightarrow> (0, cs))
            in case cs of
                 [] \<Rightarrow> Some (length s, tb)
               | c # cs \<Rightarrow> do { tb \<leftarrow> esc_cmd c arg0 arg1 tb; Some (length s - length cs, tb) })"

function tb_put_s :: "string \<Rightarrow> term_buffer \<Rightarrow> term_buffer option" where
  "tb_put_s [] tb = Some tb"
| "tb_put_s (c # iter) tb =
     (if c = CHR 0x0A then do { tb \<leftarrow> tb_cursor_next_line 1 tb; tb_put_s iter tb }
      else if c = CHR 0x0D then tb_put_s iter (tb\<lparr>tb_col := 0\<rparr>)
      else if c = CHR 0x08 then
        tb_put_s iter (if 0 < tb_col tb then tb\<lparr>tb_col := tb_col tb - 1\<rparr>
          else if 0 < tb_row tb then tb\<lparr>tb_row := tb_row tb - 1, tb_col := tb_cols tb - 1\<rparr> else tb)
      else if c = CHR 0x1B then do { (n, tb) \<leftarrow> tb_interp_esc_seq iter tb; tb_put_s (drop n iter) tb }
      else do {
        buf \<leftarrow> arr_set (tb_buf tb) (tb_row tb * tb_cols tb + tb_col tb) \<lparr>tc_style = tb_style tb, tc_c = printable c\<rparr>;
        tb \<leftarrow> tb_cursor_advance (tb\<lparr>tb_buf := buf\<rparr>);
        tb_put_s iter tb })"
  by pat_completeness auto

termination by (relation "measure (length \<circ> fst)") (auto simp: less_Suc_eq_le)

section \<open>The loops on the array\<close>

lemma cells_fill_ok:
  assumes "i + n \<le> length buf"
  shows "\<exists>res. cells_fill n i v buf = Some res \<and> length res = length buf
    \<and> (\<forall>j<length buf. res ! j = (if i \<le> j \<and> j < i + n then v else buf ! j))"
  using assms
proof (induction n arbitrary: i buf)
  case (Suc n)
  from Suc.IH [of "i + 1" "buf[i := v]"] Suc.prems obtain res where
    "cells_fill n (i + 1) v (buf[i := v]) = Some res" "length res = length buf"
    "\<forall>j<length buf. res ! j = (if i + 1 \<le> j \<and> j < i + 1 + n then v else buf[i := v] ! j)" by auto
  then show ?case using Suc.prems by (auto simp: nth_list_update)
qed auto

lemma cells_fill_beyond: "length buf < i + n \<Longrightarrow> 0 < n \<Longrightarrow> cells_fill n i v buf = None"
proof (induction n arbitrary: i buf)
  case (Suc n)
  show ?case
  proof (cases "i < length buf")
    case True
    then have "cells_fill n (i + 1) v (buf[i := v]) = None" using Suc.prems by (intro Suc.IH) simp_all
    then show ?thesis using True by simp
  qed (simp add: arr_set_def)
qed simp

lemma cells_cpy_ok:
  assumes "dst + n \<le> length buf" and "src + n \<le> length buf" and "dst + n \<le> src \<or> src + n \<le> dst"
  shows "\<exists>res. cells_cpy dst src n buf = Some res \<and> length res = length buf
    \<and> (\<forall>j<length buf. res ! j = (if dst \<le> j \<and> j < dst + n then buf ! (src + (j - dst)) else buf ! j))"
proof -
  have "min n (length buf - src) = n" "min (length buf) dst = dst" using assms(1,2) by linarith+
  then show ?thesis using assms by (auto simp: cells_cpy_def nth_append)
qed

lemma rows_from_ok:
  assumes "(r + n) * cols \<le> length buf" and "src + cols \<le> length buf"
    and "src + cols \<le> r * cols \<or> (r + n) * cols \<le> src" and "\<And>k. k < cols \<Longrightarrow> buf ! (src + k) = v"
  shows "\<exists>res. rows_from n r src cols buf = Some res \<and> length res = length buf
    \<and> (\<forall>j<length buf. res ! j = (if r * cols \<le> j \<and> j < (r + n) * cols then v else buf ! j))"
  using assms
proof (induction n arbitrary: r buf)
  case (Suc n)
  have m: "(r + Suc n) * cols = r * cols + cols + n * cols" "(r + 1 + n) * cols = r * cols + cols + n * cols"
    "(r + 1) * cols = r * cols + cols" by (simp_all add: algebra_simps)
  note P = Suc.prems(1-3) [unfolded m]
  from cells_cpy_ok [of "r * cols" cols buf src] P obtain b where b:
    "cells_cpy (r * cols) src cols buf = Some b" "length b = length buf"
    "\<forall>j<length buf. b ! j = (if r * cols \<le> j \<and> j < r * cols + cols then buf ! (src + (j - r * cols)) else buf ! j)" by auto
  have src: "b ! (src + k) = v" if "k < cols" for k
    using that P b(3) Suc.prems(4) by auto
  have 1: "(r + 1 + n) * cols \<le> length b" "src + cols \<le> length b" "src + cols \<le> (r + 1) * cols \<or> (r + 1 + n) * cols \<le> src"
    unfolding m b(2) using P by linarith+
  from Suc.IH [OF 1 src] obtain res where res: "rows_from n (r + 1) src cols b = Some res" "length res = length buf"
    "\<forall>j<length buf. res ! j = (if r * cols + cols \<le> j \<and> j < r * cols + cols + n * cols then v else b ! j)"
    unfolding m b(2) by blast
  have "res ! j = (if r * cols \<le> j \<and> j < r * cols + cols + n * cols then v else buf ! j)" if "j < length buf" for j
    using that res(3) b(3) Suc.prems(4) [of "j - r * cols"] by auto
  then show ?case using res(1,2) b(1) unfolding m by (intro exI [of _ res]) (simp add: m)
qed auto

lemma up_loop_ok:
  assumes "(r + n + shift) * cols \<le> length buf" and "0 < shift"
  shows "\<exists>res. up_loop n r shift cols buf = Some res \<and> length res = length buf
    \<and> (\<forall>j<length buf. res ! j = (if r * cols \<le> j \<and> j < (r + n) * cols then buf ! (j + shift * cols) else buf ! j))"
  using assms
proof (induction n arbitrary: r buf)
  case (Suc n)
  have m: "(r + Suc n + shift) * cols = r * cols + cols + n * cols + shift * cols"
    "(r + 1 + n + shift) * cols = r * cols + cols + n * cols + shift * cols"
    "(r + Suc n) * cols = r * cols + cols + n * cols" "(r + 1 + n) * cols = r * cols + cols + n * cols"
    "(r + 1) * cols = r * cols + cols" "(r + shift) * cols = r * cols + shift * cols" by (simp_all add: algebra_simps)
  note P = Suc.prems(1) [unfolded m]
  have sh: "cols \<le> shift * cols" using Suc.prems(2) by simp
  from cells_cpy_ok [of "r * cols" cols buf "r * cols + shift * cols"] P sh obtain b where b:
    "cells_cpy (r * cols) (r * cols + shift * cols) cols buf = Some b" "length b = length buf"
    "\<forall>j<length buf. b ! j = (if r * cols \<le> j \<and> j < r * cols + cols then buf ! (r * cols + shift * cols + (j - r * cols)) else buf ! j)"
    by auto
  from Suc.IH [of "r + 1" b] P Suc.prems(2) b(2) obtain res where res:
    "up_loop n (r + 1) shift cols b = Some res" "length res = length buf"
    "\<forall>j<length buf. res ! j = (if r * cols + cols \<le> j \<and> j < r * cols + cols + n * cols then b ! (j + shift * cols) else b ! j)"
    unfolding m by auto
  have "res ! j = (if r * cols \<le> j \<and> j < r * cols + cols + n * cols then buf ! (j + shift * cols) else buf ! j)"
    if j: "j < length buf" for j
  proof -
    consider "j < r * cols" | "r * cols \<le> j" "j < r * cols + cols" | "r * cols + cols \<le> j" "j < r * cols + cols + n * cols"
      | "r * cols + cols + n * cols \<le> j" by linarith
    then show ?thesis
    proof cases
      case 2
      then have "r * cols + shift * cols + (j - r * cols) = j + shift * cols" by linarith
      then show ?thesis using res(3) b(3) j 2 by (simp add: add.commute)
    next
      case 3
      then have "j + shift * cols < length buf" "r * cols + cols \<le> j + shift * cols" using P by linarith+
      then show ?thesis using res(3) b(3) j 3 by simp
    qed (use res(3) b(3) j in auto)
  qed
  then show ?case using res(1,2) b(1) unfolding m by (intro exI [of _ res]) (simp add: m)
qed auto

lemma down_loop_ok:
  assumes "(n + shift) * cols \<le> length buf" and "0 < shift"
  shows "\<exists>res. down_loop n shift cols buf = Some res \<and> length res = length buf
    \<and> (\<forall>j<length buf. res ! j = (if shift * cols \<le> j \<and> j < (n + shift) * cols then buf ! (j - shift * cols) else buf ! j))"
  using assms
proof (induction n arbitrary: buf)
  case (Suc n)
  have m: "(Suc n + shift) * cols = n * cols + cols + shift * cols" "(n + shift) * cols = n * cols + shift * cols"
    by (simp_all add: algebra_simps)
  note P = Suc.prems(1) [unfolded m]
  have sh: "cols \<le> shift * cols" using Suc.prems(2) by simp
  from cells_cpy_ok [of "n * cols + shift * cols" cols buf "n * cols"] P sh obtain b where b:
    "cells_cpy (n * cols + shift * cols) (n * cols) cols buf = Some b" "length b = length buf"
    "\<forall>j<length buf. b ! j = (if n * cols + shift * cols \<le> j \<and> j < n * cols + shift * cols + cols
      then buf ! (n * cols + (j - (n * cols + shift * cols))) else buf ! j)"
    by auto
  from Suc.IH [of b] P Suc.prems(2) b(2) obtain res where res:
    "down_loop n shift cols b = Some res" "length res = length buf"
    "\<forall>j<length buf. res ! j = (if shift * cols \<le> j \<and> j < n * cols + shift * cols then b ! (j - shift * cols) else b ! j)"
    unfolding m by auto
  have "res ! j = (if shift * cols \<le> j \<and> j < n * cols + cols + shift * cols then buf ! (j - shift * cols) else buf ! j)"
    if j: "j < length buf" for j
  proof -
    consider "j < shift * cols" | "shift * cols \<le> j" "j < n * cols + shift * cols"
      | "n * cols + shift * cols \<le> j" "j < n * cols + cols + shift * cols" | "n * cols + cols + shift * cols \<le> j" by linarith
    then show ?thesis
    proof cases
      case 2
      then have "j - shift * cols < n * cols + shift * cols" "j - shift * cols < length buf" using j by linarith+
      then show ?thesis using res(3) b(3) j 2 by simp
    next
      case 3
      then have "n * cols + (j - (n * cols + shift * cols)) = j - shift * cols" by linarith
      then show ?thesis using res(3) b(3) j 3 by simp
    qed (use res(3) b(3) j in auto)
  qed
  then show ?case using res(1,2) b(1) unfolding m by (intro exI [of _ res]) (simp add: m)
qed auto

section \<open>Well-formed buffers\<close>

definition tb_wf :: "term_buffer \<Rightarrow> bool" where
  "tb_wf tb \<longleftrightarrow> 0 < tb_rows tb \<and> 0 < tb_cols tb \<and> tb_rows tb * tb_cols tb \<le> length (tb_buf tb)
     \<and> tb_row tb < tb_rows tb \<and> tb_col tb < tb_cols tb"

definition same_shape :: "term_buffer \<Rightarrow> term_buffer \<Rightarrow> bool" where
  "same_shape tb tb' \<longleftrightarrow> tb_rows tb' = tb_rows tb \<and> tb_cols tb' = tb_cols tb \<and> length (tb_buf tb') = length (tb_buf tb)
     \<and> tb_default tb' = tb_default tb \<and> tb_al tb' = tb_al tb"

lemma same_shape_refl [simp]: "same_shape tb tb"
  by (simp add: same_shape_def)

lemma same_shape_trans: "same_shape a b \<Longrightarrow> same_shape b c \<Longrightarrow> same_shape a c"
  by (simp add: same_shape_def)

lemma tb_wfD:
  assumes "tb_wf tb"
  shows "0 < tb_rows tb" "0 < tb_cols tb" "tb_rows tb * tb_cols tb \<le> length (tb_buf tb)"
    "tb_row tb < tb_rows tb" "tb_col tb < tb_cols tb" "Suc (tb_rows tb - 1) = tb_rows tb" "Suc (tb_cols tb - 1) = tb_cols tb"
  using assms by (auto simp: tb_wf_def)

lemma row_in: "r < rows \<Longrightarrow> r * cols + cols \<le> rows * (cols :: nat)"
  using mult_le_mono1 [of "Suc r" rows cols] by simp

lemma cell_in: "tb_wf tb \<Longrightarrow> r < tb_rows tb \<Longrightarrow> c < tb_cols tb \<Longrightarrow> r * tb_cols tb + c < length (tb_buf tb)"
  using row_in [of r "tb_rows tb" "tb_cols tb"] by (simp add: tb_wf_def)

lemma tb_clear_ok:
  assumes "tb_wf tb"
  shows "\<exists>b. tb_clear v tb = Some (tb\<lparr>tb_buf := b, tb_row := 0, tb_col := 0\<rparr>) \<and> length b = length (tb_buf tb)
    \<and> (\<forall>j<length b. b ! j = (if j < tb_rows tb * tb_cols tb then v else tb_buf tb ! j))"
proof -
  note D = tb_wfD [OF assms]
  have c: "tb_cols tb \<le> tb_rows tb * tb_cols tb" using row_in [of 0 "tb_rows tb" "tb_cols tb"] D(1) by simp
  have cl: "tb_cols tb \<le> length (tb_buf tb)" using c D(3) by (rule le_trans)
  from cells_fill_ok [of 0 "tb_cols tb" "tb_buf tb" v] cl obtain b1 where b1:
    "cells_fill (tb_cols tb) 0 v (tb_buf tb) = Some b1" "length b1 = length (tb_buf tb)"
    "\<forall>j<length (tb_buf tb). b1 ! j = (if j < tb_cols tb then v else tb_buf tb ! j)" by auto
  have "\<exists>b. rows_from (tb_rows tb - 1) 1 0 (tb_cols tb) b1 = Some b \<and> length b = length b1
    \<and> (\<forall>j<length b1. b ! j = (if 1 * tb_cols tb \<le> j \<and> j < (1 + (tb_rows tb - 1)) * tb_cols tb then v else b1 ! j))"
    by (rule rows_from_ok) (use b1 cl D in auto)
  then obtain b where b: "rows_from (tb_rows tb - 1) 1 0 (tb_cols tb) b1 = Some b" "length b = length (tb_buf tb)"
    "\<forall>j<length (tb_buf tb). b ! j = (if tb_cols tb \<le> j \<and> j < tb_rows tb * tb_cols tb then v else b1 ! j)"
    unfolding b1(2) using D(6) by auto
  obtain R where R: "R = tb_rows tb * tb_cols tb" by blast
  have "b ! j = (if j < tb_rows tb * tb_cols tb then v else tb_buf tb ! j)" if "j < length (tb_buf tb)" for j
    using that b(3) b1(3) c unfolding R [symmetric] by (cases "j < tb_cols tb") auto
  then show ?thesis using b(1,2) b1(1) by (intro exI [of _ b]) (simp add: tb_clear_def)
qed

lemma tb_scroll_up_ok:
  assumes wf: "tb_wf tb" and s: "shift < tb_rows tb"
  shows "\<exists>b. tb_scroll_up shift tb = Some (tb\<lparr>tb_buf := b\<rparr>) \<and> length b = length (tb_buf tb)
    \<and> (\<forall>j<length b. b ! j = (if j < (tb_rows tb - shift) * tb_cols tb then tb_buf tb ! (j + shift * tb_cols tb)
         else if j < tb_rows tb * tb_cols tb then tb_default tb else tb_buf tb ! j))"
proof (cases "shift = 0")
  case True
  then show ?thesis by (intro exI [of _ "tb_buf tb"]) (simp add: tb_scroll_up_def)
next
  case False
  note D = tb_wfD [OF wf]
  let ?c = "tb_cols tb" and ?l = "tb_rows tb - shift" and ?r = "tb_rows tb - 1"
  have ls: "?l + shift = tb_rows tb" "?l \<le> ?r" using s False by simp_all
  have m: "?r * ?c + ?c = tb_rows tb * ?c" "?l * ?c + shift * ?c = tb_rows tb * ?c" "?l * ?c \<le> ?r * ?c"
    "(0 + ?l + shift) * ?c = tb_rows tb * ?c"
    subgoal using mult_Suc [of ?r ?c] unfolding D(6) by linarith
    subgoal using add_mult_distrib [of ?l shift ?c] unfolding ls(1) by (rule sym)
    subgoal using ls(2) by (rule mult_le_mono1)
    subgoal unfolding add_0 ls(1) by (rule refl)
    done
  have "(0 + ?l + shift) * ?c \<le> length (tb_buf tb)" "0 < shift" using D(3) False unfolding m(4) by simp_all
  from up_loop_ok [OF this] obtain b1 where b1:
    "up_loop ?l 0 shift ?c (tb_buf tb) = Some b1" "length b1 = length (tb_buf tb)"
    "\<forall>j<length (tb_buf tb). b1 ! j = (if j < ?l * ?c then tb_buf tb ! (j + shift * ?c) else tb_buf tb ! j)"
    unfolding add_0 mult_0 by (metis le0)
  have "?r * ?c + ?c \<le> length b1" using D(3) unfolding m(1) b1(2) .
  from cells_fill_ok [OF this, of "tb_default tb"] obtain b2 where b2:
    "cells_fill ?c (?r * ?c) (tb_default tb) b1 = Some b2" "length b2 = length (tb_buf tb)"
    "\<forall>j<length (tb_buf tb). b2 ! j = (if ?r * ?c \<le> j \<and> j < tb_rows tb * ?c then tb_default tb else b1 ! j)"
    unfolding m(1) b1(2) by blast
  have lr: "?l + (?r - ?l) = ?r" using s False by simp
  have pre: "(?l + (?r - ?l)) * ?c \<le> length b2" "?r * ?c + ?c \<le> length b2" "?r * ?c + ?c \<le> ?l * ?c \<or> (?l + (?r - ?l)) * ?c \<le> ?r * ?c"
    unfolding lr b2(2) using m(1) D(3) by linarith+
  have last: "b2 ! (?r * ?c + k) = tb_default tb" if "k < ?c" for k
    using that b2(3) m(1) D(3) by auto
  from rows_from_ok [OF pre last] obtain b where b: "rows_from (?r - ?l) ?l (?r * ?c) ?c b2 = Some b" "length b = length (tb_buf tb)"
    "\<forall>j<length (tb_buf tb). b ! j = (if ?l * ?c \<le> j \<and> j < ?r * ?c then tb_default tb else b2 ! j)"
    unfolding lr b2(2) by blast
  obtain L Q R where LQR: "L = ?l * ?c" "Q = ?r * ?c" "R = tb_rows tb * ?c" by blast
  have "b ! j = (if j < ?l * ?c then tb_buf tb ! (j + shift * ?c) else if j < tb_rows tb * ?c then tb_default tb else tb_buf tb ! j)"
    if "j < length (tb_buf tb)" for j
    using that b(3) b2(3) b1(3) m(1,3) unfolding LQR [symmetric] by auto
  then show ?thesis using s False b1(1) b2(1) b(1,2) by (intro exI [of _ b]) (simp add: tb_scroll_up_def Let_def)
qed

lemma tb_scroll_down_ok:
  assumes wf: "tb_wf tb" and s: "shift < tb_rows tb"
  shows "\<exists>b. tb_scroll_down shift tb = Some (tb\<lparr>tb_buf := b\<rparr>) \<and> length b = length (tb_buf tb)
    \<and> (\<forall>j<length b. b ! j = (if j < shift * tb_cols tb then tb_default tb
         else if j < tb_rows tb * tb_cols tb then tb_buf tb ! (j - shift * tb_cols tb) else tb_buf tb ! j))"
proof (cases "shift = 0")
  case True
  then show ?thesis by (intro exI [of _ "tb_buf tb"]) (simp add: tb_scroll_down_def)
next
  case False
  note D = tb_wfD [OF wf]
  let ?c = "tb_cols tb" and ?n = "tb_rows tb - shift"
  have n: "?n + shift = tb_rows tb" using s by simp
  have m: "?c \<le> shift * ?c" "shift * ?c \<le> tb_rows tb * ?c" "1 + (shift - 1) = shift" using False s by simp_all
  have len: "shift * ?c \<le> length (tb_buf tb)" "?c \<le> length (tb_buf tb)" using m(1,2) D(3) by linarith+
  from down_loop_ok [of ?n shift ?c "tb_buf tb"] D(3) False obtain b1 where b1:
    "down_loop ?n shift ?c (tb_buf tb) = Some b1" "length b1 = length (tb_buf tb)"
    "\<forall>j<length (tb_buf tb). b1 ! j = (if shift * ?c \<le> j \<and> j < tb_rows tb * ?c then tb_buf tb ! (j - shift * ?c) else tb_buf tb ! j)"
    unfolding n by auto
  from cells_fill_ok [of 0 ?c b1 "tb_default tb"] len(2) b1(2) obtain b2 where b2:
    "cells_fill ?c 0 (tb_default tb) b1 = Some b2" "length b2 = length (tb_buf tb)"
    "\<forall>j<length (tb_buf tb). b2 ! j = (if j < ?c then tb_default tb else b1 ! j)" by auto
  have pre: "(1 + (shift - 1)) * ?c \<le> length b2" "0 + ?c \<le> length b2" "0 + ?c \<le> 1 * ?c \<or> (1 + (shift - 1)) * ?c \<le> 0"
    unfolding m(3) b2(2) using len by simp_all
  have first: "b2 ! (0 + k) = tb_default tb" if "k < ?c" for k
    using that b2(3) len by auto
  from rows_from_ok [OF pre first] obtain b where b: "rows_from (shift - 1) 1 0 ?c b2 = Some b" "length b = length (tb_buf tb)"
    "\<forall>j<length (tb_buf tb). b ! j = (if ?c \<le> j \<and> j < shift * ?c then tb_default tb else b2 ! j)"
    unfolding m(3) b2(2) mult_1 by blast
  obtain L R where LR: "L = shift * ?c" "R = tb_rows tb * ?c" by blast
  have "b ! j = (if j < shift * ?c then tb_default tb else if j < tb_rows tb * ?c then tb_buf tb ! (j - shift * ?c) else tb_buf tb ! j)"
    if "j < length (tb_buf tb)" for j
    using that b(3) b2(3) b1(3) m(1,2) unfolding LR [symmetric] by auto
  then show ?thesis using s False b1(1) b2(1) b(1,2) by (intro exI [of _ b]) (simp add: tb_scroll_down_def Let_def)
qed

section \<open>No operation leaves the array\<close>

text \<open>The operation succeeds, the buffer stays well-formed and keeps its shape.\<close>

definition tb_safe :: "term_buffer \<Rightarrow> term_buffer option \<Rightarrow> bool" where
  "tb_safe tb r \<longleftrightarrow> (\<exists>tb'. r = Some tb' \<and> tb_wf tb' \<and> same_shape tb tb')"

lemma tb_safeI: "tb_wf tb' \<Longrightarrow> same_shape tb tb' \<Longrightarrow> tb_safe tb (Some tb')"
  by (simp add: tb_safe_def)

lemma tb_safe_self [simp]: "tb_wf tb \<Longrightarrow> tb_safe tb (Some tb)"
  by (simp add: tb_safe_def)

lemma tb_safe_bind:
  assumes "tb_safe tb r" and "\<And>tb'. tb_wf tb' \<Longrightarrow> same_shape tb tb' \<Longrightarrow> tb_safe tb' (f tb')"
  shows "tb_safe tb (r \<bind> f)"
  using assms by (fastforce simp: tb_safe_def intro: same_shape_trans)

lemma tb_safe_buf:
  assumes "tb_wf tb" and "length b = length (tb_buf tb)"
  shows "tb_safe tb (Some (tb\<lparr>tb_buf := b\<rparr>))"
  using assms by (auto simp: tb_safe_def tb_wf_def same_shape_def)

lemma tb_safe_cursor:
  assumes "tb_wf tb"
  shows "r < tb_rows tb \<Longrightarrow> tb_safe tb (Some (tb\<lparr>tb_row := r\<rparr>))" "c < tb_cols tb \<Longrightarrow> tb_safe tb (Some (tb\<lparr>tb_col := c\<rparr>))"
    "r < tb_rows tb \<Longrightarrow> c < tb_cols tb \<Longrightarrow> tb_safe tb (Some (tb\<lparr>tb_row := r, tb_col := c\<rparr>))"
    "tb_safe tb (Some (tb\<lparr>tb_style := st\<rparr>))"
  using assms by (auto simp: tb_safe_def tb_wf_def same_shape_def)

lemma tb_clear_safe: "tb_wf tb \<Longrightarrow> tb_safe tb (tb_clear v tb)"
  using tb_clear_ok [of tb v] by (auto simp: tb_safe_def tb_wf_def same_shape_def)

lemma tb_scroll_safe:
  assumes "tb_wf tb"
  shows "tb_safe tb (tb_scroll_up shift tb)" "tb_safe tb (tb_scroll_down shift tb)"
proof -
  have big: "shift \<ge> tb_rows tb \<Longrightarrow> tb_scroll_up shift tb = tb_default_clear tb \<and> tb_scroll_down shift tb = tb_default_clear tb"
    using tb_wfD(1) [OF assms] by (simp add: tb_scroll_up_def tb_scroll_down_def)
  have clear: "tb_safe tb (tb_default_clear tb)" unfolding tb_default_clear_def by (rule tb_clear_safe [OF assms])
  show "tb_safe tb (tb_scroll_up shift tb)"
  proof (cases "shift < tb_rows tb")
    case True
    obtain b where "tb_scroll_up shift tb = Some (tb\<lparr>tb_buf := b\<rparr>)" "length b = length (tb_buf tb)"
      using tb_scroll_up_ok [OF assms True] by blast
    then show ?thesis using tb_safe_buf [OF assms] by simp
  qed (use big clear in simp)
  show "tb_safe tb (tb_scroll_down shift tb)"
  proof (cases "shift < tb_rows tb")
    case True
    obtain b where "tb_scroll_down shift tb = Some (tb\<lparr>tb_buf := b\<rparr>)" "length b = length (tb_buf tb)"
      using tb_scroll_down_ok [OF assms True] by blast
    then show ?thesis using tb_safe_buf [OF assms] by simp
  qed (use big clear in simp)
qed

lemma tb_next_line_safe:
  assumes "tb_wf tb"
  shows "tb_safe tb (tb_cursor_next_line n tb)"
proof -
  have last: "tb_wf tb' \<Longrightarrow> same_shape tb tb' \<Longrightarrow> tb_safe tb' (Some (tb'\<lparr>tb_row := tb_rows tb - 1\<rparr>))" for tb'
    using tb_wfD(1) [OF assms] by (intro tb_safe_cursor) (simp_all add: same_shape_def)
  have "tb_safe tb (if tb_row tb + n \<ge> tb_rows tb
      then tb_scroll_up (tb_row tb + n - (tb_rows tb - 1)) tb \<bind> (\<lambda>tb'. Some (tb'\<lparr>tb_row := tb_rows tb - 1\<rparr>))
      else Some (tb\<lparr>tb_row := tb_row tb + n\<rparr>))"
    using tb_safe_bind [OF tb_scroll_safe(1) [OF assms] last] tb_safe_cursor(1) [OF assms] by simp
  then show ?thesis unfolding tb_cursor_next_line_def Let_def
    by (rule tb_safe_bind) (simp add: tb_safe_cursor tb_wfD)
qed

lemma tb_prev_line_safe:
  assumes "tb_wf tb"
  shows "tb_safe tb (tb_cursor_prev_line n tb)"
proof -
  have first: "tb_wf tb' \<Longrightarrow> tb_safe tb' (Some (tb'\<lparr>tb_row := 0\<rparr>))" for tb' by (simp add: tb_safe_cursor tb_wfD)
  have "tb_row tb - n < tb_rows tb" using tb_wfD(4) [OF assms] by simp
  then have "tb_safe tb (if tb_row tb < n then tb_scroll_down (n - tb_row tb) tb \<bind> (\<lambda>tb'. Some (tb'\<lparr>tb_row := 0\<rparr>))
      else Some (tb\<lparr>tb_row := tb_row tb - n\<rparr>))"
    using tb_safe_bind [OF tb_scroll_safe(2) [OF assms] first] tb_safe_cursor(1) [OF assms] by simp
  then show ?thesis unfolding tb_cursor_prev_line_def
    by (rule tb_safe_bind) (simp add: tb_safe_cursor tb_wfD)
qed

lemma tb_advance_safe: "tb_wf tb \<Longrightarrow> tb_safe tb (tb_cursor_advance tb)"
  using tb_wfD(5,7) [of tb] by (auto simp: tb_cursor_advance_def tb_next_line_safe intro: tb_safe_cursor)

definition tb_print :: "char \<Rightarrow> term_buffer \<Rightarrow> term_buffer option" where
  "tb_print c tb = do {
     buf \<leftarrow> arr_set (tb_buf tb) (tb_row tb * tb_cols tb + tb_col tb) \<lparr>tc_style = tb_style tb, tc_c = printable c\<rparr>;
     tb_cursor_advance (tb\<lparr>tb_buf := buf\<rparr>) }"

lemma tb_print_safe:
  assumes "tb_wf tb"
  shows "tb_safe tb (tb_print c tb)"
proof -
  let ?i = "tb_row tb * tb_cols tb + tb_col tb" and ?v = "\<lparr>tc_style = tb_style tb, tc_c = printable c\<rparr>"
  have i: "?i < length (tb_buf tb)" using cell_in [OF assms] tb_wfD(4,5) [OF assms] by simp
  have "tb_safe tb (Some (tb\<lparr>tb_buf := (tb_buf tb)[?i := ?v]\<rparr>) \<bind> tb_cursor_advance)"
    by (rule tb_safe_bind [OF tb_safe_buf [OF assms]]) (simp_all add: tb_advance_safe)
  then show ?thesis using i by (simp add: tb_print_def)
qed

definition tb_back :: "term_buffer \<Rightarrow> term_buffer" where
  "tb_back tb = (if 0 < tb_col tb then tb\<lparr>tb_col := tb_col tb - 1\<rparr>
     else if 0 < tb_row tb then tb\<lparr>tb_row := tb_row tb - 1, tb_col := tb_cols tb - 1\<rparr> else tb)"

lemma tb_back_safe: "tb_wf tb \<Longrightarrow> tb_safe tb (Some (tb_back tb))"
  using tb_wfD [of tb] by (auto simp: tb_back_def intro!: tb_safe_cursor)

lemma one_based_less: "0 < limit \<Longrightarrow> one_based n limit < limit"
  by (auto simp: one_based_def Let_def)

definition spare :: "term_buffer \<Rightarrow> bool" where
  "spare tb \<longleftrightarrow> tb_rows tb * tb_cols tb < length (tb_buf tb)"

lemma spare_same: "same_shape tb tb' \<Longrightarrow> spare tb' \<longleftrightarrow> spare tb"
  by (simp add: same_shape_def spare_def)

lemma esc_line_safe:
  assumes "tb_wf tb" and "a = 2 \<longrightarrow> spare tb"
  shows "tb_safe tb (esc_line a tb)"
proof -
  let ?row = "tb_row tb * tb_cols tb"
  have set: "?row + i + n \<le> length (tb_buf tb) \<Longrightarrow>
      tb_safe tb (cells_fill n (?row + i) (tb_default tb) (tb_buf tb) \<bind> (\<lambda>buf. Some (tb\<lparr>tb_buf := buf\<rparr>)))" for n i
    using cells_fill_ok [of "?row + i" n "tb_buf tb" "tb_default tb"] tb_safe_buf [OF assms(1)] by force
  have in_row: "?row + tb_cols tb \<le> length (tb_buf tb)"
    using row_in [OF tb_wfD(4) [OF assms(1)], of "tb_cols tb"] tb_wfD(3) [OF assms(1)] by linarith
  have "a = 2 \<Longrightarrow> ?row + 0 + (tb_cols tb + 1) \<le> length (tb_buf tb)"
    using row_in [OF tb_wfD(4) [OF assms(1)], of "tb_cols tb"] assms(2) unfolding spare_def by linarith
  then show ?thesis
    using set [of "tb_col tb" "tb_cols tb - tb_col tb"] set [of 0 "tb_col tb + 1"] set [of 0 "tb_cols tb + 1"]
      in_row tb_wfD(5) [OF assms(1)] assms(1) unfolding esc_line_def Let_def by auto
qed

lemma tb_safe_if: "(P \<Longrightarrow> tb_safe tb a) \<Longrightarrow> (\<not> P \<Longrightarrow> tb_safe tb b) \<Longrightarrow> tb_safe tb (if P then a else b)"
  by simp

lemma esc_cmd_safe:
  assumes wf: "tb_wf tb" and k: "c = CHR ''K'' \<longrightarrow> spare tb"
  shows "tb_safe tb (esc_cmd c a0 a1 tb)"
proof -
  have line: "c = CHR ''K'' \<Longrightarrow> tb_safe tb (esc_line (unat a0) tb)" using esc_line_safe [OF wf] k by blast
  have cur: "tb_row tb - unat a0 < tb_rows tb" "tb_col tb - unat a0 < tb_cols tb" "tb_rows tb - 1 < tb_rows tb" "tb_cols tb - 1 < tb_cols tb"
    using tb_wfD [OF wf] by simp_all
  note safe = tb_safe_cursor [OF wf] tb_next_line_safe [OF wf] tb_prev_line_safe [OF wf] tb_scroll_safe [OF wf]
    tb_clear_safe [OF wf] one_based_less tb_wfD(1,2) [OF wf] tb_safe_self [OF wf]
  show ?thesis unfolding esc_cmd_def Let_def tb_default_clear_def
    by (intro safe tb_safe_if line; (assumption | use cur tb_wfD(1,2) [OF wf] in \<open>auto split: if_splits\<close>)?)
qed

lemma esc_arg_rest: "esc_arg a s = (b, r) \<Longrightarrow> set r \<subseteq> set s \<and> length r \<le> length s"
  by (induction a s rule: esc_arg.induct) (fastforce split: if_splits)+

lemma tb_interp_safe:
  assumes wf: "tb_wf tb" and k: "spare tb \<or> CHR ''K'' \<notin> set s"
  shows "\<exists>n tb'. tb_interp_esc_seq s tb = Some (n, tb') \<and> n \<le> length s \<and> tb_wf tb' \<and> same_shape tb tb'"
proof (cases s)
  case Nil
  then show ?thesis using wf by (simp add: tb_interp_esc_seq_def)
next
  case (Cons b cs)
  obtain a0 r0 where r0: "esc_arg 0 cs = (a0, r0)" by (cases "esc_arg 0 cs")
  obtain a1 r1 where r1: "(case r0 of c # cs' \<Rightarrow> if c = CHR '';'' then esc_arg 0 cs' else (0, r0) | [] \<Rightarrow> (0, r0)) = (a1, r1)"
    by (meson surj_pair)
  have "set r1 \<subseteq> set r0" using r1 esc_arg_rest by (fastforce split: list.splits if_splits)
  then have sub: "set r1 \<subseteq> set s" using esc_arg_rest [OF r0] Cons by auto
  show ?thesis
  proof (cases "b = CHR ''[''")
    case True
    show ?thesis
    proof (cases r1)
      case Nil
      then show ?thesis using True Cons r0 r1 wf by (simp add: tb_interp_esc_seq_def)
    next
      case (Cons c r)
      then have "c \<in> set s" using sub by auto
      then have "c = CHR ''K'' \<longrightarrow> spare tb" using k by auto
      then have "tb_safe tb (esc_cmd c a0 a1 tb)" by (rule esc_cmd_safe [OF wf])
      then show ?thesis using True \<open>s = b # cs\<close> r0 r1 Cons by (auto simp: tb_interp_esc_seq_def tb_safe_def)
    qed
  qed (use Cons wf in \<open>simp add: tb_interp_esc_seq_def\<close>)
qed

lemma tb_put_s_step:
  "tb_put_s (c # s) tb =
     (if c = CHR 0x0A then tb_cursor_next_line 1 tb \<bind> tb_put_s s
      else if c = CHR 0x0D then tb_put_s s (tb\<lparr>tb_col := 0\<rparr>)
      else if c = CHR 0x08 then tb_put_s s (tb_back tb)
      else if c = CHR 0x1B then tb_interp_esc_seq s tb \<bind> (\<lambda>(n, tb). tb_put_s (drop n s) tb)
      else tb_print c tb \<bind> tb_put_s s)"
  by (simp add: tb_back_def tb_print_def)

lemma tb_put_s_safe:
  assumes "tb_wf tb" and "spare tb \<or> CHR 0x1B \<notin> set s \<or> CHR ''K'' \<notin> set s"
  shows "tb_safe tb (tb_put_s s tb)"
  using assms
proof (induction "length s" arbitrary: s tb rule: less_induct)
  case less
  show ?case
  proof (cases s)
    case Nil
    then show ?thesis using less.prems(1) by simp
  next
    case (Cons c cs)
    have IH: "tb_safe tb' (tb_put_s (drop n cs) tb')" if "tb_wf tb'" "same_shape tb tb'" for tb' n
    proof (rule less.hyps)
      show "length (drop n cs) < length s" using Cons by simp
      show "spare tb' \<or> CHR 0x1B \<notin> set (drop n cs) \<or> CHR ''K'' \<notin> set (drop n cs)"
        using less.prems(2) spare_same [OF that(2)] Cons by (auto dest: in_set_dropD)
    qed (rule that(1))
    then have IH0: "tb_safe tb' (tb_put_s cs tb')" if "tb_wf tb'" "same_shape tb tb'" for tb' using that by (metis drop0)
    have step: "tb_safe tb r \<Longrightarrow> tb_safe tb (r \<bind> tb_put_s cs)" for r by (rule tb_safe_bind) (simp_all add: IH0)
    from step [OF tb_back_safe [OF less.prems(1)]] have bk: "tb_safe tb (tb_put_s cs (tb_back tb))" by simp
    have "0 < tb_cols tb" using tb_wfD(2) [OF less.prems(1)] .
    from step [OF tb_safe_cursor(2) [OF less.prems(1) this]] have cr: "tb_safe tb (tb_put_s cs (tb\<lparr>tb_col := 0\<rparr>))" by simp
    have esc: "tb_safe tb (tb_interp_esc_seq cs tb \<bind> (\<lambda>(n, tb). tb_put_s (drop n cs) tb))" if "c = CHR 0x1B"
    proof -
      have "spare tb \<or> CHR ''K'' \<notin> set cs" using less.prems(2) that Cons by auto
      from tb_interp_safe [OF less.prems(1) this] obtain n tb' where
        t: "tb_interp_esc_seq cs tb = Some (n, tb')" "tb_wf tb'" "same_shape tb tb'" by blast
      from IH [OF t(2,3)] t(1,3) show ?thesis by (auto simp: tb_safe_def intro: same_shape_trans)
    qed
    show ?thesis unfolding Cons tb_put_s_step
      using bk cr esc step [OF tb_next_line_safe [OF less.prems(1)]] step [OF tb_print_safe [OF less.prems(1)]]
      by (simp split: if_split)
  qed
qed

section \<open>Printing text\<close>

definition tb_pos :: "term_buffer \<Rightarrow> nat" where
  "tb_pos tb = tb_row tb * tb_cols tb + tb_col tb"

definition plain :: "char \<Rightarrow> bool" where
  "plain c \<longleftrightarrow> 32 \<le> (of_char c :: nat) \<and> (of_char c :: nat) < 127"

lemma tb_advance_ok:
  assumes wf: "tb_wf tb" and p: "tb_pos tb + 1 < tb_rows tb * tb_cols tb"
  shows "\<exists>tb'. tb_cursor_advance tb = Some tb' \<and> tb_wf tb' \<and> tb_pos tb' = tb_pos tb + 1
    \<and> tb' = tb\<lparr>tb_row := tb_row tb', tb_col := tb_col tb'\<rparr>"
proof (cases "tb_col tb = tb_cols tb - 1")
  case True
  then have e: "tb_pos tb + 1 = Suc (tb_row tb) * tb_cols tb" using tb_wfD(2) [OF wf] by (simp add: tb_pos_def)
  then have "Suc (tb_row tb) < tb_rows tb" using p by (metis mult_less_cancel2)
  then show ?thesis using True wf e
    by (intro exI [of _ "tb\<lparr>tb_row := Suc (tb_row tb), tb_col := 0\<rparr>"])
      (simp add: tb_cursor_advance_def tb_cursor_next_line_def tb_wf_def tb_pos_def)
next
  case False
  then show ?thesis using wf
    by (intro exI [of _ "tb\<lparr>tb_col := tb_col tb + 1\<rparr>"]) (auto simp: tb_cursor_advance_def tb_wf_def tb_pos_def)
qed

lemma tb_print_ok:
  assumes wf: "tb_wf tb" and p: "tb_pos tb + 1 < tb_rows tb * tb_cols tb" and c: "plain c"
  shows "\<exists>tb'. tb_print c tb = Some tb' \<and> tb_wf tb' \<and> tb_pos tb' = tb_pos tb + 1
    \<and> tb' = tb\<lparr>tb_buf := (tb_buf tb)[tb_pos tb := \<lparr>tc_style = tb_style tb, tc_c = c\<rparr>], tb_row := tb_row tb', tb_col := tb_col tb'\<rparr>"
proof -
  let ?b = "(tb_buf tb)[tb_pos tb := \<lparr>tc_style = tb_style tb, tc_c = c\<rparr>]"
  have "tb_wf (tb\<lparr>tb_buf := ?b\<rparr>)" "tb_pos (tb\<lparr>tb_buf := ?b\<rparr>) + 1 < tb_rows (tb\<lparr>tb_buf := ?b\<rparr>) * tb_cols (tb\<lparr>tb_buf := ?b\<rparr>)"
    using wf p by (simp_all add: tb_wf_def tb_pos_def)
  from tb_advance_ok [OF this] obtain tb' where "tb_cursor_advance (tb\<lparr>tb_buf := ?b\<rparr>) = Some tb'" "tb_wf tb'"
    "tb_pos tb' = tb_pos tb + 1" "tb' = tb\<lparr>tb_buf := ?b, tb_row := tb_row tb', tb_col := tb_col tb'\<rparr>"
    by (auto simp: tb_pos_def)
  moreover have "tb_pos tb < length (tb_buf tb)" using p tb_wfD(3) [OF wf] by linarith
  ultimately show ?thesis using c by (intro exI [of _ tb']) (simp add: tb_print_def printable_def plain_def tb_pos_def)
qed

text \<open>The array after the cells of \<open>s\<close> have been written from \<open>i\<close> on.\<close>

fun cells_of :: "nat \<Rightarrow> term_style \<Rightarrow> string \<Rightarrow> term_cell list \<Rightarrow> term_cell list" where
  "cells_of i st [] b = b"
| "cells_of i st (c # s) b = cells_of (i + 1) st s (b[i := \<lparr>tc_style = st, tc_c = c\<rparr>])"

lemma cells_of_nth:
  "i + length s \<le> length b \<Longrightarrow> j < length b \<Longrightarrow> cells_of i st s b ! j
    = (if i \<le> j \<and> j < i + length s then \<lparr>tc_style = st, tc_c = s ! (j - i)\<rparr> else b ! j)"
proof (induction s arbitrary: i b)
  case (Cons c s)
  then show ?case by (auto simp: nth_list_update nth_Cons' Suc_diff_Suc)
qed auto

lemma cells_of_length [simp]: "length (cells_of i st s b) = length b"
  by (induction s arbitrary: i b) auto

lemma tb_put_s_plain:
  assumes "tb_wf tb" and "\<forall>c\<in>set s. plain c" and "tb_pos tb + length s < tb_rows tb * tb_cols tb"
  shows "\<exists>tb'. tb_put_s s tb = Some tb' \<and> tb_wf tb' \<and> tb_pos tb' = tb_pos tb + length s
    \<and> tb' = tb\<lparr>tb_buf := cells_of (tb_pos tb) (tb_style tb) s (tb_buf tb), tb_row := tb_row tb', tb_col := tb_col tb'\<rparr>"
  using assms
proof (induction s arbitrary: tb)
  case Nil
  then show ?case by (intro exI [of _ tb]) simp
next
  case (Cons c s)
  have c: "plain c" using Cons.prems(2) by simp
  have p: "tb_pos tb + 1 < tb_rows tb * tb_cols tb" using Cons.prems(3) by simp
  from tb_print_ok [OF Cons.prems(1) p c] obtain t1 where t1: "tb_print c tb = Some t1" "tb_wf t1" "tb_pos t1 = tb_pos tb + 1"
    "t1 = tb\<lparr>tb_buf := (tb_buf tb)[tb_pos tb := \<lparr>tc_style = tb_style tb, tc_c = c\<rparr>], tb_row := tb_row t1, tb_col := tb_col t1\<rparr>"
    by blast
  have f: "tb_rows t1 = tb_rows tb" "tb_cols t1 = tb_cols tb" "tb_style t1 = tb_style tb"
    "tb_buf t1 = (tb_buf tb)[tb_pos tb := \<lparr>tc_style = tb_style tb, tc_c = c\<rparr>]" by (subst t1(4), simp)+
  from Cons.IH [OF t1(2)] Cons.prems(2,3) obtain tb' where tb': "tb_put_s s t1 = Some tb'" "tb_wf tb'"
    "tb_pos tb' = tb_pos tb + Suc (length s)"
    "tb' = t1\<lparr>tb_buf := cells_of (tb_pos t1) (tb_style t1) s (tb_buf t1), tb_row := tb_row tb', tb_col := tb_col tb'\<rparr>"
    unfolding f(1,2) t1(3) by auto
  have "tb' = tb\<lparr>tb_buf := cells_of (tb_pos tb) (tb_style tb) (c # s) (tb_buf tb), tb_row := tb_row tb', tb_col := tb_col tb'\<rparr>"
    by (subst tb'(4), subst t1(4)) (simp add: f t1(3))
  moreover have "c \<noteq> CHR 0x0A" "c \<noteq> CHR 0x0D" "c \<noteq> CHR 0x08" "c \<noteq> CHR 0x1B" using c by (auto simp: plain_def)
  then have "tb_put_s (c # s) tb = Some tb'" using t1(1) tb'(1) unfolding tb_put_s_step by simp
  ultimately show ?case using tb'(2,3) by auto
qed

section \<open>An example\<close>

definition tb_sample :: "nat \<Rightarrow> nat \<Rightarrow> term_buffer" where
  "tb_sample n r = \<lparr>tb_al = True, tb_default = \<lparr>tc_style = 15, tc_c = CHR '' ''\<rparr>, tb_rows = 2, tb_cols = 3, tb_row = r, tb_col = 1,
     tb_style = 15, tb_buf = map (\<lambda>i. \<lparr>tc_style = 15, tc_c = CHR ''x''\<rparr>) [0..<n]\<rparr>"

lemma tb_sample_wf: "6 \<le> n \<Longrightarrow> r < 2 \<Longrightarrow> tb_wf (tb_sample n r)"
  by (simp add: tb_wf_def tb_sample_def)

section \<open>The promises of the terminal buffer\<close>

text \<open>C37. Printable text that fits before the end of the buffer is stored from the cursor on, row by row, in the
  current style; the cursor stands behind it, and nothing else changes.\<close>

theorem tb_put_s_text:
  assumes "tb_wf tb" and "\<forall>c\<in>set s. plain c" and "tb_pos tb + length s < tb_rows tb * tb_cols tb"
  shows "\<exists>tb'. tb_put_s s tb = Some tb' \<and> tb_wf tb' \<and> tb_pos tb' = tb_pos tb + length s \<and> same_shape tb tb'
    \<and> tb_style tb' = tb_style tb
    \<and> (\<forall>j<length (tb_buf tb). tb_buf tb' ! j = (if tb_pos tb \<le> j \<and> j < tb_pos tb + length s
         then \<lparr>tc_style = tb_style tb, tc_c = s ! (j - tb_pos tb)\<rparr> else tb_buf tb ! j))"
proof -
  from tb_put_s_plain [OF assms] obtain tb' where t: "tb_put_s s tb = Some tb'" "tb_wf tb'" "tb_pos tb' = tb_pos tb + length s"
    "tb' = tb\<lparr>tb_buf := cells_of (tb_pos tb) (tb_style tb) s (tb_buf tb), tb_row := tb_row tb', tb_col := tb_col tb'\<rparr>" by blast
  have f: "tb_buf tb' = cells_of (tb_pos tb) (tb_style tb) s (tb_buf tb)" "tb_style tb' = tb_style tb" "same_shape tb tb'"
    by (subst t(4), simp add: same_shape_def)+
  have "tb_pos tb + length s \<le> length (tb_buf tb)" using assms(3) tb_wfD(3) [OF assms(1)] by linarith
  then show ?thesis using t(1-3) f cells_of_nth by (intro exI [of _ tb']) simp
qed

theorem tb_put_s_text_witness:
  "\<exists>tb'. tb_put_s ''abc'' (tb_sample 6 0) = Some tb' \<and> tc_c (tb_buf tb' ! 3) = CHR ''c'' \<and> tc_c (tb_buf tb' ! 4) = CHR ''x''
     \<and> tb_pos tb' = 4"
proof -
  have f: "tb_pos (tb_sample 6 0) = 1" "tb_rows (tb_sample 6 0) * tb_cols (tb_sample 6 0) = 6" "length (tb_buf (tb_sample 6 0)) = 6"
    "tb_buf (tb_sample 6 0) ! 4 = \<lparr>tc_style = 15, tc_c = CHR ''x''\<rparr>" by (simp_all add: tb_sample_def tb_pos_def)
  have p: "\<forall>c\<in>set ''abc''. plain c" by (simp add: plain_def)
  have "tb_pos (tb_sample 6 0) + length ''abc'' < tb_rows (tb_sample 6 0) * tb_cols (tb_sample 6 0)" unfolding f by simp
  from tb_put_s_text [OF tb_sample_wf p this] obtain tb' where t: "tb_put_s ''abc'' (tb_sample 6 0) = Some tb'" "tb_pos tb' = 1 + length ''abc''"
    "\<forall>j<6. tb_buf tb' ! j = (if 1 \<le> j \<and> j < 1 + length ''abc''
      then \<lparr>tc_style = tb_style (tb_sample 6 0), tc_c = ''abc'' ! (j - 1)\<rparr> else tb_buf (tb_sample 6 0) ! j)"
    unfolding f by auto
  from t(3) [rule_format, of 3] t(3) [rule_format, of 4] t(1,2) f(4) show ?thesis by (intro exI [of _ tb']) simp
qed

text \<open>C40. Scrolling by less than the height of the buffer moves every row and fills the rows that become free with
  the default cell; by its height or more it clears the buffer.  The cursor stays in the first case and
  goes to the upper left corner in the second.\<close>

theorem tb_scroll_spec:
  assumes "tb_wf tb" and "r < tb_rows tb" and "c < tb_cols tb"
  shows "\<exists>up down. tb_scroll_up shift tb = Some up \<and> tb_scroll_down shift tb = Some down \<and> same_shape tb up \<and> same_shape tb down
    \<and> tb_buf up ! (r * tb_cols tb + c) = (if r + shift < tb_rows tb then tb_buf tb ! ((r + shift) * tb_cols tb + c) else tb_default tb)
    \<and> tb_buf down ! (r * tb_cols tb + c) = (if shift \<le> r then tb_buf tb ! ((r - shift) * tb_cols tb + c) else tb_default tb)
    \<and> (let cursor = (if shift < tb_rows tb then (tb_row tb, tb_col tb) else (0, 0))
       in (tb_row up, tb_col up) = cursor \<and> (tb_row down, tb_col down) = cursor)"
proof (cases "shift < tb_rows tb")
  case True
  let ?c = "tb_cols tb"
  from tb_scroll_up_ok [OF assms(1) True] obtain u where u: "tb_scroll_up shift tb = Some (tb\<lparr>tb_buf := u\<rparr>)"
    "length u = length (tb_buf tb)" "\<forall>j<length u. u ! j = (if j < (tb_rows tb - shift) * ?c then tb_buf tb ! (j + shift * ?c)
         else if j < tb_rows tb * ?c then tb_default tb else tb_buf tb ! j)" by blast
  from tb_scroll_down_ok [OF assms(1) True] obtain d where d: "tb_scroll_down shift tb = Some (tb\<lparr>tb_buf := d\<rparr>)"
    "length d = length (tb_buf tb)" "\<forall>j<length d. d ! j = (if j < shift * ?c then tb_default tb
         else if j < tb_rows tb * ?c then tb_buf tb ! (j - shift * ?c) else tb_buf tb ! j)" by blast
  have j: "r * ?c + c < length (tb_buf tb)" "r * ?c + c < tb_rows tb * ?c"
    using cell_in [OF assms] row_in [OF assms(2), of ?c] assms(3) by linarith+
  have less: "r * ?c + c < m * ?c \<longleftrightarrow> r < m" for m
  proof
    assume "r * ?c + c < m * ?c"
    then have "r * ?c < m * ?c" by linarith
    then show "r < m" by simp
  next
    assume "r < m"
    then show "r * ?c + c < m * ?c" using row_in [of r m ?c] assms(3) by linarith
  qed
  have "u ! (r * ?c + c) = (if r + shift < tb_rows tb then tb_buf tb ! ((r + shift) * ?c + c) else tb_default tb)"
    using u(2,3) j less [of "tb_rows tb - shift"] by (auto simp: add_mult_distrib algebra_simps less_diff_conv)
  moreover have "d ! (r * ?c + c) = (if shift \<le> r then tb_buf tb ! ((r - shift) * ?c + c) else tb_default tb)"
    using d(2,3) j less [of shift] by (auto simp: diff_mult_distrib not_less mult_le_mono1)
  ultimately show ?thesis using u(1,2) d(1,2) True
    by (intro exI [of _ "tb\<lparr>tb_buf := u\<rparr>"] exI [of _ "tb\<lparr>tb_buf := d\<rparr>"]) (simp add: same_shape_def)
next
  case False
  from tb_clear_ok [OF assms(1), of "tb_default tb"] obtain b where b:
    "tb_default_clear tb = Some (tb\<lparr>tb_buf := b, tb_row := 0, tb_col := 0\<rparr>)" "length b = length (tb_buf tb)"
    "\<forall>j<length b. b ! j = (if j < tb_rows tb * tb_cols tb then tb_default tb else tb_buf tb ! j)"
    by (auto simp: tb_default_clear_def)
  have "r * tb_cols tb + c < tb_rows tb * tb_cols tb" using row_in [OF assms(2), of "tb_cols tb"] assms(3) by linarith
  then have "b ! (r * tb_cols tb + c) = tb_default tb" using b(2,3) cell_in [OF assms] by simp
  then show ?thesis using b(1,2) False assms(2)
    by (simp add: tb_scroll_up_def tb_scroll_down_def same_shape_def)
qed

theorem tb_scroll_spec_witness:
  "\<exists>up. tb_scroll_up 1 (tb_sample 6 0) = Some up \<and> tc_c (tb_buf up ! 5) = CHR '' '' \<and> tb_col up = 1"
proof -
  have "1 < tb_rows (tb_sample 6 0)" "2 < tb_cols (tb_sample 6 0)" by (simp_all add: tb_sample_def)
  from tb_scroll_spec [OF tb_sample_wf this, of 1] show ?thesis by (auto simp: tb_sample_def)
qed

text \<open>C38. Any string, with any control sequences, can be put into a well-formed buffer whose array has at least one
  cell more than its rows and columns need: no cell outside the array is touched and the cursor stays in
  the buffer.  Without the spare cell this holds for strings without an escape or without a \<open>K\<close>.\<close>

theorem tb_put_s_bounds:
  assumes "tb_wf tb" and "tb_rows tb * tb_cols tb < length (tb_buf tb) \<or> CHR 0x1B \<notin> set s \<or> CHR ''K'' \<notin> set s"
  shows "\<exists>tb'. tb_put_s s tb = Some tb' \<and> tb_wf tb' \<and> same_shape tb tb'"
  using tb_put_s_safe [OF assms(1)] assms(2) by (simp add: spare_def tb_safe_def)

theorem tb_put_s_bounds_witness:
  "(\<exists>tb'. tb_put_s (CHR 0x1B # ''[2K'') (tb_sample 7 1) = Some tb' \<and> tb_wf tb')
   \<and> (\<exists>tb'. tb_put_s (CHR 0x1B # ''[9T'') (tb_sample 6 1) = Some tb' \<and> tb_wf tb')"
  using tb_put_s_bounds [OF tb_sample_wf, of 7 1 "CHR 0x1B # ''[2K''"] tb_put_s_bounds [OF tb_sample_wf, of 6 1 "CHR 0x1B # ''[9T''"]
  by (auto simp: tb_sample_def)

text \<open>C39. Clearing the line the cursor is in, on a buffer as large as its rows and columns, as it is allocated: in
  the last row a cell beyond the array is written; in any other row the first cell of the next row is
  cleared too.\<close>

theorem tb_clear_line_overflows:
  assumes "tb_wf tb" and "length (tb_buf tb) = tb_rows tb * tb_cols tb"
  shows "if tb_row tb + 1 = tb_rows tb then tb_put_s (CHR 0x1B # ''[2K'') tb = None
    else \<exists>tb'. tb_put_s (CHR 0x1B # ''[2K'') tb = Some tb' \<and> tb_buf tb' ! ((tb_row tb + 1) * tb_cols tb) = tb_default tb"
proof -
  let ?row = "tb_row tb * tb_cols tb" and ?n = "Suc (tb_cols tb)"
  have put: "tb_put_s (CHR 0x1B # ''[2K'') tb = cells_fill ?n ?row (tb_default tb) (tb_buf tb) \<bind> (\<lambda>buf. Some (tb\<lparr>tb_buf := buf\<rparr>))"
    unfolding tb_put_s_step by (simp add: tb_interp_esc_seq_def esc_cmd_def esc_line_def Let_def del: cells_fill.simps)
  show ?thesis
  proof (cases "tb_row tb + 1 = tb_rows tb")
    case True
    then have len: "length (tb_buf tb) = ?row + tb_cols tb" using assms(2) by (metis add.commute mult_Suc Suc_eq_plus1)
    then have "length (tb_buf tb) < ?row + ?n" by simp
    from cells_fill_beyond [OF this] show ?thesis using True put by simp
  next
    case False
    then have "Suc (tb_row tb) < tb_rows tb" using tb_wfD(4) [OF assms(1)] by simp
    from row_in [OF this, of "tb_cols tb"] have "?row + tb_cols tb + tb_cols tb \<le> length (tb_buf tb)" using assms(2) by simp
    then have len: "?row + ?n \<le> length (tb_buf tb)" "?row + tb_cols tb < length (tb_buf tb)" using tb_wfD(2) [OF assms(1)] by linarith+
    from cells_fill_ok [OF len(1), of "tb_default tb"] len(2) obtain b where
      "cells_fill ?n ?row (tb_default tb) (tb_buf tb) = Some b" "b ! (?row + tb_cols tb) = tb_default tb" by auto
    then show ?thesis using False put by (simp add: add.commute)
  qed
qed

theorem tb_clear_line_overflows_witness: "tb_put_s (CHR 0x1B # ''[2K'') (tb_sample 6 1) = None"
proof -
  have "length (tb_buf (tb_sample 6 1)) = tb_rows (tb_sample 6 1) * tb_cols (tb_sample 6 1)" by (simp add: tb_sample_def)
  from tb_clear_line_overflows [OF tb_sample_wf this] show ?thesis by (simp add: tb_sample_def)
qed

text \<open>What \<^verbatim>\<open>new_term_buffer\<close> makes, and that the size of a very large buffer wraps around.\<close>

lemma new_term_buffer_ok:
  assumes "0 < rows" and "0 < cols" and "4 * rows * cols < 2 ^ 32"
  shows "\<exists>tb. new_term_buffer True True junk True def rows cols = Some (Some tb) \<and> tb_wf tb
    \<and> length (tb_buf tb) = rows * cols \<and> tb_pos tb = 0 \<and> (\<forall>j<rows * cols. tb_buf tb ! j = def)"
proof -
  let ?tb = "\<lparr>tb_al = True, tb_default = def, tb_rows = rows, tb_cols = cols, tb_row = 0, tb_col = 0,
          tb_style = tc_style def, tb_buf = map junk [0..<cells_bytes rows cols div 4]\<rparr>"
  have n: "cells_bytes rows cols div 4 = rows * cols" using assms(3) by (simp add: cells_bytes_def)
  have "tb_wf ?tb" using assms(1,2) by (simp add: tb_wf_def n)
  from tb_clear_ok [OF this, of def] show ?thesis using assms(1,2)
    by (auto simp: new_term_buffer_def tb_default_clear_def tb_wf_def tb_pos_def n)
qed

lemma new_term_buffer_wraps: "new_term_buffer True True junk True def 0x8000 0x8000 = None"
proof -
  have "0 < n \<Longrightarrow> cells_fill n 0 def [] = None" for n by (cases n) (simp_all add: arr_set_def)
  moreover have "cells_bytes 0x8000 0x8000 = 0" by (simp add: cells_bytes_def)
  ultimately show ?thesis by (simp add: new_term_buffer_def tb_default_clear_def tb_clear_def)
qed

end
