(* ===== verification/Spec2Isabelle.thy ===== *)
theory Spec2Isabelle
  imports Linked_List Basic_Wait_Queue Vector_Wait_Queue Timed_Wait_Queue Id_Table Ring
    Fixed_Queue Max_Heap Hash_Map Kernel_Correctness
    Cached_Device_Correctness Fat32_Correctness Mutex Pipe_Correctness Term_Buffer
begin

text \<open>
  Verification of the core of FernOS, a 32-bit x86 operating system in C (all paths are below
  \<^verbatim>\<open>src/src/\<close>).

  \<^bold>\<open>The program.\<close>  The kernel (\<^verbatim>\<open>k_startup\<close>) keeps processes, their threads and one schedule, and reacts to
  interrupts: the timer, faults and system calls.  It is built on the containers of \<^verbatim>\<open>s_data\<close>: a thread that
  runs or could run is an element of the ring of the schedule, every other one waits in one of three kinds of
  wait queue (for an event mask, for a time, or for anything), ids of processes, threads and handles come from
  id tables.  What user programs use beyond threads and signals are plugins of the kernel (futexes, pipes and
  others) behind handles and commands.  Storage (\<^verbatim>\<open>s_block_device\<close>) is a stack of block devices: a device, a
  write-back cache over any device with a hash map as its index, and FAT32 volumes over any device.  Terminals
  put their text through the terminal buffer of \<^verbatim>\<open>s_data\<close>; the mutex of \<^verbatim>\<open>u_concur\<close> is user code over the
  futexes of the kernel.

  \<^bold>\<open>Conventions.\<close>  Structures that point to each other live in stores keyed by address (\<open>addr \<Rightarrow> 'x option\<close>);
  NULL is the \<open>None\<close> of an \<open>addr option\<close>.  An operation whose C code can dereference a bad pointer, leave an
  array or loop forever has a result in \<open>option\<close>: \<open>None\<close> is that behaviour, and every theorem that says
  \<open>f x = Some y\<close> also says that it does not occur.  Errors are the values of \<^verbatim>\<open>err.h\<close> (\<open>fernos_error\<close>), returned
  beside the new state.  Words that only pass through are \<open>32 word\<close>; counters and sizes are natural numbers
  with each operation that can wrap taken modulo \<open>2 ^ 32\<close> (or \<open>256\<close> for \<^verbatim>\<open>uint8_t\<close>); two kinds are unbounded: the
  length of a linked list, which cannot reach \<open>2 ^ 32\<close> nodes in an address space of that size, and the
  \<^verbatim>\<open>uint16_t\<close> sizes and positions of the terminal buffer, whose theorems hold for all the values of the code and
  for larger ones.  Loops are recursive functions;
  a loop that may not end (the walks along FAT chains, the probing of chains of nodes) has as many steps as the
  structure has cells, one step more is \<open>None\<close>, and the theorems prove that no state that satisfies the invariant
  gets there.
  Allocation is a parameter: an allocator picks an address that is not in use or fails; \<open>alloc_ok\<close> and \<open>oom\<close>
  say that of an allocator, and flags stand for allocations whose addresses play no role.

  \<^bold>\<open>Theories.\<close>
  \<^item> \<open>Fern_Prelude\<close>: error codes, allocators, checked array access, doubly linked segments.
    \<open>Byte_Cells\<close>: byte buffers divided into cells.
  \<^item> \<open>List_Interface\<close> (locale \<open>list_contract\<close>) and \<open>Linked_List\<close>: \<^verbatim>\<open>s_data/list.h\<close>, \<^verbatim>\<open>list.c\<close>.  The contract is
    interpreted on the nodes of the code; the default algorithms are proved inside it.
  \<^item> \<open>Basic_Wait_Queue\<close>, \<open>Vector_Wait_Queue\<close>, \<open>Timed_Wait_Queue\<close>: \<^verbatim>\<open>s_data/wait_queue.c\<close>, proved over any pair of
    lists (locale \<open>queue_pair\<close> and its three extensions), interpreted on the linked list.
  \<^item> \<open>Id_Table\<close>, \<open>Ring\<close>, \<open>Fixed_Queue\<close>, \<open>Max_Heap\<close>: the files of the same names in \<^verbatim>\<open>s_data\<close>; an id table against
    a partial function and two lists of ids, a ring against a cyclic list, the queue and the heap against lists
    of cells.
  \<^item> \<open>Map_Interface\<close> (locale \<open>map_contract\<close>) and \<open>Hash_Map\<close>: \<^verbatim>\<open>s_data/map.h\<close>, \<^verbatim>\<open>map.c\<close>, rehashing and iterators included.
  \<^item> \<open>Kernel_Heap\<close>, \<open>Threads\<close>, \<open>Processes\<close>, \<open>Kernel_State\<close>, \<open>Syscalls\<close>, \<open>Actions\<close>: \<^verbatim>\<open>k_startup/src/thread.c\<close>, \<^verbatim>\<open>process.c\<close>,
    \<^verbatim>\<open>plugin.c\<close>, \<^verbatim>\<open>state.c\<close> and \<^verbatim>\<open>action.c\<close>.  \<open>placed K W S\<close> (in \<open>Threads\<close>) is the central invariant: the rings of the
    kernel \<open>K\<close> are the cyclic lists \<open>S\<close>, its wait queues hold \<open>W\<close>, and every thread is exactly where its state and
    its \<^verbatim>\<open>wq\<close> field say.  Page directories, user memory and the loader are the fields of the record \<open>kenv\<close>.
  \<^item> \<open>Scheduling\<close>, \<open>Signals\<close>, \<open>Kernel_Invariant\<close>, \<open>Thread_Lifecycle\<close>, \<open>Kernel_Steps\<close>, \<open>Sleeping\<close>, \<open>Kernel_Correctness\<close> (with the
    instance \<open>Sample_Kernel\<close>): the system calls keep the invariant \<open>kernel_inv\<close> and leave the sleeping threads where
    they are (\<open>keeps\<close>); \<open>kevent\<close>, \<open>kcall\<close> (a step with its answer to the kernel), \<open>kstep\<close>, \<open>reachable\<close> and \<open>krun\<close> are
    the kernel as a transition system, in which no step faults, no signal and no exit is missed by a waiting
    thread, and a sleeper is back on the schedule after exactly the ticks it asked for.  The steps of that system
    do not end a process (\<open>permitted\<close>): a signal goes to a process that allows it, no pending signal is forbidden, no
    main thread exits; \<^verbatim>\<open>ks_fork_proc\<close>, \<^verbatim>\<open>ks_exit_proc\<close>, \<^verbatim>\<open>ks_reap_proc\<close>, \<^verbatim>\<open>ks_exec\<close> and the handle and plugin commands are
    translated, but not among its events; it also has fewer than \<open>2 ^ 31\<close> threads.
  \<^item> \<open>Plugin_Futex\<close>, \<open>Futex_Correctness\<close>, \<open>Mutex\<close>: \<^verbatim>\<open>k_startup/src/plugin_fut.c\<close> and \<^verbatim>\<open>u_concur/src/mutex.c\<close>.  The mutex is an
    interleaving of atomic steps of any number of threads; its futex steps are shown to be what the kernel's
    commands do to the queue of the futex, to the schedule and to the result registers, whether memory is left
    or not.
  \<^item> \<open>Plugin_Pipe\<close>, \<open>Pipe_Buffers\<close>, \<open>Blocking\<close>, \<open>Pipe_Correctness\<close>: \<^verbatim>\<open>k_startup/src/plugin_pipe.c\<close>.  A pipe is a bounded queue of
    bytes (\<open>pipe_data\<close>) between the memory of its users, with the threads that wait for it (\<open>pipe_waiters\<close>).
  \<^item> \<open>Block_Device\<close> (locale \<open>block_device\<close>: a device is a list of sectors), \<open>Mem_Block_Device\<close>, \<open>Cached_Block_Device\<close>,
    \<open>Cached_Device_Correctness\<close>: the files of the same names in \<^verbatim>\<open>s_block_device\<close>.  The contract is interpreted on the
    device in memory, and a sublocale gives it for the cache over every device that fulfils it.
  \<^item> \<open>Fat32_Device\<close>, \<open>Fat32_Slots\<close>, \<open>Fat32_Chains\<close>, \<open>Fat32_Transfers\<close>, \<open>Fat32_Correctness\<close>: \<^verbatim>\<open>s_block_device/fat32.c\<close>, over any
    block device.  The table is a list of slots (\<open>fat32_state\<close>), a chain a list of clusters.  \<open>fat32_geometry\<close> says
    that the regions of the volume fit on the device; allocation is proved for volumes that begin at sector 0,
    because the search for free slots forgets the offset of the volume (\<open>fat32_free_slot_in_use\<close>).
  \<^item> \<open>Term_Buffer\<close>: \<^verbatim>\<open>s_data/term_buffer.c\<close>, the printing of text and the ANSI sequences.

  \<^bold>\<open>Not modelled.\<close>  What only talks to the hardware or is assembly (\<^verbatim>\<open>k_sys\<close>, \<^verbatim>\<open>boot.S\<close>, the descriptor tables, the ATA
  driver, \<^verbatim>\<open>s_bridge/ctx.c\<close>); graphics (\<^verbatim>\<open>s_gfx\<close>, \<^verbatim>\<open>k_startup/gfx.c\<close>, \<^verbatim>\<open>plugin_gfx.c\<close>); page tables (\<^verbatim>\<open>page.c\<close>,
  \<^verbatim>\<open>page_helpers.c\<close>), which the kernel model takes as parameters; the file system above the FAT32 device
  (\<^verbatim>\<open>fat32_dir.c\<close>, \<^verbatim>\<open>fat32_file_sys.c\<close>, \<^verbatim>\<open>file_sys.c\<close>, \<^verbatim>\<open>plugin_fs.c\<close>); the keyboard and shared-memory plugins; the
  allocator \<^verbatim>\<open>simple_heap.c\<close>; formatted printing (\<^verbatim>\<open>s_util/src/str.c\<close>); the user side of the system calls
  (\<^verbatim>\<open>u_startup\<close>), which only loads registers; tests and applications.
\<close>

end
